(* ===== verification/Prelude.thy ===== *)
theory Prelude
  imports Main "HOL-Library.Word" "HOL-Library.Char_ord" "HOL-Library.List_Lexorder"
    "HOL-Library.Product_Lexorder" "HOL-Library.Sublist"
begin

text \<open>
  Shared material of the development: the result type of fallible operations, the model of
  Rust strings as their UTF-8 bytes with the slice and split operations the components use,
  whitespace and ASCII classes, the standard library's binary search, and generic facts on
  sorted lists.  A Rust \<open>str\<close> is a HOL \<open>string\<close> whose characters are its bytes, so \<open>length\<close>
  is \<open>str::len\<close> and the lexicographic order of \<open>List_Lexorder\<close> is the byte order of \<open>str\<close>.
\<close>

unbundle bit_operations_syntax

named_theorems str_simps \<open>equations of the byte-string operations\<close>

type_synonym u8 = "8 word"
type_synonym u32 = "32 word"
type_synonym u64 = "64 word"

section \<open>Results\<close>

text \<open>A Rust \<open>Result\<close>: \<open>Inl\<close> is \<open>Err\<close>, \<open>Inr\<close> is \<open>Ok\<close>; \<open>and_then\<close> is the \<open>?\<close> operator.\<close>

definition and_then :: "('e + 'a) \<Rightarrow> ('a \<Rightarrow> 'e + 'b) \<Rightarrow> 'e + 'b" where
  "and_then r f = (case r of Inl e \<Rightarrow> Inl e | Inr a \<Rightarrow> f a)"

lemma and_then_simps [simp]:
  "and_then (Inl e) f = Inl e"
  "and_then (Inr a) f = f a"
  by (simp_all add: and_then_def)

lemma and_then_Inr_iff [simp]:
  "and_then r f = Inr b \<longleftrightarrow> (\<exists>a. r = Inr a \<and> f a = Inr b)"
  by (cases r) simp_all

lemma and_then_cong [fundef_cong]:
  "r = r' \<Longrightarrow> (\<And>a. r' = Inr a \<Longrightarrow> f a = g a) \<Longrightarrow> and_then r f = and_then r' g"
  by (cases r') simp_all

section \<open>Byte strings\<close>

definition starts_with :: "'a list \<Rightarrow> 'a list \<Rightarrow> bool" where
  "starts_with s p \<longleftrightarrow> take (length p) s = p"

definition ends_with :: "'a list \<Rightarrow> 'a list \<Rightarrow> bool" where
  "ends_with s p \<longleftrightarrow> length p \<le> length s \<and> drop (length s - length p) s = p"

definition strip_prefix :: "'a list \<Rightarrow> 'a list \<Rightarrow> 'a list option" where
  "strip_prefix s p = (if starts_with s p then Some (drop (length p) s) else None)"

definition strip_suffix :: "'a list \<Rightarrow> 'a list \<Rightarrow> 'a list option" where
  "strip_suffix s p = (if ends_with s p then Some (take (length s - length p) s) else None)"

text \<open>\<open>str::find\<close> of a substring: the byte offset of the first occurrence.\<close>

fun find_sub :: "'a list \<Rightarrow> 'a list \<Rightarrow> nat option" where
  "find_sub [] p = (if p = [] then Some 0 else None)"
| "find_sub (c # s) p = (if starts_with (c # s) p then Some 0 else map_option Suc (find_sub s p))"

definition contains_sub :: "'a list \<Rightarrow> 'a list \<Rightarrow> bool" where
  "contains_sub s p \<longleftrightarrow> find_sub s p \<noteq> None"

text \<open>\<open>str::split\<close> on a character class; never empty.\<close>

fun split_by :: "('a \<Rightarrow> bool) \<Rightarrow> 'a list \<Rightarrow> 'a list list" where
  "split_by P [] = [[]]"
| "split_by P (c # s) =
     (if P c then [] # split_by P s
      else (case split_by P s of [] \<Rightarrow> [[c]] | w # ws \<Rightarrow> (c # w) # ws))"

definition split_on :: "'a \<Rightarrow> 'a list \<Rightarrow> 'a list list" where
  "split_on c = split_by (\<lambda>x. x = c)"

fun join_with :: "'a list \<Rightarrow> 'a list list \<Rightarrow> 'a list" where
  "join_with sep [] = []"
| "join_with sep [w] = w"
| "join_with sep (w # v # ws) = w @ sep @ join_with sep (v # ws)"

text \<open>\<open>str::rfind\<close> of one byte, and the two halves \<open>rsplit_once\<close> gives.\<close>

fun rfind :: "'a \<Rightarrow> 'a list \<Rightarrow> nat option" where
  "rfind c [] = None"
| "rfind c (x # s) =
     (case rfind c s of Some i \<Rightarrow> Some (Suc i) | None \<Rightarrow> if x = c then Some 0 else None)"

definition rsplit_once :: "'a \<Rightarrow> 'a list \<Rightarrow> ('a list \<times> 'a list) option" where
  "rsplit_once c s = map_option (\<lambda>i. (take i s, drop (Suc i) s)) (rfind c s)"

lemma starts_with_iff: "starts_with s p \<longleftrightarrow> (\<exists>t. s = p @ t)"
  unfolding starts_with_def by (metis append_eq_conv_conj append_take_drop_id)

lemma starts_with_simps [simp, str_simps]:
  "starts_with s []"
  "starts_with [] (c # p) = False"
  "starts_with (a # s) (b # p) \<longleftrightarrow> a = b \<and> starts_with s p"
  by (auto simp: starts_with_def)

lemma starts_with_append [simp]: "starts_with (p @ t) p"
  by (simp add: starts_with_def)

lemma starts_with_prefix: "starts_with s p \<longleftrightarrow> prefix p s"
  by (auto simp: starts_with_iff prefix_def)

lemma strip_prefix_Some_iff: "strip_prefix s p = Some t \<longleftrightarrow> s = p @ t"
  by (auto simp: strip_prefix_def starts_with_iff)

lemma strip_prefix_None_iff: "strip_prefix s p = None \<longleftrightarrow> \<not> starts_with s p"
  by (simp add: strip_prefix_def)

lemma strip_prefix_length: "strip_prefix s p = Some t \<Longrightarrow> length s = length p + length t"
  by (simp add: strip_prefix_Some_iff)

lemma contains_sub_iff: "contains_sub s p \<longleftrightarrow> (\<exists>u v. s = u @ p @ v)"
proof (induction s)
  case Nil
  then show ?case by (auto simp: contains_sub_def)
next
  case (Cons c s)
  have "(\<exists>u v. c # s = u @ p @ v) \<longleftrightarrow> starts_with (c # s) p \<or> (\<exists>u v. s = u @ p @ v)"
    unfolding starts_with_iff
    by (metis append_Cons append_Nil list.inject neq_Nil_conv)
  then show ?case using Cons by (auto simp: contains_sub_def)
qed

text \<open>Where a first match is, and what appending changes.\<close>

lemma find_sub_bound: "find_sub s p = Some i \<Longrightarrow> i + length p \<le> length s"
  by (induction s arbitrary: i) (auto simp: starts_with_prefix split: if_splits dest: prefix_length_le)

lemma starts_with_longer: "length p \<le> length s \<Longrightarrow> starts_with (s @ t) p = starts_with s p"
  by (simp add: starts_with_def)

lemma find_sub_append: "find_sub s p = Some i \<Longrightarrow> p \<noteq> [] \<Longrightarrow> find_sub (s @ t) p = Some i"
proof (induction s arbitrary: i)
  case (Cons c s)
  have "length p \<le> length (c # s)" using find_sub_bound [OF Cons.prems(1)] by simp
  then have "starts_with (c # s @ t) p = starts_with (c # s) p"
    using starts_with_longer [of p "c # s" t] by simp
  then show ?case using Cons by (auto split: if_splits)
qed simp

lemma find_sub_new:
  assumes "find_sub s p = None" and "find_sub (s @ t) p = Some i" and "p \<noteq> []"
  shows "length s < i + length p"
  using assms
proof (induction s arbitrary: i)
  case Nil
  then show ?case by (cases p) auto
next
  case (Cons c s)
  show ?case
  proof (cases "starts_with (c # s @ t) p")
    case True
    then have "i = 0" using Cons.prems by simp
    moreover have "\<not> prefix p (c # s)"
      using Cons.prems(1) by (auto simp: starts_with_prefix split: if_splits)
    moreover have "prefix p ((c # s) @ t)" using True by (simp add: starts_with_prefix)
    ultimately show ?thesis
      by (metis add_0 linorder_not_less prefix_length_prefix prefixI)
  next
    case False
    then show ?thesis using Cons by (auto split: if_splits)
  qed
qed

lemma find_sub_absent:
  "c \<notin> set u \<Longrightarrow> find_sub (u @ s) (c # p) = map_option ((+) (length u)) (find_sub s (c # p))"
  by (cases "find_sub s (c # p)"; induction u; auto)

text \<open>\<open>str::match_indices\<close> for a non-empty pattern: the non-overlapping matches from the left.\<close>

function match_indices :: "string \<Rightarrow> string \<Rightarrow> nat \<Rightarrow> nat list" where
  "match_indices s p pos =
     (if p = [] then []
      else case find_sub (drop pos s) p of
             None \<Rightarrow> []
           | Some i \<Rightarrow> (pos + i) # match_indices s p (pos + i + length p))"
  by pat_completeness auto
termination
proof (relation "measure (\<lambda>(s, p, pos). Suc (length s) - pos)", goal_cases)
  case (2 s p pos i)
  then have "i + length p \<le> length s - pos" using find_sub_bound [of "drop pos s" p i] by simp
  with 2 show ?case by (cases p) auto
qed simp

declare match_indices.simps [simp del]

lemma split_by_not_Nil [simp]: "split_by P s \<noteq> []"
  by (induction s) (auto split: list.splits)

lemma split_by_no_sep: "w \<in> set (split_by P s) \<Longrightarrow> c \<in> set w \<Longrightarrow> \<not> P c"
proof (induction s arbitrary: w)
  case (Cons a s)
  show ?case
  proof (cases "split_by P s")
    case (Cons v vs)
    with Cons.prems Cons.IH show ?thesis
      by (fastforce split: if_splits)
  qed simp
qed simp

lemma split_by_id: "\<forall>c\<in>set s. \<not> P c \<Longrightarrow> split_by P s = [s]"
  by (induction s) auto

lemma split_by_append_sep:
  "P c \<Longrightarrow> split_by P (s @ c # t) = split_by P s @ split_by P t"
proof (induction s)
  case (Cons a s)
  then show ?case
    by (cases "split_by P s") auto
qed simp

lemma join_with_Cons:
  "ws \<noteq> [] \<Longrightarrow> join_with sep (w # ws) = w @ sep @ join_with sep ws"
  by (cases ws) simp_all

lemma join_with_push: "join_with sep ((c # w) # ws) = c # join_with sep (w # ws)"
  by (cases ws) simp_all

lemma join_split_on [simp]: "join_with [c] (split_on c s) = s"
proof (induction s)
  case (Cons a s)
  then show ?case
    by (cases "split_on c s" rule: list.exhaust)
       (auto simp: split_on_def join_with_Cons join_with_push)
qed (simp add: split_on_def)

lemma split_on_join:
  "ws \<noteq> [] \<Longrightarrow> \<forall>w\<in>set ws. c \<notin> set w \<Longrightarrow> split_on c (join_with [c] ws) = ws"
proof (induction ws)
  case (Cons w ws)
  show ?case
  proof (cases "ws = []")
    case True
    with Cons.prems show ?thesis by (auto simp: split_on_def intro!: split_by_id)
  next
    case False
    with Cons have "split_on c (join_with [c] ws) = ws" by simp
    moreover have "split_by (\<lambda>x. x = c) w = [w]"
      using Cons.prems by (auto intro!: split_by_id)
    ultimately show ?thesis
      using False by (simp add: join_with_Cons split_on_def split_by_append_sep)
  qed
qed simp

lemma rfind_None_iff: "rfind c s = None \<longleftrightarrow> c \<notin> set s"
  by (induction s) (auto split: option.splits)

lemma rfind_SomeD: "rfind c s = Some i \<Longrightarrow> s = take i s @ c # drop (Suc i) s \<and> c \<notin> set (drop (Suc i) s)"
proof (induction s arbitrary: i)
  case (Cons a s)
  then show ?case
    by (cases "rfind c s") (auto simp: rfind_None_iff split: if_splits)
qed simp

lemma rfind_append: "c \<notin> set t \<Longrightarrow> rfind c (s @ c # t) = Some (length s)"
  by (induction s) (auto simp: rfind_None_iff split: option.splits)

lemma rfind_less: "rfind c s = Some i \<Longrightarrow> i < length s"
  by (induction s arbitrary: i) (auto split: option.splits if_splits)

section \<open>ASCII, UTF-8 characters, whitespace\<close>

abbreviation byte :: "char \<Rightarrow> int" where
  "byte c \<equiv> of_char c"

definition is_ascii_upper :: "char \<Rightarrow> bool" where
  "is_ascii_upper c \<longleftrightarrow> 65 \<le> byte c \<and> byte c \<le> 90"

definition is_ascii_lower :: "char \<Rightarrow> bool" where
  "is_ascii_lower c \<longleftrightarrow> 97 \<le> byte c \<and> byte c \<le> 122"

definition is_ascii_digit :: "char \<Rightarrow> bool" where
  "is_ascii_digit c \<longleftrightarrow> 48 \<le> byte c \<and> byte c \<le> 57"

definition is_ascii_alphabetic :: "char \<Rightarrow> bool" where
  "is_ascii_alphabetic c \<longleftrightarrow> is_ascii_upper c \<or> is_ascii_lower c"

definition is_ascii_alnum :: "char \<Rightarrow> bool" where
  "is_ascii_alnum c \<longleftrightarrow> is_ascii_alphabetic c \<or> is_ascii_digit c"

definition to_ascii_lower :: "char \<Rightarrow> char" where
  "to_ascii_lower c = (if is_ascii_upper c then char_of (byte c + 32) else c)"

definition ascii_lowercase :: "string \<Rightarrow> string" where
  "ascii_lowercase = map to_ascii_lower"

definition is_ascii_str :: "string \<Rightarrow> bool" where
  "is_ascii_str s \<longleftrightarrow> list_all (\<lambda>c. byte c < 128) s"

lemma ascii_lowercase_length [simp]: "length (ascii_lowercase s) = length s"
  by (simp add: ascii_lowercase_def)

lemma to_ascii_lower_idem [simp]: "to_ascii_lower (to_ascii_lower c) = to_ascii_lower c"
  by (simp add: to_ascii_lower_def is_ascii_upper_def)

lemma ascii_lowercase_idem [simp]: "ascii_lowercase (ascii_lowercase s) = ascii_lowercase s"
  by (simp add: ascii_lowercase_def)

text \<open>Continuation bytes of UTF-8; every other byte starts a character.\<close>

definition is_cont :: "char \<Rightarrow> bool" where
  "is_cont c \<longleftrightarrow> 128 \<le> byte c \<and> byte c < 192"

text \<open>\<open>str::chars\<close>: the characters of a string, each as its encoded bytes.\<close>

function utf8_chars :: "string \<Rightarrow> string list" where
  "utf8_chars [] = []"
| "utf8_chars (c # s) = (c # takeWhile is_cont s) # utf8_chars (dropWhile is_cont s)"
  by pat_completeness auto
termination
  by (relation "measure length") (auto simp: le_imp_less_Suc length_dropWhile_le)

lemma concat_utf8_chars [simp]: "concat (utf8_chars s) = s"
  by (induction s rule: utf8_chars.induct) auto

text \<open>\<open>str::chars().count()\<close>.\<close>

definition char_count :: "string \<Rightarrow> nat" where
  "char_count s = length (utf8_chars s)"

text \<open>\<open>std::str::from_utf8\<close> accepts exactly these byte sequences (no overlong forms, no
  surrogates, nothing above U+10FFFF).\<close>

fun utf8_valid :: "string \<Rightarrow> bool" where
  "utf8_valid [] = True"
| "utf8_valid (a # s) =
    (if byte a < 128 then utf8_valid s
     else if 194 \<le> byte a \<and> byte a \<le> 223 then
       (case s of b # s' \<Rightarrow> is_cont b \<and> utf8_valid s' | _ \<Rightarrow> False)
     else if 224 \<le> byte a \<and> byte a \<le> 239 then
       (case s of b # c # s' \<Rightarrow>
          is_cont b \<and> is_cont c
          \<and> (byte a = 224 \<longrightarrow> 160 \<le> byte b) \<and> (byte a = 237 \<longrightarrow> byte b < 160)
          \<and> utf8_valid s' | _ \<Rightarrow> False)
     else if 240 \<le> byte a \<and> byte a \<le> 244 then
       (case s of b # c # d # s' \<Rightarrow>
          is_cont b \<and> is_cont c \<and> is_cont d
          \<and> (byte a = 240 \<longrightarrow> 144 \<le> byte b) \<and> (byte a = 244 \<longrightarrow> byte b < 144)
          \<and> utf8_valid s' | _ \<Rightarrow> False)
     else False)"

lemma utf8_valid_ascii: "is_ascii_str s \<Longrightarrow> utf8_valid s"
  by (induction s) (auto simp: is_ascii_str_def)

text \<open>\<open>str::trim\<close> removes the characters of Unicode property White\_Space (the table of
  \<open>char::is_whitespace\<close>), recognised here by their encodings.\<close>

definition is_ws_char :: "string \<Rightarrow> bool" where
  "is_ws_char c =
     (case c of
        [a] \<Rightarrow> a = CHR 0x20 \<or> (9 \<le> byte a \<and> byte a \<le> 13)
      | [a, b] \<Rightarrow> a = CHR 0xC2 \<and> (b = CHR 0x85 \<or> b = CHR 0xA0)
      | [a, b, d] \<Rightarrow>
          (a = CHR 0xE1 \<and> b = CHR 0x9A \<and> d = CHR 0x80)
          \<or> (a = CHR 0xE2 \<and> b = CHR 0x80
             \<and> (byte d \<le> 138 \<or> d = CHR 0xA8 \<or> d = CHR 0xA9 \<or> d = CHR 0xAF))
          \<or> (a = CHR 0xE2 \<and> b = CHR 0x81 \<and> d = CHR 0x9F)
          \<or> (a = CHR 0xE3 \<and> b = CHR 0x80 \<and> d = CHR 0x80)
      | _ \<Rightarrow> False)"

definition trim_start :: "string \<Rightarrow> string" where
  "trim_start s = concat (dropWhile is_ws_char (utf8_chars s))"

definition trim_end :: "string \<Rightarrow> string" where
  "trim_end s = concat (rev (dropWhile is_ws_char (rev (utf8_chars s))))"

definition trim :: "string \<Rightarrow> string" where
  "trim s = trim_end (trim_start s)"

text \<open>\<open>str::split_whitespace\<close>.\<close>

definition split_whitespace :: "string \<Rightarrow> string list" where
  "split_whitespace s = map concat (filter (\<lambda>w. w \<noteq> []) (split_by is_ws_char (utf8_chars s)))"

text \<open>\<open>str::lines\<close>: the terminator is \<open>\n\<close> or \<open>\r\n\<close>; a carriage return of the unterminated last
  line stays, and an empty last piece is no line.\<close>

definition strip_cr :: "string \<Rightarrow> string" where
  "strip_cr s = (case strip_suffix s [CHR 0x0D] of Some t \<Rightarrow> t | None \<Rightarrow> s)"

definition str_lines :: "string \<Rightarrow> string list" where
  "str_lines s =
     (let ws = split_on (CHR 0x0A) s
      in map strip_cr (butlast ws) @ (if last ws = [] then [] else [last ws]))"

lemma set_concat_dropWhile: "set (concat (dropWhile P xs)) \<subseteq> set (concat xs)"
  by (auto dest: set_dropWhileD)

lemma set_trim_start: "set (trim_start s) \<subseteq> set s"
  using set_concat_dropWhile [of is_ws_char "utf8_chars s"] by (simp add: trim_start_def)

lemma set_trim_end: "set (trim_end s) \<subseteq> set s"
proof -
  have "set (trim_end s) \<subseteq> set (concat (rev (utf8_chars s)))"
    using set_concat_dropWhile [of is_ws_char "rev (utf8_chars s)"] by (simp add: trim_end_def)
  also have "\<dots> = set (concat (utf8_chars s))" unfolding set_concat by simp
  finally show ?thesis by simp
qed

lemma set_trim: "set (trim s) \<subseteq> set s"
  unfolding trim_def using set_trim_start set_trim_end by blast

lemma utf8_chars_ascii: "is_ascii_str s \<Longrightarrow> utf8_chars s = map (\<lambda>c. [c]) s"
proof (induction s)
  case (Cons c s)
  then have "takeWhile is_cont s = []" "dropWhile is_cont s = s"
    by (cases s; simp add: is_ascii_str_def is_cont_def)+
  with Cons show ?case by (simp add: is_ascii_str_def)
qed simp

lemma trim_id:
  assumes "is_ascii_str s" and "list_all (\<lambda>c. \<not> is_ws_char [c]) s"
  shows "trim s = s"
proof -
  have keep: "dropWhile is_ws_char (map (\<lambda>c. [c]) t) = map (\<lambda>c. [c]) t"
    if "list_all (\<lambda>c. \<not> is_ws_char [c]) t" for t
    using that by (cases t) auto
  have flat: "concat (map (\<lambda>c. [c]) t) = t" for t :: string
    by (induction t) auto
  have start: "trim_start s = s"
    using keep [OF assms(2)] by (simp add: trim_start_def utf8_chars_ascii [OF assms(1)] flat)
  have "dropWhile is_ws_char (map (\<lambda>c. [c]) (rev s)) = map (\<lambda>c. [c]) (rev s)"
    by (rule keep) (use assms(2) in simp)
  then show ?thesis
    using start by (simp add: trim_def trim_end_def utf8_chars_ascii [OF assms(1)] rev_map flat)
qed

section \<open>Unicode tables\<close>

text \<open>
  The standard library's Unicode tables beyond ASCII are an argument of the definitions that
  consult them: \<open>uni_alnum\<close>, \<open>uni_upper\<close>, \<open>uni_lower\<close>, \<open>uni_numeric\<close> classify the encoding of a
  non-ASCII character, \<open>uni_char_lower\<close> is \<open>char::to_lowercase\<close> on it and \<open>uni_str_lower\<close> is
  \<open>str::to_lowercase\<close> on a string that is not all ASCII.  On ASCII every function below is the
  standard library's and consults no table.
\<close>

record unicode =
  uni_alnum :: "string \<Rightarrow> bool"
  uni_upper :: "string \<Rightarrow> bool"
  uni_lower :: "string \<Rightarrow> bool"
  uni_numeric :: "string \<Rightarrow> bool"
  uni_char_lower :: "string \<Rightarrow> string"
  uni_str_lower :: "string \<Rightarrow> string"

definition ascii_tables :: unicode where
  "ascii_tables =
     \<lparr>uni_alnum = (\<lambda>_. False), uni_upper = (\<lambda>_. False), uni_lower = (\<lambda>_. False),
      uni_numeric = (\<lambda>_. False), uni_char_lower = (\<lambda>c. c),
      uni_str_lower = ascii_lowercase\<rparr>"

definition char_class :: "(char \<Rightarrow> bool) \<Rightarrow> (string \<Rightarrow> bool) \<Rightarrow> string \<Rightarrow> bool" where
  "char_class ascii uni c =
     (case c of [b] \<Rightarrow> if byte b < 128 then ascii b else uni c | _ \<Rightarrow> uni c)"

definition char_alnum :: "unicode \<Rightarrow> string \<Rightarrow> bool" where
  "char_alnum U = char_class is_ascii_alnum (uni_alnum U)"

definition char_upper :: "unicode \<Rightarrow> string \<Rightarrow> bool" where
  "char_upper U = char_class is_ascii_upper (uni_upper U)"

definition char_lower :: "unicode \<Rightarrow> string \<Rightarrow> bool" where
  "char_lower U = char_class is_ascii_lower (uni_lower U)"

definition char_numeric :: "unicode \<Rightarrow> string \<Rightarrow> bool" where
  "char_numeric U = char_class is_ascii_digit (uni_numeric U)"

definition char_to_lowercase :: "unicode \<Rightarrow> string \<Rightarrow> string" where
  "char_to_lowercase U c =
     (case c of [b] \<Rightarrow> if byte b < 128 then [to_ascii_lower b] else uni_char_lower U c
      | _ \<Rightarrow> uni_char_lower U c)"

definition to_lowercase :: "unicode \<Rightarrow> string \<Rightarrow> string" where
  "to_lowercase U s = (if is_ascii_str s then ascii_lowercase s else uni_str_lower U s)"

section \<open>Panics\<close>

text \<open>A computation that may panic.\<close>

datatype 'a run = Panic | Ret 'a

definition run_bind :: "'a run \<Rightarrow> ('a \<Rightarrow> 'b run) \<Rightarrow> 'b run" where
  "run_bind r f = (case r of Panic \<Rightarrow> Panic | Ret a \<Rightarrow> f a)"

lemma run_bind_simps [simp]: "run_bind Panic f = Panic" "run_bind (Ret a) f = f a"
  by (simp_all add: run_bind_def)

section \<open>Binary search\<close>

text \<open>\<open>slice::partition_point\<close>: bisection for the first position where \<open>P\<close> fails.\<close>

function partition_point_in :: "('a \<Rightarrow> bool) \<Rightarrow> 'a list \<Rightarrow> nat \<Rightarrow> nat \<Rightarrow> nat" where
  "partition_point_in P xs lo hi =
     (if lo < hi then
        (let mid = (lo + hi) div 2
         in if P (xs ! mid) then partition_point_in P xs (Suc mid) hi
            else partition_point_in P xs lo mid)
      else lo)"
  by pat_completeness auto
termination
  by (relation "measure (\<lambda>(P, xs, lo, hi). hi - lo)") auto

declare partition_point_in.simps [simp del]

definition partition_point :: "('a \<Rightarrow> bool) \<Rightarrow> 'a list \<Rightarrow> nat" where
  "partition_point P xs = partition_point_in P xs 0 (length xs)"

lemma partition_point_in_spec:
  assumes "k \<le> length xs"
    and "\<And>i. i < k \<Longrightarrow> P (xs ! i)" and "\<And>i. k \<le> i \<Longrightarrow> i < length xs \<Longrightarrow> \<not> P (xs ! i)"
    and "lo \<le> k" and "k \<le> hi" and "hi \<le> length xs"
  shows "partition_point_in P xs lo hi = k"
  using assms
proof (induction P xs lo hi rule: partition_point_in.induct)
  case (1 P xs lo hi)
  show ?case
  proof (cases "lo < hi")
    case False
    with "1.prems" show ?thesis by (simp add: partition_point_in.simps [of P xs lo hi])
  next
    case True
    define mid where "mid = (lo + hi) div 2"
    have mid: "lo \<le> mid" "mid < hi" using True by (simp_all add: mid_def)
    show ?thesis
    proof (cases "P (xs ! mid)")
      case P: True
      then have "Suc mid \<le> k" using "1.prems" mid by (metis leI Suc_le_eq less_le_trans)
      then have "partition_point_in P xs (Suc mid) hi = k"
        using "1.IH"(1) [OF True mid_def P] "1.prems" by blast
      with True P show ?thesis
        by (simp add: partition_point_in.simps [of P xs lo hi] mid_def [symmetric])
    next
      case P: False
      then have "k \<le> mid" using "1.prems" by (meson leI)
      then have "partition_point_in P xs lo mid = k"
        using "1.IH"(2) [OF True mid_def P] "1.prems" mid by auto
      with True P show ?thesis
        by (simp add: partition_point_in.simps [of P xs lo hi] mid_def [symmetric])
    qed
  qed
qed

lemma partition_point_eq:
  assumes "\<And>i j. i < j \<Longrightarrow> j < length xs \<Longrightarrow> P (xs ! j) \<Longrightarrow> P (xs ! i)"
  shows "partition_point P xs = length (takeWhile P xs)"
proof -
  let ?k = "length (takeWhile P xs)"
  have fails: "\<not> P (xs ! i)" if "?k \<le> i" "i < length xs" for i
  proof
    assume i: "P (xs ! i)"
    have k: "?k < length xs" using that by simp
    then have "\<not> P (xs ! ?k)" by (rule nth_length_takeWhile)
    then have "?k \<noteq> i" using i by metis
    then have "P (xs ! ?k)" using assms [of ?k i] that i by simp
    with \<open>\<not> P (xs ! ?k)\<close> show False ..
  qed
  have holds: "P (xs ! i)" if "i < ?k" for i
    using that by (metis nth_mem set_takeWhileD takeWhile_nth)
  show ?thesis
    unfolding partition_point_def
    by (rule partition_point_in_spec) (use fails holds length_takeWhile_le in auto)
qed

section \<open>Sorted lists and deduplication\<close>

text \<open>\<open>Vec::sort\<close> followed by \<open>Vec::dedup\<close>.\<close>

definition sort_dedup :: "'a::linorder list \<Rightarrow> 'a list" where
  "sort_dedup xs = remdups_adj (sort xs)"

lemma set_sort_dedup [simp]: "set (sort_dedup xs) = set xs"
  by (simp add: sort_dedup_def)

lemma sorted_sort_dedup [simp]: "sorted (sort_dedup xs)"
  by (simp add: sort_dedup_def sorted_remdups_adj)

lemma sorted_imp_distinct_remdups_adj: "sorted xs \<Longrightarrow> distinct (remdups_adj xs)"
  by (induction xs rule: remdups_adj.induct) (auto simp: less_le)

lemma distinct_sort_dedup [simp]: "distinct (sort_dedup xs)"
  by (simp add: sort_dedup_def sorted_imp_distinct_remdups_adj)

lemma sort_dedup_eq: "sort_dedup xs = sorted_list_of_set (set xs)"
  by (metis List.finite_set distinct_sort_dedup set_sort_dedup
      sorted_list_of_set.idem_if_sorted_distinct sorted_sort_dedup)

section \<open>Minimum by key, decimal rendering\<close>

text \<open>\<open>Iterator::min_by_key\<close>: the first element with the least key.\<close>

fun min_by_key :: "('a \<Rightarrow> 'k::linorder) \<Rightarrow> 'a list \<Rightarrow> 'a option" where
  "min_by_key f [] = None"
| "min_by_key f (x # xs) =
     (case min_by_key f xs of None \<Rightarrow> Some x | Some y \<Rightarrow> if f y < f x then Some y else Some x)"

lemma min_by_key_None_iff [simp]: "min_by_key f xs = None \<longleftrightarrow> xs = []"
  by (cases xs) (auto split: option.splits)

lemma min_by_key_Some:
  "min_by_key f xs = Some m \<Longrightarrow> m \<in> set xs \<and> (\<forall>x\<in>set xs. f m \<le> f x)"
  by (induction xs arbitrary: m)
     (fastforce split: option.splits if_splits intro: order.strict_implies_order)+

text \<open>\<open>Display\<close> of an unsigned integer.\<close>

definition digit_char :: "nat \<Rightarrow> char" where
  "digit_char d = char_of (48 + d)"

fun show_nat :: "nat \<Rightarrow> string" where
  "show_nat n = (if n < 10 then [digit_char n] else show_nat (n div 10) @ [digit_char (n mod 10)])"

declare show_nat.simps [simp del]

lemma digit_char_inj: "d < 10 \<Longrightarrow> e < 10 \<Longrightarrow> digit_char d = digit_char e \<longleftrightarrow> d = e"
proof -
  assume de: "d < 10" "e < 10"
  have "of_char (digit_char k) = 48 + k" if "k < 10" for k
    using that by (simp add: digit_char_def)
  with de show ?thesis by (metis add_left_cancel)
qed

lemma is_digit_digit_char: "d < 10 \<Longrightarrow> is_ascii_digit (digit_char d)"
proof -
  assume d: "d < 10"
  have "of_char (digit_char d) = (48 + d :: nat)" using d by (simp add: digit_char_def)
  moreover have "byte (digit_char d) = int (of_char (digit_char d))"
    by (rule of_nat_of_char [symmetric])
  ultimately show ?thesis using d by (simp add: is_ascii_digit_def)
qed

lemma show_nat_digits: "c \<in> set (show_nat n) \<Longrightarrow> is_ascii_digit c"
proof (induction n rule: show_nat.induct)
  case (1 n)
  have "c \<in> set (show_nat (n div 10)) \<or> is_ascii_digit c" if "\<not> n < 10"
    using "1.prems" that by (auto simp: show_nat.simps [of n] is_digit_digit_char)
  with 1 show ?case
    by (cases "n < 10") (auto simp: show_nat.simps [of n] is_digit_digit_char)
qed

lemma show_nat_not_Nil [simp]: "show_nat n \<noteq> []"
  by (subst show_nat.simps) simp

lemma show_nat_inj: "show_nat m = show_nat n \<Longrightarrow> m = n"
proof (induction m arbitrary: n rule: show_nat.induct)
  case (1 m)
  note eqs = show_nat.simps [of m] show_nat.simps [of n]
  show ?case
  proof (cases "m < 10"; cases "n < 10")
    assume "\<not> m < 10" "\<not> n < 10"
    with "1.prems" eqs have "show_nat (m div 10) = show_nat (n div 10)"
      "digit_char (m mod 10) = digit_char (n mod 10)" by auto
    with \<open>\<not> m < 10\<close> "1.IH" digit_char_inj [of "m mod 10" "n mod 10"]
    have "m div 10 = n div 10" "m mod 10 = n mod 10" by auto
    then show ?thesis by (metis div_mult_mod_eq)
  next
    assume "m < 10" "n < 10"
    with "1.prems" eqs show ?thesis by (simp add: digit_char_inj)
  next
    assume "m < 10" "\<not> n < 10"
    then have "length (show_nat m) < length (show_nat n)"
      using eqs by (simp add: Suc_le_eq)
    with "1.prems" show ?thesis by simp
  next
    assume "\<not> m < 10" "n < 10"
    then have "length (show_nat n) < length (show_nat m)"
      using eqs by (simp add: Suc_le_eq)
    with "1.prems" show ?thesis by simp
  qed
qed

section \<open>Chunks\<close>

text \<open>\<open>slice::chunks\<close>, for a positive size.\<close>

function chunks_of :: "nat \<Rightarrow> 'a list \<Rightarrow> 'a list list" where
  "chunks_of n xs = (if xs = [] \<or> n = 0 then [] else take n xs # chunks_of n (drop n xs))"
  by pat_completeness auto
termination
  by (relation "measure (\<lambda>(n, xs). length xs)") auto

declare chunks_of.simps [simp del]

lemma concat_chunks_of [simp]: "0 < n \<Longrightarrow> concat (chunks_of n xs) = xs"
  by (induction n xs rule: chunks_of.induct) (subst chunks_of.simps, simp)

lemma chunks_of_Nil [simp]: "chunks_of n [] = []"
  by (subst chunks_of.simps) simp

lemma length_chunk: "c \<in> set (chunks_of n xs) \<Longrightarrow> 0 < length c \<and> length c \<le> n"
proof (induction n xs rule: chunks_of.induct)
  case (1 n xs)
  then show ?case
    by (cases "xs = [] \<or> n = 0") (auto simp: chunks_of.simps [of n xs])
qed

section \<open>Parsing unsigned integers\<close>

text \<open>\<open>str::parse\<close> to an unsigned integer below \<open>bound\<close>: an optional plus sign, then at least one
  digit; \<open>None\<close> on any other character and on overflow.\<close>

definition digit_val :: "char \<Rightarrow> nat" where
  "digit_val c = of_char c - 48"

definition digits_value :: "string \<Rightarrow> nat" where
  "digits_value = foldl (\<lambda>n c. 10 * n + digit_val c) 0"

definition parse_uint :: "nat \<Rightarrow> string \<Rightarrow> nat option" where
  "parse_uint bound s =
     (let ds = (case s of c # t \<Rightarrow> if c = CHR 0x2B then t else s | [] \<Rightarrow> [])
      in if ds \<noteq> [] \<and> list_all is_ascii_digit ds \<and> digits_value ds < bound
         then Some (digits_value ds) else None)"

lemma digit_val_char: "d < 10 \<Longrightarrow> digit_val (digit_char d) = d"
  by (simp add: digit_val_def digit_char_def)

lemma digits_value_show_nat [simp]: "digits_value (show_nat n) = n"
proof (induction n rule: show_nat.induct)
  case (1 n)
  then show ?case
    by (cases "n < 10") (auto simp: show_nat.simps [of n] digits_value_def digit_val_char)
qed

lemma show_nat_first_digit: "show_nat n = c # t \<Longrightarrow> c \<noteq> CHR 0x2B"
  using show_nat_digits [of c n] by (auto simp: is_ascii_digit_def)

lemma parse_uint_show_nat:
  assumes "n < bound"
  shows "parse_uint bound (show_nat n) = Some n"
proof -
  obtain c t where ct: "show_nat n = c # t" by (cases "show_nat n") simp_all
  then have "c \<noteq> CHR 0x2B" by (rule show_nat_first_digit)
  then have ds: "(case show_nat n of c # t \<Rightarrow> if c = CHR 0x2B then t else show_nat n | [] \<Rightarrow> []) = show_nat n"
    using ct by simp
  have "list_all is_ascii_digit (show_nat n)"
    using show_nat_digits by (auto simp: list_all_iff)
  then show ?thesis using assms unfolding parse_uint_def ds by simp
qed

text \<open>\<open>table.entry(key).or_default().push(value)\<close>, and the table a loop of such pushes builds.\<close>

definition push_to :: "('k \<Rightarrow> 'v list option) \<Rightarrow> 'k \<Rightarrow> 'v \<Rightarrow> 'k \<Rightarrow> 'v list option" where
  "push_to m k v = m(k \<mapsto> (case m k of None \<Rightarrow> [] | Some vs \<Rightarrow> vs) @ [v])"

definition group_table :: "('a \<Rightarrow> 'k) \<Rightarrow> ('a \<Rightarrow> 'v) \<Rightarrow> 'a list \<Rightarrow> 'k \<Rightarrow> 'v list option" where
  "group_table f g xs = foldl (\<lambda>m x. push_to m (f x) (g x)) Map.empty xs"

definition entry_or_empty :: "('k \<Rightarrow> 'v list option) \<Rightarrow> 'k \<Rightarrow> 'v list" where
  "entry_or_empty m k = (case m k of None \<Rightarrow> [] | Some vs \<Rightarrow> vs)"

lemma entry_or_empty_simps [simp]:
  "m k = None \<Longrightarrow> entry_or_empty m k = []"
  "m k = Some vs \<Longrightarrow> entry_or_empty m k = vs"
  by (simp_all add: entry_or_empty_def)

lemma group_table_snoc: "group_table f g (xs @ [x]) = push_to (group_table f g xs) (f x) (g x)"
  by (simp add: group_table_def)

lemma group_table_at:
  "group_table f g xs k =
     (if filter (\<lambda>x. f x = k) xs = [] then None else Some (map g (filter (\<lambda>x. f x = k) xs)))"
proof (induction xs rule: rev_induct)
  case Nil
  then show ?case by (simp add: group_table_def)
next
  case (snoc x xs)
  then show ?case by (auto simp: group_table_snoc push_to_def)
qed

lemma group_table_entry [simp]:
  "entry_or_empty (group_table f g xs) k = map g (filter (\<lambda>x. f x = k) xs)"
  by (simp add: entry_or_empty_def group_table_at)

text \<open>\<open>Iterator::rposition\<close>.\<close>

fun rposition :: "('a \<Rightarrow> bool) \<Rightarrow> 'a list \<Rightarrow> nat option" where
  "rposition P [] = None"
| "rposition P (x # xs) =
     (case rposition P xs of Some i \<Rightarrow> Some (Suc i) | None \<Rightarrow> if P x then Some 0 else None)"

end
