(* ===== verification/RelPaths.thy ===== *)
theory RelPaths
  imports Prelude
begin

text \<open>
  Repository-relative paths and the file index (\<open>astrolabe-core/src/types.rs\<close>): the newtype
  \<open>RelPath\<close> and its normalising constructor, \<open>join_rel\<close>, the root-escape test, and
  \<open>FileIndex\<close> with its directory, name and prefix lookups.  A \<open>BTreeSet<RelPath>\<close> is the
  strictly sorted list of its elements; a \<open>BTreeMap\<close>/\<open>HashMap\<close> is a map, a \<open>BTreeSet\<close>
  that is only probed is a set.  Reading file contents is the argument \<open>rd\<close>.
\<close>

section \<open>RelPath\<close>

datatype rel_path = RelPath (as_str: string)

instantiation rel_path :: linorder
begin

definition less_eq_rel_path :: "rel_path \<Rightarrow> rel_path \<Rightarrow> bool" where
  "p \<le> q \<longleftrightarrow> as_str p \<le> as_str q"

definition less_rel_path :: "rel_path \<Rightarrow> rel_path \<Rightarrow> bool" where
  "p < q \<longleftrightarrow> as_str p < as_str q"

instance
  by standard (auto simp: less_eq_rel_path_def less_rel_path_def rel_path.expand)

end

abbreviation slash :: char where "slash \<equiv> CHR ''/''"
abbreviation backslash :: char where "backslash \<equiv> CHR 0x5C"

definition slashify :: "string \<Rightarrow> string" where
  "slashify = map (\<lambda>c. if c = backslash then slash else c)"

text \<open>The loop of \<open>RelPath::new\<close>: trim slashes, strip one \<open>./\<close>, repeat.\<close>

function rel_new_loop :: "string \<Rightarrow> string" where
  "rel_new_loop s =
     (let t = dropWhile (\<lambda>c. c = slash) s
      in case strip_prefix t ''./'' of Some rest \<Rightarrow> rel_new_loop rest | None \<Rightarrow> t)"
  by pat_completeness auto
termination
proof (relation "measure length", goal_cases)
  case (2 s t rest)
  then have "length t = 2 + length rest" by (auto dest: strip_prefix_length)
  moreover have "length t \<le> length s" by (simp add: 2 length_dropWhile_le)
  ultimately show ?case by simp
qed simp

declare rel_new_loop.simps [simp del]

definition rel_path_new :: "string \<Rightarrow> rel_path" where
  "rel_path_new s = RelPath (rel_new_loop (slashify s))"

definition rel_dir :: "rel_path \<Rightarrow> string" where
  "rel_dir p = (case rfind slash (as_str p) of Some i \<Rightarrow> take i (as_str p) | None \<Rightarrow> '''')"

definition rel_file_name :: "rel_path \<Rightarrow> string" where
  "rel_file_name p = last (split_on slash (as_str p))"

definition rel_extension :: "rel_path \<Rightarrow> string option" where
  "rel_extension p = map_option snd (rsplit_once (CHR ''.'') (last (split_on slash (as_str p))))"

definition is_normal_rel :: "string \<Rightarrow> bool" where
  "is_normal_rel p \<longleftrightarrow>
     backslash \<notin> set p \<and> \<not> starts_with p ''/'' \<and> \<not> starts_with p ''./''"

lemma slashify_no_backslash: "backslash \<notin> set (slashify s)"
  by (auto simp: slashify_def)

lemma slashify_id: "backslash \<notin> set s \<Longrightarrow> slashify s = s"
  by (auto simp: slashify_def intro: map_idI)

lemma starts_with_slash_dropWhile: "\<not> starts_with (dropWhile (\<lambda>c. c = slash) s) ''/''"
  by (induction s) auto

lemma set_strip_prefix: "strip_prefix s p = Some t \<Longrightarrow> set t \<subseteq> set s"
  by (auto simp: strip_prefix_Some_iff)

lemma set_rel_new_loop: "set (rel_new_loop s) \<subseteq> set s"
proof (induction s rule: rel_new_loop.induct)
  case (1 s)
  let ?t = "dropWhile (\<lambda>c. c = slash) s"
  show ?case
  proof (cases "strip_prefix ?t ''./''")
    case None
    then show ?thesis
      by (auto simp: rel_new_loop.simps [of s] dest: set_dropWhileD)
  next
    case (Some rest)
    then have "set (rel_new_loop rest) \<subseteq> set rest" using "1.IH" by simp
    moreover have "set rest \<subseteq> set ?t" using Some by (rule set_strip_prefix)
    ultimately show ?thesis
      using Some by (auto simp: rel_new_loop.simps [of s] dest: set_dropWhileD)
  qed
qed

lemma rel_new_loop_normal:
  "\<not> starts_with (rel_new_loop s) ''/'' \<and> \<not> starts_with (rel_new_loop s) ''./''"
proof (induction s rule: rel_new_loop.induct)
  case (1 s)
  let ?t = "dropWhile (\<lambda>c. c = slash) s"
  show ?case
  proof (cases "strip_prefix ?t ''./''")
    case None
    then have "rel_new_loop s = ?t" by (simp add: rel_new_loop.simps [of s])
    moreover have "\<not> starts_with ?t ''./''" using None by (simp add: strip_prefix_None_iff)
    ultimately show ?thesis using starts_with_slash_dropWhile by metis
  next
    case (Some rest)
    with "1.IH" show ?thesis by (simp add: rel_new_loop.simps [of s])
  qed
qed

lemma rel_new_loop_id:
  assumes "\<not> starts_with s ''/''" and "\<not> starts_with s ''./''"
  shows "rel_new_loop s = s"
proof -
  have "dropWhile (\<lambda>c. c = slash) s = s" using assms(1) by (cases s) auto
  then show ?thesis
    using assms(2) by (simp add: rel_new_loop.simps [of s] strip_prefix_def)
qed

lemma rel_path_new_id: "is_normal_rel s \<Longrightarrow> rel_path_new s = RelPath s"
  by (simp add: rel_path_new_def is_normal_rel_def slashify_id rel_new_loop_id)

lemma rel_path_new_is_normal: "is_normal_rel (as_str (rel_path_new s))"
  using rel_new_loop_normal [of "slashify s"] set_rel_new_loop [of "slashify s"]
    slashify_no_backslash [of s]
  by (auto simp: is_normal_rel_def rel_path_new_def)

section \<open>join\_rel and the root-escape test\<close>

text \<open>The stack of \<open>join_rel\<close>, top first; \<open>None\<close> is the \<open>?\<close> on popping an empty stack.\<close>

fun join_segs :: "string list \<Rightarrow> string list \<Rightarrow> string list option" where
  "join_segs out [] = Some out"
| "join_segs out (w # ws) =
     (if w = '''' \<or> w = ''.'' then join_segs out ws
      else if w = ''..'' then (case out of [] \<Rightarrow> None | _ # out' \<Rightarrow> join_segs out' ws)
      else join_segs (w # out) ws)"

definition join_rel :: "string \<Rightarrow> string \<Rightarrow> string option" where
  "join_rel base rest =
     map_option (\<lambda>out. join_with [slash] (rev out))
       (join_segs [] (split_on slash base @ split_on slash rest))"

fun escape_depth :: "int \<Rightarrow> string list \<Rightarrow> bool" where
  "escape_depth depth [] = False"
| "escape_depth depth (w # ws) =
     (if w = '''' \<or> w = ''.'' then escape_depth depth ws
      else if w = ''..'' then (if depth - 1 < 0 then True else escape_depth (depth - 1) ws)
      else escape_depth (depth + 1) ws)"

definition escapes_root :: "string \<Rightarrow> bool" where
  "escapes_root p \<longleftrightarrow>
     starts_with p [slash] \<or> starts_with p [backslash]
     \<or> (1 < length p \<and> p ! 1 = CHR '':'')
     \<or> escape_depth 0 (split_by (\<lambda>c. c = slash \<or> c = backslash) p)"

definition plain_seg :: "string \<Rightarrow> bool" where
  "plain_seg w \<longleftrightarrow> w \<noteq> '''' \<and> w \<noteq> ''.'' \<and> w \<noteq> ''..'' \<and> slash \<notin> set w"

lemma join_segs_None_iff:
  "join_segs out ws = None \<longleftrightarrow> escape_depth (int (length out)) ws"
proof (induction out ws rule: join_segs.induct)
  case (2 out w ws)
  then show ?case
    by (cases out) (simp_all add: algebra_simps)
qed simp

lemma join_segs_plain:
  "join_segs out ws = Some out' \<Longrightarrow> list_all plain_seg out \<Longrightarrow>
   \<forall>w\<in>set ws. slash \<notin> set w \<Longrightarrow> list_all plain_seg out'"
proof (induction out ws arbitrary: out' rule: join_segs.induct)
  case (2 out w ws)
  then show ?case
    by (cases out) (auto simp: plain_seg_def split: if_splits)
qed simp

lemma join_segs_id:
  "list_all plain_seg ws \<Longrightarrow> join_segs out ws = Some (rev ws @ out)"
  by (induction ws arbitrary: out) (auto simp: plain_seg_def)

lemma split_on_no_sep: "w \<in> set (split_on c s) \<Longrightarrow> c \<notin> set w"
  unfolding split_on_def using split_by_no_sep by fastforce

lemma split_on_Nil [simp]: "split_on c [] = [[]]"
  by (simp add: split_on_def)

lemma split_on_join_plain:
  "list_all plain_seg ws \<Longrightarrow> ws \<noteq> [] \<Longrightarrow> split_on slash (join_with [slash] ws) = ws"
  by (rule split_on_join) (auto simp: list_all_iff plain_seg_def)

text \<open>\<open>join_rel\<close> returns a canonical path: its segments are never empty, \<open>.\<close> or \<open>..\<close>, and
  joining the result again changes nothing.\<close>

lemma join_rel_canonical:
  assumes "join_rel base rest = Some s"
  shows "(s = '''' \<or> list_all plain_seg (split_on slash s)) \<and> join_rel '''' s = Some s"
proof -
  from assms obtain out where
    out: "join_segs [] (split_on slash base @ split_on slash rest) = Some out"
    and s: "s = join_with [slash] (rev out)"
    by (auto simp: join_rel_def)
  from out have plain: "list_all plain_seg (rev out)"
    using join_segs_plain [OF out] by (auto dest: split_on_no_sep simp: list_all_rev)
  show ?thesis
  proof (cases "out = []")
    case True
    then show ?thesis using s by (simp add: join_rel_def)
  next
    case False
    then have split: "split_on slash s = rev out"
      using s plain split_on_join_plain by simp
    then have "join_segs [] (split_on slash '''' @ split_on slash s) = Some out"
      using plain join_segs_id [of "rev out" "[]"] by simp
    then show ?thesis using s plain split by (simp add: join_rel_def)
  qed
qed

lemma join_rel_canonical_witness:
  "(''a/c'' = '''' \<or> list_all plain_seg (split_on slash ''a/c'')) \<and> join_rel '''' ''a/c'' = Some ''a/c''"
  by (rule join_rel_canonical [of "''a/b''" "''./../c''"]) code_simp

text \<open>\<open>join_rel\<close> refuses a path exactly when \<open>escapes_root\<close> says it climbs above the root,
  for paths spelled with forward slashes that are not absolute and have no drive letter.\<close>

lemma join_rel_None_iff_escapes_root:
  assumes "backslash \<notin> set p" and "\<not> starts_with p [slash]" and "\<not> (1 < length p \<and> p ! 1 = CHR '':'')"
  shows "join_rel '''' p = None \<longleftrightarrow> escapes_root p"
proof -
  have "split_by (\<lambda>c. c = slash \<or> c = backslash) p = split_on slash p"
    using assms(1) by (induction p) (auto simp: split_on_def split: list.splits)
  moreover have "\<not> starts_with p [backslash]"
    using assms(1) by (cases p) auto
  ultimately show ?thesis
    using assms(2,3) join_segs_None_iff [of "[]" "split_on slash p"]
    by (auto simp: join_rel_def escapes_root_def)
qed

lemma join_rel_None_iff_escapes_root_witness:
  "(join_rel '''' ''a/../../b'' = None) = escapes_root ''a/../../b'' \<and> escapes_root ''a/../../b''"
proof -
  have "(join_rel '''' ''a/../../b'' = None) = escapes_root ''a/../../b''"
    by (rule join_rel_None_iff_escapes_root) code_simp+
  moreover have "escapes_root ''a/../../b''" by code_simp
  ultimately show ?thesis by blast
qed

end
