(* ===== verification/FileIdx.thy ===== *)
theory FileIdx
  imports RelPaths
begin

text \<open>
  \<open>FileIndex\<close> of \<open>astrolabe-core/src/types.rs\<close>: built once per index run from the scanned
  paths, then probed by the resolvers.  \<open>fi_paths\<close> is the \<open>BTreeSet\<close> as its strictly
  ascending list, so the range seek of \<open>iter_prefix\<close> is a \<open>dropWhile\<close> on it.  The lazily
  built \<open>by_name\<close> table is computed on demand.
\<close>

record file_index =
  fi_paths :: "rel_path list"
  fi_by_dir :: "string \<Rightarrow> rel_path list option"
  fi_dirs :: "string set"
  fi_root :: string
  fi_reads :: "string set option"

definition btree_insert :: "'a::linorder \<Rightarrow> 'a list \<Rightarrow> 'a list" where
  "btree_insert x xs = (if x \<in> set xs then xs else insort x xs)"

lemma set_btree_insert [simp]: "set (btree_insert x xs) = insert x (set xs)"
  by (auto simp: btree_insert_def set_insort_key)

lemma sorted_btree_insert: "sorted xs \<Longrightarrow> sorted (btree_insert x xs)"
  by (simp add: btree_insert_def sorted_insort)

lemma distinct_btree_insert: "distinct xs \<Longrightarrow> distinct (btree_insert x xs)"
  by (simp add: btree_insert_def distinct_insort)

text \<open>The directories the inner loop of \<open>FileIndex::new\<close> registers, from \<open>cur\<close> upwards.\<close>

function dir_chain :: "string \<Rightarrow> string list" where
  "dir_chain cur = cur # (case rfind slash cur of Some i \<Rightarrow> dir_chain (take i cur) | None \<Rightarrow> [])"
  by pat_completeness auto
termination
  by (relation "measure length") (auto dest: rfind_less)

declare dir_chain.simps [simp del]

definition index_add :: "file_index \<Rightarrow> rel_path \<Rightarrow> file_index" where
  "index_add idx p =
     idx\<lparr>fi_dirs := fi_dirs idx \<union> set (dir_chain (rel_dir p)),
         fi_by_dir := (fi_by_dir idx)(rel_dir p \<mapsto>
            (case fi_by_dir idx (rel_dir p) of None \<Rightarrow> [] | Some v \<Rightarrow> v) @ [p]),
         fi_paths := btree_insert p (fi_paths idx)\<rparr>"

definition file_index_new :: "string \<Rightarrow> rel_path list \<Rightarrow> file_index" where
  "file_index_new root files =
     foldl index_add
       \<lparr>fi_paths = [], fi_by_dir = Map.empty, fi_dirs = {}, fi_root = root, fi_reads = None\<rparr> files"

definition fi_contains :: "file_index \<Rightarrow> string \<Rightarrow> bool" where
  "fi_contains idx p =
     (if is_normal_rel p then RelPath p \<in> set (fi_paths idx)
      else rel_path_new p \<in> set (fi_paths idx))"

definition iter_prefix :: "file_index \<Rightarrow> string \<Rightarrow> rel_path list" where
  "iter_prefix idx pre =
     takeWhile (\<lambda>p. starts_with (as_str p) pre)
       (dropWhile (\<lambda>p. as_str p < pre) (fi_paths idx))"

definition by_name_table :: "rel_path list \<Rightarrow> string \<Rightarrow> rel_path list option" where
  "by_name_table paths =
     foldl (\<lambda>m p. m(rel_file_name p \<mapsto>
              (case m (rel_file_name p) of None \<Rightarrow> [] | Some v \<Rightarrow> v) @ [p])) Map.empty paths"

definition files_named :: "file_index \<Rightarrow> string \<Rightarrow> rel_path list" where
  "files_named idx name =
     (case by_name_table (fi_paths idx) name of Some v \<Rightarrow> v | None \<Rightarrow> [])"

definition entries :: "file_index \<Rightarrow> string \<Rightarrow> rel_path list" where
  "entries idx dir = (case fi_by_dir idx dir of Some v \<Rightarrow> v | None \<Rightarrow> [])"

definition has_dir :: "file_index \<Rightarrow> string \<Rightarrow> bool" where
  "has_dir idx dir \<longleftrightarrow> dir = '''' \<or> dir \<in> fi_dirs idx"

definition fi_len :: "file_index \<Rightarrow> nat" where
  "fi_len idx = length (fi_paths idx)"

definition fi_is_empty :: "file_index \<Rightarrow> bool" where
  "fi_is_empty idx \<longleftrightarrow> fi_paths idx = []"

text \<open>\<open>read\<close> records the normalised path while recording is on, then refuses to leave the
  root; \<open>rd\<close> is the content of a file below the root, \<open>None\<close> if it cannot be read.\<close>

definition fi_read :: "(string \<Rightarrow> string option) \<Rightarrow> string \<Rightarrow> file_index \<Rightarrow> string option \<times> file_index" where
  "fi_read rd p idx =
     (let idx' = (case fi_reads idx of None \<Rightarrow> idx
                  | Some s \<Rightarrow> idx\<lparr>fi_reads := Some (insert (as_str (rel_path_new p)) s)\<rparr>)
      in (if escapes_root p then None else rd p, idx'))"

fun fi_read_many :: "(string \<Rightarrow> string option) \<Rightarrow> string list \<Rightarrow> file_index \<Rightarrow> string option list \<times> file_index" where
  "fi_read_many rd [] idx = ([], idx)"
| "fi_read_many rd (p # ps) idx =
     (let (r, idx1) = fi_read rd p idx; (rs, idx2) = fi_read_many rd ps idx1 in (r # rs, idx2))"

definition start_recording_reads :: "file_index \<Rightarrow> file_index" where
  "start_recording_reads idx = idx\<lparr>fi_reads := Some {}\<rparr>"

definition take_recorded_reads :: "file_index \<Rightarrow> string set \<times> file_index" where
  "take_recorded_reads idx =
     (case fi_reads idx of Some s \<Rightarrow> s | None \<Rightarrow> {}, idx\<lparr>fi_reads := None\<rparr>)"

section \<open>The prefix seek\<close>

lemma starts_with_le: "starts_with s p \<Longrightarrow> p \<le> s"
  for s p :: "'a::linorder list"
proof (induction p arbitrary: s)
  case (Cons a p)
  then show ?case by (cases s) auto
qed simp

lemma prefix_contiguous:
  "p \<le> s \<Longrightarrow> s \<le> t \<Longrightarrow> starts_with t p \<Longrightarrow> starts_with s p"
  for s t p :: "'a::linorder list"
proof (induction p arbitrary: s t)
  case (Cons a p)
  then obtain b t' where t: "t = b # t'" "b = a" "starts_with t' p" by (cases t) auto
  with Cons.prems obtain s' where "s = a # s'" "p \<le> s'" "s' \<le> t'"
    by (cases s) (auto simp: less_le)
  with Cons.IH [of s' t'] t show ?case by simp
qed simp

lemma seek_prefix_eq_filter:
  "sorted ps \<Longrightarrow>
   takeWhile (\<lambda>p. starts_with (as_str p) pre) (dropWhile (\<lambda>p. as_str p < pre) ps)
   = filter (\<lambda>p. starts_with (as_str p) pre) ps"
proof (induction ps)
  case (Cons p ps)
  have later: "\<forall>q\<in>set ps. p \<le> q" using Cons.prems by simp
  show ?case
  proof (cases "as_str p < pre")
    case True
    then have "\<not> starts_with (as_str p) pre" using starts_with_le leD by blast
    with True Cons show ?thesis by simp
  next
    case False
    then have ge: "pre \<le> as_str p" by simp
    then have nodrop: "dropWhile (\<lambda>q. as_str q < pre) ps = ps"
      using later by (cases ps) (auto simp: less_eq_rel_path_def not_less intro: order_trans)
    show ?thesis
    proof (cases "starts_with (as_str p) pre")
      case True
      with False nodrop Cons show ?thesis by simp
    next
      case nopre: False
      have "\<not> starts_with (as_str q) pre" if "q \<in> set ps" for q
        using that later nopre ge prefix_contiguous [of pre "as_str p" "as_str q"]
        by (auto simp: less_eq_rel_path_def)
      then have "filter (\<lambda>q. starts_with (as_str q) pre) ps = []" by simp
      with nopre False show ?thesis by simp
    qed
  qed
qed simp

section \<open>What the index holds\<close>

definition index_inv :: "rel_path list \<Rightarrow> file_index \<Rightarrow> bool" where
  "index_inv files idx \<longleftrightarrow>
     sorted (fi_paths idx) \<and> distinct (fi_paths idx) \<and> set (fi_paths idx) = set files
     \<and> (\<forall>d. entries idx d = filter (\<lambda>p. rel_dir p = d) files)
     \<and> fi_dirs idx = (\<Union>p\<in>set files. set (dir_chain (rel_dir p)))"

lemma index_add_inv: "index_inv files idx \<Longrightarrow> index_inv (files @ [p]) (index_add idx p)"
  by (auto simp: index_inv_def index_add_def entries_def sorted_btree_insert distinct_btree_insert
      split: option.splits)

lemma index_fold_inv: "index_inv fs idx \<Longrightarrow> index_inv (fs @ files) (foldl index_add idx files)"
proof (induction files arbitrary: idx fs)
  case (Cons p files)
  then show ?case using index_add_inv [of fs idx p] by fastforce
qed simp

lemma file_index_new_inv: "index_inv files (file_index_new root files)"
  unfolding file_index_new_def
  using index_fold_inv [of "[]"] by (auto simp: index_inv_def entries_def)

lemma by_name_fold:
  "(\<forall>n. (case m n of Some v \<Rightarrow> v | None \<Rightarrow> []) = filter (\<lambda>p. rel_file_name p = n) qs) \<Longrightarrow>
   (case foldl (\<lambda>m p. m(rel_file_name p \<mapsto>
        (case m (rel_file_name p) of None \<Rightarrow> [] | Some v \<Rightarrow> v) @ [p])) m ps n of
      Some v \<Rightarrow> v | None \<Rightarrow> [])
   = filter (\<lambda>p. rel_file_name p = n) (qs @ ps)"
proof (induction ps arbitrary: m qs)
  case (Cons p ps)
  let ?m = "m(rel_file_name p \<mapsto> (case m (rel_file_name p) of None \<Rightarrow> [] | Some v \<Rightarrow> v) @ [p])"
  have "\<forall>n. (case ?m n of Some v \<Rightarrow> v | None \<Rightarrow> []) = filter (\<lambda>p. rel_file_name p = n) (qs @ [p])"
    using Cons.prems by (auto split: option.splits)
  from Cons.IH [OF this] show ?case by simp
qed simp

lemma files_named_filter: "files_named idx n = filter (\<lambda>p. rel_file_name p = n) (fi_paths idx)"
  unfolding files_named_def by_name_table_def
  using by_name_fold [of Map.empty "[]" "fi_paths idx" n] by (simp split: option.splits)

lemma dir_chain_self: "d \<in> set (dir_chain d)"
  by (subst dir_chain.simps) simp

text \<open>A registered directory is the file's directory or a proper ancestor of it.\<close>

lemma dir_chain_iff: "d \<in> set (dir_chain cur) \<longleftrightarrow> d = cur \<or> starts_with cur (d @ [slash])"
proof (induction cur rule: dir_chain.induct)
  case (1 cur)
  show ?case
  proof (cases "rfind slash cur")
    case None
    then have "\<not> starts_with cur (d @ [slash])"
      by (auto simp: rfind_None_iff starts_with_iff)
    with None show ?thesis by (auto simp: dir_chain.simps [of cur])
  next
    case (Some i)
    define u v where "u = take i cur" and "v = drop (Suc i) cur"
    have cur: "cur = u @ slash # v" and v: "slash \<notin> set v"
      using rfind_SomeD [OF Some] by (simp_all add: u_def v_def)
    have "starts_with (u @ slash # v) (d @ [slash]) \<longleftrightarrow> d = u \<or> starts_with u (d @ [slash])"
    proof
      assume "starts_with (u @ slash # v) (d @ [slash])"
      then obtain t where t: "u @ slash # v = d @ slash # t" by (auto simp: starts_with_iff)
      show "d = u \<or> starts_with u (d @ [slash])"
      proof (rule ccontr)
        assume no: "\<not> (d = u \<or> starts_with u (d @ [slash]))"
        from t consider us where "u = d @ us" "us @ slash # v = slash # t"
          | us where "u @ us = d" "slash # v = us @ slash # t"
          unfolding append_eq_append_conv2 by blast
        then show False
        proof cases
          case 1
          with no show False by (cases us) (auto simp: starts_with_iff)
        next
          case 2
          with no v show False by (cases us) auto
        qed
      qed
    qed (auto simp: starts_with_iff)
    moreover have "d \<in> set (dir_chain u) \<longleftrightarrow> d = u \<or> starts_with u (d @ [slash])"
      using "1.IH" Some by (simp add: u_def)
    moreover have "d \<in> set (dir_chain cur) \<longleftrightarrow> d = cur \<or> d \<in> set (dir_chain u)"
      using Some by (simp add: dir_chain.simps [of cur] u_def)
    ultimately show ?thesis using cur by metis
  qed
qed

lemma starts_with_rel_dir:
  "starts_with (as_str p) (d @ [slash]) \<longleftrightarrow> d \<in> set (dir_chain (rel_dir p)) \<and> slash \<in> set (as_str p)"
proof (cases "rfind slash (as_str p)")
  case None
  then show ?thesis by (auto simp: rfind_None_iff starts_with_iff)
next
  case (Some i)
  let ?s = "as_str p"
  have eq: "?s = take i ?s @ slash # drop (Suc i) ?s" and nv: "slash \<notin> set (drop (Suc i) ?s)"
    using rfind_SomeD [OF Some] by simp_all
  have dir: "rel_dir p = take i ?s" using Some by (simp add: rel_dir_def)
  have "dir_chain ?s = ?s # dir_chain (take i ?s)" using Some by (simp add: dir_chain.simps [of ?s])
  then have "d \<in> set (dir_chain (rel_dir p)) \<longleftrightarrow> starts_with ?s (d @ [slash])"
    if "d \<noteq> ?s"
    using dir_chain_iff [of d ?s] that dir by auto
  moreover have "\<not> starts_with ?s (?s @ [slash])" by (auto simp: starts_with_iff)
  moreover have "?s \<notin> set (dir_chain (rel_dir p))"
  proof
    assume "?s \<in> set (dir_chain (rel_dir p))"
    then have "length ?s \<le> length (rel_dir p)"
      using dir_chain_iff [of ?s "rel_dir p"] by (auto simp: starts_with_iff)
    then show False using dir rfind_less [OF Some] by simp
  qed
  moreover have "slash \<in> set ?s" using eq by (metis in_set_conv_decomp)
  ultimately show ?thesis by metis
qed

text \<open>The range seek of \<open>iter_prefix\<close> on an index built by \<open>FileIndex::new\<close> returns exactly
  the indexed paths that start with the prefix, in path order.\<close>

lemma iter_prefix_exact:
  "iter_prefix (file_index_new root files) pre
   = filter (\<lambda>p. starts_with (as_str p) pre) (sorted_list_of_set (set files))"
proof -
  let ?idx = "file_index_new root files"
  have inv: "index_inv files ?idx" by (rule file_index_new_inv)
  then have "fi_paths ?idx = sorted_list_of_set (set files)"
    unfolding index_inv_def by (metis sorted_list_of_set.idem_if_sorted_distinct)
  with inv show ?thesis
    by (simp add: iter_prefix_def index_inv_def seek_prefix_eq_filter)
qed

text \<open>Probing an index built from normalised paths answers membership of the normalised
  probe, whatever spelling (\<open>\\\<close>, leading \<open>/\<close> or \<open>./\<close>) the probe has: the borrowed fast path agrees
  with the allocating one.\<close>

lemma fi_contains_normalises:
  "fi_contains (file_index_new root (map rel_path_new names)) p
   \<longleftrightarrow> (\<exists>n\<in>set names. rel_path_new n = rel_path_new p)"
proof -
  have "set (fi_paths (file_index_new root (map rel_path_new names))) = rel_path_new ` set names"
    using file_index_new_inv [of "map rel_path_new names" root] by (simp add: index_inv_def)
  moreover have "is_normal_rel p \<Longrightarrow> RelPath p = rel_path_new p"
    by (simp add: rel_path_new_id)
  ultimately show ?thesis
    by (auto simp: fi_contains_def image_iff) metis+
qed

text \<open>\<open>has_dir\<close> is exact: a directory is present iff it is the root or some indexed file lies
  below it.\<close>

lemma has_dir_exact:
  assumes "dir \<noteq> ''''"
  shows "has_dir (file_index_new root files) dir
     \<longleftrightarrow> (\<exists>p\<in>set files. starts_with (as_str p) (dir @ [slash]))"
proof -
  have "fi_dirs (file_index_new root files) = (\<Union>p\<in>set files. set (dir_chain (rel_dir p)))"
    using file_index_new_inv [of files root] by (simp add: index_inv_def)
  moreover have "slash \<in> set (as_str p)" if "dir \<in> set (dir_chain (rel_dir p))" for p
  proof (rule ccontr)
    assume "slash \<notin> set (as_str p)"
    then have "rel_dir p = ''''" by (simp add: rel_dir_def rfind_None_iff [THEN iffD2])
    then show False using that assms by (auto simp: dir_chain_iff starts_with_iff)
  qed
  ultimately show ?thesis
    using assms starts_with_rel_dir [of _ dir] by (auto simp: has_dir_def)
qed

lemma has_dir_exact_witness:
  "has_dir (file_index_new '''' [RelPath ''a/b/c.rs'', RelPath ''d.rs'']) ''a''"
proof -
  have "(''a'' :: string) \<noteq> ''''" by simp
  from has_dir_exact [OF this] show ?thesis by (simp add: starts_with_def)
qed

end
