(* ===== verification/Languages.thy ===== *)
theory Languages
  imports RelPaths
begin

text \<open>
  Language detection (\<open>Language\<close> in \<open>astrolabe-core/src/types.rs\<close> and the Objective-C header
  test of \<open>parse/objc.rs\<close>): by file name, extension, shebang line and, for \<open>.h\<close> and \<open>.m\<close>
  files, by content.  Slicing a string inside a character panics in Rust; \<open>strip_comments\<close>
  can do that, so the content-based functions return a \<open>run\<close>.
\<close>

datatype language =
  Python | Go | Java | Rust | TypeScript | Tsx | JavaScript | C | Cpp | ObjC | ObjCpp | Swift
| Php | Vue | Dart | CSharp | VisualBasic | Kotlin | Shell | Ruby | Lua | Proto

abbreviation dquote :: char where "dquote \<equiv> CHR 0x22"
abbreviation squote :: char where "squote \<equiv> CHR 0x27"

definition lang_name :: "language \<Rightarrow> string" where
  "lang_name l =
     (case l of Python \<Rightarrow> ''python'' | Go \<Rightarrow> ''go'' | Java \<Rightarrow> ''java'' | Rust \<Rightarrow> ''rust''
      | TypeScript \<Rightarrow> ''typescript'' | Tsx \<Rightarrow> ''tsx'' | JavaScript \<Rightarrow> ''javascript'' | C \<Rightarrow> ''c''
      | Cpp \<Rightarrow> ''cpp'' | ObjC \<Rightarrow> ''objc'' | ObjCpp \<Rightarrow> ''objcpp'' | Swift \<Rightarrow> ''swift'' | Php \<Rightarrow> ''php''
      | Vue \<Rightarrow> ''vue'' | Dart \<Rightarrow> ''dart'' | CSharp \<Rightarrow> ''csharp'' | VisualBasic \<Rightarrow> ''vb''
      | Kotlin \<Rightarrow> ''kotlin'' | Shell \<Rightarrow> ''shell'' | Ruby \<Rightarrow> ''ruby'' | Lua \<Rightarrow> ''lua''
      | Proto \<Rightarrow> ''proto'')"

definition from_name :: "string \<Rightarrow> language option" where
  "from_name s0 =
     (let s = ascii_lowercase (trim s0) in
      if s = ''python'' \<or> s = ''py'' then Some Python
      else if s = ''go'' \<or> s = ''golang'' then Some Go
      else if s = ''java'' then Some Java
      else if s = ''rust'' \<or> s = ''rs'' then Some Rust
      else if s = ''typescript'' \<or> s = ''ts'' then Some TypeScript
      else if s = ''tsx'' then Some Tsx
      else if s = ''javascript'' \<or> s = ''js'' then Some JavaScript
      else if s = ''c'' then Some C
      else if s = ''cpp'' \<or> s = ''c++'' \<or> s = ''cxx'' then Some Cpp
      else if s = ''objc'' \<or> s = ''objective-c'' \<or> s = ''objectivec'' then Some ObjC
      else if s = ''objcpp'' \<or> s = ''objective-c++'' \<or> s = ''objectivecpp'' then Some ObjCpp
      else if s = ''swift'' then Some Swift
      else if s = ''php'' then Some Php
      else if s = ''vue'' then Some Vue
      else if s = ''dart'' then Some Dart
      else if s = ''csharp'' \<or> s = ''cs'' \<or> s = ''c#'' then Some CSharp
      else if s = ''vb'' \<or> s = ''visualbasic'' \<or> s = ''visual-basic'' then Some VisualBasic
      else if s = ''kotlin'' \<or> s = ''kt'' then Some Kotlin
      else if s = ''shell'' \<or> s = ''sh'' \<or> s = ''bash'' \<or> s = ''shellscript'' then Some Shell
      else if s = ''ruby'' \<or> s = ''rb'' then Some Ruby
      else if s = ''lua'' then Some Lua
      else if s = ''proto'' \<or> s = ''protobuf'' \<or> s = ''protocolbuffers'' \<or> s = ''protocol-buffers''
        then Some Proto
      else None)"

definition from_file_name :: "string \<Rightarrow> language option" where
  "from_file_name path =
     (let name = last (split_on slash path) in
      if name \<in> set [''Rakefile'', ''Gemfile'', ''Guardfile'', ''Podfile'', ''Fastfile'', ''Brewfile'']
        then Some Ruby
      else if name \<in> set [''.bashrc'', ''.bash_profile'', ''.bash_login'', ''.bash_logout'',
          ''.bash_aliases'', ''.profile'', ''.zshrc'', ''.zprofile'', ''.zshenv'', ''.zlogin'', ''.zlogout'']
        then Some Shell
      else None)"

definition language_of_ext :: "string \<Rightarrow> language option" where
  "language_of_ext e =
     (if e \<in> set [''py'', ''pyi'', ''pyw''] then Some Python
      else if e = ''go'' then Some Go
      else if e = ''java'' then Some Java
      else if e = ''rs'' then Some Rust
      else if e \<in> set [''ts'', ''mts'', ''cts''] then Some TypeScript
      else if e = ''tsx'' then Some Tsx
      else if e \<in> set [''js'', ''mjs'', ''cjs'', ''jsx''] then Some JavaScript
      else if e \<in> set [''c'', ''h''] then Some C
      else if e \<in> set [''cpp'', ''cc'', ''cxx'', ''c++'', ''hpp'', ''hh'', ''hxx'', ''h++'', ''ipp'',
          ''inl'', ''tpp'', ''tcc'', ''cu'', ''cuh'', ''cppm'', ''ixx''] then Some Cpp
      else if e = ''m'' then Some ObjC
      else if e = ''mm'' then Some ObjCpp
      else if e = ''swift'' then Some Swift
      else if e \<in> set [''php'', ''phtml'', ''php5''] then Some Php
      else if e = ''vue'' then Some Vue
      else if e = ''dart'' then Some Dart
      else if e \<in> set [''cs'', ''csx'', ''razor'', ''cshtml''] then Some CSharp
      else if e = ''vb'' then Some VisualBasic
      else if e \<in> set [''kt'', ''kts''] then Some Kotlin
      else if e \<in> set [''sh'', ''bash'', ''zsh'', ''zsh-theme'', ''bats'', ''ksh''] then Some Shell
      else if e \<in> set [''rb'', ''rake'', ''gemspec'', ''ru'', ''rbw''] then Some Ruby
      else if e = ''lua'' then Some Lua
      else if e = ''proto'' then Some Proto
      else None)"

definition from_path :: "rel_path \<Rightarrow> language option" where
  "from_path p =
     (case from_file_name (as_str p) of Some l \<Rightarrow> Some l
      | None \<Rightarrow> Option.bind (rel_extension p) (\<lambda>e. language_of_ext (ascii_lowercase e)))"

section \<open>Shebang\<close>

definition shebang_interpreter :: "string \<Rightarrow> string option" where
  "shebang_interpreter source =
     (case str_lines source of [] \<Rightarrow> None
      | l # _ \<Rightarrow>
        (case strip_prefix l ''#!'' of None \<Rightarrow> None
         | Some r \<Rightarrow>
           (case split_whitespace (trim r) of [] \<Rightarrow> None
            | part # parts \<Rightarrow>
              (let interp = last (split_on slash part)
               in if interp = ''env'' then find (\<lambda>p. \<not> starts_with p ''-'') parts
                  else Some interp))))"

definition from_shebang :: "string \<Rightarrow> language option" where
  "from_shebang source =
     (case shebang_interpreter source of None \<Rightarrow> None
      | Some i \<Rightarrow>
        if i \<in> set [''sh'', ''bash'', ''dash'', ''ksh'', ''zsh'', ''bats''] then Some Shell
        else if i = ''ruby'' then Some Ruby
        else if i \<in> set [''lua'', ''luajit''] then Some Lua
        else if i \<in> set [''python'', ''pypy'', ''pypy3''] then Some Python
        else if i \<in> set [''node'', ''nodejs'', ''deno'', ''bun''] then Some JavaScript
        else if i = ''php'' then Some Php
        else if 6 < length i \<and> starts_with i ''python''
             \<and> list_all (\<lambda>b. is_ascii_digit b \<or> b = CHR ''.'') (drop 6 i) then Some Python
        else None)"

definition is_shebang_candidate :: "rel_path \<Rightarrow> bool" where
  "is_shebang_candidate p =
     (case rel_extension p of None \<Rightarrow> True
      | Some e \<Rightarrow> e = [] \<or> \<not> list_all is_ascii_alnum e)"

section \<open>Header and MATLAB content tests\<close>

text \<open>\<open>strip_comments\<close> from the current byte on; the state is \<open>in_block\<close> and the open quote.  The
  slice \<open>line[i..i + 2]\<close> of an escape panics when byte \<open>i + 2\<close> continues a character.\<close>

function strip_comments_from :: "bool \<Rightarrow> char option \<Rightarrow> string \<Rightarrow> (string \<times> bool) run" where
  "strip_comments_from in_block quote s =
     (case s of [] \<Rightarrow> Ret ([], in_block)
      | c # cs \<Rightarrow>
        if in_block then
          (if starts_with s ''*/'' then strip_comments_from False quote (drop 2 s)
           else strip_comments_from True quote cs)
        else if quote \<noteq> None \<and> c = backslash \<and> cs \<noteq> [] then
          (if 2 < length s \<and> is_cont (s ! 2) then Panic
           else run_bind (strip_comments_from in_block quote (drop 2 s))
                  (\<lambda>(out, b). Ret (take 2 s @ out, b)))
        else if quote = None \<and> starts_with s ''//'' then Ret ([], in_block)
        else if quote = None \<and> starts_with s ''/*'' then strip_comments_from True quote (drop 2 s)
        else
          (let quote' = (case quote of Some q \<Rightarrow> if c = q then None else quote
                         | None \<Rightarrow> if c = dquote \<or> c = squote then Some c else None);
               ch = c # takeWhile is_cont cs
           in run_bind (strip_comments_from in_block quote' (dropWhile is_cont cs))
                (\<lambda>(out, b). Ret (ch @ out, b))))"
  by pat_completeness auto
termination
  by (relation "measure (\<lambda>(b, q, s). length s)") (auto simp: le_imp_less_Suc length_dropWhile_le)

declare strip_comments_from.simps [simp del]

definition strip_comments :: "string \<Rightarrow> bool \<Rightarrow> (string \<times> bool) run" where
  "strip_comments line in_block = strip_comments_from in_block None line"

fun strip_literals_from :: "string option \<Rightarrow> bool \<Rightarrow> string list \<Rightarrow> string" where
  "strip_literals_from quote esc [] = []"
| "strip_literals_from quote esc (c # cs) =
     (case quote of
        Some q \<Rightarrow>
          if esc then strip_literals_from quote False cs
          else if c = [backslash] then strip_literals_from quote True cs
          else if c = q then c @ strip_literals_from None esc cs
          else strip_literals_from quote esc cs
      | None \<Rightarrow>
          c @ strip_literals_from (if c = [dquote] \<or> c = [squote] then Some c else None) esc cs)"

definition strip_literals :: "string \<Rightarrow> string" where
  "strip_literals line = strip_literals_from None False (utf8_chars line)"

definition word_byte :: "char \<Rightarrow> bool" where
  "word_byte c \<longleftrightarrow> is_ascii_alnum c \<or> c = CHR ''_''"

text \<open>\<open>match_indices\<close> of a word at the given offset: occurrences do not overlap.\<close>

function match_indices_from :: "nat \<Rightarrow> string \<Rightarrow> string \<Rightarrow> nat list" where
  "match_indices_from i s w =
     (if w = [] \<or> s = [] then []
      else if starts_with s w then i # match_indices_from (i + length w) (drop (length w) s) w
      else match_indices_from (Suc i) (tl s) w)"
  by pat_completeness auto
termination
  by (relation "measure (\<lambda>(i, s, w). length s)") (auto simp: starts_with_iff)

declare match_indices_from.simps [simp del]

definition has_word :: "string \<Rightarrow> string \<Rightarrow> bool" where
  "has_word line word =
     list_ex (\<lambda>i. (i = 0 \<or> \<not> word_byte (line ! (i - 1)))
                  \<and> (length line \<le> i + length word \<or> \<not> word_byte (line ! (i + length word))))
       (match_indices_from 0 line word)"

definition keyword_ident :: "unicode \<Rightarrow> string \<Rightarrow> string \<Rightarrow> string option" where
  "keyword_ident U line kw =
     (case strip_prefix line kw of None \<Rightarrow> None
      | Some rest \<Rightarrow>
        (let trimmed = trim_start rest in
         if length trimmed = length rest then None
         else (let tail = dropWhile (\<lambda>c. char_alnum U c \<or> c = ''_'') (utf8_chars trimmed)
               in if length (concat tail) = length trimmed then None
                  else Some (trim_start (concat tail)))))"

text \<open>The tests of \<open>header_looks_cpp\<close> on one line without comments, blanks trimmed.\<close>

definition cpp_line :: "unicode \<Rightarrow> string \<Rightarrow> bool" where
  "cpp_line U line0 =
     (if contains_sub line0 (''extern '' @ [dquote] @ ''C++'' @ [dquote]) then True
      else
        (let line = strip_literals line0 in
         (case strip_prefix line ''template'' of Some rest \<Rightarrow> starts_with (trim_start rest) ''<''
          | None \<Rightarrow> False)
         \<or> (case keyword_ident U line ''class'' of Some rest \<Rightarrow>
              rest = [] \<or> starts_with rest ''{'' \<or> starts_with rest '';''
              \<or> (starts_with rest '':'' \<and> \<not> starts_with rest ''::'')
              \<or> starts_with rest ''final''
            | None \<Rightarrow> False)
         \<or> (case keyword_ident U line ''namespace'' of Some r \<Rightarrow> r = [] \<or> starts_with r ''{''
            | None \<Rightarrow> False)
         \<or> starts_with line ''namespace {'' \<or> starts_with line ''using namespace ''
         \<or> line = ''public:'' \<or> line = ''private:'' \<or> line = ''protected:''
         \<or> contains_sub line ''::'' \<or> has_word line ''nullptr'' \<or> has_word line ''constexpr''))"

fun header_lines_cpp :: "unicode \<Rightarrow> bool \<Rightarrow> string list \<Rightarrow> bool run" where
  "header_lines_cpp U in_block [] = Ret False"
| "header_lines_cpp U in_block (raw # raws) =
     run_bind (strip_comments raw in_block)
       (\<lambda>(nocomment, in_block').
          let line = trim nocomment in
          if line = [] then header_lines_cpp U in_block' raws
          else if cpp_line U line then Ret True
          else header_lines_cpp U in_block' raws)"

definition header_looks_cpp :: "unicode \<Rightarrow> string \<Rightarrow> bool run" where
  "header_looks_cpp U source = header_lines_cpp U False (str_lines source)"

definition header_looks_objc :: "string \<Rightarrow> bool" where
  "header_looks_objc source =
     list_ex (\<lambda>line. let t = trim_start line in
        starts_with t ''@interface'' \<or> starts_with t ''@protocol'' \<or> starts_with t ''@end''
        \<or> starts_with t ''@class '' \<or> starts_with t ''#import''
        \<or> starts_with t ''NS_ASSUME_NONNULL_BEGIN'') (str_lines source)"

definition objc_header_language :: "string \<Rightarrow> language option" where
  "objc_header_language source =
     (if \<not> header_looks_objc source then None
      else
        (let cpp = list_ex (\<lambda>line. let t = trim_start line in
               if starts_with t ''//'' \<or> starts_with t ''*'' \<or> starts_with t ''/*'' then False
               else starts_with t ''namespace '' \<or> starts_with t ''template <''
                 \<or> starts_with t ''template<'' \<or> starts_with t ''using '' \<or> contains_sub t ''std::''
                 \<or> (contains_sub t ''::'' \<and> \<not> contains_sub t [dquote])) (str_lines source)
         in Some (if cpp then ObjCpp else ObjC)))"

definition looks_matlab :: "string \<Rightarrow> bool" where
  "looks_matlab source =
     (if list_ex (contains_sub source)
           [''@interface'', ''@implementation'', ''@protocol'', ''@end'', ''#import'', ''#include'',
            ''#define'', ''@property''] then False
      else list_ex (\<lambda>l. let t = trim_start l in
             starts_with t ''%'' \<or> (starts_with t ''function '' \<and> \<not> contains_sub t ''{'')
             \<or> starts_with t ''classdef '') (str_lines source))"

definition ext_is :: "rel_path \<Rightarrow> string \<Rightarrow> bool" where
  "ext_is p e =
     (case rel_extension p of Some x \<Rightarrow> ascii_lowercase x = ascii_lowercase e | None \<Rightarrow> False)"

definition from_path_and_source :: "unicode \<Rightarrow> rel_path \<Rightarrow> string \<Rightarrow> language option run" where
  "from_path_and_source U p source =
     (case from_path p of
        None \<Rightarrow> Ret (if is_shebang_candidate p then from_shebang source else None)
      | Some lang \<Rightarrow>
          if lang = ObjC \<and> ext_is p ''m'' \<and> looks_matlab source then Ret None
          else if lang = C \<and> ext_is p ''h'' then
            (case objc_header_language source of
               Some l \<Rightarrow> Ret (Some l)
             | None \<Rightarrow> run_bind (header_looks_cpp U source)
                        (\<lambda>b. Ret (Some (if b then Cpp else lang))))
          else Ret (Some lang))"

section \<open>Properties\<close>

lemma run_bind_total:
  "\<exists>out b. r = Ret (out, b) \<Longrightarrow> \<exists>out b. run_bind r (\<lambda>(out, b). Ret (f out, b)) = Ret (out, b)"
  by auto

definition in_escape :: "char option \<Rightarrow> string \<Rightarrow> bool" where
  "in_escape quote s \<longleftrightarrow> quote \<noteq> None \<and> hd s = backslash \<and> tl s \<noteq> []"

lemma strip_block:
  "strip_comments_from True q (c # cs) =
     (if starts_with (c # cs) ''*/'' then strip_comments_from False q (drop 2 (c # cs))
      else strip_comments_from True q cs)"
  by (subst strip_comments_from.simps) simp

lemma strip_escape:
  "in_escape q (c # cs) \<Longrightarrow> strip_comments_from False q (c # cs) =
     (if 2 < length (c # cs) \<and> is_cont ((c # cs) ! 2) then Panic
      else run_bind (strip_comments_from False q (drop 2 (c # cs)))
             (\<lambda>(out, b). Ret (take 2 (c # cs) @ out, b)))"
  by (subst strip_comments_from.simps) (simp add: in_escape_def)

lemma strip_line_comment:
  "starts_with (c # cs) ''//'' \<Longrightarrow> strip_comments_from False None (c # cs) = Ret ([], False)"
  by (subst strip_comments_from.simps) simp

lemma strip_open_block:
  "starts_with (c # cs) ''/*'' \<Longrightarrow>
   strip_comments_from False None (c # cs) = strip_comments_from True None (drop 2 (c # cs))"
  by (subst strip_comments_from.simps) (cases cs; simp)

definition next_quote :: "char option \<Rightarrow> char \<Rightarrow> char option" where
  "next_quote q c = (case q of Some d \<Rightarrow> if c = d then None else q
     | None \<Rightarrow> if c = dquote \<or> c = squote then Some c else None)"

lemma strip_plain:
  "\<not> in_escape q (c # cs) \<Longrightarrow>
   q \<noteq> None \<or> (\<not> starts_with (c # cs) ''//'' \<and> \<not> starts_with (c # cs) ''/*'') \<Longrightarrow>
   strip_comments_from False q (c # cs) =
     run_bind (strip_comments_from False (next_quote q c) (dropWhile is_cont cs))
       (\<lambda>(out, b). Ret ((c # takeWhile is_cont cs) @ out, b))"
  by (subst strip_comments_from.simps)
     (auto simp: in_escape_def next_quote_def Let_def simp del: starts_with_simps)

lemma strip_comments_from_ascii:
  "is_ascii_str s \<Longrightarrow> \<exists>out b'. strip_comments_from b q s = Ret (out, b')"
proof (induction s arbitrary: b q rule: length_induct)
  case (1 s)
  show ?case
  proof (cases s)
    case Nil
    then show ?thesis by (subst strip_comments_from.simps) simp
  next
    case (Cons c cs)
    have rec: "\<exists>out b'. strip_comments_from b1 q1 t = Ret (out, b')"
      if "length t < length s" "set t \<subseteq> set s" for b1 q1 t
      using "1.IH" "1.prems" that by (auto simp: is_ascii_str_def list_all_iff subset_iff)
    have rec1: "\<exists>out b'. strip_comments_from b1 q1 (drop 2 (c # cs)) = Ret (out, b')" for b1 q1
      by (rule rec) (use Cons in \<open>auto dest: in_set_dropD\<close>)
    have rec2: "\<exists>out b'. strip_comments_from b1 q1 cs = Ret (out, b')" for b1 q1
      by (rule rec) (use Cons in auto)
    have rec3: "\<exists>out b'. strip_comments_from b1 q1 (dropWhile is_cont cs) = Ret (out, b')" for b1 q1
      by (rule rec) (use Cons in \<open>auto simp: le_imp_less_Suc length_dropWhile_le dest: set_dropWhileD\<close>)
    have nocont: "\<not> (2 < length (c # cs) \<and> is_cont ((c # cs) ! 2))"
      using "1.prems" Cons by (force simp: is_ascii_str_def is_cont_def list_all_length)
    consider (block) b | (esc) "\<not> b" "in_escape q (c # cs)"
      | (line) "\<not> b" "q = None" "starts_with (c # cs) ''//''"
      | (blk) "\<not> b" "q = None" "starts_with (c # cs) ''/*''"
      | (plain) "\<not> b" "\<not> in_escape q (c # cs)"
          "q \<noteq> None \<or> (\<not> starts_with (c # cs) ''//'' \<and> \<not> starts_with (c # cs) ''/*'')"
      by blast
    then show ?thesis
    proof cases
      case block
      then show ?thesis using rec1 rec2 Cons by (simp only: strip_block split: if_split) simp
    next
      case esc
      then show ?thesis
        using run_bind_total [OF rec1] nocont Cons by (simp only: strip_escape if_False)
    next
      case line
      then have "strip_comments_from b q s = Ret ([], False)"
        using strip_line_comment Cons by simp
      then show ?thesis by blast
    next
      case blk
      then show ?thesis using rec1 Cons by (simp only: strip_open_block)
    next
      case plain
      then show ?thesis
        using run_bind_total [OF rec3] Cons by (simp only: strip_plain [OF plain(2,3)] if_False)
    qed
  qed
qed

text \<open>Comment stripping never panics on an ASCII line.\<close>

lemma strip_comments_ascii_total:
  assumes "is_ascii_str line"
  shows "\<exists>out b. strip_comments line in_block = Ret (out, b)"
  using strip_comments_from_ascii [OF assms] by (auto simp: strip_comments_def)

lemma strip_comments_ascii_total_witness:
  "\<exists>out b. strip_comments ''int x; /* c */ // d'' False = Ret (out, b)"
  by (rule strip_comments_ascii_total) code_simp

text \<open>Language detection of a \<open>.h\<close> file panics on a string literal that holds a backslash
  followed by a non-ASCII character (here the UTF-8 bytes of U+00E9): \<open>strip_comments\<close> slices
  \<open>line[i..i + 2]\<close> in the middle of that character.\<close>

lemma header_escape_before_non_ascii_panics:
  "utf8_valid [dquote, backslash, CHR 0xC3, CHR 0xA9, dquote]
   \<and> from_path_and_source U (RelPath ''a.h'') [dquote, backslash, CHR 0xC3, CHR 0xA9, dquote] = Panic"
proof -
  let ?s = "[dquote, backslash, CHR 0xC3, CHR 0xA9, dquote]"
  have "utf8_valid ?s" by code_simp
  moreover have "from_path (RelPath ''a.h'') = Some C" by code_simp
  moreover have "ext_is (RelPath ''a.h'') ''h''" by code_simp
  moreover have "objc_header_language ?s = None" by code_simp
  moreover have "str_lines ?s = [?s]" by code_simp
  moreover have "strip_comments ?s False = Panic" by code_simp
  ultimately show ?thesis
    by (simp add: from_path_and_source_def header_looks_cpp_def)
qed

text \<open>The canonical name of every language parses back to it.\<close>

lemma from_name_of_lang_name: "from_name (lang_name l) = Some l"
proof -
  have "is_ascii_str (lang_name l)" "list_all (\<lambda>c. \<not> is_ws_char [c]) (lang_name l)"
    by (cases l; simp add: lang_name_def is_ascii_str_def is_ws_char_def)+
  then have trim: "trim (lang_name l) = lang_name l" by (rule trim_id)
  have low: "ascii_lowercase (lang_name l) = lang_name l"
    by (cases l) (simp_all add: lang_name_def ascii_lowercase_def to_ascii_lower_def is_ascii_upper_def)
  show ?thesis
    unfolding from_name_def Let_def trim low by (cases l) (simp_all add: lang_name_def)
qed

end
