(* ===== verification/GraphData.thy ===== *)
theory GraphData
  imports RelPaths Languages
begin

text \<open>
  The data of the code graph (\<open>astrolabe-core/src/types.rs\<close>): file and symbol ids, files,
  symbols, edges with their kind and confidence, and the project facts a resolver collects,
  with the two lookups of \<open>ProjectMeta\<close> and the default of \<open>ModuleResolver::resolve_import\<close>.
\<close>

datatype file_id = FileId (file_no: u32)
datatype symbol_id = SymbolId (symbol_no: u32)

instantiation file_id :: linorder
begin

definition less_eq_file_id :: "file_id \<Rightarrow> file_id \<Rightarrow> bool" where
  "a \<le> b \<longleftrightarrow> file_no a \<le> file_no b"

definition less_file_id :: "file_id \<Rightarrow> file_id \<Rightarrow> bool" where
  "a < b \<longleftrightarrow> file_no a < file_no b"

instance
  by standard (auto simp: less_eq_file_id_def less_file_id_def file_id.expand)

end

instantiation symbol_id :: linorder
begin

definition less_eq_symbol_id :: "symbol_id \<Rightarrow> symbol_id \<Rightarrow> bool" where
  "a \<le> b \<longleftrightarrow> symbol_no a \<le> symbol_no b"

definition less_symbol_id :: "symbol_id \<Rightarrow> symbol_id \<Rightarrow> bool" where
  "a < b \<longleftrightarrow> symbol_no a < symbol_no b"

instance
  by standard (auto simp: less_eq_symbol_id_def less_symbol_id_def symbol_id.expand)

end

datatype confidence = Exact | Scoped | Syntactic | Unknown

datatype symbol_kind =
  Function | Method | Class | Interface | Struct | Enum | Trait | TypeK | Const | Module
| Field | Variable

datatype edge_kind = Import | Call | Inherit | Namespace | Pair

record code_file =
  cf_id :: file_id
  cf_path :: rel_path
  cf_language :: "language option"
  cf_loc :: u32
  cf_sha :: string

record code_symbol =
  cs_id :: symbol_id
  cs_file :: file_id
  cs_name :: string
  cs_kind :: symbol_kind
  cs_signature :: string
  cs_start_line :: u32
  cs_end_line :: u32
  cs_exported :: bool

record code_edge =
  ce_from :: u32
  ce_to :: u32
  ce_kind :: edge_kind
  ce_weight :: u32
  ce_confidence :: confidence

section \<open>Project facts\<close>

record module_unit =
  mu_name :: string
  mu_dir :: string

record path_override =
  po_declared_in :: string
  po_name :: string
  po_target :: string

record project_facts =
  pf_manifest :: string
  pf_directory :: string
  pf_sdk :: string
  pf_root_namespace :: string
  pf_implicit_usings :: "string list"
  pf_global_usings :: "string list"
  pf_global_static_usings :: "string list"
  pf_default_compile_items :: bool

record project_ref =
  pr_from :: string
  pr_to :: string

record namespace_files =
  nf_namespace :: string
  nf_files :: "string list"

record type_decl =
  td_namespace :: string
  td_name :: string
  td_file :: string

record project_meta =
  pm_source_roots :: "string list"
  pm_modules :: "module_unit list"
  pm_excludes :: "string list"
  pm_overrides :: "path_override list"
  pm_projects :: "project_facts list"
  pm_project_refs :: "project_ref list"
  pm_namespaces :: "namespace_files list"
  pm_type_decls :: "type_decl list"
  pm_scope_index :: "string \<Rightarrow> nat list option"

definition module_covers :: "string \<Rightarrow> module_unit \<Rightarrow> bool" where
  "module_covers spec m \<longleftrightarrow>
     spec = mu_name m
     \<or> (length (mu_name m) < length spec \<and> starts_with spec (mu_name m)
        \<and> spec ! length (mu_name m) = slash)"

text \<open>The key of \<open>module_for\<close>; the negated length is \<open>Reverse\<close>.\<close>

definition module_key :: "module_unit \<Rightarrow> int \<times> nat \<times> string" where
  "module_key m = (- int (length (mu_name m)), length (mu_dir m), mu_dir m)"

definition module_for :: "project_meta \<Rightarrow> string \<Rightarrow> module_unit option" where
  "module_for meta spec = min_by_key module_key (filter (module_covers spec) (pm_modules meta))"

definition override_for :: "project_meta \<Rightarrow> string \<Rightarrow> string \<Rightarrow> path_override option" where
  "override_for meta declared_in name =
     find (\<lambda>p. po_declared_in p = declared_in \<and> po_name p = name) (pm_overrides meta)"

datatype import_resolution =
  Unresolved | File rel_path | Files "rel_path list" | NamespaceR string "rel_path list"

text \<open>The default \<open>resolve_import\<close>, over the language's own \<open>resolve\<close> (an argument).\<close>

definition resolve_import_default :: "(string \<Rightarrow> rel_path option) \<Rightarrow> string \<Rightarrow> import_resolution" where
  "resolve_import_default resolve spec =
     (case resolve spec of Some p \<Rightarrow> File p | None \<Rightarrow> Unresolved)"

section \<open>The module lookup\<close>

lemma module_covers_prefix: "module_covers spec m \<Longrightarrow> starts_with spec (mu_name m)"
  by (auto simp: module_covers_def starts_with_def)

lemma module_key_inj:
  assumes "module_covers spec m" and "module_covers spec m'" and "module_key m = module_key m'"
  shows "m = m'"
proof -
  have "mu_name m = take (length (mu_name m)) spec" "mu_name m' = take (length (mu_name m')) spec"
    using assms(1,2) [THEN module_covers_prefix] by (simp_all add: starts_with_def)
  moreover have "length (mu_name m) = length (mu_name m')" "mu_dir m = mu_dir m'"
    using assms(3) by (simp_all add: module_key_def)
  ultimately show ?thesis by (simp add: module_unit.equality)
qed

lemma min_by_key_unique:
  assumes "min_by_key f xs = Some m" and "inj_on f (set xs)"
    and "x \<in> set xs" and "\<And>y. y \<in> set xs \<Longrightarrow> f x \<le> f y"
  shows "m = x"
  using min_by_key_Some [OF assms(1)] assms(2-) by (meson inj_onD order_antisym)

lemma module_for_Some_iff:
  "module_for meta spec = Some m \<longleftrightarrow>
     m \<in> set (pm_modules meta) \<and> module_covers spec m
     \<and> (\<forall>m'\<in>set (pm_modules meta). module_covers spec m' \<longrightarrow> module_key m \<le> module_key m')"
  (is "?l \<longleftrightarrow> ?r")
proof
  assume ?l then show ?r
    using min_by_key_Some [of module_key "filter (module_covers spec) (pm_modules meta)" m]
    by (auto simp: module_for_def)
next
  assume r: ?r
  let ?ms = "filter (module_covers spec) (pm_modules meta)"
  have "?ms \<noteq> []" using r by (auto simp: filter_empty_conv)
  then obtain n where n: "min_by_key module_key ?ms = Some n"
    by (cases "min_by_key module_key ?ms") auto
  have "inj_on module_key (set ?ms)" by (auto intro: inj_onI module_key_inj)
  moreover have "m \<in> set ?ms" "\<And>y. y \<in> set ?ms \<Longrightarrow> module_key m \<le> module_key y"
    using r by simp_all
  ultimately have "n = m" by (rule min_by_key_unique [OF n])
  with n show ?l by (simp add: module_for_def)
qed

text \<open>\<open>module_for\<close> is deterministic: its answer does not depend on the order in which the
  modules are declared, and it is a unit of the longest name that covers the specifier at a
  segment boundary, with the shortest and then least directory among those.\<close>

lemma module_for_longest_any_order:
  assumes "set (pm_modules meta') = set (pm_modules meta)"
  shows "module_for meta' spec = module_for meta spec
    \<and> (\<forall>m. module_for meta spec = Some m \<longrightarrow>
         module_covers spec m
         \<and> (\<forall>m'\<in>set (pm_modules meta). module_covers spec m' \<longrightarrow>
              length (mu_name m') < length (mu_name m)
              \<or> mu_name m' = mu_name m \<and> length (mu_dir m) < length (mu_dir m')
              \<or> mu_name m' = mu_name m \<and> length (mu_dir m) = length (mu_dir m')
                \<and> mu_dir m \<le> mu_dir m'))"
proof -
  have "module_for meta' spec = Some m \<longleftrightarrow> module_for meta spec = Some m" for m
    by (simp add: module_for_Some_iff assms)
  then have same: "module_for meta' spec = module_for meta spec"
    by (metis not_Some_eq)
  have "length (mu_name m') < length (mu_name m)
      \<or> mu_name m' = mu_name m \<and> length (mu_dir m) < length (mu_dir m')
      \<or> mu_name m' = mu_name m \<and> length (mu_dir m) = length (mu_dir m') \<and> mu_dir m \<le> mu_dir m'"
    if le: "module_key m \<le> module_key m'" and cov: "module_covers spec m" "module_covers spec m'"
    for m m'
  proof -
    have names: "mu_name n = take (length (mu_name n)) spec" if "module_covers spec n" for n
      using module_covers_prefix [OF that] by (simp add: starts_with_def)
    have "mu_name m = mu_name m'" if "length (mu_name m) = length (mu_name m')"
      using names [OF cov(1)] names [OF cov(2)] that by simp
    with le show ?thesis by (auto simp: module_key_def)
  qed
  then show ?thesis using same by (auto simp: module_for_Some_iff)
qed

definition empty_meta :: project_meta where
  "empty_meta = \<lparr>pm_source_roots = [], pm_modules = [], pm_excludes = [], pm_overrides = [],
     pm_projects = [], pm_project_refs = [], pm_namespaces = [], pm_type_decls = [],
     pm_scope_index = Map.empty\<rparr>"

lemma module_for_longest_any_order_witness:
  "module_for (empty_meta\<lparr>pm_modules :=
      [\<lparr>mu_name = ''a/b'', mu_dir = ''y''\<rparr>, \<lparr>mu_name = ''a'', mu_dir = ''x''\<rparr>]\<rparr>) ''a/b/c''
   = module_for (empty_meta\<lparr>pm_modules :=
      [\<lparr>mu_name = ''a'', mu_dir = ''x''\<rparr>, \<lparr>mu_name = ''a/b'', mu_dir = ''y''\<rparr>]\<rparr>) ''a/b/c''"
  by (rule module_for_longest_any_order [THEN conjunct1]) (auto simp: insert_commute)

end
