(* ===== verification/Codec.thy ===== *)
theory Codec
  imports GraphData
begin

text \<open>
  The on-disk encodings of \<open>astrolabe-core/src/store.rs\<close>: LEB128 varints, length-prefixed
  strings, parse-cache payloads and file stamps, the numeric tags of languages, kinds and edges,
  the wire rows of files, symbols and edges, and the cache and edge keys.  The reader
  \<open>WireReader\<close> is the list of the bytes it has not consumed (\<open>buf[pos..]\<close>): none of its methods
  looks at the consumed part.  The locale \<open>wire_codec\<close> is the contract of one
  encoder/decoder pair; it is proved for every pair the payloads are built from.
\<close>

datatype store_error =
  Backend string | Version u32 u32 | Locked string | Corrupt string

abbreviation truncated :: store_error where
  "truncated \<equiv> Backend ''parse payload: truncated''"

type_synonym wire = "u8 list"
type_synonym 'a reader = "wire \<Rightarrow> store_error + 'a \<times> wire"

text \<open>The bytes of a string and back.\<close>

definition str_bytes :: "string \<Rightarrow> wire" where
  "str_bytes = map of_char"

definition bytes_str :: "wire \<Rightarrow> string" where
  "bytes_str = map (\<lambda>b. char_of (uint b))"

section \<open>Writers\<close>

function put_varint :: "u64 \<Rightarrow> wire" where
  "put_varint v =
     (if 0x80 \<le> v then (ucast v OR 0x80) # put_varint (drop_bit 7 v) else [ucast v])"
  by pat_completeness auto
termination
proof (relation "measure unat", goal_cases)
  case (2 v)
  then have "128 \<le> unat v" by (simp add: word_le_nat_alt)
  then show ?case by (simp add: drop_bit_eq_div unat_div)
qed simp

declare put_varint.simps [simp del]

definition put_str :: "string \<Rightarrow> wire" where
  "put_str s = put_varint (of_nat (length s)) @ str_bytes s"

section \<open>The reader\<close>

definition read_byte :: "u8 reader" where
  "read_byte bs = (case bs of [] \<Rightarrow> Inl truncated | b # r \<Rightarrow> Inr (b, r))"

text \<open>The loop of \<open>varint\<close> over the shifts \<open>(0..64).step_by(7)\<close>.\<close>

fun varint_loop :: "nat list \<Rightarrow> u64 \<Rightarrow> u64 reader" where
  "varint_loop [] value bs = Inl (Backend ''parse payload: bad varint'')"
| "varint_loop (shift # shifts) value bs =
     and_then (read_byte bs) (\<lambda>(b, r).
       let value' = value OR push_bit shift (ucast (b AND 0x7f))
       in if b AND 0x80 = 0 then Inr (value', r) else varint_loop shifts value' r)"

definition read_varint :: "u64 reader" where
  "read_varint = varint_loop [0, 7, 14, 21, 28, 35, 42, 49, 56, 63] 0"

definition read_u32 :: "u32 reader" where
  "read_u32 bs = and_then (read_varint bs) (\<lambda>(v, r).
     if v \<le> 0xFFFFFFFF then Inr (ucast v, r)
     else Inl (Backend ''parse payload: value out of range''))"

definition read_len :: "nat reader" where
  "read_len bs = and_then (read_varint bs) (\<lambda>(n, r).
     if int (length r) < uint n then Inl truncated else Inr (unat n, r))"

definition read_string :: "string reader" where
  "read_string bs = and_then (read_len bs) (\<lambda>(n, r).
     let s = bytes_str (take n r)
     in if utf8_valid s then Inr (s, drop n r)
        else Inl (Backend ''parse payload: invalid utf-8''))"

definition read_finish :: "wire \<Rightarrow> store_error + unit" where
  "read_finish bs = (if bs = [] then Inr () else Inl (Backend ''parse payload: trailing bytes''))"

text \<open>\<open>for _ in 0..n\<close> around one element reader.\<close>

fun read_n :: "'a reader \<Rightarrow> nat \<Rightarrow> 'a list reader" where
  "read_n get 0 bs = Inr ([], bs)"
| "read_n get (Suc n) bs =
     and_then (get bs) (\<lambda>(a, r). and_then (read_n get n r) (\<lambda>(as, r'). Inr (a # as, r')))"

definition read_list :: "'a reader \<Rightarrow> 'a list reader" where
  "read_list get bs = and_then (read_len bs) (\<lambda>(n, r). read_n get n r)"

definition put_list :: "('a \<Rightarrow> wire) \<Rightarrow> 'a list \<Rightarrow> wire" where
  "put_list put xs = put_varint (of_nat (length xs)) @ concat (map put xs)"

section \<open>The contract of a codec\<close>

lemma and_then_Inl_iff: "(\<exists>e. and_then r f = Inl e) \<longleftrightarrow> (\<forall>a. r = Inr a \<longrightarrow> (\<exists>e. f a = Inl e))"
  by (cases r) auto

lemma strict_prefix_take: "n < length xs \<Longrightarrow> strict_prefix (take n xs) xs"
  by (auto simp: strict_prefix_def take_is_prefix dest: arg_cong [of _ _ length])

lemma strict_prefix_append_cases:
  assumes "strict_prefix p (a @ b)"
  obtains "strict_prefix p a" | q where "p = a @ q" "strict_prefix q b"
proof (cases "strict_prefix p a")
  case False
  from assms have "prefix p (a @ b)" "p \<noteq> a @ b" by (auto simp: strict_prefix_def)
  with False obtain q where "p = a @ q" "prefix q b"
    by (metis append_Nil2 prefix_append prefix_bot.extremum strict_prefix_def)
  with \<open>p \<noteq> a @ b\<close> show ?thesis using that(2) by (auto simp: strict_prefix_def)
qed (use that(1) in simp)

text \<open>Decoding an encoding gives the value and leaves the bytes after it; every cut of an encoding
  is rejected; an encoding is never empty (so an element count is bounded by the bytes left).\<close>

locale wire_codec =
  fixes put :: "'a \<Rightarrow> wire" and get :: "'a reader" and ok :: "'a \<Rightarrow> bool"
  assumes roundtrip: "ok a \<Longrightarrow> get (put a @ rest) = Inr (a, rest)"
    and cut: "ok a \<Longrightarrow> strict_prefix p (put a) \<Longrightarrow> \<exists>e. get p = Inl e"
    and put_nonempty: "put a \<noteq> []"
begin

lemma length_put_all: "length xs \<le> length (concat (map put xs))"
proof (induction xs)
  case (Cons x xs)
  have "Suc 0 \<le> length (put x)" using put_nonempty [of x] by (cases "put x") simp_all
  with Cons show ?case by simp
qed simp

lemma read_n_roundtrip:
  "list_all ok xs \<Longrightarrow> read_n get (length xs) (concat (map put xs) @ rest) = Inr (xs, rest)"
  by (induction xs) (simp_all add: roundtrip)

lemma read_n_cut:
  "list_all ok xs \<Longrightarrow> strict_prefix p (concat (map put xs)) \<Longrightarrow>
   \<exists>e. read_n get (length xs) p = Inl e"
proof (induction xs arbitrary: p)
  case (Cons x xs)
  from Cons.prems(2) have "strict_prefix p (put x @ concat (map put xs))" by simp
  then show ?case
  proof (cases rule: strict_prefix_append_cases)
    case 1
    then show ?thesis using Cons.prems(1) cut [of x p] by auto
  next
    case (2 q)
    then obtain e where "read_n get (length xs) q = Inl e"
      using Cons.IH [of q] Cons.prems(1) by auto
    then show ?thesis using Cons.prems(1) \<open>p = put x @ q\<close> by (simp add: roundtrip)
  qed
qed simp

lemma inj_put: "ok a \<Longrightarrow> ok b \<Longrightarrow> put a = put b \<Longrightarrow> a = b"
  using roundtrip [of a "[]"] roundtrip [of b "[]"] by simp

lemma mono_ok:
  "(\<And>a. ok' a \<Longrightarrow> ok a) \<Longrightarrow> wire_codec put get ok'"
  by unfold_locales (use roundtrip cut put_nonempty in blast)+

end

section \<open>Varints\<close>

lemma low7_mask: "(0x7f :: 'a::len word) = mask 7"
  by (simp add: mask_eq_exp_minus_1)

lemma bit_0x80: "bit (0x80 :: int) n \<longleftrightarrow> n = 7" "bit (0x80 :: u8) n \<longleftrightarrow> n = 7"
  using bit_exp_iff [of 7 n, where ?'a = int] bit_exp_iff [of 7 n, where ?'a = u8] by auto

lemma ucast_low7: "ucast ((ucast w OR 0x80 :: u8) AND 0x7f) = take_bit 7 (w :: u64)"
  by (rule bit_word_eqI) (auto simp: low7_mask bit_simps bit_0x80)

lemma high_bit_set: "(ucast w OR 0x80 :: u8) AND 0x80 \<noteq> 0" for w :: u64
proof -
  have "bit ((ucast w OR 0x80 :: u8) AND 0x80) 7" by (simp add: bit_simps bit_0x80)
  then show ?thesis by (metis bit_0_eq bot_apply bot_bool_def)
qed

lemma nz_0x80: "(0x80 :: u8) \<noteq> 0"
  using high_bit_set [of 0] by simp

lemma small_bits:
  assumes "\<not> 0x80 \<le> (w :: u64)"
  shows "take_bit 7 w = w"
proof -
  have "w < 2 ^ 7" using assms by simp
  then show ?thesis by (simp add: take_bit_eq_mod mod_word_less)
qed

lemma last_byte:
  assumes "\<not> 0x80 \<le> (w :: u64)"
  shows "ucast ((ucast w :: u8) AND 0x7f) = w" and "(ucast w :: u8) AND 0x80 = 0"
proof -
  note w = small_bits [OF assms]
  show "ucast ((ucast w :: u8) AND 0x7f) = w"
    by (subst (2) w [symmetric], rule bit_word_eqI) (auto simp: low7_mask bit_simps)
  have "(ucast (take_bit 7 w) :: u8) AND 0x80 = 0"
    by (rule bit_word_eqI) (auto simp: bit_simps bit_0x80)
  then show "(ucast w :: u8) AND 0x80 = 0" by (simp only: w)
qed

lemma push_bit_split: "push_bit s (take_bit 7 w) OR push_bit (7 + s) (drop_bit 7 w) = push_bit s w"
  for w :: u64
proof (rule bit_word_eqI)
  fix n assume "n < LENGTH(64)"
  have "7 + (n - (s + 7)) = n - s" if "s + 7 \<le> n" using that by simp
  then show "bit (push_bit s (take_bit 7 w) OR push_bit (7 + s) (drop_bit 7 w)) n = bit (push_bit s w) n"
    by (cases "s + 7 \<le> n") (auto simp: bit_simps add.commute [of 7 s])
qed

lemma varint_loop_put:
  "k \<le> 9 \<Longrightarrow> drop_bit (64 - 7 * k) w = 0 \<Longrightarrow>
   varint_loop (map ((*) 7) [k..<10]) acc (put_varint w @ rest) = Inr (acc OR push_bit (7 * k) w, rest)"
proof (induction w arbitrary: k acc rule: put_varint.induct)
  case (1 w)
  have shifts: "map ((*) 7) [k..<10] = 7 * k # map ((*) 7) [Suc k..<10]"
    using "1.prems"(1) by (simp add: upt_rec)
  show ?case
  proof (cases "0x80 \<le> w")
    case False
    then show ?thesis
      by (simp add: put_varint.simps [of w] shifts read_byte_def last_byte)
  next
    case True
    have "k \<noteq> 9"
    proof
      assume "k = 9"
      with "1.prems" have "drop_bit 1 w = 0" by simp
      then have "unat (w div 2) = 0" by (simp add: drop_bit_eq_div)
      then have "unat w < 2" by (simp add: unat_div div_eq_0_iff)
      then have "w < 2" by (simp add: word_less_nat_alt)
      with True show False by (simp add: word_le_nat_alt word_less_nat_alt)
    qed
    with "1.prems" have k: "Suc k \<le> 9" by simp
    then have "drop_bit (64 - 7 * Suc k) (drop_bit 7 w) = drop_bit (64 - 7 * k) w"
      by (simp add: drop_bit_drop_bit)
    with "1.IH" [OF True k] "1.prems" show ?thesis
      by (simp add: put_varint.simps [of w] shifts read_byte_def True ucast_low7 nz_0x80
          Let_def or.assoc push_bit_split)
  qed
qed

lemma varint_loop_cut:
  "strict_prefix p (put_varint w) \<Longrightarrow> \<exists>e. varint_loop shifts acc p = Inl e"
proof (induction w arbitrary: p shifts acc rule: put_varint.induct)
  case (1 w)
  show ?case
  proof (cases "shifts = [] \<or> p = []")
    case True
    then show ?thesis by (cases shifts) (auto simp: read_byte_def)
  next
    case False
    then obtain b q s ss where "p = b # q" "shifts = s # ss" by (meson neq_Nil_conv)
    with 1 show ?thesis
      by (cases "0x80 \<le> w")
         (auto simp: put_varint.simps [of w] read_byte_def high_bit_set Let_def)
  qed
qed

lemma put_varint_not_Nil: "put_varint v \<noteq> []"
  by (simp add: put_varint.simps [of v])

lemma shifts_upt: "[0, 7, 14, 21, 28, 35, 42, 49, 56, 63] = map ((*) 7) [0..<10 :: nat]"
  by (simp add: upt_rec)

interpretation varint: wire_codec put_varint read_varint "\<lambda>_. True"
proof
  show "read_varint (put_varint a @ rest) = Inr (a, rest)" for a rest
    using varint_loop_put [of 0 a 0 rest] by (simp only: read_varint_def shifts_upt) simp
  show "strict_prefix p (put_varint a) \<Longrightarrow> \<exists>e. read_varint p = Inl e" for a p
    unfolding read_varint_def by (rule varint_loop_cut)
qed (rule put_varint_not_Nil)

section \<open>Strings, numbers and lists\<close>

lemma bytes_str_bytes [simp]: "bytes_str (str_bytes s) = s"
proof -
  have "char_of (uint (of_char c :: u8)) = c" for c
  proof -
    have "uint (of_char c :: u8) = take_bit 8 (of_char c)"
      by (simp flip: of_int_of_char [where ?'a = "8 word"] add: unsigned_of_int)
    then show ?thesis by (simp add: char_of_take_bit_eq)
  qed
  then show ?thesis by (simp add: bytes_str_def str_bytes_def comp_def)
qed

lemma length_str_bytes [simp]: "length (str_bytes s) = length s"
  by (simp add: str_bytes_def)

definition ok_str :: "string \<Rightarrow> bool" where
  "ok_str s \<longleftrightarrow> utf8_valid s \<and> length s < 2 ^ 64"

lemma unat_length: "n < 2 ^ 64 \<Longrightarrow> unat (of_nat n :: u64) = n"
  by (simp add: unat_of_nat take_bit_nat_eq_self)

lemma uint_length: "n < 2 ^ 64 \<Longrightarrow> uint (of_nat n :: u64) = int n"
  using unat_length [of n] by (metis uint_nat)

lemma read_len_put:
  "n < 2 ^ 64 \<Longrightarrow> n \<le> length rest \<Longrightarrow>
   read_len (put_varint (of_nat n) @ rest) = Inr (n, rest)"
  by (simp add: read_len_def varint.roundtrip unat_length uint_length)

lemma read_len_short:
  "n < 2 ^ 64 \<Longrightarrow> length rest < n \<Longrightarrow>
   read_len (put_varint (of_nat n) @ rest) = Inl truncated"
  by (simp add: read_len_def varint.roundtrip uint_length)

lemma read_len_cut: "strict_prefix p (put_varint n) \<Longrightarrow> \<exists>e. read_len p = Inl e"
  using varint.cut [of p n] by (auto simp: read_len_def)

lemma strict_prefix_length_less: "strict_prefix p q \<Longrightarrow> length p < length q"
  by (rule prefix_length_less)

interpretation str: wire_codec put_str read_string ok_str
proof
  show "read_string (put_str a @ rest) = Inr (a, rest)" if "ok_str a" for a rest
    using that by (simp add: read_string_def put_str_def ok_str_def read_len_put)
  show "\<exists>e. read_string p = Inl e" if a: "ok_str a" and p: "strict_prefix p (put_str a)" for a p
    using p unfolding put_str_def
  proof (cases rule: strict_prefix_append_cases)
    case 1
    then show ?thesis using read_len_cut by (fastforce simp: read_string_def)
  next
    case (2 q)
    then have "length q < length a" by (auto dest: strict_prefix_length_less)
    with a 2 show ?thesis by (simp add: read_string_def ok_str_def read_len_short)
  qed
qed (simp add: put_str_def put_varint_not_Nil)

definition put_u32 :: "u32 \<Rightarrow> wire" where
  "put_u32 v = put_varint (ucast v)"

lemma ucast_u32:
  "(ucast v :: u64) \<le> 0xFFFFFFFF" "(ucast (ucast v :: u64) :: u32) = v" for v :: u32
proof -
  have "unat v < 2 ^ 32" using unsigned_less [of v, where ?'a = nat] by simp
  then show "(ucast v :: u64) \<le> 0xFFFFFFFF"
    by (simp add: word_le_nat_alt unsigned_ucast_eq take_bit_nat_eq_self)
  show "(ucast (ucast v :: u64) :: u32) = v"
    by (rule bit_word_eqI) (simp add: bit_simps)
qed

interpretation w32: wire_codec put_u32 read_u32 "\<lambda>_. True"
proof
  show "read_u32 (put_u32 a @ rest) = Inr (a, rest)" for a rest
    by (simp add: read_u32_def put_u32_def varint.roundtrip ucast_u32)
  show "strict_prefix p (put_u32 a) \<Longrightarrow> \<exists>e. read_u32 p = Inl e" for a p
    using varint.cut [of p "ucast a"] by (auto simp: read_u32_def put_u32_def)
qed (simp add: put_u32_def put_varint_not_Nil)

context wire_codec
begin

lemma list_codec:
  "wire_codec (put_list put) (read_list get) (\<lambda>xs. list_all ok xs \<and> length xs < 2 ^ 64)"
proof
  fix xs rest p
  assume ok: "list_all ok xs \<and> length xs < 2 ^ 64"
  have "length xs \<le> length (concat (map put xs) @ rest)"
    using length_put_all [of xs] by simp
  then show "read_list get (put_list put xs @ rest) = Inr (xs, rest)"
    using ok by (simp add: read_list_def put_list_def read_len_put read_n_roundtrip)
  assume "strict_prefix p (put_list put xs)"
  then show "\<exists>e. read_list get p = Inl e"
    unfolding put_list_def
  proof (cases rule: strict_prefix_append_cases)
    case 1
    then show ?thesis using read_len_cut by (fastforce simp: read_list_def)
  next
    case (2 q)
    obtain e where "read_n get (length xs) q = Inl e" using read_n_cut ok 2(2) by blast
    with 2 ok show ?thesis
      by (cases "length q < length xs")
         (simp_all add: read_list_def read_len_short read_len_put)
  qed
qed (simp add: put_list_def put_varint_not_Nil)

text \<open>One step of a sequential decoder: a cut of \<open>put a @ b\<close> fails in \<open>a\<close> or in what follows.\<close>

lemma seq_cut:
  assumes "strict_prefix p (put a @ b)" and "ok a"
    and "\<And>q. strict_prefix q b \<Longrightarrow> \<exists>e. f (a, q) = Inl e"
  shows "\<exists>e. and_then (get p) f = Inl e"
  using assms(1)
proof (cases rule: strict_prefix_append_cases)
  case 1
  then show ?thesis using cut assms(2) by fastforce
next
  case (2 q)
  then show ?thesis using assms(2,3) by (simp add: roundtrip)
qed

lemma last_cut:
  assumes "strict_prefix p (put a)" and "ok a"
  shows "\<exists>e. and_then (get p) f = Inl e"
  using cut [OF assms(2,1)] by auto

end

interpretation u8c: wire_codec "\<lambda>b. [b]" read_byte "\<lambda>_. True"
  by unfold_locales (auto simp: read_byte_def strict_prefix_def prefix_Cons)

section \<open>Tags\<close>

definition language_to_u8 :: "language \<Rightarrow> u8" where
  "language_to_u8 l =
     (case l of Python \<Rightarrow> 0 | Go \<Rightarrow> 1 | Java \<Rightarrow> 2 | Rust \<Rightarrow> 3 | TypeScript \<Rightarrow> 4 | Tsx \<Rightarrow> 5
      | JavaScript \<Rightarrow> 6 | C \<Rightarrow> 7 | Cpp \<Rightarrow> 8 | ObjC \<Rightarrow> 9 | ObjCpp \<Rightarrow> 10 | Swift \<Rightarrow> 11 | Php \<Rightarrow> 12
      | Vue \<Rightarrow> 13 | Dart \<Rightarrow> 14 | CSharp \<Rightarrow> 15 | VisualBasic \<Rightarrow> 16 | Kotlin \<Rightarrow> 17 | Shell \<Rightarrow> 18
      | Ruby \<Rightarrow> 19 | Lua \<Rightarrow> 20 | Proto \<Rightarrow> 21)"

definition language_from_u8 :: "u8 \<Rightarrow> language option" where
  "language_from_u8 t =
     (if t = 0 then Some Python else if t = 1 then Some Go else if t = 2 then Some Java
      else if t = 3 then Some Rust else if t = 4 then Some TypeScript else if t = 5 then Some Tsx
      else if t = 6 then Some JavaScript else if t = 7 then Some C else if t = 8 then Some Cpp
      else if t = 9 then Some ObjC else if t = 10 then Some ObjCpp else if t = 11 then Some Swift
      else if t = 12 then Some Php else if t = 13 then Some Vue else if t = 14 then Some Dart
      else if t = 15 then Some CSharp else if t = 16 then Some VisualBasic
      else if t = 17 then Some Kotlin else if t = 18 then Some Shell else if t = 19 then Some Ruby
      else if t = 20 then Some Lua else if t = 21 then Some Proto else None)"

definition symbol_kind_to_u8 :: "symbol_kind \<Rightarrow> u8" where
  "symbol_kind_to_u8 k =
     (case k of Function \<Rightarrow> 0 | Method \<Rightarrow> 1 | Class \<Rightarrow> 2 | Interface \<Rightarrow> 3 | Struct \<Rightarrow> 4 | Enum \<Rightarrow> 5
      | Trait \<Rightarrow> 6 | TypeK \<Rightarrow> 7 | Const \<Rightarrow> 8 | Module \<Rightarrow> 9 | Field \<Rightarrow> 10 | Variable \<Rightarrow> 11)"

definition symbol_kind_from_u8 :: "u8 \<Rightarrow> symbol_kind" where
  "symbol_kind_from_u8 t =
     (if t = 0 then Function else if t = 1 then Method else if t = 2 then Class
      else if t = 3 then Interface else if t = 4 then Struct else if t = 5 then Enum
      else if t = 6 then Trait else if t = 7 then TypeK else if t = 8 then Const
      else if t = 9 then Module else if t = 10 then Field else if t = 11 then Variable
      else Function)"

definition edge_kind_to_u8 :: "edge_kind \<Rightarrow> u8" where
  "edge_kind_to_u8 k =
     (case k of Import \<Rightarrow> 0 | Call \<Rightarrow> 1 | Inherit \<Rightarrow> 2 | Namespace \<Rightarrow> 3 | Pair \<Rightarrow> 4)"

definition edge_kind_from_u8 :: "u8 \<Rightarrow> edge_kind" where
  "edge_kind_from_u8 t =
     (if t = 0 then Import else if t = 1 then Call else if t = 2 then Inherit
      else if t = 3 then Namespace else if t = 4 then Pair else Call)"

definition confidence_to_u8 :: "confidence \<Rightarrow> u8" where
  "confidence_to_u8 c = (case c of Exact \<Rightarrow> 0 | Scoped \<Rightarrow> 1 | Syntactic \<Rightarrow> 2 | Unknown \<Rightarrow> 3)"

definition confidence_from_u8 :: "u8 \<Rightarrow> confidence" where
  "confidence_from_u8 t =
     (if t = 0 then Exact else if t = 1 then Scoped else if t = 2 then Syntactic else Unknown)"

lemma tag_roundtrips [simp]:
  "language_from_u8 (language_to_u8 l) = Some l"
  "symbol_kind_from_u8 (symbol_kind_to_u8 k) = k"
  "edge_kind_from_u8 (edge_kind_to_u8 e) = e"
  "confidence_from_u8 (confidence_to_u8 c) = c"
  subgoal by (cases l) (simp_all add: language_to_u8_def language_from_u8_def)
  subgoal by (cases k) (simp_all add: symbol_kind_to_u8_def symbol_kind_from_u8_def)
  subgoal by (cases e) (simp_all add: edge_kind_to_u8_def edge_kind_from_u8_def)
  subgoal by (cases c) (simp_all add: confidence_to_u8_def confidence_from_u8_def)
  done

section \<open>Parse-cache payloads\<close>

record parsed_file =
  pa_symbols :: "code_symbol list"
  pa_imports :: "string list"
  pa_calls :: "(string \<times> u32) list"
  pa_partial :: bool
  pa_c_family_rewrite :: bool

definition cache_format_version :: u32 where "cache_format_version = 2"
definition extractor_version :: u32 where "extractor_version = 7"
definition parsed_magic :: u8 where "parsed_magic = 0xA5"
definition stamp_magic :: u8 where "stamp_magic = 0xA6"

definition put_symbol :: "code_symbol \<Rightarrow> wire" where
  "put_symbol s =
     put_str (cs_name s)
     @ [symbol_kind_to_u8 (cs_kind s) OR push_bit 7 (of_bool (cs_exported s))]
     @ put_str (cs_signature s) @ put_u32 (cs_start_line s)
     @ put_u32 (cs_end_line s - cs_start_line s)"

definition put_call :: "string \<times> u32 \<Rightarrow> wire" where
  "put_call c = put_str (fst c) @ put_u32 (snd c)"

definition encode_parsed :: "parsed_file \<Rightarrow> wire" where
  "encode_parsed p =
     [parsed_magic] @ [ucast cache_format_version]
     @ [of_bool (pa_partial p) OR push_bit 1 (of_bool (pa_c_family_rewrite p))]
     @ put_list put_symbol (pa_symbols p)
     @ put_list put_str (pa_imports p)
     @ put_list put_call (pa_calls p)"

definition read_symbol :: "code_symbol reader" where
  "read_symbol bs =
     and_then (read_string bs) (\<lambda>(name, r).
     and_then (read_byte r) (\<lambda>(tag, r).
     and_then (read_string r) (\<lambda>(signature, r).
     and_then (read_u32 r) (\<lambda>(start_line, r).
     and_then (read_u32 r) (\<lambda>(delta, r).
       Inr (\<lparr>cs_id = SymbolId 0, cs_file = FileId 0, cs_name = name,
             cs_kind = symbol_kind_from_u8 (tag AND 0x7f), cs_signature = signature,
             cs_start_line = start_line, cs_end_line = start_line + delta,
             cs_exported = (tag AND 0x80 \<noteq> 0)\<rparr>, r))))))"

definition read_call :: "(string \<times> u32) reader" where
  "read_call bs =
     and_then (read_string bs) (\<lambda>(callee, r).
     and_then (read_u32 r) (\<lambda>(line, r). Inr ((callee, line), r)))"

definition decode_parsed :: "wire \<Rightarrow> store_error + parsed_file" where
  "decode_parsed bs =
     and_then (read_byte bs) (\<lambda>(magic, r).
     if magic \<noteq> parsed_magic then Inl (Backend ''parse payload: unknown format'') else
     and_then (read_byte r) (\<lambda>(version, r).
     if version \<noteq> ucast cache_format_version then Inl (Backend ''parse payload: unknown format'') else
     and_then (read_byte r) (\<lambda>(flags, r).
     and_then (read_list read_symbol r) (\<lambda>(symbols, r).
     and_then (read_list read_string r) (\<lambda>(imports, r).
     and_then (read_list read_call r) (\<lambda>(calls, r).
     and_then (read_finish r) (\<lambda>_.
       Inr \<lparr>pa_symbols = symbols, pa_imports = imports, pa_calls = calls,
            pa_partial = (flags AND 1 \<noteq> 0), pa_c_family_rewrite = (flags AND 2 \<noteq> 0)\<rparr>)))))))"

definition ok_symbol :: "code_symbol \<Rightarrow> bool" where
  "ok_symbol s \<longleftrightarrow>
     cs_id s = SymbolId 0 \<and> cs_file s = FileId 0 \<and> ok_str (cs_name s) \<and> ok_str (cs_signature s)"

lemma kind_tag:
  "symbol_kind_from_u8 ((symbol_kind_to_u8 k OR push_bit 7 (of_bool b)) AND 0x7f) = k"
  "(symbol_kind_to_u8 k OR push_bit 7 (of_bool b)) AND 0x80 \<noteq> 0 \<longleftrightarrow> b"
  by (cases k; cases b; simp add: symbol_kind_to_u8_def symbol_kind_from_u8_def nz_0x80)+

interpretation symbol: wire_codec put_symbol read_symbol ok_symbol
proof
  show "read_symbol (put_symbol s @ rest) = Inr (s, rest)" if "ok_symbol s" for s rest
    using that
    by (simp add: read_symbol_def put_symbol_def ok_symbol_def str.roundtrip w32.roundtrip
        u8c.roundtrip [simplified] kind_tag)
  show "\<exists>e. read_symbol p = Inl e" if s: "ok_symbol s" and p: "strict_prefix p (put_symbol s)" for s p
  proof -
    have ok: "ok_str (cs_name s)" "ok_str (cs_signature s)" using s by (simp_all add: ok_symbol_def)
    show ?thesis
      by (insert p, unfold read_symbol_def put_symbol_def,
          (erule str.seq_cut u8c.seq_cut w32.seq_cut, (fact ok TrueI)[1], simp only: prod.case)+,
          erule w32.last_cut, rule TrueI)
  qed
qed (simp add: put_symbol_def str.put_nonempty)

interpretation call: wire_codec put_call read_call "\<lambda>c. ok_str (fst c)"
proof
  show "read_call (put_call c @ rest) = Inr (c, rest)" if "ok_str (fst c)" for c rest
    using that by (simp add: read_call_def put_call_def str.roundtrip w32.roundtrip)
  show "\<exists>e. read_call p = Inl e" if ok: "ok_str (fst c)" and p: "strict_prefix p (put_call c)" for c p
    by (insert p, unfold read_call_def put_call_def, erule str.seq_cut, fact ok, simp only: prod.case, erule w32.last_cut, rule TrueI)
qed (simp add: put_call_def str.put_nonempty)

interpretation symbols: wire_codec "put_list put_symbol" "read_list read_symbol"
    "\<lambda>xs. list_all ok_symbol xs \<and> length xs < 2 ^ 64"
  by (rule symbol.list_codec)

interpretation imps: wire_codec "put_list put_str" "read_list read_string"
    "\<lambda>xs. list_all ok_str xs \<and> length xs < 2 ^ 64"
  by (rule str.list_codec)

interpretation calls: wire_codec "put_list put_call" "read_list read_call"
    "\<lambda>xs. list_all (\<lambda>c. ok_str (fst c)) xs \<and> length xs < 2 ^ 64"
  by (rule call.list_codec)

text \<open>What a payload is made of: Rust strings are valid UTF-8, and no vector or string has \<open>2 ^ 64\<close>
  elements.\<close>

definition ok_parsed :: "parsed_file \<Rightarrow> bool" where
  "ok_parsed p \<longleftrightarrow>
     list_all (\<lambda>s. ok_str (cs_name s) \<and> ok_str (cs_signature s)) (pa_symbols p)
     \<and> length (pa_symbols p) < 2 ^ 64
     \<and> list_all ok_str (pa_imports p) \<and> length (pa_imports p) < 2 ^ 64
     \<and> list_all (\<lambda>c. ok_str (fst c)) (pa_calls p) \<and> length (pa_calls p) < 2 ^ 64"

text \<open>The payload carries no ids: decoding gives the placeholder ids of a fresh parse.\<close>

definition clear_ids :: "parsed_file \<Rightarrow> parsed_file" where
  "clear_ids p = p\<lparr>pa_symbols :=
     map (\<lambda>s. s\<lparr>cs_id := SymbolId 0, cs_file := FileId 0\<rparr>) (pa_symbols p)\<rparr>"

lemma parsed_eq:
  "\<lparr>pa_symbols = pa_symbols (clear_ids p), pa_imports = pa_imports (clear_ids p),
    pa_calls = pa_calls (clear_ids p), pa_partial = pa_partial p,
    pa_c_family_rewrite = pa_c_family_rewrite p\<rparr> = clear_ids p"
  by (simp add: clear_ids_def)

lemma put_symbol_clear: "put_symbol (s\<lparr>cs_id := i, cs_file := f\<rparr>) = put_symbol s"
  by (simp add: put_symbol_def)

lemma encode_clear_ids: "encode_parsed (clear_ids p) = encode_parsed p"
  by (simp add: encode_parsed_def clear_ids_def put_list_def comp_def put_symbol_clear)

lemma ok_parsed_parts:
  assumes "ok_parsed p"
  shows "list_all ok_symbol (pa_symbols (clear_ids p)) \<and> length (pa_symbols (clear_ids p)) < 2 ^ 64"
    and "list_all ok_str (pa_imports (clear_ids p)) \<and> length (pa_imports (clear_ids p)) < 2 ^ 64"
    and "list_all (\<lambda>c. ok_str (fst c)) (pa_calls (clear_ids p))
         \<and> length (pa_calls (clear_ids p)) < 2 ^ 64"
  using assms by (auto simp: ok_parsed_def clear_ids_def ok_symbol_def list_all_iff)

lemma flag_bits:
  "(of_bool a OR push_bit 1 (of_bool b) :: u8) AND 1 \<noteq> 0 \<longleftrightarrow> a"
  "(of_bool a OR push_bit 1 (of_bool b) :: u8) AND 2 \<noteq> 0 \<longleftrightarrow> b"
  by (cases a; cases b; simp)+

lemma decode_encode_rest:
  assumes "ok_parsed p"
  shows "decode_parsed (encode_parsed p @ rest) = and_then (read_finish rest) (\<lambda>_. Inr (clear_ids p))"
proof -
  note parts = ok_parsed_parts [OF assms]
  define flags :: u8 where
    "flags = of_bool (pa_partial p) OR push_bit 1 (of_bool (pa_c_family_rewrite p))"
  have flags: "flags AND 1 \<noteq> 0 \<longleftrightarrow> pa_partial p" "flags AND 2 \<noteq> 0 \<longleftrightarrow> pa_c_family_rewrite p"
    unfolding flags_def by (rule flag_bits)+
  have enc: "encode_parsed (clear_ids p) =
      [parsed_magic] @ [ucast cache_format_version] @ [flags]
      @ put_list put_symbol (pa_symbols (clear_ids p))
      @ put_list put_str (pa_imports (clear_ids p)) @ put_list put_call (pa_calls (clear_ids p))"
    by (simp only: encode_parsed_def flags_def) (simp add: clear_ids_def)
  have "decode_parsed (encode_parsed (clear_ids p) @ rest)
        = and_then (read_finish rest) (\<lambda>_. Inr (clear_ids p))"
    using symbols.roundtrip [OF parts(1)] imps.roundtrip [OF parts(2)] calls.roundtrip [OF parts(3)]
    by (simp add: decode_parsed_def enc u8c.roundtrip [simplified] flags)
       (simp add: parsed_eq)
  then show ?thesis by (simp add: encode_clear_ids)
qed

text \<open>C24: reading back a written parse-cache payload gives the parse that was written, with the
  placeholder ids, whatever its symbols, imports, calls and flags.\<close>

theorem decode_parsed_encode:
  "ok_parsed p \<Longrightarrow> decode_parsed (encode_parsed p) = Inr (clear_ids p)"
  using decode_encode_rest [of p "[]"] by (simp add: read_finish_def)

definition sample_parse :: parsed_file where
  "sample_parse =
     \<lparr>pa_symbols = [\<lparr>cs_id = SymbolId 3, cs_file = FileId 1, cs_name = ''f'', cs_kind = Method,
        cs_signature = ''fn f()'', cs_start_line = 300, cs_end_line = 299, cs_exported = True\<rparr>],
      pa_imports = [''a/b'', []], pa_calls = [(''g'', 2)], pa_partial = True,
      pa_c_family_rewrite = False\<rparr>"

lemma ok_sample_parse: "ok_parsed sample_parse"
  by (simp add: ok_parsed_def sample_parse_def ok_str_def utf8_valid_ascii is_ascii_str_def)

theorem decode_parsed_encode_witness:
  "decode_parsed (encode_parsed sample_parse) = Inr (clear_ids sample_parse)"
  by (rule decode_parsed_encode [OF ok_sample_parse])

lemma decode_parsed_cut:
  assumes "ok_parsed p" and "strict_prefix q (encode_parsed (clear_ids p))"
  shows "\<exists>e. decode_parsed q = Inl e"
proof -
  note parts = ok_parsed_parts [OF assms(1)]
  show ?thesis
    by (insert assms(2), unfold decode_parsed_def encode_parsed_def,
        (erule u8c.seq_cut symbols.seq_cut imps.seq_cut, (fact parts TrueI)[1],
           simp only: prod.case simp_thms if_False)+,
        erule calls.last_cut, fact parts)
qed

text \<open>A damaged payload is an error, never a wrong parse: every proper prefix of a written
  payload is rejected, and so is a written payload followed by any further bytes.\<close>

lemma decode_parsed_rejects_cut_and_trailing:
  assumes "ok_parsed p"
  shows "(\<forall>n < length (encode_parsed p). \<exists>e. decode_parsed (take n (encode_parsed p)) = Inl e)
    \<and> (\<forall>junk. junk \<noteq> [] \<longrightarrow>
         decode_parsed (encode_parsed p @ junk) = Inl (Backend ''parse payload: trailing bytes''))"
proof (intro conjI allI impI)
  fix junk :: wire assume "junk \<noteq> []"
  then show "decode_parsed (encode_parsed p @ junk) = Inl (Backend ''parse payload: trailing bytes'')"
    using assms by (simp add: decode_encode_rest read_finish_def)
next
  fix n assume "n < length (encode_parsed p)"
  then have "strict_prefix (take n (encode_parsed p)) (encode_parsed p)"
    by (rule strict_prefix_take)
  then show "\<exists>e. decode_parsed (take n (encode_parsed p)) = Inl e"
    using decode_parsed_cut [OF assms] by (simp add: encode_clear_ids)
qed

lemma decode_parsed_rejects_cut_and_trailing_witness:
  "\<exists>e. decode_parsed (take 5 (encode_parsed sample_parse)) = Inl e"
proof -
  have "5 < length (encode_parsed sample_parse)"
    using symbols.put_nonempty [of "pa_symbols sample_parse"]
      imps.put_nonempty [of "pa_imports sample_parse"]
      calls.put_nonempty [of "pa_calls sample_parse"]
    unfolding encode_parsed_def length_greater_0_conv [symmetric] length_append list.size by linarith
  then show ?thesis
    using decode_parsed_rejects_cut_and_trailing [OF ok_sample_parse] by blast
qed

section \<open>File stamps\<close>

record file_stamp =
  fs_mtime_ns :: "128 word"
  fs_len :: u64
  fs_key :: string
  fs_sha :: string
  fs_loc :: u32
  fs_language :: u8

definition stamp_language :: "file_stamp \<Rightarrow> language option" where
  "stamp_language st = language_from_u8 (fs_language st)"

definition encode_stamp :: "file_stamp \<Rightarrow> wire" where
  "encode_stamp st =
     [stamp_magic] @ [ucast cache_format_version]
     @ put_varint (ucast (drop_bit 64 (fs_mtime_ns st)))
     @ put_varint (ucast (fs_mtime_ns st))
     @ put_varint (fs_len st)
     @ put_str (fs_key st) @ put_str (fs_sha st)
     @ put_u32 (fs_loc st) @ [fs_language st]"

text \<open>The steps of \<open>decode_stamp\<close>; it turns every error into \<open>None\<close>.\<close>

definition read_stamp :: "wire \<Rightarrow> store_error + file_stamp" where
  "read_stamp bs =
     and_then (read_byte bs) (\<lambda>(magic, r).
     if magic \<noteq> stamp_magic then Inl (Backend ''unknown stamp'') else
     and_then (read_byte r) (\<lambda>(version, r).
     if version \<noteq> ucast cache_format_version then Inl (Backend ''unknown stamp'') else
     and_then (read_varint r) (\<lambda>(hi, r).
     and_then (read_varint r) (\<lambda>(lo, r).
     and_then (read_varint r) (\<lambda>(len, r).
     and_then (read_string r) (\<lambda>(key, r).
     and_then (read_string r) (\<lambda>(sha, r).
     and_then (read_u32 r) (\<lambda>(loc, r).
     and_then (read_byte r) (\<lambda>(lang, r).
     and_then (read_finish r) (\<lambda>_.
       Inr \<lparr>fs_mtime_ns = push_bit 64 (ucast hi) OR ucast lo, fs_len = len, fs_key = key,
            fs_sha = sha, fs_loc = loc, fs_language = lang\<rparr>))))))))))"

definition decode_stamp :: "wire \<Rightarrow> file_stamp option" where
  "decode_stamp bs = (case read_stamp bs of Inl e \<Rightarrow> None | Inr st \<Rightarrow> Some st)"

lemma halves: "push_bit 64 (ucast (ucast (drop_bit 64 m) :: u64)) OR ucast (ucast m :: u64) = m"
  for m :: "128 word"
  by (rule bit_word_eqI) (auto simp: bit_simps)

definition ok_stamp :: "file_stamp \<Rightarrow> bool" where
  "ok_stamp st \<longleftrightarrow> ok_str (fs_key st) \<and> ok_str (fs_sha st)"

lemma stamp_eq:
  "\<lparr>fs_mtime_ns = fs_mtime_ns st, fs_len = fs_len st, fs_key = fs_key st, fs_sha = fs_sha st,
    fs_loc = fs_loc st, fs_language = fs_language st\<rparr> = st"
  by simp

lemma read_stamp_encode:
  "ok_stamp st \<Longrightarrow> read_stamp (encode_stamp st @ rest) = and_then (read_finish rest) (\<lambda>_. Inr st)"
  by (simp add: read_stamp_def encode_stamp_def ok_stamp_def varint.roundtrip str.roundtrip
      w32.roundtrip u8c.roundtrip [simplified] halves stamp_eq)

lemma read_stamp_cut:
  assumes "ok_stamp st" and "strict_prefix q (encode_stamp st)"
  shows "\<exists>e. read_stamp q = Inl e"
proof -
  have ok: "ok_str (fs_key st)" "ok_str (fs_sha st)" using assms(1) by (simp_all add: ok_stamp_def)
  show ?thesis
    by (insert assms(2), unfold read_stamp_def encode_stamp_def,
        (erule u8c.seq_cut varint.seq_cut str.seq_cut w32.seq_cut, (fact ok TrueI)[1],
           simp only: prod.case simp_thms if_False)+,
        erule u8c.last_cut, rule TrueI)
qed

text \<open>A file stamp survives its encoding bit for bit (the 128-bit modification time is written
  as two halves), and a cut stamp or one followed by further bytes reads as no stamp.\<close>

lemma stamp_roundtrip:
  assumes "ok_stamp st"
  shows "decode_stamp (encode_stamp st) = Some st
    \<and> (\<forall>n < length (encode_stamp st). decode_stamp (take n (encode_stamp st)) = None)
    \<and> (\<forall>junk. junk \<noteq> [] \<longrightarrow> decode_stamp (encode_stamp st @ junk) = None)"
proof (intro conjI allI impI)
  show "decode_stamp (encode_stamp st) = Some st"
    using read_stamp_encode [OF assms, of "[]"] by (simp add: decode_stamp_def read_finish_def)
  show "decode_stamp (encode_stamp st @ junk) = None" if "junk \<noteq> []" for junk
    using that read_stamp_encode [OF assms, of junk] by (simp add: decode_stamp_def read_finish_def)
  show "decode_stamp (take n (encode_stamp st)) = None" if "n < length (encode_stamp st)" for n
    using read_stamp_cut [OF assms strict_prefix_take [OF that]] by (auto simp: decode_stamp_def)
qed

definition sample_stamp :: file_stamp where
  "sample_stamp = \<lparr>fs_mtime_ns = 2 ^ 100 + 5, fs_len = 77, fs_key = ''x7-f2:rust:ab'',
     fs_sha = ''ab'', fs_loc = 9, fs_language = 3\<rparr>"

lemma stamp_roundtrip_witness:
  "decode_stamp (encode_stamp sample_stamp) = Some sample_stamp"
  by (rule stamp_roundtrip [THEN conjunct1])
     (simp add: ok_stamp_def sample_stamp_def ok_str_def utf8_valid_ascii is_ascii_str_def)

section \<open>Keys\<close>

definition show_word :: "'a::len word \<Rightarrow> string" where
  "show_word w = show_nat (unat w)"

definition parse_cache_key_prefix :: string where
  "parse_cache_key_prefix =
     ''x'' @ show_word extractor_version @ ''-f'' @ show_word cache_format_version @ '':''"

definition parse_cache_key :: "language \<Rightarrow> string \<Rightarrow> string" where
  "parse_cache_key l sha =
     ''x'' @ show_word extractor_version @ ''-f'' @ show_word cache_format_version @ '':''
     @ lang_name l @ '':'' @ sha"

definition hex_digit :: "int \<Rightarrow> char" where
  "hex_digit d = char_of (if d < 10 then 48 + d else 87 + d)"

text \<open>\<open>{:08x}\<close>.\<close>

definition hex8 :: "u32 \<Rightarrow> string" where
  "hex8 w = map (\<lambda>s. hex_digit (uint (drop_bit s w AND 0xF))) [28, 24, 20, 16, 12, 8, 4, 0]"

definition edge_key :: "u32 \<Rightarrow> u32 \<Rightarrow> edge_kind \<Rightarrow> string" where
  "edge_key from to kind = hex8 from @ '':'' @ hex8 to @ '':'' @ show_word (edge_kind_to_u8 kind)"

lemma colon_split: "c \<notin> set a \<Longrightarrow> c \<notin> set b \<Longrightarrow> a @ c # x = b @ c # y \<longleftrightarrow> a = b \<and> x = y"
  by (induction a arbitrary: b) (case_tac b; auto)+

lemma lang_name_no_colon: "CHR '':'' \<notin> set (lang_name l)"
  by (cases l) (simp_all add: lang_name_def)

lemma lang_name_inj: "lang_name l = lang_name l' \<longleftrightarrow> l = l'"
  using from_name_of_lang_name by (metis option.inject)

text \<open>Two files share a parse-cache key only when they have the same language and the same
  content hash; every key starts with the version prefix.\<close>

lemma parse_cache_key_injective:
  "(parse_cache_key l sha = parse_cache_key l' sha' \<longleftrightarrow> l = l' \<and> sha = sha')
   \<and> starts_with (parse_cache_key l sha) parse_cache_key_prefix"
  by (simp add: parse_cache_key_def parse_cache_key_prefix_def colon_split lang_name_no_colon
      lang_name_inj starts_with_iff)

lemma hex_digit_inj:
  assumes "0 \<le> d" "d < 16" "0 \<le> e" "e < 16" and "hex_digit d = hex_digit e"
  shows "d = e"
proof -
  have "of_char (hex_digit k) = (if k < 10 then 48 + k else 87 + k)" if "0 \<le> k" "k < 16" for k
    using that by (simp add: hex_digit_def)
  with assms have "(if d < 10 then 48 + d else 87 + d) = (if e < 10 then 48 + e else 87 + e)"
    by metis
  with assms show ?thesis by (auto split: if_splits)
qed

lemma hex_digit_not_colon: "0 \<le> d \<Longrightarrow> d < 16 \<Longrightarrow> hex_digit d \<noteq> CHR '':''"
proof
  assume d: "0 \<le> d" "d < 16" and c: "hex_digit d = CHR '':''"
  have "of_char (hex_digit d) = (if d < 10 then 48 + d else 87 + d)"
    using d by (simp add: hex_digit_def)
  with c d show False by (simp split: if_splits)
qed

lemma nibble_range: "uint (drop_bit s w AND 0xF) < 16" for w :: u32
proof -
  have "drop_bit s w AND 0xF \<le> 0xF" by (rule word_and_le1)
  then show ?thesis by (simp add: word_le_def)
qed

lemma hex8_inj: "hex8 v = hex8 w \<longleftrightarrow> v = w"
proof
  assume eq: "hex8 v = hex8 w"
  have nib: "drop_bit s v AND 0xF = drop_bit s w AND 0xF"
    if "s \<in> set [28, 24, 20, 16, 12, 8, 4, 0]" for s
  proof -
    have "hex_digit (uint (drop_bit s v AND 0xF)) = hex_digit (uint (drop_bit s w AND 0xF))"
      using eq [unfolded hex8_def map_eq_conv] that by blast
    then have "uint (drop_bit s v AND 0xF) = uint (drop_bit s w AND 0xF)"
      using hex_digit_inj nibble_range by simp
    then show ?thesis by (rule unsigned_word_eqI)
  qed
  show "v = w"
  proof (rule bit_word_eqI)
    fix n assume n: "n < LENGTH(32)"
    have F: "(0xF :: u32) = mask 4" by (simp add: mask_eq_exp_minus_1)
    have "4 * (n div 4) \<in> set [28, 24, 20, 16, 12, 8, 4, 0]" using n by simp presburger
    then have "bit (drop_bit (4 * (n div 4)) v AND 0xF) (n mod 4)
             = bit (drop_bit (4 * (n div 4)) w AND 0xF) (n mod 4)" by (simp only: nib)
    moreover have "n mod 4 < 32" by (rule less_trans [OF mod_less_divisor]) simp_all
    ultimately show "bit v n = bit w n" using n by (simp add: F bit_simps)
  qed
qed simp

lemma hex8_no_colon: "CHR '':'' \<notin> set (hex8 w)"
proof
  assume "CHR '':'' \<in> set (hex8 w)"
  then obtain s where "CHR '':'' = hex_digit (uint (drop_bit s w AND 0xF))"
    unfolding hex8_def set_map by blast
  moreover have "0 \<le> uint (drop_bit s w AND 0xF)" by simp
  ultimately show False using hex_digit_not_colon nibble_range by metis
qed

lemma edge_kind_to_u8_inj: "edge_kind_to_u8 k = edge_kind_to_u8 k' \<longleftrightarrow> k = k'"
  by (metis tag_roundtrips(3))

text \<open>The edge table's key identifies the edge: two edges overwrite each other exactly when
  they join the same two nodes in the same direction with the same kind.\<close>

lemma edge_key_injective:
  "edge_key f t k = edge_key f' t' k' \<longleftrightarrow> f = f' \<and> t = t' \<and> k = k'"
proof -
  have "show_word (edge_kind_to_u8 k) = show_word (edge_kind_to_u8 k') \<longleftrightarrow> k = k'"
    unfolding show_word_def by (metis show_nat_inj unsigned_word_eqI edge_kind_to_u8_inj)
  then show ?thesis
    by (simp add: edge_key_def colon_split hex8_no_colon hex8_inj)
qed

section \<open>Rows of the file, symbol and edge tables\<close>

record file_wire =
  fw_id :: u32
  fw_path :: string
  fw_language :: "u8 option"
  fw_loc :: u32
  fw_sha :: string

record symbol_wire =
  sw_id :: u32
  sw_file :: u32
  sw_name :: string
  sw_kind :: u8
  sw_signature :: string
  sw_start_line :: u32
  sw_end_line :: u32
  sw_exported :: bool

record edge_wire =
  ew_from :: u32
  ew_to :: u32
  ew_kind :: u8
  ew_weight :: u32
  ew_confidence :: u8

definition file_to_wire :: "code_file \<Rightarrow> file_wire" where
  "file_to_wire f = \<lparr>fw_id = file_no (cf_id f), fw_path = as_str (cf_path f),
     fw_language = map_option language_to_u8 (cf_language f), fw_loc = cf_loc f, fw_sha = cf_sha f\<rparr>"

definition file_from_wire :: "file_wire \<Rightarrow> code_file" where
  "file_from_wire w = \<lparr>cf_id = FileId (fw_id w), cf_path = rel_path_new (fw_path w),
     cf_language = Option.bind (fw_language w) language_from_u8, cf_loc = fw_loc w, cf_sha = fw_sha w\<rparr>"

definition symbol_to_wire :: "code_symbol \<Rightarrow> symbol_wire" where
  "symbol_to_wire s = \<lparr>sw_id = symbol_no (cs_id s), sw_file = file_no (cs_file s),
     sw_name = cs_name s, sw_kind = symbol_kind_to_u8 (cs_kind s), sw_signature = cs_signature s,
     sw_start_line = cs_start_line s, sw_end_line = cs_end_line s, sw_exported = cs_exported s\<rparr>"

definition symbol_from_wire :: "symbol_wire \<Rightarrow> code_symbol" where
  "symbol_from_wire w = \<lparr>cs_id = SymbolId (sw_id w), cs_file = FileId (sw_file w),
     cs_name = sw_name w, cs_kind = symbol_kind_from_u8 (sw_kind w), cs_signature = sw_signature w,
     cs_start_line = sw_start_line w, cs_end_line = sw_end_line w, cs_exported = sw_exported w\<rparr>"

definition edge_to_wire :: "code_edge \<Rightarrow> edge_wire" where
  "edge_to_wire e = \<lparr>ew_from = ce_from e, ew_to = ce_to e, ew_kind = edge_kind_to_u8 (ce_kind e),
     ew_weight = ce_weight e, ew_confidence = confidence_to_u8 (ce_confidence e)\<rparr>"

definition edge_from_wire :: "edge_wire \<Rightarrow> code_edge" where
  "edge_from_wire w = \<lparr>ce_from = ew_from w, ce_to = ew_to w, ce_kind = edge_kind_from_u8 (ew_kind w),
     ce_weight = ew_weight w, ce_confidence = confidence_from_u8 (ew_confidence w)\<rparr>"

lemma symbol_wire_roundtrip [simp]: "symbol_from_wire (symbol_to_wire s) = s"
  by (simp add: symbol_from_wire_def symbol_to_wire_def)

lemma edge_wire_roundtrip [simp]: "edge_from_wire (edge_to_wire e) = e"
  by (simp add: edge_from_wire_def edge_to_wire_def)

lemma file_wire_roundtrip:
  "is_normal_rel (as_str (cf_path f)) \<Longrightarrow> file_from_wire (file_to_wire f) = f"
  by (cases "cf_language f") (simp_all add: file_from_wire_def file_to_wire_def rel_path_new_id)

end
