(* ===== verification/Store.thy ===== *)
theory Store
  imports Codec
begin

text \<open>
  The persistent store of \<open>astrolabe-core/src/store.rs\<close>: opening with schema check, healing and
  bounded retry, batched writes, reads, and pruning.  The database (redb), the file system calls
  and serde\_json are arguments of every operation, collected in the record \<open>redb\<close>: the state
  \<open>'w\<close> is the world they act on (files, locks, open handles), \<open>'t\<close> a write transaction and \<open>'r\<close>
  a read transaction.  What the lemmas rely on is the predicate \<open>redb_laws\<close>: reads see the last
  committed contents, a write transaction changes nothing before it is committed, and a commit
  installs the transaction's contents.
\<close>

section \<open>The database as an argument\<close>

datatype table = META | FILES | SYMBOLS | EDGES | PARSE_CACHE | FILE_STAMPS

datatype key = NumKey u32 | StrKey string
datatype cell = Num u32 | Bytes wire

datatype io_kind = InvalidData | UnexpectedEof | NotFound | OtherKind

text \<open>redb's errors, each with the text \<open>to_string\<close> gives for it.\<close>

datatype storage_error = Corrupted string | StorageIo io_kind string | StorageOther string
datatype txn_error = TxnStorage storage_error | TxnOther string
datatype db_error =
  DatabaseAlreadyOpen | DbStorage storage_error | UpgradeRequired u8 | DbOther string
datatype table_error = TableDoesNotExist string | TableOther string

record ('w, 't, 'r) redb =
  db_create :: "'w \<Rightarrow> (db_error + unit) \<times> 'w"
  db_open_ro :: "'w \<Rightarrow> (db_error + unit) \<times> 'w"
  db_begin_read :: "'w \<Rightarrow> txn_error + 'r"
  db_begin_write :: "'w \<Rightarrow> txn_error + 't"
  db_commit :: "'t \<Rightarrow> 'w \<Rightarrow> (string + unit) \<times> 'w"
  db_compact :: "'w \<Rightarrow> (string + bool) \<times> 'w"
  rd_open_table :: "'r \<Rightarrow> table \<Rightarrow> table_error + unit"
  rd_get :: "'r \<Rightarrow> table \<Rightarrow> key \<Rightarrow> string + cell option"
  rd_keys :: "'r \<Rightarrow> table \<Rightarrow> string + string list"
  rd_len :: "'r \<Rightarrow> table \<Rightarrow> string + u64"
  wr_open_table :: "'t \<Rightarrow> table \<Rightarrow> string + 't"
  wr_get :: "'t \<Rightarrow> table \<Rightarrow> key \<Rightarrow> string + cell option"
  wr_insert :: "'t \<Rightarrow> table \<Rightarrow> key \<Rightarrow> cell \<Rightarrow> string + 't"
  wr_remove :: "'t \<Rightarrow> table \<Rightarrow> key \<Rightarrow> string + 't"
  fs_is_file :: "'w \<Rightarrow> bool"
  fs_remove :: "'w \<Rightarrow> ((io_kind \<times> string) + unit) \<times> 'w"
  fs_rename_aside :: "string \<Rightarrow> 'w \<Rightarrow> bool \<times> 'w"
  clock_secs :: "'w \<Rightarrow> nat"
  sleep :: "'w \<Rightarrow> 'w"

definition backend :: "string + 'a \<Rightarrow> store_error + 'a" where
  "backend r = (case r of Inl e \<Rightarrow> Inl (Backend e) | Inr a \<Rightarrow> Inr a)"

definition classify_storage_error :: "storage_error \<Rightarrow> store_error" where
  "classify_storage_error e =
     (case e of Corrupted reason \<Rightarrow> Corrupt reason
      | StorageIo k s \<Rightarrow> if k = InvalidData \<or> k = UnexpectedEof then Corrupt s else Backend s
      | StorageOther s \<Rightarrow> Backend s)"

definition classify_txn_error :: "txn_error \<Rightarrow> store_error" where
  "classify_txn_error e =
     (case e of TxnStorage s \<Rightarrow> classify_storage_error s | TxnOther s \<Rightarrow> Backend s)"

definition storage_error_text :: "storage_error \<Rightarrow> string" where
  "storage_error_text e = (case e of Corrupted s \<Rightarrow> s | StorageIo k s \<Rightarrow> s | StorageOther s \<Rightarrow> s)"

definition txn_error_text :: "txn_error \<Rightarrow> string" where
  "txn_error_text e = (case e of TxnStorage s \<Rightarrow> storage_error_text s | TxnOther s \<Rightarrow> s)"

definition classify_open_error :: "db_error \<Rightarrow> store_error" where
  "classify_open_error e =
     (case e of DatabaseAlreadyOpen \<Rightarrow> Backend ''Database already open. Cannot acquire lock.''
      | DbStorage s \<Rightarrow> classify_storage_error s
      | UpgradeRequired v \<Rightarrow>
          Corrupt (''file format version '' @ show_word v @ '' needs an upgrade'')
      | DbOther s \<Rightarrow> Backend s)"

definition store_error_text :: "store_error \<Rightarrow> string" where
  "store_error_text e =
     (case e of Backend s \<Rightarrow> ''storage: '' @ s
      | Version found expected \<Rightarrow>
          ''schema version mismatch: found '' @ show_word found @ '', expected '' @ show_word expected
      | Locked s \<Rightarrow> ''database locked: '' @ s
      | Corrupt s \<Rightarrow> ''storage corrupt: '' @ s)"

definition is_locked :: "store_error \<Rightarrow> bool" where
  "is_locked e = (case e of Locked s \<Rightarrow> True | _ \<Rightarrow> False)"

definition is_lock_contention :: "unicode \<Rightarrow> store_error \<Rightarrow> bool" where
  "is_lock_contention U e \<longleftrightarrow>
     is_locked e \<or> contains_sub (to_lowercase U (store_error_text e)) ''already open''"

text \<open>A \<open>Store\<close>: whether its handle is the writable one, and its read-only flag.\<close>

record store =
  st_rw :: bool
  st_read_only :: bool

definition schema_version :: u32 where "schema_version = 1"
definition write_batch :: nat where "write_batch = 2048"
definition default_retry_attempts :: nat where "default_retry_attempts = 6"

section \<open>Opening\<close>

definition locked_error :: store_error where
  "locked_error = Locked ''Database already open. Cannot acquire lock.''"

definition open_error :: "db_error \<Rightarrow> store_error" where
  "open_error e = (if e = DatabaseAlreadyOpen then locked_error else classify_open_error e)"

definition map_err :: "('e \<Rightarrow> store_error) \<Rightarrow> 'e + 'a \<Rightarrow> store_error + 'a" where
  "map_err f r = (case r of Inl e \<Rightarrow> Inl (f e) | Inr a \<Rightarrow> Inr a)"

definition table_exists :: "('w, 't, 'r) redb \<Rightarrow> 'r \<Rightarrow> table \<Rightarrow> store_error + bool" where
  "table_exists D r t =
     (case rd_open_table D r t of Inr _ \<Rightarrow> Inr True
      | Inl (TableDoesNotExist _) \<Rightarrow> Inr False
      | Inl (TableOther s) \<Rightarrow> Inl (Backend s))"

text \<open>The chain of \<open>&&\<close> with \<open>?\<close> over the tables.\<close>

fun tables_exist :: "('w, 't, 'r) redb \<Rightarrow> 'r \<Rightarrow> table list \<Rightarrow> store_error + bool" where
  "tables_exist D r [] = Inr True"
| "tables_exist D r (t # ts) =
     and_then (table_exists D r t) (\<lambda>b. if b then tables_exist D r ts else Inr False)"

definition is_current :: "('w, 't, 'r) redb \<Rightarrow> 'w \<Rightarrow> store_error + bool" where
  "is_current D w =
     and_then (map_err classify_txn_error (db_begin_read D w)) (\<lambda>r.
     case rd_open_table D r META of
       Inl (TableDoesNotExist _) \<Rightarrow> Inr False
     | Inl (TableOther s) \<Rightarrow> Inl (Backend s)
     | Inr _ \<Rightarrow>
         and_then (backend (rd_get D r META (StrKey ''schema-version''))) (\<lambda>version.
         if version \<noteq> Some (Num schema_version) then Inr False
         else tables_exist D r [FILES, SYMBOLS, EDGES, PARSE_CACHE, FILE_STAMPS]))"

fun open_tables :: "('w, 't, 'r) redb \<Rightarrow> table list \<Rightarrow> 't \<Rightarrow> store_error + 't" where
  "open_tables D [] t = Inr t"
| "open_tables D (tb # tbs) t =
     and_then (backend (wr_open_table D t tb)) (\<lambda>t. open_tables D tbs t)"

definition check_version :: "('w, 't, 'r) redb \<Rightarrow> 't \<Rightarrow> store_error + 't" where
  "check_version D t =
     and_then (backend (wr_open_table D t META)) (\<lambda>t.
     and_then (backend (wr_get D t META (StrKey ''schema-version''))) (\<lambda>found.
     case found of
       Some (Num v) \<Rightarrow> if v \<noteq> schema_version then Inl (Version v schema_version) else Inr t
     | Some (Bytes _) \<Rightarrow> Inr t
     | None \<Rightarrow> backend (wr_insert D t META (StrKey ''schema-version'') (Num schema_version))))"

definition commit_txn :: "('w, 't, 'r) redb \<Rightarrow> 't \<Rightarrow> 'w \<Rightarrow> (store_error + unit) \<times> 'w" where
  "commit_txn D t w = (let (r, w') = db_commit D t w in (backend r, w'))"

definition open_store :: "('w, 't, 'r) redb \<Rightarrow> 'w \<Rightarrow> (store_error + store) \<times> 'w" where
  "open_store D w0 =
     (let (created, w) = db_create D w0
      in case map_err open_error created of
        Inl e \<Rightarrow> (Inl e, w)
      | Inr _ \<Rightarrow>
        (case is_current D w of
           Inl e \<Rightarrow> (Inl e, w)
         | Inr True \<Rightarrow> (Inr \<lparr>st_rw = True, st_read_only = False\<rparr>, w)
         | Inr False \<Rightarrow>
           (case and_then (map_err classify_txn_error (db_begin_write D w)) (\<lambda>t.
                  and_then (check_version D t)
                    (open_tables D [FILES, SYMBOLS, EDGES, PARSE_CACHE, FILE_STAMPS])) of
              Inl e \<Rightarrow> (Inl e, w)
            | Inr t \<Rightarrow>
              (let (r, w') = commit_txn D t w
               in (and_then r (\<lambda>_. Inr \<lparr>st_rw = True, st_read_only = False\<rparr>), w')))))"

definition open_read_only :: "('w, 't, 'r) redb \<Rightarrow> 'w \<Rightarrow> (store_error + store option) \<times> 'w" where
  "open_read_only D w0 =
     (if \<not> fs_is_file D w0 then (Inr None, w0)
      else
        (let (opened, w) = db_open_ro D w0
         in (and_then (map_err open_error opened) (\<lambda>_.
             and_then (map_err classify_txn_error (db_begin_read D w)) (\<lambda>r.
             and_then (case rd_open_table D r META of
                         Inl _ \<Rightarrow> Inr None
                       | Inr _ \<Rightarrow> backend (rd_get D r META (StrKey ''schema-version'')))
               (\<lambda>version.
                 if version \<noteq> Some (Num schema_version) then Inr None
                 else Inr (Some \<lparr>st_rw = False, st_read_only = True\<rparr>)))), w)))"

definition remove_or_absent :: "('w, 't, 'r) redb \<Rightarrow> 'w \<Rightarrow> (store_error + unit) \<times> 'w" where
  "remove_or_absent D w =
     (case fs_remove D w of
        (Inr _, w') \<Rightarrow> (Inr (), w')
      | (Inl (k, s), w') \<Rightarrow> if k = NotFound then (Inr (), w') else (Inl (Backend s), w'))"

definition open_or_heal :: "('w, 't, 'r) redb \<Rightarrow> 'w \<Rightarrow> (store_error + store) \<times> 'w" where
  "open_or_heal D w0 =
     (case open_store D w0 of
        (Inr st, w) \<Rightarrow> (Inr st, w)
      | (Inl (Version found expected), w) \<Rightarrow>
          (case remove_or_absent D w of (Inl e, w') \<Rightarrow> (Inl e, w') | (Inr _, w') \<Rightarrow> open_store D w')
      | (Inl (Corrupt reason), w) \<Rightarrow>
          (let (renamed, w1) = fs_rename_aside D (''.bad-'' @ show_nat (clock_secs D w)) w
           in if renamed then open_store D w1
              else (case remove_or_absent D w1 of
                      (Inl e, w') \<Rightarrow> (Inl e, w') | (Inr _, w') \<Rightarrow> open_store D w'))
      | (Inl e, w) \<Rightarrow> (Inl e, w))"

text \<open>The retry loop of \<open>open_or_heal_with_retry\<close> and \<open>open_read_only_with_retry\<close> from a given
  attempt on; running out of attempts without returning is the \<open>unreachable!\<close>.\<close>

function retry_from ::
  "unicode \<Rightarrow> ('w, 't, 'r) redb \<Rightarrow> ('w \<Rightarrow> (store_error + 'a) \<times> 'w) \<Rightarrow> nat \<Rightarrow> nat \<Rightarrow> 'w
   \<Rightarrow> ((store_error + 'a) \<times> 'w) run" where
  "retry_from U D opn attempts attempt w =
     (if attempts \<le> attempt then Panic
      else (case opn w of
              (Inr a, w') \<Rightarrow> Ret (Inr a, w')
            | (Inl e, w') \<Rightarrow>
                if attempt + 1 = attempts \<or> \<not> is_lock_contention U e then Ret (Inl e, w')
                else retry_from U D opn attempts (attempt + 1) (sleep D w')))"
  by pat_completeness auto
termination
  by (relation "measure (\<lambda>(U, D, opn, attempts, attempt, w). attempts - attempt)") auto

declare retry_from.simps [simp del]

definition open_or_heal_with_retry ::
  "unicode \<Rightarrow> ('w, 't, 'r) redb \<Rightarrow> nat \<Rightarrow> 'w \<Rightarrow> ((store_error + store) \<times> 'w) run" where
  "open_or_heal_with_retry U D attempts w = retry_from U D (open_or_heal D) (max attempts 1) 0 w"

definition open_read_only_with_retry ::
  "unicode \<Rightarrow> ('w, 't, 'r) redb \<Rightarrow> nat \<Rightarrow> 'w \<Rightarrow> ((store_error + store option) \<times> 'w) run" where
  "open_read_only_with_retry U D attempts w =
     retry_from U D (open_read_only D) (max attempts 1) 0 w"

section \<open>Writing\<close>

datatype op = Put key cell | Del key

definition apply_op :: "('w, 't, 'r) redb \<Rightarrow> table \<Rightarrow> op \<Rightarrow> 't \<Rightarrow> store_error + 't" where
  "apply_op D tb a t =
     backend (case a of Put k v \<Rightarrow> wr_insert D t tb k v | Del k \<Rightarrow> wr_remove D t tb k)"

text \<open>The loop over a chunk; an element whose value could not be serialised is the error.\<close>

fun apply_ops :: "('w, 't, 'r) redb \<Rightarrow> table \<Rightarrow> (store_error + op) list \<Rightarrow> 't \<Rightarrow> store_error + 't" where
  "apply_ops D tb [] t = Inr t"
| "apply_ops D tb (a # as) t =
     and_then a (\<lambda>x. and_then (apply_op D tb x t) (\<lambda>t. apply_ops D tb as t))"

definition begin_write :: "('w, 't, 'r) redb \<Rightarrow> store \<Rightarrow> 'w \<Rightarrow> store_error + 't" where
  "begin_write D st w =
     (if st_rw st then map_err classify_txn_error (db_begin_write D w)
      else Inl (Backend ''store opened read-only''))"

text \<open>One transaction; on an error before the commit it is dropped.\<close>

definition write_chunk ::
  "('w, 't, 'r) redb \<Rightarrow> store \<Rightarrow> table \<Rightarrow> (store_error + op) list \<Rightarrow> 'w
   \<Rightarrow> (store_error + unit) \<times> 'w" where
  "write_chunk D st tb as w =
     (case and_then (begin_write D st w) (\<lambda>t.
            and_then (backend (wr_open_table D t tb)) (\<lambda>t. apply_ops D tb as t)) of
        Inl e \<Rightarrow> (Inl e, w)
      | Inr t \<Rightarrow> commit_txn D t w)"

fun write_chunks ::
  "('w, 't, 'r) redb \<Rightarrow> store \<Rightarrow> table \<Rightarrow> (store_error + op) list list \<Rightarrow> 'w
   \<Rightarrow> (store_error + unit) \<times> 'w" where
  "write_chunks D st tb [] w = (Inr (), w)"
| "write_chunks D st tb (c # cs) w =
     (case write_chunk D st tb c w of
        (Inl e, w') \<Rightarrow> (Inl e, w')
      | (Inr _, w') \<Rightarrow> write_chunks D st tb cs w')"

definition put_files ::
  "('w, 't, 'r) redb \<Rightarrow> (file_wire \<Rightarrow> string + wire) \<Rightarrow> store \<Rightarrow> code_file list \<Rightarrow> 'w
   \<Rightarrow> (store_error + unit) \<times> 'w" where
  "put_files D to_json st files =
     write_chunks D st FILES (map (map (\<lambda>f.
         and_then (backend (to_json (file_to_wire f))) (\<lambda>v. Inr (Put (NumKey (file_no (cf_id f))) (Bytes v)))))
       (chunks_of write_batch files))"

definition put_symbols ::
  "('w, 't, 'r) redb \<Rightarrow> (symbol_wire \<Rightarrow> string + wire) \<Rightarrow> store \<Rightarrow> code_symbol list \<Rightarrow> 'w
   \<Rightarrow> (store_error + unit) \<times> 'w" where
  "put_symbols D to_json st symbols =
     write_chunks D st SYMBOLS (map (map (\<lambda>s.
         and_then (backend (to_json (symbol_to_wire s))) (\<lambda>v. Inr (Put (NumKey (symbol_no (cs_id s))) (Bytes v)))))
       (chunks_of write_batch symbols))"

definition put_edges ::
  "('w, 't, 'r) redb \<Rightarrow> (edge_wire \<Rightarrow> string + wire) \<Rightarrow> store \<Rightarrow> code_edge list \<Rightarrow> 'w
   \<Rightarrow> (store_error + unit) \<times> 'w" where
  "put_edges D to_json st edges =
     write_chunks D st EDGES (map (map (\<lambda>e.
         and_then (backend (to_json (edge_to_wire e)))
           (\<lambda>v. Inr (Put (StrKey (edge_key (ce_from e) (ce_to e) (ce_kind e))) (Bytes v)))))
       (chunks_of write_batch edges))"

definition ensure_writable :: "store \<Rightarrow> store_error + unit" where
  "ensure_writable st =
     (if st_read_only st then Inl (Backend ''store opened read-only'') else Inr ())"

definition if_writable :: "store \<Rightarrow> ('w \<Rightarrow> (store_error + 'a) \<times> 'w) \<Rightarrow> 'w \<Rightarrow> (store_error + 'a) \<times> 'w" where
  "if_writable st f w = (case ensure_writable st of Inl e \<Rightarrow> (Inl e, w) | Inr _ \<Rightarrow> f w)"

definition put_cached_parses ::
  "('w, 't, 'r) redb \<Rightarrow> store \<Rightarrow> (string \<times> wire) list \<Rightarrow> 'w \<Rightarrow> (store_error + unit) \<times> 'w" where
  "put_cached_parses D st entries =
     if_writable st (write_chunks D st PARSE_CACHE
       (map (map (\<lambda>(sha, parsed). Inr (Put (StrKey sha) (Bytes parsed)))) (chunks_of write_batch entries)))"

definition put_cached_parse ::
  "('w, 't, 'r) redb \<Rightarrow> store \<Rightarrow> string \<Rightarrow> wire \<Rightarrow> 'w \<Rightarrow> (store_error + unit) \<times> 'w" where
  "put_cached_parse D st sha parsed = put_cached_parses D st [(sha, parsed)]"

definition put_file_stamps ::
  "('w, 't, 'r) redb \<Rightarrow> store \<Rightarrow> (string \<times> file_stamp) list \<Rightarrow> 'w \<Rightarrow> (store_error + unit) \<times> 'w" where
  "put_file_stamps D st stamps =
     if_writable st (write_chunks D st FILE_STAMPS
       (map (map (\<lambda>(path, stamp). Inr (Put (StrKey path) (Bytes (encode_stamp stamp)))))
          (chunks_of write_batch stamps)))"

definition compact_store :: "('w, 't, 'r) redb \<Rightarrow> store \<Rightarrow> 'w \<Rightarrow> (store_error + bool) \<times> 'w" where
  "compact_store D st w =
     (if st_rw st then (let (r, w') = db_compact D w in (backend r, w'))
      else (Inl (Backend ''store opened read-only''), w))"

section \<open>Reading\<close>

definition begin_read :: "('w, 't, 'r) redb \<Rightarrow> 'w \<Rightarrow> store_error + 'r" where
  "begin_read D w = map_err (\<lambda>e. Backend (txn_error_text e)) (db_begin_read D w)"

definition table_error_text :: "table_error \<Rightarrow> string" where
  "table_error_text e = (case e of TableDoesNotExist s \<Rightarrow> s | TableOther s \<Rightarrow> s)"

definition read_table :: "('w, 't, 'r) redb \<Rightarrow> table \<Rightarrow> 'w \<Rightarrow> store_error + 'r" where
  "read_table D tb w =
     and_then (begin_read D w) (\<lambda>r.
     and_then (map_err (\<lambda>e. Backend (table_error_text e)) (rd_open_table D r tb)) (\<lambda>_. Inr r))"

definition cell_bytes :: "cell \<Rightarrow> wire" where
  "cell_bytes c = (case c of Bytes b \<Rightarrow> b | Num n \<Rightarrow> [])"

definition read_cell :: "('w, 't, 'r) redb \<Rightarrow> table \<Rightarrow> key \<Rightarrow> 'w \<Rightarrow> store_error + wire option" where
  "read_cell D tb k w =
     and_then (read_table D tb w) (\<lambda>r.
     and_then (backend (rd_get D r tb k)) (\<lambda>c. Inr (map_option cell_bytes c)))"

definition decode_row :: "(wire \<Rightarrow> string + 'x) \<Rightarrow> ('x \<Rightarrow> 'a) \<Rightarrow> wire option \<Rightarrow> store_error + 'a option" where
  "decode_row of_json conv bytes =
     (case bytes of None \<Rightarrow> Inr None
      | Some b \<Rightarrow> and_then (backend (of_json b)) (\<lambda>x. Inr (Some (conv x))))"

definition get_file ::
  "('w, 't, 'r) redb \<Rightarrow> (wire \<Rightarrow> string + file_wire) \<Rightarrow> file_id \<Rightarrow> 'w \<Rightarrow> store_error + code_file option" where
  "get_file D of_json fid w =
     and_then (read_cell D FILES (NumKey (file_no fid)) w) (decode_row of_json file_from_wire)"

definition get_symbol ::
  "('w, 't, 'r) redb \<Rightarrow> (wire \<Rightarrow> string + symbol_wire) \<Rightarrow> symbol_id \<Rightarrow> 'w
   \<Rightarrow> store_error + code_symbol option" where
  "get_symbol D of_json sid w =
     and_then (read_cell D SYMBOLS (NumKey (symbol_no sid)) w) (decode_row of_json symbol_from_wire)"

definition get_edge ::
  "('w, 't, 'r) redb \<Rightarrow> (wire \<Rightarrow> string + edge_wire) \<Rightarrow> u32 \<Rightarrow> u32 \<Rightarrow> edge_kind \<Rightarrow> 'w
   \<Rightarrow> store_error + code_edge option" where
  "get_edge D of_json from to kind w =
     and_then (read_cell D EDGES (StrKey (edge_key from to kind)) w) (decode_row of_json edge_from_wire)"

definition cached_parse :: "('w, 't, 'r) redb \<Rightarrow> string \<Rightarrow> 'w \<Rightarrow> store_error + wire option" where
  "cached_parse D sha w = read_cell D PARSE_CACHE (StrKey sha) w"

definition lookup_stamp :: "('w, 't, 'r) redb \<Rightarrow> string \<Rightarrow> 'w \<Rightarrow> store_error + file_stamp option" where
  "lookup_stamp D path w =
     and_then (begin_read D w) (\<lambda>r.
     case rd_open_table D r FILE_STAMPS of
       Inl (TableDoesNotExist _) \<Rightarrow> Inr None
     | Inl (TableOther s) \<Rightarrow> Inl (Backend s)
     | Inr _ \<Rightarrow>
         and_then (backend (rd_get D r FILE_STAMPS (StrKey path))) (\<lambda>c.
           Inr (Option.bind c (\<lambda>b. decode_stamp (cell_bytes b)))))"

definition parse_cache_len :: "('w, 't, 'r) redb \<Rightarrow> 'w \<Rightarrow> store_error + u64" where
  "parse_cache_len D w =
     and_then (read_table D PARSE_CACHE w) (\<lambda>r. backend (rd_len D r PARSE_CACHE))"

section \<open>Pruning\<close>

definition stale_keys ::
  "('w, 't, 'r) redb \<Rightarrow> table \<Rightarrow> (string \<Rightarrow> bool) \<Rightarrow> 'w \<Rightarrow> store_error + string list" where
  "stale_keys D tb live w =
     and_then (read_table D tb w) (\<lambda>r.
     and_then (backend (rd_keys D r tb)) (\<lambda>ks. Inr (filter (\<lambda>k. \<not> live k) ks)))"

definition del_chunks :: "string list \<Rightarrow> (store_error + op) list list" where
  "del_chunks ks = map (map (\<lambda>k. Inr (Del (StrKey k)))) (chunks_of write_batch ks)"

definition prune_parse_cache ::
  "('w, 't, 'r) redb \<Rightarrow> store \<Rightarrow> (string \<Rightarrow> bool) \<Rightarrow> (string \<Rightarrow> bool) \<Rightarrow> 'w
   \<Rightarrow> (store_error + nat) \<times> 'w" where
  "prune_parse_cache D st live_keys live_paths =
     if_writable st (\<lambda>w.
       case and_then (stale_keys D PARSE_CACHE live_keys w) (\<lambda>ks.
              and_then (stale_keys D FILE_STAMPS live_paths w) (\<lambda>ps. Inr (ks, ps))) of
         Inl e \<Rightarrow> (Inl e, w)
       | Inr (ks, ps) \<Rightarrow>
         (case write_chunks D st PARSE_CACHE (del_chunks ks) w of
            (Inl e, w1) \<Rightarrow> (Inl e, w1)
          | (Inr _, w1) \<Rightarrow>
            (case write_chunks D st FILE_STAMPS (del_chunks ps) w1 of
               (Inl e, w2) \<Rightarrow> (Inl e, w2)
             | (Inr _, w2) \<Rightarrow> (Inr (length ks), w2))))"

section \<open>What the store relies on, and what it guarantees\<close>

type_synonym contents = "table \<Rightarrow> key \<Rightarrow> cell option"

text \<open>The documented behaviour of the database: reads see the committed contents, a transaction
  starts from them and accumulates its own changes, a successful commit installs them, and a
  failed commit installs all of them or none.\<close>

definition redb_laws ::
  "('w, 't, 'r) redb \<Rightarrow> ('w \<Rightarrow> contents) \<Rightarrow> ('t \<Rightarrow> contents) \<Rightarrow> ('r \<Rightarrow> contents) \<Rightarrow> bool" where
  "redb_laws D view tview rview \<longleftrightarrow>
     (\<forall>w r. db_begin_read D w = Inr r \<longrightarrow> rview r = view w)
     \<and> (\<forall>w t. db_begin_write D w = Inr t \<longrightarrow> tview t = view w)
     \<and> (\<forall>t tb t'. wr_open_table D t tb = Inr t' \<longrightarrow> tview t' = tview t)
     \<and> (\<forall>t tb k v t'. wr_insert D t tb k v = Inr t' \<longrightarrow>
          tview t' = (tview t)(tb := (tview t tb)(k := Some v)))
     \<and> (\<forall>t tb k t'. wr_remove D t tb k = Inr t' \<longrightarrow>
          tview t' = (tview t)(tb := (tview t tb)(k := None)))
     \<and> (\<forall>t w w'. db_commit D t w = (Inr (), w') \<longrightarrow> view w' = tview t)
     \<and> (\<forall>t w e w'. db_commit D t w = (Inl e, w') \<longrightarrow> view w' = view w \<or> view w' = tview t)
     \<and> (\<forall>r tb k c. rd_get D r tb k = Inr c \<longrightarrow> c = rview r tb k)
     \<and> (\<forall>r tb ks. rd_keys D r tb = Inr ks \<longrightarrow>
          distinct ks \<and> set ks = {k. rview r tb (StrKey k) \<noteq> None})"

lemma redb_lawsD:
  assumes "redb_laws D view tview rview"
  shows "db_begin_read D w = Inr r \<Longrightarrow> rview r = view w"
    and "db_begin_write D w = Inr t \<Longrightarrow> tview t = view w"
    and "wr_open_table D t tb = Inr t' \<Longrightarrow> tview t' = tview t"
    and "wr_insert D t tb k v = Inr t' \<Longrightarrow> tview t' = (tview t)(tb := (tview t tb)(k := Some v))"
    and "wr_remove D t tb k = Inr t' \<Longrightarrow> tview t' = (tview t)(tb := (tview t tb)(k := None))"
    and "db_commit D t w = (Inr (), w') \<Longrightarrow> view w' = tview t"
    and "db_commit D t w = (Inl e, w') \<Longrightarrow> view w' = view w \<or> view w' = tview t"
    and "rd_get D r tb k = Inr c \<Longrightarrow> c = rview r tb k"
    and "rd_keys D r tb = Inr ks \<Longrightarrow> distinct ks \<and> set ks = {k. rview r tb (StrKey k) \<noteq> None}"
  using assms unfolding redb_laws_def by metis+

text \<open>The effect of one element of a chunk on its table.\<close>

definition op_map :: "store_error + op \<Rightarrow> (key \<Rightarrow> cell option) \<Rightarrow> key \<Rightarrow> cell option" where
  "op_map a m =
     (case a of Inl e \<Rightarrow> m | Inr (Put k v) \<Rightarrow> m(k := Some v) | Inr (Del k) \<Rightarrow> m(k := None))"

definition apply_table :: "table \<Rightarrow> (store_error + op) list \<Rightarrow> contents \<Rightarrow> contents" where
  "apply_table tb as c = c(tb := fold op_map as (c tb))"

lemma apply_table_simps [simp]:
  "apply_table tb [] c = c"
  "apply_table tb bs (apply_table tb as c) = apply_table tb (as @ bs) c"
  by (simp_all add: apply_table_def)

lemma backend_Inr [simp]: "backend r = Inr a \<longleftrightarrow> r = Inr a"
  by (cases r) (simp_all add: backend_def)

lemma map_err_Inr [simp]: "map_err f r = Inr a \<longleftrightarrow> r = Inr a"
  by (cases r) (simp_all add: map_err_def)

lemma apply_ops_view:
  assumes laws: "redb_laws D view tview rview"
  shows "apply_ops D tb as t = Inr t' \<Longrightarrow> tview t' = apply_table tb as (tview t)"
proof (induction as arbitrary: t)
  case (Cons a as)
  then obtain x t1 where x: "a = Inr x" "apply_op D tb x t = Inr t1" "apply_ops D tb as t1 = Inr t'"
    by auto
  have "tview t1 = apply_table tb [a] (tview t)"
    using x redb_lawsD(4,5) [OF laws]
    by (cases x) (fastforce simp: apply_op_def apply_table_def op_map_def)+
  with x Cons.IH [of t1] show ?case by simp
qed simp

lemma write_chunk_view:
  assumes laws: "redb_laws D view tview rview" and "write_chunk D st tb as w = (res, w')"
  shows "view w' = view w \<or> view w' = apply_table tb as (view w)"
    and "res = Inr u \<Longrightarrow> view w' = apply_table tb as (view w)"
proof -
  let ?p = "and_then (begin_write D st w) (\<lambda>t.
      and_then (backend (wr_open_table D t tb)) (\<lambda>t. apply_ops D tb as t))"
  have "(view w' = view w \<or> view w' = apply_table tb as (view w))
      \<and> (res = Inr u \<longrightarrow> view w' = apply_table tb as (view w))"
  proof (cases ?p)
    case (Inl e)
    with assms(2) show ?thesis by (auto simp: write_chunk_def)
  next
    case (Inr t)
    then obtain t0 t1 where "begin_write D st w = Inr t0" "wr_open_table D t0 tb = Inr t1"
      "apply_ops D tb as t1 = Inr t" by auto
    then have t: "tview t = apply_table tb as (view w)"
      using redb_lawsD(2,3) [OF laws] apply_ops_view [OF laws]
      by (auto simp: begin_write_def split: if_splits)
    obtain r where c: "db_commit D t w = (r, w')" "res = backend r"
      using assms(2) Inr by (auto simp: write_chunk_def commit_txn_def split: prod.splits)
    with t redb_lawsD(6,7) [OF laws, of t w] show ?thesis
      by (cases r) (auto simp: backend_def)
  qed
  then show "view w' = view w \<or> view w' = apply_table tb as (view w)"
    and "res = Inr u \<Longrightarrow> view w' = apply_table tb as (view w)" by blast+
qed

text \<open>Batches are all or nothing and in order: after any outcome the table holds the effect of a
  prefix of the batches, and of all of them after success.\<close>

lemma write_chunks_view:
  assumes laws: "redb_laws D view tview rview"
  shows "write_chunks D st tb cs w = (res, w') \<Longrightarrow>
    \<exists>n \<le> length cs. view w' = apply_table tb (concat (take n cs)) (view w)
      \<and> (res = Inr () \<longrightarrow> n = length cs)"
proof (induction cs arbitrary: w)
  case (Cons c cs)
  obtain r w1 where c: "write_chunk D st tb c w = (r, w1)" by fastforce
  show ?case
  proof (cases r)
    case (Inl e)
    with c Cons.prems have "w' = w1" "res = Inl e" by simp_all
    with write_chunk_view(1) [OF laws c] show ?thesis
      by (auto intro: exI [of _ 0] exI [of _ 1])
  next
    case (Inr u)
    with c have w1: "view w1 = apply_table tb c (view w)" by (rule write_chunk_view(2) [OF laws])
    from c Inr Cons.prems have "write_chunks D st tb cs w1 = (res, w')" by simp
    from Cons.IH [OF this] obtain n where "n \<le> length cs"
      "view w' = apply_table tb (concat (take n cs)) (view w1)" "res = Inr () \<longrightarrow> n = length cs"
      by blast
    with w1 show ?thesis by (intro exI [of _ "Suc n"]) simp
  qed
qed simp

lemma read_cell_view:
  assumes laws: "redb_laws D view tview rview" and "read_cell D tb k w = Inr r"
  shows "r = map_option cell_bytes (view w tb k)"
proof -
  from assms(2) obtain t c where "db_begin_read D w = Inr t" "rd_get D t tb k = Inr c"
    "r = map_option cell_bytes c"
    by (auto simp: read_cell_def read_table_def begin_read_def)
  with redb_lawsD(1,8) [OF laws] show ?thesis by metis
qed

lemma fold_put_parses:
  "fold op_map (map (\<lambda>(k, v). Inr (Put (StrKey k) (Bytes v))) es) m (StrKey s)
   = (case map_of (rev es) s of Some b \<Rightarrow> Some (Bytes b) | None \<Rightarrow> m (StrKey s))"
  by (induction es arbitrary: m)
     (auto simp: op_map_def map_add_def map_of_append split: option.splits)

lemma fold_del:
  "fold op_map (map (\<lambda>k. Inr (Del (StrKey k))) ks) m
   = (\<lambda>k. if k \<in> StrKey ` set ks then None else m k)"
  by (induction ks arbitrary: m) (auto simp: op_map_def fun_eq_iff)

lemma concat_take_map: "concat (take n (map (map f) cs)) = map f (concat (take n cs))"
  by (simp add: take_map map_concat)

text \<open>Writing parse-cache entries is durable and ordered: whatever happens, the cache holds the
  effect of a prefix of the batches (of at most 2048 entries), no other table changes, and after
  success a read of any hash gives the last payload written for it, or what was there before.\<close>

lemma put_cached_parses_batches:
  assumes laws: "redb_laws D view tview rview"
    and run: "put_cached_parses D st entries w = (res, w')"
  shows "(\<exists>n. view w' = (view w)(PARSE_CACHE := \<lambda>k.
            case k of NumKey i \<Rightarrow> view w PARSE_CACHE k
            | StrKey s \<Rightarrow>
                (case map_of (rev (concat (take n (chunks_of write_batch entries)))) s of
                   Some b \<Rightarrow> Some (Bytes b) | None \<Rightarrow> view w PARSE_CACHE k)))
    \<and> (res = Inr () \<longrightarrow>
         (\<forall>sha r. cached_parse D sha w' = Inr r \<longrightarrow>
            r = (case map_of (rev entries) sha of Some b \<Rightarrow> Some b
                 | None \<Rightarrow> map_option cell_bytes (view w PARSE_CACHE (StrKey sha)))))"
proof -
  let ?f = "\<lambda>(sha, parsed). Inr (Put (StrKey sha) (Bytes parsed)) :: store_error + op"
  let ?cs = "map (map ?f) (chunks_of write_batch entries)"
  have num: "fold op_map (map ?f es) m (NumKey i) = m (NumKey i)" for es m i
    by (induction es arbitrary: m) (auto simp: op_map_def)
  have eff: "fold op_map (map ?f es) m = (\<lambda>k. case k of NumKey i \<Rightarrow> m k
      | StrKey s \<Rightarrow> (case map_of (rev es) s of Some b \<Rightarrow> Some (Bytes b) | None \<Rightarrow> m k))" for es m
    using num [of es m] fold_put_parses [of es m] by (auto simp: fun_eq_iff split: key.splits)
  have "\<exists>n. view w' = apply_table PARSE_CACHE (concat (take n ?cs)) (view w)
      \<and> (res = Inr () \<longrightarrow> n = length ?cs)"
  proof (cases "st_read_only st")
    case True
    with run show ?thesis
      by (intro exI [of _ 0]) (auto simp: put_cached_parses_def if_writable_def ensure_writable_def)
  next
    case False
    with run have "write_chunks D st PARSE_CACHE ?cs w = (res, w')"
      by (simp add: put_cached_parses_def if_writable_def ensure_writable_def)
    from write_chunks_view [OF laws this] show ?thesis by blast
  qed
  then obtain n where n: "view w' = apply_table PARSE_CACHE (concat (take n ?cs)) (view w)"
    and all: "res = Inr () \<longrightarrow> n = length ?cs" by blast
  have "cached_parse D sha w' = Inr r \<Longrightarrow> r = map_option cell_bytes (view w' PARSE_CACHE (StrKey sha))"
    for sha r
    using read_cell_view [OF laws] by (simp add: cached_parse_def)
  moreover have "res = Inr () \<Longrightarrow> view w' PARSE_CACHE (StrKey sha) =
      (case map_of (rev entries) sha of Some b \<Rightarrow> Some (Bytes b)
       | None \<Rightarrow> view w PARSE_CACHE (StrKey sha))" for sha
    using n all by (simp add: concat_take_map apply_table_def fold_put_parses write_batch_def
        take_map map_concat [symmetric])
  ultimately have "r = map_option cell_bytes (case map_of (rev entries) sha of
      Some b \<Rightarrow> Some (Bytes b) | None \<Rightarrow> view w PARSE_CACHE (StrKey sha))"
    if "res = Inr ()" "cached_parse D sha w' = Inr r" for sha r
    using that by simp
  then have "res = Inr () \<Longrightarrow> cached_parse D sha w' = Inr r \<Longrightarrow>
      r = (case map_of (rev entries) sha of Some b \<Rightarrow> Some b
           | None \<Rightarrow> map_option cell_bytes (view w PARSE_CACHE (StrKey sha)))" for sha r
    by (fastforce simp: cell_bytes_def split: option.splits)
  then show ?thesis
    using n by (intro conjI exI [of _ n]) (auto simp: concat_take_map apply_table_def eff)
qed

text \<open>A store over an association list, on which nothing fails.\<close>

type_synonym mem = "((table \<times> key) \<times> cell) list"

definition mem_view :: "mem \<Rightarrow> contents" where
  "mem_view m tb k = map_of m (tb, k)"

fun mem_keys :: "mem \<Rightarrow> table \<Rightarrow> string list" where
  "mem_keys [] tb = []"
| "mem_keys (((t, StrKey s), v) # r) tb = (if t = tb then s # mem_keys r tb else mem_keys r tb)"
| "mem_keys (((t, NumKey i), v) # r) tb = mem_keys r tb"

definition mem_redb :: "(mem, mem, mem) redb" where
  "mem_redb =
     \<lparr>db_create = (\<lambda>w. (Inr (), w)), db_open_ro = (\<lambda>w. (Inr (), w)),
      db_begin_read = Inr, db_begin_write = Inr, db_commit = (\<lambda>t w. (Inr (), t)),
      db_compact = (\<lambda>w. (Inr False, w)), rd_open_table = (\<lambda>r tb. Inr ()),
      rd_get = (\<lambda>r tb k. Inr (mem_view r tb k)),
      rd_keys = (\<lambda>r tb. Inr (remdups (mem_keys r tb))),
      rd_len = (\<lambda>r tb. Inr 0), wr_open_table = (\<lambda>t tb. Inr t),
      wr_get = (\<lambda>t tb k. Inr (mem_view t tb k)),
      wr_insert = (\<lambda>t tb k v. Inr (((tb, k), v) # t)),
      wr_remove = (\<lambda>t tb k. Inr (filter (\<lambda>e. fst e \<noteq> (tb, k)) t)),
      fs_is_file = (\<lambda>w. True), fs_remove = (\<lambda>w. (Inr (), [])),
      fs_rename_aside = (\<lambda>s w. (True, [])), clock_secs = (\<lambda>w. 0), sleep = (\<lambda>w. w)\<rparr>"

lemma set_mem_keys: "set (mem_keys r tb) = {s. map_of r (tb, StrKey s) \<noteq> None}"
  by (induction r tb rule: mem_keys.induct) auto

lemma map_of_filter_key: "map_of (filter (\<lambda>e. fst e \<noteq> x) t) y = (if y = x then None else map_of t y)"
  by (induction t) auto

lemma mem_redb_laws: "redb_laws mem_redb mem_view mem_view mem_view"
  unfolding redb_laws_def mem_redb_def
  by (auto simp: mem_view_def fun_eq_iff map_of_filter_key set_mem_keys)

definition sample_store :: store where
  "sample_store = \<lparr>st_rw = True, st_read_only = False\<rparr>"

lemma stale_keys_view:
  assumes laws: "redb_laws D view tview rview" and "stale_keys D tb live w = Inr ks"
  shows "distinct ks" and "set ks = {s. \<not> live s \<and> view w tb (StrKey s) \<noteq> None}"
proof -
  from assms(2) obtain r all where r: "db_begin_read D w = Inr r" "rd_keys D r tb = Inr all"
    "ks = filter (\<lambda>k. \<not> live k) all"
    by (auto simp: stale_keys_def read_table_def begin_read_def)
  with redb_lawsD(1) [OF laws r(1)] redb_lawsD(9) [OF laws r(2)]
  show "distinct ks" and "set ks = {s. \<not> live s \<and> view w tb (StrKey s) \<noteq> None}" by auto
qed

lemma del_chunks_view:
  assumes laws: "redb_laws D view tview rview"
    and run: "write_chunks D st tb (del_chunks ks) w = (res, w')"
  obtains dead where "dead \<subseteq> set ks" "res = Inr () \<longrightarrow> dead = set ks"
    "view w' = (view w)(tb := \<lambda>k. if k \<in> StrKey ` dead then None else view w tb k)"
proof -
  let ?cs = "chunks_of write_batch ks"
  obtain n where n: "view w' = apply_table tb (concat (take n (del_chunks ks))) (view w)"
    "res = Inr () \<longrightarrow> n = length (del_chunks ks)"
    using write_chunks_view [OF laws run] by blast
  have all: "concat ?cs = ks" by (simp add: write_batch_def)
  have "set (concat (take n ?cs)) \<subseteq> set (concat ?cs)"
    using set_take_subset [of n ?cs] by auto
  then have "set (concat (take n ?cs)) \<subseteq> set ks" by (simp only: all)
  moreover have "res = Inr () \<longrightarrow> set (concat (take n ?cs)) = set ks"
  proof
    assume "res = Inr ()"
    then have "take n ?cs = ?cs" using n(2) by (simp add: del_chunks_def)
    then show "set (concat (take n ?cs)) = set ks" by (simp only: all)
  qed
  moreover have "view w' = (view w)(tb := \<lambda>k. if k \<in> StrKey ` set (concat (take n ?cs)) then None
      else view w tb k)"
    using n(1) unfolding del_chunks_def concat_take_map apply_table_def fold_del .
  ultimately show thesis by (rule that)
qed

text \<open>C23: pruning never loses a live entry and touches nothing but the two cache tables: whatever
  fails on the way, every cached parse with a live key and every stamp with a live path reads as
  before and no entry appears; when pruning succeeds exactly the live ones are left.\<close>

theorem prune_keeps_live:
  assumes laws: "redb_laws D view tview rview"
    and run: "prune_parse_cache D st live_keys live_paths w = (res, w')"
  shows "(\<forall>tb. tb \<noteq> PARSE_CACHE \<longrightarrow> tb \<noteq> FILE_STAMPS \<longrightarrow> view w' tb = view w tb)
    \<and> (\<forall>s. live_keys s \<longrightarrow> view w' PARSE_CACHE (StrKey s) = view w PARSE_CACHE (StrKey s))
    \<and> (\<forall>s. live_paths s \<longrightarrow> view w' FILE_STAMPS (StrKey s) = view w FILE_STAMPS (StrKey s))
    \<and> (\<forall>tb k. view w' tb k = view w tb k \<or> view w' tb k = None)
    \<and> (\<forall>n. res = Inr n \<longrightarrow>
         (\<forall>s. \<not> live_keys s \<longrightarrow> view w' PARSE_CACHE (StrKey s) = None)
         \<and> (\<forall>s. \<not> live_paths s \<longrightarrow> view w' FILE_STAMPS (StrKey s) = None)
         \<and> n = card {s. \<not> live_keys s \<and> view w PARSE_CACHE (StrKey s) \<noteq> None})"
proof (cases "w' = w \<and> (\<forall>n. res \<noteq> Inr n)")
  case True
  then show ?thesis by auto
next
  case False
  have "\<not> st_read_only st"
    using run False by (auto simp: prune_parse_cache_def if_writable_def ensure_writable_def)
  then obtain ks ps where
    ks: "stale_keys D PARSE_CACHE live_keys w = Inr ks" and
    ps: "stale_keys D FILE_STAMPS live_paths w = Inr ps"
    using run False
    by (cases "stale_keys D PARSE_CACHE live_keys w"; cases "stale_keys D FILE_STAMPS live_paths w")
       (auto simp: prune_parse_cache_def if_writable_def ensure_writable_def)
  note ks' = stale_keys_view [OF laws ks] and ps' = stale_keys_view [OF laws ps]
  obtain r1 w1 where w1: "write_chunks D st PARSE_CACHE (del_chunks ks) w = (r1, w1)" by fastforce
  obtain r2 w2 where w2: "write_chunks D st FILE_STAMPS (del_chunks ps) w1 = (r2, w2)" by fastforce
  have out: "if r1 = Inr () then w' = w2 \<and> (r2 = Inr () \<longrightarrow> res = Inr (length ks))
        \<and> (r2 \<noteq> Inr () \<longrightarrow> (\<forall>n. res \<noteq> Inr n)) else w' = w1 \<and> (\<forall>n. res \<noteq> Inr n)"
    using run ks ps w1 w2 \<open>\<not> st_read_only st\<close>
    by (cases r1; cases r2) (auto simp: prune_parse_cache_def if_writable_def ensure_writable_def)
  obtain dead where d: "dead \<subseteq> set ks" "r1 = Inr () \<longrightarrow> dead = set ks"
    "view w1 = (view w)(PARSE_CACHE := \<lambda>k. if k \<in> StrKey ` dead then None else view w PARSE_CACHE k)"
    using del_chunks_view [OF laws w1] by blast
  obtain gone where g: "gone \<subseteq> set ps" "r2 = Inr () \<longrightarrow> gone = set ps"
    "view w2 = (view w1)(FILE_STAMPS := \<lambda>k. if k \<in> StrKey ` gone then None else view w1 FILE_STAMPS k)"
    using del_chunks_view [OF laws w2] by blast
  have "card (set ks) = length ks" by (rule distinct_card [OF ks'(1)])
  then show ?thesis
    using out d g ks'(2) ps'(2) by (cases "r1 = Inr ()"; cases "r2 = Inr ()") auto
qed

theorem prune_keeps_live_witness:
  "\<exists>res w'. prune_parse_cache mem_redb sample_store (\<lambda>k. k = ''a'') (\<lambda>p. True)
       [((PARSE_CACHE, StrKey ''a''), Bytes [1]), ((PARSE_CACHE, StrKey ''b''), Bytes [2])] = (res, w')
     \<and> mem_view w' PARSE_CACHE (StrKey ''a'') = Some (Bytes [1])"
proof -
  let ?w = "[((PARSE_CACHE, StrKey ''a''), Bytes [1]), ((PARSE_CACHE, StrKey ''b''), Bytes [2])]"
  obtain res w' where run: "prune_parse_cache mem_redb sample_store (\<lambda>k. k = ''a'') (\<lambda>p. True) ?w = (res, w')"
    by fastforce
  have "mem_view ?w PARSE_CACHE (StrKey ''a'') = Some (Bytes [1])" by (simp add: mem_view_def)
  with run show ?thesis
    using prune_keeps_live [OF mem_redb_laws run] by simp
qed

lemma put_cached_parses_batches_witness:
  "cached_parse mem_redb ''a''
     (snd (put_cached_parses mem_redb sample_store [(''a'', [1]), (''a'', [2])] [])) = Inr (Some [2])"
proof -
  let ?es = "[(''a'', [1]), (''a'', [2])] :: (string \<times> wire) list"
  have cs: "chunks_of write_batch ?es = [?es]" by (simp add: write_batch_def chunks_of.simps)
  obtain w' where run: "put_cached_parses mem_redb sample_store ?es [] = (Inr (), w')"
    unfolding put_cached_parses_def cs
    by (simp add: if_writable_def ensure_writable_def sample_store_def write_chunk_def
        begin_write_def map_err_def mem_redb_def backend_def apply_op_def commit_txn_def)
  obtain r where r: "cached_parse mem_redb ''a'' w' = Inr r"
    by (simp add: cached_parse_def read_cell_def read_table_def begin_read_def mem_redb_def
        map_err_def backend_def)
  with put_cached_parses_batches [OF mem_redb_laws run]
  have "r = (case map_of (rev ?es) ''a'' of Some b \<Rightarrow> Some b
      | None \<Rightarrow> map_option cell_bytes (mem_view [] PARSE_CACHE (StrKey ''a'')))" by blast
  with r run show ?thesis by simp
qed

section \<open>Retrying\<close>

text \<open>The worlds the successive attempts start from.\<close>

fun attempt_world ::
  "('w, 't, 'r) redb \<Rightarrow> ('w \<Rightarrow> (store_error + 'a) \<times> 'w) \<Rightarrow> nat \<Rightarrow> 'w \<Rightarrow> 'w" where
  "attempt_world D opn 0 w = w"
| "attempt_world D opn (Suc n) w = attempt_world D opn n (sleep D (snd (opn w)))"

definition contended :: "unicode \<Rightarrow> store_error + 'a \<Rightarrow> bool" where
  "contended U r = (case r of Inl e \<Rightarrow> is_lock_contention U e | Inr _ \<Rightarrow> False)"

lemma retry_from_spec:
  "attempt < attempts \<Longrightarrow>
   \<exists>n. attempt + n < attempts \<and> retry_from U D opn attempts attempt w = Ret (opn (attempt_world D opn n w))
     \<and> (\<forall>i < n. contended U (fst (opn (attempt_world D opn i w))))
     \<and> (attempt + n + 1 = attempts \<or> \<not> contended U (fst (opn (attempt_world D opn n w))))"
proof (induction U D opn attempts attempt w rule: retry_from.induct)
  case (1 U D opn attempts attempt w)
  obtain r w' where o: "opn w = (r, w')" by fastforce
  show ?case
  proof (cases "contended U r \<and> attempt + 1 \<noteq> attempts")
    case False
    then have "retry_from U D opn attempts attempt w = Ret (opn w)"
      using "1.prems" o
      by (cases r) (auto simp: retry_from.simps [of U D opn attempts attempt w] contended_def)
    with False o "1.prems" show ?thesis by (intro exI [of _ 0]) auto
  next
    case True
    then obtain e where e: "r = Inl e" "is_lock_contention U e"
      by (cases r) (auto simp: contended_def)
    have step: "retry_from U D opn attempts attempt w
        = retry_from U D opn attempts (attempt + 1) (sleep D w')"
      using "1.prems" o e True by (simp add: retry_from.simps [of U D opn attempts attempt w])
    have "\<exists>n. attempt + 1 + n < attempts
        \<and> retry_from U D opn attempts (attempt + 1) (sleep D w')
          = Ret (opn (attempt_world D opn n (sleep D w')))
        \<and> (\<forall>i < n. contended U (fst (opn (attempt_world D opn i (sleep D w')))))
        \<and> (attempt + 1 + n + 1 = attempts
           \<or> \<not> contended U (fst (opn (attempt_world D opn n (sleep D w')))))"
      using "1.IH" "1.prems" o e True by auto
    then obtain n where n: "attempt + 1 + n < attempts"
      "retry_from U D opn attempts (attempt + 1) (sleep D w')
        = Ret (opn (attempt_world D opn n (sleep D w')))"
      "\<forall>i < n. contended U (fst (opn (attempt_world D opn i (sleep D w'))))"
      "attempt + 1 + n + 1 = attempts \<or> \<not> contended U (fst (opn (attempt_world D opn n (sleep D w'))))"
      by blast
    have "\<forall>i < Suc n. contended U (fst (opn (attempt_world D opn i w)))"
    proof (intro allI impI)
      fix i assume "i < Suc n"
      with n(3) o e show "contended U (fst (opn (attempt_world D opn i w)))"
        by (cases i) (simp_all add: contended_def)
    qed
    with n step o show ?thesis by (intro exI [of _ "Suc n"]) auto
  qed
qed

text \<open>C38: opening with retry always returns (the \<open>unreachable!\<close> is not reached), after at most
  \<open>max attempts 1\<close> attempts; only lock contention is retried, and the answer is that of the first
  attempt that was not contended, or of the last one.\<close>

theorem open_with_retry_bounded:
  "\<exists>n < max attempts 1.
     open_or_heal_with_retry U D attempts w
       = Ret (open_or_heal D (attempt_world D (open_or_heal D) n w))
     \<and> (\<forall>i < n. contended U (fst (open_or_heal D (attempt_world D (open_or_heal D) i w))))
     \<and> (n + 1 = max attempts 1
        \<or> \<not> contended U (fst (open_or_heal D (attempt_world D (open_or_heal D) n w))))"
  unfolding open_or_heal_with_retry_def
  using retry_from_spec [of 0 "max attempts 1" U D "open_or_heal D" w] by auto

theorem open_with_retry_bounded_witness:
  "\<forall>U. \<exists>r. open_or_heal_with_retry U mem_redb 0 [] = Ret r"
proof
  fix U
  show "\<exists>r. open_or_heal_with_retry U mem_redb 0 [] = Ret r"
    using open_with_retry_bounded [of 0 U mem_redb "[]"] by blast
qed

end
