(* ===== verification/BTree.thy ===== *)
theory BTree
  imports Prelude
begin

text \<open>
  \<open>BTreeMap\<close> as the strictly ascending list of its entries, with the operations the components
  use, and the locale \<open>ordered_map\<close>: what a client of an ordered map may rely on.
\<close>

type_synonym ('k, 'v) btree = "('k \<times> 'v) list"

fun bt_insert :: "'k::linorder \<Rightarrow> 'v \<Rightarrow> ('k, 'v) btree \<Rightarrow> ('k, 'v) btree" where
  "bt_insert k v [] = [(k, v)]"
| "bt_insert k v ((k', v') # m) =
     (if k < k' then (k, v) # (k', v') # m
      else if k = k' then (k, v) # m
      else (k', v') # bt_insert k v m)"

definition bt_remove :: "'k \<Rightarrow> ('k, 'v) btree \<Rightarrow> ('k, 'v) btree" where
  "bt_remove k m = filter (\<lambda>e. fst e \<noteq> k) m"

definition bt_get :: "('k, 'v) btree \<Rightarrow> 'k \<Rightarrow> 'v option" where
  "bt_get m = map_of m"

definition bt_keys :: "('k, 'v) btree \<Rightarrow> 'k list" where
  "bt_keys m = map fst m"

definition bt_ok :: "('k::linorder, 'v) btree \<Rightarrow> bool" where
  "bt_ok m \<longleftrightarrow> sorted (map fst m) \<and> distinct (map fst m)"

locale ordered_map =
  fixes empty :: 'm
    and get :: "'m \<Rightarrow> 'k::linorder \<Rightarrow> 'v option"
    and insert_kv :: "'k \<Rightarrow> 'v \<Rightarrow> 'm \<Rightarrow> 'm"
    and remove_k :: "'k \<Rightarrow> 'm \<Rightarrow> 'm"
    and keys :: "'m \<Rightarrow> 'k list"
    and ok :: "'m \<Rightarrow> bool"
  assumes ok_empty: "ok empty"
    and ok_insert: "ok m \<Longrightarrow> ok (insert_kv k v m)"
    and ok_remove: "ok m \<Longrightarrow> ok (remove_k k m)"
    and get_empty: "get empty k = None"
    and get_insert: "ok m \<Longrightarrow> get (insert_kv k v m) = (get m)(k \<mapsto> v)"
    and get_remove: "ok m \<Longrightarrow> get (remove_k k m) = (get m)(k := None)"
    and keys_get: "ok m \<Longrightarrow> set (keys m) = {k. get m k \<noteq> None}"
    and keys_sorted: "ok m \<Longrightarrow> sorted (keys m) \<and> distinct (keys m)"
begin

lemma keys_canonical: "ok m \<Longrightarrow> ok m' \<Longrightarrow> get m = get m' \<Longrightarrow> keys m = keys m'"
  by (metis keys_get keys_sorted sorted_distinct_set_unique)

lemma fold_insert:
  "ok m \<Longrightarrow> ok (foldl (\<lambda>m e. insert_kv (fst e) (f m e) m) m es)"
  by (induction es arbitrary: m) (simp_all add: ok_insert)

text \<open>Inserting a list of bindings: the last one of a key wins.\<close>

lemma get_insert_all:
  "ok m \<Longrightarrow> get (foldl (\<lambda>m e. insert_kv (fst e) (snd e) m) m es)
   = (\<lambda>k. case map_of (rev es) k of Some v \<Rightarrow> Some v | None \<Rightarrow> get m k)"
proof (induction es arbitrary: m)
  case (Cons e es)
  then show ?case
    by (auto simp: fun_eq_iff ok_insert get_insert map_add_def split: option.splits)
qed simp

end

lemma set_bt_insert: "fst ` set (bt_insert k v m) = insert k (fst ` set m)"
  by (induction k v m rule: bt_insert.induct) auto

lemma bt_ok_insert: "bt_ok m \<Longrightarrow> bt_ok (bt_insert k v m)"
proof (induction k v m rule: bt_insert.induct)
  case (2 k v k' v' m)
  have "bt_ok m" using "2.prems" by (simp add: bt_ok_def)
  then have IH: "bt_ok (bt_insert k v m)" if "\<not> k < k'" "k \<noteq> k'" using "2.IH" that by simp
  show ?case
  proof (cases "k < k' \<or> k = k'")
    case True
    then show ?thesis using "2.prems" by (force simp: bt_ok_def)
  next
    case False
    with IH "2.prems" set_bt_insert [of k v m] show ?thesis
      by (auto simp: bt_ok_def)
  qed
qed (simp add: bt_ok_def)

lemma map_of_bt_insert: "sorted (map fst m) \<Longrightarrow> map_of (bt_insert k v m) = (map_of m)(k \<mapsto> v)"
proof (induction k v m rule: bt_insert.induct)
  case (2 k v k' v' m)
  then show ?case by (auto simp: fun_eq_iff)
qed simp

lemma map_of_remove: "map_of (filter (\<lambda>e. fst e \<noteq> k) m) = (map_of m)(k := None)"
  by (induction m) (auto simp: fun_eq_iff)

interpretation bt: ordered_map "[]" bt_get bt_insert bt_remove bt_keys bt_ok
proof
  show "bt_ok m \<Longrightarrow> bt_ok (bt_remove k m)" for k :: 'a and m :: "('a, 'b) btree"
    by (auto simp: bt_ok_def bt_remove_def distinct_map_filter sorted_filter)
  show "bt_ok m \<Longrightarrow> bt_get (bt_insert k v m) = (bt_get m)(k \<mapsto> v)" for k :: 'a and v :: 'b and m
    by (simp add: bt_get_def bt_ok_def map_of_bt_insert)
  show "bt_ok m \<Longrightarrow> bt_get (bt_remove k m) = (bt_get m)(k := None)" for k :: 'a and m :: "('a, 'b) btree"
    by (simp add: bt_get_def bt_remove_def map_of_remove)
  show "bt_ok m \<Longrightarrow> set (bt_keys m) = {k. bt_get m k \<noteq> None}" for m :: "('a, 'b) btree"
    by (auto simp: bt_keys_def bt_get_def map_of_eq_None_iff)
qed (auto simp: bt_ok_def bt_get_def bt_keys_def bt_ok_insert [unfolded bt_ok_def])

end
