(* ===== verification/ChangeSets.thy ===== *)
theory ChangeSets
  imports BTree RelPaths
begin

text \<open>
  \<open>ChangeSet\<close> of \<open>astrolabe-core/src/watch.rs\<close>: the added, modified and removed paths of one
  watcher batch, and the coalescing of two batches into one.
\<close>

datatype change_kind = Added | Modified | Removed

record change_set =
  ch_added :: "rel_path list"
  ch_modified :: "rel_path list"
  ch_removed :: "rel_path list"

definition no_changes :: change_set where
  "no_changes = \<lparr>ch_added = [], ch_modified = [], ch_removed = []\<rparr>"

definition changes_is_empty :: "change_set \<Rightarrow> bool" where
  "changes_is_empty c \<longleftrightarrow> ch_added c = [] \<and> ch_modified c = [] \<and> ch_removed c = []"

definition changes_len :: "change_set \<Rightarrow> nat" where
  "changes_len c = length (ch_added c) + length (ch_modified c) + length (ch_removed c)"

definition changes_iter :: "change_set \<Rightarrow> (change_kind \<times> rel_path) list" where
  "changes_iter c = map (\<lambda>p. (Added, p)) (ch_added c) @ map (\<lambda>p. (Modified, p)) (ch_modified c)
     @ map (\<lambda>p. (Removed, p)) (ch_removed c)"

text \<open>What \<open>apply_coalesce\<close> leaves for a path.\<close>

definition coalesce :: "change_kind option \<Rightarrow> change_kind \<Rightarrow> change_kind" where
  "coalesce prev next =
     (case prev of
        None \<Rightarrow> next
      | Some Added \<Rightarrow> (case next of Added \<Rightarrow> Added | Modified \<Rightarrow> Added | Removed \<Rightarrow> Removed)
      | Some Modified \<Rightarrow> (case next of Added \<Rightarrow> Modified | Modified \<Rightarrow> Modified | Removed \<Rightarrow> Removed)
      | Some Removed \<Rightarrow> (case next of Added \<Rightarrow> Modified | Modified \<Rightarrow> Modified | Removed \<Rightarrow> Removed))"

definition apply_coalesce ::
  "(rel_path, change_kind) btree \<Rightarrow> rel_path \<Rightarrow> change_kind \<Rightarrow> (rel_path, change_kind) btree" where
  "apply_coalesce m p next = bt_insert p (coalesce (bt_get m p) next) m"

definition changes_to_map :: "change_set \<Rightarrow> (rel_path, change_kind) btree" where
  "changes_to_map c = foldl (\<lambda>m (k, p). bt_insert p k m) [] (changes_iter c)"

definition changes_from_map :: "(rel_path, change_kind) btree \<Rightarrow> change_set" where
  "changes_from_map m =
     \<lparr>ch_added = map fst (filter (\<lambda>e. snd e = Added) m),
      ch_modified = map fst (filter (\<lambda>e. snd e = Modified) m),
      ch_removed = map fst (filter (\<lambda>e. snd e = Removed) m)\<rparr>"

definition changes_merge :: "change_set \<Rightarrow> change_set \<Rightarrow> change_set" where
  "changes_merge c other =
     (if changes_is_empty other then c
      else changes_from_map
        (foldl (\<lambda>m (k, p). apply_coalesce m p k) (changes_to_map c) (changes_iter other)))"

section \<open>What a batch asks for\<close>

text \<open>Applying a batch to an index of file contents, reading the disk: a removal drops the path, an
  addition or modification re-reads it.\<close>

definition apply_change ::
  "(rel_path \<Rightarrow> 'c option) \<Rightarrow> (rel_path \<Rightarrow> 'c option) \<Rightarrow> change_kind \<times> rel_path \<Rightarrow> rel_path \<Rightarrow> 'c option" where
  "apply_change disk idx kp =
     (case kp of (k, p) \<Rightarrow> idx(p := if k = Removed then None else disk p))"

definition apply_changes ::
  "(rel_path \<Rightarrow> 'c option) \<Rightarrow> change_set \<Rightarrow> (rel_path \<Rightarrow> 'c option) \<Rightarrow> rel_path \<Rightarrow> 'c option" where
  "apply_changes disk c idx = foldl (apply_change disk) idx (changes_iter c)"

text \<open>The last word of a list of changes on each path, up to re-read or drop.\<close>

definition last_drop :: "(change_kind \<times> rel_path) list \<Rightarrow> rel_path \<Rightarrow> bool option" where
  "last_drop kps = map_of (rev (map (\<lambda>(k, p). (p, k = Removed)) kps))"

lemma last_drop_snoc: "last_drop (kps @ [(k, p)]) = (last_drop kps)(p \<mapsto> (k = Removed))"
  by (simp add: last_drop_def)

lemma foldl_apply_change:
  "foldl (apply_change disk) idx kps
   = (\<lambda>p. case last_drop kps p of None \<Rightarrow> idx p | Some d \<Rightarrow> if d then None else disk p)"
proof (induction kps rule: rev_induct)
  case Nil
  then show ?case by (simp add: last_drop_def)
next
  case (snoc kp kps)
  obtain k p where "kp = (k, p)" by fastforce
  with snoc show ?case by (auto simp: last_drop_snoc apply_change_def fun_eq_iff)
qed

text \<open>A map of kinds agrees with a list of changes on what to do with each path.\<close>

definition drops :: "(rel_path, change_kind) btree \<Rightarrow> rel_path \<Rightarrow> bool option" where
  "drops m = (\<lambda>p. map_option (\<lambda>k. k = Removed) (bt_get m p))"

lemma coalesce_drop: "coalesce prev k = Removed \<longleftrightarrow> k = Removed"
  by (cases prev; cases k) (auto simp: coalesce_def split: change_kind.splits)

lemma foldl_coalesce_ok:
  "bt_ok m \<Longrightarrow> bt_ok (foldl (\<lambda>m (k, p). apply_coalesce m p k) m kps)"
  by (induction kps arbitrary: m) (auto simp: apply_coalesce_def bt.ok_insert)

lemma foldl_coalesce_drops:
  "bt_ok m \<Longrightarrow> drops (foldl (\<lambda>m (k, p). apply_coalesce m p k) m kps) = drops m ++ last_drop kps"
proof (induction kps rule: rev_induct)
  case Nil
  then show ?case by (simp add: last_drop_def)
next
  case (snoc kp kps)
  obtain k p where kp: "kp = (k, p)" by fastforce
  have "bt_ok (foldl (\<lambda>m (k, p). apply_coalesce m p k) m kps)"
    using snoc.prems by (rule foldl_coalesce_ok)
  with snoc show ?case
    by (simp add: kp last_drop_snoc apply_coalesce_def bt.get_insert drops_def fun_eq_iff
        coalesce_drop map_add_def)
qed

lemma to_map_ok: "bt_ok (changes_to_map c)"
proof -
  have "bt_ok m \<Longrightarrow> bt_ok (foldl (\<lambda>m (k, p). bt_insert p k m) m kps)"
    for m :: "(rel_path, change_kind) btree" and kps
    by (induction kps arbitrary: m) (auto simp: bt.ok_insert)
  then show ?thesis by (simp add: changes_to_map_def bt.ok_empty)
qed

lemma foldl_insert_drops:
  "bt_ok m \<Longrightarrow> bt_ok (foldl (\<lambda>m (k, p). bt_insert p k m) m kps)
     \<and> drops (foldl (\<lambda>m (k, p). bt_insert p k m) m kps) = drops m ++ last_drop kps"
proof (induction kps rule: rev_induct)
  case Nil
  then show ?case by (simp add: last_drop_def)
next
  case (snoc kp kps)
  obtain k p where kp: "kp = (k, p)" by fastforce
  from snoc show ?case
    by (simp add: kp last_drop_snoc bt.ok_insert bt.get_insert drops_def fun_eq_iff map_add_def)
qed

lemma to_map_drops: "drops (changes_to_map c) = last_drop (changes_iter c)"
  using foldl_insert_drops [of "[]" "changes_iter c"]
  by (simp add: changes_to_map_def bt.ok_empty) (simp add: drops_def bt.get_empty map_add_def)

text \<open>A batch as the watcher sends it: each list ascending, no path twice.\<close>

definition changes_ok :: "change_set \<Rightarrow> bool" where
  "changes_ok c \<longleftrightarrow>
     sorted (ch_added c) \<and> sorted (ch_modified c) \<and> sorted (ch_removed c)
     \<and> distinct (map snd (changes_iter c))"

lemma iter_from_map: "set (changes_iter (changes_from_map m)) = (\<lambda>(p, k). (k, p)) ` set m"
proof -
  have "set (changes_iter (changes_from_map m)) =
      (\<Union>k\<in>{Added, Modified, Removed}. (\<lambda>e. (k, fst e)) ` {e \<in> set m. snd e = k})"
    by (auto simp: changes_iter_def changes_from_map_def)
  also have "\<dots> = (\<lambda>(p, k). (k, p)) ` set m"
  proof (intro equalityI subsetI)
    fix x assume "x \<in> (\<lambda>(p, k). (k, p)) ` set m"
    then obtain p k where "(p, k) \<in> set m" "x = (k, p)" by auto
    then show "x \<in> (\<Union>k\<in>{Added, Modified, Removed}. (\<lambda>e. (k, fst e)) ` {e \<in> set m. snd e = k})"
      by (cases k) force+
  qed force
  finally show ?thesis .
qed

lemma from_map_ok:
  assumes "bt_ok m"
  shows "changes_ok (changes_from_map m)"
proof -
  have dist: "distinct (map fst m)" and sort: "sorted (map fst m)"
    using assms by (simp_all add: bt_ok_def)
  have part: "distinct (map fst (filter (\<lambda>e. snd e = k) m))" "sorted (map fst (filter (\<lambda>e. snd e = k) m))"
    for k
    using dist sort by (simp_all add: distinct_map_filter sorted_filter)
  have disj: "set (map fst (filter (\<lambda>e. snd e = k) m)) \<inter> set (map fst (filter (\<lambda>e. snd e = l) m)) = {}"
    if "k \<noteq> l" for k l
    using that dist by (auto dest: eq_key_imp_eq_value)
  show ?thesis
    using part disj [of Added Modified] disj [of Added Removed] disj [of Modified Removed]
    by (simp add: changes_ok_def changes_iter_def changes_from_map_def comp_def Int_Un_distrib)
qed

lemma last_drop_distinct:
  assumes "distinct (map snd kps)"
  shows "last_drop kps p = Some d \<longleftrightarrow> (\<exists>k. (k, p) \<in> set kps \<and> d = (k = Removed))"
proof -
  let ?l = "rev (map (\<lambda>(k, p). (p, k = Removed)) kps)"
  have "map fst ?l = rev (map snd kps)" by (simp add: rev_map comp_def case_prod_beta)
  then have "distinct (map fst ?l)" using assms by simp
  then have "map_of ?l p = Some d \<longleftrightarrow> (p, d) \<in> set ?l" by (rule map_of_eq_Some_iff)
  then show ?thesis by (auto simp: last_drop_def)
qed

lemma from_map_drops:
  assumes "bt_ok m"
  shows "last_drop (changes_iter (changes_from_map m)) = drops m"
proof (rule ext)
  fix p
  have "distinct (map snd (changes_iter (changes_from_map m)))"
    using from_map_ok [OF assms] by (simp add: changes_ok_def)
  then have l: "last_drop (changes_iter (changes_from_map m)) p = Some d
      \<longleftrightarrow> (\<exists>k. (p, k) \<in> set m \<and> d = (k = Removed))" for d
    by (subst last_drop_distinct) (auto simp: iter_from_map)
  have "drops m p = Some d \<longleftrightarrow> (\<exists>k. (p, k) \<in> set m \<and> d = (k = Removed))" for d
    using assms by (auto simp: drops_def bt_get_def bt_ok_def)
  with l show "last_drop (changes_iter (changes_from_map m)) p = drops m p"
    by (metis (no_types, lifting) not_Some_eq)
qed

lemma merge_drops:
  "last_drop (changes_iter (changes_merge a b)) =
   last_drop (changes_iter a) ++ last_drop (changes_iter b)"
proof (cases "changes_is_empty b")
  case True
  then show ?thesis by (simp add: changes_merge_def changes_is_empty_def changes_iter_def last_drop_def)
next
  case False
  let ?m = "foldl (\<lambda>m (k, p). apply_coalesce m p k) (changes_to_map a) (changes_iter b)"
  have "last_drop (changes_iter (changes_from_map ?m)) = drops ?m"
    by (rule from_map_drops [OF foldl_coalesce_ok [OF to_map_ok]])
  also have "\<dots> = last_drop (changes_iter a) ++ last_drop (changes_iter b)"
    by (simp add: foldl_coalesce_drops [OF to_map_ok] to_map_drops)
  finally show ?thesis using False by (simp add: changes_merge_def)
qed

text \<open>A kind that tells the truth about one batch: whether the file existed before and exists after.\<close>

fun transition :: "change_kind \<Rightarrow> bool \<Rightarrow> bool \<Rightarrow> bool" where
  "transition Added before after = (\<not> before \<and> after)"
| "transition Modified before after = (before \<and> after)"
| "transition Removed before after = (before \<and> \<not> after)"



section \<open>The freshness barrier's decision\<close>

datatype decision = Fresh | Repair "rel_path list" | Degrade nat

definition unique_sorted :: "rel_path list \<Rightarrow> rel_path list" where
  "unique_sorted suspects = sort_dedup suspects"

text \<open>Durations are nanoseconds.\<close>

definition barrier_decision :: "nat \<Rightarrow> nat \<Rightarrow> bool \<Rightarrow> rel_path list \<Rightarrow> nat \<Rightarrow> decision" where
  "barrier_decision watermark_age fresh_window distrusted suspects max_inline =
     (let unique = unique_sorted suspects in
      if distrusted then Degrade (length unique)
      else if watermark_age \<le> fresh_window \<and> unique = [] then Fresh
      else if length unique \<le> max_inline then Repair unique
      else Degrade (length unique))"

definition staleness_note :: "nat \<Rightarrow> string" where
  "staleness_note suspects =
     ''Index may be stale: '' @ show_nat suspects
     @ '' suspect file(s) were not repaired inline; a background reindex was triggered. Treat this result as stale. confidence: unknown''"

end
