(* ===== verification/Freshness.thy ===== *)
theory Freshness
  imports ChangeSets
begin

text \<open>
  \<open>FreshnessLog\<close> of \<open>astrolabe-core/src/watch.rs\<close>: what the watcher thread writes and the query
  barrier reads.  Each method that takes the lock is one operation on the record \<open>freshness\<close>;
  every \<open>Instant::now()\<close> it reads is an argument, in nanoseconds of the monotonic clock.
  A \<open>BTreeSet\<close> of paths is its ascending list.
\<close>

record freshness =
  fr_watermark :: nat
  fr_distrusted :: bool
  fr_suspects :: "(nat \<times> rel_path) list"
  fr_repaired :: "rel_path list"
  fr_verify_requested :: bool
  fr_seeded :: bool
  fr_poll_cycle_ms :: nat

definition freshness_new :: "nat \<Rightarrow> freshness" where
  "freshness_new now =
     \<lparr>fr_watermark = now, fr_distrusted = False, fr_suspects = [], fr_repaired = [],
      fr_verify_requested = False, fr_seeded = False, fr_poll_cycle_ms = 0\<rparr>"

text \<open>Durations are nanoseconds; the stored cycle is an \<open>AtomicU64\<close> of milliseconds.\<close>

definition poll_cycle :: "freshness \<Rightarrow> nat option" where
  "poll_cycle l = (if fr_poll_cycle_ms l = 0 then None else Some (fr_poll_cycle_ms l * 1000000))"

definition set_poll_cycle :: "nat option \<Rightarrow> freshness \<Rightarrow> freshness" where
  "set_poll_cycle cycle l =
     l\<lparr>fr_poll_cycle_ms :=
        (case cycle of None \<Rightarrow> 0 | Some d \<Rightarrow> max (min (d div 1000000) (2 ^ 64 - 1)) 1)\<rparr>"

definition request_verification :: "freshness \<Rightarrow> freshness" where
  "request_verification l = l\<lparr>fr_verify_requested := True\<rparr>"

definition take_verification_request :: "freshness \<Rightarrow> bool \<times> freshness" where
  "take_verification_request l = (fr_verify_requested l, l\<lparr>fr_verify_requested := False\<rparr>)"

definition suspect_paths :: "nat \<Rightarrow> freshness \<Rightarrow> rel_path list" where
  "suspect_paths since l =
     (if fr_distrusted l then []
      else sort_dedup (map snd (filter (\<lambda>e. since < fst e) (fr_suspects l))))"

text \<open>\<open>note_paths\<close>: the first suspect entry of each noted path is re-stamped, the other noted paths
  are pushed.  \<open>todo\<close> is the \<open>HashSet\<close> \<open>fresh\<close>.\<close>

fun restamp :: "nat \<Rightarrow> rel_path set \<Rightarrow> (nat \<times> rel_path) list \<Rightarrow> (nat \<times> rel_path) list \<times> rel_path set" where
  "restamp now todo [] = ([], todo)"
| "restamp now todo ((t, p) # es) =
     (let (es', todo') = restamp now (todo - {p}) es
      in ((if p \<in> todo then now else t, p) # es', todo'))"

fun push_fresh :: "nat \<Rightarrow> rel_path set \<Rightarrow> rel_path list \<Rightarrow> (nat \<times> rel_path) list" where
  "push_fresh now todo [] = []"
| "push_fresh now todo (p # ps) =
     (if p \<in> todo then (now, p) # push_fresh now (todo - {p}) ps else push_fresh now todo ps)"

definition note_paths :: "nat \<Rightarrow> rel_path list \<Rightarrow> freshness \<Rightarrow> freshness" where
  "note_paths now paths l =
     (if paths = [] then l
      else (let (es, todo) = restamp now (set paths) (fr_suspects l)
            in l\<lparr>fr_suspects := es @ push_fresh now todo paths\<rparr>))"

definition note_repaired :: "rel_path list \<Rightarrow> freshness \<Rightarrow> freshness" where
  "note_repaired paths l = l\<lparr>fr_repaired := foldl (\<lambda>s p. insort_insert p s) (fr_repaired l) paths\<rparr>"

definition take_repaired :: "rel_path list option \<Rightarrow> freshness \<Rightarrow> rel_path list \<times> freshness" where
  "take_repaired paths l =
     (case paths of
        None \<Rightarrow> (fr_repaired l, l\<lparr>fr_repaired := []\<rparr>)
      | Some ps \<Rightarrow>
          (filter (\<lambda>p. p \<in> set ps) (fr_repaired l),
           l\<lparr>fr_repaired := filter (\<lambda>p. p \<notin> set ps) (fr_repaired l)\<rparr>))"

definition note_distrust :: "freshness \<Rightarrow> freshness" where
  "note_distrust l = l\<lparr>fr_distrusted := True\<rparr>"

definition push_unapplied :: "nat \<Rightarrow> change_set \<Rightarrow> freshness \<Rightarrow> freshness" where
  "push_unapplied now changes l =
     (if changes_is_empty changes then l
      else l\<lparr>fr_suspects := fr_suspects l
               @ map (\<lambda>(k, p). (max now (fr_watermark l + 1), p)) (changes_iter changes)\<rparr>)"

definition note_verified :: "nat \<Rightarrow> nat \<Rightarrow> change_set \<Rightarrow> nat \<Rightarrow> freshness \<Rightarrow> freshness" where
  "note_verified now now' changes started l =
     (push_unapplied now' changes
       (l\<lparr>fr_watermark := now, fr_distrusted := False,
          fr_suspects := map (\<lambda>(t, p). (now + 1, p)) (filter (\<lambda>e. started < fst e) (fr_suspects l))\<rparr>))
     \<lparr>fr_seeded := True\<rparr>"

definition bump_watermark :: "nat \<Rightarrow> nat \<Rightarrow> change_set \<Rightarrow> freshness \<Rightarrow> freshness" where
  "bump_watermark now now' changes l = push_unapplied now' changes (l\<lparr>fr_watermark := now\<rparr>)"

definition clear_suspects_through :: "nat \<Rightarrow> freshness \<Rightarrow> freshness" where
  "clear_suspects_through through l =
     l\<lparr>fr_suspects := filter (\<lambda>e. through < fst e) (fr_suspects l)\<rparr>"

section \<open>Which paths the barrier sees\<close>

definition visible :: "nat \<Rightarrow> (nat \<times> rel_path) list \<Rightarrow> rel_path set" where
  "visible since es = {p. \<exists>t. (t, p) \<in> set es \<and> since < t}"

lemma visible_simps [simp]:
  "visible since [] = {}"
  "visible since ((t, p) # es) = (if since < t then insert p (visible since es) else visible since es)"
  "visible since (es @ es') = visible since es \<union> visible since es'"
  by (auto simp: visible_def)

lemma set_suspect_paths:
  "set (suspect_paths since l) = (if fr_distrusted l then {} else visible since (fr_suspects l))"
  by (force simp: suspect_paths_def visible_def)

lemma suspect_paths_eq:
  "suspect_paths since l = (if fr_distrusted l then []
     else sorted_list_of_set (visible since (fr_suspects l)))"
proof -
  have "set (map snd (filter (\<lambda>e. since < fst e) (fr_suspects l))) = visible since (fr_suspects l)"
    by (force simp: visible_def)
  then show ?thesis unfolding suspect_paths_def sort_dedup_eq by (simp only:)
qed

lemma visible_restamp:
  "since < now \<Longrightarrow> restamp now todo es = (es', todo') \<Longrightarrow>
   visible since es' = visible since es \<union> (todo \<inter> snd ` set es) \<and> todo' = todo - snd ` set es"
proof (induction now todo es arbitrary: es' todo' rule: restamp.induct)
  case (2 now todo t p es)
  obtain xs td where r: "restamp now (todo - {p}) es = (xs, td)" by fastforce
  note IH = "2.IH" [OF "2.prems"(1) r]
  have "es' = (if p \<in> todo then now else t, p) # xs" "todo' = td"
    using "2.prems"(2) r by simp_all
  with IH "2.prems"(1) show ?case by (cases "p \<in> todo"; cases "since < t") auto
qed simp

lemma visible_push: "since < now \<Longrightarrow> visible since (push_fresh now todo ps) = todo \<inter> set ps"
  by (induction now todo ps rule: push_fresh.induct) auto

lemma note_paths_set:
  assumes "since < now" and "\<not> fr_distrusted l"
  shows "set (suspect_paths since (note_paths now paths l)) = set paths \<union> set (suspect_paths since l)"
proof (cases "paths = []")
  case True
  then show ?thesis by (simp add: note_paths_def)
next
  case False
  obtain es todo where r: "restamp now (set paths) (fr_suspects l) = (es, todo)" by fastforce
  from visible_restamp [OF assms(1) r] visible_push [OF assms(1), of todo paths]
  have "visible since (es @ push_fresh now todo paths) = set paths \<union> visible since (fr_suspects l)"
    by auto
  with False assms r show ?thesis by (simp add: note_paths_def set_suspect_paths)
qed

text \<open>A noted path becomes a suspect for the barrier, whatever happened to its earlier suspect
  entries, and noting hides nothing: the suspects after \<open>since\<close> are exactly those before and the
  noted paths, ascending and without repetition.\<close>

lemma note_paths_visible:
  assumes "since < now" and "\<not> fr_distrusted l"
  shows "suspect_paths since (note_paths now paths l)
    = sorted_list_of_set (set paths \<union> set (suspect_paths since l))"
proof -
  have "suspect_paths since l' = sorted_list_of_set (set (suspect_paths since l'))" for l'
    by (simp add: suspect_paths_def sort_dedup_eq)
  then show ?thesis using note_paths_set [OF assms] by metis
qed

lemma note_paths_visible_witness:
  "suspect_paths 0 (note_paths 5 [RelPath ''a''] (freshness_new 0)) = [RelPath ''a'']"
  using note_paths_visible [of 0 5 "freshness_new 0" "[RelPath ''a'']"]
  by (simp add: freshness_new_def suspect_paths_def sort_dedup_def)

lemma visible_map: "visible since (map (\<lambda>(k, p). (t, p)) kps) = (if since < t then snd ` set kps else {})"
  by (force simp: visible_def)

lemma empty_changes_iter: "changes_is_empty c \<Longrightarrow> changes_iter c = []"
  by (simp add: changes_is_empty_def changes_iter_def)

lemma visible_push_unapplied:
  assumes "w = fr_watermark l"
  shows "visible w (fr_suspects (push_unapplied now c l))
    = visible w (fr_suspects l) \<union> snd ` set (changes_iter c)"
proof (cases "changes_is_empty c")
  case True
  then show ?thesis by (simp add: push_unapplied_def empty_changes_iter)
next
  case False
  moreover have "w < max now (fr_watermark l + 1)" using assms by simp
  moreover have "fr_suspects (push_unapplied now c l)
      = fr_suspects l @ map (\<lambda>(k, p). (max now (fr_watermark l + 1), p)) (changes_iter c)"
    using False by (simp add: push_unapplied_def)
  ultimately show ?thesis by (simp only: visible_simps visible_map if_True)
qed

lemma note_verified_set:
  shows "\<not> fr_distrusted (note_verified now now' changes started l)"
    and "set (suspect_paths (fr_watermark (note_verified now now' changes started l))
           (note_verified now now' changes started l))
       = visible started (fr_suspects l) \<union> snd ` set (changes_iter changes)"
proof -
  let ?m = "l\<lparr>fr_watermark := now, fr_distrusted := False,
      fr_suspects := map (\<lambda>(t, p). (now + 1, p)) (filter (\<lambda>e. started < fst e) (fr_suspects l))\<rparr>"
  have "visible now (fr_suspects ?m) = visible started (fr_suspects l)"
    by (auto simp: visible_map) (force simp: visible_def)+
  moreover have "fr_watermark (push_unapplied now' changes ?m) = now"
    "\<not> fr_distrusted (push_unapplied now' changes ?m)"
    by (simp_all add: push_unapplied_def)
  ultimately show "\<not> fr_distrusted (note_verified now now' changes started l)"
    and "set (suspect_paths (fr_watermark (note_verified now now' changes started l))
           (note_verified now now' changes started l))
       = visible started (fr_suspects l) \<union> snd ` set (changes_iter changes)"
    using visible_push_unapplied [of now ?m now' changes]
    by (simp_all add: note_verified_def set_suspect_paths)
qed

section \<open>Runs of the log\<close>

datatype log_event =
  NotePaths nat "rel_path list"
| NoteRepaired "rel_path list"
| NoteDistrust
| NoteVerified nat nat change_set nat
| BumpWatermark nat nat change_set
| ClearThrough nat
| TakeRepaired "rel_path list option"
| RequestVerification
| TakeRequest

definition log_apply :: "log_event \<Rightarrow> freshness \<Rightarrow> freshness" where
  "log_apply e l =
     (case e of
        NotePaths now ps \<Rightarrow> note_paths now ps l
      | NoteRepaired ps \<Rightarrow> note_repaired ps l
      | NoteDistrust \<Rightarrow> note_distrust l
      | NoteVerified now now' c started \<Rightarrow> note_verified now now' c started l
      | BumpWatermark now now' c \<Rightarrow> bump_watermark now now' c l
      | ClearThrough t \<Rightarrow> clear_suspects_through t l
      | TakeRepaired ps \<Rightarrow> snd (take_repaired ps l)
      | RequestVerification \<Rightarrow> request_verification l
      | TakeRequest \<Rightarrow> snd (take_verification_request l))"

inductive log_run :: "freshness \<Rightarrow> log_event list \<Rightarrow> freshness \<Rightarrow> bool" where
  log_run_nil: "log_run l [] l"
| log_run_step: "log_run l es l' \<Longrightarrow> log_run l (es @ [e]) (log_apply e l')"

inductive_cases log_run_snocE: "log_run l (es @ [e]) l'"

text \<open>The events that may discard a suspect noted at time \<open>t\<close> are a clear through \<open>t\<close> or later and a
  full check that started at \<open>t\<close> or later.\<close>

definition keeps_suspect :: "nat \<Rightarrow> log_event \<Rightarrow> bool" where
  "keeps_suspect t e =
     (case e of NotePaths now ps \<Rightarrow> t \<le> now
      | NoteVerified now now' c started \<Rightarrow> started < t \<and> t \<le> now
      | ClearThrough through \<Rightarrow> through < t | _ \<Rightarrow> True)"

definition held :: "nat \<Rightarrow> rel_path \<Rightarrow> freshness \<Rightarrow> bool" where
  "held t p l \<longleftrightarrow> (\<exists>u\<ge>t. (u, p) \<in> set (fr_suspects l))"

lemma restamp_held:
  "t \<le> now \<Longrightarrow> \<exists>u\<ge>t. (u, p) \<in> set es \<Longrightarrow> \<exists>u\<ge>t. (u, p) \<in> set (fst (restamp now todo es))"
  by (induction now todo es rule: restamp.induct) (force split: prod.splits)+

lemma held_push_unapplied: "held t p l \<Longrightarrow> held t p (push_unapplied now c l)"
  by (auto simp: held_def push_unapplied_def)

lemma held_step:
  assumes "held t p l" and "keeps_suspect t e"
  shows "held t p (log_apply e l)"
proof (cases e)
  case (NotePaths now ps)
  then show ?thesis
    using assms restamp_held [of t now p "fr_suspects l" "set ps"]
    by (auto simp: log_apply_def note_paths_def held_def keeps_suspect_def split: prod.splits)
next
  case (NoteVerified now now' c started)
  then have "held t p (l\<lparr>fr_watermark := now, fr_distrusted := False,
      fr_suspects := map (\<lambda>(t, p). (now + 1, p)) (filter (\<lambda>e. started < fst e) (fr_suspects l))\<rparr>)"
  proof -
    from assms(1) obtain u where "t \<le> u" "(u, p) \<in> set (fr_suspects l)" by (auto simp: held_def)
    moreover have "started < t" "t \<le> now" using assms(2) NoteVerified by (simp_all add: keeps_suspect_def)
    ultimately show ?thesis by (force simp: held_def intro!: exI [of _ "now + 1"])
  qed
  from held_push_unapplied [OF this] NoteVerified show ?thesis
    by (simp add: log_apply_def note_verified_def held_def)
next
  case (BumpWatermark now now' c)
  have "held t p (l\<lparr>fr_watermark := now\<rparr>)" using assms(1) by (simp add: held_def)
  from held_push_unapplied [OF this] BumpWatermark show ?thesis
    by (simp add: log_apply_def bump_watermark_def)
next
  case (TakeRepaired ps)
  then show ?thesis
    using assms by (cases ps) (auto simp: log_apply_def held_def take_repaired_def)
qed (use assms in \<open>auto simp: log_apply_def held_def keeps_suspect_def note_repaired_def
       note_distrust_def clear_suspects_through_def request_verification_def
       take_verification_request_def\<close>)

text \<open>A suspect is never dropped silently: a path noted at time \<open>t\<close> keeps a suspect entry no older
  than \<open>t\<close> through any run of log operations without a clear through \<open>t\<close> or a full check begun at
  \<open>t\<close> or later, so a reader that asks from before \<open>t\<close> on a trusted log is told about it.\<close>

lemma suspect_survives:
  assumes "log_run l es l'" and "held t p l" and "\<forall>e\<in>set es. keeps_suspect t e"
  shows "held t p l' \<and> (since < t \<longrightarrow> \<not> fr_distrusted l' \<longrightarrow> p \<in> set (suspect_paths since l'))"
proof -
  have "held t p l'" using assms
    by (induction rule: log_run.induct) (auto intro: held_step)
  then show ?thesis by (auto simp: set_suspect_paths visible_def held_def)
qed

lemma suspect_survives_witness:
  "RelPath ''a'' \<in> set (suspect_paths 4
     (log_apply (BumpWatermark 9 9 no_changes) (note_paths 5 [RelPath ''a''] (freshness_new 0))))"
proof -
  let ?l = "note_paths 5 [RelPath ''a''] (freshness_new 0)"
  have "log_run ?l ([] @ [BumpWatermark 9 9 no_changes]) (log_apply (BumpWatermark 9 9 no_changes) ?l)"
    by (intro log_run.intros)
  moreover have "held 5 (RelPath ''a'') ?l"
    by (simp add: held_def note_paths_def freshness_new_def)
  moreover have "\<not> fr_distrusted (log_apply (BumpWatermark 9 9 no_changes) ?l)"
    by (simp add: log_apply_def bump_watermark_def push_unapplied_def no_changes_def
        changes_is_empty_def note_paths_def freshness_new_def)
  ultimately show ?thesis
    using suspect_survives [of ?l "[] @ [BumpWatermark 9 9 no_changes]" _ 5 "RelPath ''a''" 4]
    by (simp add: keeps_suspect_def)
qed

section \<open>The barrier on the log\<close>

text \<open>The decision of \<open>run_barrier\<close> (\<open>astrolabe-mcp/src/session.rs\<close>) on one view of the log.\<close>

definition decide :: "nat \<Rightarrow> nat \<Rightarrow> nat \<Rightarrow> freshness \<Rightarrow> decision" where
  "decide now fresh_window max_inline l =
     barrier_decision (now - fr_watermark l) fresh_window (fr_distrusted l)
       (suspect_paths (fr_watermark l) l) max_inline"

datatype watch_mode = Events | Polling

text \<open>\<open>fresh_window_for\<close>; the knobs are the watch mode and the safety interval, in nanoseconds.\<close>

definition fresh_window_for :: "watch_mode option \<Rightarrow> nat \<Rightarrow> nat option \<Rightarrow> nat" where
  "fresh_window_for mode safety_interval cycle =
     (let fresh_window = 5000000000 in
      case cycle of
        Some c \<Rightarrow> max (c + max (c div 4) 1000000000) fresh_window
      | None \<Rightarrow>
          if mode = Some Events \<and> safety_interval \<noteq> 0
          then max (safety_interval + 60000000000) fresh_window else fresh_window)"

lemma unique_sorted_eq: "unique_sorted ps = sorted_list_of_set (set ps)"
  by (simp add: unique_sorted_def sort_dedup_eq)

lemma barrier_decided:
  "case decide now window max_inline l of
     Fresh \<Rightarrow> \<not> fr_distrusted l \<and> visible (fr_watermark l) (fr_suspects l) = {}
              \<and> now - fr_watermark l \<le> window
   | Repair ps \<Rightarrow> \<not> fr_distrusted l \<and> set ps = visible (fr_watermark l) (fr_suspects l)
                \<and> sorted ps \<and> distinct ps \<and> length ps \<le> max_inline
   | Degrade n \<Rightarrow> fr_distrusted l
                \<or> n = card (visible (fr_watermark l) (fr_suspects l)) \<and> max_inline < n"
proof -
  have fin: "finite (visible s (fr_suspects l))" for s
    by (rule finite_subset [of _ "snd ` set (fr_suspects l)"]) (force simp: visible_def)+
  have empty: "visible s es = {}" if "sorted_list_of_set (visible s es) = []" "finite (visible s es)" for s es
    using that by simp
  show ?thesis
    using fin empty
    by (auto simp: decide_def barrier_decision_def Let_def unique_sorted_eq set_suspect_paths)
qed

text \<open>The barrier answers without repair only when the log is trusted, no suspect is past the
  watermark and the watermark is recent; a repair names exactly the visible suspects, at most
  \<open>max_inline\<close> of them; otherwise the answer is marked stale.\<close>

lemma barrier_decides:
  "case decide now window max_inline l of
     Fresh \<Rightarrow> \<not> fr_distrusted l \<and> visible (fr_watermark l) (fr_suspects l) = {}
              \<and> now - fr_watermark l \<le> window
   | Repair ps \<Rightarrow> \<not> fr_distrusted l \<and> set ps = visible (fr_watermark l) (fr_suspects l)
                \<and> sorted ps \<and> distinct ps \<and> length ps \<le> max_inline
   | Degrade n \<Rightarrow> fr_distrusted l
                \<or> n = card (visible (fr_watermark l) (fr_suspects l)) \<and> max_inline < n"
  by (rule barrier_decided)

text \<open>A change that a directed check found and that is not in the index yet disappears from the
  barrier's view as soon as a later directed check completes, even one that found nothing: the
  barrier then answers as fresh from an index without the change.\<close>

lemma directed_check_hides_unapplied:
  "let changed = \<lparr>ch_added = [], ch_modified = [RelPath ''a.rs''], ch_removed = []\<rparr>;
       l1 = bump_watermark 100 100 changed (freshness_new 0);
       l2 = bump_watermark 200 200 no_changes l1
   in decide 150 window 64 l1 = Repair [RelPath ''a.rs'']
      \<and> decide 200 window 64 l2 = Fresh"
  by (simp add: bump_watermark_def push_unapplied_def changes_is_empty_def changes_iter_def
      no_changes_def freshness_new_def decide_def suspect_paths_def sort_dedup_def
      barrier_decision_def unique_sorted_def Let_def)

end
