(* ===== verification/Watcher.thy ===== *)
theory Watcher
  imports Freshness "HOL-Library.Multiset_Order"
begin

text \<open>
  The file watcher of \<open>astrolabe-core/src/watch.rs\<close>: content stamps, the full check that diffs the
  tree against the last snapshot, the directed check of a set of suspect paths, and the marks of
  repaired paths.  The disk is the argument \<open>fsys\<close>: what a scan observes (\<open>observe_tree\<close>), what
  admission and \<open>stat\<close> say of one path, the successive non-empty reads of a file, and directory
  listings.  Times of files are nanoseconds since the epoch (\<open>int\<close>), clock readings arguments.
\<close>

section \<open>Content hash\<close>

definition fnv_offset :: u64 where "fnv_offset = 0xcbf29ce484222325"
definition hash_k :: u64 where "hash_k = 0x9e3779b97f4a7c15"

definition hash_mix :: "u64 \<Rightarrow> u64 \<Rightarrow> u64" where
  "hash_mix h w = (let h1 = (h XOR w) * hash_k in h1 XOR drop_bit 29 h1)"

text \<open>\<open>u64::from_le_bytes\<close>.\<close>

fun le_word :: "u8 list \<Rightarrow> u64" where
  "le_word [] = 0"
| "le_word (b # bs) = ucast b OR push_bit 8 (le_word bs)"

text \<open>One read buffer: whole words, then the remaining bytes.\<close>

function hash_buf :: "u8 list \<Rightarrow> u64 \<Rightarrow> u64" where
  "hash_buf buf h =
     (if 8 \<le> length buf then hash_buf (drop 8 buf) (hash_mix h (le_word (take 8 buf)))
      else fold (\<lambda>b h. hash_mix h (ucast b)) buf h)"
  by pat_completeness auto
termination
  by (relation "measure (\<lambda>(buf, h). length buf)") auto

declare hash_buf.simps [simp del]

definition hash_reads :: "u8 list list \<Rightarrow> u64" where
  "hash_reads bufs =
     (fold hash_buf bufs fnv_offset XOR of_nat (sum_list (map length bufs))) * hash_k"

lemma hash_buf_append: "8 dvd length a \<Longrightarrow> hash_buf (a @ b) h = hash_buf b (hash_buf a h)"
proof (induction a h rule: hash_buf.induct)
  case (1 a h)
  show ?case
  proof (cases "8 \<le> length a")
    case True
    then have "8 dvd length (drop 8 a)" using "1.prems" by (simp add: dvd_diff_nat)
    with True "1.IH" show ?thesis
      by (simp add: hash_buf.simps [of "a @ b"] hash_buf.simps [of a])
  next
    case False
    then have "a = []" using "1.prems" by (auto dest: dvd_imp_le)
    then show ?thesis by (simp add: hash_buf.simps [of "[]"])
  qed
qed

text \<open>As long as every read but the last returns a multiple of eight bytes, the content hash
  depends only on the content, not on how the reads cut it.\<close>

lemma hash_reads_aligned:
  assumes "\<forall>b\<in>set bufs. 8 dvd length b"
  shows "hash_reads (bufs @ [tail]) = hash_reads [concat bufs @ tail]"
proof -
  have "fold hash_buf bufs h = hash_buf (concat bufs) h \<and> 8 dvd length (concat bufs)"
    if "\<forall>b\<in>set bufs. 8 dvd length b" for h and bufs
    using that
  proof (induction bufs arbitrary: h)
    case Nil
    then show ?case by (simp add: hash_buf.simps [of "[]"])
  next
    case (Cons b bs)
    then show ?case by (simp add: hash_buf_append)
  qed
  with assms show ?thesis
    by (simp add: hash_reads_def hash_buf_append length_concat)
qed

lemma hash_reads_aligned_witness:
  "hash_reads ([[1, 2, 3, 4, 5, 6, 7, 8]] @ [[9]]) = hash_reads [[1, 2, 3, 4, 5, 6, 7, 8] @ [9]]"
proof -
  have "length ([1, 2, 3, 4, 5, 6, 7, 8] :: u8 list) = 8" by simp
  then have "\<forall>b\<in>set [[1, 2, 3, 4, 5, 6, 7, 8] :: u8 list]. 8 dvd length b"
    by (simp only: list.set ball_simps dvd_refl simp_thms)
  from hash_reads_aligned [OF this, of "[9]"] show ?thesis by simp
qed

text \<open>A short read changes the hash of the same content: eight zero bytes read at once and
  read as one and seven bytes hash differently, so an unchanged file can be reported as modified.\<close>

lemma hash_depends_on_read_sizes:
  "concat [[0], [0, 0, 0, 0, 0, 0, 0]] = concat [[0, 0, 0, 0, 0, 0, 0, 0 :: u8]]
   \<and> hash_reads [[0], [0, 0, 0, 0, 0, 0, 0]] \<noteq> hash_reads [[0, 0, 0, 0, 0, 0, 0, 0]]"
  by code_simp

section \<open>Stamps\<close>

record wstamp =
  ws_mtime :: int
  ws_len :: nat
  ws_hash :: "u64 option"
  ws_unsettled :: bool
  ws_mtime_ok :: bool

record observed =
  ob_mtime :: int
  ob_len :: nat
  ob_mtime_ok :: bool

datatype admit = Indexed | Missing | Skip

datatype file_type = FDir | FFile | FOther

record fsys =
  fs_scan :: "(rel_path, observed) btree"
  fs_admit :: "rel_path \<Rightarrow> admit"
  fs_observe :: "rel_path \<Rightarrow> observed option"
  fs_reads :: "rel_path \<Rightarrow> u8 list list option"
  fs_is_absolute :: "string \<Rightarrow> bool"
  fs_join_root :: "string \<Rightarrow> string"
  fs_is_root :: "string \<Rightarrow> bool"
  fs_below_root :: "string \<Rightarrow> bool"
  fs_relativize :: "string \<Rightarrow> rel_path option"
  fs_default_excluded :: "string \<Rightarrow> bool"
  fs_crosses_symlink :: "string \<Rightarrow> bool"
  fs_is_dir :: "string \<Rightarrow> bool"
  fs_exists :: "string \<Rightarrow> bool"
  fs_read_dir :: "string \<Rightarrow> (string \<times> file_type option) list option"

definition hash_file :: "fsys \<Rightarrow> rel_path \<Rightarrow> u64 option" where
  "hash_file F p = map_option hash_reads (fs_reads F p)"

definition mtime_untrusted_window :: int where "mtime_untrusted_window = 2000000000"
definition far_future :: int where "far_future = 86400000000000"
definition baseline_hash_max_bytes :: nat where "baseline_hash_max_bytes = 65536"

definition is_unsettled :: "int \<Rightarrow> bool \<Rightarrow> int \<Rightarrow> bool" where
  "is_unsettled mtime mtime_ok now \<longleftrightarrow>
     (if \<not> mtime_ok then True
      else if mtime \<le> now then now - mtime < mtime_untrusted_window
      else mtime - now \<le> far_future)"

definition is_far_future :: "int \<Rightarrow> bool \<Rightarrow> int \<Rightarrow> bool" where
  "is_far_future mtime mtime_ok now \<longleftrightarrow> mtime_ok \<and> now \<le> mtime \<and> far_future < mtime - now"

definition or_else :: "'a option \<Rightarrow> 'a option \<Rightarrow> 'a option" where
  "or_else a b = (case a of None \<Rightarrow> b | Some x \<Rightarrow> Some x)"

definition make_stamp :: "fsys \<Rightarrow> rel_path \<Rightarrow> observed \<Rightarrow> int \<Rightarrow> u64 option \<Rightarrow> wstamp" where
  "make_stamp F p meta now prev_hash =
     (let unsettled = is_unsettled (ob_mtime meta) (ob_mtime_ok meta) now;
          want_hash = unsettled \<or> (prev_hash = None
            \<and> (ob_len meta \<le> baseline_hash_max_bytes
               \<or> is_far_future (ob_mtime meta) (ob_mtime_ok meta) now));
          h = (if want_hash then or_else (hash_file F p) prev_hash else prev_hash)
      in \<lparr>ws_mtime = ob_mtime meta, ws_len = ob_len meta, ws_hash = h, ws_unsettled = unsettled,
          ws_mtime_ok = ob_mtime_ok meta\<rparr>)"

definition confirm :: "fsys \<Rightarrow> rel_path \<Rightarrow> wstamp \<Rightarrow> observed \<Rightarrow> int \<Rightarrow> wstamp \<times> bool" where
  "confirm F p old meta now =
     (let unsettled = is_unsettled (ob_mtime meta) (ob_mtime_ok meta) now;
          meta_changed = (ob_mtime meta \<noteq> ws_mtime old \<or> ob_len meta \<noteq> ws_len old
            \<or> ob_mtime_ok meta \<noteq> ws_mtime_ok old)
      in if \<not> meta_changed \<and> \<not> ws_unsettled old \<and> \<not> unsettled then
           (\<lparr>ws_mtime = ob_mtime meta, ws_len = ob_len meta, ws_hash = ws_hash old,
             ws_unsettled = False, ws_mtime_ok = ob_mtime_ok meta\<rparr>, False)
         else
           (let new_hash = hash_file F p;
                (content_changed, unsettled') =
                  (case (ws_hash old, new_hash) of
                     (Some prev, Some next) \<Rightarrow> (prev \<noteq> next, unsettled)
                   | (None, Some _) \<Rightarrow> (meta_changed, unsettled)
                   | (None, None) \<Rightarrow> (meta_changed, if ws_unsettled old then True else unsettled)
                   | (Some _, None) \<Rightarrow> (False, True))
            in (\<lparr>ws_mtime = ob_mtime meta, ws_len = ob_len meta,
                  ws_hash = or_else new_hash (ws_hash old), ws_unsettled = unsettled',
                  ws_mtime_ok = ob_mtime_ok meta\<rparr>, content_changed)))"

text \<open>A check of a file that was hashed before reports a modification exactly when the file can
  be read and its hash differs, provided the check hashes at all: a file whose metadata changed,
  or that was or is too young to trust, is judged by content; a settled file with unchanged
  metadata is not read.\<close>

lemma confirm_by_content:
  assumes "ws_hash old = Some h"
  shows "snd (confirm F p old meta now) \<longleftrightarrow>
    (ob_mtime meta \<noteq> ws_mtime old \<or> ob_len meta \<noteq> ws_len old \<or> ob_mtime_ok meta \<noteq> ws_mtime_ok old
      \<or> ws_unsettled old \<or> is_unsettled (ob_mtime meta) (ob_mtime_ok meta) now)
    \<and> (\<exists>h'. hash_file F p = Some h' \<and> h' \<noteq> h)"
  using assms by (auto simp: confirm_def Let_def split: option.splits)

definition empty_fsys :: fsys where
  "empty_fsys =
     \<lparr>fs_scan = [], fs_admit = (\<lambda>p. Missing), fs_observe = (\<lambda>p. None), fs_reads = (\<lambda>p. None),
      fs_is_absolute = (\<lambda>p. False), fs_join_root = (\<lambda>p. p), fs_is_root = (\<lambda>p. p = []),
      fs_below_root = (\<lambda>p. True), fs_relativize = (\<lambda>p. if p = [] then None else Some (RelPath p)),
      fs_default_excluded = (\<lambda>d. False), fs_crosses_symlink = (\<lambda>p. False), fs_is_dir = (\<lambda>p. False),
      fs_exists = (\<lambda>p. False), fs_read_dir = (\<lambda>d. None)\<rparr>"

lemma confirm_by_content_witness:
  "\<not> snd (confirm empty_fsys (RelPath ''a'')
     \<lparr>ws_mtime = 0, ws_len = 1, ws_hash = Some 7, ws_unsettled = False, ws_mtime_ok = True\<rparr>
     \<lparr>ob_mtime = 5, ob_len = 1, ob_mtime_ok = True\<rparr> 9000000000)"
  by (subst confirm_by_content [where h = 7]) (simp_all add: hash_file_def empty_fsys_def)

section \<open>Full and directed diffs\<close>

type_synonym snapshot = "(rel_path, wstamp) btree"

text \<open>The diff of the scanned tree against the snapshot, as \<open>Watcher::check\<close> computes it once
  seeded: the changes and the next snapshot.\<close>

definition scan_one ::
  "fsys \<Rightarrow> int \<Rightarrow> snapshot \<Rightarrow> rel_path \<times> observed \<Rightarrow> rel_path \<times> wstamp \<times> change_kind option" where
  "scan_one F now snap = (\<lambda>(p, meta).
     case bt_get snap p of
       None \<Rightarrow> (p, make_stamp F p meta now None, Some Added)
     | Some old \<Rightarrow>
         (let (stamp, changed) = confirm F p old meta now
          in (p, stamp, if changed then Some Modified else None)))"

definition full_diff :: "fsys \<Rightarrow> int \<Rightarrow> snapshot \<Rightarrow> change_set \<times> snapshot" where
  "full_diff F now snap =
     (let seen = map (scan_one F now snap) (fs_scan F)
      in (\<lparr>ch_added = map fst (filter (\<lambda>(p, st, k). k = Some Added) seen),
           ch_modified = map fst (filter (\<lambda>(p, st, k). k = Some Modified) seen),
           ch_removed = filter (\<lambda>p. bt_get (fs_scan F) p = None) (bt_keys snap)\<rparr>,
          map (\<lambda>(p, st, k). (p, st)) seen))"

text \<open>One iteration of the loop of \<open>directed_check\<close> over its work set.\<close>

definition directed_one :: "fsys \<Rightarrow> int \<Rightarrow> rel_path \<Rightarrow> change_set \<times> snapshot \<Rightarrow> change_set \<times> snapshot" where
  "directed_one F now p = (\<lambda>(c, snap).
     case bt_get snap p of
       Some old \<Rightarrow>
         (case (fs_admit F p, fs_observe F p) of
            (Indexed, Some meta) \<Rightarrow>
              (let (stamp, changed) = confirm F p old meta now
               in (if changed then c\<lparr>ch_modified := ch_modified c @ [p]\<rparr> else c,
                   bt_insert p stamp snap))
          | _ \<Rightarrow> (c\<lparr>ch_removed := ch_removed c @ [p]\<rparr>, bt_remove p snap))
     | None \<Rightarrow>
         (case fs_admit F p of
            Indexed \<Rightarrow>
              (case fs_observe F p of
                 Some meta \<Rightarrow>
                   (c\<lparr>ch_added := ch_added c @ [p]\<rparr>, bt_insert p (make_stamp F p meta now None) snap)
               | None \<Rightarrow> (c, snap))
          | _ \<Rightarrow> (c, snap)))"

definition directed_diff :: "fsys \<Rightarrow> int \<Rightarrow> rel_path list \<Rightarrow> snapshot \<Rightarrow> change_set \<times> snapshot" where
  "directed_diff F now work snap = fold (directed_one F now) work (no_changes, snap)"

text \<open>A scan lists exactly the paths that pass admission and can be observed.\<close>

definition consistent :: "fsys \<Rightarrow> bool" where
  "consistent F \<longleftrightarrow> bt_ok (fs_scan F)
     \<and> (\<forall>p. bt_get (fs_scan F) p = (if fs_admit F p = Indexed then fs_observe F p else None))"

text \<open>The verdict on one path: what is on disk, what the snapshot has, and what follows.\<close>

definition verdict ::
  "fsys \<Rightarrow> int \<Rightarrow> snapshot \<Rightarrow> rel_path \<Rightarrow> change_kind option \<times> wstamp option" where
  "verdict F now snap p =
     (case (bt_get snap p, bt_get (fs_scan F) p) of
        (None, None) \<Rightarrow> (None, None)
      | (None, Some meta) \<Rightarrow> (Some Added, Some (make_stamp F p meta now None))
      | (Some old, Some meta) \<Rightarrow>
          (let (stamp, changed) = confirm F p old meta now
           in (if changed then Some Modified else None, Some stamp))
      | (Some old, None) \<Rightarrow> (Some Removed, None))"

definition reported :: "change_set \<Rightarrow> rel_path \<Rightarrow> change_kind set" where
  "reported c p = {k. (k, p) \<in> set (changes_iter c)}"

lemma reported_simps:
  "Added \<in> reported c p \<longleftrightarrow> p \<in> set (ch_added c)"
  "Modified \<in> reported c p \<longleftrightarrow> p \<in> set (ch_modified c)"
  "Removed \<in> reported c p \<longleftrightarrow> p \<in> set (ch_removed c)"
  by (auto simp: reported_def changes_iter_def)

lemma reported_eqI:
  "(p \<in> set (ch_added c) \<longleftrightarrow> Added \<in> K) \<Longrightarrow> (p \<in> set (ch_modified c) \<longleftrightarrow> Modified \<in> K) \<Longrightarrow>
   (p \<in> set (ch_removed c) \<longleftrightarrow> Removed \<in> K) \<Longrightarrow> reported c p = K"
  unfolding reported_simps [symmetric] by (rule set_eqI, case_tac x) simp_all

lemma scan_one_verdict:
  assumes "bt_get (fs_scan F) q = Some meta"
  obtains st k where "scan_one F now snap (q, meta) = (q, st, k)"
    and "verdict F now snap q = (k, Some st)" and "k \<noteq> Some Removed"
proof (cases "bt_get snap q")
  case None
  with assms show ?thesis by (intro that [of "make_stamp F q meta now None" "Some Added"])
       (simp_all add: verdict_def scan_one_def)
next
  case (Some old)
  obtain st ch where "confirm F q old meta now = (st, ch)" by fastforce
  with assms Some show ?thesis
    by (intro that [of st "if ch then Some Modified else None"])
       (simp_all add: verdict_def scan_one_def)
qed

lemma full_diff_verdict:
  assumes "bt_ok (fs_scan F)" and "bt_ok snap" and "full_diff F now snap = (c, snap')"
  shows "reported c p = set_option (fst (verdict F now snap p))"
    and "bt_get snap' p = snd (verdict F now snap p)"
    and "bt_keys snap' = bt_keys (fs_scan F)"
proof -
  have inv: "(q, meta) \<in> set (fs_scan F) \<longleftrightarrow> bt_get (fs_scan F) q = Some meta" for q meta
    using assms(1) by (simp add: bt_get_def bt_ok_def)
  have one: "fst (scan_one F now snap e) = fst e" for e
    by (cases e) (auto simp: scan_one_def split: option.splits prod.splits)
  have s: "snap' = map (\<lambda>e. (fst e, fst (snd (scan_one F now snap e)))) (fs_scan F)"
    using assms(3) by (auto simp: full_diff_def Let_def case_prod_beta one)
  then show "bt_keys snap' = bt_keys (fs_scan F)"
    by (simp add: bt_keys_def)
  have get: "map_of (map (\<lambda>e. (fst e, f e)) es) p = map_option (\<lambda>m. f (p, m)) (map_of es p)"
    for f :: "rel_path \<times> observed \<Rightarrow> wstamp" and es
    by (induction es) auto
  show "bt_get snap' p = snd (verdict F now snap p)"
  proof (cases "bt_get (fs_scan F) p")
    case None
    then show ?thesis by (simp add: s bt_get_def get verdict_def split: option.splits)
  next
    case (Some meta)
    then obtain st k where "scan_one F now snap (p, meta) = (p, st, k)"
      "verdict F now snap p = (k, Some st)" by (rule scan_one_verdict)
    with Some show ?thesis by (simp add: s bt_get_def get)
  qed
  have kind: "p \<in> set (map fst (filter (\<lambda>(p, st, k). k = Some kd) (map (scan_one F now snap) (fs_scan F))))
      \<longleftrightarrow> fst (verdict F now snap p) = Some kd" if "kd \<noteq> Removed" for kd
  proof -
    have "p \<in> set (map fst (filter (\<lambda>(p, st, k). k = Some kd) (map (scan_one F now snap) (fs_scan F))))
        \<longleftrightarrow> (\<exists>meta. bt_get (fs_scan F) p = Some meta \<and> snd (snd (scan_one F now snap (p, meta))) = Some kd)"
    proof -
      have "p \<in> set (map fst (filter (\<lambda>(p, st, k). k = Some kd) (map (scan_one F now snap) (fs_scan F))))
          \<longleftrightarrow> (\<exists>e\<in>set (fs_scan F). fst (scan_one F now snap e) = p
                \<and> snd (snd (scan_one F now snap e)) = Some kd)"
        unfolding filter_map map_map by (auto simp: case_prod_beta)
      also have "\<dots> \<longleftrightarrow> (\<exists>meta. (p, meta) \<in> set (fs_scan F)
          \<and> snd (snd (scan_one F now snap (p, meta))) = Some kd)"
        using one by force
      finally show ?thesis by (simp only: inv)
    qed
    also have "\<dots> \<longleftrightarrow> fst (verdict F now snap p) = Some kd"
    proof (cases "bt_get (fs_scan F) p")
      case None
      with that show ?thesis by (auto simp: verdict_def split: option.splits)
    next
      case (Some meta)
      then obtain st k where "scan_one F now snap (p, meta) = (p, st, k)"
        "verdict F now snap p = (k, Some st)" by (rule scan_one_verdict)
      with Some show ?thesis by simp
    qed
    finally show ?thesis .
  qed
  have rem: "p \<in> set (ch_removed c) \<longleftrightarrow> fst (verdict F now snap p) = Some Removed"
  proof -
    have "p \<in> set (ch_removed c) \<longleftrightarrow> bt_get snap p \<noteq> None \<and> bt_get (fs_scan F) p = None"
      using assms(3) bt.keys_get [OF assms(2)] by (auto simp: full_diff_def Let_def)
    also have "\<dots> \<longleftrightarrow> fst (verdict F now snap p) = Some Removed"
      by (auto simp: verdict_def split: option.splits prod.splits)
    finally show ?thesis .
  qed
  have parts:
    "ch_added c = map fst (filter (\<lambda>(p, st, k). k = Some Added) (map (scan_one F now snap) (fs_scan F)))"
    "ch_modified c = map fst (filter (\<lambda>(p, st, k). k = Some Modified) (map (scan_one F now snap) (fs_scan F)))"
    using assms(3) by (auto simp: full_diff_def Let_def)
  have "p \<in> set (ch_added c) \<longleftrightarrow> fst (verdict F now snap p) = Some Added"
    "p \<in> set (ch_modified c) \<longleftrightarrow> fst (verdict F now snap p) = Some Modified"
    using kind [of Added] kind [of Modified] unfolding parts by simp_all
  with rem show "reported c p = set_option (fst (verdict F now snap p))"
    by (intro reported_eqI) simp_all
qed

lemma directed_one_other:
  assumes "bt_ok snap" and "directed_one F now p (c, snap) = (c', snap')" and "q \<noteq> p"
  shows "reported c' q = reported c q" and "bt_get snap' q = bt_get snap q" and "bt_ok snap'"
proof -
  have "(reported c' q = reported c q \<and> bt_get snap' q = bt_get snap q) \<and> bt_ok snap'"
    using assms
    by (auto simp: directed_one_def reported_def changes_iter_def bt.get_insert bt.get_remove
        bt.ok_insert bt.ok_remove split: option.splits admit.splits prod.splits if_splits)
  then show "reported c' q = reported c q" and "bt_get snap' q = bt_get snap q" and "bt_ok snap'"
    by simp_all
qed

lemma directed_one_verdict:
  assumes "consistent F" and "bt_ok snap" and "directed_one F now p (c, snap) = (c', snap')"
  shows "reported c' p = reported c p \<union> set_option (fst (verdict F now snap p))"
    and "bt_get snap' p = snd (verdict F now snap p)" and "bt_ok snap'"
proof -
  have scan: "bt_get (fs_scan F) p = (if fs_admit F p = Indexed then fs_observe F p else None)"
    using assms(1) by (simp add: consistent_def)
  have "(reported c' p = reported c p \<union> set_option (fst (verdict F now snap p))
      \<and> bt_get snap' p = snd (verdict F now snap p)) \<and> bt_ok snap'"
    using assms(2,3)
    by (auto simp: directed_one_def verdict_def scan reported_def changes_iter_def bt.get_insert
        bt.get_remove bt.ok_insert bt.ok_remove
        split: option.splits admit.splits prod.splits if_splits)
  then show "reported c' p = reported c p \<union> set_option (fst (verdict F now snap p))"
    and "bt_get snap' p = snd (verdict F now snap p)" and "bt_ok snap'"
    by simp_all
qed

lemma verdict_cong: "bt_get snap p = bt_get snap' p \<Longrightarrow> verdict F now snap p = verdict F now snap' p"
  by (simp add: verdict_def)

lemma directed_diff_verdict:
  assumes "consistent F" and "bt_ok snap" and "distinct work"
    and "fold (directed_one F now) work (c, snap) = (c', snap')"
  shows "bt_ok snap'
    \<and> (\<forall>p. reported c' p = reported c p \<union>
         (if p \<in> set work then set_option (fst (verdict F now snap p)) else {}))
    \<and> (\<forall>p. bt_get snap' p = (if p \<in> set work then snd (verdict F now snap p) else bt_get snap p))"
  using assms
proof (induction work arbitrary: c snap)
  case (Cons q work)
  obtain c1 s1 where 1: "directed_one F now q (c, snap) = (c1, s1)" by fastforce
  note at_q = directed_one_verdict [OF Cons.prems(1,2) 1]
  note off_q = directed_one_other [OF Cons.prems(2) 1]
  from Cons.prems 1 have "fold (directed_one F now) work (c1, s1) = (c', snap')" "distinct work" "q \<notin> set work"
    by simp_all
  note IH = Cons.IH [OF Cons.prems(1) at_q(3) this(2,1)]
  have same: "verdict F now s1 p = verdict F now snap p" if "p \<noteq> q" for p
    using off_q(2) [OF that] by (rule verdict_cong)
  have "reported c' p = reported c p \<union>
        (if p \<in> set (q # work) then set_option (fst (verdict F now snap p)) else {})
      \<and> bt_get snap' p = (if p \<in> set (q # work) then snd (verdict F now snap p) else bt_get snap p)" for p
    using IH at_q(1,2) off_q(1,2) [of p] same [of p] \<open>q \<notin> set work\<close> by (cases "p = q") simp_all
  then show ?case using IH by blast
qed simp


definition sample_fsys :: fsys where
  "sample_fsys = empty_fsys
     \<lparr>fs_scan := [(RelPath ''a'', \<lparr>ob_mtime = 0, ob_len = 1, ob_mtime_ok = True\<rparr>)],
      fs_admit := (\<lambda>p. if p = RelPath ''a'' then Indexed else Missing),
      fs_observe := (\<lambda>p. if p = RelPath ''a''
        then Some \<lparr>ob_mtime = 0, ob_len = 1, ob_mtime_ok = True\<rparr> else None),
      fs_reads := (\<lambda>p. Some [[1]])\<rparr>"


section \<open>The work set of a directed check\<close>

definition rel_is_under :: "rel_path \<Rightarrow> string \<Rightarrow> bool" where
  "rel_is_under p dir \<longleftrightarrow>
     (if dir = [] then True
      else as_str p = dir
           \<or> length dir < length (as_str p) \<and> starts_with (as_str p) dir
             \<and> as_str p ! length dir = slash)"

text \<open>The directories \<open>is_excluded_rel\<close> probes: every prefix of the path at a component.\<close>

fun component_dirs :: "string \<Rightarrow> string list \<Rightarrow> string list" where
  "component_dirs dir [] = []"
| "component_dirs dir (c # cs) =
     (if c = [] then component_dirs dir cs
      else (let dir' = (if dir = [] then c else dir @ [slash] @ c) in dir' # component_dirs dir' cs))"

definition trim_end_slashes :: "string \<Rightarrow> string" where
  "trim_end_slashes s = rev (dropWhile (\<lambda>c. c = slash) (rev s))"

definition is_excluded_rel :: "fsys \<Rightarrow> string list \<Rightarrow> rel_path \<Rightarrow> bool" where
  "is_excluded_rel F extra rel \<longleftrightarrow>
     (let s = as_str rel in
      list_ex (fs_default_excluded F) (component_dirs [] (split_on slash s))
      \<or> list_ex (\<lambda>raw.
          let e = trim_end_slashes (as_str (rel_path_new raw))
          in e \<noteq> [] \<and> (s = e \<or> length e < length s \<and> starts_with s e \<and> s ! length e = slash)) extra)"

definition keep_event_path :: "fsys \<Rightarrow> string list \<Rightarrow> string \<Rightarrow> (string \<times> rel_path) option" where
  "keep_event_path F extra path =
     (let abs = (if fs_is_absolute F path then path else fs_join_root F path)
      in case fs_relativize F abs of
           None \<Rightarrow> None
         | Some rel \<Rightarrow>
             if as_str rel = ''.git/info/exclude'' then Some (abs, rel)
             else if is_excluded_rel F extra rel then None
             else Some (abs, rel))"

datatype storm = Storm

text \<open>The entries of one directory: subdirectories go on the stack (its head is the top), files into
  the set.\<close>

fun expand_entries ::
  "fsys \<Rightarrow> string list \<Rightarrow> nat \<Rightarrow> (string \<times> file_type option) list \<Rightarrow> string list \<Rightarrow> rel_path list
   \<Rightarrow> storm + string list \<times> rel_path list" where
  "expand_entries F extra cap [] stack out = Inr (stack, out)"
| "expand_entries F extra cap ((p, ft) # es) stack out =
     (case fs_relativize F p of
        None \<Rightarrow> expand_entries F extra cap es stack out
      | Some rel \<Rightarrow>
          if is_excluded_rel F extra rel then expand_entries F extra cap es stack out
          else if ft = Some FDir then expand_entries F extra cap es (p # stack) out
          else if ft = Some FFile then
            (let out' = insort_insert rel out
             in if cap < length out' then Inl Storm else expand_entries F extra cap es stack out')
          else expand_entries F extra cap es stack out)"

partial_function (option) expand_dir ::
  "fsys \<Rightarrow> string list \<Rightarrow> nat \<Rightarrow> string list \<Rightarrow> rel_path list \<Rightarrow> (storm + rel_path list) option" where
  "expand_dir F extra cap stack out =
     (case stack of
        [] \<Rightarrow> Some (Inr out)
      | d # rest \<Rightarrow>
          (case fs_read_dir F d of
             None \<Rightarrow> expand_dir F extra cap rest out
           | Some es \<Rightarrow>
               (case expand_entries F extra cap es rest out of
                  Inl s \<Rightarrow> Some (Inl s)
                | Inr (stack', out') \<Rightarrow> expand_dir F extra cap stack' out')))"

lemma expand_entries_stack:
  "expand_entries F extra cap es stack out = Inr (stack', out') \<Longrightarrow>
   \<exists>new. stack' = new @ stack \<and> (\<forall>p\<in>set new. (p, Some FDir) \<in> set es)"
proof (induction F extra cap es stack out rule: expand_entries.induct)
  case (2 F extra cap p ft es stack out)
  then show ?case
    by (fastforce split: option.splits if_splits simp: Let_def)
qed simp

text \<open>Expanding a directory always returns: the walk never follows a symbolic link to a
  directory, so the tree below each directory it enters is less high than that of the directory
  that listed it.\<close>

lemma expand_dir_returns:
  fixes height :: "string \<Rightarrow> nat"
  assumes below: "\<And>d es p. fs_read_dir F d = Some es \<Longrightarrow> (p, Some FDir) \<in> set es \<Longrightarrow> height p < height d"
  shows "\<exists>r. expand_dir F extra cap stack out = Some r"
proof (induction "mset (map height stack)" arbitrary: stack out rule: less_induct)
  case less
  show ?case
  proof (cases stack)
    case Nil
    then show ?thesis by (subst expand_dir.simps) simp
  next
    case (Cons d rest)
    have pop: "mset (map height rest) < mset (map height stack)"
      by (simp add: Cons subset_imp_less_mset)
    show ?thesis
    proof (cases "fs_read_dir F d")
      case None
      then show ?thesis using less [OF pop] by (subst expand_dir.simps) (simp add: Cons)
    next
      case (Some es)
      show ?thesis
      proof (cases "expand_entries F extra cap es rest out")
        case (Inl s)
        then show ?thesis using Some by (subst expand_dir.simps) (simp add: Cons)
      next
        case (Inr so)
        obtain stack' out' where so: "so = (stack', out')" by fastforce
        from expand_entries_stack [OF Inr [unfolded so]] obtain new where
          new: "stack' = new @ rest" "\<forall>p\<in>set new. (p, Some FDir) \<in> set es" by blast
        have "mset (map height rest) + mset (map height new) < mset (map height rest) + {#height d#}"
          using below [OF Some] new(2)
          by (intro add_strict_left_mono ex_gt_imp_less_multiset) auto
        then have "mset (map height stack') < mset (map height stack)"
          by (simp add: new(1) Cons add.commute)
        from less [OF this] Inr so Some show ?thesis
          by (subst expand_dir.simps) (simp add: Cons)
      qed
    qed
  qed
qed

lemma expand_dir_returns_witness:
  "\<exists>r. expand_dir (empty_fsys\<lparr>fs_read_dir := (\<lambda>d. if d = ''r'' then Some [(''r/d'', Some FDir)] else None)\<rparr>)
         [] 10 [''r''] [] = Some r"
  by (rule expand_dir_returns [where height = "\<lambda>d. if d = ''r'' then 1 else 0"])
     (auto split: if_splits)

text \<open>The snapshot keys below a directory, added one by one.\<close>

datatype need_full = NeedFull (nf_distrust: bool)

fun add_under :: "nat \<Rightarrow> string \<Rightarrow> rel_path list \<Rightarrow> rel_path list \<Rightarrow> need_full + rel_path list" where
  "add_under cap dir [] work = Inr work"
| "add_under cap dir (k # ks) work =
     (if rel_is_under k dir then
        (let work' = insort_insert k work
         in if cap < length work' then Inl (NeedFull True) else add_under cap dir ks work')
      else add_under cap dir ks work)"

definition capped :: "nat \<Rightarrow> rel_path list \<Rightarrow> need_full + rel_path list" where
  "capped cap work = (if cap < length work then Inl (NeedFull True) else Inr work)"

definition expand_into ::
  "fsys \<Rightarrow> string list \<Rightarrow> nat \<Rightarrow> string \<Rightarrow> rel_path list \<Rightarrow> (need_full + rel_path list) option" where
  "expand_into F extra cap ap work =
     (case expand_dir F extra cap [ap] work of
        None \<Rightarrow> None
      | Some (Inl Storm) \<Rightarrow> Some (Inl (NeedFull True))
      | Some (Inr work') \<Rightarrow> Some (Inr work'))"

definition collect_one ::
  "fsys \<Rightarrow> string list \<Rightarrow> nat \<Rightarrow> rel_path list \<Rightarrow> string \<Rightarrow> rel_path list
   \<Rightarrow> (need_full + rel_path list) option" where
  "collect_one F extra cap keys ap work =
     (if fs_is_root F ap \<or> fs_relativize F ap = None \<and> fs_below_root F ap then
        map_option (\<lambda>r. and_then r (capped cap)) (expand_into F extra cap ap work)
      else case fs_relativize F ap of
        None \<Rightarrow> Some (Inr work)
      | Some rel \<Rightarrow>
          if is_excluded_rel F extra rel then Some (Inr work)
          else if fs_crosses_symlink F ap then Some (Inr work)
          else if fs_is_dir F ap then
            map_option (\<lambda>r. and_then r (add_under cap (as_str rel) keys))
              (expand_into F extra cap ap work)
          else
            Some (and_then
              (if fs_exists F ap then Inr (insort_insert rel work)
               else add_under cap (as_str rel) keys (insort_insert rel work))
              (capped cap)))"

fun collect_work ::
  "fsys \<Rightarrow> string list \<Rightarrow> nat \<Rightarrow> rel_path list \<Rightarrow> string list \<Rightarrow> rel_path list
   \<Rightarrow> (need_full + rel_path list) option" where
  "collect_work F extra cap keys [] work = Some (capped cap work)"
| "collect_work F extra cap keys (ap # rest) work =
     (case collect_one F extra cap keys ap work of
        None \<Rightarrow> None
      | Some (Inl e) \<Rightarrow> Some (Inl e)
      | Some (Inr work') \<Rightarrow> collect_work F extra cap keys rest work')"

text \<open>The absolute spellings of the given paths, first occurrences only.\<close>

definition unique_abs :: "fsys \<Rightarrow> string list \<Rightarrow> string list" where
  "unique_abs F paths =
     rev (remdups (rev (map (\<lambda>p. if fs_is_absolute F p then p else fs_join_root F p) paths)))"

section \<open>The watcher\<close>

record watcher =
  w_seeded :: bool
  w_snapshot :: snapshot
  w_log :: freshness
  w_extra_excludes :: "string list"
  w_storm_paths :: nat
  w_check_calls :: nat
  w_check_paths_calls :: nat

text \<open>\<open>report_repaired\<close>, before and after its final sorts.\<close>

definition report_one :: "snapshot \<Rightarrow> rel_path \<Rightarrow> change_set \<Rightarrow> change_set" where
  "report_one snap rel c =
     (if rel \<in> set (ch_added c) \<or> rel \<in> set (ch_modified c) \<or> rel \<in> set (ch_removed c) then c
      else if bt_get snap rel \<noteq> None then c\<lparr>ch_modified := ch_modified c @ [rel]\<rparr>
      else c\<lparr>ch_removed := ch_removed c @ [rel]\<rparr>)"

definition report_repaired :: "snapshot \<Rightarrow> rel_path list \<Rightarrow> change_set \<Rightarrow> change_set" where
  "report_repaired snap repaired c =
     (let c' = fold (report_one snap) repaired c
      in \<lparr>ch_added = sort (ch_added c'), ch_modified = sort (ch_modified c'),
          ch_removed = sort (ch_removed c')\<rparr>)"

text \<open>\<open>Watcher::check\<close>: \<open>started\<close> is its first clock reading, \<open>now\<close> the system time, and the last two
  arguments the readings inside \<open>note_verified\<close>.\<close>

definition check ::
  "fsys \<Rightarrow> int \<Rightarrow> nat \<Rightarrow> nat \<Rightarrow> nat \<Rightarrow> watcher \<Rightarrow> change_set \<times> watcher" where
  "check F now started t1 t2 w0 =
     (let w = w0\<lparr>w_check_calls := w_check_calls w0 + 1\<rparr> in
      if \<not> w_seeded w then
        (no_changes,
         w\<lparr>w_snapshot := map (\<lambda>(p, meta). (p, make_stamp F p meta now None)) (fs_scan F),
           w_seeded := True, w_log := note_verified t1 t2 no_changes started (w_log w)\<rparr>)
      else
        (let (c, snap) = full_diff F now (w_snapshot w);
             (repaired, log) = take_repaired None (w_log w);
             changes = report_repaired snap repaired c
         in (changes, w\<lparr>w_snapshot := snap, w_log := note_verified t1 t2 changes started log\<rparr>)))"

definition directed_check ::
  "fsys \<Rightarrow> int \<Rightarrow> nat \<Rightarrow> nat \<Rightarrow> string list \<Rightarrow> watcher \<Rightarrow> (need_full + change_set \<times> watcher) option \<times> watcher"
  where
  "directed_check F now t1 t2 paths w0 =
     (let w = w0\<lparr>w_check_paths_calls := w_check_paths_calls w0 + 1\<rparr> in
      if \<not> w_seeded w then (Some (Inl (NeedFull False)), w)
      else if w_storm_paths w < length (unique_abs F paths) then (Some (Inl (NeedFull True)), w)
      else case collect_work F (w_extra_excludes w) (w_storm_paths w) (bt_keys (w_snapshot w))
                  (unique_abs F paths) [] of
        None \<Rightarrow> (None, w)
      | Some (Inl e) \<Rightarrow> (Some (Inl e), w)
      | Some (Inr work) \<Rightarrow>
          (let (repaired, log) = take_repaired (Some work) (w_log w);
               (c, snap) = directed_diff F now work (w_snapshot w);
               changes = report_repaired snap repaired c;
               w' = w\<lparr>w_snapshot := snap, w_log := bump_watermark t1 t2 changes log\<rparr>
           in (Some (Inr (changes, w')), w')))"

definition check_paths ::
  "fsys \<Rightarrow> int \<Rightarrow> nat \<Rightarrow> nat \<Rightarrow> nat \<Rightarrow> string list \<Rightarrow> watcher \<Rightarrow> (change_set \<times> watcher) option" where
  "check_paths F now started t1 t2 paths w =
     (case directed_check F now t1 t2 paths w of
        (None, w') \<Rightarrow> None
      | (Some (Inr (c, w'')), w') \<Rightarrow> Some (c, w'')
      | (Some (Inl (NeedFull distrust)), w') \<Rightarrow>
          Some (check F now started t1 t2
            (if distrust then w'\<lparr>w_log := note_distrust (w_log w')\<rparr> else w')))"

lemma report_one_cases:
  "reported (report_one snap rel c) p =
     (if p = rel \<and> reported c p = {}
      then (if bt_get snap p \<noteq> None then {Modified} else {Removed}) else reported c p)"
proof -
  have "reported c p = {} \<longleftrightarrow> p \<notin> set (ch_added c) \<and> p \<notin> set (ch_modified c) \<and> p \<notin> set (ch_removed c)"
    by (auto simp: reported_def changes_iter_def)
  then show ?thesis
    by (auto simp: report_one_def reported_def changes_iter_def)
qed

lemma reported_report_repaired:
  "reported (report_repaired snap repaired c) p =
     (if p \<in> set repaired \<and> reported c p = {}
      then (if bt_get snap p \<noteq> None then {Modified} else {Removed}) else reported c p)"
proof -
  have fold: "reported (fold (report_one snap) ps c) p =
     (if p \<in> set ps \<and> reported c p = {}
      then (if bt_get snap p \<noteq> None then {Modified} else {Removed}) else reported c p)" for ps c
    by (induction ps arbitrary: c) (auto simp: report_one_cases)
  have "reported (report_repaired snap repaired c) p = reported (fold (report_one snap) repaired c) p"
    by (simp add: report_repaired_def reported_def changes_iter_def Let_def)
  then show ?thesis by (simp only: fold)
qed

lemma paths_reported: "snd ` set (changes_iter c) = {p. reported c p \<noteq> {}}"
  by (force simp: reported_def)

text \<open>C29: a completed full check of a seeded watcher tracks exactly the files of the scan; a consumer
  that adds the added and drops the removed paths of its batch holds the same set of files; every
  repaired path is in the batch and no mark is left; and the paths of the batch, with those noted
  while the scan ran, are what the barrier still sees.\<close>

theorem check_seals:
  assumes "w_seeded w" and "bt_ok (w_snapshot w)" and "bt_ok (fs_scan F)"
    and run: "check F now started t1 t2 w = (c, w')"
  shows "bt_keys (w_snapshot w') = bt_keys (fs_scan F)
    \<and> set (bt_keys (w_snapshot w')) =
        (set (bt_keys (w_snapshot w)) \<union> set (ch_added c)) - set (ch_removed c)
    \<and> fr_repaired (w_log w') = []
    \<and> (\<forall>p\<in>set (fr_repaired (w_log w)). reported c p \<noteq> {})
    \<and> set (suspect_paths (fr_watermark (w_log w')) (w_log w'))
        = visible started (fr_suspects (w_log w)) \<union> {p. reported c p \<noteq> {}}"
proof -
  obtain d s where d: "full_diff F now (w_snapshot w) = (d, s)" by fastforce
  note full = full_diff_verdict [OF assms(3,2) d]
  let ?r = "fr_repaired (w_log w)"
  have c: "c = report_repaired s ?r d" and w': "w_snapshot w' = s"
    "w_log w' = note_verified t1 t2 c started (w_log w\<lparr>fr_repaired := []\<rparr>)"
    using run assms(1) d by (auto simp: check_def take_repaired_def Let_def)
  have rep: "reported c p = (if p \<in> set ?r \<and> reported d p = {}
      then (if bt_get s p \<noteq> None then {Modified} else {Removed}) else reported d p)" for p
    unfolding c by (rule reported_report_repaired)
  have keys: "p \<in> set (bt_keys s) \<longleftrightarrow> bt_get (fs_scan F) p \<noteq> None" for p
    using full(3) bt.keys_get [OF assms(3)] by simp
  have old: "p \<in> set (bt_keys (w_snapshot w)) \<longleftrightarrow> bt_get (w_snapshot w) p \<noteq> None" for p
    using bt.keys_get [OF assms(2)] by simp
  have "p \<in> set (bt_keys s) \<longleftrightarrow>
      (p \<in> set (bt_keys (w_snapshot w)) \<or> p \<in> set (ch_added c)) \<and> p \<notin> set (ch_removed c)" for p
    unfolding keys old reported_simps [symmetric] rep full(1,2)
    by (auto simp: verdict_def split: option.splits prod.splits)
  then have replay: "set (bt_keys s) = (set (bt_keys (w_snapshot w)) \<union> set (ch_added c)) - set (ch_removed c)"
    by blast
  have marks: "fr_repaired (w_log w') = []"
    by (simp add: w' note_verified_def push_unapplied_def)
  have "\<forall>p\<in>set ?r. reported c p \<noteq> {}" by (simp add: rep)
  moreover have "set (suspect_paths (fr_watermark (w_log w')) (w_log w'))
      = visible started (fr_suspects (w_log w)) \<union> {p. reported c p \<noteq> {}}"
    using note_verified_set [of t1 t2 c started "w_log w\<lparr>fr_repaired := []\<rparr>"]
    by (simp add: w' paths_reported)
  ultimately show ?thesis using w'(1) full(3) replay marks by simp
qed

definition sample_watcher :: watcher where
  "sample_watcher = \<lparr>w_seeded = True, w_snapshot = [], w_log = freshness_new 0,
     w_extra_excludes = [], w_storm_paths = 5000, w_check_calls = 1, w_check_paths_calls = 0\<rparr>"

theorem check_seals_witness:
  "bt_keys (w_snapshot (snd (check sample_fsys 9000000000 1 2 3 sample_watcher))) = [RelPath ''a'']"
proof -
  obtain c w' where run: "check sample_fsys 9000000000 1 2 3 sample_watcher = (c, w')" by fastforce
  have "bt_ok (fs_scan sample_fsys)" "bt_ok (w_snapshot sample_watcher)" "w_seeded sample_watcher"
    by (simp_all add: bt_ok_def sample_fsys_def sample_watcher_def)
  from check_seals [OF this(3,2,1) run] run show ?thesis
    by (simp add: sample_fsys_def bt_keys_def)
qed

end
