(* ===== verification/Intake.thy ===== *)
theory Intake
  imports Watcher
begin

text \<open>
  The event side of the watch loop (\<open>Intake\<close> and the decisions of \<open>event_loop\<close> in
  \<open>astrolabe-core/src/watch.rs\<close>): absorbing the paths of a wake into the debounced pending set,
  the safety interval, and which check a turn of the loop runs.  Instants and durations are
  nanoseconds; the pending \<open>HashSet\<close> is a list without duplicates.  Whether a path lies under the
  root (\<open>paths::is_under_normalized\<close>) is the argument \<open>inroot\<close>.
\<close>

record watch_config =
  wc_poll_interval :: nat
  wc_debounce :: nat
  wc_safety_interval :: nat
  wc_safety_jitter :: bool
  wc_storm_paths :: nat

definition default_watch_config :: watch_config where
  "default_watch_config =
     \<lparr>wc_poll_interval = 10000000000, wc_debounce = 500000000, wc_safety_interval = 1800000000000,
      wc_safety_jitter = True, wc_storm_paths = 5000\<rparr>"

definition distrust_safety_interval :: nat where "distrust_safety_interval = 60000000000"
definition foreign_event_limit :: nat where "foreign_event_limit = 64"

definition safety_phase_offset :: "nat \<Rightarrow> u64 \<Rightarrow> nat" where
  "safety_phase_offset interval entropy = (if interval = 0 then 0 else unat entropy mod interval)"

definition initial_last_safety :: "watch_config \<Rightarrow> nat \<Rightarrow> u64 \<Rightarrow> nat" where
  "initial_last_safety cfg now entropy =
     (if \<not> wc_safety_jitter cfg then now
      else (let off = safety_phase_offset (wc_safety_interval cfg) entropy
            in if off \<le> now then now - off else now))"

definition safety_wait :: "nat \<Rightarrow> bool \<Rightarrow> nat" where
  "safety_wait configured distrusted =
     (if distrusted then
        (if configured = 0 then distrust_safety_interval else min configured distrust_safety_interval)
      else configured)"

text \<open>\<open>saturating_mul\<close> is exact below \<open>u64::MAX\<close> seconds; \<open>duration_max\<close> is that bound.\<close>

definition duration_max :: nat where "duration_max = (2 ^ 64 - 1) * 1000000000 + 999999999"

definition max_debounce_for :: "nat \<Rightarrow> nat" where
  "max_debounce_for debounce = max (max (min (debounce * 6) duration_max) 3000000000) debounce"

definition clamp_interval :: "nat \<Rightarrow> nat" where
  "clamp_interval d = (if d = 0 then 1000000 else d)"

definition is_ignore_rule_file :: "rel_path \<Rightarrow> bool" where
  "is_ignore_rule_file rel \<longleftrightarrow>
     last (split_on slash (as_str rel)) \<in> {''.gitignore'', ''.ignore''}
     \<or> as_str rel = ''.git/info/exclude''"

record intake =
  in_extra :: "string list"
  in_storm_paths :: nat
  in_pending :: "string list"
  in_all_dirty :: bool
  in_foreign :: nat
  in_rooted :: nat
  in_last_event :: "nat option"
  in_first_event :: "nat option"

definition intake_new :: "string list \<Rightarrow> nat \<Rightarrow> intake" where
  "intake_new extra storm_paths =
     \<lparr>in_extra = extra, in_storm_paths = storm_paths, in_pending = [], in_all_dirty = False,
      in_foreign = 0, in_rooted = 0, in_last_event = None, in_first_event = None\<rparr>"

definition set_insert :: "'a \<Rightarrow> 'a list \<Rightarrow> 'a list" where
  "set_insert x xs = (if x \<in> set xs then xs else xs @ [x])"

text \<open>The loop of \<open>absorb\<close>: the intake, the noted paths so far and the count of kept paths.\<close>

definition absorb_one ::
  "fsys \<Rightarrow> (string \<Rightarrow> bool) \<Rightarrow> string \<Rightarrow> intake \<times> rel_path list \<times> nat \<Rightarrow> intake \<times> rel_path list \<times> nat" where
  "absorb_one F inroot p = (\<lambda>(i, noted, kept).
     let i1 = (if fs_is_absolute F p \<and> \<not> inroot p then i\<lparr>in_foreign := in_foreign i + 1\<rparr>
               else i\<lparr>in_rooted := in_rooted i + 1\<rparr>)
     in case keep_event_path F (in_extra i) p of
          None \<Rightarrow> (i1, noted, kept)
        | Some (ap, rel) \<Rightarrow>
            (i1\<lparr>in_pending := set_insert ap (in_pending i1)\<rparr>, set_insert rel noted, kept + 1))"

text \<open>\<open>t\<close> is the clock reading of \<open>note_paths\<close>, \<open>now\<close> the one at the end.\<close>

definition absorb ::
  "fsys \<Rightarrow> (string \<Rightarrow> bool) \<Rightarrow> nat \<Rightarrow> nat \<Rightarrow> string list \<Rightarrow> bool \<Rightarrow> intake \<times> freshness \<Rightarrow> intake \<times> freshness" where
  "absorb F inroot t now paths overflow = (\<lambda>(i0, l0).
     let i1 = (if overflow then i0\<lparr>in_all_dirty := True\<rparr> else i0);
         l1 = (if overflow then note_distrust l0 else l0);
         (i2, noted, kept) = fold (absorb_one F inroot) paths (i1, [], 0);
         storm = in_storm_paths i2 < length (in_pending i2);
         i3 = (if storm then i2\<lparr>in_all_dirty := True\<rparr> else i2);
         l3 = (if storm then note_distrust l1 else l1);
         i4 = (if noted \<noteq> [] \<and> list_ex is_ignore_rule_file noted then i3\<lparr>in_all_dirty := True\<rparr> else i3);
         l4 = (if noted \<noteq> [] then note_paths t noted l3 else l3)
     in (if 0 < kept \<or> overflow \<or> in_all_dirty i4
         then i4\<lparr>in_last_event := Some now,
                 in_first_event := Some (case in_first_event i4 of Some f \<Rightarrow> f | None \<Rightarrow> now)\<rparr>
         else i4, l4))"

definition only_foreign :: "intake \<Rightarrow> bool" where
  "only_foreign i \<longleftrightarrow> in_rooted i = 0 \<and> foreign_event_limit \<le> in_foreign i"

definition reset_for_full :: "intake \<Rightarrow> intake" where
  "reset_for_full i =
     i\<lparr>in_all_dirty := False, in_pending := [], in_last_event := None, in_first_event := None\<rparr>"

section \<open>A turn of the event loop\<close>

datatype turn = Wait | Full | Directed "string list"

definition elapsed_since :: "nat \<Rightarrow> nat option \<Rightarrow> nat \<Rightarrow> bool" where
  "elapsed_since now ev d \<longleftrightarrow> (case ev of None \<Rightarrow> False | Some t \<Rightarrow> d \<le> now - t)"

text \<open>The body of the loop after draining the feed and without a verification request: what to run,
  the intake it leaves and the new \<open>last_safety\<close>.\<close>

definition turn_decision ::
  "watch_config \<Rightarrow> nat \<Rightarrow> bool \<Rightarrow> nat \<Rightarrow> intake \<Rightarrow> turn \<times> intake \<times> nat" where
  "turn_decision cfg now distrusted last_safety i =
     (let quiet = elapsed_since now (in_last_event i) (wc_debounce cfg)
                  \<or> elapsed_since now (in_first_event i) (max_debounce_for (wc_debounce cfg));
          wait = safety_wait (wc_safety_interval cfg) distrusted;
          safety_due = (wait \<noteq> 0 \<and> wait \<le> now - last_safety)
      in if quiet \<or> safety_due then
           (let i' = i\<lparr>in_last_event := None, in_first_event := None\<rparr>;
                storm = (in_all_dirty i' \<or> wc_storm_paths cfg < length (in_pending i'))
            in if safety_due \<or> storm then (Full, reset_for_full i', now)
               else (Directed (in_pending i'), i'\<lparr>in_pending := []\<rparr>, last_safety))
         else (Wait, i, last_safety))"

text \<open>A verification request is served first, with a full check.\<close>

definition verification_turn :: "nat \<Rightarrow> freshness \<Rightarrow> intake \<Rightarrow> nat \<Rightarrow> bool \<times> freshness \<times> intake \<times> nat" where
  "verification_turn now l i last_safety =
     (case take_verification_request l of
        (True, l') \<Rightarrow> (True, l', reset_for_full i, now)
      | (False, l') \<Rightarrow> (False, l', i, last_safety))"

section \<open>Nothing is lost, nothing waits forever\<close>

lemma fold_absorb_one:
  assumes "fold (absorb_one F inroot) paths (i, noted, kept) = (i', noted', kept')"
  shows "set (in_pending i') = set (in_pending i)
           \<union> {ap. \<exists>p\<in>set paths. \<exists>rel. keep_event_path F (in_extra i) p = Some (ap, rel)}"
    and "set noted' = set noted
           \<union> {rel. \<exists>p\<in>set paths. \<exists>ap. keep_event_path F (in_extra i) p = Some (ap, rel)}"
    and "in_extra i' = in_extra i" and "in_all_dirty i' = in_all_dirty i"
    and "in_first_event i' = in_first_event i" and "in_storm_paths i' = in_storm_paths i"
    and "kept' = 0 \<longleftrightarrow> kept = 0 \<and> (\<forall>p\<in>set paths. keep_event_path F (in_extra i) p = None)"
proof -
  have "set (in_pending i') = set (in_pending i)
           \<union> {ap. \<exists>p\<in>set paths. \<exists>rel. keep_event_path F (in_extra i) p = Some (ap, rel)}
    \<and> set noted' = set noted
           \<union> {rel. \<exists>p\<in>set paths. \<exists>ap. keep_event_path F (in_extra i) p = Some (ap, rel)}
    \<and> in_extra i' = in_extra i \<and> in_all_dirty i' = in_all_dirty i
    \<and> in_first_event i' = in_first_event i \<and> in_storm_paths i' = in_storm_paths i
    \<and> (kept' = 0 \<longleftrightarrow> kept = 0 \<and> (\<forall>p\<in>set paths. keep_event_path F (in_extra i) p = None))"
    using assms
  proof (induction paths arbitrary: i noted kept)
    case (Cons p paths)
    obtain i1 n1 k1 where 1: "absorb_one F inroot p (i, noted, kept) = (i1, n1, k1)"
      by (metis prod_cases3)
    then have one: "set (in_pending i1) = set (in_pending i)
           \<union> {ap. \<exists>rel. keep_event_path F (in_extra i) p = Some (ap, rel)}"
      "set n1 = set noted \<union> {rel. \<exists>ap. keep_event_path F (in_extra i) p = Some (ap, rel)}"
      "in_extra i1 = in_extra i" "in_all_dirty i1 = in_all_dirty i"
      "in_first_event i1 = in_first_event i" "in_storm_paths i1 = in_storm_paths i"
      "k1 = 0 \<longleftrightarrow> kept = 0 \<and> keep_event_path F (in_extra i) p = None"
      by (auto simp: absorb_one_def Let_def set_insert_def split: option.splits if_splits)
    from Cons.prems 1 have "fold (absorb_one F inroot) paths (i1, n1, k1) = (i', noted', kept')" by simp
    from Cons.IH [OF this] one show ?case by auto
  qed simp
  then show "set (in_pending i') = set (in_pending i)
           \<union> {ap. \<exists>p\<in>set paths. \<exists>rel. keep_event_path F (in_extra i) p = Some (ap, rel)}"
    and "set noted' = set noted
           \<union> {rel. \<exists>p\<in>set paths. \<exists>ap. keep_event_path F (in_extra i) p = Some (ap, rel)}"
    and "in_extra i' = in_extra i" and "in_all_dirty i' = in_all_dirty i"
    and "in_first_event i' = in_first_event i" and "in_storm_paths i' = in_storm_paths i"
    and "kept' = 0 \<longleftrightarrow> kept = 0 \<and> (\<forall>p\<in>set paths. keep_event_path F (in_extra i) p = None)"
    by blast+
qed

definition absorb_wake ::
  "fsys \<Rightarrow> (string \<Rightarrow> bool) \<Rightarrow> nat \<times> nat \<times> string list \<times> bool \<Rightarrow> intake \<times> freshness \<Rightarrow> intake \<times> freshness" where
  "absorb_wake F inroot = (\<lambda>(t, now, paths, overflow). absorb F inroot t now paths overflow)"

lemma absorb_facts:
  assumes "absorb F inroot t now paths overflow (i, l) = (i', l')"
  shows "set (in_pending i') = set (in_pending i)
           \<union> {ap. \<exists>p\<in>set paths. \<exists>rel. keep_event_path F (in_extra i) p = Some (ap, rel)}"
    and "in_extra i' = in_extra i"
    and "in_first_event i = Some f \<Longrightarrow> in_first_event i' = Some f"
    and "p \<in> set paths \<Longrightarrow> keep_event_path F (in_extra i) p = Some (ap, rel) \<Longrightarrow>
         in_first_event i' \<noteq> None"
    and "p \<in> set paths \<Longrightarrow> keep_event_path F (in_extra i) p = Some (ap, rel) \<Longrightarrow>
         since < t \<Longrightarrow> fr_distrusted l' \<or> rel \<in> set (suspect_paths since l')"
proof -
  define i1 where "i1 = (if overflow then i\<lparr>in_all_dirty := True\<rparr> else i)"
  define l1 where "l1 = (if overflow then note_distrust l else l)"
  obtain i2 noted kept where f: "fold (absorb_one F inroot) paths (i1, [], 0) = (i2, noted, kept)"
    by (metis prod_cases3)
  define storm where "storm \<longleftrightarrow> in_storm_paths i2 < length (in_pending i2)"
  define i3 where "i3 = (if storm then i2\<lparr>in_all_dirty := True\<rparr> else i2)"
  define l3 where "l3 = (if storm then note_distrust l1 else l1)"
  define i4 where
    "i4 = (if noted \<noteq> [] \<and> list_ex is_ignore_rule_file noted then i3\<lparr>in_all_dirty := True\<rparr> else i3)"
  have "absorb F inroot t now paths overflow (i, l)
      = (if 0 < kept \<or> overflow \<or> in_all_dirty i4
         then i4\<lparr>in_last_event := Some now,
                 in_first_event := Some (case in_first_event i4 of Some f \<Rightarrow> f | None \<Rightarrow> now)\<rparr>
         else i4, if noted \<noteq> [] then note_paths t noted l3 else l3)"
    by (simp only: absorb_def prod.case Let_def i1_def [symmetric] l1_def [symmetric] f
        storm_def [symmetric] i3_def [symmetric] l3_def [symmetric] i4_def [symmetric])
  with assms have out: "l' = (if noted \<noteq> [] then note_paths t noted l3 else l3)"
    "i' = (if 0 < kept \<or> overflow \<or> in_all_dirty i4
         then i4\<lparr>in_last_event := Some now,
                 in_first_event := Some (case in_first_event i4 of Some f \<Rightarrow> f | None \<Rightarrow> now)\<rparr>
         else i4)"
    by (simp_all only: prod.inject)
  note facts = fold_absorb_one [OF f]
  have i1: "in_pending i1 = in_pending i" "in_extra i1 = in_extra i" "in_first_event i1 = in_first_event i"
    by (simp_all add: i1_def)
  have i4: "in_pending i4 = in_pending i2" "in_extra i4 = in_extra i2" "in_first_event i4 = in_first_event i2"
    by (simp_all add: i4_def i3_def)
  show "set (in_pending i') = set (in_pending i)
           \<union> {ap. \<exists>p\<in>set paths. \<exists>rel. keep_event_path F (in_extra i) p = Some (ap, rel)}"
    and "in_extra i' = in_extra i"
    using facts(1,3) by (simp_all add: out i4 i1)
  show "in_first_event i = Some f \<Longrightarrow> in_first_event i' = Some f"
    using facts(5) by (simp add: out i4 i1)
  assume p: "p \<in> set paths" "keep_event_path F (in_extra i) p = Some (ap, rel)"
  then have kept: "0 < kept" using facts(7) by (auto simp: i1)
  then show "in_first_event i' \<noteq> None" by (simp add: out)
  have rel: "rel \<in> set noted" using p facts(2) by (auto simp: i1)
  assume since: "since < t"
  show "fr_distrusted l' \<or> rel \<in> set (suspect_paths since l')"
  proof (cases "fr_distrusted l3")
    case True
    then show ?thesis by (auto simp: out note_paths_def split: prod.splits)
  next
    case False
    from note_paths_set [OF since this, of noted] rel show ?thesis by (auto simp: out)
  qed
qed

text \<open>C25: no event on a watched path is lost: after a wake is absorbed every path it names that is
  neither outside the root nor excluded is pending for a check, a delivery deadline runs, and the
  barrier sees the path as a suspect, or the whole log as distrusted.\<close>

theorem absorb_loses_nothing:
  assumes "absorb F inroot t now paths overflow (i, l) = (i', l')"
    and "p \<in> set paths" and "keep_event_path F (in_extra i) p = Some (ap, rel)" and "since < t"
  shows "ap \<in> set (in_pending i') \<and> set (in_pending i) \<subseteq> set (in_pending i')
    \<and> in_first_event i' \<noteq> None
    \<and> (fr_distrusted l' \<or> rel \<in> set (suspect_paths since l'))"
  using absorb_facts(1) [OF assms(1)] absorb_facts(4) [OF assms(1-3)] absorb_facts(5) [OF assms(1-4)]
    assms(2,3) by auto

theorem absorb_loses_nothing_witness:
  "''a.rs'' \<in> set (in_pending (fst (absorb empty_fsys (\<lambda>p. True) 5 6 [''a.rs''] False
     (intake_new [] 5000, freshness_new 0))))"
proof -
  obtain i' l' where a: "absorb empty_fsys (\<lambda>p. True) 5 6 [''a.rs''] False
      (intake_new [] 5000, freshness_new 0) = (i', l')" by fastforce
  have "keep_event_path empty_fsys (in_extra (intake_new [] 5000)) ''a.rs''
      = Some (''a.rs'', RelPath ''a.rs'')"
    by (simp add: keep_event_path_def empty_fsys_def intake_new_def is_excluded_rel_def Let_def)
       (simp add: list_ex_iff)
  from absorb_loses_nothing [OF a _ this, of 0] a show ?thesis by simp
qed

lemma absorb_wakes_first:
  "in_first_event i = Some f \<Longrightarrow> fold (absorb_wake F inroot) wakes (i, l) = (i', l') \<Longrightarrow>
   in_first_event i' = Some f \<and> set (in_pending i) \<subseteq> set (in_pending i')"
proof (induction wakes arbitrary: i l)
  case (Cons w wakes)
  obtain t now paths ov where w: "w = (t, now, paths, ov)" by (metis prod_cases4)
  obtain i1 l1 where a: "absorb F inroot t now paths ov (i, l) = (i1, l1)" by fastforce
  have "fold (absorb_wake F inroot) wakes (i1, l1) = (i', l')"
    using Cons.prems(2) a by (simp add: w absorb_wake_def)
  from Cons.IH [OF absorb_facts(3) [OF a Cons.prems(1)] this] absorb_facts(1) [OF a]
  show ?case by auto
qed simp

text \<open>C39: a busy tree cannot starve delivery: however many wakes keep arriving after the first event of
  a burst, the first turn at or after the \<open>max_debounce\<close> deadline runs a check that covers every
  path pending, and starts the next burst from an empty pending set.\<close>

theorem burst_is_delivered:
  assumes "in_first_event i = Some f" and "f + max_debounce_for (wc_debounce cfg) \<le> now"
    and "fold (absorb_wake F inroot) wakes (i, l) = (i', l')"
  shows "case turn_decision cfg now (fr_distrusted l') last_safety i' of
      (Wait, _, _) \<Rightarrow> False
    | (Full, i'', safety) \<Rightarrow> in_pending i'' = [] \<and> in_first_event i'' = None \<and> safety = now
    | (Directed ps, i'', safety) \<Rightarrow> set (in_pending i) \<subseteq> set ps \<and> ps = in_pending i'
        \<and> in_pending i'' = [] \<and> in_first_event i'' = None \<and> safety = last_safety"
proof -
  from absorb_wakes_first [OF assms(1,3)] have "in_first_event i' = Some f"
    "set (in_pending i) \<subseteq> set (in_pending i')" by simp_all
  moreover have "elapsed_since now (Some f) (max_debounce_for (wc_debounce cfg))"
    using assms(2) by (simp add: elapsed_since_def)
  ultimately show ?thesis
    by (simp add: turn_decision_def Let_def reset_for_full_def)
qed

theorem burst_is_delivered_witness:
  "fst (turn_decision default_watch_config 4000000000 False 0
     (intake_new [] 5000\<lparr>in_pending := [''a''], in_first_event := Some 1000\<rparr>)) \<noteq> Wait"
  using burst_is_delivered [of "intake_new [] 5000\<lparr>in_pending := [''a''], in_first_event := Some 1000\<rparr>"
      1000 default_watch_config 4000000000 empty_fsys "\<lambda>p. True" "[]" "freshness_new 0" _ "freshness_new 0" 0]
  by (auto simp: max_debounce_for_def default_watch_config_def duration_max_def freshness_new_def)

text \<open>Distrust is bounded: once the log is distrusted, a turn of the loop 60 seconds or more after
  the last full scan runs a full check whatever the configured safety interval, and that check
  restores trust.\<close>

lemma distrust_is_bounded:
  assumes "fr_distrusted l" and "last_safety + distrust_safety_interval \<le> now"
  shows "fst (turn_decision cfg now (fr_distrusted l) last_safety i) = Full
    \<and> \<not> fr_distrusted (w_log (snd (check F sys started t1 t2 w)))"
proof
  have "safety_wait (wc_safety_interval cfg) True \<noteq> 0"
    "safety_wait (wc_safety_interval cfg) True \<le> distrust_safety_interval"
    by (simp_all add: safety_wait_def distrust_safety_interval_def)
  moreover from this(2) assms(2) have "safety_wait (wc_safety_interval cfg) True \<le> now - last_safety"
    by linarith
  ultimately show "fst (turn_decision cfg now (fr_distrusted l) last_safety i) = Full"
    using assms by (simp add: turn_decision_def Let_def)
  show "\<not> fr_distrusted (w_log (snd (check F sys started t1 t2 w)))"
    using note_verified_set(1) by (simp add: check_def Let_def case_prod_beta)
qed

lemma distrust_is_bounded_witness:
  "fst (turn_decision default_watch_config 60000000000 True 0 (intake_new [] 5000)) = Full"
  using distrust_is_bounded [of "note_distrust (freshness_new 0)" 0 60000000000 default_watch_config
      "intake_new [] 5000"]
  by (simp add: note_distrust_def distrust_safety_interval_def)

lemma safety_phase_offset_less: "0 < interval \<Longrightarrow> safety_phase_offset interval entropy < interval"
  by (simp add: safety_phase_offset_def)

end
