(* ===== verification/NamePath.thy ===== *)
theory NamePath
  imports GraphData "HOL-Library.AList"
begin

text \<open>
  Hierarchical name-path queries (\<open>astrolabe-core/src/name_path.rs\<close>): containment of line
  ranges as the hierarchy of a file, the lookup tables over one symbol table, parsing of a
  query, validation of the ancestor chain and the expansion to descendants.  A hash map whose
  iteration order the code removes by a final sort is an association list.
\<close>

section \<open>Names\<close>

text \<open>\<open>eq_ignore_ascii_case\<close> on byte slices, and \<open>slice::windows\<close>.\<close>

definition eq_ignore_ascii_case :: "string \<Rightarrow> string \<Rightarrow> bool" where
  "eq_ignore_ascii_case a b \<longleftrightarrow> ascii_lowercase a = ascii_lowercase b"

definition windows :: "nat \<Rightarrow> 'a list \<Rightarrow> 'a list list" where
  "windows k xs = map (\<lambda>i. take k (drop i xs)) [0..<Suc (length xs) - k]"

definition lower_once :: "unicode \<Rightarrow> string \<Rightarrow> string" where
  "lower_once U s = to_lowercase U s"

definition name_matches :: "unicode \<Rightarrow> string \<Rightarrow> string \<Rightarrow> bool \<Rightarrow> bool" where
  "name_matches U sym_name seg_lower substring =
     (if is_ascii_str sym_name \<and> is_ascii_str seg_lower then
        (if substring then
           seg_lower = []
           \<or> list_ex (\<lambda>w. eq_ignore_ascii_case w seg_lower) (windows (length seg_lower) sym_name)
         else eq_ignore_ascii_case sym_name seg_lower)
      else
        (let n = to_lowercase U sym_name
         in if substring then contains_sub n seg_lower else n = seg_lower))"

section \<open>Containment\<close>

definition is_container_kind :: "symbol_kind \<Rightarrow> bool" where
  "is_container_kind kind \<longleftrightarrow> kind \<in> {Class, Interface, Struct, Enum, Trait, Module}"

definition strictly_contains :: "code_symbol \<Rightarrow> code_symbol \<Rightarrow> bool" where
  "strictly_contains outer inner =
     (if cs_file outer \<noteq> cs_file inner
         \<or> cs_start_line outer > cs_start_line inner
         \<or> cs_end_line outer < cs_end_line inner then False
      else if (cs_start_line outer, cs_end_line outer) \<noteq> (cs_start_line inner, cs_end_line inner)
      then True
      else is_container_kind (cs_kind outer) \<and> \<not> is_container_kind (cs_kind inner))"

datatype kind_filter = KindFilter "symbol_kind option"

fun accepts :: "kind_filter \<Rightarrow> code_symbol \<Rightarrow> bool" where
  "accepts (KindFilter None) s = True"
| "accepts (KindFilter (Some kind)) s = (cs_kind s = kind)"

record name_path_match =
  npm_symbol :: symbol_id
  npm_depth :: nat

section \<open>Lookup tables\<close>

record name_table =
  nt_lower :: "string list"
  nt_sorted :: "nat list"

record name_path_index =
  np_by_id :: "symbol_id \<Rightarrow> nat option"
  np_buckets :: "file_id \<Rightarrow> nat list option"
  np_names :: "name_table option"

text \<open>\<open>collect()\<close> into a map: a later position replaces an earlier one.\<close>

definition index_by_id :: "code_symbol list \<Rightarrow> symbol_id \<Rightarrow> nat option" where
  "index_by_id syms = foldl (\<lambda>m i. m(cs_id (syms ! i) \<mapsto> i)) Map.empty [0..<length syms]"

definition bucket_push :: "code_symbol list \<Rightarrow> (file_id \<Rightarrow> nat list option) \<Rightarrow> nat \<Rightarrow> file_id \<Rightarrow> nat list option" where
  "bucket_push syms m i =
     m(cs_file (syms ! i) \<mapsto> (case m (cs_file (syms ! i)) of None \<Rightarrow> [] | Some v \<Rightarrow> v) @ [i])"

definition np_new :: "code_symbol list \<Rightarrow> name_path_index" where
  "np_new syms =
     \<lparr>np_by_id = index_by_id syms,
      np_buckets = foldl (bucket_push syms) Map.empty [0..<length syms],
      np_names = None\<rparr>"

text \<open>Positions are \<open>u32\<close>: the table covers \<open>symbols.len() as u32\<close> entries.\<close>

definition name_table_new :: "unicode \<Rightarrow> code_symbol list \<Rightarrow> name_table" where
  "name_table_new U syms =
     (let lower = map (\<lambda>s. to_lowercase U (cs_name s)) syms
      in \<lparr>nt_lower = lower,
          nt_sorted = sort_key (\<lambda>i. (lower ! i, i)) [0..<length syms mod 2 ^ 32]\<rparr>)"

definition np_with_names :: "unicode \<Rightarrow> code_symbol list \<Rightarrow> name_path_index" where
  "np_with_names U syms = (np_new syms)\<lparr>np_names := Some (name_table_new U syms)\<rparr>"

definition file_symbols :: "name_path_index \<Rightarrow> file_id \<Rightarrow> nat list" where
  "file_symbols idx f = (case np_buckets idx f of Some v \<Rightarrow> v | None \<Rightarrow> [])"

definition nt_exact :: "name_table \<Rightarrow> string \<Rightarrow> nat list" where
  "nt_exact t lower_name =
     (let key = (\<lambda>i. nt_lower t ! i);
          lo = partition_point (\<lambda>i. key i < lower_name) (nt_sorted t);
          len = partition_point (\<lambda>i. key i = lower_name) (drop lo (nt_sorted t))
      in take len (drop lo (nt_sorted t)))"

text \<open>\<open>chunk_by\<close>: maximal runs of adjacent related elements.\<close>

fun chunk_by :: "('a \<Rightarrow> 'a \<Rightarrow> bool) \<Rightarrow> 'a list \<Rightarrow> 'a list list" where
  "chunk_by R [] = []"
| "chunk_by R [x] = [[x]]"
| "chunk_by R (x # y # xs) =
     (if R x y then (case chunk_by R (y # xs) of [] \<Rightarrow> [[x]] | c # cs \<Rightarrow> (x # c) # cs)
      else [x] # chunk_by R (y # xs))"

definition nt_groups :: "name_table \<Rightarrow> nat list list" where
  "nt_groups t = chunk_by (\<lambda>a b. nt_lower t ! a = nt_lower t ! b) (nt_sorted t)"

definition nt_matching :: "name_table \<Rightarrow> string \<Rightarrow> bool \<Rightarrow> nat list" where
  "nt_matching t seg_lower substring =
     (if substring then filter (\<lambda>i. contains_sub (nt_lower t ! i) seg_lower) [0..<length (nt_lower t)]
      else nt_exact t seg_lower)"

definition nt_any_matches :: "name_table \<Rightarrow> string \<Rightarrow> bool \<Rightarrow> bool" where
  "nt_any_matches t seg_lower substring =
     (if substring then list_ex (\<lambda>l. contains_sub l seg_lower) (nt_lower t)
      else nt_exact t seg_lower \<noteq> [])"

section \<open>Hierarchy within a file\<close>

definition ancestors_within_file :: "code_symbol list \<Rightarrow> name_path_index \<Rightarrow> code_symbol \<Rightarrow> symbol_id list" where
  "ancestors_within_file syms idx target =
     map cs_id
       (sort_key (\<lambda>s. (- uint (cs_start_line s), cs_end_line s, is_container_kind (cs_kind s)))
         (filter (\<lambda>s. strictly_contains s target)
           (map (\<lambda>i. syms ! i) (file_symbols idx (cs_file target)))))"

definition direct_children :: "code_symbol list \<Rightarrow> name_path_index \<Rightarrow> code_symbol \<Rightarrow> symbol_id list" where
  "direct_children syms idx parent =
     (let inside = filter (strictly_contains parent)
                     (map (\<lambda>i. syms ! i) (file_symbols idx (cs_file parent)))
      in map cs_id (filter (\<lambda>s. \<not> list_ex (\<lambda>mid. strictly_contains mid s) inside) inside))"

definition is_container :: "code_symbol list \<Rightarrow> name_path_index \<Rightarrow> code_symbol \<Rightarrow> bool" where
  "is_container syms idx target =
     list_ex (\<lambda>i. strictly_contains target (syms ! i)) (file_symbols idx (cs_file target))"

text \<open>\<open>&symbols[by_id[id]]\<close>.\<close>

definition sym_at :: "code_symbol list \<Rightarrow> name_path_index \<Rightarrow> symbol_id \<Rightarrow> code_symbol" where
  "sym_at syms idx i = syms ! the (np_by_id idx i)"

text \<open>
  The scan of \<open>chain_matches\<close>: the inner loop looks outwards from \<open>idx\<close> for the ancestor of one
  segment and gives the position after it; \<open>outermost\<close> is the last position bound.
\<close>

function chain_find :: "(nat \<Rightarrow> bool) \<Rightarrow> bool \<Rightarrow> nat \<Rightarrow> nat \<Rightarrow> nat option" where
  "chain_find hit must_be_top n idx =
     (if idx < n then
        (if hit idx \<and> \<not> (must_be_top \<and> Suc idx \<noteq> n) then Some (Suc idx)
         else chain_find hit must_be_top n (Suc idx))
      else None)"
  by pat_completeness auto
termination
  by (relation "measure (\<lambda>(hit, must_be_top, n, idx). n - idx)") auto

declare chain_find.simps [simp del]

fun chain_segs :: "(nat \<Rightarrow> string \<Rightarrow> bool) \<Rightarrow> bool \<Rightarrow> nat \<Rightarrow> string list \<Rightarrow> nat \<Rightarrow> nat option \<Rightarrow> nat option option" where
  "chain_segs hit absolute n [] idx outermost = Some outermost"
| "chain_segs hit absolute n (seg # segs) idx outermost =
     (case chain_find (\<lambda>i. hit i seg) (absolute \<and> segs = []) n idx of
        None \<Rightarrow> None
      | Some idx' \<Rightarrow> chain_segs hit absolute n segs idx' (Some (idx' - 1)))"

definition chain_matches :: "unicode \<Rightarrow> code_symbol list \<Rightarrow> name_path_index \<Rightarrow> code_symbol \<Rightarrow> string list \<Rightarrow> bool \<Rightarrow> bool" where
  "chain_matches U syms idx target ancestor_segs absolute =
     (let chain = ancestors_within_file syms idx target;
          hit = (\<lambda>i seg. name_matches U (cs_name (sym_at syms idx (chain ! i))) seg False)
      in case chain_segs hit absolute (length chain) (rev ancestor_segs) 0 None of
           None \<Rightarrow> False
         | Some (Some i) \<Rightarrow> \<not> absolute \<or> i + 1 = length chain
         | Some None \<Rightarrow> False)"

section \<open>Queries\<close>

record query =
  q_segments :: "string list"
  q_absolute :: bool
  q_trailing :: bool
  q_whole :: string

definition path_segments :: "string \<Rightarrow> string list" where
  "path_segments s = filter (\<lambda>w. w \<noteq> []) (map trim (split_on slash s))"

definition parse_query :: "string \<Rightarrow> query option" where
  "parse_query q =
     (let trimmed = trim q; segments = path_segments trimmed
      in if segments = [] then None
         else Some \<lparr>q_segments = segments, q_absolute = starts_with trimmed [slash],
                    q_trailing = ends_with trimmed [slash], q_whole = trimmed\<rparr>)"

text \<open>The lookups of a query: in the name table when there is one, else by a scan.\<close>

definition any_named :: "unicode \<Rightarrow> code_symbol list \<Rightarrow> name_path_index \<Rightarrow> bool \<Rightarrow> string \<Rightarrow> bool" where
  "any_named U syms idx substring t =
     (let lowered = lower_once U t
      in case np_names idx of
           Some table \<Rightarrow> nt_any_matches table lowered substring
         | None \<Rightarrow> list_ex (\<lambda>s. name_matches U (cs_name s) lowered substring) syms)"

definition candidates :: "unicode \<Rightarrow> code_symbol list \<Rightarrow> name_path_index \<Rightarrow> bool \<Rightarrow> string \<Rightarrow> nat list" where
  "candidates U syms idx substring lst =
     (case np_names idx of
        Some table \<Rightarrow> nt_matching table lst substring
      | None \<Rightarrow> filter (\<lambda>i. name_matches U (cs_name (syms ! i)) lst substring) [0..<length syms])"

text \<open>Names that contain a slash: the whole text as one segment, else the longest tail that names
  a symbol.\<close>

definition tail_at :: "string \<Rightarrow> nat \<Rightarrow> string" where
  "tail_at whole pos = trim (drop (Suc pos) whole)"

definition resolve_slashes :: "(string \<Rightarrow> bool) \<Rightarrow> query \<Rightarrow> query" where
  "resolve_slashes named q =
     (if slash \<notin> set (q_whole q) then q
      else if named (q_whole q)
      then \<lparr>q_segments = [q_whole q], q_absolute = False, q_trailing = False, q_whole = q_whole q\<rparr>
      else (case find (\<lambda>pos. tail_at (q_whole q) pos \<noteq> [] \<and> slash \<in> set (tail_at (q_whole q) pos)
                             \<and> named (tail_at (q_whole q) pos))
                   (filter (\<lambda>i. q_whole q ! i = slash) [0..<length (q_whole q)]) of
              None \<Rightarrow> q
            | Some pos \<Rightarrow>
                \<lparr>q_segments = path_segments (take pos (q_whole q)) @ [tail_at (q_whole q) pos],
                 q_absolute = q_absolute q, q_trailing = False, q_whole = q_whole q\<rparr>))"

definition keeps :: "unicode \<Rightarrow> code_symbol list \<Rightarrow> name_path_index \<Rightarrow> query \<Rightarrow> string list \<Rightarrow> code_symbol \<Rightarrow> bool" where
  "keeps U syms idx q lowered sy \<longleftrightarrow>
     (if length lowered = 1
      then \<not> (q_absolute q \<and> ancestors_within_file syms idx sy \<noteq> [])
      else chain_matches U syms idx sy (butlast lowered) (q_absolute q))
     \<and> \<not> (q_trailing q \<and> \<not> is_container syms idx sy)"

definition matched_ids :: "unicode \<Rightarrow> code_symbol list \<Rightarrow> name_path_index \<Rightarrow> bool \<Rightarrow> query \<Rightarrow> symbol_id list" where
  "matched_ids U syms idx substring q =
     (let lowered = map (lower_once U) (q_segments q)
      in map cs_id (filter (keeps U syms idx q lowered)
           (map (\<lambda>i. syms ! i) (candidates U syms idx substring (last lowered)))))"

section \<open>Expansion to descendants\<close>

type_synonym depths = "(symbol_id \<times> nat) list"

text \<open>The entry of a child: kept, or lowered to the smaller depth.\<close>

definition note_depth :: "nat \<Rightarrow> depths \<Rightarrow> symbol_id \<Rightarrow> depths" where
  "note_depth d m child =
     (case map_of m child of
        Some e \<Rightarrow> if d < e then AList.update child d m else m
      | None \<Rightarrow> AList.update child d m)"

definition next_layer :: "code_symbol list \<Rightarrow> name_path_index \<Rightarrow> symbol_id list \<Rightarrow> symbol_id list" where
  "next_layer syms idx layer =
     concat (map (\<lambda>cur. direct_children syms idx (sym_at syms idx cur)) layer)"

text \<open>The loop \<open>for d in 1..=depth\<close> from depth \<open>d\<close>, with \<open>k\<close> rounds left.\<close>

fun expand_layers :: "(symbol_id list \<Rightarrow> symbol_id list) \<Rightarrow> nat \<Rightarrow> nat \<Rightarrow> symbol_id list \<Rightarrow> depths \<Rightarrow> depths" where
  "expand_layers nxt d 0 layer m = m"
| "expand_layers nxt d (Suc k) layer m =
     (let m' = foldl (note_depth d) m (nxt layer)
      in if nxt layer = [] then m' else expand_layers nxt (Suc d) k (nxt layer) m')"

definition expand_one :: "(symbol_id list \<Rightarrow> symbol_id list) \<Rightarrow> nat \<Rightarrow> depths \<Rightarrow> symbol_id \<Rightarrow> depths" where
  "expand_one nxt depth m i =
     (if depth = 0 then AList.update i 0 m else expand_layers nxt 1 depth [i] m)"

definition match_sort_key :: "code_symbol list \<Rightarrow> name_path_index \<Rightarrow> name_path_match \<Rightarrow> file_id \<times> u32 \<times> string \<times> u32 \<times> symbol_id" where
  "match_sort_key syms idx m =
     (let s = sym_at syms idx (npm_symbol m)
      in (cs_file s, cs_start_line s, cs_name s, cs_end_line s, cs_id s))"

definition match_name_path_with ::
  "unicode \<Rightarrow> code_symbol list \<Rightarrow> name_path_index \<Rightarrow> string \<Rightarrow> bool \<Rightarrow> kind_filter \<Rightarrow> u8 \<Rightarrow> name_path_match list" where
  "match_name_path_with U syms idx query substring kind depth =
     (case parse_query query of
        None \<Rightarrow> []
      | Some q0 \<Rightarrow>
          let q = resolve_slashes (any_named U syms idx substring) q0;
              matched = matched_ids U syms idx substring q;
              depth_by_id = foldl (expand_one (next_layer syms idx) (unat depth)) [] matched
          in sort_key (match_sort_key syms idx)
               (map (\<lambda>(i, d). \<lparr>npm_symbol = i, npm_depth = d\<rparr>)
                 (filter (\<lambda>(i, d). accepts kind (sym_at syms idx i)) depth_by_id)))"

definition match_name_path ::
  "unicode \<Rightarrow> code_symbol list \<Rightarrow> string \<Rightarrow> bool \<Rightarrow> kind_filter \<Rightarrow> u8 \<Rightarrow> name_path_match list" where
  "match_name_path U syms query substring kind depth =
     match_name_path_with U syms (np_new syms) query substring kind depth"

definition innermost_containers_with :: "code_symbol list \<Rightarrow> name_path_index \<Rightarrow> nat list \<Rightarrow> nat option list" where
  "innermost_containers_with syms idx targets =
     map (\<lambda>t. case ancestors_within_file syms idx (syms ! t) of
                [] \<Rightarrow> None | i # _ \<Rightarrow> Some (the (np_by_id idx i))) targets"

definition innermost_containers :: "code_symbol list \<Rightarrow> nat list \<Rightarrow> nat option list" where
  "innermost_containers syms targets = innermost_containers_with syms (np_new syms) targets"


section \<open>Containment is a strict partial order\<close>

lemma contains_irrefl [simp]: "\<not> strictly_contains s s"
  by (simp add: strictly_contains_def)

lemma contains_file: "strictly_contains a b \<Longrightarrow> cs_file a = cs_file b"
  by (simp add: strictly_contains_def split: if_splits)

lemma contains_range:
  "strictly_contains a b \<Longrightarrow> cs_start_line a \<le> cs_start_line b \<and> cs_end_line b \<le> cs_end_line a"
  by (auto simp: strictly_contains_def not_less split: if_splits)

lemma contains_trans:
  assumes "strictly_contains a b" and "strictly_contains b c"
  shows "strictly_contains a c"
proof -
  note r = contains_range [OF assms(1)] contains_range [OF assms(2)]
  have f: "cs_file a = cs_file c" using contains_file [OF assms(1)] contains_file [OF assms(2)] by simp
  show ?thesis
  proof (cases "cs_start_line a = cs_start_line c \<and> cs_end_line a = cs_end_line c")
    case True
    with r have "cs_start_line a = cs_start_line b" "cs_end_line a = cs_end_line b"
      by (metis order_antisym)+
    with True assms show ?thesis by (auto simp: strictly_contains_def split: if_splits)
  next
    case False
    moreover have "cs_start_line a \<le> cs_start_line c" "cs_end_line c \<le> cs_end_line a"
      using r by (blast intro: order_trans)+
    ultimately show ?thesis using f by (auto simp: strictly_contains_def)
  qed
qed

lemma contains_asym: "strictly_contains a b \<Longrightarrow> \<not> strictly_contains b a"
  using contains_trans contains_irrefl by blast

section \<open>The tables are faithful to the symbol list\<close>

lemma buckets_upto:
  "k \<le> length syms \<Longrightarrow>
   (case foldl (bucket_push syms) Map.empty [0..<k] f of Some v \<Rightarrow> v | None \<Rightarrow> [])
     = filter (\<lambda>i. cs_file (syms ! i) = f) [0..<k]"
  by (induction k) (auto simp: bucket_push_def split: option.splits)

lemma file_symbols_np_new:
  "file_symbols (np_new syms) f = filter (\<lambda>i. cs_file (syms ! i) = f) [0..<length syms]"
  using buckets_upto [of "length syms"] by (simp add: file_symbols_def np_new_def)

lemma by_id_upto:
  "distinct (map cs_id syms) \<Longrightarrow> k \<le> length syms \<Longrightarrow> i < k \<Longrightarrow>
   foldl (\<lambda>m i. m(cs_id (syms ! i) \<mapsto> i)) Map.empty [0..<k] (cs_id (syms ! i)) = Some i"
proof (induction k)
  case (Suc k)
  then show ?case
    by (cases "i = k") (auto simp: distinct_conv_nth)
qed simp

lemma by_id_np_new:
  "distinct (map cs_id syms) \<Longrightarrow> i < length syms \<Longrightarrow>
   np_by_id (np_new syms) (cs_id (syms ! i)) = Some i"
  using by_id_upto [of syms "length syms" i] by (simp add: np_new_def index_by_id_def)

lemma sym_at_np_new:
  "distinct (map cs_id syms) \<Longrightarrow> s \<in> set syms \<Longrightarrow> sym_at syms (np_new syms) (cs_id s) = s"
  by (auto simp: in_set_conv_nth sym_at_def by_id_np_new)

lemma bucket_syms:
  "set (map (\<lambda>i. syms ! i) (file_symbols (np_new syms) f)) = {s \<in> set syms. cs_file s = f}"
  by (auto simp: file_symbols_np_new in_set_conv_nth)

section \<open>Ancestors\<close>

definition containment_key :: "code_symbol \<Rightarrow> int \<times> u32 \<times> bool" where
  "containment_key s = (- uint (cs_start_line s), cs_end_line s, is_container_kind (cs_kind s))"

lemma containment_key_mono:
  "strictly_contains a b \<Longrightarrow> containment_key b < containment_key a"
  using contains_range [of a b]
  by (auto simp: containment_key_def strictly_contains_def less_prod_def word_le_def
      word_uint_eq_iff split: if_splits)

definition ancestor_syms :: "code_symbol list \<Rightarrow> code_symbol \<Rightarrow> code_symbol list" where
  "ancestor_syms syms target =
     sort_key containment_key (filter (\<lambda>s. strictly_contains s target)
       (map (\<lambda>i. syms ! i) (file_symbols (np_new syms) (cs_file target))))"

lemma ancestors_eq: "ancestors_within_file syms (np_new syms) target = map cs_id (ancestor_syms syms target)"
  by (simp add: ancestors_within_file_def ancestor_syms_def containment_key_def [abs_def])

lemma set_ancestor_syms: "set (ancestor_syms syms target) = {s \<in> set syms. strictly_contains s target}"
  using bucket_syms [of syms "cs_file target"] contains_file
  by (auto simp: ancestor_syms_def)

lemma ancestor_syms_order:
  assumes "i < j" and "j < length (ancestor_syms syms target)"
  shows "\<not> strictly_contains (ancestor_syms syms target ! i) (ancestor_syms syms target ! j)"
proof -
  have "sorted (map containment_key (ancestor_syms syms target))"
    by (simp add: ancestor_syms_def)
  then have "containment_key (ancestor_syms syms target ! i) \<le> containment_key (ancestor_syms syms target ! j)"
    using assms by (metis (no_types, lifting) length_map nth_map order.strict_implies_order
        order.strict_trans sorted_nth_mono)
  then show ?thesis using containment_key_mono by (metis leD)
qed

section \<open>The name table answers as the scan does\<close>

text \<open>What the standard library documents of lower-casing: no ASCII capital is left.\<close>

definition lower_lawful :: "unicode \<Rightarrow> bool" where
  "lower_lawful U \<longleftrightarrow>
     (\<forall>s. \<not> is_ascii_str s \<longrightarrow> (\<forall>c \<in> set (uni_str_lower U s). \<not> is_ascii_upper c))"

definition lowered_seg :: "string \<Rightarrow> bool" where
  "lowered_seg s \<longleftrightarrow> (\<forall>c \<in> set s. \<not> is_ascii_upper c)"

lemma to_ascii_lower_not_upper: "\<not> is_ascii_upper (to_ascii_lower c)"
proof (cases "is_ascii_upper c")
  case True
  then have "byte c + 32 \<in> {0..<256}" by (simp add: is_ascii_upper_def)
  then have "byte (char_of (byte c + 32)) = byte c + 32" by simp
  with True show ?thesis by (simp add: to_ascii_lower_def is_ascii_upper_def)
qed (simp add: to_ascii_lower_def)

lemma lowered_seg_lower_once: "lower_lawful U \<Longrightarrow> lowered_seg (lower_once U s)"
  by (auto simp: lowered_seg_def lower_once_def to_lowercase_def lower_lawful_def
      ascii_lowercase_def to_ascii_lower_not_upper)

lemma lowered_seg_id: "lowered_seg s \<Longrightarrow> ascii_lowercase s = s"
  by (induction s) (auto simp: lowered_seg_def ascii_lowercase_def to_ascii_lower_def)

lemma windows_iff: "w \<in> set (windows k xs) \<longleftrightarrow> length w = k \<and> (\<exists>u v. xs = u @ w @ v)"
proof
  assume "w \<in> set (windows k xs)"
  then obtain i where i: "i < Suc (length xs) - k" "w = take k (drop i xs)"
    by (auto simp: windows_def)
  have "xs = take i xs @ w @ drop k (drop i xs)"
    by (metis append_take_drop_id i(2))
  moreover have "length w = k" using i by simp
  ultimately show "length w = k \<and> (\<exists>u v. xs = u @ w @ v)" by blast
next
  assume "length w = k \<and> (\<exists>u v. xs = u @ w @ v)"
  then obtain u v where w: "length w = k" "xs = u @ w @ v" by blast
  have "length u < Suc (length xs) - k" "w = take k (drop (length u) xs)"
    using w by auto
  then show "w \<in> set (windows k xs)" unfolding windows_def set_map set_upt by auto
qed

lemma windows_eq_ignore_case:
  "list_ex (\<lambda>w. eq_ignore_ascii_case w seg) (windows (length seg) n)
     \<longleftrightarrow> contains_sub (ascii_lowercase n) (ascii_lowercase seg)"
proof
  assume "list_ex (\<lambda>w. eq_ignore_ascii_case w seg) (windows (length seg) n)"
  then obtain w u v where "n = u @ w @ v" "ascii_lowercase w = ascii_lowercase seg"
    by (auto simp: list_ex_iff windows_iff eq_ignore_ascii_case_def)
  then have "ascii_lowercase n = ascii_lowercase u @ ascii_lowercase seg @ ascii_lowercase v"
    by (simp add: ascii_lowercase_def)
  then show "contains_sub (ascii_lowercase n) (ascii_lowercase seg)"
    unfolding contains_sub_iff by blast
next
  assume "contains_sub (ascii_lowercase n) (ascii_lowercase seg)"
  then obtain u v where "map to_ascii_lower n = u @ ascii_lowercase seg @ v"
    by (auto simp: contains_sub_iff ascii_lowercase_def)
  then obtain a bc where a: "n = a @ bc" "ascii_lowercase seg @ v = map to_ascii_lower bc"
    by (fastforce simp: map_eq_append_conv)
  from a(2) [symmetric] obtain b c where "bc = b @ c" "map to_ascii_lower b = ascii_lowercase seg"
    by (fastforce simp: map_eq_append_conv)
  with a have n: "n = a @ b @ c" "map to_ascii_lower b = ascii_lowercase seg" by simp_all
  then have "length b = length seg" by (metis ascii_lowercase_length length_map)
  then have "b \<in> set (windows (length seg) n)" using n by (auto simp: windows_iff)
  then show "list_ex (\<lambda>w. eq_ignore_ascii_case w seg) (windows (length seg) n)"
    using n by (auto simp: list_ex_iff eq_ignore_ascii_case_def ascii_lowercase_def)
qed

lemma name_matches_lower:
  assumes "lowered_seg seg"
  shows "name_matches U n seg sub
    = (if sub then contains_sub (to_lowercase U n) seg else to_lowercase U n = seg)"
proof (cases "is_ascii_str n \<and> is_ascii_str seg")
  case True
  moreover have "contains_sub x []" for x :: string
    unfolding contains_sub_iff by (metis append_Nil)
  ultimately show ?thesis
    using windows_eq_ignore_case [of seg n] lowered_seg_id [OF assms]
    by (auto simp: name_matches_def to_lowercase_def eq_ignore_ascii_case_def)
qed (auto simp: name_matches_def Let_def)

lemma sorted_fst_key: "sorted (map (\<lambda>i. (f i, g i)) xs) \<Longrightarrow> sorted (map f xs)"
  for f :: "'a \<Rightarrow> 'b::linorder" and g :: "'a \<Rightarrow> 'c::linorder"
  by (induction xs) (auto simp: less_eq_prod_def intro: less_imp_le)

lemma sorted_map_nth: "sorted (map f xs) \<Longrightarrow> i \<le> j \<Longrightarrow> j < length xs \<Longrightarrow> f (xs ! i) \<le> f (xs ! j)"
  using sorted_nth_mono [of "map f xs" i j] by simp

lemma takeWhile_least:
  fixes f :: "'a \<Rightarrow> 'b::linorder"
  assumes "sorted (map f ys)" and "\<forall>y\<in>set ys. x \<le> f y"
  shows "takeWhile (\<lambda>i. f i = x) ys = filter (\<lambda>i. f i = x) ys"
  using assms
proof (induction ys)
  case (Cons y ys)
  show ?case
  proof (cases "f y = x")
    case False
    then have "\<forall>z\<in>set ys. f z \<noteq> x" using Cons.prems by fastforce
    with False show ?thesis by (simp add: filter_empty_conv)
  qed (use Cons in simp)
qed simp

lemma partition_point_range:
  fixes f :: "'a \<Rightarrow> 'b::linorder" and x :: 'b and xs :: "'a list"
  assumes "sorted (map f xs)"
  defines "lo \<equiv> partition_point (\<lambda>i. f i < x) xs"
  shows "take (partition_point (\<lambda>i. f i = x) (drop lo xs)) (drop lo xs) = filter (\<lambda>i. f i = x) xs"
proof -
  have "lo = length (takeWhile (\<lambda>i. f i < x) xs)"
    unfolding lo_def
  proof (rule partition_point_eq)
    fix i j assume "i < j" "j < length xs" "f (xs ! j) < x"
    then show "f (xs ! i) < x" using sorted_map_nth [OF assms(1), of i j] by simp
  qed
  then have d: "drop lo xs = dropWhile (\<lambda>i. f i < x) xs"
    by (simp add: dropWhile_eq_drop [symmetric])
  let ?ys = "dropWhile (\<lambda>i. f i < x) xs"
  have ys: "sorted (map f ?ys)"
    using assms(1) by (metis d drop_map sorted_wrt_drop)
  have ge: "x \<le> f y" if y: "y \<in> set ?ys" for y
  proof (cases ?ys)
    case (Cons z zs)
    then have "\<not> f z < x" using hd_dropWhile [of "\<lambda>i. f i < x" xs] by (metis list.sel(1) list.discI)
    moreover have "f z \<le> f y" using ys y Cons by auto
    ultimately show ?thesis by simp
  qed (use y in \<open>simp del: dropWhile_eq_Nil_conv\<close>)
  have "partition_point (\<lambda>i. f i = x) ?ys = length (takeWhile (\<lambda>i. f i = x) ?ys)"
  proof (rule partition_point_eq)
    fix i j assume a: "i < j" "j < length ?ys" "f (?ys ! j) = x"
    then have "f (?ys ! i) \<le> x" using sorted_map_nth [OF ys, of i j] by simp
    moreover have "x \<le> f (?ys ! i)" using ge a by simp
    ultimately show "f (?ys ! i) = x" by simp
  qed
  then have "take (partition_point (\<lambda>i. f i = x) ?ys) ?ys = takeWhile (\<lambda>i. f i = x) ?ys"
    by (simp add: takeWhile_eq_take [symmetric])
  also have "\<dots> = filter (\<lambda>i. f i = x) ?ys"
    using takeWhile_least [OF ys] ge by blast
  also have "\<dots> = filter (\<lambda>i. f i = x) xs"
    by (induction xs) auto
  finally show ?thesis using d by simp
qed

lemma sorted_const_fst: "sorted (map (\<lambda>i. (x, i)) ys) \<Longrightarrow> sorted ys"
  for x :: "'a::linorder" and ys :: "'b::linorder list"
  by (induction ys) (auto simp: less_eq_prod_def)

lemma filter_positions_sorted:
  "filter (\<lambda>i. l ! i = x) (sort_key (\<lambda>i. (l ! i, i)) [0..<n]) = filter (\<lambda>i. l ! i = x) [0..<n]"
  for l :: "'a::linorder list"
proof (rule sorted_distinct_set_unique)
  let ?xs = "filter (\<lambda>i. l ! i = x) (sort_key (\<lambda>i. (l ! i, i)) [0..<n])"
  have eq: "map (\<lambda>i. (l ! i, i)) ?xs = map (\<lambda>i. (x, i)) ?xs" by simp
  have "sorted (map (\<lambda>i. (l ! i, i)) ?xs)"
    by (simp add: sorted_filter)
  then have "sorted (map (\<lambda>i. (x, i)) ?xs)" unfolding eq .
  then show "sorted ?xs" by (rule sorted_const_fst)
qed (auto simp: sorted_wrt_filter)

lemma nt_exact_filter:
  assumes "length syms < 2 ^ 32"
  shows "nt_exact (name_table_new U syms) x
    = filter (\<lambda>i. to_lowercase U (cs_name (syms ! i)) = x) [0..<length syms]"
proof -
  let ?l = "map (\<lambda>s. to_lowercase U (cs_name s)) syms"
  let ?xs = "sort_key (\<lambda>i. (?l ! i, i)) [0..<length syms]"
  have t: "name_table_new U syms = \<lparr>nt_lower = ?l, nt_sorted = ?xs\<rparr>"
    using assms by (simp add: name_table_new_def Let_def)
  have s: "sorted (map (\<lambda>i. ?l ! i) ?xs)"
    by (rule sorted_fst_key [where g = "\<lambda>i. i"]) simp
  have "nt_exact (name_table_new U syms) x = filter (\<lambda>i. ?l ! i = x) ?xs"
    using partition_point_range [OF s, of x] unfolding t nt_exact_def by (simp add: Let_def)
  also have "\<dots> = filter (\<lambda>i. ?l ! i = x) [0..<length syms]"
    by (rule filter_positions_sorted)
  also have "\<dots> = filter (\<lambda>i. to_lowercase U (cs_name (syms ! i)) = x) [0..<length syms]"
    by (rule filter_cong) auto
  finally show ?thesis .
qed

lemma nt_lower_new [simp]:
  "nt_lower (name_table_new U syms) = map (\<lambda>s. to_lowercase U (cs_name s)) syms"
  by (simp add: name_table_new_def Let_def)

lemma nt_matching_scan:
  assumes "length syms < 2 ^ 32" and "lowered_seg seg"
  shows "nt_matching (name_table_new U syms) seg sub
    = filter (\<lambda>i. name_matches U (cs_name (syms ! i)) seg sub) [0..<length syms]"
  using nt_exact_filter [OF assms(1)]
  by (auto simp: nt_matching_def name_matches_lower [OF assms(2)] intro: filter_cong)

lemma nt_any_scan:
  assumes "length syms < 2 ^ 32" and "lowered_seg seg"
  shows "nt_any_matches (name_table_new U syms) seg sub
    \<longleftrightarrow> list_ex (\<lambda>s. name_matches U (cs_name s) seg sub) syms"
  using nt_exact_filter [OF assms(1), of U seg]
  by (simp add: nt_any_matches_def name_matches_lower [OF assms(2)] list_ex_iff
      filter_empty_conv Bex_def in_set_conv_nth) blast

text \<open>A way of building the index whose lookups answer as the scan of the symbols does.\<close>

locale name_lookup =
  fixes build :: "unicode \<Rightarrow> code_symbol list \<Rightarrow> name_path_index"
  assumes build_ids: "np_by_id (build U syms) = np_by_id (np_new syms)"
    and build_buckets: "np_buckets (build U syms) = np_buckets (np_new syms)"
    and build_any: "lower_lawful U \<Longrightarrow> length syms < 2 ^ 32 \<Longrightarrow>
      any_named U syms (build U syms) sub t
        \<longleftrightarrow> list_ex (\<lambda>s. name_matches U (cs_name s) (lower_once U t) sub) syms"
    and build_candidates: "lower_lawful U \<Longrightarrow> length syms < 2 ^ 32 \<Longrightarrow>
      candidates U syms (build U syms) sub (lower_once U t)
        = filter (\<lambda>i. name_matches U (cs_name (syms ! i)) (lower_once U t) sub) [0..<length syms]"
begin

lemma hierarchy:
  "file_symbols (build U syms) = file_symbols (np_new syms)"
  "sym_at syms (build U syms) = sym_at syms (np_new syms)"
  by (intro ext, simp add: file_symbols_def build_buckets sym_at_def build_ids)+

lemma hierarchy_ops:
  "ancestors_within_file syms (build U syms) = ancestors_within_file syms (np_new syms)"
  "direct_children syms (build U syms) = direct_children syms (np_new syms)"
  "is_container syms (build U syms) = is_container syms (np_new syms)"
  by (intro ext, simp add: ancestors_within_file_def direct_children_def is_container_def
      hierarchy)+

lemma query_ops:
  "keeps U syms (build U syms) = keeps U syms (np_new syms)"
  "next_layer syms (build U syms) = next_layer syms (np_new syms)"
  "match_sort_key syms (build U syms) = match_sort_key syms (np_new syms)"
  by (intro ext, simp add: keeps_def chain_matches_def next_layer_def match_sort_key_def
      hierarchy hierarchy_ops)+

lemma lookups:
  assumes "lower_lawful U" and "length syms < 2 ^ 32"
  shows "any_named U syms (build U syms) sub = any_named U syms (np_new syms) sub"
    and "candidates U syms (build U syms) sub (lower_once U t)
      = candidates U syms (np_new syms) sub (lower_once U t)"
proof -
  have "np_names (np_new syms) = None" by (simp add: np_new_def)
  then show "any_named U syms (build U syms) sub = any_named U syms (np_new syms) sub"
    "candidates U syms (build U syms) sub (lower_once U t)
      = candidates U syms (np_new syms) sub (lower_once U t)"
    using build_any [OF assms] build_candidates [OF assms, of sub t]
    by (simp_all add: fun_eq_iff any_named_def [of U syms "np_new syms"]
        candidates_def [of U syms "np_new syms"] Let_def)
qed

lemma innermost: "innermost_containers_with syms (build U syms) = innermost_containers_with syms (np_new syms)"
  by (intro ext) (simp add: innermost_containers_with_def hierarchy_ops build_ids cong: list.case_cong)

end

interpretation scanned: name_lookup "\<lambda>U. np_new"
  by unfold_locales (auto simp: any_named_def candidates_def np_new_def)

interpretation tabled: name_lookup np_with_names
proof (unfold_locales, goal_cases)
  case (3 U syms sub t)
  then show ?case
    using nt_any_scan [of syms "lower_once U t" U sub] lowered_seg_lower_once
    by (simp add: any_named_def np_with_names_def)
next
  case (4 U syms sub t)
  then show ?case
    using nt_matching_scan [of syms "lower_once U t" U sub] lowered_seg_lower_once
    by (simp add: candidates_def np_with_names_def)
qed (simp_all add: np_with_names_def)

context name_lookup
begin

lemma match_same:
  assumes "lower_lawful U" and "length syms < 2 ^ 32"
  shows "match_name_path_with U syms (build U syms) q sub kind depth
    = match_name_path U syms q sub kind depth"
proof -
  have m: "matched_ids U syms (build U syms) sub r = matched_ids U syms (np_new syms) sub r"
    if "q_segments r \<noteq> []" for r
    using that by (simp add: matched_ids_def query_ops lookups [OF assms] last_map)
  have "q_segments (resolve_slashes named r) \<noteq> []" if "q_segments r \<noteq> []" for named r
    using that by (auto simp: resolve_slashes_def split: option.splits)
  moreover have "q_segments r \<noteq> []" if "parse_query q = Some r" for r
    using that by (auto simp: parse_query_def Let_def split: if_splits)
  ultimately show ?thesis
    by (auto simp: match_name_path_def match_name_path_with_def m query_ops hierarchy
        lookups [OF assms] Let_def split: option.splits)
qed

end

section \<open>The ancestor chain\<close>

lemma chain_find_Some:
  "chain_find hit tp n idx = Some k \<Longrightarrow>
   \<exists>i. k = Suc i \<and> idx \<le> i \<and> i < n \<and> hit i \<and> (tp \<longrightarrow> Suc i = n)"
proof (induction hit tp n idx rule: chain_find.induct)
  case (1 hit tp n idx)
  show ?case
  proof (cases "idx < n \<and> \<not> (hit idx \<and> \<not> (tp \<and> Suc idx \<noteq> n))")
    case True
    then have "chain_find hit tp n (Suc idx) = Some k"
      using "1.prems" by (simp add: chain_find.simps [of hit tp n idx] split: if_splits)
    then obtain i where "k = Suc i \<and> Suc idx \<le> i \<and> i < n \<and> hit i \<and> (tp \<longrightarrow> Suc i = n)"
      using "1.IH" True by blast
    then show ?thesis by (intro exI [of _ i]) simp
  next
    case False
    then show ?thesis
      using "1.prems" by (auto simp: chain_find.simps [of hit tp n idx] split: if_splits)
  qed
qed

lemma chain_find_first:
  "idx \<le> p \<Longrightarrow> p < n \<Longrightarrow> hit p \<Longrightarrow> (tp \<longrightarrow> Suc p = n) \<Longrightarrow>
   \<exists>k. chain_find hit tp n idx = Some k \<and> k \<le> Suc p"
proof (induction hit tp n idx rule: chain_find.induct)
  case (1 hit tp n idx)
  show ?case
  proof (cases "hit idx \<and> \<not> (tp \<and> Suc idx \<noteq> n)")
    case True
    then show ?thesis using "1.prems" by (simp add: chain_find.simps [of hit tp n idx])
  next
    case False
    then have "idx \<noteq> p" using "1.prems" by auto
    then have "\<exists>k. chain_find hit tp n (Suc idx) = Some k \<and> k \<le> Suc p"
      using "1.IH" False "1.prems" by auto
    then show ?thesis using False "1.prems" by (simp add: chain_find.simps [of hit tp n idx])
  qed
qed

text \<open>Positions of the chain, from the inside out, that carry the segments.\<close>

definition carries :: "(nat \<Rightarrow> string \<Rightarrow> bool) \<Rightarrow> bool \<Rightarrow> nat \<Rightarrow> nat \<Rightarrow> string list \<Rightarrow> nat list \<Rightarrow> bool" where
  "carries hit absolute n idx segs ps \<longleftrightarrow>
     sorted_wrt (<) ps \<and> (\<forall>p\<in>set ps. idx \<le> p \<and> p < n) \<and> list_all2 hit ps segs
     \<and> (absolute \<longrightarrow> Suc (last ps) = n)"

lemma chain_segs_sound:
  "chain_segs hit absolute n segs idx out = Some r \<Longrightarrow> segs \<noteq> [] \<Longrightarrow>
   \<exists>ps. carries hit absolute n idx segs ps \<and> r = Some (last ps)"
proof (induction segs arbitrary: idx out)
  case (Cons seg segs)
  then obtain k where k: "chain_find (\<lambda>i. hit i seg) (absolute \<and> segs = []) n idx = Some k"
    and rest: "chain_segs hit absolute n segs k (Some (k - 1)) = Some r"
    by (auto split: option.splits)
  obtain i where i: "k = Suc i" "idx \<le> i" "i < n" "hit i seg" "absolute \<and> segs = [] \<longrightarrow> Suc i = n"
    using chain_find_Some [OF k] by blast
  show ?case
  proof (cases "segs = []")
    case True
    with rest i show ?thesis by (intro exI [of _ "[i]"]) (auto simp: carries_def)
  next
    case False
    then obtain ps where ps: "carries hit absolute n k segs ps" "r = Some (last ps)"
      using Cons.IH [OF rest] by blast
    then have "ps \<noteq> []" using False by (auto simp: carries_def)
    with ps i show ?thesis by (intro exI [of _ "i # ps"]) (fastforce simp: carries_def)
  qed
qed simp

lemma chain_segs_complete:
  "carries hit absolute n idx segs ps \<Longrightarrow> segs \<noteq> [] \<Longrightarrow>
   \<exists>r. chain_segs hit absolute n segs idx out = Some r"
proof (induction segs arbitrary: idx out ps)
  case (Cons seg segs)
  obtain p qs where ps: "ps = p # qs" "hit p seg" "list_all2 hit qs segs"
    using Cons.prems by (auto simp: carries_def list_all2_Cons2)
  have p: "idx \<le> p" "p < n" "\<forall>q\<in>set qs. p < q \<and> q < n" "absolute \<and> segs = [] \<longrightarrow> Suc p = n"
    using Cons.prems ps by (auto simp: carries_def)
  obtain k where k: "chain_find (\<lambda>i. hit i seg) (absolute \<and> segs = []) n idx = Some k" "k \<le> Suc p"
    using chain_find_first [of idx p n "\<lambda>i. hit i seg" "absolute \<and> segs = []"] p(1,2,4) ps(2)
    by auto
  show ?case
  proof (cases "segs = []")
    case False
    then have "qs \<noteq> []" using ps by auto
    then have "carries hit absolute n k segs qs"
      using Cons.prems ps p k by (auto simp: carries_def)
    with Cons.IH False k show ?thesis by simp
  qed (use k in simp)
qed simp

definition chain_hit :: "unicode \<Rightarrow> code_symbol list \<Rightarrow> code_symbol \<Rightarrow> nat \<Rightarrow> string \<Rightarrow> bool" where
  "chain_hit U syms target i seg = name_matches U (cs_name (ancestor_syms syms target ! i)) seg False"

lemma chain_segs_cong:
  assumes "\<And>i seg. i < n \<Longrightarrow> hit i seg = hit' i seg"
  shows "chain_segs hit absolute n segs idx out = chain_segs hit' absolute n segs idx out"
proof -
  have fc: "chain_find hit tp n idx = chain_find hit' tp n idx"
    if "\<And>i. i < n \<Longrightarrow> hit i = hit' i" for hit hit' tp idx
    using that
  proof (induction hit tp n idx rule: chain_find.induct)
    case (1 hit tp n idx)
    then show ?case
      by (cases "idx < n") (auto simp: chain_find.simps [of hit tp n idx] chain_find.simps [of hit' tp n idx])
  qed
  have find: "chain_find (\<lambda>i. hit i seg) tp n idx = chain_find (\<lambda>i. hit' i seg) tp n idx" for seg tp idx
    by (rule fc) (simp add: assms)
  show ?thesis
    by (induction segs arbitrary: idx out) (auto simp: find split: option.splits)
qed

lemma chain_matches_iff:
  assumes "distinct (map cs_id syms)" and "segs \<noteq> []"
  shows "chain_matches U syms (np_new syms) target segs absolute \<longleftrightarrow>
    (\<exists>ps. carries (chain_hit U syms target) absolute (length (ancestor_syms syms target)) 0 (rev segs) ps)"
proof -
  let ?A = "ancestor_syms syms target"
  let ?n = "length ?A"
  have hit: "sym_at syms (np_new syms) (cs_id (?A ! i)) = ?A ! i" if "i < ?n" for i
    using that sym_at_np_new [OF assms(1), of "?A ! i"] set_ancestor_syms [of syms target] nth_mem [OF that]
    by simp
  let ?r = "chain_segs (chain_hit U syms target) absolute ?n (rev segs) 0 None"
  have eq: "chain_matches U syms (np_new syms) target segs absolute
    = (case ?r of None \<Rightarrow> False | Some (Some i) \<Rightarrow> \<not> absolute \<or> i + 1 = ?n | Some None \<Rightarrow> False)"
    unfolding chain_matches_def Let_def ancestors_eq length_map
    by (subst chain_segs_cong [where hit' = "chain_hit U syms target"])
       (simp_all add: chain_hit_def hit)
  show ?thesis
  proof
    assume "chain_matches U syms (np_new syms) target segs absolute"
    then obtain r where "?r = Some r" unfolding eq by (auto split: option.splits)
    then show "\<exists>ps. carries (chain_hit U syms target) absolute ?n 0 (rev segs) ps"
      using chain_segs_sound assms(2) by blast
  next
    assume "\<exists>ps. carries (chain_hit U syms target) absolute ?n 0 (rev segs) ps"
    then obtain r where r: "?r = Some r"
      using chain_segs_complete [where segs = "rev segs"] assms(2) by blast
    then obtain ps where "carries (chain_hit U syms target) absolute ?n 0 (rev segs) ps" "r = Some (last ps)"
      using chain_segs_sound [OF r] assms(2) by blast
    with r show "chain_matches U syms (np_new syms) target segs absolute"
      unfolding eq by (simp add: carries_def)
  qed
qed

section \<open>Descendants\<close>

definition least_in :: "nat \<Rightarrow> nat set \<Rightarrow> bool" where
  "least_in e A \<longleftrightarrow> e \<in> A \<and> (\<forall>a\<in>A. e \<le> a)"

lemma least_in_union:
  assumes "\<And>e. r = Some e \<longleftrightarrow> least_in e A"
  shows "least_in e (set_option r \<union> B) \<longleftrightarrow> least_in e (A \<union> B)"
proof (cases "A = {}")
  case True
  then have "r = None" using assms by (cases r) (auto simp: least_in_def)
  with True show ?thesis by simp
next
  case False
  then obtain a where "a \<in> A" by blast
  then have "least_in (LEAST x. x \<in> A) A"
    unfolding least_in_def by (auto intro: LeastI Least_le)
  then obtain m where m: "r = Some m" "least_in m A" using assms by blast
  then show ?thesis unfolding least_in_def
    by (auto intro: order_trans order_antisym)
qed

lemma map_of_note_depth:
  "map_of (note_depth d m c) x = Some e \<longleftrightarrow>
     least_in e (set_option (map_of m x) \<union> {d' . d' = d \<and> x = c})"
  by (auto simp: note_depth_def update_conv least_in_def split: option.splits if_splits)

lemma map_of_note_depths:
  "map_of (foldl (note_depth d) m cs) x = Some e \<longleftrightarrow>
     least_in e (set_option (map_of m x) \<union> {d' . d' = d \<and> x \<in> set cs})"
proof (induction cs arbitrary: m e)
  case (Cons c cs)
  have eq: "set_option (map_of m x) \<union> {d'. d' = d \<and> x = c} \<union> {d'. d' = d \<and> x \<in> set cs}
    = set_option (map_of m x) \<union> {d'. d' = d \<and> x \<in> set (c # cs)}" by auto
  have "map_of (foldl (note_depth d) m (c # cs)) x = Some e \<longleftrightarrow>
      least_in e (set_option (map_of (note_depth d m c) x) \<union> {d' . d' = d \<and> x \<in> set cs})"
    using Cons.IH by simp
  also have "\<dots> \<longleftrightarrow> least_in e (set_option (map_of m x) \<union> {d'. d' = d \<and> x = c}
      \<union> {d'. d' = d \<and> x \<in> set cs})"
    by (rule least_in_union) (rule map_of_note_depth)
  finally show ?case unfolding eq .
qed (auto simp: least_in_def)

text \<open>The depths at which the rounds from layer \<open>ids\<close> meet \<open>x\<close>.\<close>

definition met_at :: "(symbol_id list \<Rightarrow> symbol_id list) \<Rightarrow> nat \<Rightarrow> nat \<Rightarrow> symbol_id list \<Rightarrow> symbol_id \<Rightarrow> nat set" where
  "met_at nxt d k ids x = {d + j |j. j < k \<and> x \<in> set ((nxt ^^ Suc j) ids)}"

lemma met_at_Suc:
  "met_at nxt d (Suc k) ids x = {d' . d' = d \<and> x \<in> set (nxt ids)} \<union> met_at nxt (Suc d) k (nxt ids) x"
proof (rule set_eqI)
  fix e
  have "e \<in> met_at nxt d (Suc k) ids x \<longleftrightarrow> d \<le> e \<and> e - d < Suc k \<and> x \<in> set ((nxt ^^ (e - d)) (nxt ids))"
    by (auto simp: met_at_def funpow_Suc_right simp del: funpow.simps intro!: exI [of _ "e - d"])
  moreover have "e \<in> met_at nxt (Suc d) k (nxt ids) x
      \<longleftrightarrow> Suc d \<le> e \<and> e - Suc d < k \<and> x \<in> set ((nxt ^^ Suc (e - Suc d)) (nxt ids))"
    by (auto simp: met_at_def simp del: funpow.simps intro!: exI [of _ "e - Suc d"])
  moreover have "Suc (e - Suc d) = e - d" if "Suc d \<le> e" using that by simp
  ultimately show "e \<in> met_at nxt d (Suc k) ids x
      \<longleftrightarrow> e \<in> {d' . d' = d \<and> x \<in> set (nxt ids)} \<union> met_at nxt (Suc d) k (nxt ids) x"
    by (cases "Suc d \<le> e"; cases "e = d") (auto simp del: funpow.simps)
qed

lemma funpow_Nil: "nxt [] = [] \<Longrightarrow> (nxt ^^ j) [] = []"
  for nxt :: "'a list \<Rightarrow> 'a list"
  by (induction j) auto

lemma map_of_expand_layers:
  assumes "nxt [] = []"
  shows "map_of (expand_layers nxt d k ids m) x = Some e \<longleftrightarrow>
    least_in e (set_option (map_of m x) \<union> met_at nxt d k ids x)"
proof (induction k arbitrary: d ids m e)
  case 0
  then show ?case by (auto simp: met_at_def least_in_def)
next
  case (Suc k)
  have none: "met_at nxt d' k [] x = {}" for d'
    using funpow_Nil [of nxt] assms by (auto simp: met_at_def simp del: funpow.simps)
  let ?m = "foldl (note_depth d) m (nxt ids)"
  have "map_of (expand_layers nxt d (Suc k) ids m) x = Some e \<longleftrightarrow>
      least_in e (set_option (map_of ?m x) \<union> met_at nxt (Suc d) k (nxt ids) x)"
  proof (cases "nxt ids = []")
    case True
    then show ?thesis by (auto simp: none least_in_def)
  qed (simp add: Suc.IH Let_def)
  also have "\<dots> \<longleftrightarrow> least_in e (set_option (map_of m x) \<union> {d'. d' = d \<and> x \<in> set (nxt ids)}
      \<union> met_at nxt (Suc d) k (nxt ids) x)"
    by (rule least_in_union) (rule map_of_note_depths)
  finally show ?case by (simp only: met_at_Suc Un_assoc)
qed

lemma map_of_expand_all:
  assumes "nxt [] = []" and "0 < depth"
  shows "map_of (foldl (expand_one nxt depth) m ids) x = Some e \<longleftrightarrow>
    least_in e (set_option (map_of m x) \<union> (\<Union>i\<in>set ids. met_at nxt 1 depth [i] x))"
proof (induction ids arbitrary: m e)
  case (Cons i ids)
  have one: "map_of (expand_one nxt depth m i) x = Some e \<longleftrightarrow>
      least_in e (set_option (map_of m x) \<union> met_at nxt 1 depth [i] x)" for m e
    using assms(2) map_of_expand_layers [of nxt, OF assms(1)] by (simp add: expand_one_def)
  have "map_of (foldl (expand_one nxt depth) m (i # ids)) x = Some e \<longleftrightarrow>
      least_in e (set_option (map_of (expand_one nxt depth m i) x)
        \<union> (\<Union>i\<in>set ids. met_at nxt 1 depth [i] x))"
    using Cons.IH by simp
  also have "\<dots> \<longleftrightarrow> least_in e (set_option (map_of m x) \<union> met_at nxt 1 depth [i] x
      \<union> (\<Union>i\<in>set ids. met_at nxt 1 depth [i] x))"
    by (rule least_in_union) (rule one)
  finally show ?case by (simp add: Un_assoc)
qed (auto simp: least_in_def)

lemma distinct_keys:
  "distinct (map fst m) \<Longrightarrow> distinct (map fst (foldl (note_depth d) m cs))"
  by (induction cs arbitrary: m) (auto simp: note_depth_def distinct_update split: option.splits)

lemma distinct_keys_expand:
  "distinct (map fst m) \<Longrightarrow> distinct (map fst (expand_layers nxt d k ids m))"
  by (induction k arbitrary: d ids m) (auto simp: distinct_keys Let_def)

lemma distinct_keys_all:
  "distinct (map fst m) \<Longrightarrow> distinct (map fst (foldl (expand_one nxt depth) m ids))"
  by (induction ids arbitrary: m) (auto simp: expand_one_def distinct_keys_expand distinct_update)

section \<open>The direct-child relation generates containment\<close>

definition child_rel :: "code_symbol list \<Rightarrow> name_path_index \<Rightarrow> (symbol_id \<times> symbol_id) set" where
  "child_rel syms idx = {(a, b). b \<in> set (direct_children syms idx (sym_at syms idx a))}"

lemma next_layer_set: "set (next_layer syms idx ids) = child_rel syms idx `` set ids"
  by (auto simp: next_layer_def child_rel_def)

lemma next_layers_set: "set ((next_layer syms idx ^^ n) ids) = (child_rel syms idx ^^ n) `` set ids"
  by (induction n) (auto simp: next_layer_set)

lemma met_at_child:
  "(\<Union>i\<in>set ids. met_at (next_layer syms idx) 1 depth [i] x)
    = {j. 1 \<le> j \<and> j \<le> depth \<and> (\<exists>i\<in>set ids. (i, x) \<in> child_rel syms idx ^^ j)}"
proof -
  have "met_at (next_layer syms idx) 1 depth [i] x
      = {j. 1 \<le> j \<and> j \<le> depth \<and> (i, x) \<in> child_rel syms idx ^^ j}" for i
  proof (rule set_eqI)
    fix j
    show "j \<in> met_at (next_layer syms idx) 1 depth [i] x
        \<longleftrightarrow> j \<in> {j. 1 \<le> j \<and> j \<le> depth \<and> (i, x) \<in> child_rel syms idx ^^ j}"
      unfolding met_at_def next_layers_set
      by (cases j) (auto simp: Suc_le_eq)
  qed
  then show ?thesis by auto
qed

lemma direct_children_np_new:
  "set (direct_children syms (np_new syms) p) = cs_id ` {s \<in> set syms. strictly_contains p s
     \<and> \<not> (\<exists>mid\<in>set syms. strictly_contains p mid \<and> strictly_contains mid s)}"
proof -
  let ?b = "map (\<lambda>i. syms ! i) (file_symbols (np_new syms) (cs_file p))"
  have "set (filter (strictly_contains p) ?b) = {s \<in> set syms. strictly_contains p s}"
    unfolding set_filter bucket_syms by (auto dest: contains_file)
  then show ?thesis
    unfolding direct_children_def Let_def set_map set_filter list_ex_iff by auto
qed

lemma child_rel_iff:
  assumes "distinct (map cs_id syms)" and "a \<in> set syms"
  shows "(cs_id a, x) \<in> child_rel syms (np_new syms) \<longleftrightarrow>
    (\<exists>b\<in>set syms. x = cs_id b \<and> strictly_contains a b
      \<and> \<not> (\<exists>mid\<in>set syms. strictly_contains a mid \<and> strictly_contains mid b))"
  unfolding child_rel_def using sym_at_np_new [OF assms] direct_children_np_new by auto

lemma contained_reached:
  assumes "distinct (map cs_id syms)" and "a \<in> set syms" and "b \<in> set syms" and "strictly_contains a b"
  shows "(cs_id a, cs_id b) \<in> (child_rel syms (np_new syms))\<^sup>+"
  using assms(2-)
proof (induction "card {m \<in> set syms. strictly_contains a m \<and> strictly_contains m b}"
    arbitrary: a b rule: less_induct)
  case less
  let ?M = "\<lambda>a b. {m \<in> set syms. strictly_contains a m \<and> strictly_contains m b}"
  show ?case
  proof (cases "?M a b = {}")
    case True
    then have "(cs_id a, cs_id b) \<in> child_rel syms (np_new syms)"
      using less.prems child_rel_iff [OF assms(1), of a] by blast
    then show ?thesis by blast
  next
    case False
    then obtain m where m: "m \<in> set syms" "strictly_contains a m" "strictly_contains m b" by blast
    have "?M a m \<subset> ?M a b" "?M m b \<subset> ?M a b"
      using m contains_trans contains_irrefl by blast+
    then have "card (?M a m) < card (?M a b)" "card (?M m b) < card (?M a b)"
      by (simp_all add: psubset_card_mono)
    then have "(cs_id a, cs_id m) \<in> (child_rel syms (np_new syms))\<^sup>+"
      "(cs_id m, cs_id b) \<in> (child_rel syms (np_new syms))\<^sup>+"
      using less.hyps less.prems m by blast+
    then show ?thesis by (rule trancl_trans)
  qed
qed

lemma reached_contained:
  assumes "distinct (map cs_id syms)" and "(cs_id a, x) \<in> (child_rel syms (np_new syms))\<^sup>+" and "a \<in> set syms"
  shows "\<exists>b\<in>set syms. x = cs_id b \<and> strictly_contains a b"
  using assms(2)
proof (induction rule: trancl_induct)
  case (base y)
  then show ?case using child_rel_iff [OF assms(1,3)] by blast
next
  case (step y z)
  then obtain b where b: "b \<in> set syms" "y = cs_id b" "strictly_contains a b" by blast
  with step(2) child_rel_iff [OF assms(1) b(1)] contains_trans show ?case by blast
qed

section \<open>Properties\<close>

text \<open>The hierarchy is well formed.  Containment of line ranges is a strict partial order on the
  symbols, the ancestors of a symbol are exactly the symbols that contain it, listed so that none
  contains a later one, and the container reported for a symbol is an innermost one.\<close>

lemma innermost_container_minimal:
  assumes "distinct (map cs_id syms)" and "t < length syms"
  shows "case innermost_containers syms [t] of
      [Some i] \<Rightarrow> i < length syms \<and> strictly_contains (syms ! i) (syms ! t)
        \<and> \<not> (\<exists>m\<in>set syms. strictly_contains (syms ! i) m \<and> strictly_contains m (syms ! t))
    | [None] \<Rightarrow> \<not> (\<exists>m\<in>set syms. strictly_contains m (syms ! t))
    | _ \<Rightarrow> False"
proof (cases "ancestor_syms syms (syms ! t)")
  case Nil
  then show ?thesis
    using set_ancestor_syms [of syms "syms ! t"]
    by (simp add: innermost_containers_def innermost_containers_with_def ancestors_eq)
next
  case (Cons a as)
  then have a: "a \<in> set syms" "strictly_contains a (syms ! t)"
    using set_ancestor_syms [of syms "syms ! t"] by auto
  then obtain i where i: "i < length syms" "syms ! i = a" by (auto simp: in_set_conv_nth)
  have "\<not> (strictly_contains a m \<and> strictly_contains m (syms ! t))" if "m \<in> set syms" for m
  proof
    assume m: "strictly_contains a m \<and> strictly_contains m (syms ! t)"
    then have "m \<in> set (ancestor_syms syms (syms ! t))" using that set_ancestor_syms by blast
    then obtain j where j: "j < length (ancestor_syms syms (syms ! t))" "ancestor_syms syms (syms ! t) ! j = m"
      by (auto simp: in_set_conv_nth)
    show False
    proof (cases j)
      case 0
      with j m Cons show ?thesis by simp
    next
      case (Suc k)
      with ancestor_syms_order [OF _ j(1), of 0] j m Cons show ?thesis by simp
    qed
  qed
  moreover have "np_by_id (np_new syms) (cs_id a) = Some i"
    using by_id_np_new [OF assms(1) i(1)] i(2) by simp
  ultimately show ?thesis
    using Cons a i by (auto simp: innermost_containers_def innermost_containers_with_def ancestors_eq)
qed

text \<open>A class with two methods, for the concrete instances.\<close>

definition demo_syms :: "code_symbol list" where
  "demo_syms =
     [\<lparr>cs_id = SymbolId 0, cs_file = FileId 0, cs_name = ''Cart'', cs_kind = Class,
       cs_signature = [], cs_start_line = 1, cs_end_line = 9, cs_exported = True\<rparr>,
      \<lparr>cs_id = SymbolId 1, cs_file = FileId 0, cs_name = ''addItem'', cs_kind = Method,
       cs_signature = [], cs_start_line = 2, cs_end_line = 4, cs_exported = True\<rparr>,
      \<lparr>cs_id = SymbolId 2, cs_file = FileId 0, cs_name = ''total'', cs_kind = Method,
       cs_signature = [], cs_start_line = 5, cs_end_line = 8, cs_exported = True\<rparr>]"

lemma lower_lawful_ascii_tables: "lower_lawful ascii_tables"
  by (auto simp: lower_lawful_def ascii_tables_def ascii_lowercase_def to_ascii_lower_not_upper)

lemma demo_distinct: "distinct (map cs_id demo_syms)" "length demo_syms = 3"
  by (simp_all add: demo_syms_def)

lemma innermost_container_minimal_witness:
  "distinct (map cs_id demo_syms) \<and> 1 < length demo_syms \<and>
   (case innermost_containers demo_syms [1] of
      [Some i] \<Rightarrow> i < length demo_syms \<and> strictly_contains (demo_syms ! i) (demo_syms ! 1)
        \<and> \<not> (\<exists>m\<in>set demo_syms. strictly_contains (demo_syms ! i) m \<and> strictly_contains m (demo_syms ! 1))
    | [None] \<Rightarrow> \<not> (\<exists>m\<in>set demo_syms. strictly_contains m (demo_syms ! 1))
    | _ \<Rightarrow> False)"
  using innermost_container_minimal [of demo_syms 1] demo_distinct by simp

text \<open>A query over an index with the name table (binary search of the lower-cased names)
  answers exactly as a query over the plain index (a scan of the symbols comparing names),
  whatever the query, the substring flag, the kind filter and the depth.\<close>

lemma name_table_agrees_with_scan:
  assumes "lower_lawful U" and "length syms < 2 ^ 32"
  shows "match_name_path_with U syms (np_with_names U syms) q sub kind depth
    = match_name_path U syms q sub kind depth"
  by (rule tabled.match_same [OF assms])

lemma name_table_agrees_with_scan_witness:
  "lower_lawful ascii_tables \<and> length demo_syms < 2 ^ 32 \<and>
   match_name_path_with ascii_tables demo_syms (np_with_names ascii_tables demo_syms)
     ''Cart/additem'' False (KindFilter None) 0
   = match_name_path ascii_tables demo_syms ''Cart/additem'' False (KindFilter None) 0"
  using name_table_agrees_with_scan [OF lower_lawful_ascii_tables, of demo_syms] demo_distinct
    lower_lawful_ascii_tables by simp

text \<open>The greedy scan for the ancestor segments is complete.  A symbol passes exactly when some
  strictly increasing positions of its ancestor chain (innermost first) carry the segments from the
  last to the first, ending at the top of the chain when the path is absolute.\<close>

lemma chain_matches_exact:
  assumes "distinct (map cs_id syms)" and "segs \<noteq> []"
  shows "chain_matches U syms (np_new syms) target segs absolute \<longleftrightarrow>
    (\<exists>ps. sorted_wrt (<) ps \<and> (\<forall>p\<in>set ps. p < length (ancestor_syms syms target))
      \<and> list_all2 (\<lambda>p seg. name_matches U (cs_name (ancestor_syms syms target ! p)) seg False) ps (rev segs)
      \<and> (absolute \<longrightarrow> Suc (last ps) = length (ancestor_syms syms target)))"
  using chain_matches_iff [OF assms] by (simp add: carries_def chain_hit_def [abs_def])

lemma chain_matches_exact_witness:
  "distinct (map cs_id demo_syms) \<and> [''cart''] \<noteq> [] \<and>
   (\<exists>ps. sorted_wrt (<) ps \<and> (\<forall>p\<in>set ps. p < length (ancestor_syms demo_syms (demo_syms ! 1)))
      \<and> list_all2 (\<lambda>p seg. name_matches ascii_tables
             (cs_name (ancestor_syms demo_syms (demo_syms ! 1) ! p)) seg False) ps (rev [''cart''])
      \<and> (True \<longrightarrow> Suc (last ps) = length (ancestor_syms demo_syms (demo_syms ! 1))))"
proof -
  have "chain_matches ascii_tables demo_syms (np_new demo_syms) (demo_syms ! 1) [''cart''] True"
    by code_simp
  then show ?thesis
    using chain_matches_exact [of demo_syms "[''cart'']" ascii_tables "demo_syms ! 1" True] demo_distinct
    by simp
qed

text \<open>Expansion to descendants.  With a positive depth the answer holds exactly the accepted
  symbols within \<open>depth\<close> direct-child steps of a matched one, each at its least distance; and the
  direct-child steps generate containment, so no contained symbol is out of reach.\<close>

lemma match_depth_least:
  assumes "distinct (map cs_id syms)" and "0 < unat depth" and "parse_query q = Some q0"
    and "matched = matched_ids U syms (np_new syms) sub
                     (resolve_slashes (any_named U syms (np_new syms) sub) q0)"
  shows "(\<forall>m. m \<in> set (match_name_path U syms q sub kind depth) \<longleftrightarrow>
      accepts kind (sym_at syms (np_new syms) (npm_symbol m))
      \<and> least_in (npm_depth m) {j. 1 \<le> j \<and> j \<le> unat depth
           \<and> (\<exists>i\<in>set matched. (i, npm_symbol m) \<in> child_rel syms (np_new syms) ^^ j)})
    \<and> (\<forall>a\<in>set syms. \<forall>b\<in>set syms.
      (cs_id a, cs_id b) \<in> (child_rel syms (np_new syms))\<^sup>+ \<longleftrightarrow> strictly_contains a b)"
proof (intro conjI allI ballI)
  fix m
  let ?nxt = "next_layer syms (np_new syms)"
  let ?tbl = "foldl (expand_one ?nxt (unat depth)) [] matched"
  have "distinct (map fst ?tbl)" by (rule distinct_keys_all) simp
  then have tbl: "(x, e) \<in> set ?tbl \<longleftrightarrow> map_of ?tbl x = Some e" for x e
    by (metis map_of_is_SomeI map_of_SomeD)
  have nil: "?nxt [] = []" by (simp add: next_layer_def)
  have look: "(x, e) \<in> set ?tbl \<longleftrightarrow> least_in e {j. 1 \<le> j \<and> j \<le> unat depth
           \<and> (\<exists>i\<in>set matched. (i, x) \<in> child_rel syms (np_new syms) ^^ j)}" for x e
    unfolding tbl map_of_expand_all [of ?nxt, OF nil assms(2)] met_at_child by simp
  have "m \<in> set (match_name_path U syms q sub kind depth) \<longleftrightarrow>
      accepts kind (sym_at syms (np_new syms) (npm_symbol m)) \<and> (npm_symbol m, npm_depth m) \<in> set ?tbl"
    unfolding match_name_path_def match_name_path_with_def assms(3,4)
    by (cases m) (force simp: Let_def)
  then show "m \<in> set (match_name_path U syms q sub kind depth) \<longleftrightarrow>
      accepts kind (sym_at syms (np_new syms) (npm_symbol m))
      \<and> least_in (npm_depth m) {j. 1 \<le> j \<and> j \<le> unat depth
           \<and> (\<exists>i\<in>set matched. (i, npm_symbol m) \<in> child_rel syms (np_new syms) ^^ j)}"
    unfolding look .
next
  fix a b assume ab: "a \<in> set syms" "b \<in> set syms"
  have inj: "cs_id x = cs_id y \<longleftrightarrow> x = y" if "x \<in> set syms" "y \<in> set syms" for x y
    using assms(1) that by (auto simp: distinct_map dest: inj_onD)
  show "(cs_id a, cs_id b) \<in> (child_rel syms (np_new syms))\<^sup>+ \<longleftrightarrow> strictly_contains a b"
    using contained_reached [OF assms(1) ab] reached_contained [OF assms(1) _ ab(1)] inj ab by metis
qed

lemma demo_query:
  "parse_query ''cart'' = Some \<lparr>q_segments = [''cart''], q_absolute = False, q_trailing = False, q_whole = ''cart''\<rparr>"
  by code_simp

lemma match_depth_least_witness:
  "0 < unat (1::u8) \<and>
   (\<exists>matched.
    (\<forall>m. m \<in> set (match_name_path ascii_tables demo_syms ''cart'' False (KindFilter None) 1) \<longleftrightarrow>
      accepts (KindFilter None) (sym_at demo_syms (np_new demo_syms) (npm_symbol m))
      \<and> least_in (npm_depth m) {j. 1 \<le> j \<and> j \<le> unat (1::u8)
           \<and> (\<exists>i\<in>set matched. (i, npm_symbol m) \<in> child_rel demo_syms (np_new demo_syms) ^^ j)})
    \<and> (\<forall>a\<in>set demo_syms. \<forall>b\<in>set demo_syms.
      (cs_id a, cs_id b) \<in> (child_rel demo_syms (np_new demo_syms))\<^sup>+ \<longleftrightarrow> strictly_contains a b))"
  by (rule conjI, simp, rule exI)
     (rule match_depth_least [OF demo_distinct(1) _ demo_query refl], simp)

end
