(* ===== verification/Pool.thy ===== *)
theory Pool
  imports Languages "HOL-Library.Multiset"
begin

text \<open>
  The language-server pool (\<open>astrolabe-core/src/lsp/pool.rs\<close>): one slot per language holding at
  most one running server, the checkouts (guards) that keep it alive, on-demand start with
  cooldown, reclaim by idle time and memory, retirement after crashes and timeouts with a
  back-off, and the re-send of one request after an exit.  Every critical section under the slot
  lock is one function on the slot; the interleavings of threads are the step relation of the
  second half.  Instants and durations are nanoseconds; a server is identified by its \<open>Arc\<close>.
\<close>

type_synonym server = nat

datatype lsp_error =
  Unavailable language string | Startup language string | TimeoutErr nat | ContentModified
| Protocol string | Crashed

section \<open>Configuration\<close>

definition pool_second :: nat where "pool_second = 1000000000"

definition gib :: nat where "gib = 1024 * 1024 * 1024"

record pool_config =
  pc_idle_ttl :: nat
  pc_ready_timeout :: nat
  pc_memory_limit :: nat
  pc_memory_hard_limit :: nat
  pc_start_cooldown :: nat
  pc_monitor_interval :: nat

definition default_pool_config :: pool_config where
  "default_pool_config =
     \<lparr>pc_idle_ttl = 300 * pool_second, pc_ready_timeout = 120 * pool_second,
      pc_memory_limit = 2 * gib, pc_memory_hard_limit = 4 * gib,
      pc_start_cooldown = 60 * pool_second, pc_monitor_interval = 10 * pool_second\<rparr>"

definition busy_idle_grace :: nat where "busy_idle_grace = 3600 * pool_second"
definition install_pending_retry :: nat where "install_pending_retry = 2 * pool_second"
definition wedged_after_timeouts :: nat where "wedged_after_timeouts = 3"
definition crash_loop_window :: nat where "crash_loop_window = 60 * pool_second"
definition crash_backoff_base :: nat where "crash_backoff_base = 2 * pool_second"
definition install_pending :: string where "install_pending = ''auto-install in progress''"

text \<open>\<open>cap\<close> is \<open>slow_import_ready_cap()\<close>, which the environment can override.\<close>

definition config_for :: "nat \<Rightarrow> pool_config \<Rightarrow> language \<Rightarrow> pool_config" where
  "config_for cap config lang =
     (if lang = Kotlin then
        let c1 = (if 0 < pc_memory_limit config
                  then config\<lparr>pc_memory_limit := max (pc_memory_limit config) (4 * gib)\<rparr> else config);
            c2 = (if 0 < pc_memory_hard_limit c1
                  then c1\<lparr>pc_memory_hard_limit := max (pc_memory_hard_limit c1) (6 * gib)\<rparr> else c1)
        in c2\<lparr>pc_ready_timeout := min (pc_ready_timeout c2) cap\<rparr>
      else config)"

section \<open>Reclaim predicates\<close>

definition idle_expired :: "pool_config \<Rightarrow> nat \<Rightarrow> bool \<Rightarrow> bool" where
  "idle_expired config idle_for busy =
     (if pc_idle_ttl config = 0 then False
      else (let ttl = (if busy then max (pc_idle_ttl config) busy_idle_grace else pc_idle_ttl config)
            in ttl \<le> idle_for))"

definition memory_over_budget :: "pool_config \<Rightarrow> nat option \<Rightarrow> bool \<Rightarrow> bool" where
  "memory_over_budget config memory busy =
     (case memory of None \<Rightarrow> False
      | Some bytes \<Rightarrow>
          let limit = (if busy then pc_memory_hard_limit config else pc_memory_limit config)
          in 0 < limit \<and> limit \<le> bytes)"

definition should_reclaim :: "pool_config \<Rightarrow> nat \<Rightarrow> nat option \<Rightarrow> bool \<Rightarrow> bool" where
  "should_reclaim config idle_for memory busy \<longleftrightarrow>
     idle_expired config idle_for busy \<or> memory_over_budget config memory busy"

definition reclaim_reason :: "pool_config \<Rightarrow> nat \<Rightarrow> nat option \<Rightarrow> bool \<Rightarrow> string" where
  "reclaim_reason config idle_for memory busy =
     (case (memory_over_budget config memory busy, idle_expired config idle_for busy) of
        (True, True) \<Rightarrow> ''idle+memory'' | (True, False) \<Rightarrow> ''memory''
      | (False, True) \<Rightarrow> ''idle'' | (False, False) \<Rightarrow> ''none'')"

section \<open>Slots\<close>

datatype start_failure_kind =
  SfUnavailable string | SfStartup string | SfTimeout nat | SfProtocol string | SfCrashed

record start_failure =
  sf_at :: nat
  sf_kind :: start_failure_kind
  sf_retry_after :: "nat option"

record slot_state =
  sl_server :: "server option"
  sl_in_flight :: nat
  sl_generation :: nat
  sl_last_used :: nat
  sl_start_failure :: "start_failure option"
  sl_timeouts :: nat
  sl_crashes :: nat
  sl_started_at :: nat

record guard =
  gd_server :: server
  gd_generation :: nat
  gd_first_checkout :: bool

definition fresh_slot :: "nat \<Rightarrow> slot_state" where
  "fresh_slot now =
     \<lparr>sl_server = None, sl_in_flight = 0, sl_generation = 0, sl_last_used = now,
      sl_start_failure = None, sl_timeouts = 0, sl_crashes = 0, sl_started_at = now\<rparr>"

definition failure_kind_of :: "lsp_error \<Rightarrow> start_failure_kind" where
  "failure_kind_of err =
     (case err of
        Unavailable l m \<Rightarrow> SfUnavailable m
      | Startup l m \<Rightarrow> SfStartup m
      | TimeoutErr d \<Rightarrow> SfTimeout d
      | Protocol m \<Rightarrow> SfProtocol m
      | ContentModified \<Rightarrow>
          SfProtocol ''language server content modified; the request should be retried''
      | Crashed \<Rightarrow> SfCrashed)"

definition failure_from_error :: "nat \<Rightarrow> lsp_error \<Rightarrow> start_failure" where
  "failure_from_error now err =
     \<lparr>sf_at = now, sf_kind = failure_kind_of err,
      sf_retry_after =
        (case err of
           Unavailable l m \<Rightarrow> if contains_sub m install_pending then Some install_pending_retry else None
         | _ \<Rightarrow> None)\<rparr>"

definition failure_to_error :: "language \<Rightarrow> start_failure \<Rightarrow> lsp_error" where
  "failure_to_error l f =
     (case sf_kind f of
        SfUnavailable m \<Rightarrow> Unavailable l m | SfStartup m \<Rightarrow> Startup l m
      | SfTimeout d \<Rightarrow> TimeoutErr d | SfProtocol m \<Rightarrow> Protocol m | SfCrashed \<Rightarrow> Crashed)"

text \<open>The critical sections of \<open>acquire\<close>: the checkout of a running server, the cooldown test under
  the start gate, and the two outcomes of a start.\<close>

definition check_out :: "nat \<Rightarrow> slot_state \<Rightarrow> (guard \<times> slot_state) option" where
  "check_out now s =
     (case sl_server s of None \<Rightarrow> None
      | Some srv \<Rightarrow>
          Some (\<lparr>gd_server = srv, gd_generation = sl_generation s, gd_first_checkout = False\<rparr>,
                s\<lparr>sl_in_flight := sl_in_flight s + 1, sl_last_used := now\<rparr>))"

definition start_blocked :: "pool_config \<Rightarrow> language \<Rightarrow> nat \<Rightarrow> slot_state \<Rightarrow> lsp_error option" where
  "start_blocked config l now s =
     (case sl_start_failure s of None \<Rightarrow> None
      | Some failure \<Rightarrow>
          let cooldown = (case sf_retry_after failure of Some d \<Rightarrow> d | None \<Rightarrow> pc_start_cooldown config)
          in if pc_start_cooldown config \<noteq> 0 \<and> now - sf_at failure < cooldown
             then Some (failure_to_error l failure) else None)"

definition install_server :: "nat \<Rightarrow> server \<Rightarrow> slot_state \<Rightarrow> guard \<times> slot_state" where
  "install_server now srv s =
     (let s' = s\<lparr>sl_generation := sl_generation s + 1, sl_in_flight := 1, sl_last_used := now,
                 sl_started_at := now, sl_timeouts := 0, sl_start_failure := None,
                 sl_server := Some srv\<rparr>
      in (\<lparr>gd_server = srv, gd_generation = sl_generation s', gd_first_checkout = True\<rparr>, s'))"

definition start_failed :: "nat \<Rightarrow> lsp_error \<Rightarrow> slot_state \<Rightarrow> slot_state" where
  "start_failed now err s = s\<lparr>sl_start_failure := Some (failure_from_error now err), sl_server := None\<rparr>"

text \<open>\<open>acquire\<close> without other threads in between; \<open>started\<close> is the factory's answer and \<open>t2\<close> the
  time after the start.\<close>

definition acquire_slot ::
  "pool_config \<Rightarrow> language \<Rightarrow> nat \<Rightarrow> nat \<Rightarrow> lsp_error + server \<Rightarrow> slot_state \<Rightarrow> (lsp_error + guard) \<times> slot_state" where
  "acquire_slot config l t1 t2 started s =
     (case check_out t1 s of
        Some (g, s') \<Rightarrow> (Inr g, s')
      | None \<Rightarrow>
          (case start_blocked config l t1 s of
             Some err \<Rightarrow> (Inl err, s)
           | None \<Rightarrow>
               (case started of
                  Inr srv \<Rightarrow> (let (g, s') = install_server t2 srv s in (Inr g, s'))
                | Inl err \<Rightarrow> (Inl err, start_failed t2 err s))))"

text \<open>The wait of \<open>checkout\<close>: how long this caller waits for the server to finish indexing.\<close>

definition ready_wait :: "nat \<Rightarrow> pool_config \<Rightarrow> language \<Rightarrow> guard \<Rightarrow> nat option" where
  "ready_wait cap config l g =
     (let ready_timeout = pc_ready_timeout (config_for cap config l)
      in if gd_first_checkout g \<and> ready_timeout \<noteq> 0 then Some ready_timeout else None)"

text \<open>\<open>try_reclaim\<close>: the peek and the take; \<open>memory\<close> and \<open>busy\<close> are sampled in between.\<close>

record peeked =
  pk_server :: server
  pk_generation :: nat
  pk_idle_for :: nat

definition peek_slot :: "nat \<Rightarrow> slot_state \<Rightarrow> peeked option" where
  "peek_slot now s =
     (case sl_server s of None \<Rightarrow> None
      | Some srv \<Rightarrow>
          if 0 < sl_in_flight s then None
          else Some \<lparr>pk_server = srv, pk_generation = sl_generation s, pk_idle_for = now - sl_last_used s\<rparr>)"

definition take_slot :: "slot_state \<Rightarrow> server option \<times> slot_state" where
  "take_slot s =
     (sl_server s, s\<lparr>sl_server := None, sl_generation := sl_generation s + 1, sl_in_flight := 0\<rparr>)"

definition reclaim_take ::
  "pool_config \<Rightarrow> peeked \<Rightarrow> nat option \<Rightarrow> bool \<Rightarrow> nat \<Rightarrow> slot_state \<Rightarrow> (server option \<times> slot_state)" where
  "reclaim_take c pk memory busy now s =
     (if sl_generation s \<noteq> pk_generation pk \<or> 0 < sl_in_flight s then (None, s)
      else if sl_server s = None then (None, s)
      else if \<not> should_reclaim c (now - sl_last_used s) memory busy then (None, s)
      else take_slot s)"

definition try_reclaim ::
  "nat \<Rightarrow> pool_config \<Rightarrow> language \<Rightarrow> nat option \<Rightarrow> bool \<Rightarrow> nat \<Rightarrow> nat \<Rightarrow> slot_state \<Rightarrow> server option \<times> slot_state" where
  "try_reclaim cap config l memory busy t1 t2 s =
     (case peek_slot t1 s of None \<Rightarrow> (None, s)
      | Some pk \<Rightarrow>
          let c = config_for cap config l
          in if \<not> should_reclaim c (pk_idle_for pk) memory busy then (None, s)
             else reclaim_take c pk memory busy t2 s)"

text \<open>\<open>Drop\<close> of a guard; the flag asks for the opportunistic reclaim.\<close>

definition release_guard :: "nat \<Rightarrow> guard \<Rightarrow> slot_state \<Rightarrow> bool \<times> slot_state" where
  "release_guard now g s =
     (if sl_generation s \<noteq> gd_generation g then (False, s)
      else (let s' = s\<lparr>sl_in_flight := sl_in_flight s - 1, sl_last_used := now\<rparr>
            in (sl_in_flight s' = 0 \<and> sl_server s' \<noteq> None, s')))"

text \<open>\<open>ServerGuard::retire\<close>; the server taken is then shut down.\<close>

definition crash_backoff :: "nat \<Rightarrow> nat \<Rightarrow> nat" where
  "crash_backoff cooldown crashes = min (crash_backoff_base * 2 ^ min (crashes - 2) 16) cooldown"

definition note_crash :: "nat \<Rightarrow> nat \<Rightarrow> slot_state \<Rightarrow> slot_state" where
  "note_crash cooldown now s =
     (let crashes = (if crash_loop_window < now - sl_started_at s then 0 else sl_crashes s) + 1;
          s' = s\<lparr>sl_crashes := crashes\<rparr>
      in if 2 \<le> crashes \<and> cooldown \<noteq> 0
         then s'\<lparr>sl_start_failure := Some \<lparr>sf_at = now, sf_kind = SfCrashed,
                                         sf_retry_after = Some (crash_backoff cooldown crashes)\<rparr>\<rparr>
         else s')"

definition retire :: "pool_config \<Rightarrow> bool \<Rightarrow> nat \<Rightarrow> guard \<Rightarrow> slot_state \<Rightarrow> server option \<times> slot_state" where
  "retire config crashed now g s =
     (if sl_generation s \<noteq> gd_generation g then (None, s)
      else (case sl_server s of None \<Rightarrow> (None, s)
            | Some srv \<Rightarrow>
                let s' = (snd (take_slot s))\<lparr>sl_timeouts := 0\<rparr>
                in (Some srv, if crashed then note_crash (pc_start_cooldown config) now s' else s')))"

section \<open>Requests\<close>

definition note_timeout :: "guard \<Rightarrow> slot_state \<Rightarrow> bool \<times> slot_state" where
  "note_timeout g s =
     (if sl_generation s = gd_generation g
      then (wedged_after_timeouts \<le> sl_timeouts s + 1, s\<lparr>sl_timeouts := sl_timeouts s + 1\<rparr>)
      else (False, s))"

definition note_answer :: "nat \<Rightarrow> guard \<Rightarrow> slot_state \<Rightarrow> slot_state" where
  "note_answer now g s =
     (if sl_generation s = gd_generation g
      then (let s' = s\<lparr>sl_timeouts := 0\<rparr>
            in if crash_loop_window < now - sl_started_at s then s'\<lparr>sl_crashes := 0\<rparr> else s')
      else s)"

text \<open>\<open>call_once\<close> with the server's answer \<open>r\<close> at time \<open>now\<close>; the list holds the servers shut down.\<close>

definition call_once ::
  "pool_config \<Rightarrow> nat \<Rightarrow> guard \<Rightarrow> lsp_error + 'a \<Rightarrow> slot_state \<Rightarrow> (lsp_error + 'a) \<times> server list \<times> slot_state" where
  "call_once config now g r s =
     (case r of
        Inl Crashed \<Rightarrow>
          (let (srv, s') = retire config True now g s in (r, case srv of Some x \<Rightarrow> [x] | None \<Rightarrow> [], s'))
      | Inl (TimeoutErr after) \<Rightarrow>
          (let (wedged, s1) = note_timeout g s
           in if wedged
              then (let (srv, s') = retire config True now g s1
                    in (r, case srv of Some x \<Rightarrow> [x] | None \<Rightarrow> [], s'))
              else (r, [], s1))
      | Inl _ \<Rightarrow> (r, [], s)
      | Inr v \<Rightarrow> (r, [], note_answer now g s))"

definition resend_after_exit :: "language \<Rightarrow> bool" where
  "resend_after_exit l \<longleftrightarrow> l \<noteq> Kotlin"

text \<open>\<open>ServerGuard::call\<close> on a guard without a replacement.  \<open>op\<close> is the request, \<open>started\<close> the
  factory's answer, \<open>t1..t4\<close> the times of the first answer, of the checkout, of the end of the
  start and of the second answer.  The result holds the replacement guard, if one was taken.\<close>

record 'a call_result =
  cr_result :: "lsp_error + 'a"
  cr_replacement :: "guard option"
  cr_shut :: "server list"
  cr_slot :: slot_state

definition guard_call ::
  "pool_config \<Rightarrow> language \<Rightarrow> (server \<Rightarrow> lsp_error + 'a) \<Rightarrow> lsp_error + server \<Rightarrow> nat \<Rightarrow> nat \<Rightarrow> nat \<Rightarrow> nat
     \<Rightarrow> guard \<Rightarrow> slot_state \<Rightarrow> 'a call_result" where
  "guard_call config l op started t1 t2 t3 t4 g s =
     (let (r, shut, s1) = call_once config t1 g (op (gd_server g)) s
      in if r = Inl Crashed \<and> resend_after_exit l then
           (case acquire_slot config l t2 t3 started s1 of
              (Inl err, s2) \<Rightarrow> \<lparr>cr_result = Inl Crashed, cr_replacement = None, cr_shut = shut, cr_slot = s2\<rparr>
            | (Inr g2, s2) \<Rightarrow>
                let (r2, shut2, s3) = call_once config t4 g2 (op (gd_server g2)) s2
                in \<lparr>cr_result = r2, cr_replacement = Some g2, cr_shut = shut @ shut2, cr_slot = s3\<rparr>)
         else \<lparr>cr_result = r, cr_replacement = None, cr_shut = shut, cr_slot = s1\<rparr>)"

text \<open>\<open>LspPool::with_server\<close> around a result of \<open>f\<close>.\<close>

definition with_server_end ::
  "pool_config \<Rightarrow> nat \<Rightarrow> guard \<Rightarrow> lsp_error + 'a \<Rightarrow> slot_state \<Rightarrow> (lsp_error + 'a) \<times> server option \<times> slot_state" where
  "with_server_end config now g r s =
     (if r = Inl Crashed then (let (srv, s') = retire config True now g s in (r, srv, s'))
      else (r, None, s))"

section \<open>The pool\<close>

type_synonym slots = "(language \<times> slot_state) list"

definition slot_for :: "nat \<Rightarrow> language \<Rightarrow> slots \<Rightarrow> slot_state \<times> slots" where
  "slot_for now l p =
     (case map_of p l of Some s \<Rightarrow> (s, p) | None \<Rightarrow> (fresh_slot now, p @ [(l, fresh_slot now)]))"

definition is_resident :: "slots \<Rightarrow> language \<Rightarrow> bool" where
  "is_resident p l = (case map_of p l of Some s \<Rightarrow> sl_server s \<noteq> None | None \<Rightarrow> False)"

text \<open>\<open>reclaim_all\<close>: \<open>m\<close> samples a server's memory and busy flag.\<close>

fun reclaim_all ::
  "nat \<Rightarrow> pool_config \<Rightarrow> (language \<Rightarrow> nat option \<times> bool) \<Rightarrow> nat \<Rightarrow> slots \<Rightarrow> server list \<times> slots" where
  "reclaim_all cap config m now [] = ([], [])"
| "reclaim_all cap config m now ((l, s) # p) =
     (let (srv, s') = try_reclaim cap config l (fst (m l)) (snd (m l)) now now s;
          (down, p') = reclaim_all cap config m now p
      in ((case srv of Some x \<Rightarrow> [x] | None \<Rightarrow> []) @ down, (l, s') # p'))"

definition shutdown_slot :: "bool \<Rightarrow> slot_state \<Rightarrow> server option \<times> slot_state" where
  "shutdown_slot force s =
     (if \<not> force \<and> 0 < sl_in_flight s then (None, s)
      else if sl_server s \<noteq> None then take_slot s
      else (None, s))"

fun shutdown_all :: "bool \<Rightarrow> slots \<Rightarrow> server list \<times> slots" where
  "shutdown_all force [] = ([], [])"
| "shutdown_all force ((l, s) # p) =
     (let (srv, s') = shutdown_slot force s; (down, p') = shutdown_all force p
      in ((case srv of Some x \<Rightarrow> [x] | None \<Rightarrow> []) @ down, (l, s') # p'))"

text \<open>The servers \<open>shutdown_parallel\<close> collects and shuts down, each in a thread of its own.\<close>

fun take_all :: "slots \<Rightarrow> (language \<times> server) list \<times> slots" where
  "take_all [] = ([], [])"
| "take_all ((l, s) # p) =
     (let (down, p') = take_all p
      in case sl_server s of None \<Rightarrow> (down, (l, s) # p')
         | Some srv \<Rightarrow> ((l, srv) # down, (l, snd (take_slot s)) # p'))"

definition notified_servers :: "slots \<Rightarrow> 'c list \<Rightarrow> server list" where
  "notified_servers p changes =
     (if changes = [] then [] else List.map_filter (\<lambda>(l, s). sl_server s) p)"

section \<open>Interleavings\<close>

text \<open>
  Threads interleave between critical sections.  The ghost part of the state: the live guards,
  whether a thread holds the start gate and is inside \<open>factory.start\<close>, the reclaim threads
  between peek and take with their samples, every server ever installed, and the shutdowns with
  their cause and the number of live guards that held the server at that moment.
\<close>

datatype cause = Reclaimed | Retired | TornDown

record pool_sys =
  sy_slot :: slot_state
  sy_now :: nat
  sy_live :: "guard multiset"
  sy_starting :: bool
  sy_peeks :: "(peeked \<times> nat option \<times> bool) set"
  sy_seen :: "server set"
  sy_down :: "(server \<times> cause \<times> nat) list"

definition holders :: "server \<Rightarrow> pool_sys \<Rightarrow> nat" where
  "holders srv S = size (filter_mset (\<lambda>g. gd_server g = srv) (sy_live S))"

definition current_guards :: "pool_sys \<Rightarrow> guard multiset" where
  "current_guards S = filter_mset (\<lambda>g. gd_generation g = sl_generation (sy_slot S)) (sy_live S)"

definition log_down :: "server option \<Rightarrow> cause \<Rightarrow> pool_sys \<Rightarrow> (server \<times> cause \<times> nat) list" where
  "log_down srv c S = (case srv of None \<Rightarrow> sy_down S | Some x \<Rightarrow> (x, c, holders x S) # sy_down S)"

inductive pool_step :: "nat \<Rightarrow> pool_config \<Rightarrow> language \<Rightarrow> pool_sys \<Rightarrow> pool_sys \<Rightarrow> bool"
  for cap :: nat and config :: pool_config and l :: language where
  checkout: "check_out (sy_now S) (sy_slot S) = Some (g, s') \<Longrightarrow>
     pool_step cap config l S (S\<lparr>sy_slot := s', sy_live := add_mset g (sy_live S)\<rparr>)"
| begin_start: "\<not> sy_starting S \<Longrightarrow> check_out (sy_now S) (sy_slot S) = None \<Longrightarrow>
     start_blocked config l (sy_now S) (sy_slot S) = None \<Longrightarrow>
     pool_step cap config l S (S\<lparr>sy_starting := True\<rparr>)"
| started: "sy_starting S \<Longrightarrow> srv \<notin> sy_seen S \<Longrightarrow> install_server (sy_now S) srv (sy_slot S) = (g, s') \<Longrightarrow>
     pool_step cap config l S
       (S\<lparr>sy_slot := s', sy_live := add_mset g (sy_live S), sy_starting := False,
          sy_seen := insert srv (sy_seen S)\<rparr>)"
| start_error: "sy_starting S \<Longrightarrow>
     pool_step cap config l S (S\<lparr>sy_slot := start_failed (sy_now S) err (sy_slot S), sy_starting := False\<rparr>)"
| peek: "peek_slot (sy_now S) (sy_slot S) = Some pk \<Longrightarrow>
     should_reclaim (config_for cap config l) (pk_idle_for pk) memory busy \<Longrightarrow>
     pool_step cap config l S (S\<lparr>sy_peeks := insert (pk, memory, busy) (sy_peeks S)\<rparr>)"
| take_back: "(pk, memory, busy) \<in> sy_peeks S \<Longrightarrow>
     reclaim_take (config_for cap config l) pk memory busy (sy_now S) (sy_slot S) = (taken, s') \<Longrightarrow>
     pool_step cap config l S
       (S\<lparr>sy_slot := s', sy_peeks := sy_peeks S - {(pk, memory, busy)}, sy_down := log_down taken Reclaimed S\<rparr>)"
| release: "g \<in># sy_live S \<Longrightarrow> release_guard (sy_now S) g (sy_slot S) = (again, s') \<Longrightarrow>
     pool_step cap config l S (S\<lparr>sy_slot := s', sy_live := sy_live S - {#g#}\<rparr>)"
| retired: "g \<in># sy_live S \<Longrightarrow> retire config crashed (sy_now S) g (sy_slot S) = (taken, s') \<Longrightarrow>
     pool_step cap config l S (S\<lparr>sy_slot := s', sy_down := log_down taken Retired S\<rparr>)"
| timed_out: "g \<in># sy_live S \<Longrightarrow> note_timeout g (sy_slot S) = (wedged, s') \<Longrightarrow>
     pool_step cap config l S (S\<lparr>sy_slot := s'\<rparr>)"
| answered: "g \<in># sy_live S \<Longrightarrow>
     pool_step cap config l S (S\<lparr>sy_slot := note_answer (sy_now S) g (sy_slot S)\<rparr>)"
| teardown: "shutdown_slot force (sy_slot S) = (taken, s') \<Longrightarrow>
     pool_step cap config l S (S\<lparr>sy_slot := s', sy_down := log_down taken TornDown S\<rparr>)"
| tick: "pool_step cap config l S (S\<lparr>sy_now := sy_now S + d\<rparr>)"

definition pool_start :: "nat \<Rightarrow> pool_sys" where
  "pool_start now =
     \<lparr>sy_slot = fresh_slot now, sy_now = now, sy_live = {#}, sy_starting = False, sy_peeks = {},
      sy_seen = {}, sy_down = []\<rparr>"

inductive pool_reach :: "nat \<Rightarrow> pool_config \<Rightarrow> language \<Rightarrow> pool_sys \<Rightarrow> bool"
  for cap :: nat and config :: pool_config and l :: language where
  start: "pool_reach cap config l (pool_start now)"
| step: "pool_reach cap config l S \<Longrightarrow> pool_step cap config l S S' \<Longrightarrow> pool_reach cap config l S'"

text \<open>The well-formed states of a slot.\<close>

definition slot_ok :: "pool_sys \<Rightarrow> bool" where
  "slot_ok S \<longleftrightarrow>
     sl_in_flight (sy_slot S) = size (current_guards S)
     \<and> (\<forall>g \<in># sy_live S. gd_generation g \<le> sl_generation (sy_slot S)
          \<and> (gd_generation g = sl_generation (sy_slot S) \<longleftrightarrow> sl_server (sy_slot S) = Some (gd_server g))
          \<and> gd_server g \<in> sy_seen S)
     \<and> (\<forall>srv. sl_server (sy_slot S) = Some srv \<longrightarrow> srv \<in> sy_seen S \<and> srv \<notin> fst ` set (sy_down S))
     \<and> (sy_starting S \<longrightarrow> sl_server (sy_slot S) = None)"

definition downs_ok :: "pool_sys \<Rightarrow> bool" where
  "downs_ok S \<longleftrightarrow>
     distinct (map fst (sy_down S)) \<and> fst ` set (sy_down S) \<subseteq> sy_seen S
     \<and> (\<forall>(srv, c, n) \<in> set (sy_down S). c = Reclaimed \<longrightarrow> n = 0)"

lemma slot_okI:
  assumes "sl_in_flight (sy_slot S) = size (current_guards S)"
    and "\<And>g. g \<in># sy_live S \<Longrightarrow> gd_generation g \<le> sl_generation (sy_slot S)"
    and "\<And>g. g \<in># sy_live S \<Longrightarrow>
      gd_generation g = sl_generation (sy_slot S) \<longleftrightarrow> sl_server (sy_slot S) = Some (gd_server g)"
    and "\<And>g. g \<in># sy_live S \<Longrightarrow> gd_server g \<in> sy_seen S"
    and "\<And>srv. sl_server (sy_slot S) = Some srv \<Longrightarrow> srv \<in> sy_seen S \<and> srv \<notin> fst ` set (sy_down S)"
    and "sy_starting S \<Longrightarrow> sl_server (sy_slot S) = None"
  shows "slot_ok S"
  using assms unfolding slot_ok_def by blast

lemma slot_okD:
  assumes "slot_ok S"
  shows "sl_in_flight (sy_slot S) = size (current_guards S)"
    and "g \<in># sy_live S \<Longrightarrow> gd_generation g \<le> sl_generation (sy_slot S)"
    and "g \<in># sy_live S \<Longrightarrow>
      gd_generation g = sl_generation (sy_slot S) \<longleftrightarrow> sl_server (sy_slot S) = Some (gd_server g)"
    and "g \<in># sy_live S \<Longrightarrow> gd_server g \<in> sy_seen S"
    and "sl_server (sy_slot S) = Some srv \<Longrightarrow> srv \<in> sy_seen S \<and> srv \<notin> fst ` set (sy_down S)"
    and "sy_starting S \<Longrightarrow> sl_server (sy_slot S) = None"
  using assms unfolding slot_ok_def by blast+

text \<open>Taking the server out of the slot: what every shutdown does first.\<close>

lemma filter_mset_none: "(\<And>x. x \<in># M \<Longrightarrow> \<not> P x) \<Longrightarrow> filter_mset P M = {#}"
  by (induction M) auto

lemma no_current_guard:
  assumes "slot_ok S" and "sl_server (sy_slot S) = None"
  shows "current_guards S = {#}"
  unfolding current_guards_def
  by (rule filter_mset_none) (use slot_okD(3) [OF assms(1)] assms(2) in auto)

lemma current_guards_Suc:
  assumes "slot_ok S"
  shows "filter_mset (\<lambda>g. gd_generation g = Suc (sl_generation (sy_slot S))) (sy_live S) = {#}"
  by (rule filter_mset_none) (use slot_okD(2) [OF assms] in fastforce)

lemma take_slot_ok:
  assumes ok: "slot_ok S" and srv: "sl_server (sy_slot S) = Some srv"
    and s': "sl_server s' = None" "sl_in_flight s' = 0" "sl_generation s' = Suc (sl_generation (sy_slot S))"
  shows "slot_ok (S\<lparr>sy_slot := s', sy_down := (srv, c, n) # sy_down S\<rparr>)"
    and "slot_ok (S\<lparr>sy_slot := s', sy_peeks := P, sy_down := (srv, c, n) # sy_down S\<rparr>)"
proof -
  have g: "gd_generation g \<noteq> Suc (sl_generation (sy_slot S))" if "g \<in># sy_live S" for g
    using slot_okD(2) [OF ok that] by simp
  show "slot_ok (S\<lparr>sy_slot := s', sy_down := (srv, c, n) # sy_down S\<rparr>)"
    by (rule slot_okI)
       (use slot_okD [OF ok] g s' current_guards_Suc [OF ok] in \<open>auto simp: current_guards_def le_SucI\<close>)
  then show "slot_ok (S\<lparr>sy_slot := s', sy_peeks := P, sy_down := (srv, c, n) # sy_down S\<rparr>)"
    by (simp add: slot_ok_def current_guards_def)
qed

lemma take_downs_ok:
  assumes "slot_ok S" and "downs_ok S" and "sl_server (sy_slot S) = Some srv"
    and "c = Reclaimed \<Longrightarrow> n = 0"
  shows "downs_ok (S\<lparr>sy_slot := s', sy_down := (srv, c, n) # sy_down S\<rparr>)"
    and "downs_ok (S\<lparr>sy_slot := s', sy_peeks := P, sy_down := (srv, c, n) # sy_down S\<rparr>)"
  using assms slot_okD(5) [OF assms(1,3)] by (auto simp: downs_ok_def)

text \<open>The holders of the server in the slot are the guards the counter counts.\<close>

lemma holders_current:
  assumes "slot_ok S" and "sl_server (sy_slot S) = Some srv"
  shows "holders srv S = sl_in_flight (sy_slot S)"
proof -
  have "filter_mset (\<lambda>g. gd_server g = srv) (sy_live S) = current_guards S"
    unfolding current_guards_def
    by (rule filter_mset_cong) (use slot_okD(3) [OF assms(1)] assms(2) in auto)
  then show ?thesis using slot_okD(1) [OF assms(1)] by (simp add: holders_def)
qed

text \<open>Each outcome of the sections that may take the server.\<close>

lemma reclaim_take_cases:
  assumes "reclaim_take c pk memory busy now s = (taken, s')"
  shows "(taken = None \<and> s' = s)
    \<or> (\<exists>srv. taken = Some srv \<and> sl_server s = Some srv \<and> sl_in_flight s = 0
        \<and> sl_server s' = None \<and> sl_in_flight s' = 0 \<and> sl_generation s' = Suc (sl_generation s))"
  using assms
  by (cases "sl_server s") (auto simp: reclaim_take_def take_slot_def split: if_splits)

lemma note_crash_fields [simp]:
  "sl_server (note_crash cooldown now s) = sl_server s"
  "sl_in_flight (note_crash cooldown now s) = sl_in_flight s"
  "sl_generation (note_crash cooldown now s) = sl_generation s"
  by (simp_all add: note_crash_def Let_def)

lemma retire_cases:
  assumes "retire config crashed now g s = (taken, s')"
  shows "(taken = None \<and> s' = s)
    \<or> (\<exists>srv. taken = Some srv \<and> sl_server s = Some srv
        \<and> sl_server s' = None \<and> sl_in_flight s' = 0 \<and> sl_generation s' = Suc (sl_generation s))"
  using assms
  by (cases "sl_server s") (auto simp: retire_def take_slot_def Let_def split: if_splits)

lemma shutdown_slot_cases:
  assumes "shutdown_slot force s = (taken, s')"
  shows "(taken = None \<and> s' = s)
    \<or> (\<exists>srv. taken = Some srv \<and> sl_server s = Some srv
        \<and> sl_server s' = None \<and> sl_in_flight s' = 0 \<and> sl_generation s' = Suc (sl_generation s))"
  using assms
  by (cases "sl_server s") (auto simp: shutdown_slot_def take_slot_def split: if_splits)

lemma same_slot_fields:
  assumes "slot_ok S" and "sl_server s' = sl_server (sy_slot S)"
    and "sl_in_flight s' = sl_in_flight (sy_slot S)" and "sl_generation s' = sl_generation (sy_slot S)"
  shows "slot_ok (S\<lparr>sy_slot := s'\<rparr>)"
  using assms by (simp add: slot_ok_def current_guards_def)

lemma checkout_ok:
  assumes "slot_ok S" and "check_out (sy_now S) (sy_slot S) = Some (g, s')"
  shows "slot_ok (S\<lparr>sy_slot := s', sy_live := add_mset g (sy_live S)\<rparr>)"
proof -
  obtain srv where srv: "sl_server (sy_slot S) = Some srv"
    "g = \<lparr>gd_server = srv, gd_generation = sl_generation (sy_slot S), gd_first_checkout = False\<rparr>"
    "s' = (sy_slot S)\<lparr>sl_in_flight := sl_in_flight (sy_slot S) + 1, sl_last_used := sy_now S\<rparr>"
    using assms(2) by (auto simp: check_out_def split: option.splits)
  show ?thesis
    by (rule slot_okI) (use slot_okD [OF assms(1)] srv in \<open>auto simp: current_guards_def\<close>)
qed

lemma started_ok:
  assumes ok: "slot_ok S" and "sy_starting S" and "srv \<notin> sy_seen S" and "downs_ok S"
    and inst: "install_server (sy_now S) srv (sy_slot S) = (g, s')"
  shows "slot_ok (S\<lparr>sy_slot := s', sy_live := add_mset g (sy_live S), sy_starting := False,
           sy_seen := insert srv (sy_seen S)\<rparr>)"
proof -
  have g: "gd_server g = srv" "gd_generation g = Suc (sl_generation (sy_slot S))"
    "sl_server s' = Some srv" "sl_in_flight s' = 1" "sl_generation s' = Suc (sl_generation (sy_slot S))"
    using inst by (auto simp: install_server_def Let_def)
  have old: "gd_generation h \<le> Suc (sl_generation (sy_slot S)) \<and> gd_generation h \<noteq> Suc (sl_generation (sy_slot S))
      \<and> gd_server h \<noteq> srv \<and> gd_server h \<in> sy_seen S" if "h \<in># sy_live S" for h
    using slot_okD(2,4) [OF ok that] assms(3) by auto
  have new: "srv \<notin> fst ` set (sy_down S)" using assms(3,4) by (auto simp: downs_ok_def)
  show ?thesis
    by (rule slot_okI)
       (auto simp: g new current_guards_def current_guards_Suc [OF ok] dest: old)
qed

lemma release_ok:
  assumes ok: "slot_ok S" and g: "g \<in># sy_live S"
    and rel: "release_guard (sy_now S) g (sy_slot S) = (again, s')"
  shows "slot_ok (S\<lparr>sy_slot := s', sy_live := sy_live S - {#g#}\<rparr>)"
proof (cases "sl_generation (sy_slot S) = gd_generation g")
  case True
  then have s': "s' = (sy_slot S)\<lparr>sl_in_flight := sl_in_flight (sy_slot S) - 1, sl_last_used := sy_now S\<rparr>"
    using rel by (auto simp: release_guard_def Let_def)
  have "g \<in># current_guards S" using g True by (simp add: current_guards_def)
  then have "size (current_guards S - {#g#}) = size (current_guards S) - 1"
    by (simp add: size_Diff_singleton)
  then have "size (filter_mset (\<lambda>h. gd_generation h = sl_generation (sy_slot S)) (sy_live S - {#g#}))
      = size (current_guards S) - 1"
    using True by (simp add: current_guards_def)
  then show ?thesis
    using slot_okD [OF ok] s' by (intro slot_okI) (auto simp: current_guards_def dest: in_diffD)
next
  case False
  then have s': "s' = sy_slot S" using rel by (simp add: release_guard_def)
  have "filter_mset (\<lambda>h. gd_generation h = sl_generation (sy_slot S)) (sy_live S - {#g#}) = current_guards S"
    using False by (simp add: current_guards_def)
  then show ?thesis
    using slot_okD [OF ok] s' by (intro slot_okI) (auto simp: current_guards_def dest: in_diffD)
qed

lemma pool_step_ok:
  assumes "pool_step cap config l S S'" and ok: "slot_ok S" and downs: "downs_ok S"
  shows "slot_ok S' \<and> downs_ok S'"
  using assms(1)
proof cases
  case (checkout g s')
  with checkout_ok [OF ok] downs show ?thesis by (auto simp: downs_ok_def)
next
  case begin_start
  then have "sl_server (sy_slot S) = None" by (auto simp: check_out_def split: option.splits)
  with begin_start ok downs show ?thesis by (simp add: slot_ok_def downs_ok_def current_guards_def)
next
  case (started srv g s')
  with started_ok [OF ok _ _ downs] downs show ?thesis by (auto simp: downs_ok_def)
next
  case (start_error err)
  with same_slot_fields [OF ok, of "start_failed (sy_now S) err (sy_slot S)"] slot_okD(6) [OF ok] downs
  show ?thesis by (simp add: start_failed_def slot_ok_def downs_ok_def current_guards_def)
next
  case (peek pk memory busy)
  with ok downs show ?thesis by (simp add: slot_ok_def downs_ok_def current_guards_def)
next
  case (take_back pk memory busy taken s')
  from reclaim_take_cases [OF take_back(3)] show ?thesis
  proof (elim disjE exE conjE)
    assume "taken = None" "s' = sy_slot S"
    with take_back ok downs show ?thesis
      by (simp add: slot_ok_def downs_ok_def current_guards_def log_down_def)
  next
    fix srv assume t: "taken = Some srv" "sl_server (sy_slot S) = Some srv" "sl_in_flight (sy_slot S) = 0"
      "sl_server s' = None" "sl_in_flight s' = 0" "sl_generation s' = Suc (sl_generation (sy_slot S))"
    then have "holders srv S = 0" using holders_current [OF ok] by simp
    with take_back t take_slot_ok(2) [OF ok t(2,4-6)] take_downs_ok(2) [OF ok downs t(2)] show ?thesis
      by (simp add: log_down_def)
  qed
next
  case (release g again s')
  with release_ok [OF ok] downs show ?thesis by (auto simp: downs_ok_def)
next
  case (retired g crashed taken s')
  from retire_cases [OF retired(3)] show ?thesis
  proof (elim disjE exE conjE)
    assume "taken = None" "s' = sy_slot S"
    with retired ok downs show ?thesis by (simp add: log_down_def)
  next
    fix srv assume t: "taken = Some srv" "sl_server (sy_slot S) = Some srv"
      "sl_server s' = None" "sl_in_flight s' = 0" "sl_generation s' = Suc (sl_generation (sy_slot S))"
    with retired take_slot_ok(1) [OF ok t(2-5)] take_downs_ok(1) [OF ok downs t(2), of Retired] show ?thesis
      by (simp add: log_down_def)
  qed
next
  case (timed_out g wedged s')
  with same_slot_fields [OF ok, of s'] downs show ?thesis
    by (auto simp: note_timeout_def downs_ok_def split: if_splits)
next
  case (answered g)
  with same_slot_fields [OF ok, of "note_answer (sy_now S) g (sy_slot S)"] downs show ?thesis
    by (simp add: note_answer_def Let_def downs_ok_def)
next
  case (teardown force taken s')
  from shutdown_slot_cases [OF teardown(2)] show ?thesis
  proof (elim disjE exE conjE)
    assume "taken = None" "s' = sy_slot S"
    with teardown ok downs show ?thesis by (simp add: log_down_def)
  next
    fix srv assume t: "taken = Some srv" "sl_server (sy_slot S) = Some srv"
      "sl_server s' = None" "sl_in_flight s' = 0" "sl_generation s' = Suc (sl_generation (sy_slot S))"
    with teardown take_slot_ok(1) [OF ok t(2-5)] take_downs_ok(1) [OF ok downs t(2), of TornDown] show ?thesis
      by (simp add: log_down_def)
  qed
next
  case (tick d)
  with ok downs show ?thesis by (simp add: slot_ok_def downs_ok_def current_guards_def)
qed

lemma pool_reach_ok: "pool_reach cap config l S \<Longrightarrow> slot_ok S \<and> downs_ok S"
proof (induction rule: pool_reach.induct)
  case (start now)
  show ?case
    by (simp add: slot_ok_def downs_ok_def pool_start_def fresh_slot_def current_guards_def)
qed (use pool_step_ok in blast)

section \<open>Properties\<close>

text \<open>C28: under every interleaving of checkouts, starts, releases, crashes, reclaims and teardowns the
  in-flight counter of a slot is the number of live guards of its current generation; a guard is
  of the current generation exactly while its server is the one in the slot; and while a thread is
  inside a start the slot is empty, so no start overwrites a running server.\<close>

theorem in_flight_counts_guards:
  assumes "pool_reach cap config l S"
  shows "sl_in_flight (sy_slot S) = size (current_guards S)
    \<and> (\<forall>g \<in># sy_live S. gd_generation g \<le> sl_generation (sy_slot S)
         \<and> (gd_generation g = sl_generation (sy_slot S) \<longleftrightarrow> sl_server (sy_slot S) = Some (gd_server g)))
    \<and> (sy_starting S \<longrightarrow> sl_server (sy_slot S) = None)"
  using pool_reach_ok [OF assms] by (simp add: slot_ok_def)

text \<open>A reachable state for the instances: a server started, checked out once.\<close>

definition demo_live :: pool_sys where
  "demo_live =
     (let (g, s') = install_server 0 7 (fresh_slot 0)
      in (pool_start 0)\<lparr>sy_slot := s', sy_live := {#g#}, sy_starting := False, sy_seen := {7}\<rparr>)"

lemma demo_live_reach: "pool_reach cap config l demo_live"
proof -
  let ?S1 = "(pool_start 0)\<lparr>sy_starting := True\<rparr>"
  have "pool_step cap config l (pool_start 0) ?S1"
    by (rule begin_start) (simp_all add: pool_start_def fresh_slot_def check_out_def start_blocked_def)
  then have one: "pool_reach cap config l ?S1" using start step by blast
  obtain g s' where i: "install_server (sy_now ?S1) 7 (sy_slot ?S1) = (g, s')" by fastforce
  have "pool_step cap config l ?S1
      (?S1\<lparr>sy_slot := s', sy_live := add_mset g (sy_live ?S1), sy_starting := False,
           sy_seen := insert 7 (sy_seen ?S1)\<rparr>)"
    by (rule started [OF _ _ i]) (simp_all add: pool_start_def)
  moreover have "demo_live = ?S1\<lparr>sy_slot := s', sy_live := add_mset g (sy_live ?S1), sy_starting := False,
           sy_seen := insert 7 (sy_seen ?S1)\<rparr>"
    using i by (simp add: demo_live_def pool_start_def)
  ultimately show ?thesis using one step by metis
qed

lemma demo_live_fields:
  "sl_server (sy_slot demo_live) = Some 7" "sl_in_flight (sy_slot demo_live) = 1"
  "sl_last_used (sy_slot demo_live) = 0" "sl_generation (sy_slot demo_live) = 1"
  "sy_live demo_live = {#\<lparr>gd_server = 7, gd_generation = 1, gd_first_checkout = True\<rparr>#}"
  "sy_now demo_live = 0" "sy_starting demo_live = False" "sy_down demo_live = []"
  by (simp_all add: demo_live_def install_server_def fresh_slot_def pool_start_def)

theorem in_flight_counts_guards_witness:
  "pool_reach 0 default_pool_config Rust demo_live
   \<and> sl_in_flight (sy_slot demo_live) = size (current_guards demo_live)"
  using in_flight_counts_guards [OF demo_live_reach] demo_live_reach by blast

text \<open>C27: reclaim never interrupts a request.  In every reachable state, each server that reclaim took
  had no live guard at that moment, and no server is shut down twice, whatever takes it.\<close>

theorem reclaim_spares_guards:
  assumes "pool_reach cap config l S"
  shows "(\<forall>(srv, c, n) \<in> set (sy_down S). c = Reclaimed \<longrightarrow> n = 0)
    \<and> distinct (map fst (sy_down S))
    \<and> (\<forall>srv. sl_server (sy_slot S) = Some srv \<longrightarrow> srv \<notin> fst ` set (sy_down S))"
  using pool_reach_ok [OF assms] by (simp add: slot_ok_def downs_ok_def)

text \<open>The same state after the guard is dropped and six minutes have passed.\<close>

definition demo_idle :: pool_sys where
  "demo_idle = demo_live\<lparr>sy_slot := snd (release_guard 0 \<lparr>gd_server = 7, gd_generation = 1, gd_first_checkout = True\<rparr> (sy_slot demo_live)),
     sy_live := {#}, sy_now := 360 * pool_second\<rparr>"

lemma demo_idle_reach: "pool_reach cap config l demo_idle"
proof -
  let ?g = "\<lparr>gd_server = 7, gd_generation = 1, gd_first_checkout = True\<rparr>"
  obtain again s' where r: "release_guard 0 ?g (sy_slot demo_live) = (again, s')" by fastforce
  have "pool_step cap config l demo_live (demo_live\<lparr>sy_slot := s', sy_live := sy_live demo_live - {#?g#}\<rparr>)"
    by (rule release [where again = again]) (use r demo_live_fields in simp_all)
  then have "pool_reach cap config l (demo_live\<lparr>sy_slot := s', sy_live := sy_live demo_live - {#?g#}\<rparr>)"
    using demo_live_reach step by blast
  from step [OF this tick [where d = "360 * pool_second"]] show ?thesis
    using r demo_live_fields by (simp add: demo_idle_def)
qed

lemma demo_idle_fields:
  "sl_server (sy_slot demo_idle) = Some 7" "sl_in_flight (sy_slot demo_idle) = 0"
  "sl_last_used (sy_slot demo_idle) = 0" "sy_now demo_idle = 360 * pool_second"
  "sy_live demo_idle = {#}" "sy_down demo_idle = []"
  by (simp_all add: demo_idle_def release_guard_def demo_live_fields)

text \<open>An unused server does not stay.  In a reachable state whose server has no live guard and whose
  idle time is past the limit that applies, or whose memory is over its ceiling, a reclaim pass
  (its peek and its take) empties the slot and shuts that server down.\<close>

lemma unused_server_reclaimed:
  assumes "pool_reach cap config l S" and "sl_server (sy_slot S) = Some srv" and "current_guards S = {#}"
    and "should_reclaim (config_for cap config l) (sy_now S - sl_last_used (sy_slot S)) memory busy"
  shows "\<exists>S1 S2. pool_step cap config l S S1 \<and> pool_step cap config l S1 S2
    \<and> sl_server (sy_slot S2) = None \<and> sy_down S2 = (srv, Reclaimed, 0) # sy_down S
    \<and> sy_live S2 = sy_live S"
proof -
  let ?s = "sy_slot S"
  have ok: "slot_ok S" using pool_reach_ok [OF assms(1)] by blast
  have free: "sl_in_flight ?s = 0" using slot_okD(1) [OF ok] assms(3) by simp
  let ?pk = "\<lparr>pk_server = srv, pk_generation = sl_generation ?s, pk_idle_for = sy_now S - sl_last_used ?s\<rparr>"
  have "peek_slot (sy_now S) ?s = Some ?pk" using assms(2) free by (simp add: peek_slot_def)
  then have one: "pool_step cap config l S (S\<lparr>sy_peeks := insert (?pk, memory, busy) (sy_peeks S)\<rparr>)"
    by (rule peek) (use assms(4) in simp)
  let ?S1 = "S\<lparr>sy_peeks := insert (?pk, memory, busy) (sy_peeks S)\<rparr>"
  have take: "reclaim_take (config_for cap config l) ?pk memory busy (sy_now ?S1) (sy_slot ?S1)
      = (Some srv, snd (take_slot ?s))"
    using assms(2,4) free by (simp add: reclaim_take_def take_slot_def)
  have two: "pool_step cap config l ?S1 (?S1\<lparr>sy_slot := snd (take_slot ?s),
      sy_peeks := sy_peeks ?S1 - {(?pk, memory, busy)}, sy_down := log_down (Some srv) Reclaimed ?S1\<rparr>)"
    by (rule take_back [OF _ take]) simp
  have "holders srv ?S1 = 0"
    using holders_current [OF ok assms(2)] free by (simp add: holders_def)
  then have "sl_server (snd (take_slot ?s)) = None"
    "log_down (Some srv) Reclaimed ?S1 = (srv, Reclaimed, 0) # sy_down S"
    by (simp_all add: take_slot_def log_down_def)
  then show ?thesis using one two by fastforce
qed

lemma unused_server_reclaimed_witness:
  "\<exists>S1 S2. pool_step 0 default_pool_config Rust demo_idle S1 \<and> pool_step 0 default_pool_config Rust S1 S2
    \<and> sl_server (sy_slot S2) = None \<and> sy_down S2 = (7, Reclaimed, 0) # sy_down demo_idle
    \<and> sy_live S2 = sy_live demo_idle"
  by (rule unused_server_reclaimed [OF demo_idle_reach, where memory = None and busy = False])
     (simp_all add: demo_idle_fields current_guards_def should_reclaim_def idle_expired_def
        config_for_def default_pool_config_def pool_second_def)

theorem reclaim_spares_guards_witness:
  "\<exists>S. pool_reach 0 default_pool_config Rust S \<and> sy_down S = [(7, Reclaimed, 0)]
    \<and> distinct (map fst (sy_down S))"
proof -
  let ?pk = "\<lparr>pk_server = 7, pk_generation = sl_generation (sy_slot demo_idle), pk_idle_for = 360 * pool_second\<rparr>"
  let ?S1 = "demo_idle\<lparr>sy_peeks := insert (?pk, None, False) (sy_peeks demo_idle)\<rparr>"
  let ?c = "config_for 0 default_pool_config Rust"
  have sr: "should_reclaim ?c (360 * pool_second) None False"
    by (simp add: should_reclaim_def idle_expired_def config_for_def default_pool_config_def pool_second_def)
  have "pool_step 0 default_pool_config Rust demo_idle ?S1"
    by (rule peek) (use sr in \<open>simp_all add: peek_slot_def demo_idle_fields\<close>)
  then have r1: "pool_reach 0 default_pool_config Rust ?S1" using demo_idle_reach step by blast
  have "reclaim_take ?c ?pk None False (sy_now ?S1) (sy_slot ?S1) = (Some 7, snd (take_slot (sy_slot demo_idle)))"
    using sr by (simp add: reclaim_take_def take_slot_def demo_idle_fields)
  from step [OF r1 take_back [OF _ this]] obtain S where
    S: "pool_reach 0 default_pool_config Rust S" "sy_down S = log_down (Some 7) Reclaimed ?S1" by fastforce
  have "sy_down S = [(7, Reclaimed, 0)]"
    using S(2) by (simp add: log_down_def holders_def demo_idle_fields)
  with S(1) reclaim_spares_guards [OF S(1)] show ?thesis by blast
qed

lemma crash_backoff_bounds:
  "min crash_backoff_base cooldown \<le> crash_backoff cooldown k"
  "crash_backoff cooldown k \<le> cooldown"
  "crash_backoff cooldown k \<le> crash_backoff cooldown (Suc k)"
  "18 \<le> k \<Longrightarrow> crash_backoff cooldown k = min (131072 * pool_second) cooldown"
proof -
  show "min crash_backoff_base cooldown \<le> crash_backoff cooldown k"
    by (auto simp: crash_backoff_def min_le_iff_disj)
  show "crash_backoff cooldown k \<le> cooldown" by (simp add: crash_backoff_def)
  have "(2::nat) ^ min (k - 2) 16 \<le> 2 ^ min (Suc k - 2) 16"
    by (rule power_increasing) auto
  then show "crash_backoff cooldown k \<le> crash_backoff cooldown (Suc k)"
    by (simp add: crash_backoff_def min.coboundedI1)
  show "crash_backoff cooldown k = min (131072 * pool_second) cooldown" if "18 \<le> k"
  proof -
    have "min (k - 2) 16 = 16" using that by simp
    then show ?thesis by (simp add: crash_backoff_def crash_backoff_base_def)
  qed
qed

text \<open>Crash loops are throttled and never forever.  Once a second crash in a row is recorded, a
  checkout is refused with \<open>Crashed\<close> exactly until the back-off has passed, without touching the
  slot, and then starts a server again; the back-off is at least two seconds (or the cooldown, if
  that is shorter), never shrinks from one crash to the next and never exceeds the cooldown.\<close>

lemma crash_loop_throttled:
  assumes "retire config True t g s = (Some srv, s')" and "2 \<le> sl_crashes s'" and "pc_start_cooldown config \<noteq> 0"
  defines "backoff \<equiv> crash_backoff (pc_start_cooldown config) (sl_crashes s')"
  shows "acquire_slot config l t' t2 started s'
      = (if t' - t < backoff then (Inl Crashed, s')
         else case started of Inl err \<Rightarrow> (Inl err, start_failed t2 err s')
              | Inr srv' \<Rightarrow> (Inr (fst (install_server t2 srv' s')), snd (install_server t2 srv' s')))
    \<and> min crash_backoff_base (pc_start_cooldown config) \<le> backoff
    \<and> backoff \<le> pc_start_cooldown config
    \<and> backoff \<le> crash_backoff (pc_start_cooldown config) (Suc (sl_crashes s'))"
proof -
  have "sl_server s' = None
      \<and> sl_start_failure s' = Some \<lparr>sf_at = t, sf_kind = SfCrashed, sf_retry_after = Some backoff\<rparr>"
    using assms(1-3)
    by (cases "sl_server s")
       (auto simp: retire_def take_slot_def note_crash_def Let_def backoff_def split: if_splits)
  then have "acquire_slot config l t' t2 started s'
      = (if t' - t < backoff then (Inl Crashed, s')
         else case started of Inl err \<Rightarrow> (Inl err, start_failed t2 err s')
              | Inr srv' \<Rightarrow> (Inr (fst (install_server t2 srv' s')), snd (install_server t2 srv' s')))"
    using assms(3)
    by (auto simp: acquire_slot_def check_out_def start_blocked_def failure_to_error_def
        split: sum.splits prod.splits)
  then show ?thesis
    using crash_backoff_bounds [of "pc_start_cooldown config" "sl_crashes s'"] by (simp add: backoff_def)
qed

definition demo_guard :: guard where
  "demo_guard = \<lparr>gd_server = 7, gd_generation = 1, gd_first_checkout = True\<rparr>"

text \<open>A second crash five seconds after the start.\<close>

lemma demo_retire:
  "\<exists>s'. retire default_pool_config True (5 * pool_second) demo_guard ((sy_slot demo_live)\<lparr>sl_crashes := 1\<rparr>) = (Some 7, s')
     \<and> sl_crashes s' = 2"
  by (simp add: retire_def demo_guard_def demo_live_fields take_slot_def note_crash_def
      crash_loop_window_def pool_second_def default_pool_config_def demo_live_def
      install_server_def fresh_slot_def Let_def)

lemma crash_loop_throttled_witness:
  "\<exists>s'. acquire_slot default_pool_config Rust (6 * pool_second) 0 (Inr 8) s' = (Inl Crashed, s')
     \<and> fst (acquire_slot default_pool_config Rust (7 * pool_second) (7 * pool_second) (Inr 8) s') \<noteq> Inl Crashed"
proof -
  obtain s' where s': "retire default_pool_config True (5 * pool_second) demo_guard
      ((sy_slot demo_live)\<lparr>sl_crashes := 1\<rparr>) = (Some 7, s')" "sl_crashes s' = 2"
    using demo_retire by blast
  have "2 \<le> sl_crashes s'" "pc_start_cooldown default_pool_config \<noteq> 0"
    "crash_backoff (pc_start_cooldown default_pool_config) (sl_crashes s') = 2 * pool_second"
    using s'(2) by (simp_all add: default_pool_config_def pool_second_def crash_backoff_def crash_backoff_base_def)
  note this(3) and t = crash_loop_throttled [OF s'(1) this(1,2), of Rust]
  have "acquire_slot default_pool_config Rust (6 * pool_second) 0 (Inr 8) s' = (Inl Crashed, s')"
    using t [of "6 * pool_second" 0 "Inr 8"] \<open>crash_backoff _ _ = _\<close> by (simp add: pool_second_def)
  moreover have "fst (acquire_slot default_pool_config Rust (7 * pool_second) (7 * pool_second) (Inr 8) s') \<noteq> Inl Crashed"
    using t [of "7 * pool_second" "7 * pool_second" "Inr 8"] \<open>crash_backoff _ _ = _\<close>
    by (simp add: pool_second_def)
  ultimately show ?thesis by blast
qed

text \<open>A request is sent at most twice.  The answer is that of the guarded server unless that
  server exited; then, outside Kotlin, one checkout is tried and the answer of its server is final,
  whatever it is; without a checkout the call answers \<open>Crashed\<close>.  A server that exited under a
  guard of the current generation is always shut down.\<close>

lemma request_sent_at_most_twice:
  "let R = guard_call config l op started t1 t2 t3 t4 g s;
       a = acquire_slot config l t2 t3 started (snd (snd (call_once config t1 g (op (gd_server g)) s)))
   in cr_result R =
        (if op (gd_server g) \<noteq> Inl Crashed \<or> l = Kotlin then op (gd_server g)
         else case fst a of Inl _ \<Rightarrow> Inl Crashed | Inr g2 \<Rightarrow> op (gd_server g2))
      \<and> cr_replacement R =
        (if op (gd_server g) \<noteq> Inl Crashed \<or> l = Kotlin then None
         else case fst a of Inl _ \<Rightarrow> None | Inr g2 \<Rightarrow> Some g2)
      \<and> (op (gd_server g) = Inl Crashed \<and> sl_generation s = gd_generation g \<and> sl_server s = Some (gd_server g)
          \<longrightarrow> gd_server g \<in> set (cr_shut R))"
proof -
  have same: "fst (call_once config t h r s) = r" for t h and r :: "lsp_error + 'a" and s
    by (simp add: call_once_def split: sum.splits lsp_error.splits prod.splits)
  obtain shut s1 where one: "call_once config t1 g (op (gd_server g)) s = (op (gd_server g), shut, s1)"
    using same by (metis prod.exhaust_sel)
  have shut: "gd_server g \<in> set shut" if "op (gd_server g) = Inl Crashed"
    "sl_generation s = gd_generation g" "sl_server s = Some (gd_server g)"
    using one that by (auto simp: call_once_def retire_def Let_def)
  show ?thesis
  proof (cases "op (gd_server g) = Inl Crashed \<and> l \<noteq> Kotlin")
    case False
    then show ?thesis using shut
      by (auto simp: guard_call_def Let_def one resend_after_exit_def)
  next
    case True
    note crashed = one [unfolded conjunct1 [OF True]]
    show ?thesis
    proof (cases "acquire_slot config l t2 t3 started s1")
      case (Pair a s2)
      show ?thesis
      proof (cases a)
        case (Inl err)
        then show ?thesis using True Pair shut
          by (simp add: guard_call_def Let_def crashed resend_after_exit_def)
      next
        case (Inr g2)
        obtain shut2 s3 where "call_once config t4 g2 (op (gd_server g2)) s2 = (op (gd_server g2), shut2, s3)"
          using same by (metis prod.exhaust_sel)
        then show ?thesis using True Pair Inr shut
          by (simp add: guard_call_def Let_def crashed resend_after_exit_def)
      qed
    qed
  qed
qed

lemma request_sent_at_most_twice_witness:
  "7 \<in> set (cr_shut (guard_call default_pool_config Rust (\<lambda>srv. if srv = 7 then Inl Crashed else Inr (42::nat))
       (Inr 8) 1 1 1 1 demo_guard (sy_slot demo_live)))
   \<and> cr_result (guard_call default_pool_config Rust (\<lambda>srv. if srv = 7 then Inl Crashed else Inr (42::nat))
       (Inr 8) 1 1 1 1 demo_guard (sy_slot demo_live)) = Inr 42"
  using request_sent_at_most_twice [of default_pool_config Rust
      "\<lambda>srv. if srv = 7 then Inl Crashed else Inr (42::nat)" "Inr 8" 1 1 1 1 demo_guard "sy_slot demo_live"]
  by (simp add: demo_guard_def demo_live_fields Let_def call_once_def retire_def take_slot_def
      acquire_slot_def check_out_def start_blocked_def note_crash_def crash_loop_window_def
      demo_live_def install_server_def fresh_slot_def pool_second_def default_pool_config_def)

section \<open>Reclaim and timeouts, branch by branch\<close>

lemma reclaim_reason_none:
  "reclaim_reason c idle memory busy = ''none'' \<longleftrightarrow> \<not> should_reclaim c idle memory busy"
  by (simp add: reclaim_reason_def should_reclaim_def split: bool.splits)

lemma config_for_keeps_disabled:
  "pc_memory_limit (config_for cap c l) = 0 \<longleftrightarrow> pc_memory_limit c = 0"
  "pc_memory_hard_limit (config_for cap c l) = 0 \<longleftrightarrow> pc_memory_hard_limit c = 0"
  by (simp_all add: config_for_def Let_def gib_def max_def)

lemma try_reclaim_taken_iff:
  "fst (try_reclaim cap config l memory busy t t s) = Some srv \<longleftrightarrow>
     sl_server s = Some srv \<and> sl_in_flight s = 0
     \<and> should_reclaim (config_for cap config l) (t - sl_last_used s) memory busy"
  by (cases "sl_server s") (auto simp: try_reclaim_def peek_slot_def reclaim_take_def take_slot_def Let_def)

text \<open>The third timeout in a row replaces the server, the first two do not.\<close>

lemma wedged_after_three:
  assumes "sl_generation s = gd_generation g" and "sl_server s = Some srv" and "sl_timeouts s = 0"
    and "call_once config t1 g (Inl (TimeoutErr d)) s = (r1, down1, s1)"
    and "call_once config t2 g (Inl (TimeoutErr d)) s1 = (r2, down2, s2)"
    and "call_once config t3 g (Inl (TimeoutErr d)) s2 = (r3, down3, s3)"
  shows "down1 = [] \<and> down2 = [] \<and> down3 = [srv] \<and> sl_server s3 = None \<and> r3 = Inl (TimeoutErr d)"
proof -
  have s1: "s1 = s\<lparr>sl_timeouts := 1\<rparr>" "down1 = []"
    using assms(1,3,4) by (auto simp: call_once_def note_timeout_def wedged_after_timeouts_def)
  then have s2: "s2 = s\<lparr>sl_timeouts := 2\<rparr>" "down2 = []"
    using assms(1,5) by (auto simp: call_once_def note_timeout_def wedged_after_timeouts_def)
  then show ?thesis
    using s1 assms(1,2,6)
    by (auto simp: call_once_def note_timeout_def wedged_after_timeouts_def retire_def take_slot_def Let_def)
qed

text \<open>Teardown empties every slot and shuts every resident server down.\<close>

lemma shutdown_all_forced:
  "fst (shutdown_all True p) = List.map_filter (\<lambda>(l, s). sl_server s) p
     \<and> (\<forall>l. \<not> is_resident (snd (shutdown_all True p)) l)"
proof (induction p)
  case (Cons e p)
  obtain l s where e: "e = (l, s)" by (cases e)
  show ?case
    using Cons by (cases "sl_server s")
      (auto simp: e shutdown_slot_def take_slot_def is_resident_def map_filter_simps
        split: prod.splits option.splits)
qed (simp add: is_resident_def map_filter_simps)

end
