(* ===== verification/LoopGuard.thy ===== *)
theory LoopGuard
  imports Prelude "HOL-Library.AList"
begin

text \<open>
  The server-side loop guard of the search tools (\<open>astrolabe-mcp/src/loop_guard.rs\<close>): sliding
  windows of successful runs, one per query signature and one overall, with the configuration
  read from the environment.  Instants are nanoseconds; the hash map of signatures is an
  association list (its order never shows).
\<close>

definition lg_second :: nat where "lg_second = 1000000000"

record loop_guard_config =
  lc_repeat_max :: nat
  lc_repeat_window :: nat
  lc_rate_max :: nat
  lc_rate_window :: nat

definition default_loop_guard_config :: loop_guard_config where
  "default_loop_guard_config =
     \<lparr>lc_repeat_max = 3, lc_repeat_window = 600 * lg_second,
      lc_rate_max = 300, lc_rate_window = 600 * lg_second\<rparr>"

text \<open>\<open>parse_num\<close> at \<open>usize\<close> and \<open>u64\<close>.\<close>

definition parse_num :: "string option \<Rightarrow> nat \<Rightarrow> nat" where
  "parse_num raw dflt =
     (case raw of None \<Rightarrow> dflt
      | Some r \<Rightarrow> if trim r = [] then dflt
                  else (case parse_uint (2 ^ 64) (trim r) of Some n \<Rightarrow> n | None \<Rightarrow> dflt))"

definition config_from_lookup :: "(string \<Rightarrow> string option) \<Rightarrow> loop_guard_config" where
  "config_from_lookup get =
     (let repeat_secs = parse_num (get ''ASTROLABE_SEARCH_REPEAT_WINDOW_SECS'') 600;
          rate_secs = parse_num (get ''ASTROLABE_SEARCH_RATE_WINDOW_SECS'') 600;
          repeat_max = parse_num (get ''ASTROLABE_SEARCH_REPEAT_MAX'') 3;
          rate_max = parse_num (get ''ASTROLABE_SEARCH_RATE_MAX'') 300
      in \<lparr>lc_repeat_max = (if repeat_secs = 0 then 0 else repeat_max),
          lc_repeat_window = repeat_secs * lg_second,
          lc_rate_max = (if rate_secs = 0 then 0 else rate_max),
          lc_rate_window = rate_secs * lg_second\<rparr>)"

datatype 'r guard_verdict = Run | RunWithWarning string | Block string 'r

record 'r lg_entry =
  le_runs :: "nat list"
  le_last :: 'r

record 'r loop_guard =
  lg_config :: loop_guard_config
  lg_per_sig :: "(string \<times> 'r lg_entry) list"
  lg_all :: "nat list"

definition loop_guard_new :: "loop_guard_config \<Rightarrow> 'r loop_guard" where
  "loop_guard_new config = \<lparr>lg_config = config, lg_per_sig = [], lg_all = []\<rparr>"

definition prune :: "nat \<Rightarrow> nat \<Rightarrow> nat list \<Rightarrow> nat list" where
  "prune now window q = dropWhile (\<lambda>t. window \<le> now - t) q"

definition sig_key :: "string \<Rightarrow> string \<Rightarrow> nat \<Rightarrow> string" where
  "sig_key tool sig stamp = tool @ [CHR 0x1F] @ show_nat stamp @ [CHR 0x1F] @ sig"

text \<open>The texts; the arguments of each placeholder in the order of the \<open>format!\<close> call.\<close>

definition rate_text :: "loop_guard_config \<Rightarrow> nat \<Rightarrow> string" where
  "rate_text cfg in_window =
     [CHR 0xE2, CHR 0x9A, CHR 0xA0] @ '' loop guard: '' @ show_nat (lc_rate_window cfg div lg_second)
     @ '' successful searches in the last '' @ show_nat (in_window + 1)
     @ '' seconds (limit '' @ show_nat (lc_rate_max cfg)
     @ '').Likely looping: stop rotating queries in bulk, answer from results you have, or switch to find_refs / find_symbol / Read.''"

definition block_text :: "loop_guard_config \<Rightarrow> string \<Rightarrow> nat \<Rightarrow> string" where
  "block_text cfg tool prior =
     ''blocked: true'' @ [CHR 0x0A] @ ''loop guard: this exact '' @ tool
     @ '' query (identical params; index unchanged since last run)already ran '' @ show_nat prior
     @ '' times in the last '' @ show_nat (lc_repeat_window cfg div lg_second)
     @ '' seconds (limit '' @ show_nat (lc_repeat_max cfg)
     @ ''); not re-executed '' @ [CHR 0xE2, CHR 0x80, CHR 0x94]
     @ '' previous result attached below.That result is complete for this query (use it even if the original call was from another subtask or compressed context).For different info, change query/path_filter/budget_tokens, or switch approach(find_refs, goto_def, Read with a line range).''"

definition rate_note :: "nat \<Rightarrow> 'r loop_guard \<Rightarrow> string option \<times> 'r loop_guard" where
  "rate_note now g =
     (let cfg = lg_config g
      in if 0 < lc_rate_max cfg then
           let g' = g\<lparr>lg_all := prune now (lc_rate_window cfg) (lg_all g)\<rparr>
           in (if lc_rate_max cfg \<le> length (lg_all g') then Some (rate_text cfg (length (lg_all g'))) else None, g')
         else (None, g))"

definition check_at :: "string \<Rightarrow> string \<Rightarrow> nat \<Rightarrow> nat \<Rightarrow> 'r loop_guard \<Rightarrow> 'r guard_verdict \<times> 'r loop_guard" where
  "check_at tool sig stamp now g0 =
     (let cfg = lg_config g0; (note, g) = rate_note now g0; k = sig_key tool sig stamp;
          run = (case note of Some n \<Rightarrow> RunWithWarning n | None \<Rightarrow> Run)
      in if 0 < lc_repeat_max cfg then
           (case map_of (lg_per_sig g) k of
              None \<Rightarrow> (run, g)
            | Some e \<Rightarrow>
                let runs = prune now (lc_repeat_window cfg) (le_runs e);
                    g' = g\<lparr>lg_per_sig := AList.update k (e\<lparr>le_runs := runs\<rparr>) (lg_per_sig g)\<rparr>
                in if lc_repeat_max cfg \<le> length runs
                   then (Block (block_text cfg tool (length runs)
                                @ (case note of Some n \<Rightarrow> CHR 0x0A # n | None \<Rightarrow> [])) (le_last e), g')
                   else (run, g'))
         else (run, g))"

definition retain_live :: "nat \<Rightarrow> nat \<Rightarrow> (string \<times> 'r lg_entry) list \<Rightarrow> (string \<times> 'r lg_entry) list" where
  "retain_live now window m =
     filter (\<lambda>(k, e). le_runs e \<noteq> []) (map (\<lambda>(k, e). (k, e\<lparr>le_runs := prune now window (le_runs e)\<rparr>)) m)"

definition push_run :: "nat \<Rightarrow> nat \<Rightarrow> string \<Rightarrow> 'r \<Rightarrow> (string \<times> 'r lg_entry) list \<Rightarrow> (string \<times> 'r lg_entry) list" where
  "push_run now window k result m =
     (case map_of m k of
        Some e \<Rightarrow> AList.update k \<lparr>le_runs = prune now window (le_runs e) @ [now], le_last = result\<rparr> m
      | None \<Rightarrow> AList.update k \<lparr>le_runs = [now], le_last = result\<rparr> m)"

definition record_at :: "string \<Rightarrow> string \<Rightarrow> nat \<Rightarrow> 'r \<Rightarrow> nat \<Rightarrow> 'r loop_guard \<Rightarrow> 'r loop_guard" where
  "record_at tool sig stamp result now g0 =
     (let cfg = lg_config g0;
          g = (if 0 < lc_rate_max cfg
               then g0\<lparr>lg_all := prune now (lc_rate_window cfg) (lg_all g0) @ [now]\<rparr> else g0)
      in if 0 < lc_repeat_max cfg then
           let m = (if 4096 < length (lg_per_sig g)
                    then retain_live now (lc_repeat_window cfg) (lg_per_sig g) else lg_per_sig g)
           in g\<lparr>lg_per_sig := push_run now (lc_repeat_window cfg) (sig_key tool sig stamp) result m\<rparr>
         else g)"

section \<open>Runs of the guard and their history\<close>

text \<open>An executed or refused query of a connection; a history keeps the recorded ones.\<close>

datatype 'r lg_op =
  Checked string string nat nat
| Recorded string string nat 'r nat

fun op_time :: "'r lg_op \<Rightarrow> nat" where
  "op_time (Checked tool sig stamp now) = now"
| "op_time (Recorded tool sig stamp result now) = now"

fun run_op :: "'r lg_op \<Rightarrow> 'r loop_guard \<Rightarrow> 'r loop_guard" where
  "run_op (Checked tool sig stamp now) g = snd (check_at tool sig stamp now g)"
| "run_op (Recorded tool sig stamp result now) g = record_at tool sig stamp result now g"

definition run_ops :: "'r lg_op list \<Rightarrow> 'r loop_guard \<Rightarrow> 'r loop_guard" where
  "run_ops ops g = fold run_op ops g"

fun recorded :: "'r lg_op list \<Rightarrow> (string \<times> 'r \<times> nat) list" where
  "recorded [] = []"
| "recorded (Checked tool sig stamp now # ops) = recorded ops"
| "recorded (Recorded tool sig stamp result now # ops) = (sig_key tool sig stamp, result, now) # recorded ops"

text \<open>The reference: the recorded runs of a key, oldest first, and those still in a window.\<close>

definition runs_of :: "string \<Rightarrow> 'r lg_op list \<Rightarrow> ('r \<times> nat) list" where
  "runs_of k ops = map snd (filter (\<lambda>e. fst e = k) (recorded ops))"

definition in_window :: "nat \<Rightarrow> nat \<Rightarrow> nat list \<Rightarrow> nat list" where
  "in_window now window ts = filter (\<lambda>t. now - t < window) ts"

lemma prune_in_window:
  "sorted ts \<Longrightarrow> prune now window ts = in_window now window ts"
proof (induction ts)
  case (Cons t ts)
  show ?case
  proof (cases "window \<le> now - t")
    case True
    then show ?thesis using Cons by (simp add: prune_def in_window_def)
  next
    case False
    then have "\<forall>u\<in>set ts. now - u < window" using Cons.prems by fastforce
    then have "filter (\<lambda>t. now - t < window) ts = ts" by (simp add: filter_id_conv)
    then show ?thesis using False by (simp add: prune_def in_window_def)
  qed
qed (simp add: prune_def in_window_def)

lemma in_window_later: "now \<le> later \<Longrightarrow> in_window later w (in_window now w ts) = in_window later w ts"
  by (induction ts) (auto simp: in_window_def)

lemma in_window_append [simp]: "in_window now w (xs @ ys) = in_window now w xs @ in_window now w ys"
  by (simp add: in_window_def)

lemma sorted_in_window: "sorted ts \<Longrightarrow> sorted (in_window now w ts)"
  by (simp add: in_window_def sorted_wrt_filter)

lemma set_in_window: "set (in_window now w ts) \<subseteq> set ts"
  by (auto simp: in_window_def)

text \<open>What one window knows of its history at time \<open>now\<close>: the same runs are alive at any later time.\<close>

definition tracks :: "nat \<Rightarrow> nat \<Rightarrow> nat list \<Rightarrow> nat list \<Rightarrow> bool" where
  "tracks now w q hist \<longleftrightarrow>
     sorted q \<and> (\<forall>t\<in>set q. t \<le> now) \<and> (\<forall>later\<ge>now. in_window later w q = in_window later w hist)"

lemma tracks_later: "tracks now w q hist \<Longrightarrow> now \<le> later \<Longrightarrow> tracks later w q hist"
  by (auto simp: tracks_def intro: order_trans)

lemma tracks_prune: "tracks now w q hist \<Longrightarrow> tracks now w (prune now w q) hist"
  using set_in_window [of now w q] sorted_in_window [of q now w]
  unfolding tracks_def by (auto simp only: prune_in_window in_window_later)

lemma tracks_push: "tracks now w q hist \<Longrightarrow> tracks now w (q @ [now]) (hist @ [now])"
  by (auto simp: tracks_def sorted_append)

lemma tracks_live: "tracks now w q hist \<Longrightarrow> prune now w q = in_window now w hist"
  by (simp add: tracks_def prune_in_window)

lemma tracks_Nil: "tracks now w [] []"
  by (simp add: tracks_def)

lemma tracks_expired: "tracks now w q hist \<Longrightarrow> prune now w q = [] \<Longrightarrow> tracks now w [] hist"
proof -
  assume t: "tracks now w q hist" and e: "prune now w q = []"
  have "in_window later w hist = []" if "now \<le> later" for later
  proof -
    have "in_window later w hist = in_window later w (in_window now w hist)"
      using in_window_later [OF that] by simp
    also have "\<dots> = []" using tracks_live [OF t] e by (simp add: in_window_def)
    finally show ?thesis .
  qed
  then show ?thesis by (simp add: tracks_def in_window_def)
qed

definition entry_runs :: "(string \<times> 'r lg_entry) list \<Rightarrow> string \<Rightarrow> nat list" where
  "entry_runs m k = (case map_of m k of Some e \<Rightarrow> le_runs e | None \<Rightarrow> [])"

definition lg_ok :: "loop_guard_config \<Rightarrow> nat \<Rightarrow> 'r lg_op list \<Rightarrow> 'r loop_guard \<Rightarrow> bool" where
  "lg_ok cfg now ops g \<longleftrightarrow>
     lg_config g = cfg \<and> distinct (map fst (lg_per_sig g))
     \<and> (0 < lc_rate_max cfg \<longrightarrow> tracks now (lc_rate_window cfg) (lg_all g) (map (snd \<circ> snd) (recorded ops)))
     \<and> (0 < lc_repeat_max cfg \<longrightarrow>
          (\<forall>k. tracks now (lc_repeat_window cfg) (entry_runs (lg_per_sig g) k) (map snd (runs_of k ops)))
          \<and> (\<forall>k e. map_of (lg_per_sig g) k = Some e \<longrightarrow>
                runs_of k ops \<noteq> [] \<and> le_last e = fst (last (runs_of k ops))))"

lemma lg_ok_later: "lg_ok cfg now ops g \<Longrightarrow> now \<le> later \<Longrightarrow> lg_ok cfg later ops g"
  unfolding lg_ok_def using tracks_later by blast

lemma recorded_snoc:
  "recorded (ops @ [Checked tool sig stamp now]) = recorded ops"
  "recorded (ops @ [Recorded tool sig stamp r now]) = recorded ops @ [(sig_key tool sig stamp, r, now)]"
  by (induction ops rule: recorded.induct) auto

lemma runs_of_snoc:
  "runs_of k (ops @ [Checked tool sig stamp now]) = runs_of k ops"
  "runs_of k (ops @ [Recorded tool sig stamp r now])
     = (if k = sig_key tool sig stamp then runs_of k ops @ [(r, now)] else runs_of k ops)"
  by (simp_all add: runs_of_def recorded_snoc)

lemma rate_note_ok:
  "lg_ok cfg now ops g \<Longrightarrow> lg_ok cfg now ops (snd (rate_note now g))"
  by (auto simp: lg_ok_def rate_note_def Let_def tracks_prune)

lemma rate_note_value:
  assumes "lg_ok cfg now ops g"
  shows "fst (rate_note now g) =
    (let m = length (in_window now (lc_rate_window cfg) (map (snd \<circ> snd) (recorded ops)))
     in if 0 < lc_rate_max cfg \<and> lc_rate_max cfg \<le> m then Some (rate_text cfg m) else None)"
  using assms
  by (auto simp: lg_ok_def rate_note_def Let_def tracks_live)

lemma rate_note_sigs [simp]: "lg_per_sig (snd (rate_note now g)) = lg_per_sig g"
  "lg_config (snd (rate_note now g)) = lg_config g"
  by (simp_all add: rate_note_def Let_def)

lemma prune_entry_ok:
  assumes "lg_ok cfg now ops g" and "0 < lc_repeat_max cfg" and "map_of (lg_per_sig g) k = Some e"
  shows "lg_ok cfg now ops
    (g\<lparr>lg_per_sig := AList.update k (e\<lparr>le_runs := prune now (lc_repeat_window cfg) (le_runs e)\<rparr>) (lg_per_sig g)\<rparr>)"
proof -
  have t: "tracks now (lc_repeat_window cfg) (le_runs e) (map snd (runs_of k ops))"
    using assms by (auto simp: lg_ok_def entry_runs_def dest: spec [of _ k])
  show ?thesis
    using assms tracks_prune [OF t]
    by (auto simp: lg_ok_def entry_runs_def update_conv distinct_update)
qed

lemma check_at_ok:
  assumes "lg_ok cfg now ops g"
  shows "lg_ok cfg now (ops @ [Checked tool sig stamp now]) (snd (check_at tool sig stamp now g))"
proof -
  obtain nt g' where g': "rate_note now g = (nt, g')" by fastforce
  have ok: "lg_ok cfg now ops g'" using rate_note_ok [OF assms] g' by simp
  have cfg: "lg_config g = cfg" using assms by (simp add: lg_ok_def)
  have same: "lg_ok cfg now (ops @ [Checked tool sig stamp now]) h" if "lg_ok cfg now ops h" for h
    using that by (simp add: lg_ok_def recorded_snoc runs_of_snoc)
  have "lg_ok cfg now ops (snd (check_at tool sig stamp now g))"
    using ok prune_entry_ok [OF ok]
    by (simp add: check_at_def g' cfg Let_def split: option.splits)
  then show ?thesis by (rule same)
qed

lemma map_of_map_vals: "map_of (map (\<lambda>(k, v). (k, f v)) m) k = map_option f (map_of m k)"
  by (induction m) auto

lemma map_of_filter_vals:
  "distinct (map fst m) \<Longrightarrow>
   map_of (filter (\<lambda>(k, v). P v) m) k = (case map_of m k of Some v \<Rightarrow> if P v then Some v else None | None \<Rightarrow> None)"
  by (induction m) (auto simp: map_of_eq_None_iff rev_image_eqI split: option.splits)

lemma retain_live_lookup:
  "distinct (map fst m) \<Longrightarrow> map_of (retain_live now w m) k =
     (case map_of m k of None \<Rightarrow> None
      | Some e \<Rightarrow> if prune now w (le_runs e) = [] then None
                  else Some (e\<lparr>le_runs := prune now w (le_runs e)\<rparr>))"
  unfolding retain_live_def
  by (subst map_of_filter_vals) (auto simp: map_of_map_vals comp_def case_prod_beta split: option.splits)

lemma retain_live_distinct: "distinct (map fst m) \<Longrightarrow> distinct (map fst (retain_live now w m))"
  unfolding retain_live_def
  by (rule distinct_map_filter) (simp add: comp_def case_prod_beta)

lemma retain_ok:
  assumes ok: "lg_ok cfg now ops g" and "0 < lc_repeat_max cfg"
  shows "lg_ok cfg now ops (g\<lparr>lg_per_sig := retain_live now (lc_repeat_window cfg) (lg_per_sig g)\<rparr>)"
proof -
  let ?m = "lg_per_sig g" and ?w = "lc_repeat_window cfg"
  have d: "distinct (map fst ?m)" using ok by (simp add: lg_ok_def)
  note look = retain_live_lookup [OF d, of now ?w]
  have t: "tracks now ?w (entry_runs ?m k) (map snd (runs_of k ops))" for k
    using ok assms(2) by (simp add: lg_ok_def)
  have "tracks now ?w (entry_runs (retain_live now ?w ?m) k) (map snd (runs_of k ops))" for k
    using t [of k] tracks_prune [OF t [of k]] tracks_expired [OF t [of k]]
    by (auto simp: entry_runs_def look split: option.splits if_splits)
  moreover have "runs_of k ops \<noteq> [] \<and> le_last e = fst (last (runs_of k ops))"
    if "map_of (retain_live now ?w ?m) k = Some e" for k e
    using that ok assms(2) by (auto simp: look lg_ok_def split: option.splits if_splits)
  ultimately show ?thesis
    using ok retain_live_distinct [OF d] by (simp add: lg_ok_def)
qed

lemma push_ok:
  assumes ok: "lg_ok cfg now ops g" and "0 < lc_repeat_max cfg"
    and all: "0 < lc_rate_max cfg \<Longrightarrow>
      tracks now (lc_rate_window cfg) q (map (snd \<circ> snd) (recorded ops) @ [now])"
  shows "lg_ok cfg now (ops @ [Recorded tool sig stamp r now])
    (g\<lparr>lg_all := q, lg_per_sig := push_run now (lc_repeat_window cfg) (sig_key tool sig stamp) r (lg_per_sig g)\<rparr>)"
proof -
  let ?m = "lg_per_sig g" and ?w = "lc_repeat_window cfg" and ?k = "sig_key tool sig stamp"
  have d: "distinct (map fst ?m)" using ok by (simp add: lg_ok_def)
  have t: "tracks now ?w (entry_runs ?m k) (map snd (runs_of k ops))" for k
    using ok assms(2) by (simp add: lg_ok_def)
  have look: "map_of (push_run now ?w ?k r ?m) k =
      (if k = ?k then Some \<lparr>le_runs = prune now ?w (entry_runs ?m k) @ [now], le_last = r\<rparr> else map_of ?m k)" for k
    by (auto simp: push_run_def entry_runs_def update_conv prune_def split: option.splits)
  have "tracks now ?w (entry_runs (push_run now ?w ?k r ?m) k)
      (map snd (runs_of k (ops @ [Recorded tool sig stamp r now])))" for k
    using t [of k] tracks_push [OF tracks_prune [OF t [of k]]]
    by (auto simp: entry_runs_def look runs_of_snoc)
  moreover have "runs_of k (ops @ [Recorded tool sig stamp r now]) \<noteq> []
      \<and> le_last e = fst (last (runs_of k (ops @ [Recorded tool sig stamp r now])))"
    if "map_of (push_run now ?w ?k r ?m) k = Some e" for k e
    using that ok assms(2) by (auto simp: look runs_of_snoc lg_ok_def split: if_splits)
  moreover have "distinct (map fst (push_run now ?w ?k r ?m))"
    using d by (simp add: push_run_def distinct_update split: option.splits)
  ultimately show ?thesis
    using ok all by (simp add: lg_ok_def recorded_snoc)
qed

lemma record_at_ok:
  assumes ok: "lg_ok cfg now ops g"
  shows "lg_ok cfg now (ops @ [Recorded tool sig stamp r now]) (record_at tool sig stamp r now g)"
proof -
  have cfg: "lg_config g = cfg" using ok by (simp add: lg_ok_def)
  let ?q = "if 0 < lc_rate_max cfg then prune now (lc_rate_window cfg) (lg_all g) @ [now] else lg_all g"
  have q: "tracks now (lc_rate_window cfg) ?q (map (snd \<circ> snd) (recorded ops) @ [now])" if "0 < lc_rate_max cfg"
    using tracks_push [OF tracks_prune] ok that by (simp add: lg_ok_def)
  show ?thesis
  proof (cases "0 < lc_repeat_max cfg")
    case False
    then show ?thesis
      using ok q by (simp add: record_at_def cfg Let_def lg_ok_def recorded_snoc)
  next
    case True
    let ?m = "if 4096 < length (lg_per_sig g)
              then retain_live now (lc_repeat_window cfg) (lg_per_sig g) else lg_per_sig g"
    have eq: "record_at tool sig stamp r now g
        = g\<lparr>lg_all := ?q, lg_per_sig := push_run now (lc_repeat_window cfg) (sig_key tool sig stamp) r ?m\<rparr>"
      using True cfg by (cases g) (simp add: record_at_def Let_def)
    have "lg_ok cfg now ops (g\<lparr>lg_per_sig := ?m\<rparr>)"
    proof (cases "4096 < length (lg_per_sig g)")
      case True
      with retain_ok [OF ok \<open>0 < lc_repeat_max cfg\<close>] show ?thesis by simp
    next
      case False
      then show ?thesis using ok by (cases g) simp
    qed
    from push_ok [OF this True q] show ?thesis
      unfolding eq by (cases g) simp
  qed
qed

lemma run_ops_ok:
  assumes "sorted (map op_time ops)" and "\<forall>op\<in>set ops. op_time op \<le> now"
  shows "lg_ok cfg now ops (run_ops ops (loop_guard_new cfg))"
  using assms
proof (induction ops arbitrary: now rule: rev_induct)
  case Nil
  then show ?case
    by (simp add: lg_ok_def run_ops_def loop_guard_new_def tracks_Nil runs_of_def entry_runs_def)
next
  case (snoc op ops)
  have "lg_ok cfg (op_time op) ops (run_ops ops (loop_guard_new cfg))"
    by (rule snoc.IH) (use snoc.prems in \<open>auto simp: sorted_append\<close>)
  then have "lg_ok cfg (op_time op) (ops @ [op]) (run_ops (ops @ [op]) (loop_guard_new cfg))"
    by (cases op) (simp_all add: run_ops_def check_at_ok record_at_ok)
  then show ?case using snoc.prems by (auto elim: lg_ok_later)
qed

lemma append_sep_inj:
  "a @ c # x = b @ c # y \<Longrightarrow> c \<notin> set a \<Longrightarrow> c \<notin> set b \<Longrightarrow> a = b \<and> x = y"
proof (induction a arbitrary: b)
  case Nil
  then show ?case by (cases b) auto
next
  case (Cons h a)
  then show ?case by (cases b) auto
qed

lemma sig_key_inj:
  assumes "CHR 0x1F \<notin> set tool" and "CHR 0x1F \<notin> set tool'"
    and "sig_key tool sig stamp = sig_key tool' sig' stamp'"
  shows "tool = tool' \<and> sig = sig' \<and> stamp = stamp'"
proof -
  have digits: "CHR 0x1F \<notin> set (show_nat n)" for n
    using show_nat_digits [of "CHR 0x1F" n] by (auto simp: is_ascii_digit_def)
  have "tool = tool' \<and> show_nat stamp @ CHR 0x1F # sig = show_nat stamp' @ CHR 0x1F # sig'"
    using assms by (intro append_sep_inj) (simp_all add: sig_key_def)
  then show ?thesis
    using append_sep_inj [of "show_nat stamp" "CHR 0x1F" sig "show_nat stamp'" sig'] digits
    by (auto dest: show_nat_inj)
qed

section \<open>Properties\<close>

text \<open>C36: the guard decides by a sliding window over the whole history of the connection.  After any
  sequence of checks and recorded runs in time order, a query is refused exactly when its tool,
  arguments and index generation ran at least \<open>repeat_max\<close> times within the window, and is then
  answered with the result of its latest run; otherwise it runs, with the rate warning exactly
  when \<open>rate_max\<close> runs of any query lie within the rate window.  Pruning, and dropping expired
  signatures when the table grows, never change a verdict.\<close>

theorem loop_guard_exact:
  assumes "sorted (map op_time ops)" and "\<forall>op\<in>set ops. op_time op \<le> now"
  shows "fst (check_at tool sig stamp now (run_ops ops (loop_guard_new cfg)))
    = (let runs = runs_of (sig_key tool sig stamp) ops;
           n = length (in_window now (lc_repeat_window cfg) (map snd runs));
           m = length (in_window now (lc_rate_window cfg) (map (snd \<circ> snd) (recorded ops)));
           warning = (if 0 < lc_rate_max cfg \<and> lc_rate_max cfg \<le> m then Some (rate_text cfg m) else None)
       in if 0 < lc_repeat_max cfg \<and> lc_repeat_max cfg \<le> n
          then Block (block_text cfg tool n @ (case warning of Some w \<Rightarrow> CHR 0x0A # w | None \<Rightarrow> []))
                 (fst (last runs))
          else (case warning of Some w \<Rightarrow> RunWithWarning w | None \<Rightarrow> Run))"
proof -
  let ?g = "run_ops ops (loop_guard_new cfg)" and ?k = "sig_key tool sig stamp"
  have ok: "lg_ok cfg now ops ?g" by (rule run_ops_ok [OF assms])
  obtain nt g' where g': "rate_note now ?g = (nt, g')" by fastforce
  have nt: "nt = (let m = length (in_window now (lc_rate_window cfg) (map (snd \<circ> snd) (recorded ops)))
     in if 0 < lc_rate_max cfg \<and> lc_rate_max cfg \<le> m then Some (rate_text cfg m) else None)"
    using rate_note_value [OF ok] g' by simp
  have sigs: "lg_per_sig g' = lg_per_sig ?g" and cfg: "lg_config ?g = cfg"
    using g' rate_note_sigs(1) [of now ?g] ok by (simp_all add: lg_ok_def)
  show ?thesis
  proof (cases "0 < lc_repeat_max cfg")
    case False
    then show ?thesis by (simp add: check_at_def g' cfg nt Let_def split: option.splits)
  next
    case True
    have t: "tracks now (lc_repeat_window cfg) (entry_runs (lg_per_sig ?g) ?k) (map snd (runs_of ?k ops))"
      using ok True by (simp add: lg_ok_def)
    show ?thesis
    proof (cases "map_of (lg_per_sig ?g) ?k")
      case None
      then have "in_window now (lc_repeat_window cfg) (map snd (runs_of ?k ops)) = []"
        using tracks_live [OF t] by (simp add: entry_runs_def prune_def)
      with None True show ?thesis
        by (simp add: check_at_def g' cfg sigs nt Let_def split: option.splits)
    next
      case (Some e)
      then have "prune now (lc_repeat_window cfg) (le_runs e)
          = in_window now (lc_repeat_window cfg) (map snd (runs_of ?k ops))"
        using tracks_live [OF t] by (simp add: entry_runs_def)
      moreover have "le_last e = fst (last (runs_of ?k ops))"
        using ok True Some by (simp add: lg_ok_def)
      ultimately show ?thesis using True Some
        by (simp add: check_at_def g' cfg sigs nt Let_def split: option.splits)
    qed
  qed
qed

definition demo_runs :: "string lg_op list" where
  "demo_runs = [Recorded ''search_code'' ''q'' 5 ''one'' 0, Recorded ''search_code'' ''q'' 5 ''two'' 1,
     Checked ''search_code'' ''q'' 5 2, Recorded ''search_code'' ''q'' 5 ''three'' 2]"

theorem loop_guard_exact_witness:
  "\<exists>t. fst (check_at ''search_code'' ''q'' 5 3 (run_ops demo_runs (loop_guard_new default_loop_guard_config)))
     = Block t ''three''"
  using loop_guard_exact [of demo_runs 3 "''search_code''" "''q''" 5 default_loop_guard_config]
  by (simp add: demo_runs_def runs_of_def in_window_def default_loop_guard_config_def
      lg_second_def Let_def)

text \<open>The rate warning misreports its numbers.  With the default configuration and \<open>n\<close> earlier runs
  in the window the text claims 600 searches within \<open>n + 1\<close> seconds: the window length stands where
  the count belongs and the count where the seconds belong.\<close>

lemma rate_warning_swaps_numbers:
  "rate_text default_loop_guard_config n
     = [CHR 0xE2, CHR 0x9A, CHR 0xA0] @ '' loop guard: '' @ show_nat 600
       @ '' successful searches in the last '' @ show_nat (n + 1) @ '' seconds (limit '' @ show_nat 300
       @ '').Likely looping: stop rotating queries in bulk, answer from results you have, or switch to find_refs / find_symbol / Read.''"
  by (simp add: rate_text_def default_loop_guard_config_def lg_second_def)

end
