(* ===== verification/Budget.thy ===== *)
theory Budget
  imports Prelude
begin

text \<open>
  Token budgeting of tool output (\<open>astrolabe-core/src/budget.rs\<close>): an estimate of four characters
  per token, a budget charged in characters, and the truncation of a ranked list to a budget.
  \<open>usize\<close> has 64 bits; the addition that saturates in the source saturates here.
\<close>

definition usize_max :: nat where "usize_max = 2 ^ 64 - 1"

definition saturating_add :: "nat \<Rightarrow> nat \<Rightarrow> nat" where
  "saturating_add a b = min (a + b) usize_max"

definition div_ceil :: "nat \<Rightarrow> nat \<Rightarrow> nat" where
  "div_ceil a b = (if a mod b = 0 then a div b else a div b + 1)"

definition estimate_tokens :: "string \<Rightarrow> nat" where
  "estimate_tokens s = div_ceil (char_count s) 4"

record token_budget =
  tb_limit :: nat
  tb_used_chars :: nat

definition budget_new :: "nat \<Rightarrow> token_budget" where
  "budget_new limit = \<lparr>tb_limit = limit, tb_used_chars = 0\<rparr>"

definition budget_remaining :: "token_budget \<Rightarrow> nat" where
  "budget_remaining b = tb_limit b - div_ceil (tb_used_chars b) 4"

definition would_exceed :: "token_budget \<Rightarrow> string \<Rightarrow> bool" where
  "would_exceed b s \<longleftrightarrow> tb_limit b < div_ceil (saturating_add (tb_used_chars b) (char_count s)) 4"

definition try_add :: "token_budget \<Rightarrow> string \<Rightarrow> bool \<times> token_budget" where
  "try_add b s =
     (if would_exceed b s then (False, b)
      else (True, b\<lparr>tb_used_chars := tb_used_chars b + char_count s\<rparr>))"

text \<open>The loop of \<open>truncate_ranked\<close> over the items not yet seen.\<close>

fun truncate_from :: "('a \<Rightarrow> string) \<Rightarrow> token_budget \<Rightarrow> 'a list \<Rightarrow> 'a list \<times> nat" where
  "truncate_from render b [] = ([], 0)"
| "truncate_from render b (x # xs) =
     (let (fits, b') = try_add b (render x)
      in if \<not> fits then ([], length (x # xs))
         else (let (kept, omitted) = truncate_from render b' xs in (x # kept, omitted)))"

definition truncate_ranked :: "'a list \<Rightarrow> nat \<Rightarrow> ('a \<Rightarrow> string) \<Rightarrow> 'a list \<times> nat" where
  "truncate_ranked items limit render = truncate_from render (budget_new limit) items"

section \<open>Rounding\<close>

lemma div_ceil_4: "div_ceil a 4 \<le> n \<longleftrightarrow> a \<le> 4 * n"
  by (auto simp: div_ceil_def) presburger+

lemma div_ceil_mono: "a \<le> b \<Longrightarrow> div_ceil a 4 \<le> div_ceil b 4"
  by (meson div_ceil_4 le_trans order_refl)

lemma exceed_iff:
  assumes "4 * tb_limit b < usize_max"
  shows "would_exceed b s \<longleftrightarrow> 4 * tb_limit b < tb_used_chars b + char_count s"
proof -
  have "would_exceed b s \<longleftrightarrow> \<not> saturating_add (tb_used_chars b) (char_count s) \<le> 4 * tb_limit b"
    unfolding would_exceed_def
    using div_ceil_4 [of "saturating_add (tb_used_chars b) (char_count s)" "tb_limit b"] by linarith
  then show ?thesis using assms by (auto simp: saturating_add_def)
qed

section \<open>What truncation keeps\<close>

definition chars_of :: "('a \<Rightarrow> string) \<Rightarrow> 'a list \<Rightarrow> nat" where
  "chars_of render xs = sum_list (map (\<lambda>x. char_count (render x)) xs)"

lemma truncate_from_spec:
  assumes "4 * tb_limit b < usize_max" and "truncate_from render b xs = (kept, omitted)"
    and "tb_used_chars b \<le> 4 * tb_limit b"
  shows "\<exists>n \<le> length xs. kept = take n xs \<and> omitted = length xs - n
     \<and> tb_used_chars b + chars_of render kept \<le> 4 * tb_limit b
     \<and> (n < length xs \<longrightarrow> 4 * tb_limit b < tb_used_chars b + chars_of render (take (Suc n) xs))"
  using assms
proof (induction xs arbitrary: b kept omitted)
  case Nil
  then show ?case by (simp add: chars_of_def)
next
  case (Cons x xs)
  show ?case
  proof (cases "would_exceed b (render x)")
    case True
    then have "4 * tb_limit b < tb_used_chars b + char_count (render x)"
      using exceed_iff [of b "render x"] Cons.prems(1) by simp
    then show ?thesis
      using True Cons.prems by (intro exI [of _ 0]) (auto simp: try_add_def chars_of_def)
  next
    case False
    let ?b = "b\<lparr>tb_used_chars := tb_used_chars b + char_count (render x)\<rparr>"
    obtain kept' where rest: "truncate_from render ?b xs = (kept', omitted)" "kept = x # kept'"
      using Cons.prems(2) False by (auto simp: try_add_def split: prod.splits)
    have "tb_used_chars ?b \<le> 4 * tb_limit ?b"
      using False exceed_iff [of b "render x"] Cons.prems(1) by simp
    then obtain n where n: "n \<le> length xs" "kept' = take n xs" "omitted = length xs - n"
      "tb_used_chars ?b + chars_of render kept' \<le> 4 * tb_limit b"
      "n < length xs \<longrightarrow> 4 * tb_limit b < tb_used_chars ?b + chars_of render (take (Suc n) xs)"
      using Cons.IH [OF _ rest(1)] Cons.prems(1) by auto
    then show ?thesis
      using rest(2) by (intro exI [of _ "Suc n"]) (auto simp: chars_of_def)
  qed
qed

text \<open>Truncation keeps the longest prefix of the ranked items that fits.  The kept items are a
  prefix, the number reported is that of the items left out, their characters fit into four per
  token, and one more item would not have fitted; no lower-ranked item overtakes.\<close>

lemma truncate_ranked_longest_prefix:
  assumes "4 * limit < usize_max"
  shows "\<exists>n \<le> length items. truncate_ranked items limit render = (take n items, length items - n)
    \<and> chars_of render (take n items) \<le> 4 * limit
    \<and> (n < length items \<longrightarrow> 4 * limit < chars_of render (take (Suc n) items))"
proof -
  obtain kept omitted where t: "truncate_from render (budget_new limit) items = (kept, omitted)"
    by fastforce
  then have eq: "truncate_ranked items limit render = (kept, omitted)" by (simp add: truncate_ranked_def)
  from truncate_from_spec [OF _ t] assms show ?thesis
    unfolding eq by (auto simp: budget_new_def)
qed

lemma truncate_ranked_longest_prefix_witness:
  "4 * 2 < usize_max \<and> (\<exists>n \<le> length [''abcde'', ''abcd'', ''a''].
     truncate_ranked [''abcde'', ''abcd'', ''a''] 2 (\<lambda>s. s)
       = (take n [''abcde'', ''abcd'', ''a''], length [''abcde'', ''abcd'', ''a''] - n))"
  using truncate_ranked_longest_prefix [of 2 "[''abcde'', ''abcd'', ''a'']" "\<lambda>s. s"]
  by (auto simp: usize_max_def)

end
