(* ===== verification/Edges.thy ===== *)
theory Edges
  imports FileIdx GraphData "HOL-Library.Multiset"
begin

text \<open>
  The edge lists of the graph (\<open>astrolabe-core/src/index.rs\<close>): the key they are ordered by, sorting
  with duplicates folded into weights, the linear merge of two sorted runs, and the search for
  the smallest symbol around each call, by a linear scan or by a sweep over the lines.  A
  \<open>BTreeSet\<close> is its ascending list and the binary heap of span ends is the ascending list of its
  elements, of which only the least is ever looked at.
\<close>

definition edge_kind_ord :: "edge_kind \<Rightarrow> nat" where
  "edge_kind_ord k = (case k of Import \<Rightarrow> 0 | Call \<Rightarrow> 1 | Inherit \<Rightarrow> 2 | Namespace \<Rightarrow> 3 | Pair \<Rightarrow> 4)"

type_synonym ekey = "u32 \<times> u32 \<times> nat"

definition graph_edge_key :: "code_edge \<Rightarrow> ekey" where
  "graph_edge_key e = (ce_from e, ce_to e, edge_kind_ord (ce_kind e))"

fun dedup_edges :: "code_edge list \<Rightarrow> code_edge list" where
  "dedup_edges [] = []"
| "dedup_edges [e] = [e]"
| "dedup_edges (prev # e # es) =
     (if graph_edge_key e = graph_edge_key prev
      then dedup_edges (prev\<lparr>ce_weight := ce_weight prev + ce_weight e\<rparr> # es)
      else prev # dedup_edges (e # es))"

definition sort_and_merge :: "code_edge list \<Rightarrow> code_edge list" where
  "sort_and_merge edges = dedup_edges (sort_key graph_edge_key edges)"

fun merge_runs :: "code_edge list \<Rightarrow> code_edge list \<Rightarrow> code_edge list" where
  "merge_runs [] b = b"
| "merge_runs a [] = a"
| "merge_runs (x # a) (y # b) =
     (if graph_edge_key x < graph_edge_key y then x # merge_runs a (y # b)
      else if graph_edge_key y < graph_edge_key x then y # merge_runs (x # a) b
      else x\<lparr>ce_weight := ce_weight x + ce_weight y\<rparr> # merge_runs a b)"

definition merge_sorted_edges :: "code_edge list \<Rightarrow> code_edge list \<Rightarrow> code_edge list" where
  "merge_sorted_edges a b = (if b = [] then a else if a = [] then b else merge_runs a b)"

section \<open>The symbol around a call\<close>

definition span :: "code_symbol \<Rightarrow> u32" where
  "span s = cs_end_line s - cs_start_line s"

definition spans_line :: "u32 \<Rightarrow> code_symbol \<Rightarrow> bool" where
  "spans_line line s \<longleftrightarrow> cs_start_line s \<le> line \<and> line \<le> cs_end_line s"

definition smallest_linear :: "code_symbol list \<Rightarrow> u32 \<Rightarrow> code_symbol option" where
  "smallest_linear syms line = min_by_key span (filter (spans_line line) syms)"

definition enclosing_sweep_min_symbols :: nat where "enclosing_sweep_min_symbols = 48"

type_synonym open_syms = "(u32 \<times> nat) list"
type_synonym open_ends = "(u32 \<times> u32 \<times> nat) list"

text \<open>The two inner loops of the sweep, at one line.\<close>

fun open_started ::
  "code_symbol list \<Rightarrow> u32 \<Rightarrow> nat list \<Rightarrow> open_syms \<Rightarrow> open_ends \<Rightarrow> nat list \<times> open_syms \<times> open_ends" where
  "open_started syms line [] op ends = ([], op, ends)"
| "open_started syms line (i # rest) op ends =
     (let s = syms ! i
      in if cs_start_line s \<le> line then
           (if cs_start_line s \<le> cs_end_line s
            then open_started syms line rest (btree_insert (span s, i) op)
                   (insort (cs_end_line s, span s, i) ends)
            else open_started syms line rest op ends)
         else (i # rest, op, ends))"

fun retire_ended :: "u32 \<Rightarrow> open_syms \<Rightarrow> open_ends \<Rightarrow> open_syms \<times> open_ends" where
  "retire_ended line op [] = (op, [])"
| "retire_ended line op ((e, sp, i) # ends) =
     (if line \<le> e then (op, (e, sp, i) # ends)
      else retire_ended line (remove1 (sp, i) op) ends)"

fun sweep ::
  "code_symbol list \<Rightarrow> (string \<times> u32) list \<Rightarrow> nat list \<Rightarrow> nat list \<Rightarrow> open_syms \<Rightarrow> open_ends
     \<Rightarrow> code_symbol option list \<Rightarrow> code_symbol option list" where
  "sweep syms calls [] rest op ends out = out"
| "sweep syms calls (ci # cis) rest op ends out =
     (let line = snd (calls ! ci);
          (rest1, op1, ends1) = open_started syms line rest op ends;
          (op2, ends2) = retire_ended line op1 ends1
      in sweep syms calls cis rest1 op2 ends2
           (out[ci := (case op2 of [] \<Rightarrow> None | (sp, i) # _ \<Rightarrow> Some (syms ! i))]))"

definition enclosing_symbols :: "code_symbol list \<Rightarrow> (string \<times> u32) list \<Rightarrow> code_symbol option list" where
  "enclosing_symbols syms calls =
     (if length syms < enclosing_sweep_min_symbols \<or> length calls < 2
      then map (\<lambda>c. smallest_linear syms (snd c)) calls
      else sweep syms calls
             (sort_key (\<lambda>i. snd (calls ! i)) [0..<length calls])
             (sort_key (\<lambda>i. cs_start_line (syms ! i)) [0..<length syms])
             [] [] (replicate (length calls) None))"

section \<open>Canonical edge lists\<close>

definition edge_sorted :: "code_edge list \<Rightarrow> bool" where
  "edge_sorted es \<longleftrightarrow> sorted_wrt (\<lambda>a b. graph_edge_key a < graph_edge_key b) es"

text \<open>All edges of one key carry the same confidence.\<close>

definition uniform :: "code_edge list \<Rightarrow> bool" where
  "uniform es \<longleftrightarrow>
     (\<forall>e\<in>set es. \<forall>f\<in>set es. graph_edge_key e = graph_edge_key f \<longrightarrow> ce_confidence e = ce_confidence f)"

definition key_weight :: "ekey \<Rightarrow> code_edge list \<Rightarrow> u32" where
  "key_weight k es = sum_list (map ce_weight (filter (\<lambda>e. graph_edge_key e = k) es))"

lemma edge_eqI:
  "graph_edge_key e = graph_edge_key f \<Longrightarrow> ce_weight e = ce_weight f \<Longrightarrow> ce_confidence e = ce_confidence f \<Longrightarrow> e = f"
  by (cases e; cases f) (auto simp: graph_edge_key_def edge_kind_ord_def split: edge_kind.splits)

lemma graph_edge_key_weight [simp]: "graph_edge_key (e\<lparr>ce_weight := w\<rparr>) = graph_edge_key e"
  by (simp add: graph_edge_key_def)

text \<open>The folding of \<open>es\<close>: one edge per key, with the confidence of the key and its total weight.\<close>

definition folds :: "code_edge list \<Rightarrow> code_edge list \<Rightarrow> bool" where
  "folds out es \<longleftrightarrow> edge_sorted out \<and>
     set out = {e. (\<exists>f\<in>set es. graph_edge_key f = graph_edge_key e \<and> ce_confidence f = ce_confidence e)
                   \<and> ce_weight e = key_weight (graph_edge_key e) es}"

lemma edge_sorted_unique:
  assumes "edge_sorted xs" and "edge_sorted ys" and "set xs = set ys"
  shows "xs = ys"
proof -
  have s: "sorted (map graph_edge_key zs) \<and> distinct (map graph_edge_key zs)" if "edge_sorted zs" for zs
    using that strict_sorted_iff [of "map graph_edge_key zs"]
    by (simp add: edge_sorted_def strict_sorted_iff sorted_wrt_map)
  then have "inj_on graph_edge_key (set xs \<union> set ys)"
    using assms by (auto simp: distinct_map)
  then show ?thesis
    using map_sorted_distinct_set_unique [of graph_edge_key xs ys] s assms by blast
qed

lemma folds_unique: "folds xs es \<Longrightarrow> folds ys es \<Longrightarrow> xs = ys"
  by (rule edge_sorted_unique) (auto simp: folds_def)

lemma key_weight_simps [simp]:
  "key_weight k [] = 0"
  "key_weight k (e # es) = (if graph_edge_key e = k then ce_weight e + key_weight k es else key_weight k es)"
  "key_weight k (es @ fs) = key_weight k es + key_weight k fs"
  by (simp_all add: key_weight_def)

lemma key_weight_none: "(\<And>e. e \<in> set es \<Longrightarrow> graph_edge_key e \<noteq> k) \<Longrightarrow> key_weight k es = 0"
  by (induction es) auto

lemma key_weight_mset: "mset es = mset fs \<Longrightarrow> key_weight k es = key_weight k fs"
  unfolding key_weight_def by (simp flip: sum_mset_sum_list)

lemma edge_sorted_Cons:
  "edge_sorted (e # es) \<longleftrightarrow> (\<forall>f\<in>set es. graph_edge_key e < graph_edge_key f) \<and> edge_sorted es"
  by (simp add: edge_sorted_def)

lemma uniform_mono:
  assumes "uniform es"
    and "\<And>e. e \<in> set fs \<Longrightarrow> \<exists>f\<in>set es. graph_edge_key f = graph_edge_key e \<and> ce_confidence f = ce_confidence e"
  shows "uniform fs"
  unfolding uniform_def
proof (intro ballI impI)
  fix e f assume ef: "e \<in> set fs" "f \<in> set fs" "graph_edge_key e = graph_edge_key f"
  obtain e' where "e' \<in> set es" "graph_edge_key e' = graph_edge_key e" "ce_confidence e' = ce_confidence e"
    using assms(2) [OF ef(1)] by blast
  moreover obtain f' where "f' \<in> set es" "graph_edge_key f' = graph_edge_key f" "ce_confidence f' = ce_confidence f"
    using assms(2) [OF ef(2)] by blast
  ultimately show "ce_confidence e = ce_confidence f"
    using assms(1) ef(3) unfolding uniform_def by metis
qed

lemma uniform_subset: "uniform es \<Longrightarrow> set fs \<subseteq> set es \<Longrightarrow> uniform fs"
  unfolding uniform_def by blast

lemma dedup_keys: "graph_edge_key ` set (dedup_edges es) = graph_edge_key ` set es"
  by (induction es rule: dedup_edges.induct) auto

lemma dedup_folds:
  "sorted (map graph_edge_key es) \<Longrightarrow> uniform es \<Longrightarrow> folds (dedup_edges es) es"
proof (induction es rule: dedup_edges.induct)
  case (2 e)
  have "{x. (\<exists>f\<in>set [e]. graph_edge_key f = graph_edge_key x \<and> ce_confidence f = ce_confidence x)
      \<and> ce_weight x = key_weight (graph_edge_key x) [e]} = {e}"
    using edge_eqI [of _ e] by auto
  then show ?case by (simp add: folds_def edge_sorted_def)
next
  case (3 prev e es)
  show ?case
  proof (cases "graph_edge_key e = graph_edge_key prev")
    case True
    let ?p = "prev\<lparr>ce_weight := ce_weight prev + ce_weight e\<rparr>"
    have "sorted (map graph_edge_key (?p # es))" using "3.prems"(1) by simp
    moreover have "uniform (?p # es)" by (rule uniform_mono [OF "3.prems"(2)]) auto
    ultimately have IH: "folds (dedup_edges (?p # es)) (?p # es)" using "3.IH"(1) True by blast
    have w: "key_weight k (?p # es) = key_weight k (prev # e # es)" for k
      using True by (simp add: add.assoc)
    have c: "ce_confidence e = ce_confidence prev"
      using "3.prems"(2) True unfolding uniform_def by (metis list.set_intros(1,2))
    have ex: "(\<exists>f\<in>set (?p # es). graph_edge_key f = k \<and> ce_confidence f = c')
        \<longleftrightarrow> (\<exists>f\<in>set (prev # e # es). graph_edge_key f = k \<and> ce_confidence f = c')" for k c'
      using True c by auto
    show ?thesis using IH True unfolding folds_def w ex by simp
  next
    case False
    have le: "graph_edge_key prev < graph_edge_key f" if "f \<in> set (e # es)" for f
      using "3.prems"(1) False that by (auto simp: less_le)
    have IH: "folds (dedup_edges (e # es)) (e # es)"
      using "3.IH"(2) False "3.prems"(1) uniform_subset [OF "3.prems"(2), of "e # es"] by auto
    have "graph_edge_key prev < graph_edge_key f" if "f \<in> set (dedup_edges (e # es))" for f
      using le dedup_keys [of "e # es"] that by (metis (no_types, lifting) imageE imageI)
    then have sorted: "edge_sorted (prev # dedup_edges (e # es))"
      using IH by (simp add: edge_sorted_Cons folds_def)
    have "key_weight (graph_edge_key prev) (e # es) = 0"
      by (rule key_weight_none) (use le in force)
    then have wp: "key_weight (graph_edge_key prev) (prev # e # es) = ce_weight prev" by simp
    have set: "set (prev # dedup_edges (e # es)) =
        {x. (\<exists>f\<in>set (prev # e # es). graph_edge_key f = graph_edge_key x \<and> ce_confidence f = ce_confidence x)
            \<and> ce_weight x = key_weight (graph_edge_key x) (prev # e # es)}" (is "?L = ?R")
    proof (rule set_eqI)
      fix x
      show "x \<in> ?L \<longleftrightarrow> x \<in> ?R"
      proof (cases "graph_edge_key x = graph_edge_key prev")
        case True
        then have "x \<notin> set (dedup_edges (e # es))"
          using \<open>\<And>f. f \<in> set (dedup_edges (e # es)) \<Longrightarrow> graph_edge_key prev < graph_edge_key f\<close> [of x] by auto
        moreover have only: "f = prev" if "f \<in> set (prev # e # es)" "graph_edge_key f = graph_edge_key prev" for f
          using le [of f] that by auto
        have "(\<exists>f\<in>set (prev # e # es). graph_edge_key f = graph_edge_key x \<and> ce_confidence f = ce_confidence x)
            \<longleftrightarrow> ce_confidence prev = ce_confidence x"
          unfolding True using only by (metis list.set_intros(1))
        then have "x \<in> ?R \<longleftrightarrow> ce_confidence prev = ce_confidence x \<and> ce_weight x = ce_weight prev"
          by (simp only: mem_Collect_eq True wp)
        ultimately show ?thesis using True by (auto intro: edge_eqI)
      next
        case False
        then have "x \<in> ?L \<longleftrightarrow> x \<in> set (dedup_edges (e # es))" by auto
        also have "\<dots> \<longleftrightarrow> x \<in> ?R" using IH False unfolding folds_def by auto
        finally show ?thesis .
      qed
    qed
    show ?thesis using sorted set False by (simp add: folds_def)
  qed
qed (simp add: folds_def edge_sorted_def)

lemma sort_and_merge_folds:
  assumes "uniform es"
  shows "folds (sort_and_merge es) es"
proof -
  have "uniform (sort_key graph_edge_key es)" by (rule uniform_mono [OF assms]) auto
  then have "folds (sort_and_merge es) (sort_key graph_edge_key es)"
    unfolding sort_and_merge_def by (intro dedup_folds) simp_all
  moreover have "key_weight k (sort_key graph_edge_key es) = key_weight k es" for k
    by (rule key_weight_mset) simp
  ultimately show ?thesis by (simp add: folds_def)
qed

lemma sorted_key_filter:
  "edge_sorted es \<Longrightarrow> e \<in> set es \<Longrightarrow> filter (\<lambda>f. graph_edge_key f = graph_edge_key e) es = [e]"
proof (induction es)
  case (Cons x es)
  show ?case
  proof (cases "x = e")
    case True
    then have "filter (\<lambda>f. graph_edge_key f = graph_edge_key e) es = []"
      using Cons.prems(1) by (auto simp: edge_sorted_Cons filter_empty_conv)
    with True show ?thesis by simp
  next
    case False
    with Cons show ?thesis by (auto simp: edge_sorted_Cons)
  qed
qed simp

lemma folds_weight:
  assumes "folds out es"
  shows "key_weight k out = key_weight k es"
proof (cases "\<exists>f\<in>set es. graph_edge_key f = k")
  case False
  moreover from this assms have "\<And>e. e \<in> set out \<Longrightarrow> graph_edge_key e \<noteq> k"
    by (auto simp: folds_def)
  ultimately show ?thesis using key_weight_none [of es k] key_weight_none [of out k] by auto
next
  case True
  then obtain f where f: "f \<in> set es" "graph_edge_key f = k" by blast
  let ?e = "f\<lparr>ce_weight := key_weight k es\<rparr>"
  have "?e \<in> set out" using assms f by (auto simp: folds_def)
  with assms have "filter (\<lambda>g. graph_edge_key g = k) out = [?e]"
    using sorted_key_filter [of out ?e] f(2) by (simp add: folds_def)
  then show ?thesis by (simp add: key_weight_def)
qed

lemma folds_trans:
  assumes "folds out mid" and "\<And>k. key_weight k mid = key_weight k es"
    and "\<And>k c. (\<exists>f\<in>set mid. graph_edge_key f = k \<and> ce_confidence f = c)
      \<longleftrightarrow> (\<exists>f\<in>set es. graph_edge_key f = k \<and> ce_confidence f = c)"
  shows "folds out es"
  using assms(1) unfolding folds_def assms(2,3) .

lemma folds_confidence:
  assumes "folds out es"
  shows "(\<exists>f\<in>set out. graph_edge_key f = k \<and> ce_confidence f = c)
      \<longleftrightarrow> (\<exists>f\<in>set es. graph_edge_key f = k \<and> ce_confidence f = c)"
proof
  assume "\<exists>f\<in>set es. graph_edge_key f = k \<and> ce_confidence f = c"
  then obtain f where f: "f \<in> set es" "graph_edge_key f = k" "ce_confidence f = c" by blast
  then have "f\<lparr>ce_weight := key_weight k es\<rparr> \<in> set out" using assms by (auto simp: folds_def)
  then show "\<exists>f\<in>set out. graph_edge_key f = k \<and> ce_confidence f = c"
    using f by (intro bexI [of _ "f\<lparr>ce_weight := key_weight k es\<rparr>"]) simp_all
qed (use assms in \<open>auto simp: folds_def\<close>)

lemma folds_append:
  assumes "folds out (a @ b)" and "folds a as" and "folds b bs"
  shows "folds out (as @ bs)"
proof (rule folds_trans [OF assms(1)])
  show "key_weight k (a @ b) = key_weight k (as @ bs)" for k
    using folds_weight [OF assms(2)] folds_weight [OF assms(3)] by simp
  show "(\<exists>f\<in>set (a @ b). graph_edge_key f = k \<and> ce_confidence f = c)
      \<longleftrightarrow> (\<exists>f\<in>set (as @ bs). graph_edge_key f = k \<and> ce_confidence f = c)" for k c
    by (simp only: set_append bex_Un folds_confidence [OF assms(2)] folds_confidence [OF assms(3)])
qed

lemma merge_runs_keys:
  "graph_edge_key ` set (merge_runs a b) = graph_edge_key ` (set a \<union> set b)"
  by (induction a b rule: merge_runs.induct) (auto simp: not_less)

lemma merge_runs_above:
  assumes "\<And>f. f \<in> set as \<Longrightarrow> k < graph_edge_key f" and "\<And>f. f \<in> set bs \<Longrightarrow> k < graph_edge_key f"
    and "f \<in> set (merge_runs as bs)"
  shows "k < graph_edge_key f"
proof -
  have "graph_edge_key f \<in> graph_edge_key ` (set as \<union> set bs)"
    unfolding merge_runs_keys [symmetric] using assms(3) by (rule imageI)
  then obtain g where "g \<in> set as \<union> set bs" "graph_edge_key f = graph_edge_key g" by (rule imageE)
  with assms(1,2) show ?thesis by (elim UnE) simp_all
qed

lemma edge_sorted_ConsI:
  "edge_sorted es \<Longrightarrow> (\<And>f. f \<in> set es \<Longrightarrow> graph_edge_key e < graph_edge_key f) \<Longrightarrow> edge_sorted (e # es)"
  by (simp add: edge_sorted_Cons)

lemma edge_sorted_ConsD:
  assumes "edge_sorted (e # es)"
  shows "edge_sorted es" and "f \<in> set es \<Longrightarrow> graph_edge_key e < graph_edge_key f"
  using assms by (simp_all add: edge_sorted_Cons)

lemma edge_sorted_weight: "edge_sorted (e\<lparr>ce_weight := w\<rparr> # es) \<longleftrightarrow> edge_sorted (e # es)"
  by (simp add: edge_sorted_Cons)

lemma edge_sorted_below:
  assumes "edge_sorted (e # es)" and "k < graph_edge_key e" and "f \<in> set (e # es)"
  shows "k < graph_edge_key f"
  using assms edge_sorted_ConsD(2) [OF assms(1), of f] by (cases "f = e") (auto intro: less_trans)

lemma merge_runs_sorted:
  "edge_sorted a \<Longrightarrow> edge_sorted b \<Longrightarrow> edge_sorted (merge_runs a b)"
proof (induction a b rule: merge_runs.induct)
  case (3 x a y b)
  note sx = edge_sorted_ConsD [OF "3.prems"(1)] and sy = edge_sorted_ConsD [OF "3.prems"(2)]
  show ?case
  proof (cases "graph_edge_key x < graph_edge_key y")
    case True
    have "edge_sorted (x # merge_runs a (y # b))"
      by (rule edge_sorted_ConsI [OF "3.IH"(1) [OF True sx(1) "3.prems"(2)]])
        (erule merge_runs_above [OF sx(2) edge_sorted_below [OF "3.prems"(2) True], rotated 2])
    with True show ?thesis by simp
  next
    case x: False
    show ?thesis
    proof (cases "graph_edge_key y < graph_edge_key x")
      case True
      have "edge_sorted (y # merge_runs (x # a) b)"
        by (rule edge_sorted_ConsI [OF "3.IH"(2) [OF x True "3.prems"(1) sy(1)]])
          (erule merge_runs_above [OF edge_sorted_below [OF "3.prems"(1) True] sy(2), rotated 2])
      with x True show ?thesis by simp
    next
      case y: False
      with x have eq: "graph_edge_key y = graph_edge_key x" by simp
      have "edge_sorted (x # merge_runs a b)"
        by (rule edge_sorted_ConsI [OF "3.IH"(3) [OF x y sx(1) sy(1)]])
          (erule merge_runs_above [OF sx(2) sy(2) [unfolded eq], rotated 2])
      with x y show ?thesis by (simp add: edge_sorted_weight)
    qed
  qed
qed (simp_all add: edge_sorted_def)

lemma edge_weight_sorted: "edge_sorted es \<Longrightarrow> e \<in> set es \<Longrightarrow> key_weight (graph_edge_key e) es = ce_weight e"
  by (simp add: key_weight_def sorted_key_filter)

lemma key_weight_merge_runs: "key_weight k (merge_runs a b) = key_weight k a + key_weight k b"
  by (induction a b rule: merge_runs.induct) (auto simp: not_less algebra_simps)

lemma merge_runs_confidence:
  "e \<in> set (merge_runs a b) \<Longrightarrow>
   \<exists>f\<in>set (a @ b). graph_edge_key f = graph_edge_key e \<and> ce_confidence f = ce_confidence e"
proof (induction a b rule: merge_runs.induct)
  case (3 x a y b)
  consider "graph_edge_key x < graph_edge_key y" | "graph_edge_key y < graph_edge_key x"
    | "\<not> graph_edge_key x < graph_edge_key y" "\<not> graph_edge_key y < graph_edge_key x" by blast
  then show ?case
  proof cases
    case 1
    with 3 show ?thesis by auto
  next
    case 2
    moreover have "\<not> graph_edge_key x < graph_edge_key y" using 2 by simp
    ultimately show ?thesis using "3.IH"(2) "3.prems" by auto
  next
    case 3
    with "3.IH"(3) "3.prems" show ?thesis by auto
  qed
qed auto

lemma merge_runs_folds:
  assumes "edge_sorted a" and "edge_sorted b" and "uniform (a @ b)"
  shows "folds (merge_runs a b) (a @ b)"
  unfolding folds_def
proof (intro conjI set_eqI)
  let ?m = "merge_runs a b"
  show s: "edge_sorted ?m" using assms by (intro merge_runs_sorted)
  fix e
  have w: "key_weight k ?m = key_weight k (a @ b)" for k by (simp add: key_weight_merge_runs)
  show "e \<in> set ?m \<longleftrightarrow> e \<in> {e. (\<exists>f\<in>set (a @ b). graph_edge_key f = graph_edge_key e
      \<and> ce_confidence f = ce_confidence e) \<and> ce_weight e = key_weight (graph_edge_key e) (a @ b)}"
  proof
    assume e: "e \<in> set ?m"
    show "e \<in> {e. (\<exists>f\<in>set (a @ b). graph_edge_key f = graph_edge_key e
      \<and> ce_confidence f = ce_confidence e) \<and> ce_weight e = key_weight (graph_edge_key e) (a @ b)}"
      using merge_runs_confidence [OF e] edge_weight_sorted [OF s e] w by auto
  next
    assume "e \<in> {e. (\<exists>f\<in>set (a @ b). graph_edge_key f = graph_edge_key e
      \<and> ce_confidence f = ce_confidence e) \<and> ce_weight e = key_weight (graph_edge_key e) (a @ b)}"
    then obtain f where f: "f \<in> set (a @ b)" "graph_edge_key f = graph_edge_key e"
      "ce_confidence f = ce_confidence e" "ce_weight e = key_weight (graph_edge_key e) (a @ b)" by blast
    then have "graph_edge_key e \<in> graph_edge_key ` set ?m"
      using merge_runs_keys [of a b] by (metis imageI set_append)
    then obtain m where m: "m \<in> set ?m" "graph_edge_key m = graph_edge_key e" by force
    obtain g where g: "g \<in> set (a @ b)" "graph_edge_key g = graph_edge_key m" "ce_confidence g = ce_confidence m"
      using merge_runs_confidence [OF m(1)] by blast
    have "ce_confidence m = ce_confidence e"
      using assms(3) f(1-3) g m(2) unfolding uniform_def by metis
    moreover have "ce_weight m = ce_weight e"
      using edge_weight_sorted [OF s m(1)] w m(2) f(4) by simp
    ultimately show "e \<in> set ?m" using m edge_eqI [of m e] by simp
  qed
qed

text \<open>Splitting off a run that is already sorted and folded changes nothing.\<close>

lemma split_merge_one_sort:
  assumes "uniform (a @ b)" and "edge_sorted b"
  shows "merge_sorted_edges (sort_and_merge a) b = sort_and_merge (a @ b)"
proof (rule folds_unique)
  show "folds (sort_and_merge (a @ b)) (a @ b)" by (rule sort_and_merge_folds [OF assms(1)])
  have a: "folds (sort_and_merge a) a"
    by (rule sort_and_merge_folds) (rule uniform_subset [OF assms(1)], simp)
  then have sa: "edge_sorted (sort_and_merge a)" by (simp add: folds_def)
  have b: "folds b b"
    unfolding folds_def
  proof (intro conjI set_eqI assms(2))
    fix e
    show "e \<in> set b \<longleftrightarrow> e \<in> {e. (\<exists>f\<in>set b. graph_edge_key f = graph_edge_key e
      \<and> ce_confidence f = ce_confidence e) \<and> ce_weight e = key_weight (graph_edge_key e) b}"
      using edge_weight_sorted [OF assms(2)] edge_eqI by (smt (verit) mem_Collect_eq)
  qed
  have u: "uniform (sort_and_merge a @ b)"
  proof (rule uniform_mono [OF assms(1)])
    fix e assume "e \<in> set (sort_and_merge a @ b)"
    then show "\<exists>f\<in>set (a @ b). graph_edge_key f = graph_edge_key e \<and> ce_confidence f = ce_confidence e"
      using folds_confidence [OF a, of "graph_edge_key e" "ce_confidence e"] by auto
  qed
  have "folds (merge_runs (sort_and_merge a) b) (a @ b)"
    by (rule folds_append [OF merge_runs_folds [OF sa assms(2) u] a b])
  moreover have "merge_sorted_edges (sort_and_merge a) b = merge_runs (sort_and_merge a) b"
    by (cases "sort_and_merge a"; cases b) (simp_all add: merge_sorted_edges_def)
  ultimately show "folds (merge_sorted_edges (sort_and_merge a) b) (a @ b)" by simp
qed


section \<open>The sweep answers as the linear scan\<close>

lemma min_by_key_first:
  "i < length xs \<Longrightarrow> P (xs ! i) \<Longrightarrow>
   (\<And>j. j < length xs \<Longrightarrow> P (xs ! j) \<Longrightarrow> (f (xs ! i), i) \<le> (f (xs ! j), j)) \<Longrightarrow>
   min_by_key f (filter P xs) = Some (xs ! i)"
proof (induction xs arbitrary: i)
  case (Cons x xs)
  show ?case
  proof (cases i)
    case 0
    have "f x \<le> f y" if "y \<in> set (filter P xs)" for y
    proof -
      from that obtain j where "j < length xs" "xs ! j = y" "P y" by (auto simp: in_set_conv_nth)
      with Cons.prems(3) [of "Suc j"] 0 show ?thesis by (auto simp: less_le)
    qed
    then have "\<not> f y < f x" if "min_by_key f (filter P xs) = Some y" for y
      using min_by_key_Some [OF that] by (meson not_le)
    then show ?thesis using 0 Cons.prems(2) by (auto split: option.splits)
  next
    case (Suc k)
    have m: "min_by_key f (filter P xs) = Some (xs ! k)"
    proof (rule Cons.IH)
      show "k < length xs" "P (xs ! k)" using Cons.prems(1,2) Suc by simp_all
      fix j assume "j < length xs" "P (xs ! j)"
      then show "(f (xs ! k), k) \<le> (f (xs ! j), j)" using Cons.prems(3) [of "Suc j"] Suc by simp
    qed
    show ?thesis
    proof (cases "P x")
      case True
      then have "f (xs ! k) < f x" using Cons.prems(3) [of 0] Suc by simp
      with True m Suc show ?thesis by simp
    qed (use m Suc in simp)
  qed
qed simp

definition open_key :: "code_symbol list \<Rightarrow> nat \<Rightarrow> u32 \<times> nat" where
  "open_key syms i = (span (syms ! i), i)"

definition end_key :: "code_symbol list \<Rightarrow> nat \<Rightarrow> u32 \<times> u32 \<times> nat" where
  "end_key syms i = (cs_end_line (syms ! i), span (syms ! i), i)"

text \<open>The two orders hold exactly the open indices \<open>A\<close>.\<close>

definition opened :: "code_symbol list \<Rightarrow> nat set \<Rightarrow> open_syms \<Rightarrow> open_ends \<Rightarrow> bool" where
  "opened syms A op ends \<longleftrightarrow>
     sorted op \<and> distinct op \<and> set op = open_key syms ` A \<and>
     sorted ends \<and> distinct ends \<and> set ends = end_key syms ` A"

lemma opened_insert:
  assumes "opened syms A op ends" and "i \<notin> A"
  shows "opened syms (insert i A) (btree_insert (span (syms ! i), i) op)
           (insort (cs_end_line (syms ! i), span (syms ! i), i) ends)"
proof -
  have ek: "(cs_end_line (syms ! i), span (syms ! i), i) = end_key syms i"
    and ok: "(span (syms ! i), i) = open_key syms i" by (simp_all add: end_key_def open_key_def)
  have "end_key syms i \<notin> set ends" using assms by (auto simp: opened_def end_key_def)
  then show ?thesis
    using assms(1) unfolding ek unfolding ok opened_def
    by (simp add: sorted_btree_insert distinct_btree_insert sorted_insort distinct_insort set_insort_key)
qed

lemma open_started_opened:
  "open_started syms line rest op ends = (rest1, op1, ends1) \<Longrightarrow> opened syms A op ends \<Longrightarrow>
   distinct rest \<Longrightarrow> set rest \<inter> A = {} \<Longrightarrow> sorted (map (\<lambda>i. cs_start_line (syms ! i)) rest) \<Longrightarrow>
   \<exists>took. rest = took @ rest1 \<and> (\<forall>i\<in>set took. cs_start_line (syms ! i) \<le> line) \<and>
     (\<forall>i\<in>set rest1. line < cs_start_line (syms ! i)) \<and>
     opened syms (A \<union> {i \<in> set took. cs_start_line (syms ! i) \<le> cs_end_line (syms ! i)}) op1 ends1"
proof (induction syms line rest op ends arbitrary: A rule: open_started.induct)
  case (1 syms line op ends)
  then show ?case by simp
next
  case (2 syms line i rest op ends)
  let ?s = "syms ! i"
  show ?case
  proof (cases "cs_start_line ?s \<le> line")
    case False
    then have "\<forall>j\<in>set (i # rest). line < cs_start_line (syms ! j)"
      using "2.prems"(5) by (auto simp: not_le intro: less_le_trans)
    with False 2 show ?thesis by (intro exI [of _ "[]"]) (auto simp: Let_def)
  next
    case True
    show ?thesis
    proof (cases "cs_start_line ?s \<le> cs_end_line ?s")
      case v: True
      have "open_started syms line rest (btree_insert (span ?s, i) op)
          (insort (cs_end_line ?s, span ?s, i) ends) = (rest1, op1, ends1)"
        using "2.prems"(1) True v by (simp add: Let_def)
      moreover have "opened syms (insert i A) (btree_insert (span ?s, i) op)
          (insort (cs_end_line ?s, span ?s, i) ends)"
        using "2.prems" by (intro opened_insert) auto
      ultimately obtain took where t: "rest = took @ rest1"
        "\<forall>i\<in>set took. cs_start_line (syms ! i) \<le> line"
        "\<forall>i\<in>set rest1. line < cs_start_line (syms ! i)"
        "opened syms (insert i A \<union> {i \<in> set took. cs_start_line (syms ! i) \<le> cs_end_line (syms ! i)}) op1 ends1"
        using "2.IH"(1) [OF refl True v, of "insert i A"] "2.prems"(3-5) by auto
      have "A \<union> {j \<in> set (i # took). cs_start_line (syms ! j) \<le> cs_end_line (syms ! j)}
          = insert i A \<union> {j \<in> set took. cs_start_line (syms ! j) \<le> cs_end_line (syms ! j)}"
        using v by auto
      then show ?thesis using t True by (intro exI [of _ "i # took"]) simp
    next
      case v: False
      have "open_started syms line rest op ends = (rest1, op1, ends1)"
        using "2.prems"(1) True v by (simp add: Let_def)
      then obtain took where t: "rest = took @ rest1"
        "\<forall>i\<in>set took. cs_start_line (syms ! i) \<le> line"
        "\<forall>i\<in>set rest1. line < cs_start_line (syms ! i)"
        "opened syms (A \<union> {i \<in> set took. cs_start_line (syms ! i) \<le> cs_end_line (syms ! i)}) op1 ends1"
        using "2.IH"(2) [OF refl True v, of A] "2.prems"(2-5) by auto
      have "{j \<in> set (i # took). cs_start_line (syms ! j) \<le> cs_end_line (syms ! j)}
          = {j \<in> set took. cs_start_line (syms ! j) \<le> cs_end_line (syms ! j)}"
        using v by auto
      then show ?thesis using t True by (intro exI [of _ "i # took"]) simp
    qed
  qed
qed

lemma opened_tail:
  assumes "opened syms A op ((e, sp, i) # ends)"
  shows "i \<in> A" and "e = cs_end_line (syms ! i)" and "sp = span (syms ! i)"
    and "\<And>j. j \<in> A \<Longrightarrow> e \<le> cs_end_line (syms ! j)"
    and "opened syms (A - {i}) (remove1 (sp, i) op) ends"
proof -
  have set: "insert (e, sp, i) (set ends) = end_key syms ` A" using assms by (simp add: opened_def)
  then have "(e, sp, i) \<in> end_key syms ` A" by auto
  then show i: "i \<in> A" and e: "e = cs_end_line (syms ! i)" and sp: "sp = span (syms ! i)"
    by (auto simp: end_key_def)
  show "e \<le> cs_end_line (syms ! j)" if "j \<in> A" for j
  proof -
    have "end_key syms j \<in> insert (e, sp, i) (set ends)" using that set by simp
    then have "(e, sp, i) \<le> end_key syms j" using assms by (auto simp: opened_def)
    then show ?thesis by (auto simp: end_key_def less_eq_prod_def)
  qed
  have k: "(e, sp, i) = end_key syms i" by (simp add: end_key_def e sp)
  have "set ends = end_key syms ` A - {end_key syms i}"
    using set assms unfolding k opened_def by auto
  also have "\<dots> = end_key syms ` (A - {i})" by (auto simp: end_key_def)
  finally have ends: "set ends = end_key syms ` (A - {i})" .
  have "set (remove1 (sp, i) op) = open_key syms ` A - {open_key syms i}"
    using assms by (simp add: opened_def open_key_def sp)
  also have "\<dots> = open_key syms ` (A - {i})" by (auto simp: open_key_def)
  finally show "opened syms (A - {i}) (remove1 (sp, i) op) ends"
    using assms ends by (simp add: opened_def sorted_remove1)
qed


lemma retire_ended_opened:
  "retire_ended line op ends = (op1, ends1) \<Longrightarrow> opened syms A op ends \<Longrightarrow>
   opened syms {i \<in> A. line \<le> cs_end_line (syms ! i)} op1 ends1"
proof (induction line op ends arbitrary: A rule: retire_ended.induct)
  case (1 line op)
  then have "A = {}" by (auto simp: opened_def)
  with 1 show ?case by simp
next
  case (2 line op e sp i ends)
  note t = opened_tail [OF "2.prems"(2)]
  show ?case
  proof (cases "line \<le> e")
    case True
    have "{i \<in> A. line \<le> cs_end_line (syms ! i)} = A" using t(4) True by (auto intro: order_trans)
    with True 2 show ?thesis by simp
  next
    case False
    then have "{j \<in> A. line \<le> cs_end_line (syms ! j)} = {j \<in> A - {i}. line \<le> cs_end_line (syms ! j)}"
      using t(2) by auto
    moreover have "opened syms {j \<in> A - {i}. line \<le> cs_end_line (syms ! j)} op1 ends1"
      by (rule "2.IH" [OF False _ t(5)]) (use "2.prems"(1) False in simp)
    ultimately show ?thesis by (simp only:)
  qed
qed

lemma opened_answer:
  assumes "opened syms {i. i < length syms \<and> spans_line line (syms ! i)} op ends"
  shows "(case op of [] \<Rightarrow> None | (sp, i) # _ \<Rightarrow> Some (syms ! i)) = smallest_linear syms line"
proof (cases op)
  case Nil
  then have "\<not> spans_line line (syms ! i)" if "i < length syms" for i
    using assms that by (auto simp: opened_def)
  then have "filter (spans_line line) syms = []" by (auto simp: filter_empty_conv in_set_conv_nth)
  with Nil show ?thesis by (simp add: smallest_linear_def)
next
  case (Cons p rest)
  then have "p \<in> open_key syms ` {i. i < length syms \<and> spans_line line (syms ! i)}"
    using assms by (auto simp: opened_def)
  then obtain i where i: "p = (span (syms ! i), i)" "i < length syms" "spans_line line (syms ! i)"
    by (auto simp: open_key_def)
  have "min_by_key span (filter (spans_line line) syms) = Some (syms ! i)"
  proof (rule min_by_key_first [where f = span and P = "spans_line line", OF i(2,3)])
    fix j assume "j < length syms" "spans_line line (syms ! j)"
    then have "(span (syms ! j), j) \<in> set (p # rest)"
      using assms Cons by (auto simp: opened_def open_key_def)
    then show "(span (syms ! i), i) \<le> (span (syms ! j), j)"
      using assms Cons i(1) by (auto simp: opened_def)
  qed
  with Cons i(1) show ?thesis by (simp add: smallest_linear_def)
qed

text \<open>
  What holds between two calls of the sweep: the open symbols \<open>A\<close> have started before every call
  still to come, and a symbol that is neither open nor waiting contains none of their lines.
\<close>

definition sweeping ::
  "code_symbol list \<Rightarrow> u32 list \<Rightarrow> nat list \<Rightarrow> nat set \<Rightarrow> bool" where
  "sweeping syms lines rest A \<longleftrightarrow>
     distinct rest \<and> set rest \<union> A \<subseteq> {..<length syms} \<and> set rest \<inter> A = {} \<and>
     sorted (map (\<lambda>i. cs_start_line (syms ! i)) rest) \<and>
     (\<forall>i\<in>A. \<forall>l\<in>set lines. cs_start_line (syms ! i) \<le> l) \<and>
     (\<forall>i<length syms. \<forall>l\<in>set lines. spans_line l (syms ! i) \<longrightarrow> i \<in> set rest \<union> A)"

lemma sweep_step:
  assumes "sweeping syms (line # lines) rest A" and "opened syms A op ends" and "sorted (line # lines)"
    and "open_started syms line rest op ends = (rest1, op1, ends1)"
    and "retire_ended line op1 ends1 = (op2, ends2)"
  shows "opened syms {i. i < length syms \<and> spans_line line (syms ! i)} op2 ends2"
    and "sweeping syms lines rest1 {i. i < length syms \<and> spans_line line (syms ! i)}"
proof -
  have s: "distinct rest" "set rest \<union> A \<subseteq> {..<length syms}" "set rest \<inter> A = {}"
    "sorted (map (\<lambda>i. cs_start_line (syms ! i)) rest)"
    "\<And>i l. i \<in> A \<Longrightarrow> l \<in> set (line # lines) \<Longrightarrow> cs_start_line (syms ! i) \<le> l"
    "\<And>i l. i < length syms \<Longrightarrow> l \<in> set (line # lines) \<Longrightarrow> spans_line l (syms ! i) \<Longrightarrow> i \<in> set rest \<union> A"
    using assms(1) unfolding sweeping_def by blast+
  obtain took where t: "rest = took @ rest1" "\<forall>i\<in>set took. cs_start_line (syms ! i) \<le> line"
    "\<forall>i\<in>set rest1. line < cs_start_line (syms ! i)"
    "opened syms (A \<union> {i \<in> set took. cs_start_line (syms ! i) \<le> cs_end_line (syms ! i)}) op1 ends1"
    using open_started_opened [OF assms(4,2) s(1,3,4)] by blast
  have here: "{i \<in> A \<union> {i \<in> set took. cs_start_line (syms ! i) \<le> cs_end_line (syms ! i)}.
      line \<le> cs_end_line (syms ! i)} = {i. i < length syms \<and> spans_line line (syms ! i)}"
    (is "?L = ?R")
  proof (rule set_eqI)
    fix i
    show "i \<in> ?L \<longleftrightarrow> i \<in> ?R"
    proof
      assume "i \<in> ?L"
      moreover from this have "cs_start_line (syms ! i) \<le> line" using s(5) t(2) by auto
      moreover have "set took \<union> A \<subseteq> {..<length syms}" using s(2) t(1) by auto
      ultimately show "i \<in> ?R" by (auto simp: spans_line_def)
    next
      assume i: "i \<in> ?R"
      then have "i \<in> set rest \<union> A" using s(6) [of i line] by simp
      moreover have "i \<notin> set rest1" using i t(3) by (auto simp: spans_line_def not_le)
      ultimately show "i \<in> ?L" using i t(1) by (auto simp: spans_line_def intro: order_trans)
    qed
  qed
  show "opened syms ?R op2 ends2"
    using retire_ended_opened [OF assms(5) t(4)] unfolding here .
  have later: "line \<le> l" if "l \<in> set lines" for l using assms(3) that by simp
  have "i \<in> set rest1 \<union> ?R" if "i < length syms" "l \<in> set lines" "spans_line l (syms ! i)" for i l
  proof (cases "i \<in> set rest1")
    case False
    then have "i \<in> set took \<union> A" using s(6) [of i l] that t(1) by auto
    then have "cs_start_line (syms ! i) \<le> line" using s(5) t(2) by auto
    then show ?thesis using that later [OF that(2)] by (auto simp: spans_line_def intro: order_trans)
  qed simp
  moreover have "set rest1 \<inter> ?R = {}" using t(3) by (auto simp: spans_line_def not_le)
  moreover have "sorted (map (\<lambda>i. cs_start_line (syms ! i)) rest1)"
    using s(4) t(1) by (simp add: sorted_append)
  moreover have "\<forall>i\<in>?R. \<forall>l\<in>set lines. cs_start_line (syms ! i) \<le> l"
    using later by (auto simp: spans_line_def intro: order_trans)
  ultimately show "sweeping syms lines rest1 ?R"
    unfolding sweeping_def using s(1,2) t(1) by auto
qed

lemma sweep_nth:
  "sweeping syms (map (\<lambda>c. snd (calls ! c)) cis) rest A \<Longrightarrow> opened syms A op ends \<Longrightarrow>
   sorted (map (\<lambda>c. snd (calls ! c)) cis) \<Longrightarrow> distinct cis \<Longrightarrow> set cis \<subseteq> {..<length out} \<Longrightarrow>
   c < length out \<Longrightarrow>
   length (sweep syms calls cis rest op ends out) = length out \<and>
   sweep syms calls cis rest op ends out ! c =
     (if c \<in> set cis then smallest_linear syms (snd (calls ! c)) else out ! c)"
proof (induction cis arbitrary: rest A op ends out)
  case (Cons ci cis)
  let ?line = "snd (calls ! ci)"
  let ?B = "{i. i < length syms \<and> spans_line ?line (syms ! i)}"
  obtain rest1 op1 ends1 where o: "open_started syms ?line rest op ends = (rest1, op1, ends1)"
    by (metis prod_cases3)
  obtain op2 ends2 where r: "retire_ended ?line op1 ends1 = (op2, ends2)" by fastforce
  have step: "opened syms ?B op2 ends2" "sweeping syms (map (\<lambda>c. snd (calls ! c)) cis) rest1 ?B"
    using sweep_step [OF _ Cons.prems(2) _ o r] Cons.prems(1,3) by simp_all
  let ?out = "out[ci := smallest_linear syms ?line]"
  have "sweep syms calls (ci # cis) rest op ends out = sweep syms calls cis rest1 op2 ends2 ?out"
    using opened_answer [OF step(1)] by (simp add: o r)
  moreover have "length (sweep syms calls cis rest1 op2 ends2 ?out) = length ?out \<and>
    sweep syms calls cis rest1 op2 ends2 ?out ! c =
     (if c \<in> set cis then smallest_linear syms (snd (calls ! c)) else ?out ! c)"
    using Cons.prems(3-6) by (intro Cons.IH [OF step(2,1)]) auto
  ultimately show ?case using Cons.prems(4-6) by (auto simp: nth_list_update)
qed simp

lemma opened_empty: "opened syms {} [] []" by (simp add: opened_def)

lemma enclosing_symbols_linear:
  "enclosing_symbols syms calls = map (\<lambda>c. smallest_linear syms (snd c)) calls"
proof (cases "length syms < enclosing_sweep_min_symbols \<or> length calls < 2")
  case False
  let ?cis = "sort_key (\<lambda>i. snd (calls ! i)) [0..<length calls]"
  let ?rest = "sort_key (\<lambda>i. cs_start_line (syms ! i)) [0..<length syms]"
  let ?out = "replicate (length calls) (None :: code_symbol option)"
  have inv: "sweeping syms (map (\<lambda>c. snd (calls ! c)) ?cis) ?rest {}"
    by (auto simp: sweeping_def)
  have n: "length (sweep syms calls ?cis ?rest [] [] ?out) = length ?out \<and>
    sweep syms calls ?cis ?rest [] [] ?out ! c =
      (if c \<in> set ?cis then smallest_linear syms (snd (calls ! c)) else ?out ! c)"
    if "c < length ?out" for c
    by (rule sweep_nth [OF inv opened_empty]) (use that in auto)
  have "calls \<noteq> []" using False by auto
  then have len: "length (sweep syms calls ?cis ?rest [] [] ?out) = length calls" using n [of 0] by simp
  have "sweep syms calls ?cis ?rest [] [] ?out = map (\<lambda>c. smallest_linear syms (snd c)) calls"
    by (rule nth_equalityI) (use len n in auto)
  with False show ?thesis by (simp add: enclosing_symbols_def)
qed (simp add: enclosing_symbols_def)

text \<open>The sweep over the lines of a large file answers every call exactly as the linear scan
  does: the smallest symbol whose span contains the call's line, the earliest one on a tie, or
  none.  The threshold between the two strategies is therefore unobservable.\<close>

lemma enclosing_sweep_is_linear:
  "enclosing_symbols syms calls = map (\<lambda>c. smallest_linear syms (snd c)) calls"
  by (rule enclosing_symbols_linear)

end
