(* ===== verification/Pairing.thy ===== *)
theory Pairing
  imports GraphData
begin

text \<open>
  The header to implementation pairs of the C family (\<open>resolvers/c_cpp.rs\<close>): a header pairs with
  the sources of its stem in its own directory, else with those in the tree its \<open>include\<close> tree
  mirrors.  A path is its string, an index a position in the list of paths.
\<close>

definition pair_headers :: "string list" where
  "pair_headers = [''h'', ''hh'', ''hpp'', ''hxx'', ''h++'']"

definition pair_sources :: "string list" where
  "pair_sources = [''c'', ''cc'', ''cpp'', ''cxx'', ''c++'', ''m'', ''mm'']"

definition mirror_roots :: "string list" where
  "mirror_roots = [''src'', ''source'', ''lib'']"

definition max_pair_sources :: nat where "max_pair_sources = 4"

definition eq_ignore_ascii_case :: "string \<Rightarrow> string \<Rightarrow> bool" where
  "eq_ignore_ascii_case a b \<longleftrightarrow> ascii_lowercase a = ascii_lowercase b"

definition ext_in :: "string \<Rightarrow> string list \<Rightarrow> bool" where
  "ext_in path exts =
     (case rsplit_once (CHR ''.'') path of None \<Rightarrow> False
      | Some (_, e) \<Rightarrow> slash \<notin> set e \<and> list_ex (\<lambda>x. eq_ignore_ascii_case x e) exts)"

definition dir_stem :: "string \<Rightarrow> string \<times> string" where
  "dir_stem path =
     (let (dir, name) = (case rsplit_once slash path of Some p \<Rightarrow> p | None \<Rightarrow> ([], path));
          stem = (case rsplit_once (CHR ''.'') name of None \<Rightarrow> name | Some (s, _) \<Rightarrow> s)
      in (dir, stem))"

definition join_dir :: "string \<Rightarrow> string \<Rightarrow> string" where
  "join_dir a b = (if a = [] then b else if b = [] then a else a @ [slash] @ b)"

text \<open>The table of sources by directory and stem.\<close>

definition source_table :: "string list \<Rightarrow> string \<times> string \<Rightarrow> nat list option" where
  "source_table paths =
     group_table (\<lambda>i. dir_stem (paths ! i)) (\<lambda>i. i)
       (filter (\<lambda>i. ext_in (paths ! i) pair_sources) [0..<length paths])"

text \<open>The directories tried for a header whose own directory has no source of its stem.\<close>

definition mirror_dirs :: "string \<Rightarrow> string list" where
  "mirror_dirs dir =
     (let segs = (if dir = [] then [] else split_on slash dir)
      in case rposition (\<lambda>s. eq_ignore_ascii_case s ''include'') segs of
           None \<Rightarrow> []
         | Some i \<Rightarrow>
             (let pre = join_with [slash] (take i segs);
                  rest = drop (i + 1) segs;
                  tails = [join_with [slash] rest]
                    @ (if 2 \<le> length rest then [join_with [slash] (drop 1 rest)] else [])
                    @ (if rest \<noteq> [] then [[]] else [])
              in concat (map (\<lambda>root. map (\<lambda>tail. join_dir (join_dir pre root) tail) tails) mirror_roots)))"

fun first_hit :: "(string \<times> string \<Rightarrow> nat list option) \<Rightarrow> string \<Rightarrow> string list \<Rightarrow> nat list" where
  "first_hit tbl stem [] = []"
| "first_hit tbl stem (d # ds) =
     (case tbl (d, stem) of Some hit \<Rightarrow> hit | None \<Rightarrow> first_hit tbl stem ds)"

definition sources_of :: "(string \<times> string \<Rightarrow> nat list option) \<Rightarrow> string \<Rightarrow> nat list" where
  "sources_of tbl p =
     (let (dir, stem) = dir_stem p;
          found = entry_or_empty tbl (dir, stem)
      in if found = [] then first_hit tbl stem (mirror_dirs dir) else found)"

definition header_source_pairs :: "string list \<Rightarrow> (nat \<times> nat) list" where
  "header_source_pairs paths =
     concat (map (\<lambda>h.
       if \<not> ext_in (paths ! h) pair_headers then []
       else (let found = sources_of (source_table paths) (paths ! h)
             in if found = [] \<or> max_pair_sources < length found then []
                else map (\<lambda>s. (h, s)) found)) [0..<length paths])"

definition is_c_family :: "code_file \<Rightarrow> bool" where
  "is_c_family f \<longleftrightarrow> cf_language f \<in> {Some C, Some Cpp, Some ObjC, Some ObjCpp}"

definition pair_edges :: "code_file list \<Rightarrow> code_edge list" where
  "pair_edges files =
     (let c_family = filter is_c_family files;
          paths = map (\<lambda>f. as_str (cf_path f)) c_family
      in map (\<lambda>(h, s). \<lparr>ce_from = file_no (cf_id (c_family ! h)), ce_to = file_no (cf_id (c_family ! s)),
                ce_kind = Pair, ce_weight = 1, ce_confidence = Syntactic\<rparr>)
           (header_source_pairs paths))"

section \<open>What is paired\<close>

abbreviation is_source :: "string \<Rightarrow> bool" where "is_source p \<equiv> ext_in p pair_sources"
abbreviation is_header :: "string \<Rightarrow> bool" where "is_header p \<equiv> ext_in p pair_headers"

lemma source_table_entry:
  "entry_or_empty (source_table paths) k =
     filter (\<lambda>i. is_source (paths ! i) \<and> dir_stem (paths ! i) = k) [0..<length paths]"
  by (simp add: source_table_def conj_commute)

lemma source_table_Some:
  "source_table paths k = Some v \<Longrightarrow>
   v = filter (\<lambda>i. is_source (paths ! i) \<and> dir_stem (paths ! i) = k) [0..<length paths] \<and> v \<noteq> []"
  using source_table_entry [of paths k] by (auto simp: source_table_def group_table_at split: if_splits)

lemma first_hit_cases:
  "first_hit tbl stem ds = [] \<or> (\<exists>d\<in>set ds. tbl (d, stem) = Some (first_hit tbl stem ds))"
  by (induction ds) (auto split: option.splits)

lemma sources_of_form:
  assumes "sources_of (source_table paths) p \<noteq> []"
  obtains d where "d \<in> insert (fst (dir_stem p)) (set (mirror_dirs (fst (dir_stem p))))"
    and "sources_of (source_table paths) p =
      filter (\<lambda>i. is_source (paths ! i) \<and> dir_stem (paths ! i) = (d, snd (dir_stem p))) [0..<length paths]"
proof -
  obtain dir stem where d: "dir_stem p = (dir, stem)" by fastforce
  let ?f = "sources_of (source_table paths) p"
  show ?thesis
  proof (cases "entry_or_empty (source_table paths) (dir, stem) = []")
    case True
    then have f: "?f = first_hit (source_table paths) stem (mirror_dirs dir)"
      by (simp add: sources_of_def d)
    with assms obtain e where "e \<in> set (mirror_dirs dir)" "source_table paths (e, stem) = Some ?f"
      using first_hit_cases [of "source_table paths" stem "mirror_dirs dir"] by auto
    then show ?thesis using that [of e] source_table_Some [of paths "(e, stem)" ?f] d by simp
  next
    case False
    then have "?f = entry_or_empty (source_table paths) (dir, stem)" by (simp add: sources_of_def d)
    then show ?thesis using that [of dir] d by (simp add: source_table_entry)
  qed
qed

lemma sources_of_member:
  assumes "s \<in> set (sources_of (source_table paths) p)"
  shows "s < length paths" and "is_source (paths ! s)" and "snd (dir_stem (paths ! s)) = snd (dir_stem p)"
    and "fst (dir_stem (paths ! s)) \<in> insert (fst (dir_stem p)) (set (mirror_dirs (fst (dir_stem p))))"
    and "distinct (sources_of (source_table paths) p)"
proof -
  have "sources_of (source_table paths) p \<noteq> []" using assms by auto
  then obtain d where d: "d \<in> insert (fst (dir_stem p)) (set (mirror_dirs (fst (dir_stem p))))"
    and f: "sources_of (source_table paths) p =
      filter (\<lambda>i. is_source (paths ! i) \<and> dir_stem (paths ! i) = (d, snd (dir_stem p))) [0..<length paths]"
    by (rule sources_of_form)
  show "distinct (sources_of (source_table paths) p)" unfolding f by simp
  have "s < length paths \<and> is_source (paths ! s) \<and> dir_stem (paths ! s) = (d, snd (dir_stem p))"
    using assms unfolding f by simp
  then show "s < length paths" "is_source (paths ! s)" "snd (dir_stem (paths ! s)) = snd (dir_stem p)"
    "fst (dir_stem (paths ! s)) \<in> insert (fst (dir_stem p)) (set (mirror_dirs (fst (dir_stem p))))"
    using d by simp_all
qed

lemma sources_of_same_dir:
  assumes "s < length paths" and "is_source (paths ! s)" and "dir_stem (paths ! s) = dir_stem p"
  shows "set (sources_of (source_table paths) p)
    = {i. i < length paths \<and> is_source (paths ! i) \<and> dir_stem (paths ! i) = dir_stem p}"
proof -
  have "s \<in> set (entry_or_empty (source_table paths) (dir_stem p))"
    using assms by (simp add: source_table_entry)
  then have "sources_of (source_table paths) p = entry_or_empty (source_table paths) (dir_stem p)"
    by (auto simp: sources_of_def Let_def split: prod.splits)
  then show ?thesis by (auto simp: source_table_entry)
qed

lemma header_source_pairs_iff:
  "(h, s) \<in> set (header_source_pairs paths) \<longleftrightarrow>
     h < length paths \<and> is_header (paths ! h) \<and> s \<in> set (sources_of (source_table paths) (paths ! h))
     \<and> length (sources_of (source_table paths) (paths ! h)) \<le> max_pair_sources"
  by (auto simp: header_source_pairs_def Let_def not_less split: if_splits)

lemma header_not_source: "is_header p \<Longrightarrow> \<not> is_source p"
proof -
  have "\<forall>x\<in>set pair_headers. \<forall>y\<in>set pair_sources. ascii_lowercase x \<noteq> ascii_lowercase y" by code_simp
  then show "is_header p \<Longrightarrow> \<not> is_source p"
    unfolding ext_in_def eq_ignore_ascii_case_def list_ex_iff by (auto split: option.splits) (metis)
qed

text \<open>A pair joins a header to a source of its stem in the header's directory or in a directory
  the header's \<open>include\<close> tree mirrors, never more than four of them; and when the header's own
  directory has sources of its stem, the pairs are exactly those sources, unless there are more
  than four, when there is none.\<close>

lemma header_source_pairs_exact:
  "((h, s) \<in> set (header_source_pairs paths) \<longrightarrow>
      h < length paths \<and> s < length paths \<and> is_header (paths ! h) \<and> is_source (paths ! s)
      \<and> snd (dir_stem (paths ! s)) = snd (dir_stem (paths ! h))
      \<and> fst (dir_stem (paths ! s))
          \<in> insert (fst (dir_stem (paths ! h))) (set (mirror_dirs (fst (dir_stem (paths ! h)))))
      \<and> card {s. (h, s) \<in> set (header_source_pairs paths)} \<le> max_pair_sources)
   \<and> (h < length paths \<longrightarrow> is_header (paths ! h) \<longrightarrow> t < length paths \<longrightarrow> is_source (paths ! t) \<longrightarrow>
      dir_stem (paths ! t) = dir_stem (paths ! h) \<longrightarrow>
      (let same = {i. i < length paths \<and> is_source (paths ! i) \<and> dir_stem (paths ! i) = dir_stem (paths ! h)}
       in (h, s) \<in> set (header_source_pairs paths) \<longleftrightarrow> s \<in> same \<and> card same \<le> max_pair_sources))"
proof (intro conjI impI)
  let ?f = "sources_of (source_table paths) (paths ! h)"
  assume "(h, s) \<in> set (header_source_pairs paths)"
  then have p: "h < length paths" "is_header (paths ! h)" "s \<in> set ?f" "length ?f \<le> max_pair_sources"
    by (simp_all add: header_source_pairs_iff)
  note m = sources_of_member [OF p(3)]
  show "h < length paths" "is_header (paths ! h)" by (fact p)+
  show "s < length paths" "is_source (paths ! s)" "snd (dir_stem (paths ! s)) = snd (dir_stem (paths ! h))"
    "fst (dir_stem (paths ! s))
      \<in> insert (fst (dir_stem (paths ! h))) (set (mirror_dirs (fst (dir_stem (paths ! h)))))"
    by (fact m)+
  have "{s. (h, s) \<in> set (header_source_pairs paths)} \<subseteq> set ?f" by (auto simp: header_source_pairs_iff)
  then have "card {s. (h, s) \<in> set (header_source_pairs paths)} \<le> card (set ?f)"
    by (intro card_mono) auto
  also have "\<dots> \<le> max_pair_sources" using p(4) card_length [of ?f] by simp
  finally show "card {s. (h, s) \<in> set (header_source_pairs paths)} \<le> max_pair_sources" .
next
  let ?f = "sources_of (source_table paths) (paths ! h)"
  let ?same = "{i. i < length paths \<and> is_source (paths ! i) \<and> dir_stem (paths ! i) = dir_stem (paths ! h)}"
  assume a: "h < length paths" "is_header (paths ! h)" "t < length paths" "is_source (paths ! t)"
    "dir_stem (paths ! t) = dir_stem (paths ! h)"
  have same: "set ?f = ?same" by (rule sources_of_same_dir [OF a(3-5)])
  then have "t \<in> set ?f" using a by simp
  then have "distinct ?f" by (rule sources_of_member(5))
  then have n: "length ?f = card ?same" unfolding same [symmetric] by (simp add: distinct_card)
  have "(h, s) \<in> set (header_source_pairs paths) \<longleftrightarrow> s \<in> set ?f \<and> length ?f \<le> max_pair_sources"
    using a(1,2) by (simp add: header_source_pairs_iff)
  then show "let same = ?same in (h, s) \<in> set (header_source_pairs paths)
      \<longleftrightarrow> s \<in> same \<and> card same \<le> max_pair_sources"
    unfolding n same Let_def .
qed

lemma header_source_pairs_exact_witness:
  "(1, 0) \<in> set (header_source_pairs [''a/x.c'', ''a/x.h'', ''b/x.c''])
   \<and> snd (dir_stem ''a/x.c'') = snd (dir_stem ''a/x.h'')"
proof -
  let ?ps = "[''a/x.c'', ''a/x.h'', ''b/x.c'']"
  have "(1, 0) \<in> set (header_source_pairs ?ps)" by code_simp
  then show ?thesis using header_source_pairs_exact [of 1 0 ?ps 0] by simp
qed

lemma pair_edges_shape:
  assumes "e \<in> set (pair_edges files)"
  shows "ce_kind e = Pair" and "ce_weight e = 1" and "ce_confidence e = Syntactic"
    and "\<exists>h\<in>set files. \<exists>s\<in>set files. is_c_family h \<and> is_c_family s \<and> h \<noteq> s
           \<and> ce_from e = file_no (cf_id h) \<and> ce_to e = file_no (cf_id s)"
proof -
  let ?c = "filter is_c_family files"
  let ?ps = "map (\<lambda>f. as_str (cf_path f)) ?c"
  obtain h s where hs: "(h, s) \<in> set (header_source_pairs ?ps)"
    and e: "e = \<lparr>ce_from = file_no (cf_id (?c ! h)), ce_to = file_no (cf_id (?c ! s)),
      ce_kind = Pair, ce_weight = 1, ce_confidence = Syntactic\<rparr>"
    using assms by (auto simp: pair_edges_def Let_def)
  show "ce_kind e = Pair" "ce_weight e = 1" "ce_confidence e = Syntactic" by (simp_all add: e)
  have p: "h < length ?ps" "is_header (?ps ! h)" "s \<in> set (sources_of (source_table ?ps) (?ps ! h))"
    using hs by (simp_all only: header_source_pairs_iff)
  note m = sources_of_member(1,2) [OF p(3)]
  have "?c ! h \<in> set ?c" "?c ! s \<in> set ?c" using p(1) m(1) by (metis length_map nth_mem)+
  moreover have "?c ! h \<noteq> ?c ! s" using p(1,2) m header_not_source by (metis length_map nth_map)
  ultimately show "\<exists>h\<in>set files. \<exists>s\<in>set files. is_c_family h \<and> is_c_family s \<and> h \<noteq> s
      \<and> ce_from e = file_no (cf_id h) \<and> ce_to e = file_no (cf_id s)"
    unfolding e by (intro bexI [of _ "?c ! h"] bexI [of _ "?c ! s"]) auto
qed

end
