(* ===== verification/GoIface.thy ===== *)
theory GoIface
  imports GraphData BTree "HOL-Library.Option_ord"
begin

text \<open>
  Go interface satisfaction (\<open>astrolabe-core/src/go_iface.rs\<close>): the method sets read from one-line
  signatures, embedding within a package, and the \<open>Inherit\<close> edges from a type to the interfaces
  its method set covers; then the queries over those edges.  The hash map of types is the ordered
  map of its entries, since the code visits its keys in ascending order.
\<close>

record code_graph =
  cg_files :: "code_file list"
  cg_symbols :: "code_symbol list"
  cg_edges :: "code_edge list"

definition max_implementors :: nat where "max_implementors = 50"
definition max_embed_depth :: nat where "max_embed_depth = 4"

record method_key =
  mk_name :: string
  mk_params :: "nat option"
  mk_results :: "nat option"

definition count_eq :: "nat option \<Rightarrow> nat option \<Rightarrow> bool" where
  "count_eq a b \<longleftrightarrow> a = None \<or> b = None \<or> a = b"

definition compatible :: "method_key \<Rightarrow> method_key \<Rightarrow> bool" where
  "compatible m other \<longleftrightarrow>
     mk_name m = mk_name other \<and> count_eq (mk_params m) (mk_params other)
     \<and> count_eq (mk_results m) (mk_results other)"

record type_entry =
  te_symbols :: "u32 list"
  te_interface :: bool
  te_methods :: "method_key list"
  te_embeds :: "string option list"

definition empty_entry :: type_entry where
  "empty_entry = \<lparr>te_symbols = [], te_interface = False, te_methods = [], te_embeds = []\<rparr>"

section \<open>Reading signatures\<close>

abbreviation slice :: "'a list \<Rightarrow> nat \<Rightarrow> nat \<Rightarrow> 'a list" where
  "slice s i j \<equiv> take (j - i) (drop i s)"

definition opens :: "char \<Rightarrow> bool" where "opens c \<longleftrightarrow> c \<in> set ''([{''"
definition closes :: "char \<Rightarrow> bool" where "closes c \<longleftrightarrow> c \<in> set '')]}''"

fun close_from :: "string \<Rightarrow> int \<Rightarrow> nat \<Rightarrow> nat option" where
  "close_from [] depth i = None"
| "close_from (c # s) depth i =
     (if opens c then close_from s (depth + 1) (Suc i)
      else if closes c then (if depth - 1 = 0 then Some i else close_from s (depth - 1) (Suc i))
      else close_from s depth (Suc i))"

definition matching_close :: "string \<Rightarrow> nat \<Rightarrow> nat option" where
  "matching_close s i = close_from (drop i s) 0 i"

text \<open>The count is a \<open>u16\<close> that saturates.\<close>

fun count_from :: "string \<Rightarrow> int \<Rightarrow> nat \<Rightarrow> nat" where
  "count_from [] depth n = n"
| "count_from (c # s) depth n =
     (if opens c then count_from s (depth + 1) n
      else if closes c then count_from s (depth - 1) n
      else if c = CHR '','' \<and> depth = 0 then count_from s depth (min 65535 (n + 1))
      else count_from s depth n)"

definition trim_end_commas :: "string \<Rightarrow> string" where
  "trim_end_commas s = rev (dropWhile (\<lambda>c. c = CHR '','') (rev s))"

definition count_list :: "string \<Rightarrow> nat" where
  "count_list inner0 =
     (let inner = trim (trim_end_commas (trim inner0))
      in if inner = [] then 0 else count_from inner 0 1)"

definition ellipsis :: string where "ellipsis = [CHR 0xE2, CHR 0x80, CHR 0xA6]"

definition method_key_of :: "string \<Rightarrow> string \<Rightarrow> method_key" where
  "method_key_of name rest =
     (let unknown = \<lparr>mk_name = name, mk_params = None, mk_results = None\<rparr>
      in if ends_with rest ellipsis then unknown
         else case strip_prefix (trim_start rest) name of
           None \<Rightarrow> unknown
         | Some after0 \<Rightarrow>
             (let after_name = trim_start after0
              in if \<not> starts_with after_name ''('' then unknown
                 else case matching_close after_name 0 of
                   None \<Rightarrow> unknown
                 | Some close \<Rightarrow>
                     (let params = count_list (slice after_name 1 close);
                          tail0 = trim (drop (close + 1) after_name);
                          tail = (case find_sub tail0 ''//'' of Some i \<Rightarrow> trim (take i tail0) | None \<Rightarrow> tail0);
                          results = (if tail = [] then Some 0
                                     else if starts_with tail ''(''
                                       then map_option (\<lambda>c. count_list (slice tail 1 c)) (matching_close tail 0)
                                     else Some 1)
                      in \<lparr>mk_name = name, mk_params = Some params, mk_results = results\<rparr>)))"

definition trim_start_stars :: "string \<Rightarrow> string" where
  "trim_start_stars s = dropWhile (\<lambda>c. c = CHR ''*'') s"

definition receiver_and_rest :: "string \<Rightarrow> (string \<times> string) option" where
  "receiver_and_rest sig =
     (case strip_prefix (trim_start sig) ''func'' of
        None \<Rightarrow> None
      | Some s0 \<Rightarrow>
          (let s = trim_start s0
           in if \<not> starts_with s ''('' then None
              else case matching_close s 0 of
                None \<Rightarrow> None
              | Some close \<Rightarrow>
                  (let recv = trim (slice s 1 close);
                       ty0 = trim_start_stars (concat (last (split_by is_ws_char (utf8_chars recv))));
                       ty = trim (hd (split_on (CHR ''['') ty0))
                   in if ty = [] \<or> CHR ''.'' \<in> set ty then None
                      else Some (ty, drop (close + 1) s))))"

definition embedded :: "code_symbol \<Rightarrow> string option option" where
  "embedded s =
     (case split_whitespace (cs_signature s) of
        [] \<Rightarrow> None
      | w # ws \<Rightarrow>
          (let named = (case ws of [] \<Rightarrow> False
                        | nxt # _ \<Rightarrow> \<not> (starts_with nxt [CHR 0x60] \<or> starts_with nxt ''//''));
               first = hd (split_on (CHR ''['') (trim_start_stars w))
           in if named then None
              else if first = cs_name s then Some (Some (cs_name s))
              else if ends_with first (''.'' @ cs_name s) then Some None
              else None))"

section \<open>The types of the packages\<close>

type_synonym type_name = "string \<times> string"
type_synonym types = "(type_name, type_entry) btree"

definition with_entry :: "type_name \<Rightarrow> (type_entry \<Rightarrow> type_entry) \<Rightarrow> types \<Rightarrow> types" where
  "with_entry k f ts = bt_insert k (f (case bt_get ts k of None \<Rightarrow> empty_entry | Some e \<Rightarrow> e)) ts"

definition go_dirs :: "code_file list \<Rightarrow> file_id \<Rightarrow> string option" where
  "go_dirs files =
     foldl (\<lambda>m f. if cf_language f = Some Go then m(cf_id f \<mapsto> rel_dir (cf_path f)) else m) Map.empty files"

definition declare_type :: "string \<Rightarrow> types \<Rightarrow> code_symbol \<Rightarrow> types" where
  "declare_type dir ts s =
     (if cs_kind s \<in> {Interface, Struct, TypeK} then
        with_entry (dir, cs_name s)
          (\<lambda>e. e\<lparr>te_symbols := te_symbols e @ [symbol_no (cs_id s)],
                 te_interface := te_interface e \<or> cs_kind s = Interface\<rparr>) ts
      else ts)"

definition go_containers :: "code_symbol list \<Rightarrow> code_symbol list" where
  "go_containers syms =
     sort_key (\<lambda>s. (uint (cs_start_line s), - uint (cs_end_line s)))
       (filter (\<lambda>s. cs_kind s \<in> {Interface, Struct}) syms)"

definition enclosing_container :: "code_symbol list \<Rightarrow> u32 \<Rightarrow> code_symbol option" where
  "enclosing_container containers line =
     (let n = partition_point (\<lambda>c. cs_start_line c \<le> line) containers
      in min_by_key (\<lambda>c. cs_end_line c - cs_start_line c)
           (filter (\<lambda>c. line \<le> cs_end_line c) (take 8 (rev (take n containers)))))"

definition declare_member :: "string \<Rightarrow> code_symbol list \<Rightarrow> types \<Rightarrow> code_symbol \<Rightarrow> types" where
  "declare_member dir containers ts s =
     (if cs_kind s = Method \<and> starts_with (trim_start (cs_signature s)) ''func'' then
        (case receiver_and_rest (cs_signature s) of
           None \<Rightarrow> ts
         | Some (recv, rest) \<Rightarrow>
             with_entry (dir, recv) (\<lambda>e. e\<lparr>te_methods := te_methods e @ [method_key_of (cs_name s) rest]\<rparr>) ts)
      else if cs_kind s = Method then
        (case enclosing_container containers (cs_start_line s) of
           None \<Rightarrow> ts
         | Some c \<Rightarrow>
             if cs_kind c = Interface \<and> cs_id c \<noteq> cs_id s
             then with_entry (dir, cs_name c)
                    (\<lambda>e. e\<lparr>te_methods := te_methods e @ [method_key_of (cs_name s) (cs_signature s)]\<rparr>) ts
             else ts)
      else if cs_kind s = Field then
        (case embedded s of
           None \<Rightarrow> ts
         | Some emb \<Rightarrow>
             (case enclosing_container containers (cs_start_line s) of
                None \<Rightarrow> ts
              | Some c \<Rightarrow> with_entry (dir, cs_name c) (\<lambda>e. e\<lparr>te_embeds := te_embeds e @ [emb]\<rparr>) ts))
      else ts)"

definition declare_file :: "string \<Rightarrow> code_symbol list \<Rightarrow> types \<Rightarrow> types" where
  "declare_file dir syms ts =
     foldl (declare_member dir (go_containers syms)) (foldl (declare_type dir) ts syms) syms"

definition go_types :: "code_graph \<Rightarrow> types" where
  "go_types g =
     (let dir_of = go_dirs (cg_files g);
          syms = filter (\<lambda>s. dir_of (cs_file s) \<noteq> None) (cg_symbols g);
          by_file = group_table cs_file (\<lambda>s. s) syms;
          files = sort_dedup (map cs_file syms)
      in foldl (\<lambda>ts f. declare_file (the (dir_of f)) (entry_or_empty by_file f) ts) [] files)"

section \<open>Method sets\<close>

function method_set ::
    "types \<Rightarrow> string \<Rightarrow> string \<Rightarrow> nat \<Rightarrow> string list \<Rightarrow> method_key list \<Rightarrow> bool \<times> string list \<times> method_key list"
  and embed_loop ::
    "types \<Rightarrow> string \<Rightarrow> string option list \<Rightarrow> nat \<Rightarrow> bool \<Rightarrow> string list \<Rightarrow> method_key list
       \<Rightarrow> bool \<times> string list \<times> method_key list" where
  "method_set ts dir name depth seen out =
     (case bt_get ts (dir, name) of
        None \<Rightarrow> (False, seen, out)
      | Some e \<Rightarrow> embed_loop ts dir (te_embeds e) depth True seen (out @ te_methods e))"
| "embed_loop ts dir [] depth complete seen out = (complete, seen, out)"
| "embed_loop ts dir (emb # embs) depth complete seen out =
     (case emb of
        Some name \<Rightarrow>
          if depth < max_embed_depth \<and> name \<notin> set seen then
            (let (c, seen', out') = method_set ts dir name (Suc depth) (name # seen) out
             in embed_loop ts dir embs depth (complete \<and> c) seen' out')
          else if depth < max_embed_depth then embed_loop ts dir embs depth complete seen out
          else embed_loop ts dir embs depth False seen out
      | None \<Rightarrow> embed_loop ts dir embs depth False seen out)"
  by pat_completeness auto
termination
  by (relation "measures
    [\<lambda>x. case x of Inl (_, _, _, depth, _, _) \<Rightarrow> max_embed_depth + 1 - depth
       | Inr (_, _, _, depth, _, _, _) \<Rightarrow> max_embed_depth + 1 - depth,
     \<lambda>x. case x of Inl _ \<Rightarrow> 1 | Inr _ \<Rightarrow> 0,
     \<lambda>x. case x of Inl _ \<Rightarrow> 0 | Inr (_, _, embs, _, _, _, _) \<Rightarrow> length embs]")
    auto

declare method_set.simps [simp del] embed_loop.simps [simp del]

text \<open>The method set of one type, and whether all of it is known.\<close>

definition full_set :: "types \<Rightarrow> type_name \<Rightarrow> bool \<times> method_key list" where
  "full_set ts k =
     (case method_set ts (fst k) (snd k) 0 [snd k] [] of (complete, seen, out) \<Rightarrow> (complete, out))"

definition go_concrete :: "types \<Rightarrow> (type_name \<times> method_key list) list" where
  "go_concrete ts =
     concat (map (\<lambda>(k, e). let (complete, out) = full_set ts k in
        if te_symbols e \<noteq> [] \<and> \<not> te_interface e \<and> out \<noteq> [] then [(k, out)] else []) ts)"

definition go_interfaces :: "types \<Rightarrow> (type_name \<times> method_key list) list" where
  "go_interfaces ts =
     concat (map (\<lambda>(k, e). let (complete, out) = full_set ts k in
        if te_symbols e \<noteq> [] \<and> te_interface e \<and> complete \<and> out \<noteq> [] then [(k, out)] else []) ts)"

section \<open>The implementation edges\<close>

definition by_method_table :: "(type_name \<times> method_key list) list \<Rightarrow> string \<Rightarrow> nat list option" where
  "by_method_table concrete =
     group_table fst snd
       (concat (map (\<lambda>i. map (\<lambda>n. (n, i)) (sort_dedup (map mk_name (snd (concrete ! i))))) [0..<length concrete]))"

definition importer_dirs :: "(file_id \<Rightarrow> string option) \<Rightarrow> code_edge list \<Rightarrow> (string \<times> string) list" where
  "importer_dirs dir_of edges =
     concat (map (\<lambda>e. case (dir_of (FileId (ce_from e)), dir_of (FileId (ce_to e))) of
                 (Some f, Some t) \<Rightarrow> [(t, f)] | _ \<Rightarrow> [])
       (filter (\<lambda>e. ce_kind e = Import) edges))"

definition satisfies :: "method_key list \<Rightarrow> method_key list \<Rightarrow> bool" where
  "satisfies iface cset \<longleftrightarrow> list_all (\<lambda>need. list_ex (compatible need) cset) iface"

definition nearby :: "(string \<times> string) list \<Rightarrow> string \<Rightarrow> string \<Rightarrow> bool" where
  "nearby imps dir cdir \<longleftrightarrow> cdir = dir \<or> (dir, cdir) \<in> set imps"

text \<open>The candidate loop, with its early break.\<close>

fun find_impls :: "(nat \<Rightarrow> bool) \<Rightarrow> nat list \<Rightarrow> nat list \<Rightarrow> nat list" where
  "find_impls P [] found = found"
| "find_impls P (ci # cis) found =
     (if P ci then (if max_implementors < length (found @ [ci]) then found @ [ci]
                    else find_impls P cis (found @ [ci]))
      else find_impls P cis found)"

definition inherit_edge :: "u32 \<Rightarrow> u32 \<Rightarrow> code_edge" where
  "inherit_edge f t = \<lparr>ce_from = f, ce_to = t, ce_kind = Inherit, ce_weight = 1, ce_confidence = Syntactic\<rparr>"

definition entry_symbols :: "types \<Rightarrow> type_name \<Rightarrow> u32 list" where
  "entry_symbols ts k = (case bt_get ts k of None \<Rightarrow> [] | Some e \<Rightarrow> te_symbols e)"

definition iface_edges ::
  "types \<Rightarrow> (type_name \<times> method_key list) list \<Rightarrow> type_name \<Rightarrow> nat list \<Rightarrow> code_edge list" where
  "iface_edges ts concrete ikey found =
     concat (map (\<lambda>ci. concat (map (\<lambda>f. map (\<lambda>t. inherit_edge f t) (entry_symbols ts ikey))
                         (entry_symbols ts (fst (concrete ! ci))))) found)"

definition edges_of_iface ::
  "types \<Rightarrow> (type_name \<times> method_key list) list \<Rightarrow> (string \<Rightarrow> nat list option) \<Rightarrow> (string \<times> string) list
     \<Rightarrow> type_name \<times> method_key list \<Rightarrow> code_edge list" where
  "edges_of_iface ts concrete by_method imps iface =
     (case min_by_key fst (map (\<lambda>m. (length (entry_or_empty by_method (mk_name m)), mk_name m)) (snd iface)) of
        None \<Rightarrow> []
      | Some (_, rarest) \<Rightarrow>
          (case by_method rarest of
             None \<Rightarrow> []
           | Some cands \<Rightarrow>
               (let found = find_impls (\<lambda>ci. nearby imps (fst (fst iface)) (fst (fst (concrete ! ci)))
                                          \<and> satisfies (snd iface) (snd (concrete ! ci))) cands []
                in if found = [] \<or> max_implementors < length found then []
                   else iface_edges ts concrete (fst iface) found)))"

definition implementation_edges :: "code_graph \<Rightarrow> code_edge list \<Rightarrow> code_edge list" where
  "implementation_edges g import_edges =
     (let dir_of = go_dirs (cg_files g)
      in if \<not> list_ex (\<lambda>f. cf_language f = Some Go) (cg_files g) then []
         else
           (let ts = go_types g; concrete = go_concrete ts; interfaces = go_interfaces ts
            in if interfaces = [] \<or> concrete = [] then []
               else concat (map (edges_of_iface ts concrete (by_method_table concrete)
                              (importer_dirs dir_of import_edges)) interfaces)))"

section \<open>Queries over the implementation edges\<close>

definition sym_by_no :: "code_graph \<Rightarrow> u32 \<Rightarrow> code_symbol option" where
  "sym_by_no g n =
     (if unat n < length (cg_symbols g) \<and> symbol_no (cs_id (cg_symbols g ! unat n)) = n
      then Some (cg_symbols g ! unat n) else None)"

definition path_table :: "code_graph \<Rightarrow> file_id \<Rightarrow> string option" where
  "path_table g = foldl (\<lambda>m f. m(cf_id f \<mapsto> as_str (cf_path f))) Map.empty (cg_files g)"

definition implementors_of :: "code_graph \<Rightarrow> u32 set \<Rightarrow> (u32, u32 list) btree" where
  "implementors_of g ifaces =
     (if ifaces = {} then []
      else
        (let grouped = foldl (\<lambda>m e. bt_insert (ce_to e)
                 ((case bt_get m (ce_to e) of None \<Rightarrow> [] | Some v \<Rightarrow> v) @ [ce_from e]) m) []
               (filter (\<lambda>e. ce_kind e = Inherit \<and> ce_to e \<in> ifaces) (cg_edges g));
             paths = path_table g;
             key = (\<lambda>n. map_option (\<lambda>s. (case paths (cs_file s) of Some p \<Rightarrow> p | None \<Rightarrow> [], cs_start_line s))
                         (sym_by_no g n))
         in map (\<lambda>(to, ids). (to, remdups_adj (sort_key key ids))) grouped))"

definition is_test_double :: "string \<Rightarrow> string \<Rightarrow> bool" where
  "is_test_double path name =
     (let lower = ascii_lowercase path; n = ascii_lowercase name
      in ends_with lower ''_test.go''
         \<or> list_ex (\<lambda>seg. contains_sub seg ''mock'' \<or> contains_sub seg ''fake'' \<or> seg = ''testdata'' \<or> seg = ''testutil'')
             (split_on slash lower)
         \<or> list_ex (\<lambda>p. starts_with n p) [''mock'', ''fake'', ''stub''])"


section \<open>The shortcuts of the candidate search\<close>

lemma filter_tagged:
  "distinct D \<Longrightarrow> map snd (filter (\<lambda>x. fst x = n) (map (\<lambda>m. (m, i)) D)) = (if n \<in> set D then [i] else [])"
  by (induction D) auto

lemma by_method_entry:
  "entry_or_empty (by_method_table concrete) n =
     filter (\<lambda>i. n \<in> mk_name ` set (snd (concrete ! i))) [0..<length concrete]"
proof -
  let ?D = "\<lambda>i. sort_dedup (map mk_name (snd (concrete ! i)))"
  have "map snd (filter (\<lambda>x. fst x = n) (concat (map (\<lambda>i. map (\<lambda>m. (m, i)) (?D i)) xs)))
      = filter (\<lambda>i. n \<in> set (?D i)) xs" for xs
  proof (induction xs)
    case (Cons i xs)
    then show ?case using filter_tagged [of "?D i" n i] by simp
  qed simp
  then show ?thesis unfolding by_method_table_def group_table_entry by simp
qed

lemma by_method_None:
  "by_method_table concrete n = None \<Longrightarrow> i < length concrete \<Longrightarrow> n \<notin> mk_name ` set (snd (concrete ! i))"
proof -
  assume "by_method_table concrete n = None" and i: "i < length concrete"
  then have "filter (\<lambda>i. n \<in> mk_name ` set (snd (concrete ! i))) [0..<length concrete] = []"
    using by_method_entry [of concrete n] by simp
  with i show ?thesis by (simp only: filter_empty_conv set_upt) simp
qed

lemma find_impls_exact:
  "length found \<le> max_implementors \<Longrightarrow>
   (if length (found @ filter P cis) \<le> max_implementors then find_impls P cis found = found @ filter P cis
    else max_implementors < length (find_impls P cis found))"
proof (induction P cis found rule: find_impls.induct)
  case (2 P ci cis found)
  show ?case
  proof (cases "P ci")
    case True
    show ?thesis
    proof (cases "max_implementors < length (found @ [ci])")
      case False
      then have "length (found @ [ci]) \<le> max_implementors" by simp
      from "2.IH"(1) [OF True False this] True False show ?thesis by simp
    qed (use True in simp)
  qed (use 2 in simp)
qed simp

definition all_implementors ::
  "(type_name \<times> method_key list) list \<Rightarrow> (string \<times> string) list \<Rightarrow> type_name \<times> method_key list \<Rightarrow> nat list" where
  "all_implementors concrete imps iface =
     filter (\<lambda>ci. nearby imps (fst (fst iface)) (fst (fst (concrete ! ci)))
                  \<and> satisfies (snd iface) (snd (concrete ! ci))) [0..<length concrete]"

lemma satisfies_names:
  "satisfies iface cset \<Longrightarrow> m \<in> set iface \<Longrightarrow> mk_name m \<in> mk_name ` set cset"
  by (fastforce simp: satisfies_def list_all_iff list_ex_iff compatible_def)

lemma edges_of_iface_exact:
  assumes "snd iface \<noteq> []"
  shows "edges_of_iface ts concrete (by_method_table concrete) imps iface =
    (if length (all_implementors concrete imps iface) \<le> max_implementors
     then iface_edges ts concrete (fst iface) (all_implementors concrete imps iface) else [])"
proof -
  let ?P = "\<lambda>ci. nearby imps (fst (fst iface)) (fst (fst (concrete ! ci)))
    \<and> satisfies (snd iface) (snd (concrete ! ci))"
  let ?keys = "map (\<lambda>m. (length (entry_or_empty (by_method_table concrete) (mk_name m)), mk_name m)) (snd iface)"
  obtain k rarest where r: "min_by_key fst ?keys = Some (k, rarest)"
    using assms by (cases "min_by_key fst ?keys") auto
  then obtain m where m: "m \<in> set (snd iface)" "rarest = mk_name m"
    using min_by_key_Some [OF r] by auto
  show ?thesis
  proof (cases "by_method_table concrete rarest")
    case None
    then have "\<not> ?P ci" if "ci < length concrete" for ci
      using by_method_None [OF None that] satisfies_names [OF _ m(1)] m(2) by blast
    then have "all_implementors concrete imps iface = []"
      by (simp add: all_implementors_def filter_empty_conv)
    with None r show ?thesis by (simp add: edges_of_iface_def iface_edges_def)
  next
    case (Some cands)
    have "filter ?P cands = all_implementors concrete imps iface"
    proof -
      have "cands = filter (\<lambda>i. rarest \<in> mk_name ` set (snd (concrete ! i))) [0..<length concrete]"
        using by_method_entry [of concrete rarest] Some by simp
      then have "filter ?P cands =
          filter (\<lambda>i. ?P i \<and> rarest \<in> mk_name ` set (snd (concrete ! i))) [0..<length concrete]"
        by (simp add: conj_commute)
      also have "\<dots> = filter ?P [0..<length concrete]"
        by (rule filter_cong) (use satisfies_names [OF _ m(1)] m(2) in blast)+
      finally show ?thesis by (simp add: all_implementors_def)
    qed
    with find_impls_exact [of "[]" ?P cands] r Some show ?thesis
      by (auto simp: edges_of_iface_def Let_def iface_edges_def split: if_splits)
  qed
qed

lemma go_types_no_go: "\<not> list_ex (\<lambda>f. cf_language f = Some Go) (cg_files g) \<Longrightarrow> go_types g = []"
proof -
  have "go_dirs files = Map.empty" if "\<not> list_ex (\<lambda>f. cf_language f = Some Go) files" for files
    using that by (induction files rule: rev_induct) (simp_all add: go_dirs_def)
  then show "\<not> list_ex (\<lambda>f. cf_language f = Some Go) (cg_files g) \<Longrightarrow> go_types g = []"
    by (simp add: go_types_def sort_dedup_def)
qed

text \<open>C26: the search through the rarest method name, with its early break, finds exactly the
  implementations: the emitted edges are, interface by interface, those from every type that is in
  the interface's package or in one importing it and whose method set covers the interface's,
  unless more than fifty types do.\<close>

theorem implementation_edges_exact:
  "implementation_edges g import_edges =
    (let ts = go_types g; concrete = go_concrete ts;
         imps = importer_dirs (go_dirs (cg_files g)) import_edges
     in concat (map (\<lambda>iface.
          if length (all_implementors concrete imps iface) \<le> max_implementors
          then iface_edges ts concrete (fst iface) (all_implementors concrete imps iface) else [])
        (go_interfaces ts)))"
proof -
  let ?ts = "go_types g"
  let ?c = "go_concrete ?ts"
  let ?imps = "importer_dirs (go_dirs (cg_files g)) import_edges"
  let ?ref = "\<lambda>iface. if length (all_implementors ?c ?imps iface) \<le> max_implementors
          then iface_edges ?ts ?c (fst iface) (all_implementors ?c ?imps iface) else []"
  have sets: "snd iface \<noteq> []" if "iface \<in> set (go_interfaces ?ts)" for iface
    using that by (auto simp: go_interfaces_def Let_def split: if_splits prod.splits)
  have ref: "map (edges_of_iface ?ts ?c (by_method_table ?c) ?imps) (go_interfaces ?ts)
      = map ?ref (go_interfaces ?ts)"
    by (rule map_cong [OF refl]) (rule edges_of_iface_exact, erule sets)
  have none: "concat (map ?ref (go_interfaces ?ts)) = []"
    if "go_interfaces ?ts = [] \<or> ?c = []"
    using that by (auto simp: all_implementors_def iface_edges_def)
  show ?thesis
  proof (cases "list_ex (\<lambda>f. cf_language f = Some Go) (cg_files g)")
    case False
    then have "go_interfaces ?ts = []" using go_types_no_go by (simp add: go_interfaces_def)
    with False show ?thesis by (simp add: implementation_edges_def)
  next
    case True
    then have "implementation_edges g import_edges = (if go_interfaces ?ts = [] \<or> ?c = [] then []
        else concat (map ?ref (go_interfaces ?ts)))"
      by (simp only: implementation_edges_def Let_def ref if_False not_True_eq_False)
    then show ?thesis using none unfolding Let_def by presburger
  qed
qed

lemma implementation_edges_shape:
  assumes "e \<in> set (implementation_edges g es)"
  shows "\<exists>f t. e = inherit_edge f t"
  using assms unfolding implementation_edges_exact Let_def
  by (auto simp: iface_edges_def split: if_splits)


section \<open>Rendering the implementors\<close>

definition path_of :: "code_graph \<Rightarrow> code_symbol \<Rightarrow> string" where
  "path_of g s = (case find (\<lambda>f. cf_id f = cs_file s) (cg_files g) of None \<Rightarrow> [] | Some f \<Rightarrow> as_str (cf_path f))"

definition iface_rule :: "code_graph \<Rightarrow> code_symbol \<Rightarrow> string" where
  "iface_rule g i =
     (let members = filter (\<lambda>s. cs_file s = cs_file i \<and> cs_start_line i < cs_start_line s
                               \<and> cs_end_line s \<le> cs_end_line i) (cg_symbols g);
          methods = length (filter (\<lambda>m. cs_kind m = Method) members);
          embeds = list_ex (\<lambda>m. cs_kind m \<in> {Field, Interface, TypeK}) members;
          n = show_nat methods
      in if methods = 0 then ''full method set matched''
         else if \<not> embeds then ''methods '' @ n @ ''/'' @ n @ '' all matched''
         else ''methods '' @ n @ ''/'' @ n @ '' plus embedded interfaces all matched'')"

definition ordered_impls :: "code_graph \<Rightarrow> u32 list \<Rightarrow> (code_symbol \<times> bool) list" where
  "ordered_impls g impls =
     sort_key snd (map (\<lambda>s. (s, is_test_double (path_of g s) (cs_name s)))
       (List.map_filter (sym_by_no g) impls))"

definition impl_text :: "code_graph \<Rightarrow> code_symbol \<times> bool \<Rightarrow> string" where
  "impl_text g = (\<lambda>(s, test). cs_name s @ '' @'' @ path_of g s @ '':'' @ show_nat (unat (cs_start_line s))
     @ (if test then '' [test]'' else []))"

definition render_implementors :: "code_graph \<Rightarrow> u32 \<Rightarrow> u32 list \<Rightarrow> nat \<Rightarrow> string" where
  "render_implementors g iface impls n =
     (case sym_by_no g iface of
        None \<Rightarrow> []
      | Some i \<Rightarrow>
          if impls = [] then []
          else
            (let ordered = ordered_impls g impls;
                 listed = map (impl_text g) (take n ordered);
                 more = length ordered - length listed;
                 tail = (if 0 < more then ''; +'' @ show_nat more @ '' more'' else [])
             in ''Go implicit implementors ('' @ iface_rule g i @ '', by method name and arity): '' @ cs_name i
                @ '' @'' @ path_of g i @ '':'' @ show_nat (unat (cs_start_line i))
                @ '' '' @ [CHR 0xE2, CHR 0x86, CHR 0x90] @ '' '' @ join_with ''; '' listed @ tail @ [CHR 0x0A]))"

text \<open>Sorting by the flag puts the production types first and keeps the order on both sides.\<close>

lemma insort_key_flag:
  "\<forall>y\<in>set ps. \<not> f y \<Longrightarrow> \<forall>y\<in>set ts. f y \<Longrightarrow>
   insort_key f x (ps @ ts) = (if f x then ps @ x # ts else x # ps @ ts)"
proof (induction ps)
  case Nil
  then show ?case by (cases ts) auto
qed auto

lemma sort_key_flag: "sort_key f xs = filter (\<lambda>x. \<not> f x) xs @ filter f xs"
  by (induction xs) (auto simp: insort_key_flag)

lemma ordered_impls_eq:
  "ordered_impls g impls =
     (let all = map (\<lambda>s. (s, is_test_double (path_of g s) (cs_name s))) (List.map_filter (sym_by_no g) impls)
      in filter (\<lambda>x. \<not> snd x) all @ filter snd all)"
  by (simp only: ordered_impls_def sort_key_flag Let_def)

end
