(* ===== verification/Resolvers.thy ===== *)
theory Resolvers
  imports FileIdx GraphData
begin

text \<open>
  The set of import resolvers (\<open>resolvers/mod.rs\<close>): detection of every language's project facts
  with the files each one read, incremental re-detection, and the routing of an import to the
  resolver that owns the language.  A resolver is a trait object: here the record of its language
  and its two operations.  Its \<open>detect\<close> sees the paths of the index and, through
  \<open>FileIndex::read\<close> alone, the contents of files; it is the tree of its reads, a panic being a
  leaf.
\<close>

datatype detection = Detected project_meta | DetectPanic | ReadFile string "string option \<Rightarrow> detection"

record resolver =
  rs_language :: language
  rs_detect :: "file_index \<Rightarrow> detection"
  rs_resolve :: "rel_path \<Rightarrow> string \<Rightarrow> file_index \<Rightarrow> project_meta \<Rightarrow> import_resolution option"

type_synonym contents_of = "string \<Rightarrow> string option"

primrec run_detection :: "contents_of \<Rightarrow> detection \<Rightarrow> file_index \<Rightarrow> project_meta option \<times> file_index" where
  "run_detection rd (Detected m) idx = (Some m, idx)"
| "run_detection rd DetectPanic idx = (None, idx)"
| "run_detection rd (ReadFile p k) idx =
     (case fi_read rd p idx of (c, idx') \<Rightarrow> run_detection rd (k c) idx')"

text \<open>One recorded, isolated detection: the facts (\<open>None\<close> after a panic) and the reads.\<close>

definition detect_recorded ::
  "contents_of \<Rightarrow> resolver \<Rightarrow> file_index \<Rightarrow> project_meta option \<times> string set \<times> file_index" where
  "detect_recorded rd r idx =
     (let idx1 = start_recording_reads idx;
          (detected, idx2) = run_detection rd (rs_detect r idx1) idx1;
          (reads, idx3) = take_recorded_reads idx2
      in (detected, reads, idx3))"

record resolver_set =
  rset_resolvers :: "resolver list"
  rset_meta :: "(language \<times> project_meta) list"
  rset_detect_failures :: "language list"
  rset_detect_reads :: "string set list"

definition resolver_owner :: "language \<Rightarrow> language" where
  "resolver_owner lang =
     (case lang of Tsx \<Rightarrow> TypeScript | JavaScript \<Rightarrow> TypeScript | Vue \<Rightarrow> TypeScript
      | ObjCpp \<Rightarrow> ObjC | other \<Rightarrow> other)"

definition default_meta :: project_meta where
  "default_meta = \<lparr>pm_source_roots = [], pm_modules = [], pm_excludes = [], pm_overrides = [],
     pm_projects = [], pm_project_refs = [], pm_namespaces = [], pm_type_decls = [],
     pm_scope_index = Map.empty\<rparr>"

definition or_default :: "project_meta option \<Rightarrow> project_meta" where
  "or_default m = (case m of Some v \<Rightarrow> v | None \<Rightarrow> default_meta)"

text \<open>The loop of \<open>from_resolvers\<close>, its three vectors and the index it reads through.\<close>

fun detect_each ::
  "contents_of \<Rightarrow> resolver list \<Rightarrow> file_index
     \<Rightarrow> (language \<times> project_meta) list \<times> language list \<times> string set list \<times> file_index" where
  "detect_each rd [] idx = ([], [], [], idx)"
| "detect_each rd (r # rs) idx =
     (let (detected, reads, idx1) = detect_recorded rd r idx;
          (metas, failures, all_reads, idx2) = detect_each rd rs idx1
      in ((rs_language r, or_default detected) # metas,
          (if detected = None then rs_language r # failures else failures),
          reads # all_reads, idx2))"

definition from_resolvers :: "contents_of \<Rightarrow> resolver list \<Rightarrow> file_index \<Rightarrow> resolver_set \<times> file_index" where
  "from_resolvers rd rs idx =
     (let (metas, failures, reads, idx') = detect_each rd rs idx
      in (\<lparr>rset_resolvers = rs, rset_meta = metas, rset_detect_failures = failures,
           rset_detect_reads = reads\<rparr>, idx'))"

definition must_redetect :: "rel_path set \<Rightarrow> language list \<Rightarrow> language \<Rightarrow> string set \<Rightarrow> bool" where
  "must_redetect modified old_failures lang old_reads \<longleftrightarrow>
     lang \<in> set old_failures \<or> (\<exists>p\<in>old_reads. rel_path_new p \<in> modified)"

text \<open>The loop of \<open>redetect\<close>: the old metadata and reads of position \<open>i\<close> are those of the resolver.\<close>

fun redetect_each ::
  "contents_of \<Rightarrow> rel_path set \<Rightarrow> language list \<Rightarrow> resolver list \<Rightarrow> (language \<times> project_meta) list
     \<Rightarrow> string set list \<Rightarrow> file_index
     \<Rightarrow> (language \<times> project_meta) list \<times> language list \<times> string set list \<times> language list \<times> file_index" where
  "redetect_each rd modified old_failures (r # rs) (m # ms) (reads # rest) idx =
     (if \<not> must_redetect modified old_failures (rs_language r) reads then
        (let (metas, failures, all_reads, changed, idx2) = redetect_each rd modified old_failures rs ms rest idx
         in (m # metas, failures, reads # all_reads, changed, idx2))
      else
        (let (detected, reads1, idx1) = detect_recorded rd r idx;
             (metas, failures, all_reads, changed, idx2) = redetect_each rd modified old_failures rs ms rest idx1
         in ((rs_language r, or_default detected) # metas,
             (if detected = None then rs_language r # failures else failures),
             reads1 # all_reads,
             (if or_default detected \<noteq> snd m then rs_language r # changed else changed), idx2)))"
| "redetect_each rd modified old_failures _ _ _ idx = ([], [], [], [], idx)"

definition redetect ::
  "contents_of \<Rightarrow> resolver_set \<Rightarrow> file_index \<Rightarrow> rel_path set \<Rightarrow> resolver_set \<times> language list \<times> file_index" where
  "redetect rd old idx modified =
     (let (metas, failures, reads, changed, idx') =
            redetect_each rd modified (rset_detect_failures old) (rset_resolvers old) (rset_meta old)
              (rset_detect_reads old) idx
      in (\<lparr>rset_resolvers = rset_resolvers old, rset_meta = metas, rset_detect_failures = failures,
           rset_detect_reads = reads\<rparr>, changed, idx'))"

definition meta_for :: "resolver_set \<Rightarrow> language \<Rightarrow> project_meta option" where
  "meta_for rset lang = map_option snd (find (\<lambda>e. fst e = lang) (rset_meta rset))"

definition resolve_import_as ::
  "resolver_set \<Rightarrow> language \<Rightarrow> rel_path \<Rightarrow> string \<Rightarrow> file_index \<Rightarrow> import_resolution" where
  "resolve_import_as rset lang from spec idx =
     (let owner = resolver_owner lang
      in case find (\<lambda>r. rs_language r = owner) (rset_resolvers rset) of
           None \<Rightarrow> Unresolved
         | Some r \<Rightarrow>
             (case meta_for rset owner of
                None \<Rightarrow> Unresolved
              | Some meta \<Rightarrow>
                  (case rs_resolve r from spec idx meta of Some res \<Rightarrow> res | None \<Rightarrow> Unresolved)))"

definition resolve_import ::
  "resolver_set \<Rightarrow> rel_path \<Rightarrow> string \<Rightarrow> file_index \<Rightarrow> import_resolution" where
  "resolve_import rset from spec idx =
     (case from_path from of Some lang \<Rightarrow> resolve_import_as rset lang from spec idx | None \<Rightarrow> Unresolved)"

definition resolve_one :: "resolver_set \<Rightarrow> rel_path \<Rightarrow> string \<Rightarrow> file_index \<Rightarrow> rel_path option" where
  "resolve_one rset from spec idx =
     (case resolve_import rset from spec idx of
        File path \<Rightarrow> Some path
      | Files (v # _) \<Rightarrow> Some v
      | _ \<Rightarrow> None)"

text \<open>The excludes the languages declare, in the fixed order of \<open>declared_excludes\<close> (index.rs).\<close>

definition declared_excludes :: "resolver_set \<Rightarrow> string list" where
  "declared_excludes rset =
     concat (map pm_excludes (List.map_filter (meta_for rset)
       [Python, Go, Java, Rust, TypeScript, Dart, CSharp, VisualBasic, Swift, ObjC, Kotlin, Shell,
        Ruby, Lua, Proto]))"

section \<open>Detection depends on the paths and on what it read\<close>

lemma run_detection_reads:
  "fi_reads idx = Some s \<Longrightarrow>
   \<exists>s'. snd (run_detection rd d idx) = idx\<lparr>fi_reads := Some s'\<rparr> \<and> s \<subseteq> s'"
proof (induction d arbitrary: idx s)
  case (ReadFile p k)
  let ?s = "insert (as_str (rel_path_new p)) s"
  let ?idx = "idx\<lparr>fi_reads := Some ?s\<rparr>"
  let ?c = "fst (fi_read rd p idx)"
  have r: "fi_read rd p idx = (?c, ?idx)" using ReadFile.prems by (simp add: fi_read_def)
  obtain s' where "snd (run_detection rd (k ?c) ?idx) = ?idx\<lparr>fi_reads := Some s'\<rparr>" "?s \<subseteq> s'"
    using ReadFile.IH [of "k ?c" ?idx ?s] by auto
  then show ?case
    by (subst run_detection.simps, subst r) (intro exI [of _ s'], simp)
next
  case (Detected m)
  then show ?case by (intro exI [of _ s]) (cases idx, simp)
next
  case DetectPanic
  then show ?case by (intro exI [of _ s]) (cases idx, simp)
qed

lemma run_detection_local:
  assumes "fi_reads idx = Some s" and "snd (run_detection rd d idx) = idx\<lparr>fi_reads := Some s'\<rparr>"
    and "\<And>p. as_str (rel_path_new p) \<in> s' \<Longrightarrow> rd' p = rd p"
  shows "run_detection rd' d idx = run_detection rd d idx"
  using assms(1,2)
proof (induction d arbitrary: idx s)
  case (ReadFile p k)
  let ?s = "insert (as_str (rel_path_new p)) s"
  let ?idx = "idx\<lparr>fi_reads := Some ?s\<rparr>"
  let ?c = "fst (fi_read rd p idx)"
  have r: "fi_read rd p idx = (?c, ?idx)" using ReadFile.prems(1) by (simp add: fi_read_def)
  have run: "run_detection rd (ReadFile p k) idx = run_detection rd (k ?c) ?idx"
    by (subst run_detection.simps, subst r) simp
  obtain s2 where s2: "snd (run_detection rd (k ?c) ?idx) = ?idx\<lparr>fi_reads := Some s2\<rparr>" "?s \<subseteq> s2"
    using run_detection_reads [of ?idx ?s rd "k ?c"] by auto
  have "idx\<lparr>fi_reads := Some s'\<rparr> = idx\<lparr>fi_reads := Some s2\<rparr>"
    using ReadFile.prems(2) s2(1) unfolding run by simp
  then have eq: "s2 = s'" by (metis file_index.select_convs(5) file_index.surjective file_index.update_convs(5) option.inject)
  have "rd' p = rd p" using s2(2) eq by (intro assms(3)) auto
  then have "fi_read rd' p idx = (?c, ?idx)" using r by (simp add: fi_read_def)
  then have "run_detection rd' (ReadFile p k) idx = run_detection rd' (k ?c) ?idx" by simp
  also have "\<dots> = run_detection rd (k ?c) ?idx"
    using ReadFile.IH [of "k ?c" ?idx ?s] s2(1) eq by simp
  finally show ?case unfolding run .
qed simp_all

text \<open>The index is read through, never changed: only its recording differs.\<close>

definition same_files :: "file_index \<Rightarrow> file_index \<Rightarrow> bool" where
  "same_files a b \<longleftrightarrow> a\<lparr>fi_reads := None\<rparr> = b\<lparr>fi_reads := None\<rparr>"

lemma same_files_start: "same_files a b \<Longrightarrow> start_recording_reads a = start_recording_reads b"
  unfolding same_files_def start_recording_reads_def
  by (metis file_index.update_convs(5) file_index.surjective file_index.select_convs(1-4))

lemma detect_recorded_same:
  "same_files a b \<Longrightarrow> detect_recorded rd r a = detect_recorded rd r b"
  by (simp add: detect_recorded_def same_files_start)

lemma detect_recorded_files:
  assumes "detect_recorded rd r idx = (d, reads, idx')"
  shows "same_files idx' idx"
proof -
  have "fi_reads (start_recording_reads idx) = Some {}" by (simp add: start_recording_reads_def)
  then obtain s where "snd (run_detection rd (rs_detect r (start_recording_reads idx)) (start_recording_reads idx))
      = (start_recording_reads idx)\<lparr>fi_reads := Some s\<rparr>"
    using run_detection_reads by blast
  with assms show ?thesis
    by (auto simp: detect_recorded_def Let_def take_recorded_reads_def start_recording_reads_def
        same_files_def split: prod.splits)
qed

lemma detect_recorded_local:
  assumes "detect_recorded rd r idx = (d, reads, idx')"
    and "\<And>p. as_str (rel_path_new p) \<in> reads \<Longrightarrow> rd' p = rd p"
  shows "detect_recorded rd' r idx = (d, reads, idx')"
proof -
  let ?i = "start_recording_reads idx"
  have i: "fi_reads ?i = Some {}" by (simp add: start_recording_reads_def)
  then obtain s where s: "snd (run_detection rd (rs_detect r ?i) ?i) = ?i\<lparr>fi_reads := Some s\<rparr>"
    using run_detection_reads by blast
  then have "reads = s"
    using assms(1) by (auto simp: detect_recorded_def Let_def take_recorded_reads_def split: prod.splits)
  then have "run_detection rd' (rs_detect r ?i) ?i = run_detection rd (rs_detect r ?i) ?i"
    using assms(2) by (intro run_detection_local [OF i s]) simp
  then show ?thesis using assms(1) by (simp add: detect_recorded_def)
qed

section \<open>Re-detection equals detection\<close>

lemma detect_each_same:
  "same_files a b \<Longrightarrow> \<exists>ms fs rs' a' b'. detect_each rd rs a = (ms, fs, rs', a') \<and> detect_each rd rs b = (ms, fs, rs', b')"
proof (induction rs arbitrary: a b)
  case (Cons r rs)
  then have r: "detect_recorded rd r a = detect_recorded rd r b" by (simp add: detect_recorded_same)
  obtain d reads i where d: "detect_recorded rd r b = (d, reads, i)" by (metis prod_cases3)
  have "same_files i i" by (simp add: same_files_def)
  then show ?case using Cons.IH [of i i] by (auto simp: r d)
qed simp

lemma detect_each_meta:
  assumes "detect_each rd rs idx = (ms, fs, reads, idx')"
  shows "map fst ms = map rs_language rs" and "length ms = length rs" and "length reads = length rs"
    and "set fs \<subseteq> rs_language ` set rs"
proof -
  have "map fst ms = map rs_language rs \<and> length reads = length rs \<and> set fs \<subseteq> rs_language ` set rs"
    using assms
  proof (induction rs arbitrary: idx ms fs reads)
    case (Cons r rs)
    then show ?case by (auto simp: Let_def split: prod.splits if_splits) blast+
  qed simp
  then show "map fst ms = map rs_language rs" "length reads = length rs" "set fs \<subseteq> rs_language ` set rs"
    by blast+
  then show "length ms = length rs" by (metis length_map)
qed

text \<open>The languages of the positions whose facts differ.\<close>

definition changed_languages :: "(language \<times> project_meta) list \<Rightarrow> (language \<times> project_meta) list \<Rightarrow> language list" where
  "changed_languages olds news = map (fst \<circ> snd) (filter (\<lambda>(a, b). snd b \<noteq> snd a) (zip olds news))"

lemma redetect_each_full:
  assumes "detect_each rd rs idx = (ms, fs, reads, idx1)" and "set fs \<subseteq> set old_failures"
    and "same_files idx2 idx" and "\<And>p. rel_path_new p \<notin> modified \<Longrightarrow> rd' p = rd p"
  shows "\<exists>ms' fs' reads' i i'. detect_each rd' rs idx2 = (ms', fs', reads', i)
    \<and> redetect_each rd' modified old_failures rs ms reads idx2
        = (ms', fs', reads', changed_languages ms ms', i') \<and> same_files i' idx2"
  using assms(1-3)
proof (induction rs arbitrary: idx idx2 ms fs reads idx1)
  case (Cons r rs)
  obtain d rr i1 where d: "detect_recorded rd r idx = (d, rr, i1)" by (metis prod_cases3)
  obtain ms1 fs1 reads1 i2 where e: "detect_each rd rs i1 = (ms1, fs1, reads1, i2)" by (metis prod_cases4)
  have parts: "ms = (rs_language r, or_default d) # ms1" "reads = rr # reads1"
    "fs = (if d = None then rs_language r # fs1 else fs1)"
    using Cons.prems(1) by (simp_all add: d e)
  then have fs1: "set fs1 \<subseteq> set old_failures" using Cons.prems(2) by (auto split: if_splits)
  have i1: "same_files i1 idx" by (rule detect_recorded_files [OF d])
  have idx2: "same_files idx2 i1" using i1 Cons.prems(3) by (simp add: same_files_def)
  obtain d' rr' j where d': "detect_recorded rd' r idx2 = (d', rr', j)" by (metis prod_cases3)
  have j: "same_files j idx2" by (rule detect_recorded_files [OF d'])
  then have j1: "same_files j i1" using idx2 by (simp add: same_files_def)
  show ?case
  proof (cases "must_redetect modified old_failures (rs_language r) rr")
    case True
    obtain ms' fs' reads' i i' where IH: "detect_each rd' rs j = (ms', fs', reads', i)"
      "redetect_each rd' modified old_failures rs ms1 reads1 j = (ms', fs', reads', changed_languages ms1 ms', i')"
      "same_files i' j"
      using Cons.IH [OF e fs1 j1] by blast
    have "same_files i' idx2" using IH(3) j by (simp add: same_files_def)
    then show ?thesis using True IH(1,2) by (simp add: parts d' changed_languages_def)
  next
    case False
    then have "d \<noteq> None" using Cons.prems(2) parts(3) by (cases d) (auto simp: must_redetect_def)
    have "detect_recorded rd r idx2 = (d, rr, i1)"
      using d detect_recorded_same [OF Cons.prems(3)] by simp
    moreover have "rd' p = rd p" if "as_str (rel_path_new p) \<in> rr" for p
    proof (rule assms(4))
      have "rel_path_new (as_str (rel_path_new p)) \<notin> modified"
        using False that by (auto simp: must_redetect_def)
      then show "rel_path_new p \<notin> modified"
        by (simp add: rel_path_new_id [OF rel_path_new_is_normal])
    qed
    ultimately have same: "detect_recorded rd' r idx2 = (d, rr, i1)" by (rule detect_recorded_local)
    obtain ms' fs' reads' i i' where IH: "detect_each rd' rs idx2 = (ms', fs', reads', i)"
      "redetect_each rd' modified old_failures rs ms1 reads1 idx2 = (ms', fs', reads', changed_languages ms1 ms', i')"
      "same_files i' idx2"
      using Cons.IH [OF e fs1 idx2] by blast
    obtain k where "detect_each rd' rs i1 = (ms', fs', reads', k)"
      using detect_each_same [of i1 idx2 rd' rs] idx2 IH(1) by (auto simp: same_files_def)
    then show ?thesis
      using False IH(2,3) same \<open>d \<noteq> None\<close> by (simp add: parts changed_languages_def)
  qed
qed (simp add: changed_languages_def same_files_def)

lemma redetect_from_scratch:
  assumes "\<And>p. rel_path_new p \<notin> modified \<Longrightarrow> rd' p = rd p" and "same_files idx' idx"
  shows "fst (redetect rd' (fst (from_resolvers rd rs idx)) idx' modified) = fst (from_resolvers rd' rs idx')"
    and "fst (snd (redetect rd' (fst (from_resolvers rd rs idx)) idx' modified))
      = changed_languages (rset_meta (fst (from_resolvers rd rs idx))) (rset_meta (fst (from_resolvers rd' rs idx')))"
proof -
  obtain ms fs reads i where e: "detect_each rd rs idx = (ms, fs, reads, i)" by (metis prod_cases4)
  obtain ms' fs' reads' j j' where d: "detect_each rd' rs idx' = (ms', fs', reads', j)"
    "redetect_each rd' modified fs rs ms reads idx' = (ms', fs', reads', changed_languages ms ms', j')"
    using redetect_each_full [OF e order_refl assms(2,1)] by blast
  show "fst (redetect rd' (fst (from_resolvers rd rs idx)) idx' modified) = fst (from_resolvers rd' rs idx')"
    by (simp add: from_resolvers_def redetect_def e d)
  show "fst (snd (redetect rd' (fst (from_resolvers rd rs idx)) idx' modified))
      = changed_languages (rset_meta (fst (from_resolvers rd rs idx))) (rset_meta (fst (from_resolvers rd' rs idx')))"
    by (simp add: from_resolvers_def redetect_def e d)
qed

text \<open>Re-running only the resolvers that failed or read a modified file gives the resolver set
  a detection from scratch over the new contents gives, and names exactly the languages whose
  facts changed, provided the paths are the same and contents differ only at modified paths.\<close>

lemma redetect_is_detect:
  assumes "\<And>p. rel_path_new p \<notin> modified \<Longrightarrow> rd' p = rd p" and "same_files idx' idx"
  shows "let old = fst (from_resolvers rd rs idx); new = fst (from_resolvers rd' rs idx') in
    fst (redetect rd' old idx' modified) = new
    \<and> fst (snd (redetect rd' old idx' modified)) = changed_languages (rset_meta old) (rset_meta new)"
  using redetect_from_scratch [OF assms] by (simp add: Let_def)

definition demo_resolver :: resolver where
  "demo_resolver = \<lparr>rs_language = Go,
     rs_detect = (\<lambda>idx. ReadFile ''go.mod'' (\<lambda>c. case c of None \<Rightarrow> DetectPanic
        | Some t \<Rightarrow> Detected (default_meta\<lparr>pm_source_roots := [t]\<rparr>))),
     rs_resolve = (\<lambda>from spec idx meta. None)\<rparr>"

definition demo_modified :: "rel_path set" where "demo_modified = {RelPath ''go.mod''}"

definition demo_new :: contents_of where
  "demo_new p = (if rel_path_new p \<in> demo_modified then Some ''b'' else Some ''a'')"

lemma redetect_is_detect_witness:
  "let idx = file_index_new ''/r'' [RelPath ''go.mod'']; rd = (\<lambda>p. Some ''a'');
       old = fst (from_resolvers rd [demo_resolver] idx);
       new = fst (from_resolvers demo_new [demo_resolver] idx) in
    fst (redetect demo_new old idx demo_modified) = new
    \<and> fst (snd (redetect demo_new old idx demo_modified)) = changed_languages (rset_meta old) (rset_meta new)"
  unfolding Let_def
  by (rule redetect_is_detect [of demo_modified demo_new "\<lambda>p. Some ''a''", unfolded Let_def])
    (simp_all add: same_files_def demo_new_def)

end
