(* ===== verification/Assemble.thy ===== *)
theory Assemble
  imports Edges Pairing GoIface Resolvers Codec
begin

text \<open>
  Assembling the graph from the parsed files (\<open>assemble_graph_with\<close> of
  \<open>astrolabe-core/src/index.rs\<close>): the dense ids, the import edges with the reuse of earlier
  resolutions, project references, header pairs, name-matched calls and Go implementations, and
  the report.  The parallel maps of the code are maps; its vectors are collected in file order.
\<close>

record parsed_row =
  row_path :: rel_path
  row_language :: language
  row_sha :: string
  row_loc :: u32
  row_parsed :: parsed_file

record index_report =
  ir_files_scanned :: nat
  ir_files_parsed :: nat
  ir_parse_failures :: "(rel_path \<times> string) list"
  ir_partial_parses :: "(rel_path \<times> string) list"
  ir_too_large :: "rel_path list"
  ir_unresolved_imports :: "(rel_path \<times> string) list"
  ir_import_edges :: nat
  ir_symbols :: nat

record index_options =
  io_call_edges :: bool
  io_persist :: bool
  io_persist_read_only :: bool
  io_parse_cache_bytes :: u64

definition max_syntactic_call_targets :: nat where "max_syntactic_call_targets = 50"

record file_resolutions =
  fres_lang :: language
  fres_items :: "(string \<times> import_resolution) list"

type_synonym resolution_cache = "rel_path \<Rightarrow> file_resolutions option"

record resolve_reuse =
  reuse_cache :: resolution_cache
  reuse_changed :: "language list"

section \<open>Files and symbols\<close>

definition index_of_rows :: "parsed_row list \<Rightarrow> rel_path \<Rightarrow> file_id option" where
  "index_of_rows rows =
     foldl (\<lambda>m (i, row). m(row_path row \<mapsto> FileId (of_nat i))) Map.empty (enumerate 0 rows)"

definition graph_files :: "parsed_row list \<Rightarrow> code_file list" where
  "graph_files rows =
     map (\<lambda>(i, row). \<lparr>cf_id = FileId (of_nat i), cf_path = row_path row, cf_language = Some (row_language row),
            cf_loc = row_loc row, cf_sha = row_sha row\<rparr>) (enumerate 0 rows)"

fun file_ranges :: "nat \<Rightarrow> parsed_row list \<Rightarrow> (nat \<times> nat) list" where
  "file_ranges next_symbol [] = []"
| "file_ranges next_symbol (row # rows) =
     (let n = length (pa_symbols (row_parsed row))
      in (next_symbol, next_symbol + n) # file_ranges (next_symbol + n) rows)"

definition place_symbols :: "nat \<Rightarrow> nat \<Rightarrow> code_symbol list \<Rightarrow> code_symbol list" where
  "place_symbols i base syms =
     map (\<lambda>(k, s). s\<lparr>cs_id := SymbolId (of_nat (base + k)), cs_file := FileId (of_nat i)\<rparr>) (enumerate 0 syms)"

definition symbols_per_file :: "parsed_row list \<Rightarrow> code_symbol list list" where
  "symbols_per_file rows =
     map (\<lambda>(i, row). place_symbols i (fst (file_ranges 0 rows ! i)) (pa_symbols (row_parsed row)))
       (enumerate 0 rows)"

section \<open>Import resolution with reuse\<close>

definition import_lang :: "parsed_row \<Rightarrow> language" where
  "import_lang row = (case from_path (row_path row) of Some l \<Rightarrow> l | None \<Rightarrow> row_language row)"

definition cached_resolutions :: "resolve_reuse option \<Rightarrow> parsed_row \<Rightarrow> file_resolutions option" where
  "cached_resolutions reuse row =
     (case reuse of None \<Rightarrow> None
      | Some r \<Rightarrow>
          (case reuse_cache r (row_path row) of None \<Rightarrow> None
           | Some entry \<Rightarrow>
               if fres_lang entry = import_lang row
                  \<and> resolver_owner (import_lang row) \<notin> set (reuse_changed r)
                  \<and> length (fres_items entry) = length (pa_imports (row_parsed row))
                  \<and> list_all (\<lambda>((spec, _), now). spec = now) (zip (fres_items entry) (pa_imports (row_parsed row)))
               then Some entry else None))"

definition resolve_fresh :: "resolver_set \<Rightarrow> file_index \<Rightarrow> parsed_row \<Rightarrow> file_resolutions" where
  "resolve_fresh rset files row =
     \<lparr>fres_lang = import_lang row,
      fres_items = map (\<lambda>spec. (spec, resolve_import_as rset (import_lang row) (row_path row) spec files))
        (pa_imports (row_parsed row))\<rparr>"

definition resolve_row :: "resolver_set \<Rightarrow> file_index \<Rightarrow> resolve_reuse option \<Rightarrow> parsed_row \<Rightarrow> file_resolutions" where
  "resolve_row rset files reuse row =
     (case cached_resolutions reuse row of Some entry \<Rightarrow> entry | None \<Rightarrow> resolve_fresh rset files row)"

definition looks_internal :: "string \<Rightarrow> bool" where
  "looks_internal spec \<longleftrightarrow>
     starts_with spec ''.'' \<or> starts_with spec ''crate::'' \<or> starts_with spec ''self::''"

definition file_edge :: "file_id \<Rightarrow> file_id \<Rightarrow> edge_kind \<Rightarrow> code_edge" where
  "file_edge f t k = \<lparr>ce_from = file_no f, ce_to = file_no t, ce_kind = k, ce_weight = 1, ce_confidence = Scoped\<rparr>"

text \<open>The edges to those targets that are files of the graph other than \<open>from\<close>.\<close>

definition target_edges ::
  "(rel_path \<Rightarrow> file_id option) \<Rightarrow> file_id \<Rightarrow> edge_kind \<Rightarrow> rel_path list \<Rightarrow> code_edge list" where
  "target_edges index_of f k targets =
     concat (map (\<lambda>t. case index_of t of None \<Rightarrow> [] | Some to \<Rightarrow> if to = f then [] else [file_edge f to k]) targets)"

definition resolution_edges ::
  "(rel_path \<Rightarrow> file_id option) \<Rightarrow> file_id \<Rightarrow> import_resolution \<Rightarrow> code_edge list" where
  "resolution_edges index_of f res =
     (case res of
        Files targets \<Rightarrow> target_edges index_of f Import targets
      | File target \<Rightarrow> target_edges index_of f Import [target]
      | NamespaceR name targets \<Rightarrow> target_edges index_of f Namespace targets
      | Unresolved \<Rightarrow> [])"

definition row_import_edges :: "(rel_path \<Rightarrow> file_id option) \<Rightarrow> parsed_row \<Rightarrow> file_resolutions \<Rightarrow> code_edge list" where
  "row_import_edges index_of row entry =
     concat (map (\<lambda>(spec, res). resolution_edges index_of (the (index_of (row_path row))) res) (fres_items entry))"

definition row_unresolved :: "parsed_row \<Rightarrow> file_resolutions \<Rightarrow> (rel_path \<times> string) list" where
  "row_unresolved row entry =
     concat (map (\<lambda>(spec, res). if res = Unresolved \<and> looks_internal spec then [(row_path row, spec)] else [])
       (fres_items entry))"

definition project_ref_edges :: "(rel_path \<Rightarrow> file_id option) \<Rightarrow> resolver_set \<Rightarrow> code_edge list" where
  "project_ref_edges index_of rset =
     concat (map (\<lambda>(lang, meta). concat (map (\<lambda>pref.
         (case (index_of (rel_path_new (pr_from pref)), index_of (rel_path_new (pr_to pref))) of
            (Some f, Some t) \<Rightarrow> if f \<noteq> t then [file_edge f t Import] else []
          | _ \<Rightarrow> [])) (pm_project_refs meta))) (rset_meta rset))"

section \<open>Name-matched calls\<close>

text \<open>\<open>slice::chunk_by\<close>: the maximal runs whose neighbours satisfy \<open>P\<close>.\<close>

fun chunk_by :: "('a \<Rightarrow> 'a \<Rightarrow> bool) \<Rightarrow> 'a list \<Rightarrow> 'a list list" where
  "chunk_by P [] = []"
| "chunk_by P [x] = [[x]]"
| "chunk_by P (x # y # ys) =
     (if P x y then (case chunk_by P (y # ys) of [] \<Rightarrow> [[x]] | c # cs \<Rightarrow> (x # c) # cs)
      else [x] # chunk_by P (y # ys))"

definition short_callee :: "string \<Rightarrow> string" where
  "short_callee callee =
     (case find (\<lambda>p. p \<noteq> []) (rev (split_by (\<lambda>c. c = CHR ''.'' \<or> c = CHR '':'') callee)) of
        Some p \<Rightarrow> p | None \<Rightarrow> callee)"

definition call_targets :: "(string \<Rightarrow> symbol_id list option) \<Rightarrow> string \<Rightarrow> symbol_id list option" where
  "call_targets by_name callee =
     (case by_name (short_callee callee) of None \<Rightarrow> None
      | Some targets \<Rightarrow> if max_syntactic_call_targets < length targets then None else Some targets)"

definition calls_by_caller ::
  "(string \<Rightarrow> symbol_id list option) \<Rightarrow> code_symbol list \<Rightarrow> (string \<times> u32) list
     \<Rightarrow> (u32 \<times> symbol_id list) list" where
  "calls_by_caller by_name in_file calls =
     concat (map (\<lambda>((callee, line), caller).
         (case caller of None \<Rightarrow> []
          | Some c \<Rightarrow> (case call_targets by_name callee of None \<Rightarrow> []
                      | Some targets \<Rightarrow> [(symbol_no (cs_id c), targets)])))
       (zip calls (enclosing_symbols in_file calls)))"

definition call_edge :: "u32 \<Rightarrow> u32 \<Rightarrow> nat \<Rightarrow> code_edge" where
  "call_edge f t n = \<lparr>ce_from = f, ce_to = t, ce_kind = Call, ce_weight = of_nat n, ce_confidence = Syntactic\<rparr>"

definition caller_edges :: "(u32 \<times> symbol_id list) list \<Rightarrow> code_edge list" where
  "caller_edges grp =
     (let f = fst (hd grp);
          to = sort (concat (map (\<lambda>(_, targets). filter (\<lambda>t. t \<noteq> f) (map symbol_no targets)) grp))
      in map (\<lambda>run. call_edge f (hd run) (length run)) (chunk_by (=) to))"

definition file_call_edges ::
  "(string \<Rightarrow> symbol_id list option) \<Rightarrow> code_symbol list \<Rightarrow> (string \<times> u32) list \<Rightarrow> code_edge list" where
  "file_call_edges by_name in_file calls =
     (if in_file = [] then []
      else concat (map caller_edges
        (chunk_by (\<lambda>a b. fst a = fst b) (sort_key fst (calls_by_caller by_name in_file calls)))))"

definition call_edges_of :: "parsed_row list \<Rightarrow> code_symbol list \<Rightarrow> code_edge list" where
  "call_edges_of rows symbols =
     (let by_name = group_table cs_name cs_id symbols
      in concat (map (\<lambda>(i, row). let (a, b) = file_ranges 0 rows ! i in
           file_call_edges by_name (slice symbols a b) (pa_calls (row_parsed row))) (enumerate 0 rows)))"

section \<open>Assembly\<close>

text \<open>The edges other than calls, in the order they are collected, before sorting.\<close>

definition file_level_edges ::
  "parsed_row list \<Rightarrow> resolver_set \<Rightarrow> file_resolutions list \<Rightarrow> code_edge list" where
  "file_level_edges rows rset resolved =
     (let index_of = index_of_rows rows
      in concat (map (\<lambda>(row, entry). row_import_edges index_of row entry) (zip rows resolved))
         @ project_ref_edges index_of rset
         @ pair_edges (graph_files rows))"

definition assemble_graph_with ::
  "parsed_row list \<Rightarrow> file_index \<Rightarrow> resolver_set \<Rightarrow> index_options \<Rightarrow> index_report
     \<Rightarrow> resolve_reuse option \<Rightarrow> bool \<Rightarrow> code_graph \<times> index_report \<times> resolution_cache option" where
  "assemble_graph_with parsed files rset opts report reuse record_cache =
     (let rows = sort_key row_path parsed;
          code_files = graph_files rows;
          symbols = concat (symbols_per_file rows);
          resolved = map (resolve_row rset files reuse) rows;
          edges = file_level_edges rows rset resolved;
          call_edges = (if io_call_edges opts then call_edges_of rows symbols else []);
          implements = (if io_call_edges opts
            then implementation_edges \<lparr>cg_files = code_files, cg_symbols = symbols, cg_edges = []\<rparr> edges else []);
          merged = merge_sorted_edges (sort_and_merge (edges @ implements)) call_edges
      in (\<lparr>cg_files = code_files, cg_symbols = symbols, cg_edges = merged\<rparr>,
          report\<lparr>ir_files_parsed := length parsed, ir_symbols := length symbols,
            ir_unresolved_imports := sort (ir_unresolved_imports report
              @ concat (map (\<lambda>(row, entry). row_unresolved row entry) (zip rows resolved))),
            ir_import_edges := length (filter (\<lambda>e. ce_kind e = Import) merged)\<rparr>,
          (if record_cache
           then Some (foldl (\<lambda>m (row, entry). m(row_path row \<mapsto> entry)) Map.empty (zip rows resolved)) else None)))"

definition assemble_graph ::
  "parsed_row list \<Rightarrow> file_index \<Rightarrow> resolver_set \<Rightarrow> index_options \<Rightarrow> index_report \<Rightarrow> code_graph \<times> index_report" where
  "assemble_graph parsed files rset opts report =
     (case assemble_graph_with parsed files rset opts report None False of (g, r, _) \<Rightarrow> (g, r))"


section \<open>The order in which files were parsed\<close>

lemma assemble_order:
  assumes "mset parsed' = mset parsed" and "distinct (map row_path parsed)"
  shows "assemble_graph_with parsed' files rset opts report reuse rec
       = assemble_graph_with parsed files rset opts report reuse rec"
proof -
  have "inj_on row_path (set parsed)" using assms(2) by (simp add: distinct_map)
  then have "inj_on row_path (set parsed')" using assms(1) by (metis set_mset_mset)
  then have "sort_key row_path parsed' = sort_key row_path parsed"
    using assms(1) by (intro sort_key_inj_key_eq) simp_all
  moreover have "length parsed' = length parsed" using assms(1) by (rule mset_eq_length)
  ultimately show ?thesis unfolding assemble_graph_with_def by (simp only: Let_def)
qed

section \<open>Reusing resolutions\<close>

text \<open>A cache whose entries are what the resolvers answer now.\<close>

definition cache_valid :: "resolver_set \<Rightarrow> file_index \<Rightarrow> resolution_cache \<Rightarrow> bool" where
  "cache_valid rset files cache \<longleftrightarrow>
     (\<forall>path entry. cache path = Some entry \<longrightarrow>
        (\<forall>(spec, res)\<in>set (fres_items entry). res = resolve_import_as rset (fres_lang entry) path spec files))"

lemma resolve_import_as_cong:
  assumes "rset_resolvers rset = rset_resolvers rset0"
    and "meta_for rset (resolver_owner lang) = meta_for rset0 (resolver_owner lang)"
  shows "resolve_import_as rset lang p spec files = resolve_import_as rset0 lang p spec files"
  unfolding resolve_import_as_def Let_def assms ..

lemma items_eq:
  assumes "length items = length specs" and "list_all (\<lambda>((spec, _), now). spec = now) (zip items specs)"
    and "\<forall>(spec, res)\<in>set items. res = F spec"
  shows "items = map (\<lambda>spec. (spec, F spec)) specs"
  using assms by (induction items specs rule: list_induct2) auto

lemma resolve_row_reuse:
  assumes "cache_valid rset0 files (reuse_cache r)" and "rset_resolvers rset = rset_resolvers rset0"
    and "\<And>lang. lang \<notin> set (reuse_changed r) \<Longrightarrow> meta_for rset lang = meta_for rset0 lang"
  shows "resolve_row rset files (Some r) row = resolve_fresh rset files row"
proof (cases "cached_resolutions (Some r) row")
  case None
  then show ?thesis by (simp add: resolve_row_def)
next
  case (Some entry)
  then have c: "reuse_cache r (row_path row) = Some entry" "fres_lang entry = import_lang row"
    "resolver_owner (import_lang row) \<notin> set (reuse_changed r)"
    "length (fres_items entry) = length (pa_imports (row_parsed row))"
    "list_all (\<lambda>((spec, _), now). spec = now) (zip (fres_items entry) (pa_imports (row_parsed row)))"
    by (simp_all add: cached_resolutions_def split: option.splits if_splits)
  have same: "resolve_import_as rset (import_lang row) p spec files
      = resolve_import_as rset0 (import_lang row) p spec files" for p spec
    by (rule resolve_import_as_cong [OF assms(2) assms(3) [OF c(3)]])
  have "\<forall>(spec, res)\<in>set (fres_items entry).
      res = resolve_import_as rset (import_lang row) (row_path row) spec files"
  proof (intro ballI)
    fix x assume x: "x \<in> set (fres_items entry)"
    have "case x of (spec, res) \<Rightarrow> res = resolve_import_as rset0 (fres_lang entry) (row_path row) spec files"
      using assms(1) c(1) x unfolding cache_valid_def by blast
    then show "case x of (spec, res) \<Rightarrow> res = resolve_import_as rset (import_lang row) (row_path row) spec files"
      by (simp add: same c(2))
  qed
  from items_eq [OF c(4,5) this] have "entry = resolve_fresh rset files row"
    using c(2) by (simp add: resolve_fresh_def)
  with Some show ?thesis by (simp add: resolve_row_def)
qed

lemma record_cache_valid:
  "cache_valid rset files m \<Longrightarrow>
   cache_valid rset files (foldl (\<lambda>m (row, entry). m(row_path row \<mapsto> entry)) m
     (zip rows (map (resolve_fresh rset files) rows)))"
proof (induction rows arbitrary: m)
  case (Cons row rows)
  have "cache_valid rset files (m(row_path row \<mapsto> resolve_fresh rset files row))"
    using Cons.prems by (auto simp: cache_valid_def resolve_fresh_def)
  then show ?case using Cons.IH by (simp del: fun_upd_apply)
qed simp

lemma resolve_row_None: "resolve_row rset files None row = resolve_fresh rset files row"
  by (simp add: resolve_row_def cached_resolutions_def)

lemma assemble_reuse:
  assumes "cache_valid rset0 files (reuse_cache r)" and "rset_resolvers rset = rset_resolvers rset0"
    and "\<And>lang. lang \<notin> set (reuse_changed r) \<Longrightarrow> meta_for rset lang = meta_for rset0 lang"
  shows "assemble_graph_with parsed files rset opts report (Some r) rec
       = assemble_graph_with parsed files rset opts report None rec"
proof -
  have "resolve_row rset files (Some r) row = resolve_row rset files None row" for row
    unfolding resolve_row_None by (rule resolve_row_reuse [OF assms])
  then have "map (resolve_row rset files (Some r)) rows = map (resolve_row rset files None) rows" for rows
    by simp
  then show ?thesis unfolding assemble_graph_with_def Let_def by (simp only:)
qed

lemma assemble_records_valid:
  assumes "assemble_graph_with parsed files rset opts report None True = (g, rep, c)"
  shows "\<exists>cache. c = Some cache \<and> cache_valid rset files cache"
proof -
  have "resolve_row rset files None = resolve_fresh rset files"
    by (rule ext) (rule resolve_row_None)
  then show ?thesis
    using assms record_cache_valid [of rset files Map.empty "sort_key row_path parsed"]
    by (auto simp: assemble_graph_with_def Let_def cache_valid_def)
qed

lemma meta_for_unchanged:
  assumes "map fst news = map fst olds" and "lang \<notin> set (changed_languages olds news)"
  shows "find (\<lambda>e. fst e = lang) news = find (\<lambda>e. fst e = lang) olds"
proof -
  have "length news = length olds" using assms(1) by (metis length_map)
  then show ?thesis using assms
    by (induction news olds rule: list_induct2) (auto simp: changed_languages_def split: if_splits)
qed

text \<open>Re-detecting incrementally and then assembling with the resolutions recorded before gives
  the graph, the report and the recorded resolutions of a detection and an assembly from scratch,
  when the file set is the same and contents changed only at the modified paths.\<close>

lemma reuse_is_invisible:
  assumes "\<And>p. rel_path_new p \<notin> modified \<Longrightarrow> rd' p = rd p"
    and "assemble_graph_with parsed0 files (fst (from_resolvers rd rs files)) opts0 report0 None True
      = (g0, rep0, Some cache)"
  shows "(let (rset, changed, files') = redetect rd' (fst (from_resolvers rd rs files)) files modified
     in assemble_graph_with parsed files rset opts report
          (Some \<lparr>reuse_cache = cache, reuse_changed = changed\<rparr>) rec)
   = assemble_graph_with parsed files (fst (from_resolvers rd' rs files)) opts report None rec"
proof -
  let ?old = "fst (from_resolvers rd rs files)"
  let ?new = "fst (from_resolvers rd' rs files)"
  have same: "same_files files files" by (simp add: same_files_def)
  have rset: "fst (redetect rd' ?old files modified) = ?new"
    "fst (snd (redetect rd' ?old files modified)) = changed_languages (rset_meta ?old) (rset_meta ?new)"
    by (rule redetect_from_scratch [OF assms(1) same]; assumption)+
  have res: "rset_resolvers ?new = rset_resolvers ?old"
    by (simp add: from_resolvers_def split: prod.splits)
  have langs: "map fst (rset_meta ?new) = map fst (rset_meta ?old)"
    using detect_each_meta(1) by (auto simp: from_resolvers_def split: prod.splits)
  have meta: "meta_for ?new lang = meta_for ?old lang"
    if "lang \<notin> set (changed_languages (rset_meta ?old) (rset_meta ?new))" for lang
    using meta_for_unchanged [OF langs that] by (simp add: meta_for_def)
  have "cache_valid ?old files cache" using assemble_records_valid [OF assms(2)] by auto
  then have "assemble_graph_with parsed files ?new opts report
      (Some \<lparr>reuse_cache = cache, reuse_changed = changed_languages (rset_meta ?old) (rset_meta ?new)\<rparr>) rec
    = assemble_graph_with parsed files ?new opts report None rec"
    by (intro assemble_reuse [OF _ res]) (simp_all add: meta)
  moreover obtain i where "redetect rd' ?old files modified
      = (?new, changed_languages (rset_meta ?old) (rset_meta ?new), i)"
    using rset by (metis prod.collapse)
  ultimately show ?thesis by (simp only: Let_def prod.case)
qed


definition demo_parse :: parsed_file where
  "demo_parse = \<lparr>pa_symbols = [], pa_imports = [''./b'', ''fmt''], pa_calls = [], pa_partial = False,
     pa_c_family_rewrite = False\<rparr>"

definition demo_row :: "string \<Rightarrow> parsed_row" where
  "demo_row p = \<lparr>row_path = RelPath p, row_language = Go, row_sha = ''0'', row_loc = 1, row_parsed = demo_parse\<rparr>"

definition demo_options :: index_options where
  "demo_options = \<lparr>io_call_edges = True, io_persist = False, io_persist_read_only = False, io_parse_cache_bytes = 1\<rparr>"

definition empty_report :: index_report where
  "empty_report = \<lparr>ir_files_scanned = 0, ir_files_parsed = 0, ir_parse_failures = [], ir_partial_parses = [],
     ir_too_large = [], ir_unresolved_imports = [], ir_import_edges = 0, ir_symbols = 0\<rparr>"

definition demo_files :: file_index where
  "demo_files = file_index_new ''/r'' [RelPath ''a.go'', RelPath ''b.go'', RelPath ''go.mod'']"

definition demo_set :: resolver_set where
  "demo_set = fst (from_resolvers (\<lambda>p. Some ''a'') [demo_resolver] demo_files)"

definition demo_cache :: resolution_cache where
  "demo_cache = the (snd (snd (assemble_graph_with [demo_row ''a.go''] demo_files demo_set demo_options empty_report None True)))"

lemma reuse_is_invisible_witness:
  "(let (rset, changed, files') = redetect demo_new demo_set demo_files demo_modified
     in assemble_graph_with [demo_row ''a.go''] demo_files rset demo_options empty_report
          (Some \<lparr>reuse_cache = demo_cache, reuse_changed = changed\<rparr>) False)
   = assemble_graph_with [demo_row ''a.go''] demo_files (fst (from_resolvers demo_new [demo_resolver] demo_files))
       demo_options empty_report None False"
proof -
  obtain g rep c where c: "assemble_graph_with [demo_row ''a.go''] demo_files demo_set demo_options empty_report None True
      = (g, rep, Some c)"
    using assemble_records_valid by (metis prod_cases3)
  then have "c = demo_cache" by (simp add: demo_cache_def)
  with c show ?thesis
    unfolding demo_set_def
    by (intro reuse_is_invisible [of demo_modified demo_new "\<lambda>p. Some ''a''"]) (auto simp: demo_new_def)
qed

section \<open>The edges as one sorted list\<close>

definition edge_confidence :: "edge_kind \<Rightarrow> confidence" where
  "edge_confidence k = (case k of Import \<Rightarrow> Scoped | Namespace \<Rightarrow> Scoped | _ \<Rightarrow> Syntactic)"

definition confident :: "code_edge list \<Rightarrow> bool" where
  "confident es \<longleftrightarrow> (\<forall>e\<in>set es. ce_confidence e = edge_confidence (ce_kind e))"

lemma confident_simps [simp]:
  "confident []"
  "confident (e # es) \<longleftrightarrow> ce_confidence e = edge_confidence (ce_kind e) \<and> confident es"
  "confident (es @ fs) \<longleftrightarrow> confident es \<and> confident fs"
  "confident (concat xss) \<longleftrightarrow> (\<forall>xs\<in>set xss. confident xs)"
  by (auto simp: confident_def)

lemma edge_kind_ord_inj: "edge_kind_ord k = edge_kind_ord k' \<longleftrightarrow> k = k'"
  by (cases k; cases k') (simp_all add: edge_kind_ord_def)

lemma confident_uniform: "confident es \<Longrightarrow> uniform es"
  unfolding uniform_def
proof (intro ballI impI)
  fix e f assume "confident es" "e \<in> set es" "f \<in> set es" "graph_edge_key e = graph_edge_key f"
  moreover from this have "ce_kind e = ce_kind f" by (simp add: graph_edge_key_def edge_kind_ord_inj)
  ultimately show "ce_confidence e = ce_confidence f" by (simp add: confident_def)
qed

lemma confident_target_edges: "k = Import \<or> k = Namespace \<Longrightarrow> confident (target_edges index_of f k ts)"
  by (auto simp: target_edges_def file_edge_def edge_confidence_def split: option.splits)

lemma confident_resolution_edges: "confident (resolution_edges index_of f res)"
  by (cases res) (simp_all add: resolution_edges_def confident_target_edges)

lemma confident_file_level: "confident (file_level_edges rows rset resolved)"
proof -
  have "confident (pair_edges files)" for files
    using pair_edges_shape(1,3) by (auto simp: confident_def edge_confidence_def)
  moreover have "confident (project_ref_edges index_of rset)" for index_of
    by (auto simp: project_ref_edges_def file_edge_def edge_confidence_def split: option.splits prod.splits)
  moreover have "confident (row_import_edges index_of row entry)" for index_of row entry
    by (auto simp: row_import_edges_def confident_resolution_edges split: prod.splits)
  ultimately show ?thesis by (auto simp: file_level_edges_def Let_def split: prod.splits)
qed

lemma confident_implementation: "confident (implementation_edges g es)"
  using implementation_edges_shape by (fastforce simp: confident_def inherit_edge_def edge_confidence_def)

lemma confident_calls: "confident (call_edges_of rows symbols)"
  by (auto simp: call_edges_of_def file_call_edges_def caller_edges_def call_edge_def edge_confidence_def
      Let_def confident_def split: prod.splits)


section \<open>Runs of a sorted list\<close>

lemma chunk_by_sorted:
  "sorted (map f xs) \<Longrightarrow>
   chunk_by (\<lambda>a b. f a = f b) xs = map (\<lambda>k. filter (\<lambda>x. f x = k) xs) (remdups_adj (map f xs))"
proof (induction "\<lambda>a b. f a = f b" xs rule: chunk_by.induct)
  case (3 x y ys)
  have s: "sorted (map f (y # ys))" using "3.prems" by simp
  obtain ks where ks: "remdups_adj (map f (y # ys)) = f y # ks"
    by (cases "remdups_adj (map f (y # ys))") (auto dest: arg_cong [where f = hd] simp: hd_remdups_adj)
  have d: "distinct (f y # ks)" using sorted_imp_distinct_remdups_adj [OF s] unfolding ks .
  have keys: "set (f y # ks) = f ` set (y # ys)" unfolding ks [symmetric] by simp
  show ?case
  proof (cases "f x = f y")
    case True
    have "chunk_by (\<lambda>a b. f a = f b) (y # ys) = filter (\<lambda>z. f z = f y) (y # ys)
        # map (\<lambda>k. filter (\<lambda>z. f z = k) (y # ys)) ks"
      using "3.hyps"(1) [OF True s] unfolding ks by simp
    moreover have "filter (\<lambda>z. f z = k) (x # y # ys) = filter (\<lambda>z. f z = k) (y # ys)" if "k \<in> set ks" for k
      using that d True by auto
    moreover have "remdups_adj (map f (x # y # ys)) = f y # ks" using ks True by simp
    ultimately show ?thesis using True by simp
  next
    case False
    have gt: "f x < f z" if "z \<in> set (y # ys)" for z
      using "3.prems" False that by (fastforce simp: less_le)
    have "filter (\<lambda>z. f z = f x) (y # ys) = []" using gt by (force simp: filter_empty_conv)
    moreover have "filter (\<lambda>z. f z = k) (x # y # ys) = filter (\<lambda>z. f z = k) (y # ys)"
      if "k \<in> set (f y # ks)" for k
    proof -
      obtain z where "z \<in> set (y # ys)" "k = f z" using \<open>k \<in> set (f y # ks)\<close> unfolding keys by (rule imageE)
      then have "f x \<noteq> k" using gt [of z] by simp
      then show ?thesis by simp
    qed
    moreover have "remdups_adj (map f (x # y # ys)) = f x # f y # ks" using ks False by simp
    moreover have "chunk_by (\<lambda>a b. f a = f b) (x # y # ys) = [x] # chunk_by (\<lambda>a b. f a = f b) (y # ys)"
      using False by simp
    moreover have "chunk_by (\<lambda>a b. f a = f b) (y # ys)
        = map (\<lambda>k. filter (\<lambda>z. f z = k) (y # ys)) (f y # ks)"
      using "3.hyps"(2) [OF False s] unfolding ks .
    ultimately show ?thesis by (simp del: filter.simps(2) add: filter.simps(2) [of _ x])
  qed
qed simp_all

text \<open>The callers of a file in order, and the target of every call of one caller.\<close>

definition callers_of :: "(u32 \<times> symbol_id list) list \<Rightarrow> u32 list" where
  "callers_of L = remdups_adj (sort (map fst L))"

definition targets_of :: "(u32 \<times> symbol_id list) list \<Rightarrow> u32 \<Rightarrow> u32 list" where
  "targets_of L f =
     concat (map (\<lambda>(_, targets). filter (\<lambda>t. t \<noteq> f) (map symbol_no targets)) (filter (\<lambda>x. fst x = f) L))"

lemma caller_edges_form:
  assumes "filter (\<lambda>x. fst x = f) L \<noteq> []"
  shows "caller_edges (filter (\<lambda>x. fst x = f) L)
    = map (\<lambda>t. call_edge f t (length (filter (\<lambda>x. x = t) (targets_of L f)))) (remdups_adj (sort (targets_of L f)))"
proof -
  have "hd (filter (\<lambda>x. fst x = f) L) \<in> set (filter (\<lambda>x. fst x = f) L)" using assms by (rule hd_in_set)
  then have hd: "fst (hd (filter (\<lambda>x. fst x = f) L)) = f" by simp
  have runs: "chunk_by (=) (sort (targets_of L f))
    = map (\<lambda>t. filter (\<lambda>x. x = t) (sort (targets_of L f))) (remdups_adj (sort (targets_of L f)))"
    using chunk_by_sorted [of "\<lambda>x. x" "sort (targets_of L f)"] by simp
  have len: "length (filter (\<lambda>x. x = t) (sort (targets_of L f))) = length (filter (\<lambda>x. x = t) (targets_of L f))" for t
    by (metis mset_filter mset_sort size_mset)
  have hd_run: "hd (filter (\<lambda>x. x = t) (sort (targets_of L f))) = t" if "t \<in> set (targets_of L f)" for t
  proof -
    have "t \<in> set (filter (\<lambda>x. x = t) (sort (targets_of L f)))" using that by simp
    then have "filter (\<lambda>x. x = t) (sort (targets_of L f)) \<noteq> []" by (metis empty_iff list.set(1))
    then have "hd (filter (\<lambda>x. x = t) (sort (targets_of L f)))
        \<in> set (filter (\<lambda>x. x = t) (sort (targets_of L f)))" by (rule hd_in_set)
    then show ?thesis by simp
  qed
  show ?thesis
    unfolding caller_edges_def Let_def hd targets_of_def [symmetric] runs map_map
    by (rule map_cong [OF refl]) (simp add: len hd_run)
qed


lemma set_callers_of: "set (callers_of L) = fst ` set L"
  by (simp add: callers_of_def)

lemma file_call_edges_form:
  "file_call_edges by_name in_file calls =
    (if in_file = [] then []
     else let L = calls_by_caller by_name in_file calls in
       concat (map (\<lambda>f. map (\<lambda>t. call_edge f t (length (filter (\<lambda>x. x = t) (targets_of L f))))
                     (remdups_adj (sort (targets_of L f)))) (callers_of L)))"
proof (cases "in_file = []")
  case False
  let ?L = "calls_by_caller by_name in_file calls"
  have "map fst (sort_key fst ?L) = sort (map fst ?L)"
    by (rule sym, rule properties_for_sort) simp_all
  then have "chunk_by (\<lambda>a b. fst a = fst b) (sort_key fst ?L)
      = map (\<lambda>f. filter (\<lambda>x. fst x = f) ?L) (callers_of ?L)"
    using chunk_by_sorted [of fst "sort_key fst ?L"] by (simp add: callers_of_def sort_key_stable)
  then have "file_call_edges by_name in_file calls
      = concat (map (\<lambda>f. caller_edges (filter (\<lambda>x. fst x = f) ?L)) (callers_of ?L))"
    using False by (simp add: file_call_edges_def comp_def)
  also have "map (\<lambda>f. caller_edges (filter (\<lambda>x. fst x = f) ?L)) (callers_of ?L)
      = map (\<lambda>f. map (\<lambda>t. call_edge f t (length (filter (\<lambda>x. x = t) (targets_of ?L f))))
                     (remdups_adj (sort (targets_of ?L f)))) (callers_of ?L)"
  proof (rule map_cong [OF refl])
    fix f assume "f \<in> set (callers_of ?L)"
    then have "filter (\<lambda>x. fst x = f) ?L \<noteq> []" by (auto simp: set_callers_of filter_empty_conv)
    then show "caller_edges (filter (\<lambda>x. fst x = f) ?L)
      = map (\<lambda>t. call_edge f t (length (filter (\<lambda>x. x = t) (targets_of ?L f))))
          (remdups_adj (sort (targets_of ?L f)))" by (rule caller_edges_form)
  qed
  finally show ?thesis using False by (simp add: Let_def)
qed (simp add: file_call_edges_def)

lemma edge_sorted_append:
  "edge_sorted (xs @ ys) \<longleftrightarrow>
     edge_sorted xs \<and> edge_sorted ys \<and> (\<forall>x\<in>set xs. \<forall>y\<in>set ys. graph_edge_key x < graph_edge_key y)"
  by (simp add: edge_sorted_def sorted_wrt_append)

lemma edge_sorted_Nil [simp]: "edge_sorted []" by (simp add: edge_sorted_def)

lemma call_edge_key: "graph_edge_key (call_edge f t n) = (f, t, 1)"
  by (simp add: call_edge_def graph_edge_key_def edge_kind_ord_def)

lemma strictly_sorted_remdups: "sorted_wrt (<) (remdups_adj (sort (xs :: 'a::linorder list)))"
  using sorted_imp_distinct_remdups_adj [of "sort xs"] by (simp add: strict_sorted_iff)

lemma edge_sorted_runs:
  "sorted_wrt (<) ts \<Longrightarrow> edge_sorted (map (\<lambda>t. call_edge f t (n t)) ts)"
  by (induction ts) (auto simp: edge_sorted_Cons call_edge_key)

lemma edge_sorted_callers:
  "sorted_wrt (<) fs \<Longrightarrow> (\<And>f. sorted_wrt (<) (ts f)) \<Longrightarrow>
   edge_sorted (concat (map (\<lambda>f. map (\<lambda>t. call_edge f t (n f t)) (ts f)) fs))"
proof (induction fs)
  case (Cons f fs)
  then show ?case
    using edge_sorted_runs [of "ts f" f "n f"] by (auto simp: edge_sorted_append call_edge_key)
qed simp

lemma file_call_edges_sorted: "edge_sorted (file_call_edges by_name in_file calls)"
proof (cases "in_file = []")
  case False
  have "sorted_wrt (<) (callers_of L)" for L
    unfolding callers_of_def by (rule strictly_sorted_remdups)
  then have "edge_sorted (concat (map (\<lambda>f. map (\<lambda>t. call_edge f t (n f t)) (remdups_adj (sort (targets_of L f))))
      (callers_of L)))" for n L
    by (rule edge_sorted_callers) (rule strictly_sorted_remdups)
  then show ?thesis unfolding file_call_edges_form Let_def using False by (simp only: if_False)
qed (simp add: file_call_edges_def)

lemma enclosing_in_file:
  assumes "(c, Some s) \<in> set (zip calls (enclosing_symbols in_file calls))"
  shows "s \<in> set in_file"
proof -
  have "Some s \<in> set (enclosing_symbols in_file calls)" using assms by (rule set_zip_rightD)
  then obtain line where "smallest_linear in_file line = Some s"
    unfolding enclosing_symbols_linear by auto
  then show ?thesis using min_by_key_Some by (fastforce simp: smallest_linear_def)
qed

lemma calls_by_caller_in_file:
  "(f, ts) \<in> set (calls_by_caller by_name in_file calls) \<Longrightarrow> f \<in> (symbol_no \<circ> cs_id) ` set in_file"
  by (auto simp: calls_by_caller_def dest!: enclosing_in_file split: option.splits)

lemma file_call_edges_from:
  "e \<in> set (file_call_edges by_name in_file calls) \<Longrightarrow> ce_from e \<in> (symbol_no \<circ> cs_id) ` set in_file"
  unfolding file_call_edges_form Let_def
  by (auto simp: set_callers_of call_edge_def dest!: calls_by_caller_in_file split: if_splits)

section \<open>Dense symbol ids\<close>

lemma file_ranges_append:
  "file_ranges b (rows @ [r]) =
     file_ranges b rows @ [(b + sum_list (map (\<lambda>r. length (pa_symbols (row_parsed r))) rows),
       b + sum_list (map (\<lambda>r. length (pa_symbols (row_parsed r))) rows) + length (pa_symbols (row_parsed r)))]"
  by (induction rows arbitrary: b) (simp_all add: Let_def)

lemma length_file_ranges [simp]: "length (file_ranges b rows) = length rows"
  by (induction rows arbitrary: b) (simp_all add: Let_def)

lemma symbols_per_file_append:
  "symbols_per_file (rows @ [r]) = symbols_per_file rows
     @ [place_symbols (length rows) (sum_list (map (\<lambda>r. length (pa_symbols (row_parsed r))) rows))
          (pa_symbols (row_parsed r))]"
proof -
  have "map (\<lambda>(i, row). place_symbols i (fst (file_ranges 0 (rows @ [r]) ! i)) (pa_symbols (row_parsed row))) (enumerate 0 rows)
      = symbols_per_file rows"
    unfolding symbols_per_file_def
    by (rule map_cong [OF refl]) (auto simp: in_set_enumerate_eq file_ranges_append nth_append)
  then show ?thesis
    by (simp add: symbols_per_file_def enumerate_append_eq file_ranges_append nth_append)
qed

lemma length_place_symbols [simp]: "length (place_symbols i b syms) = length syms"
  by (simp add: place_symbols_def)

lemma place_symbols_ids:
  "map (symbol_no \<circ> cs_id) (place_symbols i b syms) = map of_nat [b..<b + length syms]"
  by (rule nth_equalityI) (simp_all add: place_symbols_def nth_enumerate_eq)

lemma length_symbols:
  "length (concat (symbols_per_file rows)) = sum_list (map (\<lambda>r. length (pa_symbols (row_parsed r))) rows)"
  by (induction rows rule: rev_induct) (simp_all add: symbols_per_file_append, simp add: symbols_per_file_def)

lemma symbol_ids_dense:
  "map (symbol_no \<circ> cs_id) (concat (symbols_per_file rows)) = map of_nat [0..<length (concat (symbols_per_file rows))]"
proof (induction rows rule: rev_induct)
  case (snoc r rows)
  let ?n = "length (concat (symbols_per_file rows))"
  let ?m = "length (pa_symbols (row_parsed r))"
  have "[0..<?n + ?m] = [0..<?n] @ [?n..<?n + ?m]" by (rule upt_add_eq_append) simp
  then show ?case
    using snoc by (simp only: symbols_per_file_append concat_append map_append length_append concat.simps
        append_Nil2 length_place_symbols length_symbols [symmetric] place_symbols_ids)
qed (simp add: symbols_per_file_def)


lemma file_ranges_nth:
  "i < length rows \<Longrightarrow> file_ranges 0 rows ! i =
     (sum_list (map length (take i (symbols_per_file rows))),
      sum_list (map length (take i (symbols_per_file rows))) + length (symbols_per_file rows ! i))"
proof (induction rows arbitrary: i rule: rev_induct)
  case (snoc r rows)
  have len: "length (symbols_per_file rows) = length rows" by (simp add: symbols_per_file_def)
  have "sum_list (map length (symbols_per_file rows)) = sum_list (map (\<lambda>r. length (pa_symbols (row_parsed r))) rows)"
    using length_symbols [of rows] by (simp add: length_concat)
  then show ?case
    using snoc by (cases "i < length rows")
      (auto simp: file_ranges_append symbols_per_file_append nth_append len less_Suc_eq)
qed simp

lemma slice_concat:
  "i < length xss \<Longrightarrow>
   slice (concat xss) (sum_list (map length (take i xss))) (sum_list (map length (take i xss)) + length (xss ! i)) = xss ! i"
proof (induction xss arbitrary: i)
  case (Cons xs xss)
  then show ?case by (cases i) simp_all
qed simp

lemma in_file_symbols:
  assumes "i < length rows" and "file_ranges 0 rows ! i = (a, b)"
  shows "slice (concat (symbols_per_file rows)) a b = symbols_per_file rows ! i"
proof -
  have "i < length (symbols_per_file rows)" using assms(1) by (simp add: symbols_per_file_def)
  moreover have "a = sum_list (map length (take i (symbols_per_file rows)))"
    "b = sum_list (map length (take i (symbols_per_file rows))) + length (symbols_per_file rows ! i)"
    using assms(2) file_ranges_nth [OF assms(1)] by simp_all
  ultimately show ?thesis using slice_concat by (simp only:)
qed

lemma of_nat_less_u32:
  "a < b \<Longrightarrow> b < 2 ^ 32 \<Longrightarrow> (of_nat a :: u32) < of_nat b"
  by (simp add: word_less_nat_alt unat_of_nat)

lemma append_order:
  assumes "map g (concat (xss @ [xs])) = map (of_nat :: nat \<Rightarrow> u32) [0..<length (concat (xss @ [xs]))]"
    and "length (concat (xss @ [xs])) \<le> 2 ^ 32" and "x \<in> set (concat xss)" and "y \<in> set xs"
  shows "g x < g y"
proof -
  let ?zs = "concat xss @ xs"
  obtain i where i: "i < length (concat xss)" "concat xss ! i = x"
    using assms(3) unfolding in_set_conv_nth by blast
  obtain j where j: "j < length xs" "xs ! j = y"
    using assms(4) unfolding in_set_conv_nth by blast
  have "map g ?zs ! k = of_nat k" if "k < length ?zs" for k
    using assms(1) that by (simp del: map_append)
  then have at: "g (?zs ! k) = of_nat k" if "k < length ?zs" for k
    using nth_map [of k ?zs g] that by (simp del: map_append)
  have "g x = of_nat i" using at [of i] i by (simp add: nth_append)
  moreover have "g y = of_nat (length (concat xss) + j)"
    using at [of "length (concat xss) + j"] j by (simp add: nth_append)
  moreover have "(of_nat i :: u32) < of_nat (length (concat xss) + j)"
    using i j assms(2) by (intro of_nat_less_u32) simp_all
  ultimately show ?thesis by simp
qed

lemma concat_file_edges_sorted:
  "map (symbol_no \<circ> cs_id) (concat xss) = map of_nat [0..<length (concat xss)] \<Longrightarrow>
   length (concat xss) \<le> 2 ^ 32 \<Longrightarrow>
   edge_sorted (concat (map (\<lambda>(xs, calls). file_call_edges by_name xs calls) (zip xss callss)))"
proof (induction xss arbitrary: callss rule: rev_induct)
  case (snoc xs xss)
  have ids: "map (\<lambda>s. symbol_no (cs_id s)) (concat xss) = map of_nat [0..<length (concat xss)]"
    using arg_cong [OF snoc.prems(1), of "take (length (concat xss))"] by (simp add: take_map comp_def)
  have len: "length (concat xss) \<le> 2 ^ 32" using snoc.prems(2) by simp
  note IH = snoc.IH [OF _ len, unfolded comp_def, OF ids]
  show ?case
  proof (cases "length callss \<le> length xss")
    case True
    then have "zip (xss @ [xs]) callss = zip xss callss" by (simp add: zip_append1)
    then show ?thesis using IH by simp
  next
    case False
    let ?c1 = "take (length xss) callss" and ?c2 = "drop (length xss) callss"
    obtain c cs where c2: "?c2 = c # cs" using False by (cases ?c2) auto
    have z: "zip (xss @ [xs]) callss = zip xss ?c1 @ [(xs, c)]" by (simp add: zip_append1 c2)
    have "graph_edge_key e < graph_edge_key f"
      if e: "e \<in> set (concat (map (\<lambda>(xs, calls). file_call_edges by_name xs calls) (zip xss ?c1)))"
        and f: "f \<in> set (file_call_edges by_name xs c)" for e f
    proof -
      obtain ys d where "(ys, d) \<in> set (zip xss ?c1)" "e \<in> set (file_call_edges by_name ys d)" using e by auto
      then obtain s where s: "s \<in> set (concat xss)" "ce_from e = (symbol_no \<circ> cs_id) s"
        by (force dest: set_zip_leftD file_call_edges_from)
      obtain t where t: "t \<in> set xs" "ce_from f = (symbol_no \<circ> cs_id) t"
        using file_call_edges_from [OF f] by blast
      have "(symbol_no \<circ> cs_id) s < (symbol_no \<circ> cs_id) t"
        by (rule append_order [OF snoc.prems s(1) t(1)])
      then show ?thesis by (simp add: graph_edge_key_def s(2) t(2))
    qed
    then show ?thesis
      using IH [of ?c1] file_call_edges_sorted [of by_name xs c]
      by (simp only: z map_append concat_append list.map concat.simps append_Nil2 prod.case edge_sorted_append) blast
  qed
qed simp

lemma call_edges_of_form:
  "call_edges_of rows (concat (symbols_per_file rows)) =
     concat (map (\<lambda>(xs, calls). file_call_edges (group_table cs_name cs_id (concat (symbols_per_file rows))) xs calls)
       (zip (symbols_per_file rows) (map (\<lambda>row. pa_calls (row_parsed row)) rows)))"
proof -
  let ?T = "group_table cs_name cs_id (concat (symbols_per_file rows))"
  let ?S = "concat (symbols_per_file rows)"
  have "map (\<lambda>(i, row). let (a, b) = file_ranges 0 rows ! i in
           file_call_edges ?T (slice ?S a b) (pa_calls (row_parsed row))) (enumerate 0 rows)
      = map (\<lambda>(xs, calls). file_call_edges ?T xs calls)
          (zip (symbols_per_file rows) (map (\<lambda>row. pa_calls (row_parsed row)) rows))"
  proof (rule nth_equalityI)
    fix i assume "i < length (map (\<lambda>(i, row). let (a, b) = file_ranges 0 rows ! i in
           file_call_edges ?T (slice ?S a b) (pa_calls (row_parsed row))) (enumerate 0 rows))"
    then have i: "i < length rows" by simp
    obtain a b where ab: "file_ranges 0 rows ! i = (a, b)" by fastforce
    show "map (\<lambda>(i, row). let (a, b) = file_ranges 0 rows ! i in
           file_call_edges ?T (slice ?S a b) (pa_calls (row_parsed row))) (enumerate 0 rows) ! i
      = map (\<lambda>(xs, calls). file_call_edges ?T xs calls)
          (zip (symbols_per_file rows) (map (\<lambda>row. pa_calls (row_parsed row)) rows)) ! i"
      using i ab in_file_symbols [OF i ab] by (simp add: nth_enumerate_eq symbols_per_file_def [of rows])
  qed (simp add: symbols_per_file_def)
  then show ?thesis unfolding call_edges_of_def Let_def by (simp only:)
qed


lemma call_edges_sorted:
  "length (concat (symbols_per_file rows)) \<le> 2 ^ 32 \<Longrightarrow>
   edge_sorted (call_edges_of rows (concat (symbols_per_file rows)))"
  unfolding call_edges_of_form by (rule concat_file_edges_sorted [OF symbol_ids_dense])

text \<open>All edges of an assembly, as collected.\<close>

definition raw_edges ::
  "parsed_row list \<Rightarrow> file_index \<Rightarrow> resolver_set \<Rightarrow> index_options \<Rightarrow> resolve_reuse option \<Rightarrow> code_edge list" where
  "raw_edges parsed files rset opts reuse =
     (let rows = sort_key row_path parsed;
          symbols = concat (symbols_per_file rows);
          edges = file_level_edges rows rset (map (resolve_row rset files reuse) rows)
      in if io_call_edges opts
         then edges @ implementation_edges \<lparr>cg_files = graph_files rows, cg_symbols = symbols, cg_edges = []\<rparr> edges
              @ call_edges_of rows symbols
         else edges)"

lemma confident_folds:
  assumes "confident raw" and "folds es raw"
  shows "set es = {e. (\<exists>f\<in>set raw. graph_edge_key f = graph_edge_key e)
                   \<and> ce_confidence e = edge_confidence (ce_kind e)
                   \<and> ce_weight e = key_weight (graph_edge_key e) raw}"
proof -
  have kind: "ce_kind f = ce_kind e" if "graph_edge_key f = graph_edge_key e" for e f
    using that by (simp add: graph_edge_key_def edge_kind_ord_inj)
  have "(\<exists>f\<in>set raw. graph_edge_key f = graph_edge_key e \<and> ce_confidence f = ce_confidence e)
      \<longleftrightarrow> (\<exists>f\<in>set raw. graph_edge_key f = graph_edge_key e) \<and> ce_confidence e = edge_confidence (ce_kind e)" for e
  proof -
    have "ce_confidence f = ce_confidence e \<longleftrightarrow> ce_confidence e = edge_confidence (ce_kind e)"
      if "f \<in> set raw" "graph_edge_key f = graph_edge_key e" for f
      using assms(1) kind [OF that(2)] that(1) by (auto simp: confident_def)
    then show ?thesis by blast
  qed
  then show ?thesis using assms(2) by (simp add: folds_def conj_assoc)
qed

text \<open>C11: sorting the few edges that are not calls and merging them with the call edges, which the
  per-file pass emits in order, is one sort of all edges: the edges of the graph are strictly
  ascending by from, to and kind, and each carries the confidence of its kind and the number of
  raw edges with its key.\<close>

theorem assembled_edges_canonical:
  assumes "length (cg_symbols (fst (assemble_graph_with parsed files rset opts report reuse rec))) \<le> 2 ^ 32"
  shows "let es = cg_edges (fst (assemble_graph_with parsed files rset opts report reuse rec));
             raw = raw_edges parsed files rset opts reuse in
    es = sort_and_merge raw \<and> edge_sorted es
    \<and> set es = {e. (\<exists>f\<in>set raw. graph_edge_key f = graph_edge_key e)
                   \<and> ce_confidence e = edge_confidence (ce_kind e)
                   \<and> ce_weight e = key_weight (graph_edge_key e) raw}"
proof -
  let ?rows = "sort_key row_path parsed"
  let ?symbols = "concat (symbols_per_file ?rows)"
  let ?edges = "file_level_edges ?rows rset (map (resolve_row rset files reuse) ?rows)"
  let ?impl = "if io_call_edges opts then implementation_edges
     \<lparr>cg_files = graph_files ?rows, cg_symbols = ?symbols, cg_edges = []\<rparr> ?edges else []"
  let ?calls = "if io_call_edges opts then call_edges_of ?rows ?symbols else []"
  let ?raw = "raw_edges parsed files rset opts reuse"
  let ?es = "cg_edges (fst (assemble_graph_with parsed files rset opts report reuse rec))"
  have raw: "?raw = (?edges @ ?impl) @ ?calls" by (simp add: raw_edges_def Let_def)
  have conf: "confident ?raw"
    unfolding raw by (simp add: confident_file_level confident_implementation confident_calls)
  have "length ?symbols \<le> 2 ^ 32" using assms by (simp add: assemble_graph_with_def Let_def)
  then have "edge_sorted ?calls" by (simp add: call_edges_sorted)
  then have es: "?es = sort_and_merge ?raw"
    unfolding raw by (simp add: assemble_graph_with_def Let_def
        split_merge_one_sort [OF confident_uniform [OF conf [unfolded raw]]])
  have folds: "folds ?es ?raw" unfolding es by (rule sort_and_merge_folds [OF confident_uniform [OF conf]])
  have "set ?es = {e. (\<exists>f\<in>set ?raw. graph_edge_key f = graph_edge_key e)
                   \<and> ce_confidence e = edge_confidence (ce_kind e)
                   \<and> ce_weight e = key_weight (graph_edge_key e) ?raw}"
    by (rule confident_folds [OF conf folds])
  then show ?thesis using es folds by (simp add: Let_def folds_def)
qed

lemma demo_no_symbols:
  "length (cg_symbols (fst (assemble_graph_with [demo_row ''a.go''] demo_files demo_set demo_options empty_report None rec))) = 0"
  by (simp add: assemble_graph_with_def Let_def length_symbols demo_row_def demo_parse_def)

theorem assembled_edges_canonical_witness:
  "let es = cg_edges (fst (assemble_graph_with [demo_row ''a.go''] demo_files demo_set demo_options empty_report None True));
       raw = raw_edges [demo_row ''a.go''] demo_files demo_set demo_options None in
    es = sort_and_merge raw \<and> edge_sorted es
    \<and> set es = {e. (\<exists>f\<in>set raw. graph_edge_key f = graph_edge_key e)
                   \<and> ce_confidence e = edge_confidence (ce_kind e)
                   \<and> ce_weight e = key_weight (graph_edge_key e) raw}"
  by (rule assembled_edges_canonical) (simp add: demo_no_symbols)


section \<open>What a call edge counts\<close>

text \<open>The calls of a file that lie in symbol \<open>f\<close> and may mean \<open>t\<close>.\<close>

definition calls_between ::
  "(string \<Rightarrow> symbol_id list option) \<Rightarrow> code_symbol list \<Rightarrow> (string \<times> u32) list \<Rightarrow> u32 \<Rightarrow> u32 \<Rightarrow> nat" where
  "calls_between by_name in_file calls f t =
     length (filter (\<lambda>(callee, line).
       (case smallest_linear in_file line of None \<Rightarrow> False | Some c \<Rightarrow> symbol_no (cs_id c) = f)
       \<and> (case call_targets by_name callee of None \<Rightarrow> False | Some ts \<Rightarrow> t \<in> symbol_no ` set ts)) calls)"

lemma occurrences_distinct: "distinct xs \<Longrightarrow> length (filter (\<lambda>x. x = t) xs) = (if t \<in> set xs then 1 else 0)"
  by (induction xs) auto

lemma targets_of_Cons:
  "targets_of ((c, ts) # L) f =
     (if c = f then filter (\<lambda>t. t \<noteq> f) (map symbol_no ts) else []) @ targets_of L f"
  by (simp add: targets_of_def)

lemma targets_count:
  assumes "t \<noteq> f" and "\<And>c ts. (c, ts) \<in> set L \<Longrightarrow> distinct (map symbol_no ts)"
  shows "length (filter (\<lambda>x. x = t) (targets_of L f))
    = length (filter (\<lambda>(c, ts). c = f \<and> t \<in> symbol_no ` set ts) L)"
  using assms(2)
proof (induction L)
  case (Cons p L)
  obtain c ts where p: "p = (c, ts)" by fastforce
  have "distinct (map symbol_no ts)" using Cons.prems p by auto
  then have "distinct (filter (\<lambda>t. t \<noteq> f) (map symbol_no ts))" by (rule distinct_filter)
  from occurrences_distinct [OF this, of t] show ?case
    using Cons.IH Cons.prems assms(1) by (simp add: p targets_of_Cons del: filter_filter) force
qed (simp add: targets_of_def)

lemma targets_of_not_self: "t \<in> set (targets_of L f) \<Longrightarrow> t \<noteq> f"
  by (auto simp: targets_of_def)

lemma calls_by_caller_count:
  "length (filter (\<lambda>(c, ts). c = f \<and> t \<in> symbol_no ` set ts) (calls_by_caller by_name in_file calls))
   = calls_between by_name in_file calls f t"
proof -
  have "length (filter (\<lambda>(c, ts). c = f \<and> t \<in> symbol_no ` set ts)
      (concat (map (\<lambda>((callee, line), caller).
         (case caller of None \<Rightarrow> []
          | Some c \<Rightarrow> (case call_targets by_name callee of None \<Rightarrow> []
                      | Some targets \<Rightarrow> [(symbol_no (cs_id c), targets)])))
       (zip calls (map (\<lambda>c. smallest_linear in_file (snd c)) calls)))))
    = calls_between by_name in_file calls f t" for calls
  proof (induction calls)
    case (Cons x calls)
    obtain callee line where x: "x = (callee, line)" by fastforce
    show ?case
      using Cons.IH by (cases "smallest_linear in_file line"; cases "call_targets by_name callee")
        (simp_all add: x calls_between_def)
  qed (simp add: calls_between_def)
  then show ?thesis by (simp add: calls_by_caller_def enclosing_symbols_linear)
qed

lemma group_distinct:
  assumes "distinct (map (symbol_no \<circ> cs_id) symbols)"
    and "call_targets (group_table cs_name cs_id symbols) callee = Some ts"
  shows "distinct (map symbol_no ts)"
proof -
  have "ts = map cs_id (filter (\<lambda>s. cs_name s = short_callee callee) symbols)"
    using assms(2) by (auto simp: call_targets_def group_table_at split: if_splits option.splits)
  then show ?thesis using distinct_map_filter [OF assms(1)] by simp
qed

lemma calls_by_caller_targets:
  "(c, ts) \<in> set (calls_by_caller by_name in_file calls) \<Longrightarrow> \<exists>callee. call_targets by_name callee = Some ts"
  by (auto simp: calls_by_caller_def split: option.splits)

lemma file_call_edges_exact:
  assumes "distinct (map (symbol_no \<circ> cs_id) symbols)"
  shows "set (file_call_edges (group_table cs_name cs_id symbols) in_file calls) =
    {call_edge f t (calls_between (group_table cs_name cs_id symbols) in_file calls f t) | f t.
      f \<noteq> t \<and> 0 < calls_between (group_table cs_name cs_id symbols) in_file calls f t}"
proof (cases "in_file = []")
  case True
  then have "calls_between by_name in_file calls f t = 0" for by_name f t
    by (simp add: calls_between_def smallest_linear_def filter_empty_conv)
  with True show ?thesis by (simp add: file_call_edges_def)
next
  case False
  let ?T = "group_table cs_name cs_id symbols"
  let ?L = "calls_by_caller ?T in_file calls"
  have d: "distinct (map symbol_no ts)" if "(c, ts) \<in> set ?L" for c ts
    using calls_by_caller_targets [OF that] group_distinct [OF assms] by blast
  have count: "length (filter (\<lambda>x. x = t) (targets_of ?L f)) = calls_between ?T in_file calls f t"
    if "f \<noteq> t" for f t
    using targets_count [OF that [symmetric] d] by (simp add: calls_by_caller_count)
  have mem: "f \<in> fst ` set ?L \<and> t \<in> set (targets_of ?L f) \<longleftrightarrow> f \<noteq> t \<and> 0 < calls_between ?T in_file calls f t" for f t
  proof
    assume a: "f \<in> fst ` set ?L \<and> t \<in> set (targets_of ?L f)"
    then have "f \<noteq> t" using targets_of_not_self by metis
    have "filter (\<lambda>x. x = t) (targets_of ?L f) \<noteq> []" using a by (auto simp: filter_empty_conv)
    then have "0 < length (filter (\<lambda>x. x = t) (targets_of ?L f))" by simp
    with \<open>f \<noteq> t\<close> show "f \<noteq> t \<and> 0 < calls_between ?T in_file calls f t"
      by (simp only: count not_False_eq_True simp_thms)
  next
    assume a: "f \<noteq> t \<and> 0 < calls_between ?T in_file calls f t"
    then have "0 < length (filter (\<lambda>x. x = t) (targets_of ?L f))" using count by simp
    then have t: "t \<in> set (targets_of ?L f)" by (auto simp: filter_empty_conv)
    moreover have "f \<in> fst ` set ?L" using t by (force simp: targets_of_def)
    ultimately show "f \<in> fst ` set ?L \<and> t \<in> set (targets_of ?L f)" by blast
  qed
  have "set (file_call_edges ?T in_file calls) =
    {call_edge f t (length (filter (\<lambda>x. x = t) (targets_of ?L f))) | f t.
      f \<in> fst ` set ?L \<and> t \<in> set (targets_of ?L f)}"
    unfolding file_call_edges_form Let_def using False by (auto simp: set_callers_of)
  also have "\<dots> = {call_edge f t (calls_between ?T in_file calls f t) | f t.
      f \<noteq> t \<and> 0 < calls_between ?T in_file calls f t}"
    unfolding mem using count by (metis (no_types, lifting))
  finally show ?thesis .
qed

lemma dense_distinct:
  assumes "length (concat (symbols_per_file rows)) \<le> 2 ^ 32"
  shows "distinct (map (symbol_no \<circ> cs_id) (concat (symbols_per_file rows)))"
proof -
  have "inj_on (of_nat :: nat \<Rightarrow> u32) (set [0..<length (concat (symbols_per_file rows))])"
  proof (rule inj_onI)
    fix a b assume ab: "a \<in> set [0..<length (concat (symbols_per_file rows))]"
      "b \<in> set [0..<length (concat (symbols_per_file rows))]" "(of_nat a :: u32) = of_nat b"
    then have "a < 2 ^ 32" "b < 2 ^ 32" using assms
      by (metis set_upt atLeastLessThan_iff order_less_le_trans)+
    then have "\<not> a < b" "\<not> b < a" using of_nat_less_u32 [of a b] of_nat_less_u32 [of b a] ab(3) by auto
    then show "a = b" by simp
  qed
  then show ?thesis unfolding symbol_ids_dense by (simp add: distinct_map)
qed

text \<open>C9: the call edges are exactly, file by file, the pairs of different symbols with at least one
  call from the one that may mean the other, and the weight is the number of those calls: a call
  belongs to the smallest symbol around its line and may mean every symbol named like its last
  segment, unless more than fifty symbols have that name.\<close>

theorem call_edges_exact:
  assumes "length (concat (symbols_per_file rows)) \<le> 2 ^ 32"
  shows "let symbols = concat (symbols_per_file rows); by_name = group_table cs_name cs_id symbols in
    set (call_edges_of rows symbols) =
      {call_edge f t (calls_between by_name (symbols_per_file rows ! i) (pa_calls (row_parsed (rows ! i))) f t) | i f t.
        i < length rows \<and> f \<noteq> t
        \<and> 0 < calls_between by_name (symbols_per_file rows ! i) (pa_calls (row_parsed (rows ! i))) f t}"
proof -
  let ?T = "group_table cs_name cs_id (concat (symbols_per_file rows))"
  let ?n = "\<lambda>i. calls_between ?T (symbols_per_file rows ! i) (pa_calls (row_parsed (rows ! i)))"
  have "set (zip (symbols_per_file rows) (map (\<lambda>row. pa_calls (row_parsed row)) rows))
      = (\<lambda>i. (symbols_per_file rows ! i, pa_calls (row_parsed (rows ! i)))) ` {..<length rows}"
  proof -
    have "length (symbols_per_file rows) = length rows" by (simp add: symbols_per_file_def)
    then show ?thesis unfolding set_zip by (auto simp: image_iff)
  qed
  then have "set (call_edges_of rows (concat (symbols_per_file rows)))
      = (\<Union>i\<in>{..<length rows}. set (file_call_edges ?T (symbols_per_file rows ! i) (pa_calls (row_parsed (rows ! i)))))"
    unfolding call_edges_of_form by simp
  also have "\<dots> = (\<Union>i\<in>{..<length rows}. {call_edge f t (?n i f t) | f t. f \<noteq> t \<and> 0 < ?n i f t})"
    by (simp only: file_call_edges_exact [OF dense_distinct [OF assms]])
  also have "\<dots> = {call_edge f t (?n i f t) | i f t. i < length rows \<and> f \<noteq> t \<and> 0 < ?n i f t}" by blast
  finally show ?thesis by (simp only: Let_def)
qed

definition sample_symbol :: "string \<Rightarrow> u32 \<Rightarrow> code_symbol" where
  "sample_symbol n line = \<lparr>cs_id = SymbolId 0, cs_file = FileId 0, cs_name = n, cs_kind = Function, cs_signature = n,
     cs_start_line = line, cs_end_line = line + 2, cs_exported = True\<rparr>"

definition sample_rows :: "parsed_row list" where
  "sample_rows = [(demo_row ''a.go'')\<lparr>row_parsed := demo_parse\<lparr>
     pa_symbols := [sample_symbol ''f'' 1, sample_symbol ''g'' 5], pa_calls := [(''x.g'', 2), (''f'', 2)]\<rparr>\<rparr>]"

theorem call_edges_exact_witness:
  "let symbols = concat (symbols_per_file sample_rows); by_name = group_table cs_name cs_id symbols in
    call_edges_of sample_rows symbols = [call_edge 0 1 1]
    \<and> set (call_edges_of sample_rows symbols) =
      {call_edge f t (calls_between by_name (symbols_per_file sample_rows ! i) (pa_calls (row_parsed (sample_rows ! i))) f t) | i f t.
        i < length sample_rows \<and> f \<noteq> t
        \<and> 0 < calls_between by_name (symbols_per_file sample_rows ! i) (pa_calls (row_parsed (sample_rows ! i))) f t}"
proof -
  have "length (concat (symbols_per_file sample_rows)) = 2" by code_simp
  then have "length (concat (symbols_per_file sample_rows)) \<le> 2 ^ 32" by simp
  note exact = call_edges_exact [OF this]
  have "call_edges_of sample_rows (concat (symbols_per_file sample_rows)) = [call_edge 0 1 1]" by code_simp
  with exact show ?thesis by (simp only: Let_def simp_thms)
qed

end
