(* ===== verification/ParseStep.thy ===== *)
theory ParseStep
  imports Assemble Store
begin

text \<open>
  The parse of the scanned files through the persistent cache (\<open>parse_one\<close> and
  \<open>parse_paths_cancellable\<close> of \<open>astrolabe-core/src/index.rs\<close>): the content digest, the cache keys,
  the warm start by file stamp, the buffered cache writes, the pruning after a full scan.  The
  environment holds what the files and the parsers answer during one run.  The parallel loop is
  run in the order of the paths; its effects are appended to the shared lists in that order.
\<close>

section \<open>Digest and keys\<close>

definition fnv1a :: "string \<Rightarrow> u64" where
  "fnv1a source = foldl (\<lambda>h c. (h XOR of_int (byte c)) * 0x100000001b3) 0xcbf29ce484222325 source"

definition hex16 :: "u64 \<Rightarrow> string" where
  "hex16 w = map (\<lambda>s. hex_digit (uint (drop_bit s w AND 0xF))) (map (\<lambda>i. 60 - 4 * i) [0..<16])"

definition digest :: "string \<Rightarrow> string \<times> u32" where
  "digest source = (hex16 (fnv1a source), of_nat (length (str_lines source)))"

text \<open>\<open>parse::path_cache_salt\<close>, for Vue the component name.\<close>

definition component_name :: "rel_path \<Rightarrow> string" where
  "component_name p =
     (let file = rel_file_name p; stem = (case strip_suffix file ''.vue'' of Some s \<Rightarrow> s | None \<Rightarrow> file)
      in if stem = [] then ''Component'' else stem)"

definition path_cache_salt :: "language \<Rightarrow> rel_path \<Rightarrow> string option" where
  "path_cache_salt lang p = (if lang = Vue then Some (component_name p) else None)"

definition cache_key :: "language \<Rightarrow> rel_path \<Rightarrow> string \<Rightarrow> string" where
  "cache_key lang p sha =
     (case path_cache_salt lang p of
        None \<Rightarrow> parse_cache_key lang sha
      | Some salt \<Rightarrow> parse_cache_key lang sha @ '':'' @ salt)"

section \<open>Environment and state of a run\<close>

record file_stat =
  fst_mtime_ns :: "128 word"
  fst_len :: u64
  fst_trusted :: bool

record parse_env =
  pe_unicode :: unicode
  pe_read :: "rel_path \<Rightarrow> string + string"
  pe_stat :: "rel_path \<Rightarrow> file_stat option"
  pe_script :: "rel_path \<Rightarrow> bool"
  pe_parse :: "language \<Rightarrow> rel_path \<Rightarrow> string \<Rightarrow> string + parsed_file"

record 'w parse_state =
  ps_failures :: "(rel_path \<times> string) list"
  ps_pending :: "(string \<times> wire) list"
  ps_pending_bytes :: nat
  ps_stored :: nat
  ps_hits :: nat
  ps_stamps :: "(string \<times> file_stamp) list"
  ps_live_keys :: "string list"
  ps_live_paths :: "string list"
  ps_world :: 'w

definition parse_start :: "'w \<Rightarrow> 'w parse_state" where
  "parse_start w = \<lparr>ps_failures = [], ps_pending = [], ps_pending_bytes = 0, ps_stored = 0, ps_hits = 0,
     ps_stamps = [], ps_live_keys = [], ps_live_paths = [], ps_world = w\<rparr>"

definition cache_flush_bytes :: nat where "cache_flush_bytes = 32 * 1024 * 1024"
definition compact_min_churn :: nat where "compact_min_churn = 256"

definition partial_parse_reason :: string where
  "partial_parse_reason = ''partial parse: syntax errors in file''"

definition partial_parse_rewrite_reason :: string where
  "partial_parse_rewrite_reason = ''partial parse: syntax errors in file (C/C++ rewrite kept)''"

definition is_partial_reason :: "string \<Rightarrow> bool" where
  "is_partial_reason reason \<longleftrightarrow> reason = partial_parse_reason \<or> reason = partial_parse_rewrite_reason"

definition partial_reason :: "parsed_file \<Rightarrow> string" where
  "partial_reason p = (if pa_c_family_rewrite p then partial_parse_rewrite_reason else partial_parse_reason)"

definition note_failure :: "rel_path \<Rightarrow> string \<Rightarrow> 'w parse_state \<Rightarrow> 'w parse_state" where
  "note_failure p reason S = S\<lparr>ps_failures := ps_failures S @ [(p, reason)]\<rparr>"

text \<open>\<open>note_partial\<close> behind its \<open>if parsed.partial\<close>.\<close>

definition note_partial :: "rel_path \<Rightarrow> parsed_file \<Rightarrow> 'w parse_state \<Rightarrow> 'w parse_state" where
  "note_partial p parsed S = (if pa_partial parsed then note_failure p (partial_reason parsed) S else S)"

definition split_partial ::
  "(rel_path \<times> string) list \<Rightarrow> (rel_path \<times> string) list \<times> (rel_path \<times> string) list" where
  "split_partial raw = (filter (\<lambda>x. \<not> is_partial_reason (snd x)) raw, filter (\<lambda>x. is_partial_reason (snd x)) raw)"

definition note_live :: "bool \<Rightarrow> rel_path \<Rightarrow> string \<Rightarrow> 'w parse_state \<Rightarrow> 'w parse_state" where
  "note_live track p key S =
     (if track then S\<lparr>ps_live_keys := ps_live_keys S @ [key], ps_live_paths := ps_live_paths S @ [as_str p]\<rparr>
      else S)"

definition store_writable :: "store option \<Rightarrow> bool" where
  "store_writable st = (case st of None \<Rightarrow> False | Some s \<Rightarrow> \<not> st_read_only s)"

definition note_stamp ::
  "store option \<Rightarrow> rel_path \<Rightarrow> file_stat option \<Rightarrow> string \<Rightarrow> string \<Rightarrow> u32 \<Rightarrow> language
     \<Rightarrow> 'w parse_state \<Rightarrow> 'w parse_state" where
  "note_stamp st p stat key sha loc lang S =
     (case stat of None \<Rightarrow> S
      | Some f \<Rightarrow>
          if \<not> store_writable st \<or> \<not> fst_trusted f then S
          else S\<lparr>ps_stamps := ps_stamps S @ [(as_str p,
                 \<lparr>fs_mtime_ns = fst_mtime_ns f, fs_len = fst_len f, fs_key = key, fs_sha = sha, fs_loc = loc,
                  fs_language = language_to_u8 lang\<rparr>)]\<rparr>)"

text \<open>\<open>stamp_hit\<close>: the row and the key it was found under.\<close>

definition stamp_hit ::
  "('w, 't, 'r) redb \<Rightarrow> rel_path \<Rightarrow> file_stat \<Rightarrow> 'w \<Rightarrow> (parsed_row \<times> string) option" where
  "stamp_hit D p stat w =
     (if \<not> fst_trusted stat then None
      else case lookup_stamp D (as_str p) w of
        Inr (Some stamp) \<Rightarrow>
          if fs_mtime_ns stamp \<noteq> fst_mtime_ns stat \<or> fs_len stamp \<noteq> fst_len stat
             \<or> \<not> starts_with (fs_key stamp) parse_cache_key_prefix then None
          else case stamp_language stamp of
            None \<Rightarrow> None
          | Some lang \<Rightarrow>
              (case cached_parse D (fs_key stamp) w of
                 Inr (Some bytes) \<Rightarrow>
                   (case decode_parsed bytes of
                      Inr parsed \<Rightarrow> Some (\<lparr>row_path = p, row_language = lang, row_sha = fs_sha stamp,
                        row_loc = fs_loc stamp, row_parsed = parsed\<rparr>, fs_key stamp)
                    | Inl e \<Rightarrow> None)
               | _ \<Rightarrow> None)
      | _ \<Rightarrow> None)"

text \<open>\<open>CacheWrites::write\<close>: a failed write is logged and the run goes on.\<close>

definition cache_write ::
  "('w, 't, 'r) redb \<Rightarrow> store \<Rightarrow> (string \<times> wire) list \<Rightarrow> 'w parse_state \<Rightarrow> 'w parse_state" where
  "cache_write D st batch S =
     (if batch = [] then S
      else S\<lparr>ps_stored := ps_stored S + length batch,
             ps_world := snd (put_cached_parses D st batch (ps_world S))\<rparr>)"

definition cache_push ::
  "('w, 't, 'r) redb \<Rightarrow> store \<Rightarrow> string \<Rightarrow> wire \<Rightarrow> 'w parse_state \<Rightarrow> 'w parse_state" where
  "cache_push D st key bytes S =
     (if st_read_only st then S
      else
        (let total = ps_pending_bytes S + length bytes; batch = ps_pending S @ [(key, bytes)]
         in if cache_flush_bytes \<le> total
            then cache_write D st batch (S\<lparr>ps_pending := [], ps_pending_bytes := 0\<rparr>)
            else S\<lparr>ps_pending := batch, ps_pending_bytes := total\<rparr>))"

definition cache_flush :: "('w, 't, 'r) redb \<Rightarrow> store \<Rightarrow> 'w parse_state \<Rightarrow> 'w parse_state" where
  "cache_flush D st S =
     cache_write D st (ps_pending S) (S\<lparr>ps_pending := [], ps_pending_bytes := 0\<rparr>)"

text \<open>The lookup of a content key: an unreadable or undecodable entry is a miss.\<close>

definition cache_lookup :: "('w, 't, 'r) redb \<Rightarrow> store option \<Rightarrow> string \<Rightarrow> 'w \<Rightarrow> parsed_file option" where
  "cache_lookup D st key w =
     (case st of None \<Rightarrow> None
      | Some _ \<Rightarrow>
          (case cached_parse D key w of
             Inr (Some bytes) \<Rightarrow> (case decode_parsed bytes of Inr parsed \<Rightarrow> Some parsed | Inl _ \<Rightarrow> None)
           | _ \<Rightarrow> None))"

text \<open>Storing a fresh product in a writable store.\<close>

definition keep_product ::
  "('w, 't, 'r) redb \<Rightarrow> store option \<Rightarrow> rel_path \<Rightarrow> file_stat option \<Rightarrow> string \<Rightarrow> string \<Rightarrow> u32 \<Rightarrow> language
     \<Rightarrow> parsed_file \<Rightarrow> 'w parse_state \<Rightarrow> 'w parse_state" where
  "keep_product D st p stat key sha loc lang parsed S =
     (case st of None \<Rightarrow> S
      | Some s \<Rightarrow>
          if st_read_only s then S
          else cache_push D s key (encode_parsed parsed) (note_stamp st p stat key sha loc lang S))"

text \<open>\<open>parse_one\<close> from the read source on.\<close>

definition parse_source ::
  "parse_env \<Rightarrow> ('w, 't, 'r) redb \<Rightarrow> store option \<Rightarrow> bool \<Rightarrow> rel_path \<Rightarrow> file_stat option \<Rightarrow> string
     \<Rightarrow> language \<Rightarrow> 'w parse_state \<Rightarrow> parsed_row option \<times> 'w parse_state" where
  "parse_source E D st track p stat source lang S0 =
     (let (sha, loc) = digest source;
          key = cache_key lang p sha;
          S = note_live track p key S0;
          row = (\<lambda>parsed. \<lparr>row_path = p, row_language = lang, row_sha = sha, row_loc = loc, row_parsed = parsed\<rparr>)
      in case cache_lookup D st key (ps_world S) of
           Some parsed \<Rightarrow>
             (Some (row parsed),
              note_stamp st p stat key sha loc lang
                (note_partial p parsed (S\<lparr>ps_hits := ps_hits S + 1\<rparr>)))
         | None \<Rightarrow>
             (case pe_parse E lang p source of
                Inr parsed \<Rightarrow>
                  (Some (row parsed), keep_product D st p stat key sha loc lang parsed (note_partial p parsed S))
              | Inl error \<Rightarrow> (None, note_failure p error S)))"

definition parse_one ::
  "parse_env \<Rightarrow> ('w, 't, 'r) redb \<Rightarrow> store option \<Rightarrow> bool \<Rightarrow> rel_path \<Rightarrow> 'w parse_state
     \<Rightarrow> (parsed_row option \<times> 'w parse_state) run" where
  "parse_one E D st track p S =
     (let by_path = from_path p
      in if by_path = None \<and> \<not> is_shebang_candidate p then Ret (None, S)
         else if by_path = None \<and> \<not> pe_script E p then Ret (None, S)
         else
           (let stat = pe_stat E p
            in case (case (st, stat) of (Some _, Some f) \<Rightarrow> stamp_hit D p f (ps_world S) | _ \<Rightarrow> None) of
                 Some (row, key) \<Rightarrow>
                   Ret (Some row, note_partial p (row_parsed row)
                     (note_live track p key (S\<lparr>ps_hits := ps_hits S + 1\<rparr>)))
               | None \<Rightarrow>
                   (case pe_read E p of
                      Inl error \<Rightarrow>
                        Ret (None, if by_path = None then S else note_failure p (''read: '' @ error) S)
                    | Inr source \<Rightarrow>
                        run_bind (from_path_and_source (pe_unicode E) p source) (\<lambda>detected.
                          case (case detected of Some l \<Rightarrow> Some l | None \<Rightarrow> by_path) of
                            None \<Rightarrow> Ret (None, S)
                          | Some lang \<Rightarrow> Ret (parse_source E D st track p stat source lang S)))))"

text \<open>The loop over the paths; \<open>cancelled\<close> answers the token before each file.\<close>

fun parse_each ::
  "parse_env \<Rightarrow> ('w, 't, 'r) redb \<Rightarrow> store option \<Rightarrow> bool \<Rightarrow> (rel_path \<Rightarrow> bool) \<Rightarrow> rel_path list
     \<Rightarrow> 'w parse_state \<Rightarrow> (parsed_row list \<times> 'w parse_state) run" where
  "parse_each E D st track cancelled [] S = Ret ([], S)"
| "parse_each E D st track cancelled (p # ps) S =
     (if cancelled p then parse_each E D st track cancelled ps S
      else run_bind (parse_one E D st track p S) (\<lambda>(row, S1).
        run_bind (parse_each E D st track cancelled ps S1) (\<lambda>(rows, S2).
          Ret (case row of None \<Rightarrow> rows | Some r \<Rightarrow> r # rows, S2))))"

definition persist_cache_writes ::
  "('w, 't, 'r) redb \<Rightarrow> store option \<Rightarrow> bool \<Rightarrow> 'w parse_state \<Rightarrow> 'w" where
  "persist_cache_writes D st prune S =
     (case st of None \<Rightarrow> ps_world S
      | Some s \<Rightarrow>
          if st_read_only s then ps_world S
          else
            (let S1 = cache_flush D s S;
                 w2 = snd (put_file_stamps D s (ps_stamps S1) (ps_world S1))
             in if \<not> prune then w2
                else
                  (let (res, w3) = prune_parse_cache D s (\<lambda>k. k \<in> set (ps_live_keys S1))
                                     (\<lambda>p. p \<in> set (ps_live_paths S1)) w2;
                       removed = (case res of Inr n \<Rightarrow> n | Inl _ \<Rightarrow> 0);
                       churn = max removed (ps_stored S1)
                   in if compact_min_churn \<le> churn
                         \<and> removed + card (set (ps_live_keys S1)) \<le> churn * 4
                      then snd (compact_store D s w3) else w3)))"

definition parse_paths_cancellable ::
  "parse_env \<Rightarrow> ('w, 't, 'r) redb \<Rightarrow> store option \<Rightarrow> bool \<Rightarrow> (rel_path \<Rightarrow> bool) \<Rightarrow> bool \<Rightarrow> rel_path list \<Rightarrow> 'w
     \<Rightarrow> ((parsed_row list \<times> (rel_path \<times> string) list) option \<times> 'w) run" where
  "parse_paths_cancellable E D st full_scan cancelled cancelled_at_end paths w =
     run_bind (parse_each E D st full_scan cancelled paths (parse_start w)) (\<lambda>(rows, S).
       if cancelled_at_end then Ret (None, ps_world S)
       else Ret (Some (rows, sort (ps_failures S)), persist_cache_writes D st full_scan S))"

definition parse_paths ::
  "parse_env \<Rightarrow> ('w, 't, 'r) redb \<Rightarrow> store option \<Rightarrow> bool \<Rightarrow> rel_path list \<Rightarrow> 'w
     \<Rightarrow> ((parsed_row list \<times> (rel_path \<times> string) list) option \<times> 'w) run" where
  "parse_paths E D st full_scan paths w =
     parse_paths_cancellable E D st full_scan (\<lambda>_. False) False paths w"


section \<open>The cache never changes what a run returns\<close>

definition clear_row :: "parsed_row \<Rightarrow> parsed_row" where
  "clear_row r = r\<lparr>row_parsed := clear_ids (row_parsed r)\<rparr>"

text \<open>What a file is parsed as: its language and source, if it is read and has a language.\<close>

definition read_as :: "parse_env \<Rightarrow> rel_path \<Rightarrow> (language \<times> string) option run" where
  "read_as E p =
     (case pe_read E p of
        Inl e \<Rightarrow> Ret None
      | Inr source \<Rightarrow>
          run_bind (from_path_and_source (pe_unicode E) p source) (\<lambda>d.
            Ret (map_option (\<lambda>l. (l, source)) (case d of Some l \<Rightarrow> Some l | None \<Rightarrow> from_path p))))"

definition content_key :: "language \<times> rel_path \<times> string \<Rightarrow> string" where
  "content_key = (\<lambda>(l, p, s). cache_key l p (fst (digest s)))"

definition parse_result :: "parse_env \<Rightarrow> language \<times> rel_path \<times> string \<Rightarrow> parsed_file option" where
  "parse_result E = (\<lambda>(l, p, s). case pe_parse E l p s of Inr q \<Rightarrow> Some (clear_ids q) | Inl e \<Rightarrow> None)"

text \<open>Over the contents \<open>Q\<close>, the key decides the parse, and every parse can be encoded.\<close>

definition keys_identify :: "parse_env \<Rightarrow> (language \<times> rel_path \<times> string) set \<Rightarrow> bool" where
  "keys_identify E Q \<longleftrightarrow>
     (\<forall>c\<in>Q. \<forall>c'\<in>Q. content_key c = content_key c' \<longrightarrow> parse_result E c = parse_result E c')
     \<and> (\<forall>l p s q. pe_parse E l p s = Inr q \<longrightarrow> ok_parsed q)"

definition good_entry :: "parse_env \<Rightarrow> (language \<times> rel_path \<times> string) set \<Rightarrow> string \<Rightarrow> wire \<Rightarrow> bool" where
  "good_entry E Q key bytes \<longleftrightarrow>
     (\<forall>c\<in>Q. \<forall>q. content_key c = key \<longrightarrow> decode_parsed bytes = Inr q \<longrightarrow> parse_result E c = Some q)"

definition good_cache :: "parse_env \<Rightarrow> (language \<times> rel_path \<times> string) set \<Rightarrow> contents \<Rightarrow> bool" where
  "good_cache E Q c \<longleftrightarrow> (\<forall>key v. c PARSE_CACHE (StrKey key) = Some v \<longrightarrow> good_entry E Q key (cell_bytes v))"

text \<open>A stamp with the trusted time and length of a file describes what the file holds now.\<close>

definition good_stamps :: "parse_env \<Rightarrow> contents \<Rightarrow> bool" where
  "good_stamps E c \<longleftrightarrow>
     (\<forall>p v stamp stat lang. c FILE_STAMPS (StrKey (as_str p)) = Some v \<longrightarrow> decode_stamp (cell_bytes v) = Some stamp \<longrightarrow>
        pe_stat E p = Some stat \<longrightarrow> fst_trusted stat \<longrightarrow> fs_mtime_ns stamp = fst_mtime_ns stat \<longrightarrow>
        fs_len stamp = fst_len stat \<longrightarrow> stamp_language stamp = Some lang \<longrightarrow>
        (\<exists>s. read_as E p = Ret (Some (lang, s)) \<and> fs_key stamp = content_key (lang, p, s)
             \<and> (fs_sha stamp, fs_loc stamp) = digest s))"

lemma put_cached_view:
  assumes laws: "redb_laws D view tview rview" and run: "put_cached_parses D st writes w = (res, w')"
  shows "view w' FILE_STAMPS = view w FILE_STAMPS"
    and "view w' PARSE_CACHE (StrKey k) = Some v \<Longrightarrow>
      view w PARSE_CACHE (StrKey k) = Some v \<or> (\<exists>b. (k, b) \<in> set writes \<and> v = Bytes b)"
proof -
  let ?f = "\<lambda>(sha, parsed). Inr (Put (StrKey sha) (Bytes parsed)) :: store_error + op"
  let ?cs = "map (map ?f) (chunks_of write_batch writes)"
  have "\<exists>n. view w' = apply_table PARSE_CACHE (concat (take n ?cs)) (view w)"
  proof (cases "st_read_only st")
    case True
    with run show ?thesis
      by (intro exI [of _ 0]) (auto simp: put_cached_parses_def if_writable_def ensure_writable_def)
  next
    case False
    with run have "write_chunks D st PARSE_CACHE ?cs w = (res, w')"
      by (simp add: put_cached_parses_def if_writable_def ensure_writable_def)
    from write_chunks_view [OF laws this] show ?thesis by blast
  qed
  then obtain n where n: "view w' = apply_table PARSE_CACHE (concat (take n ?cs)) (view w)" ..
  let ?es = "concat (take n (chunks_of write_batch writes))"
  have ops: "concat (take n ?cs) = map ?f ?es" by (simp add: take_map map_concat)
  have "set ?es \<subseteq> set (concat (chunks_of write_batch writes))"
    by (auto dest: in_set_takeD)
  then have sub: "set ?es \<subseteq> set writes" by (simp add: write_batch_def)
  show "view w' FILE_STAMPS = view w FILE_STAMPS" by (simp add: n apply_table_def)
  assume v: "view w' PARSE_CACHE (StrKey k) = Some v"
  have at: "view w' PARSE_CACHE (StrKey k) = (case map_of (rev ?es) k of Some b \<Rightarrow> Some (Bytes b)
      | None \<Rightarrow> view w PARSE_CACHE (StrKey k))"
    unfolding n ops by (simp add: apply_table_def fold_put_parses)
  show "view w PARSE_CACHE (StrKey k) = Some v \<or> (\<exists>b. (k, b) \<in> set writes \<and> v = Bytes b)"
  proof (cases "map_of (rev ?es) k")
    case (Some b)
    then have "(k, b) \<in> set ?es" using map_of_SomeD [OF Some] by (simp only: set_rev)
    then have "(k, b) \<in> set writes" using sub by blast
    moreover have "v = Bytes b" using at v Some by simp
    ultimately show ?thesis by blast
  next
    case None
    with at v show ?thesis by simp
  qed
qed

lemma cached_parse_view:
  "redb_laws D view tview rview \<Longrightarrow> cached_parse D key w = Inr (Some bytes) \<Longrightarrow>
   \<exists>v. view w PARSE_CACHE (StrKey key) = Some v \<and> bytes = cell_bytes v"
proof -
  assume "redb_laws D view tview rview" "cached_parse D key w = Inr (Some bytes)"
  then have "Some bytes = map_option cell_bytes (view w PARSE_CACHE (StrKey key))"
    unfolding cached_parse_def by (rule read_cell_view)
  then show ?thesis by (cases "view w PARSE_CACHE (StrKey key)") simp_all
qed

lemma lookup_stamp_view:
  assumes "redb_laws D view tview rview" and "lookup_stamp D path w = Inr (Some stamp)"
  shows "\<exists>v. view w FILE_STAMPS (StrKey path) = Some v \<and> decode_stamp (cell_bytes v) = Some stamp"
proof -
  obtain r where r: "db_begin_read D w = Inr r"
    using assms(2) by (cases "db_begin_read D w") (simp_all add: lookup_stamp_def begin_read_def map_err_def)
  then have "\<exists>c. rd_get D r FILE_STAMPS (StrKey path) = Inr c
      \<and> Option.bind c (\<lambda>b. decode_stamp (cell_bytes b)) = Some stamp"
    using assms(2) by (auto simp: lookup_stamp_def begin_read_def map_err_def backend_def and_then_def
        split: sum.splits table_error.splits)
  then obtain c where c: "rd_get D r FILE_STAMPS (StrKey path) = Inr c"
    "Option.bind c (\<lambda>b. decode_stamp (cell_bytes b)) = Some stamp" by blast
  then obtain b where b: "c = Some b" "decode_stamp (cell_bytes b) = Some stamp" by (cases c) auto
  have "c = view w FILE_STAMPS (StrKey path)"
    using redb_lawsD(1) [OF assms(1) r] redb_lawsD(8) [OF assms(1) c(1)] by simp
  with b show ?thesis by auto
qed

text \<open>The invariant of a run.\<close>

definition good_run ::
  "parse_env \<Rightarrow> (language \<times> rel_path \<times> string) set \<Rightarrow> ('w \<Rightarrow> contents) \<Rightarrow> 'w parse_state \<Rightarrow> bool" where
  "good_run E Q view S \<longleftrightarrow>
     good_cache E Q (view (ps_world S)) \<and> good_stamps E (view (ps_world S))
     \<and> (\<forall>(k, b)\<in>set (ps_pending S). good_entry E Q k b)"

lemma good_run_cong:
  "ps_world S' = ps_world S \<Longrightarrow> ps_pending S' = ps_pending S \<Longrightarrow> good_run E Q view S' = good_run E Q view S"
  by (simp add: good_run_def)

lemma good_run_write:
  assumes "redb_laws D view tview rview" and "good_run E Q view S"
    and "\<forall>(k, b)\<in>set batch. good_entry E Q k b"
  shows "good_run E Q view (cache_write D st batch S)"
proof -
  obtain res w where w: "put_cached_parses D st batch (ps_world S) = (res, w)" by fastforce
  note v = put_cached_view [OF assms(1) w]
  have "good_stamps E (view w)" using assms(2) v(1) by (simp add: good_run_def good_stamps_def)
  moreover have "good_cache E Q (view w)"
    using assms(2,3) v(2) by (force simp: good_run_def good_cache_def cell_bytes_def)
  ultimately show ?thesis using assms(2) w by (simp add: good_run_def cache_write_def)
qed

lemma good_run_push:
  assumes "redb_laws D view tview rview" and "good_run E Q view S" and "good_entry E Q key bytes"
  shows "good_run E Q view (cache_push D st key bytes S)"
proof -
  have batch: "\<forall>(k, b)\<in>set (ps_pending S @ [(key, bytes)]). good_entry E Q k b"
    using assms(2,3) by (auto simp: good_run_def)
  have "good_run E Q view (S\<lparr>ps_pending := [], ps_pending_bytes := 0\<rparr>)"
    using assms(2) by (simp add: good_run_def)
  from good_run_write [OF assms(1) this batch]
  show ?thesis using assms(2) batch by (auto simp: cache_push_def Let_def good_run_def)
qed

lemma good_run_notes [simp]:
  "good_run E Q view (note_failure p r S) = good_run E Q view S"
  "good_run E Q view (note_partial p q S) = good_run E Q view S"
  "good_run E Q view (note_live track p key S) = good_run E Q view S"
  "good_run E Q view (note_stamp st p stat key sha loc lang S) = good_run E Q view S"
  "good_run E Q view (S\<lparr>ps_hits := n\<rparr>) = good_run E Q view S"
  by (rule good_run_cong;
      simp add: note_failure_def note_partial_def note_live_def note_stamp_def split: option.split)+

lemma ps_failures_notes [simp]:
  "ps_failures (note_failure p r S) = ps_failures S @ [(p, r)]"
  "ps_failures (note_live track p key S) = ps_failures S"
  "ps_failures (note_stamp st p stat key sha loc lang S) = ps_failures S"
  "ps_failures (cache_push D s key bytes S) = ps_failures S"
  "ps_failures (keep_product D st p stat key sha loc lang parsed S) = ps_failures S"
  by (auto simp: note_failure_def note_live_def note_stamp_def cache_push_def cache_write_def keep_product_def
      Let_def split: option.split)

lemma ps_failures_partial:
  "ps_failures (note_partial p q S)
   = (if pa_partial q then ps_failures S @ [(p, partial_reason q)] else ps_failures S)"
  by (simp add: note_partial_def)

lemma ps_world_live [simp]: "ps_world (note_live track p key S) = ps_world S"
  by (simp add: note_live_def)

lemma clear_ids_flags [simp]:
  "pa_partial (clear_ids q) = pa_partial q" "partial_reason (clear_ids q) = partial_reason q"
  "clear_ids (clear_ids q) = clear_ids q"
  by (simp_all add: clear_ids_def partial_reason_def)

text \<open>Two results agree: the same panic, or rows that differ only in placeholder ids, the same
  failures, and a sound state.\<close>

definition agree ::
  "('a \<Rightarrow> 'a) \<Rightarrow> ('w parse_state \<Rightarrow> bool) \<Rightarrow> ('a \<times> 'w parse_state) run \<Rightarrow> ('a \<times> 'w parse_state) run \<Rightarrow> bool" where
  "agree clr ok r r0 \<longleftrightarrow>
     (case (r, r0) of
        (Panic, Panic) \<Rightarrow> True
      | (Ret (a, S), Ret (a0, S0)) \<Rightarrow> clr a = clr a0 \<and> ps_failures S = ps_failures S0 \<and> ok S
      | _ \<Rightarrow> False)"

lemma agree_simps [simp]:
  "agree clr ok Panic Panic"
  "agree clr ok (Ret (a, S)) (Ret (a0, S0)) \<longleftrightarrow> clr a = clr a0 \<and> ps_failures S = ps_failures S0 \<and> ok S"
  by (simp_all add: agree_def)

lemma cache_lookup_None [simp]: "cache_lookup D None key w = None"
  by (simp add: cache_lookup_def)

lemma cache_lookup_good:
  assumes "redb_laws D view tview rview" and "good_cache E Q (view w)"
    and "cache_lookup D st (content_key c) w = Some q" and "c \<in> Q"
  shows "parse_result E c = Some q"
proof -
  obtain bytes where b: "cached_parse D (content_key c) w = Inr (Some bytes)" "decode_parsed bytes = Inr q"
    using assms(3) by (auto simp: cache_lookup_def split: option.splits sum.splits)
  then obtain v where "view w PARSE_CACHE (StrKey (content_key c)) = Some v" "bytes = cell_bytes v"
    using cached_parse_view [OF assms(1)] by blast
  then show ?thesis using assms(2,4) b(2) unfolding good_cache_def good_entry_def by blast
qed

lemma parse_source_agrees:
  assumes laws: "redb_laws D view tview rview" and keys: "keys_identify E Q" and q: "(lang, p, source) \<in> Q"
    and good: "good_run E Q view S" and fails: "ps_failures S = ps_failures S0"
  shows "agree (map_option clear_row) (good_run E Q view)
    (Ret (parse_source E D st track p stat source lang S)) (Ret (parse_source E D None track p stat source lang S0))"
proof -
  obtain sha loc where d: "digest source = (sha, loc)" by fastforce
  have key: "cache_key lang p sha = content_key (lang, p, source)" by (simp add: content_key_def d)
  show ?thesis
  proof (cases "cache_lookup D st (cache_key lang p sha) (ps_world S)")
    case (Some parsed)
    then have "parse_result E (lang, p, source) = Some parsed"
      using good unfolding key by (intro cache_lookup_good [OF laws _ _ q]) (auto simp: good_run_def)
    then obtain q0 where "pe_parse E lang p source = Inr q0" "parsed = clear_ids q0"
      by (auto simp: parse_result_def split: sum.splits)
    then show ?thesis using Some good fails
      by (simp add: parse_source_def d Let_def keep_product_def ps_failures_partial clear_row_def)
  next
    case None
    show ?thesis
    proof (cases "pe_parse E lang p source")
      case (Inl e)
      then show ?thesis using None good fails
        by (simp add: parse_source_def d Let_def)
    next
      case (Inr q0)
      then have "ok_parsed q0" using keys by (auto simp: keys_identify_def)
      then have dec: "decode_parsed (encode_parsed q0) = Inr (clear_ids q0)"
        using decode_encode_rest [of q0 "[]"] by (simp add: read_finish_def)
      have "good_entry E Q (cache_key lang p sha) (encode_parsed q0)"
        unfolding good_entry_def key
      proof (intro ballI allI impI)
        fix c r assume "c \<in> Q" "content_key c = content_key (lang, p, source)"
          "decode_parsed (encode_parsed q0) = Inr r"
        moreover from this have "parse_result E c = parse_result E (lang, p, source)"
          using keys q unfolding keys_identify_def by blast
        ultimately show "parse_result E c = Some r" using dec Inr by (simp add: parse_result_def)
      qed
      then have "good_run E Q view (keep_product D st p stat (cache_key lang p sha) sha loc lang q0 T)"
        if "good_run E Q view T" for T
        using that by (auto simp: keep_product_def intro!: good_run_push [OF laws] split: option.split)
      then show ?thesis using None Inr good fails
        by (simp add: parse_source_def d Let_def ps_failures_partial)
    qed
  qed
qed


lemma good_cacheD:
  "good_cache E Q c \<Longrightarrow> c PARSE_CACHE (StrKey key) = Some v \<Longrightarrow> x \<in> Q \<Longrightarrow> content_key x = key \<Longrightarrow>
   decode_parsed (cell_bytes v) = Inr r \<Longrightarrow> parse_result E x = Some r"
  unfolding good_cache_def good_entry_def by blast

lemma read_as_SomeD:
  assumes "read_as E p = Ret (Some (l, s))"
  obtains d where "pe_read E p = Inr s" "from_path_and_source (pe_unicode E) p s = Ret d"
    "(case d of Some l \<Rightarrow> Some l | None \<Rightarrow> from_path p) = Some l"
proof (cases "pe_read E p")
  case (Inl e)
  with assms show ?thesis by (simp add: read_as_def)
next
  case (Inr t)
  then obtain d where "from_path_and_source (pe_unicode E) p t = Ret d"
    using assms by (cases "from_path_and_source (pe_unicode E) p t") (simp_all add: read_as_def)
  with assms Inr that show ?thesis by (auto simp: read_as_def)
qed

lemma stamp_hit_good:
  assumes laws: "redb_laws D view tview rview" and good: "good_run E Q view S"
    and reads: "\<And>x. read_as E p = Ret (Some x) \<Longrightarrow> (fst x, p, snd x) \<in> Q"
    and stat: "pe_stat E p = Some stat" and hit: "stamp_hit D p stat (ps_world S) = Some (row, key)"
  shows "\<exists>l s q. read_as E p = Ret (Some (l, s)) \<and> pe_parse E l p s = Inr q
    \<and> row = \<lparr>row_path = p, row_language = l, row_sha = fst (digest s), row_loc = snd (digest s),
             row_parsed = clear_ids q\<rparr>"
proof -
  obtain stamp lang bytes parsed where h: "fst_trusted stat"
    "lookup_stamp D (as_str p) (ps_world S) = Inr (Some stamp)"
    "fs_mtime_ns stamp = fst_mtime_ns stat" "fs_len stamp = fst_len stat" "stamp_language stamp = Some lang"
    "cached_parse D (fs_key stamp) (ps_world S) = Inr (Some bytes)" "decode_parsed bytes = Inr parsed"
    "row = \<lparr>row_path = p, row_language = lang, row_sha = fs_sha stamp, row_loc = fs_loc stamp, row_parsed = parsed\<rparr>"
    using hit by (auto simp: stamp_hit_def split: if_splits sum.splits option.splits)
  obtain v where v: "view (ps_world S) FILE_STAMPS (StrKey (as_str p)) = Some v"
    "decode_stamp (cell_bytes v) = Some stamp" using lookup_stamp_view [OF laws h(2)] by blast
  have "good_stamps E (view (ps_world S))" using good by (simp add: good_run_def)
  then obtain s where s: "read_as E p = Ret (Some (lang, s))" "fs_key stamp = content_key (lang, p, s)"
    "(fs_sha stamp, fs_loc stamp) = digest s"
    using v stat h(1,3-5) unfolding good_stamps_def by blast
  have q: "(lang, p, s) \<in> Q" using reads [OF s(1)] by simp
  obtain c where c: "view (ps_world S) PARSE_CACHE (StrKey (fs_key stamp)) = Some c" "bytes = cell_bytes c"
    using cached_parse_view [OF laws h(6)] by blast
  have "good_cache E Q (view (ps_world S))" using good by (simp add: good_run_def)
  then have "parse_result E (lang, p, s) = Some parsed"
    by (rule good_cacheD [where c = "view (ps_world S)", OF _ c(1) q s(2) [symmetric]]) (use h(7) c(2) in simp)
  then obtain q0 where "pe_parse E lang p s = Inr q0" "parsed = clear_ids q0"
    by (auto simp: parse_result_def split: sum.splits)
  then show ?thesis using h(8) s(1,3) by (metis fst_conv snd_conv)
qed

lemma parse_one_agrees:
  assumes laws: "redb_laws D view tview rview" and keys: "keys_identify E Q"
    and reads: "\<And>x. read_as E p = Ret (Some x) \<Longrightarrow> (fst x, p, snd x) \<in> Q"
    and good: "good_run E Q view S" and fails: "ps_failures S = ps_failures S0"
  shows "agree (map_option clear_row) (good_run E Q view) (parse_one E D st track p S) (parse_one E D None track p S0)"
proof (cases "from_path p = None \<and> (\<not> is_shebang_candidate p \<or> \<not> pe_script E p)")
  case True
  then show ?thesis using good fails by (auto simp: parse_one_def Let_def)
next
  case cand: False
  let ?hit = "case (st, pe_stat E p) of (Some _, Some f) \<Rightarrow> stamp_hit D p f (ps_world S) | _ \<Rightarrow> None"
  let ?rest = "\<lambda>st S. case pe_read E p of
      Inl error \<Rightarrow> Ret (None, if from_path p = None then S else note_failure p (''read: '' @ error) S)
    | Inr source \<Rightarrow> run_bind (from_path_and_source (pe_unicode E) p source) (\<lambda>detected.
        case (case detected of Some l \<Rightarrow> Some l | None \<Rightarrow> from_path p) of
          None \<Rightarrow> Ret (None, S)
        | Some lang \<Rightarrow> Ret (parse_source E D st track p (pe_stat E p) source lang S))"
  have none: "parse_one E D None track p S0 = ?rest None S0"
    using cand by (auto simp: parse_one_def Let_def)
  show ?thesis
  proof (cases ?hit)
    case None
    then have run: "parse_one E D st track p S = ?rest st S" using cand by (auto simp: parse_one_def Let_def)
    show ?thesis
    proof (cases "pe_read E p")
      case (Inl e)
      then show ?thesis using good fails by (simp add: run none)
    next
      case (Inr source)
      show ?thesis
      proof (cases "from_path_and_source (pe_unicode E) p source")
        case Panic
        then show ?thesis using Inr by (simp add: run none)
      next
        case (Ret d)
        show ?thesis
        proof (cases "case d of Some l \<Rightarrow> Some l | None \<Rightarrow> from_path p")
          case None
          then show ?thesis using Inr Ret good fails by (simp add: run none)
        next
          case (Some lang)
          then have "read_as E p = Ret (Some (lang, source))" using Inr Ret by (simp add: read_as_def)
          from reads [OF this] have "(lang, p, source) \<in> Q" by simp
          from parse_source_agrees [OF laws keys this good fails]
          show ?thesis using Inr Ret Some by (simp only: run none sum.case run_bind_simps option.case)
        qed
      qed
    qed
  next
    case (Some rk)
    obtain row key where rk: "rk = (row, key)" by fastforce
    have run: "parse_one E D st track p S = Ret (Some row, note_partial p (row_parsed row)
        (note_live track p key (S\<lparr>ps_hits := ps_hits S + 1\<rparr>)))"
      using cand Some rk by (auto simp: parse_one_def Let_def)
    obtain stat where stat: "pe_stat E p = Some stat" "stamp_hit D p stat (ps_world S) = Some (row, key)"
      using Some rk by (auto split: option.splits)
    obtain l s q where q: "read_as E p = Ret (Some (l, s))" "pe_parse E l p s = Inr q"
      "row = \<lparr>row_path = p, row_language = l, row_sha = fst (digest s), row_loc = snd (digest s),
             row_parsed = clear_ids q\<rparr>"
      using stamp_hit_good [OF laws good reads stat] by blast
    obtain d where d: "pe_read E p = Inr s" "from_path_and_source (pe_unicode E) p s = Ret d"
      "(case d of Some l \<Rightarrow> Some l | None \<Rightarrow> from_path p) = Some l"
      by (rule read_as_SomeD [OF q(1)])
    obtain sha loc where sl: "digest s = (sha, loc)" by fastforce
    have "parse_one E D None track p S0 = Ret (parse_source E D None track p (pe_stat E p) s l S0)"
      unfolding none using d by (simp only: sum.case run_bind_simps option.case)
    then show ?thesis
      using q(2,3) good fails by (simp add: run parse_source_def sl ps_failures_partial clear_row_def keep_product_def)
  qed
qed

lemma parse_each_agrees:
  assumes laws: "redb_laws D view tview rview" and keys: "keys_identify E Q"
  shows "(\<And>p x. p \<in> set ps \<Longrightarrow> read_as E p = Ret (Some x) \<Longrightarrow> (fst x, p, snd x) \<in> Q) \<Longrightarrow>
    good_run E Q view S \<Longrightarrow> ps_failures S = ps_failures S0 \<Longrightarrow>
    agree (map clear_row) (good_run E Q view)
      (parse_each E D st track cancelled ps S) (parse_each E D None track cancelled ps S0)"
proof (induction ps arbitrary: S S0)
  case (Cons p ps)
  have tail: "agree (map clear_row) (good_run E Q view)
      (parse_each E D st track cancelled ps T) (parse_each E D None track cancelled ps T0)"
    if "good_run E Q view T" "ps_failures T = ps_failures T0" for T T0
    using Cons.IH [OF Cons.prems(1) that] by simp
  show ?case
  proof (cases "cancelled p")
    case True
    then show ?thesis using tail [OF Cons.prems(2,3)] by simp
  next
    case False
    have one: "agree (map_option clear_row) (good_run E Q view) (parse_one E D st track p S) (parse_one E D None track p S0)"
      by (rule parse_one_agrees [OF laws keys _ Cons.prems(2,3)]) (use Cons.prems(1) in auto)
    show ?thesis
    proof (cases "parse_one E D st track p S")
      case Panic
      then have "parse_one E D None track p S0 = Panic"
        using one by (cases "parse_one E D None track p S0") (auto simp: agree_def)
      with Panic False show ?thesis by simp
    next
      case (Ret x)
      obtain row T where x: "x = (row, T)" by fastforce
      obtain row0 T0 where none: "parse_one E D None track p S0 = Ret (row0, T0)"
        using one Ret x by (cases "parse_one E D None track p S0") (auto simp: agree_def)
      have rel: "map_option clear_row row = map_option clear_row row0" "ps_failures T = ps_failures T0"
        "good_run E Q view T" using one by (simp_all add: Ret x none)
      from tail [OF rel(3,2)] show ?thesis
      proof (cases "parse_each E D st track cancelled ps T")
        case Panic
        then have "parse_each E D None track cancelled ps T0 = Panic"
          using tail [OF rel(3,2)] by (cases "parse_each E D None track cancelled ps T0") (auto simp: agree_def)
        with Panic False Ret x none show ?thesis by simp
      next
        case (Ret y)
        obtain rows U where y: "y = (rows, U)" by fastforce
        obtain rows0 U0 where n2: "parse_each E D None track cancelled ps T0 = Ret (rows0, U0)"
          using tail [OF rel(3,2)] Ret y by (cases "parse_each E D None track cancelled ps T0") (auto simp: agree_def)
        have "map clear_row rows = map clear_row rows0" "ps_failures U = ps_failures U0" "good_run E Q view U"
          using tail [OF rel(3,2)] by (simp_all add: Ret y n2)
        then show ?thesis using rel(1) False \<open>parse_one E D st track p S = Ret x\<close> x none Ret y n2
          by (cases row; cases row0) auto
      qed
    qed
  qed
qed simp


lemma parse_source_none_world [simp]:
  "ps_world (snd (parse_source E D None t p stat s l S)) = ps_world S"
  by (auto simp: parse_source_def Let_def note_live_def note_partial_def note_failure_def
      keep_product_def split: prod.split sum.split)

lemma parse_one_none_world:
  assumes "parse_one E D None t p S = Ret (x, S')"
  shows "ps_world S' = ps_world S"
proof (cases "from_path p = None \<and> (\<not> is_shebang_candidate p \<or> \<not> pe_script E p)")
  case True
  then have "parse_one E D None t p S = Ret (None, S)" by (auto simp: parse_one_def Let_def)
  with assms show ?thesis by simp
next
  case False
  then have run: "parse_one E D None t p S = (case pe_read E p of
      Inl error \<Rightarrow> Ret (None, if from_path p = None then S else note_failure p (''read: '' @ error) S)
    | Inr source \<Rightarrow> run_bind (from_path_and_source (pe_unicode E) p source) (\<lambda>detected.
        case (case detected of Some l \<Rightarrow> Some l | None \<Rightarrow> from_path p) of
          None \<Rightarrow> Ret (None, S)
        | Some lang \<Rightarrow> Ret (parse_source E D None t p (pe_stat E p) source lang S)))"
    by (auto simp: parse_one_def Let_def)
  show ?thesis
  proof (cases "pe_read E p")
    case (Inl e)
    with assms show ?thesis by (auto simp: run note_failure_def)
  next
    case (Inr s)
    obtain d where d: "from_path_and_source (pe_unicode E) p s = Ret d"
      using assms Inr by (cases "from_path_and_source (pe_unicode E) p s") (simp_all add: run)
    show ?thesis
    proof (cases "case d of Some l \<Rightarrow> Some l | None \<Rightarrow> from_path p")
      case None
      with assms Inr d show ?thesis by (simp add: run)
    next
      case (Some l)
      then have "parse_source E D None t p (pe_stat E p) s l S = (x, S')"
        using assms Inr d by (simp add: run)
      then show ?thesis using parse_source_none_world by (metis snd_conv)
    qed
  qed
qed

lemma parse_each_none_world:
  "parse_each E D None t c ps S = Ret (r, S') \<Longrightarrow> ps_world S' = ps_world S"
proof (induction ps arbitrary: S S' r)
  case (Cons p ps)
  show ?case
  proof (cases "c p")
    case True
    with Cons show ?thesis by simp
  next
    case False
    obtain x S1 where a: "parse_one E D None t p S = Ret (x, S1)"
      using Cons.prems False by (cases "parse_one E D None t p S") auto
    obtain y S2 where b: "parse_each E D None t c ps S1 = Ret (y, S2)"
      using Cons.prems False a by (cases "parse_each E D None t c ps S1") auto
    have "S' = S2" using Cons.prems False a b by simp
    then show ?thesis using Cons.IH [OF b] parse_one_none_world [OF a] by simp
  qed
qed simp



definition demo_env :: parse_env where
  "demo_env = \<lparr>pe_unicode = ascii_tables, pe_read = (\<lambda>p. Inr ''package a''), pe_stat = (\<lambda>p. None),
     pe_script = (\<lambda>p. False), pe_parse = (\<lambda>l p s. Inr demo_parse)\<rparr>"

definition demo_contents :: "(language \<times> rel_path \<times> string) set" where
  "demo_contents = {(Go, RelPath ''a.go'', ''package a'')}"

definition demo_store_view :: mem where
  "demo_store_view =
     [((PARSE_CACHE, StrKey (content_key (Go, RelPath ''a.go'', ''package a''))), Bytes (encode_parsed demo_parse))]"

lemma ok_demo_parse: "ok_parsed demo_parse"
  by (simp add: ok_parsed_def demo_parse_def ok_str_def utf8_valid_ascii is_ascii_str_def)

lemma demo_read_as: "read_as demo_env (RelPath ''a.go'') = Ret (Some (Go, ''package a''))"
proof -
  have "from_path_and_source ascii_tables (RelPath ''a.go'') ''package a'' = Ret (Some Go)"
    by (simp add: from_path_and_source_def) code_simp
  then show ?thesis by (simp add: read_as_def demo_env_def)
qed


section \<open>Two divergences\<close>

text \<open>\<open>razor::is_razor_source\<close>: the C# files whose parse depends on their extension.\<close>

definition is_razor_source :: "string \<Rightarrow> bool" where
  "is_razor_source path \<longleftrightarrow> rel_extension (rel_path_new path) \<in> {Some ''razor'', Some ''cshtml''}"

text \<open>A \<open>.razor\<close> or \<open>.cshtml\<close> file gets the product cached for a \<open>.cs\<close> file of the same content,
  whatever its own parse would be, because the key of a C\# product does not depend on the path
  although the C\# parse extracts Razor files first.\<close>

lemma razor_shares_cs_product:
  assumes "from_path cs = Some CSharp" and "\<not> is_razor_source (as_str cs)"
    and "from_path p = Some CSharp" and "is_razor_source (as_str p)"
    and "pe_read E p = Inr source" and "pe_stat E p = None"
    and "cached_parse D (cache_key CSharp cs (fst (digest source))) (ps_world S) = Inr (Some bytes)"
    and "decode_parsed bytes = Inr product"
  shows "\<exists>S'. parse_one E D (Some st) track p S =
    Ret (Some \<lparr>row_path = p, row_language = CSharp, row_sha = fst (digest source),
               row_loc = snd (digest source), row_parsed = product\<rparr>, S')"
proof -
  have d: "from_path_and_source (pe_unicode E) p source = Ret (Some CSharp)"
    using assms(3) by (simp add: from_path_and_source_def)
  have key: "cache_key CSharp p sha = cache_key CSharp cs sha" for sha
    by (simp add: cache_key_def path_cache_salt_def)
  obtain sha loc where dg: "digest source = (sha, loc)" by fastforce
  have "cache_lookup D (Some st) (cache_key CSharp p sha) (ps_world S) = Some product"
    using assms(7,8) by (simp add: cache_lookup_def key dg)
  then show ?thesis using assms(3,5,6) d by (simp add: parse_one_def Let_def parse_source_def dg)
qed

lemma razor_shares_cs_product_witness:
  "let src = ''class A {}'';
       E = demo_env\<lparr>pe_read := (\<lambda>p. Inr src),
             pe_parse := (\<lambda>l p s. if is_razor_source (as_str p) then Inl ''no'' else Inr demo_parse)\<rparr>;
       w = [((PARSE_CACHE, StrKey (cache_key CSharp (RelPath ''a.cs'') (fst (digest src)))), Bytes (encode_parsed demo_parse))]
   in \<exists>S'. parse_one E mem_redb (Some sample_store) False (RelPath ''b.cshtml'') (parse_start w) =
    Ret (Some \<lparr>row_path = RelPath ''b.cshtml'', row_language = CSharp, row_sha = fst (digest src),
               row_loc = snd (digest src), row_parsed = clear_ids demo_parse\<rparr>, S')"
  unfolding Let_def
proof (rule razor_shares_cs_product [of "RelPath ''a.cs''"])
  show "from_path (RelPath ''a.cs'') = Some CSharp" "from_path (RelPath ''b.cshtml'') = Some CSharp"
    "\<not> is_razor_source (as_str (RelPath ''a.cs''))" "is_razor_source (as_str (RelPath ''b.cshtml''))" by code_simp+
  show "decode_parsed (encode_parsed demo_parse) = Inr (clear_ids demo_parse)"
    using decode_encode_rest [OF ok_demo_parse, of "[]"] by (simp add: read_finish_def)
qed (simp_all add: demo_env_def parse_start_def cached_parse_def read_cell_def read_table_def begin_read_def
      map_err_def backend_def mem_redb_def mem_view_def cell_bytes_def)

text \<open>A \<open>.m\<close> file that language detection recognises as MATLAB and refuses is parsed and indexed
  as Objective-C all the same, because the refusal is replaced by the language of the path.\<close>

lemma matlab_parsed_as_objc:
  assumes "from_path p = Some ObjC" and "ext_is p ''m''" and "looks_matlab source"
    and "pe_read E p = Inr source" and "pe_stat E p = None"
  shows "from_path_and_source (pe_unicode E) p source = Ret None
    \<and> parse_one E D st track p S = Ret (parse_source E D st track p None source ObjC S)"
proof -
  have "from_path_and_source (pe_unicode E) p source = Ret None"
    using assms by (simp add: from_path_and_source_def)
  then show ?thesis using assms by (cases st) (simp_all add: parse_one_def Let_def)
qed

definition matlab_source :: string where
  "matlab_source = ''function y = f(x)'' @ [CHR 0x0A] @ ''end'' @ [CHR 0x0A]"

lemma matlab_parsed_as_objc_witness:
  "let E = demo_env\<lparr>pe_read := (\<lambda>p. Inr matlab_source)\<rparr> in
    from_path_and_source (pe_unicode E) (RelPath ''f.m'') matlab_source = Ret None
    \<and> parse_one E mem_redb None False (RelPath ''f.m'') (parse_start [])
        = Ret (parse_source E mem_redb None False (RelPath ''f.m'') None matlab_source ObjC (parse_start []))"
  unfolding Let_def
proof (rule matlab_parsed_as_objc)
  show "from_path (RelPath ''f.m'') = Some ObjC" "ext_is (RelPath ''f.m'') ''m''" "looks_matlab matlab_source"
    by code_simp+
qed (simp_all add: demo_env_def)

end
