(* ===== verification/Products.thy ===== *)
theory Products
  imports Assemble BTree
begin

text \<open>
  The in-memory cache of parse products that an index keeps between changes
  (\<open>ParseProductCache\<close> of \<open>astrolabe-core/src/index.rs\<close>): a byte budget, entries with the generation
  they were parsed in, and the eviction of the oldest.  Sizes of Rust types are a parameter, byte
  counts are natural numbers, the hash map is the ordered map of its entries (the code sorts them
  before it looks at their order).
\<close>

record layout =
  lay_symbol :: nat
  lay_string :: nat
  lay_call :: nat
  lay_parsed :: nat
  lay_product :: nat

record product =
  pd_language :: language
  pd_sha :: string
  pd_loc :: u32
  pd_parsed :: parsed_file
  pd_weight :: nat

definition parsed_weight :: "layout \<Rightarrow> parsed_file \<Rightarrow> nat" where
  "parsed_weight L p =
     lay_parsed L
     + sum_list (map (\<lambda>s. lay_symbol L + length (cs_name s) + length (cs_signature s)) (pa_symbols p))
     + sum_list (map (\<lambda>i. lay_string L + length i) (pa_imports p))
     + sum_list (map (\<lambda>c. lay_call L + length (fst c)) (pa_calls p))"

record product_cache =
  pc_budget :: nat
  pc_bytes :: nat
  pc_generation :: nat
  pc_entries :: "(rel_path, product \<times> nat) btree"

definition pc_new :: "nat \<Rightarrow> nat \<Rightarrow> product_cache" where
  "pc_new budget generation =
     \<lparr>pc_budget = max budget 1, pc_bytes = 0, pc_generation = generation, pc_entries = []\<rparr>"

definition entry_bytes :: "layout \<Rightarrow> rel_path \<Rightarrow> product \<Rightarrow> nat" where
  "entry_bytes L p v = length (as_str p) + length (pd_sha v) + pd_weight v + lay_product L"

definition pc_get :: "product_cache \<Rightarrow> rel_path \<Rightarrow> product option" where
  "pc_get c p = map_option fst (bt_get (pc_entries c) p)"

definition generation_of :: "product_cache \<Rightarrow> rel_path \<Rightarrow> nat option" where
  "generation_of c p = map_option snd (bt_get (pc_entries c) p)"

definition pc_insert_at :: "layout \<Rightarrow> rel_path \<Rightarrow> product \<Rightarrow> nat \<Rightarrow> product_cache \<Rightarrow> product_cache" where
  "pc_insert_at L p v generation c =
     c\<lparr>pc_bytes := pc_bytes c + entry_bytes L p v
         - (case bt_get (pc_entries c) p of None \<Rightarrow> 0 | Some (old, _) \<Rightarrow> entry_bytes L p old),
       pc_entries := bt_insert p (v, generation) (pc_entries c)\<rparr>"

definition pc_insert :: "layout \<Rightarrow> rel_path \<Rightarrow> product \<Rightarrow> product_cache \<Rightarrow> product_cache" where
  "pc_insert L p v c = pc_insert_at L p v (pc_generation c) c"

text \<open>The eviction loop, over the entries from the oldest on.\<close>

fun evict :: "(nat \<times> rel_path \<times> nat) list \<Rightarrow> product_cache \<Rightarrow> product_cache" where
  "evict [] c = c"
| "evict ((_, p, bytes) # order) c =
     (if pc_bytes c \<le> pc_budget c then c
      else evict order (c\<lparr>pc_entries := bt_remove p (pc_entries c), pc_bytes := pc_bytes c - bytes\<rparr>))"

definition age_order :: "layout \<Rightarrow> product_cache \<Rightarrow> (nat \<times> rel_path \<times> nat) list" where
  "age_order L c = sort (map (\<lambda>(p, v, generation). (generation, p, entry_bytes L p v)) (pc_entries c))"

definition run_pending :: "layout \<Rightarrow> product_cache \<Rightarrow> product_cache" where
  "run_pending L c = (if pc_bytes c \<le> pc_budget c then c else evict (age_order L c) c)"

definition product_of_row :: "layout \<Rightarrow> parsed_row \<Rightarrow> product" where
  "product_of_row L row =
     \<lparr>pd_language = row_language row, pd_sha = row_sha row, pd_loc = row_loc row, pd_parsed = row_parsed row,
      pd_weight = min (parsed_weight L (row_parsed row)) (2 ^ 32 - 1)\<rparr>"

definition insert_product :: "layout \<Rightarrow> product_cache \<Rightarrow> parsed_row \<Rightarrow> product_cache" where
  "insert_product L c row = pc_insert L (row_path row) (product_of_row L row) c"

definition fill_products :: "layout \<Rightarrow> parsed_row list \<Rightarrow> nat \<Rightarrow> product_cache" where
  "fill_products L rows budget_bytes = run_pending L (foldl (insert_product L) (pc_new budget_bytes 0) rows)"

definition row_from_product :: "rel_path \<Rightarrow> product \<Rightarrow> parsed_row" where
  "row_from_product p v =
     \<lparr>row_path = p, row_language = pd_language v, row_sha = pd_sha v, row_loc = pd_loc v, row_parsed = pd_parsed v\<rparr>"

lemma row_from_product_of_row [simp]: "row_from_product (row_path row) (product_of_row L row) = row"
  by (simp add: row_from_product_def product_of_row_def)

section \<open>Accounting and eviction\<close>

definition total_bytes :: "layout \<Rightarrow> (rel_path, product \<times> nat) btree \<Rightarrow> nat" where
  "total_bytes L es = sum_list (map (\<lambda>(p, v, generation). entry_bytes L p v) es)"

definition pc_ok :: "layout \<Rightarrow> product_cache \<Rightarrow> bool" where
  "pc_ok L c \<longleftrightarrow> bt_ok (pc_entries c) \<and> pc_bytes c = total_bytes L (pc_entries c) \<and> 0 < pc_budget c"

lemma pc_ok_new: "pc_ok L (pc_new b g)"
  by (simp add: pc_ok_def pc_new_def total_bytes_def bt.ok_empty)

lemma bt_get_Cons: "bt_get ((k, v) # m) x = (if x = k then Some v else bt_get m x)"
  by (simp add: bt_get_def)

lemma total_bytes_insert:
  "bt_ok es \<Longrightarrow> total_bytes L (bt_insert p (v, g) es) =
     total_bytes L es + entry_bytes L p v - (case bt_get es p of None \<Rightarrow> 0 | Some (old, _) \<Rightarrow> entry_bytes L p old)
   \<and> (case bt_get es p of None \<Rightarrow> 0 | Some (old, _) \<Rightarrow> entry_bytes L p old) \<le> total_bytes L es"
proof (induction p "(v, g)" es rule: bt_insert.induct)
  case (1 k)
  then show ?case by (simp add: total_bytes_def bt_get_def)
next
  case (2 k k' v' m)
  have ok: "bt_ok m" using "2.prems" by (simp add: bt_ok_def)
  have none: "bt_get m k = None" if "k \<le> k'"
  proof -
    have "k' \<notin> fst ` set m" "\<forall>x\<in>fst ` set m. k' \<le> x" using "2.prems" by (auto simp: bt_ok_def)
    with that have "k \<notin> fst ` set m" by (metis order_antisym)
    then show ?thesis by (simp add: bt_get_def map_of_eq_None_iff)
  qed
  show ?case
  proof (cases k k' rule: linorder_cases)
    case less
    moreover have "k \<noteq> k'" using less by simp
    ultimately show ?thesis using none [OF less_imp_le] by (simp add: bt_get_Cons total_bytes_def)
  next
    case equal
    then show ?thesis by (simp add: bt_get_Cons total_bytes_def split: prod.split)
  next
    case greater
    then show ?thesis using "2.hyps" ok by (auto simp: bt_get_Cons total_bytes_def split: option.splits prod.splits)
  qed
qed

lemma pc_ok_insert_at: "pc_ok L c \<Longrightarrow> pc_ok L (pc_insert_at L p v g c)"
  using total_bytes_insert [of "pc_entries c" L p v g]
  by (auto simp: pc_ok_def pc_insert_at_def bt.ok_insert)

lemma pc_get_insert_at:
  "pc_ok L c \<Longrightarrow> pc_get (pc_insert_at L p v g c) = (pc_get c)(p \<mapsto> v)"
  by (auto simp: pc_ok_def pc_get_def pc_insert_at_def bt.get_insert)


text \<open>What eviction leaves: the entries after the shortest prefix, in age order, whose removal brings
  the rest within the budget.\<close>

lemma total_bytes_remove:
  "bt_ok es \<Longrightarrow> bt_get es p = Some (v, g) \<Longrightarrow>
   total_bytes L es = entry_bytes L p v + total_bytes L (bt_remove p es)"
proof (induction es)
  case (Cons e es)
  obtain k w h where e: "e = (k, w, h)" by (cases e) auto
  have ok: "bt_ok es" and new: "k \<notin> fst ` set es" using Cons.prems(1) by (auto simp: bt_ok_def e)
  show ?case
  proof (cases "k = p")
    case True
    then have "filter (\<lambda>e. fst e \<noteq> p) es = es" using new by (intro filter_True) auto
    with True Cons.prems(2) show ?thesis by (simp add: e bt_get_Cons bt_remove_def total_bytes_def)
  next
    case False
    then show ?thesis using Cons.IH [OF ok] Cons.prems(2) by (simp add: e bt_get_Cons bt_remove_def total_bytes_def)
  qed
qed (simp add: bt_get_def)

definition aged :: "layout \<Rightarrow> product_cache \<Rightarrow> (nat \<times> rel_path \<times> nat) list \<Rightarrow> bool" where
  "aged L c order \<longleftrightarrow>
     distinct (map (fst \<circ> snd) order) \<and>
     (\<forall>(g, p, b)\<in>set order. \<exists>v. bt_get (pc_entries c) p = Some (v, g) \<and> b = entry_bytes L p v) \<and>
     (\<forall>p. bt_get (pc_entries c) p \<noteq> None \<longrightarrow> p \<in> (fst \<circ> snd) ` set order)"

lemma evict_spec:
  "pc_ok L c \<Longrightarrow> aged L c order \<Longrightarrow>
   \<exists>n \<le> length order. let c' = evict order c; gone = (fst \<circ> snd) ` set (take n order) in
     pc_ok L c' \<and> pc_budget c' = pc_budget c \<and> pc_bytes c' \<le> pc_budget c'
     \<and> bt_get (pc_entries c') = (\<lambda>p. if p \<in> gone then None else bt_get (pc_entries c) p)
     \<and> (\<forall>m<n. pc_budget c < pc_bytes c - sum_list (map (snd \<circ> snd) (take m order)))"
proof (induction order c rule: evict.induct)
  case (1 c)
  have "bt_get (pc_entries c) = (\<lambda>p. None)"
  proof (rule ext)
    fix p show "bt_get (pc_entries c) p = None"
      using 1 by (cases "bt_get (pc_entries c) p") (auto simp: aged_def)
  qed
  then have "pc_entries c = []" by (cases "pc_entries c") (auto simp: bt_get_def fun_eq_iff split: if_splits)
  then have "pc_bytes c = 0" using "1.prems"(1) by (simp add: pc_ok_def total_bytes_def)
  then show ?case using 1 by (intro exI [of _ 0]) (simp add: Let_def)
next
  case (2 g p b order c)
  show ?case
  proof (cases "pc_bytes c \<le> pc_budget c")
    case True
    then show ?thesis using "2.prems"(1) by (intro exI [of _ 0]) (simp add: Let_def)
  next
    case False
    let ?c = "c\<lparr>pc_entries := bt_remove p (pc_entries c), pc_bytes := pc_bytes c - b\<rparr>"
    obtain v where v: "bt_get (pc_entries c) p = Some (v, g)" "b = entry_bytes L p v"
      using "2.prems"(2) by (auto simp: aged_def)
    have ok: "pc_ok L ?c"
      using "2.prems"(1) total_bytes_remove [OF _ v(1), of L] v(2) by (simp add: pc_ok_def bt.ok_remove)
    have get: "bt_get (pc_entries ?c) = (bt_get (pc_entries c))(p := None)"
      using "2.prems"(1) by (simp add: pc_ok_def bt.get_remove)
    have "aged L ?c order"
      unfolding aged_def get
    proof (intro conjI ballI allI impI)
      show "distinct (map (fst \<circ> snd) order)" using "2.prems"(2) by (simp add: aged_def)
      have new: "p \<notin> (fst \<circ> snd) ` set order" using "2.prems"(2) by (simp add: aged_def)
      fix x assume x: "x \<in> set order"
      obtain g' q b' where q: "x = (g', q, b')" by (cases x) auto
      then have "q \<noteq> p" using new x by force
      moreover obtain v' where "bt_get (pc_entries c) q = Some (v', g')" "b' = entry_bytes L q v'"
        using "2.prems"(2) x q by (auto simp: aged_def)
      ultimately show "case x of (g', q, b') \<Rightarrow> \<exists>v. ((bt_get (pc_entries c))(p := None)) q = Some (v, g')
          \<and> b' = entry_bytes L q v" using q by simp
    next
      fix q assume "((bt_get (pc_entries c))(p := None)) q \<noteq> None"
      then have "q \<noteq> p" "bt_get (pc_entries c) q \<noteq> None" by (auto split: if_splits)
      then show "q \<in> (fst \<circ> snd) ` set order" using "2.prems"(2) by (force simp: aged_def)
    qed
    from "2.IH" [OF False ok this] obtain n where n: "n \<le> length order"
      "pc_ok L (evict order ?c)" "pc_budget (evict order ?c) = pc_budget c"
      "pc_bytes (evict order ?c) \<le> pc_budget c"
      "bt_get (pc_entries (evict order ?c))
        = (\<lambda>q. if q \<in> (fst \<circ> snd) ` set (take n order) then None else bt_get (pc_entries ?c) q)"
      "\<forall>m<n. pc_budget c < pc_bytes c - b - sum_list (map (snd \<circ> snd) (take m order))"
      unfolding Let_def by auto
    have "bt_get (pc_entries (evict order ?c))
        = (\<lambda>q. if q \<in> (fst \<circ> snd) ` set (take (Suc n) ((g, p, b) # order)) then None else bt_get (pc_entries c) q)"
      unfolding n(5) get by auto
    moreover have "\<forall>m<Suc n. pc_budget c < pc_bytes c - sum_list (map (snd \<circ> snd) (take m ((g, p, b) # order)))"
    proof (intro allI impI)
      fix m assume "m < Suc n"
      then show "pc_budget c < pc_bytes c - sum_list (map (snd \<circ> snd) (take m ((g, p, b) # order)))"
        using n(6) False by (cases m) auto
    qed
    ultimately show ?thesis using False n(1-4) by (intro exI [of _ "Suc n"]) (simp add: Let_def comp_def)
  qed
qed

lemma aged_age_order:
  assumes "pc_ok L c"
  shows "aged L c (age_order L c)"
proof -
  let ?f = "\<lambda>(p, v, generation). (generation, p, entry_bytes L p v)"
  have d: "distinct (map fst (pc_entries c))" using assms by (simp add: pc_ok_def bt_ok_def)
  have "mset (map (fst \<circ> snd) (age_order L c)) = mset (map fst (pc_entries c))"
    by (simp add: age_order_def image_mset.compositionality comp_def case_prod_beta)
  then have "distinct (map (fst \<circ> snd) (age_order L c))" using d mset_eq_imp_distinct_iff by blast
  moreover have "set (age_order L c) = ?f ` set (pc_entries c)" by (simp add: age_order_def)
  ultimately show ?thesis
    unfolding aged_def using d by (auto simp: bt_get_def image_iff dest!: map_of_SomeD split: prod.splits)
qed

text \<open>Evicting keeps the books and the budget, and drops the oldest: exactly the entries of the
  shortest prefix, by generation and then path, whose removal makes the rest fit; every entry
  kept is as it was.\<close>

lemma run_pending_drops_oldest:
  assumes "pc_ok L c"
  shows "\<exists>n \<le> length (pc_entries c). let c' = run_pending L c; order = age_order L c;
        gone = (fst \<circ> snd) ` set (take n order) in
     pc_bytes c' = total_bytes L (pc_entries c') \<and> pc_bytes c' \<le> pc_budget c' \<and> pc_budget c' = pc_budget c
     \<and> (\<forall>p. pc_get c' p = (if p \<in> gone then None else pc_get c p))
     \<and> sorted (map (\<lambda>e. (fst e, fst (snd e))) order)
     \<and> (\<forall>m<n. pc_budget c < pc_bytes c - sum_list (map (snd \<circ> snd) (take m order)))"
proof -
  have sorted: "sorted (map (\<lambda>e. (fst e, fst (snd e))) (age_order L c))"
    unfolding age_order_def
    unfolding sorted_map by (rule sorted_wrt_mono_rel [OF _ sorted_sort]) (auto simp: less_eq_prod_def)
  have len: "length (age_order L c) = length (pc_entries c)" by (simp add: age_order_def)
  show ?thesis
  proof (cases "pc_bytes c \<le> pc_budget c")
    case True
    then show ?thesis using assms sorted
      by (intro exI [of _ 0]) (simp add: run_pending_def Let_def pc_ok_def)
  next
    case False
    obtain n where n: "n \<le> length (pc_entries c)" "pc_ok L (evict (age_order L c) c)"
      "pc_budget (evict (age_order L c) c) = pc_budget c" "pc_bytes (evict (age_order L c) c) \<le> pc_budget c"
      "bt_get (pc_entries (evict (age_order L c) c))
        = (\<lambda>p. if p \<in> (fst \<circ> snd) ` set (take n (age_order L c)) then None else bt_get (pc_entries c) p)"
      "\<forall>m<n. pc_budget c < pc_bytes c - sum_list (map (snd \<circ> snd) (take m (age_order L c)))"
      using evict_spec [OF assms aged_age_order [OF assms]] unfolding Let_def len by auto
    have run: "run_pending L c = evict (age_order L c) c" using False by (simp add: run_pending_def)
    have "pc_get (evict (age_order L c) c) p
        = (if p \<in> (fst \<circ> snd) ` set (take n (age_order L c)) then None else pc_get c p)" for p
      by (simp add: pc_get_def n(5))
    then show ?thesis
      using n(1-4,6) sorted unfolding run Let_def pc_ok_def by (intro exI [of _ n]) simp
  qed
qed


definition demo_layout :: layout where
  "demo_layout = \<lparr>lay_symbol = 96, lay_string = 24, lay_call = 32, lay_parsed = 80, lay_product = 56\<rparr>"

definition demo_cache_full :: product_cache where
  "demo_cache_full = pc_insert demo_layout (RelPath ''b.go'') (product_of_row demo_layout (demo_row ''b.go''))
     (pc_insert demo_layout (RelPath ''a.go'') (product_of_row demo_layout (demo_row ''a.go'')) (pc_new 1 0))"

lemma run_pending_drops_oldest_witness:
  "\<exists>n \<le> length (pc_entries demo_cache_full). let c' = run_pending demo_layout demo_cache_full;
        order = age_order demo_layout demo_cache_full; gone = (fst \<circ> snd) ` set (take n order) in
     pc_bytes c' = total_bytes demo_layout (pc_entries c') \<and> pc_bytes c' \<le> pc_budget c'
     \<and> pc_budget c' = pc_budget demo_cache_full
     \<and> (\<forall>p. pc_get c' p = (if p \<in> gone then None else pc_get demo_cache_full p))
     \<and> sorted (map (\<lambda>e. (fst e, fst (snd e))) order)
     \<and> (\<forall>m<n. pc_budget demo_cache_full < pc_bytes demo_cache_full - sum_list (map (snd \<circ> snd) (take m order)))"
  by (rule run_pending_drops_oldest)
    (simp add: demo_cache_full_def pc_insert_def pc_ok_insert_at pc_ok_new)

end
