(* ===== verification/Incremental.thy ===== *)
theory Incremental
  imports ParseStep Products ChangeSets
begin

text \<open>
  The full and the incremental index (\<open>IncrementalIndex::build\<close> and \<open>index_repo_incremental\<close> of
  \<open>astrolabe-core/src/index.rs\<close>, with the exclude filter of \<open>scan.rs\<close>).  The result of the
  directory walk is an argument; \<open>world\<close> is what the disk and the parsers answer at one moment.
\<close>

datatype skip_reason = SkipIgnored | SkipTooLarge | SkipBinary | SkipReadError

record scan_result =
  sr_files :: "rel_path list"
  sr_skipped :: "(rel_path \<times> skip_reason) list"

record world =
  wd_root :: string
  wd_parse :: parse_env
  wd_contents :: contents_of
  wd_oversize :: "rel_path \<Rightarrow> bool"

section \<open>Declared excludes\<close>

definition normalize_exclude_dir :: "string \<Rightarrow> string option" where
  "normalize_exclude_dir raw =
     (let dir = rev (dropWhile (\<lambda>c. c = slash) (rev (as_str (rel_path_new raw))))
      in if dir = [] \<or> dir = ''.'' then None else Some dir)"

definition is_under_dir :: "string \<Rightarrow> string \<Rightarrow> bool" where
  "is_under_dir rel dir \<longleftrightarrow>
     rel = dir \<or> (length dir < length rel \<and> rel ! length dir = slash \<and> starts_with rel dir)"

definition path_under_excludes :: "rel_path \<Rightarrow> string list \<Rightarrow> bool" where
  "path_under_excludes p excludes \<longleftrightarrow>
     list_ex (\<lambda>raw. case normalize_exclude_dir raw of None \<Rightarrow> False | Some dir \<Rightarrow> is_under_dir (as_str p) dir) excludes"

definition apply_excludes :: "scan_result \<Rightarrow> string list \<Rightarrow> scan_result" where
  "apply_excludes result excludes =
     (let dirs = List.map_filter normalize_exclude_dir excludes;
          out = (\<lambda>p. list_ex (\<lambda>dir. is_under_dir (as_str p) dir) dirs)
      in if dirs = [] then
           result\<lparr>sr_files := sort (sr_files result), sr_skipped := sort_key fst (sr_skipped result)\<rparr>
         else
           result\<lparr>sr_files := sort (filter (\<lambda>p. \<not> out p) (sr_files result)),
             sr_skipped := sort_key fst
               (sr_skipped result @ map (\<lambda>p. (p, SkipIgnored)) (filter out (sr_files result)))\<rparr>)"

definition is_authored_ts :: "string \<Rightarrow> bool" where
  "is_authored_ts path \<longleftrightarrow>
     (let lower = ascii_lowercase path; file = last (split_on slash lower);
          is_decl = list_ex (\<lambda>s. ends_with file s) [''.d.ts'', ''.d.mts'', ''.d.cts''] \<or> contains_sub file ''.d.''
      in \<not> is_decl \<and> list_ex (\<lambda>s. ends_with lower s) [''.ts'', ''.tsx'', ''.mts'', ''.cts''])"

definition dropped_sources :: "rel_path list \<Rightarrow> rel_path list \<Rightarrow> rel_path list" where
  "dropped_sources before after =
     filter (\<lambda>p. is_authored_ts (as_str p)) (filter (\<lambda>p. p \<notin> set after) before)"

definition apply_declared_excludes ::
  "string \<Rightarrow> scan_result \<Rightarrow> file_index \<Rightarrow> resolver_set \<Rightarrow> scan_result \<times> file_index \<times> rel_path list" where
  "apply_declared_excludes root scanned files rset =
     (let excludes = declared_excludes rset
      in if excludes = [] then (scanned, files, [])
         else
           (let scanned1 = apply_excludes scanned excludes
            in if length (sr_files scanned1) = length (sr_files scanned) then (scanned1, files, [])
               else (scanned1, file_index_new root (sr_files scanned1),
                     dropped_sources (sr_files scanned) (sr_files scanned1))))"

definition discover :: "world \<Rightarrow> resolver list \<Rightarrow> scan_result \<Rightarrow> scan_result \<times> file_index \<times> resolver_set \<times> rel_path list" where
  "discover W rs scanned =
     (let (rset, files) = from_resolvers (wd_contents W) rs (file_index_new (wd_root W) (sr_files scanned));
          (scanned1, files1, dropped) = apply_declared_excludes (wd_root W) scanned files rset
      in (scanned1, files1, rset, dropped))"

definition is_source_path :: "world \<Rightarrow> rel_path \<Rightarrow> bool" where
  "is_source_path W p \<longleftrightarrow>
     from_path p \<noteq> None \<or> (is_shebang_candidate p \<and> from_path p = None \<and> pe_script (wd_parse W) p)"

definition too_large_sources :: "world \<Rightarrow> scan_result \<Rightarrow> rel_path list" where
  "too_large_sources W scanned =
     map fst (filter (\<lambda>(p, reason). reason = SkipTooLarge \<and> is_source_path W p) (sr_skipped scanned))"

section \<open>The full index\<close>

record incremental_index =
  ii_graph :: code_graph
  ii_report :: index_report
  ii_files :: "rel_path list"
  ii_excluded_sources :: "rel_path list"
  ii_products :: product_cache
  ii_failures :: "(rel_path \<times> string) list"
  ii_failure_retries :: "rel_path \<Rightarrow> nat option"
  ii_resolvers :: resolver_set
  ii_resolutions :: resolution_cache

definition start_report :: "nat \<Rightarrow> rel_path list \<Rightarrow> index_report" where
  "start_report scanned too_large =
     \<lparr>ir_files_scanned = scanned, ir_files_parsed = 0, ir_parse_failures = [], ir_partial_parses = [],
      ir_too_large = too_large, ir_unresolved_imports = [], ir_import_edges = 0, ir_symbols = 0\<rparr>"

definition with_failures :: "index_report \<Rightarrow> (rel_path \<times> string) list \<Rightarrow> index_report" where
  "with_failures report failures =
     (let (real, partial) = split_partial failures
      in report\<lparr>ir_parse_failures := real, ir_partial_parses := partial\<rparr>)"

definition or_empty_cache :: "resolution_cache option \<Rightarrow> resolution_cache" where
  "or_empty_cache c = (case c of Some m \<Rightarrow> m | None \<Rightarrow> Map.empty)"

text \<open>\<open>build_inner\<close> without a cancel token, over the parsed rows and failures.\<close>

definition build_from ::
  "world \<Rightarrow> layout \<Rightarrow> resolver list \<Rightarrow> index_options \<Rightarrow> scan_result
     \<Rightarrow> parsed_row list \<times> (rel_path \<times> string) list \<Rightarrow> incremental_index" where
  "build_from W L rs opts scanned0 outcome =
     (let (scanned, files, rset, excluded) = discover W rs scanned0;
          (rows, failures) = outcome;
          report = with_failures (start_report (length (sr_files scanned)) (too_large_sources W scanned)) failures;
          products = fill_products L rows (unat (io_parse_cache_bytes opts));
          (graph, report1, resolutions) = assemble_graph_with rows files rset opts report None True
      in \<lparr>ii_graph = graph, ii_report = report1, ii_files = sr_files scanned, ii_excluded_sources = excluded,
          ii_products = products, ii_failures = failures, ii_failure_retries = Map.empty,
          ii_resolvers = rset, ii_resolutions = or_empty_cache resolutions\<rparr>)"

definition index_build ::
  "world \<Rightarrow> layout \<Rightarrow> resolver list \<Rightarrow> ('w, 't, 'r) redb \<Rightarrow> store option \<Rightarrow> index_options \<Rightarrow> scan_result \<Rightarrow> 'w
     \<Rightarrow> (incremental_index option \<times> 'w) run" where
  "index_build W L rs D st opts scanned0 w =
     (let (scanned, files, rset, excluded) = discover W rs scanned0
      in run_bind (parse_paths (wd_parse W) D st True (sr_files scanned) w) (\<lambda>(outcome, w1).
           Ret (map_option (build_from W L rs opts scanned0) outcome, w1)))"

section \<open>The incremental index\<close>

definition max_failure_retries :: nat where "max_failure_retries = 3"

definition timeout_text :: string where "timeout_text = ''parse exceeded its budget''"
definition no_tree_text :: string where "no_tree_text = ''tree-sitter failed to produce a tree''"

definition is_transient_failure :: "string \<Rightarrow> bool" where
  "is_transient_failure reason \<longleftrightarrow>
     starts_with reason ''read:'' \<or> reason = timeout_text \<or> reason = no_tree_text"

definition changed_files :: "incremental_index \<Rightarrow> change_set \<Rightarrow> rel_path list" where
  "changed_files previous changes =
     sorted_list_of_set ((set (ii_files previous) - set (ch_removed changes))
       \<union> set (ch_added changes) \<union> set (ch_modified changes))"

definition dirty_paths :: "incremental_index \<Rightarrow> change_set \<Rightarrow> rel_path list" where
  "dirty_paths previous changes =
     filter (\<lambda>p. p \<in> set (changed_files previous changes)) (remdups (ch_added changes @ ch_modified changes))"

record apply_state =
  as_to_parse :: "rel_path list"
  as_reused :: "parsed_row list"
  as_products :: "(rel_path \<times> product) list"
  as_failures :: "(rel_path \<times> string) list"
  as_retried :: "rel_path \<Rightarrow> nat option"
  as_retries :: "rel_path \<Rightarrow> nat option"
  as_lru_misses :: nat

definition apply_start :: apply_state where
  "apply_start = \<lparr>as_to_parse = [], as_reused = [], as_products = [], as_failures = [], as_retried = Map.empty,
     as_retries = Map.empty, as_lru_misses = 0\<rparr>"

definition previous_reason :: "incremental_index \<Rightarrow> rel_path \<Rightarrow> string option" where
  "previous_reason previous p = map_of (rev (ii_failures previous)) p"

text \<open>The body of the loop over the scanned files.\<close>

definition apply_path :: "world \<Rightarrow> incremental_index \<Rightarrow> rel_path set \<Rightarrow> apply_state \<Rightarrow> rel_path \<Rightarrow> apply_state" where
  "apply_path W previous dirty A p =
     (if p \<in> dirty then A\<lparr>as_to_parse := as_to_parse A @ [p]\<rparr>
      else if from_path p = None \<and> \<not> is_shebang_candidate p then A
      else if from_path p = None \<and> pc_get (ii_products previous) p = None \<and> \<not> pe_script (wd_parse W) p then A
      else case pc_get (ii_products previous) p of
        Some product \<Rightarrow>
          (let row = row_from_product p product;
               old = (case previous_reason previous p of
                        Some r \<Rightarrow> if is_partial_reason r then Some r else None | None \<Rightarrow> None);
               noted = (if pa_partial (row_parsed row) then [(p, partial_reason (row_parsed row))]
                        else (case old of Some r \<Rightarrow> [(p, r)] | None \<Rightarrow> []))
           in A\<lparr>as_failures := as_failures A @ noted, as_products := as_products A @ [(p, product)],
                as_reused := as_reused A @ [row]\<rparr>)
      | None \<Rightarrow>
          (case previous_reason previous p of
             Some reason \<Rightarrow>
               (let tries = (case ii_failure_retries previous p of Some n \<Rightarrow> n | None \<Rightarrow> 0)
                in if is_transient_failure reason \<and> tries < max_failure_retries
                   then A\<lparr>as_retried := (as_retried A)(p \<mapsto> tries + 1), as_to_parse := as_to_parse A @ [p]\<rparr>
                   else A\<lparr>as_failures := as_failures A @ [(p, reason)],
                          as_retries := (as_retries A)(p \<mapsto> tries)\<rparr>)
           | None \<Rightarrow> A\<lparr>as_lru_misses := as_lru_misses A + 1, as_to_parse := as_to_parse A @ [p]\<rparr>))"

text \<open>Everything before the parse: the scanned files, their index, the resolvers and the plan.\<close>

record apply_plan =
  ap_scanned :: scan_result
  ap_index :: file_index
  ap_resolvers :: resolver_set
  ap_changed :: "language list option"
  ap_dropped :: "rel_path list"
  ap_newly_too_large :: "rel_path list"
  ap_state :: apply_state

definition plan_apply :: "world \<Rightarrow> resolver list \<Rightarrow> incremental_index \<Rightarrow> change_set \<Rightarrow> apply_plan" where
  "plan_apply W rs previous changes =
     (let dirty0 = dirty_paths previous changes;
          big = filter (wd_oversize W) dirty0;
          dirty = filter (\<lambda>p. \<not> wd_oversize W p) dirty0;
          files = filter (\<lambda>p. p \<notin> set big) (changed_files previous changes);
          scanned0 = \<lparr>sr_files = files, sr_skipped = []\<rparr>;
          index0 = file_index_new (wd_root W) files;
          (rset, changed, index1) =
            (if files = ii_files previous then
               (let (rset, changed, idx) = redetect (wd_contents W) (ii_resolvers previous) index0 (set (ch_modified changes))
                in (rset, Some changed, idx))
             else (let (rset, idx) = from_resolvers (wd_contents W) rs index0 in (rset, None, idx)));
          (scanned, index2, dropped) = apply_declared_excludes (wd_root W) scanned0 index1 rset
      in \<lparr>ap_scanned = scanned, ap_index = index2, ap_resolvers = rset, ap_changed = changed, ap_dropped = dropped,
          ap_newly_too_large = filter (is_source_path W) big,
          ap_state = foldl (apply_path W previous (set dirty)) apply_start (sr_files scanned)\<rparr>)"

definition excluded_after :: "incremental_index \<Rightarrow> change_set \<Rightarrow> rel_path list \<Rightarrow> rel_path list \<Rightarrow> rel_path list" where
  "excluded_after previous changes dropped files =
     sorted_list_of_set ((set (ii_excluded_sources previous) - set (ch_removed changes) \<union> set dropped) - set files)"

definition too_large_after :: "incremental_index \<Rightarrow> change_set \<Rightarrow> rel_path list \<Rightarrow> rel_path list \<Rightarrow> rel_path list" where
  "too_large_after previous changes newly files =
     foldl (\<lambda>acc p. if p \<in> set acc then acc else acc @ [p])
       (filter (\<lambda>p. p \<notin> set (ch_removed changes) \<and> p \<notin> set files) (ir_too_large (ii_report previous))) newly"

definition carry_products ::
  "layout \<Rightarrow> index_options \<Rightarrow> product_cache \<Rightarrow> (rel_path \<times> product) list \<Rightarrow> parsed_row list \<Rightarrow> product_cache" where
  "carry_products L opts old reused rows =
     (let new = pc_new (unat (io_parse_cache_bytes opts)) (pc_generation old + 1);
          kept = foldl (\<lambda>c (p, v). pc_insert_at L p v (case generation_of old p of Some g \<Rightarrow> g | None \<Rightarrow> 0) c) new reused
      in run_pending L (foldl (insert_product L) kept rows))"

text \<open>Everything after the parse of \<open>as_to_parse\<close>.\<close>

definition finish_apply ::
  "world \<Rightarrow> layout \<Rightarrow> index_options \<Rightarrow> incremental_index \<Rightarrow> change_set \<Rightarrow> apply_plan
     \<Rightarrow> parsed_row list \<times> (rel_path \<times> string) list \<Rightarrow> incremental_index" where
  "finish_apply W L opts previous changes P outcome =
     (let A = ap_state P; files = sr_files (ap_scanned P);
          (rows, parse_failures) = outcome;
          retries = foldl (\<lambda>m (p, r). case as_retried A p of Some n \<Rightarrow> m(p \<mapsto> n) | None \<Rightarrow> m) (as_retries A) parse_failures;
          failures = sort (as_failures A @ parse_failures);
          report = with_failures (start_report (length files)
            (too_large_after previous changes (ap_newly_too_large P) files)) failures;
          reuse = map_option (\<lambda>changed. \<lparr>reuse_cache = ii_resolutions previous, reuse_changed = changed\<rparr>) (ap_changed P);
          (graph, report1, resolutions) =
            assemble_graph_with (as_reused A @ rows) (ap_index P) (ap_resolvers P) opts report reuse True
      in \<lparr>ii_graph = graph, ii_report = report1, ii_files = files,
          ii_excluded_sources = excluded_after previous changes (ap_dropped P) files,
          ii_products = carry_products L opts (ii_products previous) (as_products A) rows,
          ii_failures = failures, ii_failure_retries = retries, ii_resolvers = ap_resolvers P,
          ii_resolutions = or_empty_cache resolutions\<rparr>)"

definition index_repo_incremental ::
  "world \<Rightarrow> layout \<Rightarrow> resolver list \<Rightarrow> ('w, 't, 'r) redb \<Rightarrow> store option \<Rightarrow> index_options \<Rightarrow> incremental_index
     \<Rightarrow> change_set \<Rightarrow> 'w \<Rightarrow> (incremental_index option \<times> 'w) run" where
  "index_repo_incremental W L rs D st opts previous changes w =
     (let P = plan_apply W rs previous changes
      in run_bind (parse_paths (wd_parse W) D st False (as_to_parse (ap_state P)) w) (\<lambda>(outcome, w1).
           Ret (map_option (finish_apply W L opts previous changes P) outcome, w1)))"

section \<open>Files of unknown languages\<close>

definition known_code_extensions :: "string list" where
  "known_code_extensions =
     [''al'', ''c'', ''clj'', ''cljs'', ''cpp'', ''cs'', ''cshtml'', ''csx'', ''dart'', ''elm'', ''ex'', ''exs'', ''fs'',
      ''fsx'', ''go'', ''groovy'', ''h'', ''hpp'', ''hs'', ''java'', ''jl'', ''js'', ''jsx'', ''kt'', ''kts'', ''lean'', ''lua'',
      ''m'', ''matlab'', ''nf'', ''php'', ''proto'', ''py'', ''r'', ''razor'', ''rb'', ''rs'', ''scala'', ''sol'', ''svelte'',
      ''swift'', ''ts'', ''tsx'', ''vb'', ''vue'', ''zig'']"

definition unindexed_code_exts ::
  "rel_path list \<Rightarrow> (string \<Rightarrow> bool) \<Rightarrow> string option \<Rightarrow> (string, u32) btree" where
  "unindexed_code_exts admitted in_graph flt =
     foldl (\<lambda>counts p.
        if (case flt of Some f \<Rightarrow> \<not> contains_sub (as_str p) f | None \<Rightarrow> False) then counts
        else if in_graph (as_str p) then counts
        else if from_path p \<noteq> None then counts
        else case rel_extension p of None \<Rightarrow> counts
          | Some ext \<Rightarrow>
              (let e = ascii_lowercase ext
               in if e \<in> set known_code_extensions
                  then bt_insert e ((case bt_get counts e of Some n \<Rightarrow> n | None \<Rightarrow> 0) + 1) counts else counts))
       [] admitted"

end
