(* ===== verification/Rebuild.thy ===== *)
theory Rebuild
  imports Incremental
begin

text \<open>
  An incremental index is the full index: after any sequence of applied changes the snapshot is,
  graph and report included, what a full build over the same files would be.  Also the case the
  code gets wrong, a partial parse whose product was evicted.
\<close>

section \<open>Parsing without a store\<close>

text \<open>What one file contributes: its row and its failures, whatever was parsed before it.\<close>

definition parse_fresh :: "parse_env \<Rightarrow> rel_path \<Rightarrow> (parsed_row option \<times> (rel_path \<times> string) list) run" where
  "parse_fresh E p =
     (let by_path = from_path p
      in if by_path = None \<and> (\<not> is_shebang_candidate p \<or> \<not> pe_script E p) then Ret (None, [])
         else case pe_read E p of
             Inl error \<Rightarrow> Ret (None, if by_path = None then [] else [(p, ''read: '' @ error)])
           | Inr source \<Rightarrow>
               run_bind (from_path_and_source (pe_unicode E) p source) (\<lambda>detected.
                 Ret (case (case detected of Some l \<Rightarrow> Some l | None \<Rightarrow> by_path) of
                   None \<Rightarrow> (None, [])
                 | Some lang \<Rightarrow>
                     (case pe_parse E lang p source of
                        Inl error \<Rightarrow> (None, [(p, error)])
                      | Inr q \<Rightarrow>
                          (Some \<lparr>row_path = p, row_language = lang, row_sha = fst (digest source),
                             row_loc = snd (digest source), row_parsed = q\<rparr>,
                           if pa_partial q then [(p, partial_reason q)] else [])))))"

definition row_of :: "parse_env \<Rightarrow> rel_path \<Rightarrow> parsed_row option" where
  "row_of E p = (case parse_fresh E p of Ret (row, _) \<Rightarrow> row | Panic \<Rightarrow> None)"

definition fails_of :: "parse_env \<Rightarrow> rel_path \<Rightarrow> (rel_path \<times> string) list" where
  "fails_of E p = (case parse_fresh E p of Ret (_, fails) \<Rightarrow> fails | Panic \<Rightarrow> [])"

definition rows_of :: "parse_env \<Rightarrow> rel_path list \<Rightarrow> parsed_row list" where
  "rows_of E ps = List.map_filter (row_of E) ps"

definition all_fails :: "parse_env \<Rightarrow> rel_path list \<Rightarrow> (rel_path \<times> string) list" where
  "all_fails E ps = concat (map (fails_of E) ps)"

lemma rows_of_simps [simp]:
  "rows_of E [] = []"
  "rows_of E (p # ps) = (case row_of E p of None \<Rightarrow> rows_of E ps | Some r \<Rightarrow> r # rows_of E ps)"
  "rows_of E (ps @ qs) = rows_of E ps @ rows_of E qs"
  by (simp_all add: rows_of_def map_filter_def split: option.split)

lemma all_fails_simps [simp]:
  "all_fails E [] = []" "all_fails E (p # ps) = fails_of E p @ all_fails E ps"
  "all_fails E (ps @ qs) = all_fails E ps @ all_fails E qs"
  by (simp_all add: all_fails_def)

lemma parse_source_fresh:
  assumes "pe_parse E lang p s = r"
  shows "fst (parse_source E D None t p stat s lang S) = (case r of Inl e \<Rightarrow> None
      | Inr q \<Rightarrow> Some \<lparr>row_path = p, row_language = lang, row_sha = fst (digest s),
                      row_loc = snd (digest s), row_parsed = q\<rparr>)"
    and "ps_failures (snd (parse_source E D None t p stat s lang S)) = ps_failures S @ (case r of
        Inl e \<Rightarrow> [(p, e)] | Inr q \<Rightarrow> if pa_partial q then [(p, partial_reason q)] else [])"
  using assms
  by (auto simp: parse_source_def Let_def note_live_def note_partial_def note_failure_def
      keep_product_def split: prod.split sum.split)

lemma parse_fresh_skips:
  "from_path p = None \<Longrightarrow> \<not> is_shebang_candidate p \<or> \<not> pe_script E p \<Longrightarrow> parse_fresh E p = Ret (None, [])"
  by (simp add: parse_fresh_def)

lemma parse_fresh_reads:
  "\<not> (from_path p = None \<and> (\<not> is_shebang_candidate p \<or> \<not> pe_script E p)) \<Longrightarrow> parse_fresh E p =
    (case pe_read E p of
       Inl error \<Rightarrow> Ret (None, if from_path p = None then [] else [(p, ''read: '' @ error)])
     | Inr source \<Rightarrow> run_bind (from_path_and_source (pe_unicode E) p source) (\<lambda>detected.
         Ret (case (case detected of Some l \<Rightarrow> Some l | None \<Rightarrow> from_path p) of
           None \<Rightarrow> (None, [])
         | Some lang \<Rightarrow> (case pe_parse E lang p source of
             Inl error \<Rightarrow> (None, [(p, error)])
           | Inr q \<Rightarrow> (Some \<lparr>row_path = p, row_language = lang, row_sha = fst (digest source),
                           row_loc = snd (digest source), row_parsed = q\<rparr>,
                         if pa_partial q then [(p, partial_reason q)] else [])))))"
  unfolding parse_fresh_def Let_def by (rule if_not_P)

lemma parse_one_fresh:
  "case parse_fresh E p of Panic \<Rightarrow> parse_one E D None t p S = Panic
   | Ret (row, fails) \<Rightarrow> (\<exists>S'. parse_one E D None t p S = Ret (row, S') \<and> ps_failures S' = ps_failures S @ fails)
       \<and> (case row of None \<Rightarrow> fails = [] \<or> (\<exists>e. fails = [(p, e)])
          | Some r \<Rightarrow> row_path r = p \<and> fails = (if pa_partial (row_parsed r)
              then [(p, partial_reason (row_parsed r))] else []))"
proof (cases "from_path p = None \<and> (\<not> is_shebang_candidate p \<or> \<not> pe_script E p)")
  case True
  then have "parse_fresh E p = Ret (None, [])" "parse_one E D None t p S = Ret (None, S)"
    by (auto simp: parse_one_def parse_fresh_def Let_def)
  then show ?thesis by simp
next
  case False
  note fresh = parse_fresh_reads [OF False]
  have one: "parse_one E D None t p S = (case pe_read E p of
      Inl error \<Rightarrow> Ret (None, if from_path p = None then S else note_failure p (''read: '' @ error) S)
    | Inr source \<Rightarrow> run_bind (from_path_and_source (pe_unicode E) p source) (\<lambda>detected.
        case (case detected of Some l \<Rightarrow> Some l | None \<Rightarrow> from_path p) of
          None \<Rightarrow> Ret (None, S)
        | Some lang \<Rightarrow> Ret (parse_source E D None t p (pe_stat E p) source lang S)))"
    using False by (auto simp: parse_one_def Let_def)
  show ?thesis
  proof (cases "pe_read E p")
    case (Inl e)
    then show ?thesis by (simp add: one fresh note_failure_def)
  next
    case (Inr s)
    show ?thesis
    proof (cases "from_path_and_source (pe_unicode E) p s")
      case Panic
      then show ?thesis using Inr by (simp add: one fresh)
    next
      case (Ret d)
      show ?thesis
      proof (cases "case d of Some l \<Rightarrow> Some l | None \<Rightarrow> from_path p")
        case None
        then show ?thesis using Inr Ret by (simp add: one fresh)
      next
        case (Some l)
        obtain row S' where src: "parse_source E D None t p (pe_stat E p) s l S = (row, S')" by fastforce
        show ?thesis
          using Inr Ret Some src parse_source_fresh [OF refl, of E D t p "pe_stat E p" s l S]
          by (cases "pe_parse E l p s") (simp_all add: one fresh)
      qed
    qed
  qed
qed

lemma parse_each_fresh:
  "if \<exists>p\<in>set ps. parse_fresh E p = Panic then parse_each E D None t (\<lambda>_. False) ps S = Panic
   else \<exists>S'. parse_each E D None t (\<lambda>_. False) ps S = Ret (rows_of E ps, S')
          \<and> ps_failures S' = ps_failures S @ all_fails E ps"
proof (induction ps arbitrary: S)
  case (Cons p ps)
  show ?case
  proof (cases "parse_fresh E p")
    case Panic
    then have "parse_one E D None t p S = Panic" using parse_one_fresh [of E D t p S] by simp
    then show ?thesis using Panic by simp
  next
    case (Ret x)
    obtain row fails where x: "x = (row, fails)" by fastforce
    then obtain S1 where S1: "parse_one E D None t p S = Ret (row, S1)" "ps_failures S1 = ps_failures S @ fails"
      using parse_one_fresh [of E D t p S] Ret by auto
    have "row_of E p = row" "fails_of E p = fails" using Ret x by (simp_all add: row_of_def fails_of_def)
    then show ?thesis using Cons.IH [of S1] S1 Ret by (auto split: if_splits option.split)
  qed
qed simp

lemma parse_paths_fresh:
  "parse_paths E D None full ps w =
     (if \<exists>p\<in>set ps. parse_fresh E p = Panic then Panic
      else Ret (Some (rows_of E ps, sort (all_fails E ps)), w))"
  using parse_each_fresh [of ps E D full "parse_start w"]
    parse_each_none_world [of E D full "\<lambda>_. False" ps "parse_start w"]
  by (auto simp: parse_paths_def parse_paths_cancellable_def persist_cache_writes_def parse_start_def
      split: if_splits)

lemma row_of_Some:
  assumes "row_of E p = Some r"
  shows "row_path r = p"
    and "fails_of E p = (if pa_partial (row_parsed r) then [(p, partial_reason (row_parsed r))] else [])"
  using assms parse_one_fresh [of E undefined False p "parse_start ()"]
  by (auto simp: row_of_def fails_of_def split: run.splits prod.splits)

lemma row_of_None: "row_of E p = None \<Longrightarrow> fails_of E p = [] \<or> (\<exists>e. fails_of E p = [(p, e)])"
  using parse_one_fresh [of E undefined False p "parse_start ()"]
  by (auto simp: row_of_def fails_of_def split: run.splits prod.splits)

lemma fails_of_path: "x \<in> set (fails_of E p) \<Longrightarrow> fst x = p"
  by (cases "row_of E p") (auto dest: row_of_None simp: row_of_Some split: if_splits)

lemma is_partial_reason_partial [simp]: "is_partial_reason (partial_reason q)"
  by (simp add: is_partial_reason_def partial_reason_def)

lemma parse_fresh_local:
  assumes "pe_unicode E' = pe_unicode E" and "pe_parse E' = pe_parse E"
    and "pe_read E' p = pe_read E p" and "pe_script E' p = pe_script E p"
  shows "parse_fresh E' p = parse_fresh E p"
  unfolding parse_fresh_def assms ..

section \<open>Discovery and detection\<close>

lemma fi_reads_new [simp]: "fi_reads (file_index_new root files) = None"
proof -
  have "fi_reads (foldl index_add idx files) = fi_reads idx" for idx
  proof (induction files arbitrary: idx)
    case (Cons p ps)
    then show ?case by (simp add: index_add_def Let_def split: option.split)
  qed simp
  then show ?thesis by (simp add: file_index_new_def)
qed

lemma detect_recorded_index:
  assumes "detect_recorded rd r idx = (d, reads, idx')" and "fi_reads idx = None"
  shows "idx' = idx"
proof -
  have "fi_reads idx' = None"
    using assms(1) by (auto simp: detect_recorded_def Let_def take_recorded_reads_def split: prod.splits)
  with detect_recorded_files [OF assms(1)] assms(2) show ?thesis
    by (cases idx; cases idx') (simp add: same_files_def)
qed

lemma detect_each_index:
  "detect_each rd rs idx = (ms, fs, reads, idx') \<Longrightarrow> fi_reads idx = None \<Longrightarrow> idx' = idx"
proof (induction rs arbitrary: ms fs reads idx')
  case (Cons r rs)
  obtain d rr i1 where d: "detect_recorded rd r idx = (d, rr, i1)" by (metis prod_cases3)
  have i1: "i1 = idx" by (rule detect_recorded_index [OF d Cons.prems(2)])
  obtain ms1 fs1 reads1 i2 where e: "detect_each rd rs idx = (ms1, fs1, reads1, i2)" by (metis prod_cases4)
  show ?case using Cons.IH [OF e Cons.prems(2)] Cons.prems(1) by (simp add: d i1 e)
qed simp

lemma redetect_each_index:
  "redetect_each rd modified old rs ms reads idx = (ms', fs, reads', changed, idx') \<Longrightarrow> fi_reads idx = None \<Longrightarrow> idx' = idx"
proof (induction rd modified old rs ms reads idx arbitrary: ms' fs reads' changed idx' rule: redetect_each.induct)
  case (1 rd modified old r rs m ms reads rest idx)
  show ?case
  proof (cases "must_redetect modified old (rs_language r) reads")
    case False
    then show ?thesis using 1 by (auto split: prod.splits)
  next
    case True
    obtain d rr i1 where d: "detect_recorded rd r idx = (d, rr, i1)" by (metis prod_cases3)
    have i1: "i1 = idx" by (rule detect_recorded_index [OF d "1.prems"(2)])
    show ?thesis using "1.IH"(2) [OF _ d [symmetric] refl] "1.prems" True
      by (auto simp: d i1 split: prod.splits)
  qed
qed auto

lemma from_resolvers_index:
  "fi_reads idx = None \<Longrightarrow> from_resolvers rd rs idx = (fst (from_resolvers rd rs idx), idx)"
  using detect_each_index by (auto simp: from_resolvers_def split: prod.splits)

lemma redetect_index: "fi_reads idx = None \<Longrightarrow> snd (snd (redetect rd old idx modified)) = idx"
  using redetect_each_index by (auto simp: redetect_def split: prod.splits)

text \<open>The resolvers of a list of files at one moment.\<close>

definition detect_all :: "world \<Rightarrow> resolver list \<Rightarrow> rel_path list \<Rightarrow> resolver_set" where
  "detect_all W rs files = fst (from_resolvers (wd_contents W) rs (file_index_new (wd_root W) files))"

lemma discover_plain:
  assumes "declared_excludes (detect_all W rs (sr_files scan)) = []"
  shows "discover W rs scan
    = (scan, file_index_new (wd_root W) (sr_files scan), detect_all W rs (sr_files scan), [])"
  using assms from_resolvers_index [of "file_index_new (wd_root W) (sr_files scan)" "wd_contents W" rs]
  by (auto simp: discover_def apply_declared_excludes_def detect_all_def split: prod.splits)

lemma discover_resolvers: "fst (snd (snd (discover W rs scan))) = detect_all W rs (sr_files scan)"
  by (simp add: discover_def detect_all_def split: prod.splits)

section \<open>The snapshot of a full build\<close>

definition assembled ::
  "world \<Rightarrow> resolver list \<Rightarrow> index_options \<Rightarrow> rel_path list \<Rightarrow> rel_path list
     \<Rightarrow> code_graph \<times> index_report \<times> resolution_cache option" where
  "assembled W rs opts files too_large =
     assemble_graph_with (rows_of (wd_parse W) files) (file_index_new (wd_root W) files) (detect_all W rs files) opts
       (with_failures (start_report (length files) too_large) (sort (all_fails (wd_parse W) files))) None True"

definition snapshot :: "world \<Rightarrow> resolver list \<Rightarrow> index_options \<Rightarrow> incremental_index \<Rightarrow> bool" where
  "snapshot W rs opts x \<longleftrightarrow>
     sorted (ii_files x) \<and> distinct (ii_files x)
     \<and> (\<forall>p\<in>set (ii_files x). parse_fresh (wd_parse W) p \<noteq> Panic)
     \<and> declared_excludes (ii_resolvers x) = [] \<and> ii_resolvers x = detect_all W rs (ii_files x)
     \<and> ii_failures x = sort (all_fails (wd_parse W) (ii_files x))
     \<and> assembled W rs opts (ii_files x) (ir_too_large (ii_report x)) = (ii_graph x, ii_report x, Some (ii_resolutions x))
     \<and> (\<forall>p v. pc_get (ii_products x) p = Some v \<longrightarrow> row_of (wd_parse W) p = Some (row_from_product p v))"

lemma pc_get_insert_products:
  "pc_ok L c \<Longrightarrow> pc_ok L (foldl (insert_product L) c rows) \<and>
    (pc_get (foldl (insert_product L) c rows) p = Some v \<longrightarrow>
      pc_get c p = Some v \<or> (\<exists>row\<in>set rows. row_path row = p \<and> v = product_of_row L row))"
proof (induction rows arbitrary: c)
  case (Cons row rows)
  have "pc_ok L (insert_product L c row)"
    using Cons.prems by (simp add: insert_product_def pc_insert_def pc_ok_insert_at)
  from Cons.IH [OF this] show ?case
    using Cons.prems by (auto simp: insert_product_def pc_insert_def pc_get_insert_at split: if_splits)
qed simp

lemma pc_get_carried:
  "pc_ok L c \<Longrightarrow> pc_ok L (foldl (\<lambda>c (p, v). pc_insert_at L p v (G p) c) c reused) \<and>
    (pc_get (foldl (\<lambda>c (p, v). pc_insert_at L p v (G p) c) c reused) p = Some v \<longrightarrow>
      pc_get c p = Some v \<or> (p, v) \<in> set reused)"
proof (induction reused arbitrary: c)
  case (Cons e reused)
  obtain q u where e: "e = (q, u)" by fastforce
  from Cons.IH [OF pc_ok_insert_at [OF Cons.prems, of q u "G q"]] show ?case
    using Cons.prems by (auto simp: e pc_get_insert_at split: if_splits)
qed simp

lemma pc_get_run_pending:
  assumes "pc_ok L c" and "pc_get (run_pending L c) p = Some v"
  shows "pc_get c p = Some v"
proof (cases "pc_bytes c \<le> pc_budget c")
  case True
  with assms(2) show ?thesis by (simp add: run_pending_def)
next
  case False
  then have "run_pending L c = evict (age_order L c) c" by (simp add: run_pending_def)
  then show ?thesis using evict_spec [OF assms(1) aged_age_order [OF assms(1)]] assms(2)
    by (auto simp: pc_get_def Let_def split: if_splits)
qed

lemma pc_get_new [simp]: "pc_get (pc_new b g) p = None"
  by (simp add: pc_get_def pc_new_def bt_get_def)

lemma pc_get_carried_new:
  "pc_get (foldl (\<lambda>c (p, v). pc_insert_at L p v (G p) c) (pc_new b g) reused) p = Some v \<Longrightarrow> (p, v) \<in> set reused"
  using pc_get_carried [OF pc_ok_new, THEN conjunct2, of L G b g reused p v] by simp

definition products_fresh :: "parse_env \<Rightarrow> product_cache \<Rightarrow> bool" where
  "products_fresh E c \<longleftrightarrow> (\<forall>p v. pc_get c p = Some v \<longrightarrow> row_of E p = Some (row_from_product p v))"

lemma row_of_rows: "row \<in> set (rows_of E ps) \<Longrightarrow> row_of E (row_path row) = Some row"
  by (induction ps) (auto split: option.splits dest: row_of_Some(1))

lemma fill_products_fresh: "products_fresh E (fill_products L (rows_of E ps) b)"
  unfolding products_fresh_def
proof (intro allI impI)
  fix p v assume "pc_get (fill_products L (rows_of E ps) b) p = Some v"
  then have "pc_get (foldl (insert_product L) (pc_new b 0) (rows_of E ps)) p = Some v"
    unfolding fill_products_def
    using pc_get_run_pending pc_get_insert_products [OF pc_ok_new] by blast
  then obtain row where "row \<in> set (rows_of E ps)" "row_path row = p" "v = product_of_row L row"
    using pc_get_insert_products [OF pc_ok_new] by fastforce
  then show "row_of E p = Some (row_from_product p v)" using row_of_rows by force
qed

lemma carry_products_fresh:
  assumes "\<And>p v. (p, v) \<in> set reused \<Longrightarrow> row_of E p = Some (row_from_product p v)"
  shows "products_fresh E (carry_products L opts old reused (rows_of E ps))"
  unfolding products_fresh_def
proof (intro allI impI)
  let ?G = "\<lambda>p. case generation_of old p of Some g \<Rightarrow> g | None \<Rightarrow> 0"
  let ?new = "pc_new (unat (io_parse_cache_bytes opts)) (pc_generation old + 1)"
  let ?kept = "foldl (\<lambda>c (p, v). pc_insert_at L p v (?G p) c) ?new reused"
  have kept: "pc_ok L ?kept" by (rule pc_get_carried [OF pc_ok_new, THEN conjunct1])
  fix p v assume "pc_get (carry_products L opts old reused (rows_of E ps)) p = Some v"
  then have "pc_get (foldl (insert_product L) ?kept (rows_of E ps)) p = Some v"
    unfolding carry_products_def Let_def
    using pc_get_run_pending pc_get_insert_products [OF kept] by blast
  then consider "pc_get ?kept p = Some v"
    | row where "row \<in> set (rows_of E ps)" "row_path row = p" "v = product_of_row L row"
    using pc_get_insert_products [OF kept] by blast
  then show "row_of E p = Some (row_from_product p v)"
  proof cases
    case 1
    show ?thesis by (rule assms, rule pc_get_carried_new [OF 1])
  next
    case 2
    then show ?thesis using row_of_rows by force
  qed
qed

lemma assembled_too_large:
  "assembled W rs opts files too_large = (g, r, c) \<Longrightarrow> ir_too_large r = too_large \<and> c \<noteq> None"
  by (auto simp: assembled_def assemble_graph_with_def Let_def with_failures_def split_partial_def start_report_def)

lemma assembled_any_too_large:
  "assembled W rs opts files big = (g, r, c) \<Longrightarrow> assembled W rs opts files big' = (g, r\<lparr>ir_too_large := big'\<rparr>, c)"
  by (auto simp: assembled_def assemble_graph_with_def Let_def with_failures_def split_partial_def start_report_def)

lemma build_resolvers:
  "index_build W L rs D None opts scan w = Ret (Some x, w') \<Longrightarrow> ii_resolvers x = detect_all W rs (sr_files scan)"
  using discover_resolvers [of W rs scan]
  by (auto simp: index_build_def build_from_def Let_def parse_paths_fresh split: prod.splits if_splits)

lemma build_snapshot:
  assumes "index_build W L rs D None opts scan w = Ret (Some x, w')"
    and "sorted (sr_files scan)" and "distinct (sr_files scan)" and "declared_excludes (ii_resolvers x) = []"
  shows "snapshot W rs opts x" and "ii_files x = sr_files scan"
proof -
  let ?E = "wd_parse W" and ?files = "sr_files scan"
  have set: "ii_resolvers x = detect_all W rs ?files" by (rule build_resolvers [OF assms(1)])
  have plain: "discover W rs scan = (scan, file_index_new (wd_root W) ?files, detect_all W rs ?files, [])"
    using assms(4) set by (intro discover_plain) simp
  have good: "\<forall>p\<in>set ?files. parse_fresh ?E p \<noteq> Panic"
    and x: "x = build_from W L rs opts scan (rows_of ?E ?files, sort (all_fails ?E ?files))"
    using assms(1) by (auto simp: index_build_def plain parse_paths_fresh split: if_splits)
  obtain g r c where a: "assembled W rs opts ?files (too_large_sources W scan) = (g, r, c)" by (metis prod_cases3)
  note t = assembled_too_large [OF a]
  have form: "ii_graph x = g" "ii_report x = r" "ii_files x = ?files" "ii_failures x = sort (all_fails ?E ?files)"
    "ii_products x = fill_products L (rows_of ?E ?files) (unat (io_parse_cache_bytes opts))"
    "ii_resolutions x = or_empty_cache c"
    using a by (simp_all add: x build_from_def plain Let_def assembled_def)
  show "ii_files x = ?files" by (rule form)
  show "snapshot W rs opts x"
    unfolding snapshot_def form(3)
    using assms(2-4) set good form a t fill_products_fresh [of ?E L ?files]
    by (auto simp: or_empty_cache_def products_fresh_def)
qed

section \<open>One incremental step\<close>

definition next_files :: "world \<Rightarrow> incremental_index \<Rightarrow> change_set \<Rightarrow> rel_path list" where
  "next_files W x changes =
     filter (\<lambda>p. p \<notin> set (filter (wd_oversize W) (dirty_paths x changes))) (changed_files x changes)"

text \<open>The changes describe the way from \<open>W\<close> to \<open>W'\<close>: files outside them are as they were, and
  what detection can read differs only at modified paths and at paths that entered or left the
  indexed files.\<close>

definition describes :: "world \<Rightarrow> incremental_index \<Rightarrow> change_set \<Rightarrow> world \<Rightarrow> bool" where
  "describes W x changes W' \<longleftrightarrow>
     wd_root W' = wd_root W
     \<and> pe_unicode (wd_parse W') = pe_unicode (wd_parse W) \<and> pe_parse (wd_parse W') = pe_parse (wd_parse W)
     \<and> (\<forall>p. p \<notin> set (ch_added changes) \<union> set (ch_modified changes) \<longrightarrow>
          pe_read (wd_parse W') p = pe_read (wd_parse W) p \<and> pe_script (wd_parse W') p = pe_script (wd_parse W) p)
     \<and> (\<forall>s. wd_contents W' s \<noteq> wd_contents W s \<longrightarrow> rel_path_new s \<in> set (ch_modified changes)
          \<or> (rel_path_new s \<in> set (ii_files x)) \<noteq> (rel_path_new s \<in> set (next_files W' x changes)))"

text \<open>No partial parse has lost its product to eviction.\<close>

definition partials_kept :: "incremental_index \<Rightarrow> bool" where
  "partials_kept x \<longleftrightarrow>
     (\<forall>(p, reason)\<in>set (ii_failures x). is_partial_reason reason \<longrightarrow> pc_get (ii_products x) p \<noteq> None)"

lemma fails_single: "(p, e) \<in> set (fails_of E p) \<Longrightarrow> fails_of E p = [(p, e)]"
  by (cases "row_of E p") (auto dest: row_of_None simp: row_of_Some split: if_splits)

lemma all_fails_mem: "(p, e) \<in> set (all_fails E ps) \<longleftrightarrow> p \<in> set ps \<and> (p, e) \<in> set (fails_of E p)"
  using fails_of_path by (fastforce simp: all_fails_def)

lemma previous_reason_fresh:
  assumes "ii_failures x = sort (all_fails E (ii_files x))" and "p \<in> set (ii_files x)"
  shows "fails_of E p = (case previous_reason x p of None \<Rightarrow> [] | Some e \<Rightarrow> [(p, e)])"
proof (cases "previous_reason x p")
  case None
  have "fails_of E p = []"
  proof (rule ccontr)
    assume ne: "fails_of E p \<noteq> []"
    then have "hd (fails_of E p) \<in> set (fails_of E p)" by simp
    then obtain e where "(p, e) \<in> set (fails_of E p)" by (metis fails_of_path prod.collapse)
    then have "(p, e) \<in> set (rev (ii_failures x))" using assms by (simp add: all_fails_mem)
    with None show False by (force simp: previous_reason_def map_of_eq_None_iff)
  qed
  with None show ?thesis by simp
next
  case (Some e)
  then have "(p, e) \<in> set (rev (ii_failures x))" unfolding previous_reason_def by (rule map_of_SomeD)
  then have "(p, e) \<in> set (fails_of E p)" using assms(1) by (simp add: all_fails_mem)
  with Some show ?thesis by (simp add: fails_single)
qed

definition step_adds :: "parse_env \<Rightarrow> rel_path list \<Rightarrow> apply_state \<Rightarrow> apply_state \<Rightarrow> bool" where
  "step_adds E ps A A' \<longleftrightarrow>
     mset (rows_of E (as_to_parse A')) + mset (as_reused A')
       = mset (rows_of E (as_to_parse A)) + mset (as_reused A) + mset (rows_of E ps)
     \<and> mset (all_fails E (as_to_parse A')) + mset (as_failures A')
       = mset (all_fails E (as_to_parse A)) + mset (as_failures A) + mset (all_fails E ps)
     \<and> set (as_to_parse A') \<subseteq> set (as_to_parse A) \<union> set ps
     \<and> (\<forall>p v. (p, v) \<in> set (as_products A') \<longrightarrow>
          (p, v) \<in> set (as_products A) \<or> row_of E p = Some (row_from_product p v))"

lemma step_adds_to_parse: "step_adds E [p] A (A\<lparr>as_to_parse := as_to_parse A @ [p]\<rparr>)"
  by (auto simp: step_adds_def split: option.split)

lemma step_adds_nothing: "parse_fresh E p = Ret (None, []) \<Longrightarrow> step_adds E [p] A A"
  by (auto simp: step_adds_def row_of_def fails_of_def)

lemma step_adds_trans:
  assumes "step_adds E ps A A1" and "step_adds E qs A1 A2"
  shows "step_adds E (ps @ qs) A A2"
  unfolding step_adds_def
proof (intro conjI allI impI)
  show "mset (rows_of E (as_to_parse A2)) + mset (as_reused A2)
      = mset (rows_of E (as_to_parse A)) + mset (as_reused A) + mset (rows_of E (ps @ qs))"
    using assms by (simp add: step_adds_def)
  show "mset (all_fails E (as_to_parse A2)) + mset (as_failures A2)
      = mset (all_fails E (as_to_parse A)) + mset (as_failures A) + mset (all_fails E (ps @ qs))"
    using assms by (simp add: step_adds_def)
  show "set (as_to_parse A2) \<subseteq> set (as_to_parse A) \<union> set (ps @ qs)"
    using assms by (auto simp: step_adds_def)
  fix p v assume "(p, v) \<in> set (as_products A2)"
  then show "(p, v) \<in> set (as_products A) \<or> row_of E p = Some (row_from_product p v)"
    using assms unfolding step_adds_def by blast
qed

lemma apply_path_adds:
  assumes fails: "ii_failures x = sort (all_fails E (ii_files x))"
    and products: "products_fresh E (ii_products x)" and kept: "partials_kept x"
    and same: "p \<notin> dirty \<Longrightarrow> p \<in> set (ii_files x) \<and> parse_fresh (wd_parse W) p = parse_fresh E p"
  shows "step_adds (wd_parse W) [p] A (apply_path W x dirty A p)"
proof (cases "p \<in> dirty")
  case True
  then show ?thesis by (simp add: apply_path_def step_adds_to_parse)
next
  case False
  let ?E = "wd_parse W"
  have p: "p \<in> set (ii_files x)" and fresh: "parse_fresh ?E p = parse_fresh E p" using same [OF False] by auto
  have eq: "row_of ?E p = row_of E p" "fails_of ?E p = fails_of E p" by (simp_all add: row_of_def fails_of_def fresh)
  note reason = previous_reason_fresh [OF fails p]
  show ?thesis
  proof (cases "from_path p = None \<and> (\<not> is_shebang_candidate p \<or> pc_get (ii_products x) p = None \<and> \<not> pe_script ?E p)")
    case True
    then have "apply_path W x dirty A p = A" using False by (auto simp: apply_path_def)
    moreover have "parse_fresh ?E p = Ret (None, [])" using True by (intro parse_fresh_skips) auto
    ultimately show ?thesis by (simp add: step_adds_nothing)
  next
    case skip: False
    show ?thesis
    proof (cases "pc_get (ii_products x) p")
      case (Some v)
      then have row: "row_of E p = Some (row_from_product p v)" using products by (simp add: products_fresh_def)
      let ?row = "row_from_product p v"
      let ?noted = "if pa_partial (row_parsed ?row) then [(p, partial_reason (row_parsed ?row))] else []"
      have noted: "fails_of E p = ?noted" by (rule row_of_Some(2) [OF row])
      have "previous_reason x p = None" if "\<not> pa_partial (row_parsed ?row)"
        using reason noted that by (simp split: option.splits)
      then have "apply_path W x dirty A p = A\<lparr>as_failures := as_failures A @ ?noted,
          as_products := as_products A @ [(p, v)], as_reused := as_reused A @ [?row]\<rparr>"
        using False skip Some by (auto simp: apply_path_def Let_def)
      then show ?thesis using row noted by (auto simp: step_adds_def eq)
    next
      case None
      show ?thesis
      proof (cases "previous_reason x p")
        case no: None
        then have "apply_path W x dirty A p
            = A\<lparr>as_lru_misses := as_lru_misses A + 1, as_to_parse := as_to_parse A @ [p]\<rparr>"
          using False skip None by (auto simp: apply_path_def)
        then show ?thesis using step_adds_to_parse [of ?E p A] by (simp add: step_adds_def)
      next
        case (Some r)
        then have f: "fails_of E p = [(p, r)]" using reason by simp
        then have "(p, r) \<in> set (ii_failures x)" using fails p by (simp add: all_fails_mem)
        then have "\<not> is_partial_reason r" using kept None by (auto simp: partials_kept_def)
        then have "row_of E p = None"
          using f row_of_Some(2) [of E p] by (cases "row_of E p") (auto split: if_splits)
        then show ?thesis
          using False skip None Some f step_adds_to_parse [of ?E p A]
          by (auto simp: apply_path_def Let_def step_adds_def eq)
      qed
    qed
  qed
qed

lemma apply_paths_add:
  assumes "ii_failures x = sort (all_fails E (ii_files x))"
    and "products_fresh E (ii_products x)" and "partials_kept x"
  shows "(\<And>p. p \<in> set ps \<Longrightarrow> p \<notin> dirty \<Longrightarrow> p \<in> set (ii_files x) \<and> parse_fresh (wd_parse W) p = parse_fresh E p) \<Longrightarrow>
    step_adds (wd_parse W) ps A (foldl (apply_path W x dirty) A ps)"
proof (induction ps arbitrary: A)
  case (Cons p ps)
  let ?A = "apply_path W x dirty A p"
  have "step_adds (wd_parse W) [p] A ?A"
    by (rule apply_path_adds [OF assms]) (use Cons.prems in auto)
  moreover have "step_adds (wd_parse W) ps ?A (foldl (apply_path W x dirty) ?A ps)"
    by (rule Cons.IH) (use Cons.prems in auto)
  ultimately have "step_adds (wd_parse W) ([p] @ ps) A (foldl (apply_path W x dirty) ?A ps)" by (rule step_adds_trans)
  then show ?case by simp
qed (simp add: step_adds_def)

lemma redetect_step:
  assumes res: "ii_resolvers x = detect_all W rs files" and desc: "describes W x changes W'"
    and files: "next_files W' x changes = files" "ii_files x = files"
  shows "redetect (wd_contents W') (ii_resolvers x) (file_index_new (wd_root W') files) (set (ch_modified changes))
    = (detect_all W' rs files,
       changed_languages (rset_meta (detect_all W rs files)) (rset_meta (detect_all W' rs files)),
       file_index_new (wd_root W') files)"
proof -
  let ?idx = "file_index_new (wd_root W') files"
  let ?m = "set (ch_modified changes)"
  have root: "wd_root W' = wd_root W" using desc by (simp add: describes_def)
  have same: "same_files ?idx ?idx" by (simp add: same_files_def)
  have c: "wd_contents W' s = wd_contents W s" if "rel_path_new s \<notin> ?m" for s
  proof (rule ccontr)
    assume "wd_contents W' s \<noteq> wd_contents W s"
    then show False using desc that unfolding describes_def files by blast
  qed
  have old: "ii_resolvers x = fst (from_resolvers (wd_contents W) rs ?idx)"
    using res root by (simp add: detect_all_def)
  have "fst (redetect (wd_contents W') (ii_resolvers x) ?idx ?m) = detect_all W' rs files"
    unfolding old detect_all_def by (rule redetect_from_scratch(1) [OF c same])
  moreover have "fst (snd (redetect (wd_contents W') (ii_resolvers x) ?idx ?m))
      = changed_languages (rset_meta (detect_all W rs files)) (rset_meta (detect_all W' rs files))"
    unfolding old detect_all_def root [symmetric] by (rule redetect_from_scratch(2) [OF c same])
  moreover have "snd (snd (redetect (wd_contents W') (ii_resolvers x) ?idx ?m)) = ?idx"
    by (rule redetect_index) simp
  ultimately show ?thesis by (metis prod.collapse)
qed

text \<open>What assembly is given: the old resolutions, only when they are still what resolving gives.\<close>

definition reusable :: "world \<Rightarrow> resolver list \<Rightarrow> rel_path list \<Rightarrow> resolve_reuse option \<Rightarrow> bool" where
  "reusable W rs files reuse \<longleftrightarrow>
     (\<forall>parsed opts report. assemble_graph_with parsed (file_index_new (wd_root W) files) (detect_all W rs files) opts report reuse True
        = assemble_graph_with parsed (file_index_new (wd_root W) files) (detect_all W rs files) opts report None True)"

lemma reusable_None: "reusable W rs files None"
  by (simp add: reusable_def)

lemma reusable_old:
  assumes "snapshot W rs opts x" and "wd_root W' = wd_root W" and "ii_files x = files"
  shows "reusable W' rs files (Some \<lparr>reuse_cache = ii_resolutions x,
    reuse_changed = changed_languages (rset_meta (detect_all W rs files)) (rset_meta (detect_all W' rs files))\<rparr>)"
proof -
  let ?idx = "file_index_new (wd_root W') files"
  let ?old = "detect_all W rs files" and ?new = "detect_all W' rs files"
  have "assembled W rs opts files (ir_too_large (ii_report x)) = (ii_graph x, ii_report x, Some (ii_resolutions x))"
    using assms(1,3) by (simp add: snapshot_def)
  then have valid: "cache_valid ?old ?idx (ii_resolutions x)"
    using assemble_records_valid assms(2) unfolding assembled_def by fastforce
  have res: "rset_resolvers ?new = rset_resolvers ?old"
    by (simp add: detect_all_def from_resolvers_def split: prod.splits)
  have langs: "map fst (rset_meta ?new) = map fst (rset_meta ?old)"
    unfolding detect_all_def using detect_each_meta(1) by (auto simp: from_resolvers_def split: prod.splits)
  have meta: "meta_for ?new lang = meta_for ?old lang"
    if "lang \<notin> set (changed_languages (rset_meta ?old) (rset_meta ?new))" for lang
    using meta_for_unchanged [OF langs that] by (simp add: meta_for_def)
  show ?thesis
    unfolding reusable_def
    by (intro allI assemble_reuse [OF _ res]) (simp_all add: valid meta)
qed

lemma plan_apply_fields:
  assumes snap: "snapshot W rs opts x" and desc: "describes W x changes W'"
    and plain: "declared_excludes (ap_resolvers (plan_apply W' rs x changes)) = []"
  defines "P \<equiv> plan_apply W' rs x changes" and "files \<equiv> next_files W' x changes"
  shows "sr_files (ap_scanned P) = files" and "ap_index P = file_index_new (wd_root W') files"
    and "ap_resolvers P = detect_all W' rs files"
    and "ap_state P = foldl (apply_path W' x (set (filter (\<lambda>p. \<not> wd_oversize W' p) (dirty_paths x changes)))) apply_start files"
    and "reusable W' rs files (map_option (\<lambda>changed. \<lparr>reuse_cache = ii_resolutions x, reuse_changed = changed\<rparr>) (ap_changed P))"
proof -
  let ?idx = "file_index_new (wd_root W') files"
  have files: "filter (\<lambda>p. p \<notin> set (filter (wd_oversize W') (dirty_paths x changes))) (changed_files x changes) = files"
    by (simp add: files_def next_files_def)
  obtain changed where step: "(if files = ii_files x then
       (let (rset, changed, idx) = redetect (wd_contents W') (ii_resolvers x) ?idx (set (ch_modified changes))
        in (rset, Some changed, idx))
     else (let (rset, idx) = from_resolvers (wd_contents W') rs ?idx in (rset, None, idx)))
    = (detect_all W' rs files, changed, ?idx)"
    and reuse: "reusable W' rs files (map_option (\<lambda>changed. \<lparr>reuse_cache = ii_resolutions x, reuse_changed = changed\<rparr>) changed)"
  proof (cases "files = ii_files x")
    case True
    have old: "ii_resolvers x = detect_all W rs files" using snap True by (simp add: snapshot_def)
    have "wd_root W' = wd_root W" using desc by (simp add: describes_def)
    from reusable_old [OF snap this] redetect_step [OF old desc] True show ?thesis
      by (intro that) (auto simp: files_def)
  next
    case False
    have "from_resolvers (wd_contents W') rs ?idx = (detect_all W' rs files, ?idx)"
      unfolding detect_all_def by (rule from_resolvers_index) simp
    with False show ?thesis by (intro that [of None]) (simp_all add: reusable_None)
  qed
  have res: "ap_resolvers P = detect_all W' rs files"
    unfolding P_def plan_apply_def Let_def files step [unfolded Let_def] by (simp split: prod.split)
  then have ex: "declared_excludes (detect_all W' rs files) = []" using plain by (simp add: P_def)
  have none: "apply_declared_excludes (wd_root W') s idx (detect_all W' rs files) = (s, idx, [])" for s idx
    by (simp add: apply_declared_excludes_def ex)
  show "sr_files (ap_scanned P) = files" "ap_index P = ?idx" "ap_resolvers P = detect_all W' rs files"
    "ap_state P = foldl (apply_path W' x (set (filter (\<lambda>p. \<not> wd_oversize W' p) (dirty_paths x changes)))) apply_start files"
    "reusable W' rs files (map_option (\<lambda>changed. \<lparr>reuse_cache = ii_resolutions x, reuse_changed = changed\<rparr>) (ap_changed P))"
    using reuse res unfolding P_def plan_apply_def Let_def files step [unfolded Let_def] by (simp_all add: none)
qed

section \<open>Incremental is full\<close>

lemma dirty_paths_iff:
  "p \<in> set (dirty_paths x changes) \<longleftrightarrow> p \<in> set (ch_added changes) \<union> set (ch_modified changes)"
  by (auto simp: dirty_paths_def changed_files_def)

lemma next_files_sorted: "sorted (next_files W x changes)" "distinct (next_files W x changes)"
  by (simp_all add: next_files_def changed_files_def sorted_filter [of "\<lambda>p. p", simplified])

lemma next_files_clean:
  assumes "p \<in> set (next_files W x changes)"
    and "p \<notin> set (filter (\<lambda>p. \<not> wd_oversize W p) (dirty_paths x changes))"
  shows "p \<in> set (ii_files x)" and "p \<notin> set (ch_added changes) \<union> set (ch_modified changes)"
  using assms dirty_paths_iff [of p x changes] by (auto simp: next_files_def changed_files_def)

lemma paths_of_rows: "distinct ps \<Longrightarrow> distinct (map row_path (rows_of E ps)) \<and> row_path ` set (rows_of E ps) \<subseteq> set ps"
  by (induction ps) (auto split: option.split dest: row_of_Some(1))

lemma sort_mset: "mset xs = mset ys \<Longrightarrow> sort xs = sort (ys :: 'a::linorder list)"
  by (rule properties_for_sort) simp_all

lemma apply_paths_parse:
  "set (as_to_parse A) \<union> (set ps \<inter> dirty) \<subseteq> set (as_to_parse (foldl (apply_path W x dirty) A ps))"
proof (induction ps arbitrary: A)
  case (Cons p ps)
  have "set (as_to_parse A) \<union> ({p} \<inter> dirty) \<subseteq> set (as_to_parse (apply_path W x dirty A p))"
    by (auto simp: apply_path_def Let_def split: option.split)
  with Cons.IH [of "apply_path W x dirty A p"] show ?case by auto
qed simp

lemma incremental_snapshot:
  assumes snap: "snapshot W rs opts x" and desc: "describes W x changes W'" and kept: "partials_kept x"
    and run: "index_repo_incremental W' L rs D None opts x changes w = Ret (Some y, w')"
    and plain: "declared_excludes (ii_resolvers y) = []"
  shows "snapshot W' rs opts y" and "ii_files y = next_files W' x changes"
proof -
  let ?E = "wd_parse W'" and ?P = "plan_apply W' rs x changes" and ?files = "next_files W' x changes"
  let ?dirty = "set (filter (\<lambda>p. \<not> wd_oversize W' p) (dirty_paths x changes))"
  define A where "A = ap_state ?P"
  define tl where "tl = too_large_after x changes (ap_newly_too_large ?P) ?files"
  have y: "y = finish_apply W' L opts x changes ?P (rows_of ?E (as_to_parse A), sort (all_fails ?E (as_to_parse A)))"
    and nopanic: "\<forall>p\<in>set (as_to_parse A). parse_fresh ?E p \<noteq> Panic"
    using run by (auto simp: index_repo_incremental_def Let_def parse_paths_fresh A_def split: if_splits)
  have res_y: "ii_resolvers y = ap_resolvers ?P"
    by (simp add: y finish_apply_def Let_def split: prod.split)
  note fields = plan_apply_fields [OF snap desc plain [unfolded res_y]]
  have same: "p \<in> set (ii_files x) \<and> parse_fresh ?E p = parse_fresh (wd_parse W) p"
    if "p \<in> set ?files" "p \<notin> ?dirty" for p
    using next_files_clean [OF that] desc by (auto simp: describes_def intro!: parse_fresh_local)
  have "step_adds ?E ?files apply_start A"
    unfolding A_def fields(4)
    by (rule apply_paths_add [of x "wd_parse W"])
      (use snap kept same in \<open>auto simp: snapshot_def products_fresh_def\<close>)
  then have rows: "mset (as_reused A @ rows_of ?E (as_to_parse A)) = mset (rows_of ?E ?files)"
    and fails: "mset (as_failures A @ sort (all_fails ?E (as_to_parse A))) = mset (all_fails ?E ?files)"
    and to_parse: "set (as_to_parse A) \<subseteq> set ?files"
    and carried: "\<And>p v. (p, v) \<in> set (as_products A) \<Longrightarrow> row_of ?E p = Some (row_from_product p v)"
    by (auto simp: step_adds_def apply_start_def ac_simps)
  obtain g r c where a: "assembled W' rs opts ?files tl = (g, r, c)" by (metis prod_cases3)
  note t = assembled_too_large [OF a]
  have assembled: "assemble_graph_with (as_reused A @ rows_of ?E (as_to_parse A)) (ap_index ?P) (ap_resolvers ?P) opts
      (with_failures (start_report (length ?files) tl) (sort (all_fails ?E ?files)))
      (map_option (\<lambda>changed. \<lparr>reuse_cache = ii_resolutions x, reuse_changed = changed\<rparr>) (ap_changed ?P)) True = (g, r, c)"
    unfolding fields(2,3)
    using assemble_order [OF rows] paths_of_rows [OF next_files_sorted(2)] fields(5) a
    by (simp add: reusable_def assembled_def)
  have form: "ii_graph y = g" "ii_report y = r" "ii_files y = ?files" "ii_failures y = sort (all_fails ?E ?files)"
    "ii_products y = carry_products L opts (ii_products x) (as_products A) (rows_of ?E (as_to_parse A))"
    "ii_resolutions y = or_empty_cache c"
    using assembled sort_mset [OF fails] fields(1)
    by (simp_all add: y finish_apply_def Let_def A_def [symmetric] tl_def)
  show "ii_files y = ?files" by (rule form)
  have good: "parse_fresh ?E p \<noteq> Panic" if "p \<in> set ?files" for p
  proof (cases "p \<in> ?dirty")
    case True
    then show ?thesis
      using nopanic that apply_paths_parse [of apply_start ?files ?dirty W' x] by (auto simp: A_def fields(4))
  next
    case False
    from same [OF that False] snap show ?thesis by (auto simp: snapshot_def)
  qed
  show "snapshot W' rs opts y"
    unfolding snapshot_def form(3)
    using next_files_sorted good plain res_y fields(3) form a t carry_products_fresh [OF carried, where ps = "as_to_parse A"]
    by (auto simp: or_empty_cache_def products_fresh_def)
qed

text \<open>The snapshots an engine can hold: a full build, then any sequence of described changes, each
  applied in the world it leads to.\<close>

inductive tracked ::
  "('w, 't, 'r) redb \<Rightarrow> layout \<Rightarrow> resolver list \<Rightarrow> index_options \<Rightarrow> world \<Rightarrow> incremental_index \<Rightarrow> bool"
  for D L rs opts where
  built: "index_build W L rs D None opts scan w = Ret (Some x, w') \<Longrightarrow>
    sorted (sr_files scan) \<Longrightarrow> distinct (sr_files scan) \<Longrightarrow> declared_excludes (ii_resolvers x) = [] \<Longrightarrow>
    tracked D L rs opts W x"
| applied: "tracked D L rs opts W x \<Longrightarrow> describes W x changes W' \<Longrightarrow> partials_kept x \<Longrightarrow>
    index_repo_incremental W' L rs D None opts x changes w = Ret (Some y, w') \<Longrightarrow>
    declared_excludes (ii_resolvers y) = [] \<Longrightarrow> tracked D L rs opts W' y"

lemma tracked_snapshot: "tracked D L rs opts W x \<Longrightarrow> snapshot W rs opts x"
  by (induction rule: tracked.induct) (rule build_snapshot(1) incremental_snapshot(1); assumption)+


section \<open>An evicted partial parse\<close>

lemma partial_not_transient: "is_partial_reason r \<Longrightarrow> \<not> is_transient_failure r"
  by (auto simp: is_partial_reason_def is_transient_failure_def partial_parse_reason_def
      partial_parse_rewrite_reason_def timeout_text_def no_tree_text_def starts_with_def)

lemma apply_path_other:
  "q \<noteq> p \<Longrightarrow> (p \<in> set (as_to_parse (apply_path W x dirty A q)) \<longleftrightarrow> p \<in> set (as_to_parse A))
    \<and> (p \<in> row_path ` set (as_reused (apply_path W x dirty A q)) \<longleftrightarrow> p \<in> row_path ` set (as_reused A))
    \<and> set (as_failures A) \<subseteq> set (as_failures (apply_path W x dirty A q))"
  by (auto simp: apply_path_def Let_def row_from_product_def split: option.split)

lemma apply_path_evicted:
  assumes "p \<notin> dirty" and "from_path p \<noteq> None" and "pc_get (ii_products x) p = None"
    and "previous_reason x p = Some r" and "is_partial_reason r"
  shows "as_to_parse (apply_path W x dirty A p) = as_to_parse A"
    and "as_reused (apply_path W x dirty A p) = as_reused A"
    and "as_failures (apply_path W x dirty A p) = as_failures A @ [(p, r)]"
  using assms partial_not_transient by (auto simp: apply_path_def Let_def)

lemma apply_paths_evicted:
  assumes "p \<notin> dirty" and "from_path p \<noteq> None" and "pc_get (ii_products x) p = None"
    and "previous_reason x p = Some r" and "is_partial_reason r"
  shows "p \<notin> set (as_to_parse A) \<Longrightarrow> p \<notin> row_path ` set (as_reused A) \<Longrightarrow>
    p \<notin> set (as_to_parse (foldl (apply_path W x dirty) A ps))
    \<and> p \<notin> row_path ` set (as_reused (foldl (apply_path W x dirty) A ps))
    \<and> ((p, r) \<in> set (as_failures A) \<or> p \<in> set ps \<longrightarrow> (p, r) \<in> set (as_failures (foldl (apply_path W x dirty) A ps)))"
proof (induction ps arbitrary: A)
  case (Cons q ps)
  show ?case
  proof (cases "q = p")
    case True
    then show ?thesis
      using Cons.IH [of "apply_path W x dirty A p"] Cons.prems apply_path_evicted [OF assms] by simp
  next
    case False
    then show ?thesis
      using Cons.IH [of "apply_path W x dirty A q"] Cons.prems apply_path_other [OF False, of W x dirty A] by auto
  qed
qed simp

lemma rows_of_paths: "row_path ` set (rows_of E ps) \<subseteq> set ps"
  by (induction ps) (auto split: option.split dest: row_of_Some(1))

lemma graph_files_paths: "cf_path ` set (graph_files rows) = row_path ` set rows"
proof -
  have "map cf_path (graph_files rows) = map row_path (map snd (enumerate 0 rows))"
    by (simp add: graph_files_def case_prod_beta del: map_snd_enumerate)
  then have "map cf_path (graph_files rows) = map row_path rows" by simp
  then show ?thesis by (metis set_map)
qed

lemma assembled_paths:
  assumes "assemble_graph_with parsed files rset opts report reuse record = (g, rep, c)"
  shows "cf_path ` set (cg_files g) = row_path ` set parsed" and "ir_partial_parses rep = ir_partial_parses report"
proof -
  have "cg_files g = graph_files (sort_key row_path parsed)" and p: "ir_partial_parses rep = ir_partial_parses report"
    using assms by (auto simp: assemble_graph_with_def Let_def)
  then show "cf_path ` set (cg_files g) = row_path ` set parsed" by (simp add: graph_files_paths)
  show "ir_partial_parses rep = ir_partial_parses report" by (rule p)
qed

text \<open>C35: a file whose last parse had syntax errors and whose product was evicted from the cache is
  dropped by the next applied change that does not touch it: it is neither parsed again nor in the
  graph, while the report goes on listing it among the partial parses, the files in the index.\<close>

theorem evicted_partial_vanishes:
  assumes "index_repo_incremental W L rs D None opts x changes w = Ret (Some y, w')"
    and "p \<in> set (ii_files y)" and "p \<notin> set (ch_added changes) \<union> set (ch_modified changes)"
    and "from_path p \<noteq> None" and "pc_get (ii_products x) p = None"
    and "previous_reason x p = Some r" and "is_partial_reason r"
  shows "(p, r) \<in> set (ir_partial_parses (ii_report y)) \<and> p \<notin> cf_path ` set (cg_files (ii_graph y))"
proof -
  let ?P = "plan_apply W rs x changes"
  define A where "A = ap_state ?P"
  have y: "y = finish_apply W L opts x changes ?P (rows_of (wd_parse W) (as_to_parse A), sort (all_fails (wd_parse W) (as_to_parse A)))"
    using assms(1) by (auto simp: index_repo_incremental_def Let_def parse_paths_fresh A_def split: if_splits)
  define dirty where "dirty = set (filter (\<lambda>p. \<not> wd_oversize W p) (dirty_paths x changes))"
  have A: "A = foldl (apply_path W x dirty) apply_start (sr_files (ap_scanned ?P))"
    unfolding A_def dirty_def plan_apply_def Let_def by (simp split: prod.split)
  have "sr_files (ap_scanned ?P) = ii_files y" by (simp add: y finish_apply_def Let_def split: prod.split)
  moreover have "p \<notin> dirty" using assms(3) dirty_paths_iff by (auto simp: dirty_def)
  ultimately have gone: "p \<notin> set (as_to_parse A)" "p \<notin> row_path ` set (as_reused A)" "(p, r) \<in> set (as_failures A)"
    using apply_paths_evicted [OF _ assms(4-7), of dirty apply_start W "ii_files y"] assms(2)
    by (auto simp: A apply_start_def)
  obtain g rep c where a: "assemble_graph_with (as_reused A @ rows_of (wd_parse W) (as_to_parse A)) (ap_index ?P)
      (ap_resolvers ?P) opts (with_failures (start_report (length (sr_files (ap_scanned ?P)))
        (too_large_after x changes (ap_newly_too_large ?P) (sr_files (ap_scanned ?P))))
        (sort (as_failures A @ sort (all_fails (wd_parse W) (as_to_parse A)))))
      (map_option (\<lambda>changed. \<lparr>reuse_cache = ii_resolutions x, reuse_changed = changed\<rparr>) (ap_changed ?P)) True = (g, rep, c)"
    by (metis prod_cases3)
  then have "ii_graph y = g" "ii_report y = rep" by (simp_all add: y finish_apply_def Let_def A_def [symmetric])
  with assembled_paths [OF a] gone assms(7) rows_of_paths [of "wd_parse W" "as_to_parse A"] show ?thesis
    by (auto simp: with_failures_def split_partial_def)
qed

section \<open>Witnesses\<close>

definition demo_world :: "string \<Rightarrow> parsed_file \<Rightarrow> world" where
  "demo_world src q = \<lparr>wd_root = ''/r'', wd_parse = demo_env\<lparr>pe_parse := (\<lambda>l p s. Inr q),
       pe_read := (\<lambda>p. if p = RelPath ''a.go'' then Inr src else Inl ''gone'')\<rparr>, wd_contents = Map.empty,
     wd_oversize = (\<lambda>_. False)\<rparr>"

definition demo_scan :: scan_result where
  "demo_scan = \<lparr>sr_files = [RelPath ''a.go''], sr_skipped = []\<rparr>"

definition demo_edit :: change_set where
  "demo_edit = \<lparr>ch_added = [], ch_modified = [RelPath ''a.go''], ch_removed = []\<rparr>"

lemma detect_all_none: "detect_all W [] files
    = \<lparr>rset_resolvers = [], rset_meta = [], rset_detect_failures = [], rset_detect_reads = []\<rparr>"
  by (simp add: detect_all_def from_resolvers_def)

lemma no_excludes: "rset_meta rset = [] \<Longrightarrow> declared_excludes rset = []"
  by (simp add: declared_excludes_def meta_for_def map_filter_def)

lemma demo_fresh: "parse_fresh (wd_parse (demo_world src q)) (RelPath ''a.go'')
    = Ret (Some \<lparr>row_path = RelPath ''a.go'', row_language = Go, row_sha = fst (digest src),
                  row_loc = snd (digest src), row_parsed = q\<rparr>,
           if pa_partial q then [(RelPath ''a.go'', partial_reason q)] else [])"
proof -
  have "from_path (RelPath ''a.go'') = Some Go" by code_simp
  moreover have "from_path_and_source ascii_tables (RelPath ''a.go'') src = Ret (Some Go)"
    using calculation by (simp add: from_path_and_source_def)
  ultimately show ?thesis by (simp add: parse_fresh_def demo_world_def demo_env_def)
qed

lemma demo_build: "\<exists>x. index_build (demo_world src q) demo_layout [] mem_redb None opts demo_scan [] = Ret (Some x, [])
    \<and> tracked mem_redb demo_layout [] opts (demo_world src q) x \<and> ii_files x = [RelPath ''a.go'']"
proof -
  have plain: "declared_excludes (detect_all (demo_world src q) [] (sr_files demo_scan)) = []"
    by (simp add: detect_all_none no_excludes)
  have ok: "parse_fresh (wd_parse (demo_world src q)) p \<noteq> Panic" if "p \<in> set (sr_files demo_scan)" for p
    using that by (auto simp: demo_scan_def demo_fresh)
  obtain x where x: "index_build (demo_world src q) demo_layout [] mem_redb None opts demo_scan [] = Ret (Some x, [])"
    using ok by (auto simp: index_build_def discover_plain [OF plain] parse_paths_fresh)
  have ex: "declared_excludes (ii_resolvers x) = []" using build_resolvers [OF x] plain by simp
  have s: "sorted (sr_files demo_scan)" "distinct (sr_files demo_scan)" by (simp_all add: demo_scan_def)
  from tracked.built [OF x s ex] build_snapshot(2) [OF x s ex] x show ?thesis by (auto simp: demo_scan_def)
qed

lemma demo_apply:
  assumes "snapshot (demo_world src q) [] opts x" and "ii_files x = [RelPath ''a.go'']"
    and "describes (demo_world src q) x changes (demo_world src' q)" and "next_files (demo_world src' q) x changes = [RelPath ''a.go'']"
  shows "\<exists>y. index_repo_incremental (demo_world src' q) demo_layout [] mem_redb None opts x changes [] = Ret (Some y, [])
    \<and> declared_excludes (ii_resolvers y) = [] \<and> ii_files y = [RelPath ''a.go'']"
proof -
  let ?P = "plan_apply (demo_world src' q) [] x changes"
  have "rset_meta (ii_resolvers x) = []" "rset_resolvers (ii_resolvers x) = []"
    using assms(1) unfolding snapshot_def detect_all_none by auto
  then have "rset_meta (ap_resolvers ?P) = []"
    by (auto simp: plan_apply_def Let_def redetect_def from_resolvers_def split: prod.splits)
  then have plain: "declared_excludes (ap_resolvers ?P) = []" by (rule no_excludes)
  note fields = plan_apply_fields [OF assms(1,3) plain, unfolded assms(4)]
  have "as_to_parse (ap_state ?P) \<in> {[], [RelPath ''a.go'']}"
    unfolding fields(4) by (simp add: apply_path_def apply_start_def Let_def split: option.split)
  then have "\<forall>p\<in>set (as_to_parse (ap_state ?P)). parse_fresh (wd_parse (demo_world src' q)) p \<noteq> Panic"
    by (auto simp: demo_fresh)
  then show ?thesis using plain fields(1)
    by (auto simp: index_repo_incremental_def Let_def parse_paths_fresh finish_apply_def split: prod.splits)
qed

lemma demo_describes: "src' = src \<or> RelPath ''a.go'' \<in> set (ch_modified changes) \<Longrightarrow>
    describes (demo_world src q) x changes (demo_world src' q)"
  by (auto simp: describes_def demo_world_def demo_env_def)


definition broken_parse :: parsed_file where
  "broken_parse = demo_parse\<lparr>pa_partial := True\<rparr>"

theorem evicted_partial_vanishes_witness:
  "\<exists>x y. index_build (demo_world ''package a'' broken_parse) demo_layout [] mem_redb None demo_options demo_scan [] = Ret (Some x, [])
    \<and> index_repo_incremental (demo_world ''package a'' broken_parse) demo_layout [] mem_redb None demo_options x no_changes [] = Ret (Some y, [])
    \<and> RelPath ''a.go'' \<in> cf_path ` set (cg_files (ii_graph x))
    \<and> (RelPath ''a.go'', partial_parse_reason) \<in> set (ir_partial_parses (ii_report y))
    \<and> RelPath ''a.go'' \<notin> cf_path ` set (cg_files (ii_graph y))"
proof -
  let ?W = "demo_world ''package a'' broken_parse" and ?p = "RelPath ''a.go''"
  obtain x where x: "index_build ?W demo_layout [] mem_redb None demo_options demo_scan [] = Ret (Some x, [])"
    "tracked mem_redb demo_layout [] demo_options ?W x" "ii_files x = [?p]"
    using demo_build by blast
  have snap: "snapshot ?W [] demo_options x" by (rule tracked_snapshot [OF x(2)])
  have "next_files ?W x no_changes = [?p]"
    by (simp add: next_files_def changed_files_def dirty_paths_def no_changes_def x(3))
  from demo_apply [OF snap x(3) demo_describes [OF disjI1 [OF refl]] this] obtain y where
    y: "index_repo_incremental ?W demo_layout [] mem_redb None demo_options x no_changes [] = Ret (Some y, [])"
      "ii_files y = [?p]" by blast
  have fails: "ii_failures x = [(?p, partial_parse_reason)]"
    using snap by (simp add: snapshot_def x(3) fails_of_def demo_fresh) (simp add: broken_parse_def demo_parse_def partial_reason_def)
  obtain row where row: "rows_of (wd_parse ?W) [?p] = [row]" "row_path row = ?p"
    by (simp add: row_of_def demo_fresh)
  have "ii_products x = fill_products demo_layout [row] 1"
    using x(1) row(1) by (auto simp: index_build_def build_from_def Let_def parse_paths_fresh demo_options_def
        demo_scan_def discover_def apply_declared_excludes_def no_excludes from_resolvers_def split: prod.splits if_splits)
  then have evicted: "pc_get (ii_products x) ?p = None"
    by (simp add: fill_products_def insert_product_def pc_insert_def pc_insert_at_def pc_new_def run_pending_def
        age_order_def entry_bytes_def pc_get_def bt_remove_def bt_get_def row(2))
  have "cf_path ` set (cg_files (ii_graph x)) = row_path ` set [row]"
    using snap assembled_paths(1) row(1) x(3) by (fastforce simp: snapshot_def assembled_def)
  moreover have "(?p, partial_parse_reason) \<in> set (ir_partial_parses (ii_report y)) \<and> ?p \<notin> cf_path ` set (cg_files (ii_graph y))"
  proof (rule evicted_partial_vanishes [OF y(1) _ _ _ evicted])
    show "from_path ?p \<noteq> None" by code_simp
    show "previous_reason x ?p = Some partial_parse_reason" by (simp add: previous_reason_def fails)
  qed (simp_all add: y(2) no_changes_def is_partial_reason_def)
  ultimately show ?thesis using x(1) y(1) row(2) by auto
qed

end
