(* ===== verification/Reindex.thy ===== *)
theory Reindex
  imports Assemble Freshness
begin

text \<open>
  \<open>astrolabe-mcp/src/reindex.rs\<close> and \<open>knobs.rs\<close>, \<open>astrolabe-core/src/elect.rs\<close> and the shebang cache of
  \<open>astrolabe-core/src/index.rs\<close>: the numbers read from the environment, which process may write the
  store, which changes are worth a reindex, and how queued batches become one.  Durations and
  instants are nanoseconds; \<open>Duration::from_millis\<close> and \<open>from_secs\<close> hold any \<open>u64\<close>.
\<close>

section \<open>Knobs\<close>

definition default_parse_cache_bytes :: nat where "default_parse_cache_bytes = 256 * 1024 * 1024"

definition parse_parse_cache_bytes :: "string option \<Rightarrow> nat" where
  "parse_parse_cache_bytes raw =
     (case raw of None \<Rightarrow> default_parse_cache_bytes
      | Some r \<Rightarrow> (case parse_uint (2 ^ 64) (trim r) of
            Some mb \<Rightarrow> min (mb * (1024 * 1024)) (2 ^ 64 - 1)
          | None \<Rightarrow> default_parse_cache_bytes))"

definition default_reindex_throttle :: nat where "default_reindex_throttle = 2 * 10 ^ 9"

definition parse_reindex_throttle :: "string option \<Rightarrow> nat" where
  "parse_reindex_throttle raw =
     (case raw of None \<Rightarrow> default_reindex_throttle
      | Some r \<Rightarrow> (case parse_uint (2 ^ 64) (trim r) of
            Some ms \<Rightarrow> if ms = 0 then 0 else ms * 10 ^ 6
          | None \<Rightarrow> default_reindex_throttle))"

datatype watch_setting = WatchEvents | WatchPoll nat

definition parse_watch_mode :: "string option \<Rightarrow> watch_setting option" where
  "parse_watch_mode raw =
     (case raw of None \<Rightarrow> Some WatchEvents
      | Some r \<Rightarrow> (case parse_uint (2 ^ 64) (trim r) of
            Some secs \<Rightarrow> if secs = 0 then None else Some (WatchPoll (secs * 10 ^ 9))
          | None \<Rightarrow> Some WatchEvents))"

definition default_safety_secs :: nat where "default_safety_secs = 1800"

definition parse_safety_secs :: "string option \<Rightarrow> nat" where
  "parse_safety_secs raw =
     (case raw of None \<Rightarrow> default_safety_secs * 10 ^ 9
      | Some r \<Rightarrow> (case parse_uint (2 ^ 64) (trim r) of
            Some secs \<Rightarrow> if secs = 0 then 0 else secs * 10 ^ 9
          | None \<Rightarrow> default_safety_secs * 10 ^ 9))"

definition parse_secs_knob :: "string option \<Rightarrow> nat \<Rightarrow> nat" where
  "parse_secs_knob raw dflt =
     (case raw of None \<Rightarrow> dflt * 10 ^ 9
      | Some r \<Rightarrow> (case parse_uint (2 ^ 64) (trim r) of Some secs \<Rightarrow> secs * 10 ^ 9 | None \<Rightarrow> dflt * 10 ^ 9))"

definition parse_usize_knob :: "string option \<Rightarrow> nat \<Rightarrow> nat" where
  "parse_usize_knob raw dflt =
     (case raw of None \<Rightarrow> dflt
      | Some r \<Rightarrow> (case parse_uint (2 ^ 64) (trim r) of Some n \<Rightarrow> n | None \<Rightarrow> dflt))"

record mcp_knobs =
  kn_watch_mode :: "watch_setting option"
  kn_safety_interval :: nat
  kn_storm_paths :: nat
  kn_barrier_max :: nat
  kn_idle :: nat
  kn_resident_roots :: nat
  kn_parse_cache_bytes :: nat
  kn_reindex_throttle :: nat

text \<open>\<open>McpKnobs::from_env\<close>, less the loop guard's (\<open>LoopGuard\<close>); \<open>env\<close> is the process environment.\<close>

definition knobs_from_env :: "(string \<Rightarrow> string option) \<Rightarrow> mcp_knobs" where
  "knobs_from_env env =
     \<lparr>kn_watch_mode = parse_watch_mode (env ''ASTROLABE_WATCH_SECS''),
      kn_safety_interval = parse_safety_secs (env ''ASTROLABE_SAFETY_SECS''),
      kn_storm_paths = parse_usize_knob (env ''ASTROLABE_STORM_PATHS'') 5000,
      kn_barrier_max = parse_usize_knob (env ''ASTROLABE_BARRIER_MAX'') 64,
      kn_idle = parse_secs_knob (env ''ASTROLABE_IDLE_EVICT_SECS'') 300,
      kn_resident_roots = parse_usize_knob (env ''ASTROLABE_RESIDENT_ROOTS'') 3,
      kn_parse_cache_bytes = parse_parse_cache_bytes (env ''ASTROLABE_PARSE_CACHE_MB''),
      kn_reindex_throttle = parse_reindex_throttle (env ''ASTROLABE_REINDEX_MS'')\<rparr>"

definition mcp_index_options :: "bool \<Rightarrow> nat \<Rightarrow> index_options" where
  "mcp_index_options persist parse_cache_bytes =
     \<lparr>io_call_edges = True, io_persist = persist, io_persist_read_only = (\<not> persist),
      io_parse_cache_bytes = of_nat parse_cache_bytes\<rparr>"

section \<open>Leadership\<close>

text \<open>The outcome of opening and locking \<open>.astrolabe/indexer.lock\<close> at one moment; the operating system
  is a parameter.\<close>

datatype try_lock = LockTaken | LockBusy | LockError string

text \<open>\<open>IndexerLock::try_acquire\<close>: the directory, the file, then the lock, an error at any stage.\<close>

definition try_acquire :: "string + unit \<Rightarrow> string + unit \<Rightarrow> try_lock \<Rightarrow> string + bool" where
  "try_acquire mkdir lockfile locked =
     and_then mkdir (\<lambda>_. and_then lockfile (\<lambda>_.
       (case locked of LockTaken \<Rightarrow> Inr True | LockBusy \<Rightarrow> Inr False | LockError e \<Rightarrow> Inl e)))"

text \<open>The slot holds whether this process has the lock.\<close>

definition refresh_leader :: "bool \<Rightarrow> string + bool \<Rightarrow> bool \<times> bool" where
  "refresh_leader slot attempt =
     (if slot then (True, slot)
      else (case attempt of Inr True \<Rightarrow> (True, True) | Inr False \<Rightarrow> (False, slot) | Inl e \<Rightarrow> (False, slot)))"

section \<open>The shebang cache\<close>

text \<open>What the file system says of a path: \<open>fm_mtime\<close> is \<open>metadata.modified().ok()\<close>, in nanoseconds, and
  \<open>fm_head\<close> the first bytes, or an error.\<close>

record file_meta =
  fm_is_file :: bool
  fm_len :: nat
  fm_mtime :: "int option"

record disk =
  dk_meta :: "rel_path \<Rightarrow> file_meta option"
  dk_head :: "rel_path \<Rightarrow> nat \<Rightarrow> string option"

record shebang_entry =
  se_mtime :: int
  se_len :: nat
  se_script :: bool

record shebang_verdict =
  sv_script :: bool
  sv_was_script :: bool
  sv_missing :: bool

definition shebang_cache_cap :: nat where "shebang_cache_cap = 100000"
definition shebang_untrusted_window :: int where "shebang_untrusted_window = 2 * 10 ^ 9"

definition bom :: string where "bom = [char_of (0xEF::nat), char_of (0xBB::nat), char_of (0xBF::nat)]"

definition read_starts_with_shebang :: "disk \<Rightarrow> rel_path \<Rightarrow> bool" where
  "read_starts_with_shebang D p =
     (case dk_head D p 5 of None \<Rightarrow> False
      | Some h \<Rightarrow> starts_with (case strip_prefix bom h of Some t \<Rightarrow> t | None \<Rightarrow> h) ''#!'')"

definition mtime_trusted :: "int \<Rightarrow> int option \<Rightarrow> bool" where
  "mtime_trusted now mtime =
     (case mtime of None \<Rightarrow> False | Some m \<Rightarrow> m \<le> now \<and> shebang_untrusted_window \<le> now - m)"

type_synonym shebang_cache = "(rel_path, shebang_entry) btree"

definition remember_shebang :: "rel_path \<Rightarrow> shebang_entry \<Rightarrow> shebang_cache \<Rightarrow> shebang_cache" where
  "remember_shebang p e cache =
     bt_insert p e (if shebang_cache_cap \<le> length cache then [] else cache)"

definition shebang_state ::
  "disk \<Rightarrow> int \<Rightarrow> rel_path \<Rightarrow> shebang_cache \<Rightarrow> shebang_verdict \<times> shebang_cache" where
  "shebang_state D now p cache =
     (let previous = bt_get cache p;
          was = (case previous of None \<Rightarrow> False | Some e \<Rightarrow> se_script e)
      in case dk_meta D p of
        None \<Rightarrow> (\<lparr>sv_script = False, sv_was_script = was, sv_missing = True\<rparr>, cache)
      | Some md \<Rightarrow>
          if mtime_trusted now (fm_mtime md)
             \<and> (case previous of None \<Rightarrow> False | Some e \<Rightarrow> Some (se_mtime e) = fm_mtime md \<and> se_len e = fm_len md)
          then (\<lparr>sv_script = was, sv_was_script = was, sv_missing = False\<rparr>, cache)
          else (let script = fm_is_file md \<and> read_starts_with_shebang D p
                in (\<lparr>sv_script = script, sv_was_script = was, sv_missing = False\<rparr>,
                    case fm_mtime md of None \<Rightarrow> cache
                    | Some m \<Rightarrow> remember_shebang p \<lparr>se_mtime = m, se_len = fm_len md, se_script = script\<rparr> cache)))"

section \<open>Which changes are worth a reindex\<close>

definition text_only_max_bytes :: nat where "text_only_max_bytes = 1500000"

definition text_only_admissible :: "disk \<Rightarrow> rel_path \<Rightarrow> bool" where
  "text_only_admissible D p =
     (case dk_meta D p of None \<Rightarrow> False
      | Some md \<Rightarrow> fm_is_file md \<and> fm_len md \<le> text_only_max_bytes
          \<and> (case dk_head D p 8192 of None \<Rightarrow> False | Some h \<Rightarrow> char_of (0::nat) \<notin> set h))"

text \<open>The closure \<open>keep\<close>: whether the path stays, with the removals and the cache it updates.\<close>

definition keep_path ::
  "disk \<Rightarrow> int \<Rightarrow> rel_path \<Rightarrow> rel_path list \<times> shebang_cache \<Rightarrow> bool \<times> rel_path list \<times> shebang_cache" where
  "keep_path D now p st =
     (case st of (removed, cache) \<Rightarrow>
        if from_path p \<noteq> None then (True, removed, cache)
        else if \<not> is_shebang_candidate p then (text_only_admissible D p, removed, cache)
        else (case shebang_state D now p cache of (v, cache') \<Rightarrow>
          if sv_script v \<or> sv_missing v then (True, removed, cache')
          else (text_only_admissible D p, if sv_was_script v then removed @ [p] else removed, cache')))"

fun filter_paths ::
  "disk \<Rightarrow> int \<Rightarrow> rel_path list \<Rightarrow> rel_path list \<times> shebang_cache
     \<Rightarrow> rel_path list \<times> rel_path list \<times> shebang_cache" where
  "filter_paths D now [] st = ([], st)"
| "filter_paths D now (p # ps) st =
     (case keep_path D now p st of (keep, st') \<Rightarrow>
      case filter_paths D now ps st' of (kept, st'') \<Rightarrow> (if keep then p # kept else kept, st''))"

definition filter_changeset ::
  "disk \<Rightarrow> int \<Rightarrow> change_set \<Rightarrow> shebang_cache \<Rightarrow> change_set \<times> shebang_cache" where
  "filter_changeset D now c cache =
     (case filter_paths D now (ch_added c) (ch_removed c, cache) of (added, st) \<Rightarrow>
      case filter_paths D now (ch_modified c) st of (modified, removed, cache') \<Rightarrow>
        (\<lparr>ch_added = added, ch_modified = modified, ch_removed = removed\<rparr>, cache'))"

section \<open>Coalescing\<close>

text \<open>The channel as the batches still to come, each with the moment it is sent; the sender hangs up
  after the last.  \<open>try_recv\<close> at \<open>now\<close> drains what has been sent by then.\<close>

type_synonym channel = "(nat \<times> change_set) list"

fun drain_ready :: "nat \<Rightarrow> change_set \<Rightarrow> channel \<Rightarrow> change_set \<times> channel" where
  "drain_ready now acc [] = (acc, [])"
| "drain_ready now acc ((t, c) # rx) =
     (if t \<le> now then drain_ready now (changes_merge acc c) rx else (acc, (t, c) # rx))"

lemma drain_ready_length: "drain_ready now acc rx = (acc', rx') \<Longrightarrow> length rx' \<le> length rx"
  by (induction now acc rx rule: drain_ready.induct) (auto split: if_splits)

text \<open>The loop: until the deadline, wait for the next batch and drain what came with it.\<close>

function coalesce_until :: "nat \<Rightarrow> nat \<Rightarrow> change_set \<Rightarrow> channel \<Rightarrow> change_set \<times> channel \<times> nat" where
  "coalesce_until deadline now acc rx =
     (if deadline \<le> now then (acc, rx, now)
      else (case rx of
          [] \<Rightarrow> (acc, [], now)
        | (t, c) # rx' \<Rightarrow>
            if max t now < deadline
            then (case drain_ready (max t now) (changes_merge acc c) rx' of (acc', rx'') \<Rightarrow>
                    coalesce_until deadline (max t now) acc' rx'')
            else (acc, rx, deadline)))"
  by pat_completeness auto
termination
  by (relation "measure (\<lambda>(_, _, _, rx). length rx)")
     (auto simp: less_Suc_eq_le split: prod.splits dest: drain_ready_length)

declare coalesce_until.simps [simp del]

definition coalesce_window ::
  "nat \<Rightarrow> nat \<Rightarrow> change_set \<Rightarrow> channel \<Rightarrow> change_set \<times> channel \<times> nat" where
  "coalesce_window throttle now acc rx =
     (case drain_ready now acc rx of (acc', rx') \<Rightarrow>
        if throttle = 0 then (acc', rx', now) else coalesce_until (now + throttle) now acc' rx')"


lemma coalesce_until_length:
  "coalesce_until deadline now acc rx = (acc', rx', now') \<Longrightarrow> length rx' \<le> length rx"
proof (induction deadline now acc rx arbitrary: acc' rx' now' rule: coalesce_until.induct)
  case (1 deadline now acc rx)
  show ?case
  proof (cases "deadline \<le> now \<or> rx = []")
    case True
    with "1.prems" show ?thesis by (cases rx) (auto simp: coalesce_until.simps [of deadline now] split: if_splits)
  next
    case False
    then obtain t c rs where rx: "rx = (t, c) # rs" by (cases rx) auto
    obtain a b where d: "drain_ready (max t now) (changes_merge acc c) rs = (a, b)" by fastforce
    show ?thesis
    proof (cases "max t now < deadline")
      case True
      have "coalesce_until deadline (max t now) a b = (acc', rx', now')"
        using "1.prems" False True by (simp add: coalesce_until.simps [of deadline now] rx d)
      from "1.IH" [OF _ rx refl True d [symmetric] this] False drain_ready_length [OF d]
      show ?thesis by (simp add: rx)
    next
      case no: False
      with "1.prems" False show ?thesis by (auto simp: coalesce_until.simps [of deadline now] rx)
    qed
  qed
qed

lemma coalesce_window_length:
  "coalesce_window throttle now acc rx = (acc', rx', now') \<Longrightarrow> length rx' \<le> length rx"
  by (auto simp: coalesce_window_def dest!: drain_ready_length coalesce_until_length
      split: prod.splits if_splits)

text \<open>\<open>for_each_reindex_batch\<close>: the batches handed to the callback and the moment of each; \<open>cost\<close> is how long
  the callback takes, \<open>D\<close> and \<open>wall\<close> the disk and the system clock at a monotonic instant.\<close>

function for_each_reindex_batch ::
  "(nat \<Rightarrow> disk) \<Rightarrow> (nat \<Rightarrow> int) \<Rightarrow> (change_set \<Rightarrow> nat) \<Rightarrow> nat \<Rightarrow> nat option \<Rightarrow> shebang_cache \<Rightarrow> nat \<Rightarrow> channel
     \<Rightarrow> (nat \<times> change_set) list" where
  "for_each_reindex_batch D wall cost throttle last_apply cache now [] = []"
| "for_each_reindex_batch D wall cost throttle last_apply cache now ((t, c) # rx) =
     (let start = max t now;
          wait = (case last_apply of None \<Rightarrow> 0 | Some at \<Rightarrow> throttle - (start - at))
      in case coalesce_window wait start c rx of (merged, rx', now') \<Rightarrow>
        (case filter_changeset (D now') (wall now') merged cache of (filtered, cache') \<Rightarrow>
          if changes_is_empty filtered
          then for_each_reindex_batch D wall cost throttle last_apply cache' now' rx'
          else (now', filtered)
               # for_each_reindex_batch D wall cost throttle (Some (now' + cost filtered)) cache'
                   (now' + cost filtered) rx'))"
  by pat_completeness auto
termination
  by (relation "measure (\<lambda>(_, _, _, _, _, _, _, rx). length rx)")
     (auto dest!: coalesce_window_length [OF sym])

declare for_each_reindex_batch.simps(2) [simp del]

section \<open>What a batch says of a path\<close>

definition paths_of :: "change_set \<Rightarrow> rel_path set" where
  "paths_of c = snd ` set (changes_iter c)"

lemma paths_of_alt: "paths_of c = set (ch_added c) \<union> set (ch_modified c) \<union> set (ch_removed c)"
  by (force simp: paths_of_def changes_iter_def)

lemma last_drop_append: "last_drop (xs @ ys) = last_drop xs ++ last_drop ys"
  by (simp add: last_drop_def)

lemma dom_last_drop: "dom (last_drop kps) = snd ` set kps"
  by (simp add: last_drop_def dom_map_of_conv_image_fst image_image split_beta)

lemma paths_of_dom: "paths_of c = dom (last_drop (changes_iter c))"
  by (simp add: paths_of_def dom_last_drop)

lemma paths_merge [simp]: "paths_of (changes_merge a b) = paths_of a \<union> paths_of b"
  by (simp add: paths_of_dom merge_drops Un_commute)

lemma paths_none [simp]: "paths_of no_changes = {}"
  by (simp add: paths_of_alt no_changes_def)

lemma changes_is_empty_paths: "changes_is_empty c \<longleftrightarrow> paths_of c = {}"
  by (auto simp: paths_of_alt changes_is_empty_def)

definition last_word :: "change_set list \<Rightarrow> rel_path \<Rightarrow> bool option" where
  "last_word cs = last_drop (concat (map changes_iter cs))"

lemma last_word_simps [simp]:
  "last_word [] = Map.empty"
  "last_word (c # cs) = last_drop (changes_iter c) ++ last_word cs"
  "last_word (cs @ ds) = last_word cs ++ last_word ds"
  by (simp_all add: last_word_def last_drop_append) (simp add: last_drop_def)

section \<open>The loop delivers the last word\<close>

text \<open>A batch taken off the channel: the messages it merges, all sent by then.\<close>

definition takes :: "nat \<Rightarrow> change_set \<Rightarrow> channel \<Rightarrow> change_set \<Rightarrow> channel \<Rightarrow> bool" where
  "takes now acc rx acc' rx' \<longleftrightarrow>
     (\<exists>g. rx = g @ rx' \<and> (\<forall>m\<in>set g. fst m \<le> now)
        \<and> last_drop (changes_iter acc') = last_drop (changes_iter acc) ++ last_word (map snd g)
        \<and> paths_of acc' = paths_of acc \<union> (\<Union>m\<in>set g. paths_of (snd m)))"

lemma takes_refl: "takes now acc rx acc rx"
  unfolding takes_def by (rule exI [of _ "[]"]) simp

lemma takes_one:
  assumes "t \<le> now" and "takes now (changes_merge acc c) rx acc' rx'"
  shows "takes now acc ((t, c) # rx) acc' rx'"
proof -
  from assms(2) obtain g where "rx = g @ rx'" "\<forall>m\<in>set g. fst m \<le> now"
    "last_drop (changes_iter acc') = last_drop (changes_iter (changes_merge acc c)) ++ last_word (map snd g)"
    "paths_of acc' = paths_of (changes_merge acc c) \<union> (\<Union>m\<in>set g. paths_of (snd m))"
    by (auto simp: takes_def)
  then show ?thesis
    unfolding takes_def using assms(1) by (intro exI [of _ "(t, c) # g"]) (auto simp: merge_drops)
qed

lemma takes_trans:
  assumes "takes now acc rx acc' rx'" and "now \<le> now'" and "takes now' acc' rx' acc'' rx''"
  shows "takes now' acc rx acc'' rx''"
proof -
  from assms(1) obtain g where g: "rx = g @ rx'" "\<forall>m\<in>set g. fst m \<le> now"
    "last_drop (changes_iter acc') = last_drop (changes_iter acc) ++ last_word (map snd g)"
    "paths_of acc' = paths_of acc \<union> (\<Union>m\<in>set g. paths_of (snd m))"
    by (auto simp: takes_def)
  from assms(3) obtain h where "rx' = h @ rx''" "\<forall>m\<in>set h. fst m \<le> now'"
    "last_drop (changes_iter acc'') = last_drop (changes_iter acc') ++ last_word (map snd h)"
    "paths_of acc'' = paths_of acc' \<union> (\<Union>m\<in>set h. paths_of (snd m))"
    by (auto simp: takes_def)
  with g assms(2) show ?thesis
    unfolding takes_def by (intro exI [of _ "g @ h"]) auto
qed

lemma drain_ready_takes: "drain_ready now acc rx = (acc', rx') \<Longrightarrow> takes now acc rx acc' rx'"
  by (induction now acc rx rule: drain_ready.induct)
     (auto simp: takes_refl intro: takes_one split: if_splits)

lemma coalesce_until_takes:
  "coalesce_until deadline now acc rx = (acc', rx', now') \<Longrightarrow> now \<le> now' \<and> takes now' acc rx acc' rx'"
proof (induction deadline now acc rx arbitrary: acc' rx' now' rule: coalesce_until.induct)
  case (1 deadline now acc rx)
  show ?case
  proof (cases "deadline \<le> now \<or> rx = []")
    case True
    with "1.prems" show ?thesis
      by (cases rx) (auto simp: coalesce_until.simps [of deadline now] takes_refl split: if_splits)
  next
    case False
    then obtain t c rs where rx: "rx = (t, c) # rs" by (cases rx) auto
    obtain a b where d: "drain_ready (max t now) (changes_merge acc c) rs = (a, b)" by fastforce
    show ?thesis
    proof (cases "max t now < deadline")
      case True
      have run: "coalesce_until deadline (max t now) a b = (acc', rx', now')"
        using "1.prems" False True by (simp add: coalesce_until.simps [of deadline now] rx d)
      have IH: "max t now \<le> now' \<and> takes now' a b acc' rx'"
        using "1.IH" [OF _ rx refl True d [symmetric] run] False by simp
      have "takes (max t now) acc rx a b"
        unfolding rx by (rule takes_one [OF _ drain_ready_takes [OF d]]) simp
      from takes_trans [OF this _ conjunct2 [OF IH]] IH show ?thesis by simp
    next
      case no: False
      with "1.prems" False have "acc' = acc" "rx' = rx" "now' = deadline"
        by (simp_all add: coalesce_until.simps [of deadline now] rx)
      then show ?thesis using False by (simp add: takes_refl)
    qed
  qed
qed

lemma coalesce_window_takes:
  assumes "coalesce_window throttle now acc rx = (acc', rx', now')"
  shows "now \<le> now' \<and> takes now' acc rx acc' rx'"
proof -
  obtain a b where d: "drain_ready now acc rx = (a, b)" by fastforce
  note t1 = drain_ready_takes [OF d]
  show ?thesis
  proof (cases "throttle = 0")
    case True
    with assms d t1 show ?thesis by (simp add: coalesce_window_def)
  next
    case False
    then have "coalesce_until (now + throttle) now a b = (acc', rx', now')"
      using assms d by (simp add: coalesce_window_def)
    from coalesce_until_takes [OF this] takes_trans [OF t1] show ?thesis by blast
  qed
qed

text \<open>The filter on one path of a known language: kept where it was, never turned into a removal.\<close>

lemma filter_paths_known:
  assumes "from_path p \<noteq> None"
  shows "filter_paths D now ps (removed, cache) = (kept, removed', cache') \<Longrightarrow>
    filter (\<lambda>q. q = p) kept = filter (\<lambda>q. q = p) ps
    \<and> (\<exists>extra. removed' = removed @ extra \<and> p \<notin> set extra)"
proof (induction ps arbitrary: removed cache kept removed' cache')
  case (Cons q ps)
  obtain k r c where k: "keep_path D now q (removed, cache) = (k, r, c)" by (metis prod_cases3)
  obtain kept2 r2 c2 where f: "filter_paths D now ps (r, c) = (kept2, r2, c2)" by (metis prod_cases3)
  note IH = Cons.IH [OF f]
  have "(q = p \<longrightarrow> k) \<and> (\<exists>extra. r = removed @ extra \<and> p \<notin> set extra)"
    using k assms by (auto simp: keep_path_def split: if_splits prod.splits)
  then obtain e1 where e1: "q = p \<longrightarrow> k" "r = removed @ e1" "p \<notin> set e1" by blast
  from IH obtain e2 where e2: "r2 = r @ e2" "p \<notin> set e2" by blast
  have out: "kept = (if k then q # kept2 else kept2)" "removed' = r2"
    using Cons.prems by (auto simp: k f)
  show ?case
  proof (intro conjI)
    show "filter (\<lambda>q. q = p) kept = filter (\<lambda>q. q = p) (q # ps)"
      using IH e1(1) out by auto
    show "\<exists>extra. removed' = removed @ extra \<and> p \<notin> set extra"
      using e1 e2 out by (intro exI [of _ "e1 @ e2"]) simp
  qed
qed simp

lemma last_drop_filter: "last_drop kps p = last_drop (filter (\<lambda>kp. snd kp = p) kps) p"
  by (induction kps rule: rev_induct) (auto simp: last_drop_snoc last_drop_def)

lemma filter_iter:
  "filter (\<lambda>kp. snd kp = p) (changes_iter c)
   = map (\<lambda>q. (Added, q)) (filter (\<lambda>q. q = p) (ch_added c)) @ map (\<lambda>q. (Modified, q)) (filter (\<lambda>q. q = p) (ch_modified c))
     @ map (\<lambda>q. (Removed, q)) (filter (\<lambda>q. q = p) (ch_removed c))"
  by (simp add: changes_iter_def filter_map comp_def)

lemma filter_changeset_known:
  assumes "from_path p \<noteq> None" and f: "filter_changeset D now c cache = (c', cache')"
  shows "last_drop (changes_iter c') p = last_drop (changes_iter c) p"
proof -
  obtain added r1 c1 where a: "filter_paths D now (ch_added c) (ch_removed c, cache) = (added, r1, c1)"
    by (metis prod_cases3)
  obtain modified r2 c2 where m: "filter_paths D now (ch_modified c) (r1, c1) = (modified, r2, c2)"
    by (metis prod_cases3)
  have c': "c' = \<lparr>ch_added = added, ch_modified = modified, ch_removed = r2\<rparr>"
    using f by (simp add: filter_changeset_def a m)
  have ka: "filter (\<lambda>q. q = p) added = filter (\<lambda>q. q = p) (ch_added c)"
    using filter_paths_known [OF assms(1) a] by blast
  have km: "filter (\<lambda>q. q = p) modified = filter (\<lambda>q. q = p) (ch_modified c)"
    using filter_paths_known [OF assms(1) m] by blast
  obtain e1 where e1: "r1 = ch_removed c @ e1" "p \<notin> set e1"
    using filter_paths_known [OF assms(1) a] by blast
  obtain e2 where e2: "r2 = r1 @ e2" "p \<notin> set e2"
    using filter_paths_known [OF assms(1) m] by blast
  have none: "filter (\<lambda>q. q = p) es = []" if "p \<notin> set es" for es
    using that by (induction es) auto
  have kr: "filter (\<lambda>q. q = p) r2 = filter (\<lambda>q. q = p) (ch_removed c)"
    using e1 e2 by (simp add: none)
  have "filter (\<lambda>kp. snd kp = p) (changes_iter c') = filter (\<lambda>kp. snd kp = p) (changes_iter c)"
    by (simp add: filter_iter c' ka km kr)
  then show ?thesis by (simp add: last_drop_filter [of "changes_iter c'"] last_drop_filter [of "changes_iter c"])
qed

lemma known_in_paths:
  "from_path p \<noteq> None \<Longrightarrow> filter_changeset D now c cache = (c', cache') \<Longrightarrow> p \<in> paths_of c' \<longleftrightarrow> p \<in> paths_of c"
  using filter_changeset_known [of p D now c cache c' cache'] by (simp add: paths_of_dom domIff)

lemma reindex_delivers:
  assumes known: "from_path p \<noteq> None"
  shows "last_word (map snd (for_each_reindex_batch D wall cost throttle la cache now rx)) p
           = last_word (map snd rx) p
       \<and> (\<forall>(t, c) \<in> set rx. p \<in> paths_of c \<longrightarrow>
            (\<exists>(t', f) \<in> set (for_each_reindex_batch D wall cost throttle la cache now rx). t \<le> t' \<and> p \<in> paths_of f))"
    (is "?W rx la cache now \<and> ?A rx la cache now")
proof (induction D wall cost throttle la cache now rx rule: for_each_reindex_batch.induct)
  case (2 D wall cost throttle la cache now t c rx)
  define start where "start = max t now"
  define wait where "wait = (case la of None \<Rightarrow> 0 | Some at \<Rightarrow> throttle - (start - at))"
  obtain merged rx' now' where w: "coalesce_window wait start c rx = (merged, rx', now')" by (metis prod_cases3)
  obtain f cache' where fl: "filter_changeset (D now') (wall now') merged cache = (f, cache')" by fastforce
  let ?out = "for_each_reindex_batch D wall cost throttle la cache now ((t, c) # rx)"
  let ?rest = "if changes_is_empty f
      then for_each_reindex_batch D wall cost throttle la cache' now' rx'
      else for_each_reindex_batch D wall cost throttle (Some (now' + cost f)) cache' (now' + cost f) rx'"
  have out: "?out = (if changes_is_empty f then ?rest else (now', f) # ?rest)"
    by (simp add: for_each_reindex_batch.simps(2) start_def [symmetric] wait_def [symmetric] w fl Let_def)
  have tk: "start \<le> now'" "takes now' c rx merged rx'" using coalesce_window_takes [OF w] by simp_all
  then obtain g where g: "rx = g @ rx'" "\<forall>m\<in>set g. fst m \<le> now'"
    "last_drop (changes_iter merged) = last_drop (changes_iter c) ++ last_word (map snd g)"
    "paths_of merged = paths_of c \<union> (\<Union>m\<in>set g. paths_of (snd m))"
    by (auto simp: takes_def)
  have ld: "last_drop (changes_iter f) p = last_drop (changes_iter merged) p"
    by (rule filter_changeset_known [OF known fl])
  have pf: "p \<in> paths_of f \<longleftrightarrow> p \<in> paths_of merged" by (rule known_in_paths [OF known fl])
  have IH: "last_word (map snd ?rest) p = last_word (map snd rx') p"
    "\<forall>(t, c) \<in> set rx'. p \<in> paths_of c \<longrightarrow> (\<exists>(t', f) \<in> set ?rest. t \<le> t' \<and> p \<in> paths_of f)"
    using "2.IH" [OF start_def wait_def w [symmetric] refl fl [symmetric]] by (auto split: if_splits)
  have none: "last_drop (changes_iter f) p = None" if "changes_is_empty f"
    using that changes_is_empty_paths [of f] by (simp add: paths_of_dom)
  show ?case
  proof
    show "last_word (map snd ?out) p = last_word (map snd ((t, c) # rx)) p"
      using IH(1) ld g(3) none unfolding out by (auto simp: g(1) map_add_def split: option.splits)
    show "\<forall>(t', c') \<in> set ((t, c) # rx). p \<in> paths_of c' \<longrightarrow>
        (\<exists>(t'', f) \<in> set ?out. t' \<le> t'' \<and> p \<in> paths_of f)"
    proof (intro ballI, clarify)
      fix t' c' assume m: "(t', c') \<in> set ((t, c) # rx)" and p: "p \<in> paths_of c'"
      show "\<exists>(t'', f) \<in> set ?out. t' \<le> t'' \<and> p \<in> paths_of f"
      proof (cases "(t', c') \<in> set rx'")
        case True
        with IH(2) p obtain a b where "(a, b) \<in> set ?rest" "t' \<le> a" "p \<in> paths_of b" by blast
        then show ?thesis unfolding out by auto
      next
        case False
        with m g have "t' \<le> now' \<and> p \<in> paths_of merged" using p tk(1) by (force simp: start_def)
        moreover from this pf have "\<not> changes_is_empty f" by (auto simp: changes_is_empty_paths)
        ultimately show ?thesis unfolding out using pf by auto
      qed
    qed
  qed
qed simp

text \<open>C12: the reindex loop loses no change to a source file: every change sent on the channel is followed,
  at or after the moment it was sent, by a delivered batch that names the file, and over the whole run
  the last word delivered on the file, re-read or drop, is the last word that was sent.\<close>

theorem reindex_delivers_last_word:
  assumes "from_path p \<noteq> None"
  shows "last_word (map snd (for_each_reindex_batch D wall cost throttle la cache now rx)) p
           = last_word (map snd rx) p
       \<and> (\<forall>(t, c) \<in> set rx. p \<in> paths_of c \<longrightarrow>
            (\<exists>(t', f) \<in> set (for_each_reindex_batch D wall cost throttle la cache now rx).
               t \<le> t' \<and> p \<in> paths_of f))"
  by (rule reindex_delivers [OF assms])

definition demo_burst :: channel where
  "demo_burst =
     [(0, \<lparr>ch_added = [RelPath ''a.rs''], ch_modified = [], ch_removed = []\<rparr>),
      (5, \<lparr>ch_added = [], ch_modified = [RelPath ''b.rs''], ch_removed = []\<rparr>),
      (6, \<lparr>ch_added = [], ch_modified = [], ch_removed = [RelPath ''a.rs'']\<rparr>)]"

theorem reindex_delivers_last_word_witness:
  "last_word (map snd (for_each_reindex_batch (\<lambda>_. \<lparr>dk_meta = \<lambda>_. None, dk_head = \<lambda>_ _. None\<rparr>) (\<lambda>_. 0) (\<lambda>_. 1)
     10 None [] 0 demo_burst)) (RelPath ''a.rs'') = Some True"
proof -
  have "from_path (RelPath ''a.rs'') \<noteq> None" by code_simp
  moreover have "last_word (map snd demo_burst) (RelPath ''a.rs'') = Some True" by code_simp
  ultimately show ?thesis using reindex_delivers_last_word by simp
qed

end
