(* ===== verification/Session.thy ===== *)
theory Session
  imports Reindex
begin

text \<open>
  \<open>astrolabe-mcp/src/session.rs\<close>: the session of one index root.  The watcher's reindex thread, the
  queries, the cold build and the background rebuild share its state.  Each method is one definition;
  a method that takes locks in sequence is composed of the operations done under each lock, which the
  step relation at the end interleaves.  The engine is a record of the operations of
  \<open>astrolabe-core\<close> the session calls, the clock is the function \<open>T\<close> of the successive instants
  a call reads, and file metadata is an argument as in \<open>Reindex\<close>.
\<close>

section \<open>State\<close>

datatype 'i index_state = Building | ReadyIndex 'i | FailedIndex string

record apply_health =
  ah_unapplied :: change_set
  ah_next_inline_retry :: "nat option"
  ah_rebuild_backoff_until :: "nat option"
  ah_in_rebuild :: change_set

definition inline_retry_gap :: nat where "inline_retry_gap = 2 * 10 ^ 9"
definition rebuild_backoff :: nat where "rebuild_backoff = 60 * 10 ^ 9"

record 'i root_session =
  rs_state :: "'i index_state"
  rs_watch :: bool
  rs_freshness :: "freshness option"
  rs_indexer_lock :: bool
  rs_pending :: change_set
  rs_rebuild_inflight :: bool
  rs_rebuild_journal :: change_set
  rs_closed :: bool
  rs_health :: apply_health
  rs_shebang :: shebang_cache
  rs_knobs :: mcp_knobs

definition fresh_health :: apply_health where
  "fresh_health = \<lparr>ah_unapplied = no_changes, ah_next_inline_retry = None, ah_rebuild_backoff_until = None,
     ah_in_rebuild = no_changes\<rparr>"

definition session_new :: "mcp_knobs \<Rightarrow> 'i root_session" where
  "session_new knobs =
     \<lparr>rs_state = Building, rs_watch = False, rs_freshness = None, rs_indexer_lock = False, rs_pending = no_changes,
      rs_rebuild_inflight = False, rs_rebuild_journal = no_changes, rs_closed = False,
      rs_health = fresh_health, rs_shebang = [], rs_knobs = knobs\<rparr>"

definition teardown :: "'i root_session \<Rightarrow> 'i root_session" where
  "teardown S = S\<lparr>rs_closed := True, rs_watch := False, rs_indexer_lock := False, rs_freshness := None\<rparr>"

text \<open>The engine: \<open>apply_changeset\<close> and \<open>IncrementalIndex::build\<close> at an instant, the cancellable build from
  one instant to another, the two conversions between \<open>RepoIndex\<close> and \<open>IncrementalIndex\<close>, and one
  attempt at the indexer lock.\<close>

record ('b, 'i) engine =
  en_changeset :: "index_options \<Rightarrow> nat \<Rightarrow> 'b \<Rightarrow> change_set \<Rightarrow> 'b run"
  en_build :: "index_options \<Rightarrow> nat \<Rightarrow> 'b run"
  en_cancellable :: "bool \<Rightarrow> nat \<Rightarrow> nat \<Rightarrow> bool \<Rightarrow> 'i option run"
  en_incremental :: "'i \<Rightarrow> 'b option"
  en_repo :: "'b \<Rightarrow> 'i"
  en_lock :: "nat \<Rightarrow> string + bool"

definition panic_message :: string where
  "panic_message = ''Underlying index capability is not implemented or panicked''"

definition apply_reindex ::
  "('b, 'i) engine \<Rightarrow> index_options \<Rightarrow> nat \<Rightarrow> 'b option \<Rightarrow> change_set \<Rightarrow> string + 'b" where
  "apply_reindex E opts now snap changes =
     (case (case snap of Some previous \<Rightarrow> en_changeset E opts now previous changes | None \<Rightarrow> en_build E opts now) of
        Panic \<Rightarrow> Inl panic_message | Ret b \<Rightarrow> Inr b)"

text \<open>\<open>build_session_index\<close> from \<open>start\<close> to \<open>finish\<close>; the build polls \<open>closed\<close>.\<close>

definition build_session_index ::
  "('b, 'i) engine \<Rightarrow> bool \<Rightarrow> nat \<Rightarrow> nat \<Rightarrow> 'i root_session \<Rightarrow> 'i index_state option" where
  "build_session_index E persist start finish S =
     (case en_cancellable E persist start finish (rs_closed S) of
        Panic \<Rightarrow> Some (FailedIndex panic_message)
      | Ret None \<Rightarrow> None
      | Ret (Some index) \<Rightarrow> Some (ReadyIndex index))"

definition session_opts :: "('b, 'i) engine \<Rightarrow> nat \<Rightarrow> 'i root_session \<Rightarrow> index_options \<times> 'i root_session" where
  "session_opts E now S =
     (case refresh_leader (rs_indexer_lock S) (en_lock E now) of (persist, slot) \<Rightarrow>
        (mcp_index_options persist (kn_parse_cache_bytes (rs_knobs S)), S\<lparr>rs_indexer_lock := slot\<rparr>))"

section \<open>Applying changes\<close>

definition apply_with_fallback ::
  "('b, 'i) engine \<Rightarrow> index_options \<Rightarrow> nat \<Rightarrow> nat \<Rightarrow> 'b option \<Rightarrow> change_set \<Rightarrow> change_set \<Rightarrow> 'b option \<times> change_set" where
  "apply_with_fallback E opts now now' base older newer =
     (let all = changes_merge older newer
      in if changes_is_empty all then (None, all)
         else case apply_reindex E opts now base all of
             Inr inc \<Rightarrow> (Some inc, no_changes)
           | Inl _ \<Rightarrow>
               if \<not> changes_is_empty older \<and> \<not> changes_is_empty newer
               then (case apply_reindex E opts now' base newer of Inr inc \<Rightarrow> (Some inc, older) | Inl _ \<Rightarrow> (None, all))
               else (None, all))"

definition note_unapplied :: "nat \<Rightarrow> change_set \<Rightarrow> 'i root_session \<Rightarrow> 'i root_session" where
  "note_unapplied now left S =
     (let H = rs_health S
      in S\<lparr>rs_health :=
           (if changes_is_empty left \<and> changes_is_empty (ah_unapplied H) then H\<lparr>ah_next_inline_retry := None\<rparr>
            else H\<lparr>ah_unapplied := changes_merge (ah_unapplied H) left,
                   ah_next_inline_retry := Some (now + inline_retry_gap)\<rparr>)\<rparr>)"

definition take_unapplied :: "'i root_session \<Rightarrow> change_set \<times> 'i root_session" where
  "take_unapplied S = (ah_unapplied (rs_health S), S\<lparr>rs_health := (rs_health S)\<lparr>ah_unapplied := no_changes\<rparr>\<rparr>)"

text \<open>The three parts of \<open>apply_pending\<close> between which another thread may act: taking the changes under the
  locks, publishing what the apply gave, journaling it for a running rebuild and noting the rest.\<close>

definition apply_take :: "'i root_session \<Rightarrow> (change_set \<times> change_set) \<times> 'i root_session" where
  "apply_take S =
     (case take_unapplied (S\<lparr>rs_pending := no_changes\<rparr>) of (older, S') \<Rightarrow> ((older, rs_pending S), S'))"

definition apply_publish :: "('b, 'i) engine \<Rightarrow> 'b option \<Rightarrow> 'i root_session \<Rightarrow> 'i root_session" where
  "apply_publish E inc S = (case inc of None \<Rightarrow> S | Some b \<Rightarrow> S\<lparr>rs_state := ReadyIndex (en_repo E b)\<rparr>)"

definition journal_due :: "'b option \<Rightarrow> 'i root_session \<Rightarrow> bool" where
  "journal_due inc S \<longleftrightarrow> inc \<noteq> None \<and> rs_rebuild_inflight S"

definition journal_merge :: "change_set \<Rightarrow> 'i root_session \<Rightarrow> 'i root_session" where
  "journal_merge applied S = S\<lparr>rs_rebuild_journal := changes_merge (rs_rebuild_journal S) applied\<rparr>"

definition apply_journal :: "'b option \<Rightarrow> change_set \<Rightarrow> 'i root_session \<Rightarrow> 'i root_session" where
  "apply_journal inc applied S = (if journal_due inc S then journal_merge applied S else S)"

definition apply_pending :: "('b, 'i) engine \<Rightarrow> (nat \<Rightarrow> nat) \<Rightarrow> 'i root_session \<Rightarrow> bool \<times> 'i root_session" where
  "apply_pending E T S =
     (case rs_state S of
        ReadyIndex previous \<Rightarrow>
          (case apply_take S of ((older, changes), S1) \<Rightarrow>
             if changes_is_empty changes \<and> changes_is_empty older then (True, S1)
             else (case session_opts E (T 0) S1 of (opts, S2) \<Rightarrow>
               (case apply_with_fallback E opts (T 1) (T 2) (en_incremental E previous) older changes of (inc, left) \<Rightarrow>
                  (changes_is_empty left,
                   note_unapplied (T 3) left
                     (apply_journal inc (changes_merge older changes) (apply_publish E inc S2))))))
      | _ \<Rightarrow> (True, S))"

definition buffer_changes :: "change_set \<Rightarrow> 'i root_session \<Rightarrow> 'i root_session" where
  "buffer_changes changes S = S\<lparr>rs_pending := changes_merge (rs_pending S) changes\<rparr>"

definition apply_or_buffer ::
  "('b, 'i) engine \<Rightarrow> (nat \<Rightarrow> nat) \<Rightarrow> change_set \<Rightarrow> 'i root_session \<Rightarrow> 'i root_session" where
  "apply_or_buffer E T changes S = snd (apply_pending E T (buffer_changes changes S))"

text \<open>Publishing the cold build: what was buffered meanwhile is applied first.\<close>

definition publish_apply ::
  "('b, 'i) engine \<Rightarrow> index_options \<Rightarrow> (nat \<Rightarrow> nat) \<Rightarrow> 'i \<Rightarrow> change_set \<Rightarrow> change_set \<Rightarrow> 'i root_session
     \<Rightarrow> 'i \<times> 'i root_session" where
  "publish_apply E opts T index older replay S =
     (case apply_with_fallback E opts (T 1) (T 2) (en_incremental E index) older replay of (inc, left) \<Rightarrow>
        ((case inc of None \<Rightarrow> index | Some b \<Rightarrow> en_repo E b), note_unapplied (T 3) left S))"

definition publish_ready ::
  "('b, 'i) engine \<Rightarrow> (nat \<Rightarrow> nat) \<Rightarrow> 'i index_state \<Rightarrow> 'i root_session \<Rightarrow> 'i root_session" where
  "publish_ready E T outcome S =
     (case session_opts E (T 0) S of (opts, S1) \<Rightarrow>
      case (case outcome of
          ReadyIndex index \<Rightarrow>
            (case apply_take S1 of ((older, drained), S2) \<Rightarrow>
             case publish_apply E opts T index older drained S2 of (index', S3) \<Rightarrow> (ReadyIndex index', S3))
        | _ \<Rightarrow> (outcome, S1)) of (outcome', S4) \<Rightarrow>
      if rs_closed S4 then teardown S4 else S4\<lparr>rs_state := outcome'\<rparr>)"

section \<open>The background rebuild\<close>

text \<open>\<open>trigger_background_rebuild_arc\<close>: claim the flag, clear the journal, hand the failures over.\<close>

definition rebuild_claim :: "'i root_session \<Rightarrow> bool \<times> 'i root_session" where
  "rebuild_claim S = (if rs_rebuild_inflight S then (False, S) else (True, S\<lparr>rs_rebuild_inflight := True\<rparr>))"

definition rebuild_clear :: "'i root_session \<Rightarrow> 'i root_session" where
  "rebuild_clear S = S\<lparr>rs_rebuild_journal := no_changes\<rparr>"

definition rebuild_take :: "'i root_session \<Rightarrow> 'i root_session" where
  "rebuild_take S =
     (case take_unapplied S of (taken, S') \<Rightarrow>
        S'\<lparr>rs_health := (rs_health S')\<lparr>ah_in_rebuild := changes_merge (ah_in_rebuild (rs_health S')) taken\<rparr>\<rparr>)"

text \<open>True when the rebuild thread is to be started; a thread that cannot be spawned is ignored (\<open>.ok()\<close>).\<close>

definition trigger_background_rebuild :: "'i root_session \<Rightarrow> bool \<times> 'i root_session" where
  "trigger_background_rebuild S =
     (case rebuild_claim S of (won, S') \<Rightarrow> if won then (True, rebuild_take (rebuild_clear S')) else (False, S'))"

definition rebuild_health :: "nat \<Rightarrow> bool \<Rightarrow> 'i root_session \<Rightarrow> 'i root_session" where
  "rebuild_health now rebuilt S =
     (let H = rs_health S; covered = ah_in_rebuild H; H' = H\<lparr>ah_in_rebuild := no_changes\<rparr>
      in S\<lparr>rs_health :=
           (if rebuilt then H'\<lparr>ah_rebuild_backoff_until := None\<rparr>
            else H'\<lparr>ah_unapplied := changes_merge (ah_unapplied H') covered,
                    ah_rebuild_backoff_until := Some (now + rebuild_backoff)\<rparr>)\<rparr>)"

definition publish_rebuilt ::
  "('b, 'i) engine \<Rightarrow> (nat \<Rightarrow> nat) \<Rightarrow> 'i index_state \<Rightarrow> 'i root_session \<Rightarrow> 'i root_session" where
  "publish_rebuilt E T outcome S =
     (case session_opts E (T 0) S of (opts, S1) \<Rightarrow>
      let replay = changes_merge (rs_rebuild_journal S1) (rs_pending S1);
          S2 = S1\<lparr>rs_rebuild_journal := no_changes, rs_pending := no_changes\<rparr>
      in case outcome of
          ReadyIndex index \<Rightarrow>
            (case take_unapplied S2 of (older, S3) \<Rightarrow>
             case publish_apply E opts T index older replay S3 of (index', S4) \<Rightarrow>
               S4\<lparr>rs_state := ReadyIndex index'\<rparr>)
        | _ \<Rightarrow> S2\<lparr>rs_state := outcome\<rparr>)"

text \<open>The body of the rebuild thread, run without interruption.\<close>

definition rebuild_thread ::
  "('b, 'i) engine \<Rightarrow> (nat \<Rightarrow> nat) \<Rightarrow> 'i root_session \<Rightarrow> 'i root_session" where
  "rebuild_thread E T S =
     (let started = T 0;
          (persist, slot) = refresh_leader (rs_indexer_lock S) (en_lock E (T 1));
          S1 = S\<lparr>rs_indexer_lock := slot\<rparr>;
          outcome = build_session_index E persist (T 2) (T 3) S1;
          rebuilt = (case outcome of Some (ReadyIndex _) \<Rightarrow> True | _ \<Rightarrow> False);
          S2 = rebuild_health (T 4) rebuilt S1;
          S3 = (case outcome of
                  Some (ReadyIndex index) \<Rightarrow>
                    (let P = publish_rebuilt E (\<lambda>k. T (5 + k)) (ReadyIndex index) S2
                     in P\<lparr>rs_freshness := map_option (clear_suspects_through started) (rs_freshness P)\<rparr>)
                | _ \<Rightarrow> S2)
      in S3\<lparr>rs_rebuild_inflight := False\<rparr>)"

section \<open>The query barrier\<close>

fun path_text :: "rel_path \<Rightarrow> string" where "path_text (RelPath s) = s"

definition incremental_failure_note :: "nat \<Rightarrow> string list \<Rightarrow> string" where
  "incremental_failure_note cnt sample =
     ''Index may be stale: incremental update failed for '' @ show_nat cnt @ '' files ('' @ join_with '', '' sample
     @ (if length sample < cnt then '' etc.'' else [])
     @ ''); retried and triggered a background rebuild; results involving these files may be outdated. confidence: unknown''"

text \<open>\<open>Option::is_none_or\<close> on an earliest instant.\<close>

definition due :: "nat option \<Rightarrow> nat \<Rightarrow> bool" where
  "due at now = (case at of None \<Rightarrow> True | Some t \<Rightarrow> t \<le> now)"

definition missing_changes :: "'i root_session \<Rightarrow> change_set" where
  "missing_changes S = changes_merge (ah_in_rebuild (rs_health S)) (ah_unapplied (rs_health S))"

definition settle_unapplied ::
  "('b, 'i) engine \<Rightarrow> (nat \<Rightarrow> nat) \<Rightarrow> 'i root_session \<Rightarrow> string option \<times> 'i root_session" where
  "settle_unapplied E T S =
     (let H = rs_health S
      in if changes_is_empty (ah_unapplied H) \<and> changes_is_empty (ah_in_rebuild H) then (None, S)
         else (let S1 = (if \<not> changes_is_empty (ah_unapplied H) \<and> due (ah_next_inline_retry H) (T 0)
                         then snd (apply_pending E (\<lambda>k. T (1 + k)) S) else S);
                   missing = missing_changes S1
               in if changes_is_empty missing then (None, S1)
                  else (let needs = \<not> changes_is_empty (ah_unapplied (rs_health S1))
                                    \<and> due (ah_rebuild_backoff_until (rs_health S1)) (T 5);
                            S2 = (if needs then snd (trigger_background_rebuild S1) else S1)
                        in (Some (incremental_failure_note (changes_len missing)
                                   (map (path_text \<circ> snd) (take 3 (changes_iter missing)))), S2))))"

text \<open>\<open>inline_repair\<close>: \<open>admit\<close> is \<open>path_admission\<close> giving \<open>Indexed\<close>.\<close>

definition inline_repair ::
  "('b, 'i) engine \<Rightarrow> disk \<Rightarrow> int \<Rightarrow> (rel_path \<Rightarrow> bool) \<Rightarrow> (nat \<Rightarrow> nat) \<Rightarrow> rel_path list \<Rightarrow> 'i root_session
     \<Rightarrow> 'i root_session" where
  "inline_repair E D wall admit T paths S =
     (let asked = \<lparr>ch_added = [], ch_modified = filter admit paths, ch_removed = filter (\<lambda>p. \<not> admit p) paths\<rparr>;
          (repair, cache) = filter_changeset D wall asked (rs_shebang S);
          S1 = S\<lparr>rs_shebang := cache\<rparr>
      in if changes_is_empty repair then S1
         else (let S2 = S1\<lparr>rs_freshness :=
                             map_option (note_repaired (map snd (changes_iter repair))) (rs_freshness S1)\<rparr>
               in snd (apply_pending E T (buffer_changes repair S2))))"

text \<open>The wait of ten-millisecond polls: each poll sees the log at an instant; the list of polls is what
  the watcher lets this call see until it stops.\<close>

fun wait_watermark_advance :: "nat \<Rightarrow> nat \<Rightarrow> (nat \<times> freshness) list \<Rightarrow> bool \<times> freshness option" where
  "wait_watermark_advance before deadline [] = (False, None)"
| "wait_watermark_advance before deadline ((now, l) # polls) =
     (if fr_watermark l \<noteq> before then (True, Some l)
      else if deadline \<le> now then (False, Some l)
      else case wait_watermark_advance before deadline polls of
          (ok, None) \<Rightarrow> (ok, Some l) | (ok, Some l') \<Rightarrow> (ok, Some l'))"

definition barrier_verify_wait :: nat where "barrier_verify_wait = 2 * 10 ^ 9"

definition verification_timeout_note :: string where
  "verification_timeout_note = ''Index may be stale: change verification did not finish within 2s; this result is based on an unverified index. confidence: unknown''"

datatype barrier_effect = NoEffect | StaleNote string

definition session_window :: "mcp_knobs \<Rightarrow> nat option \<Rightarrow> nat" where
  "session_window K cycle =
     fresh_window_for
       (case kn_watch_mode K of None \<Rightarrow> None | Some WatchEvents \<Rightarrow> Some Events | Some (WatchPoll _) \<Rightarrow> Some Polling)
       (kn_safety_interval K) cycle"

record world_view =
  wv_disk :: disk
  wv_wall :: int
  wv_admit :: "rel_path \<Rightarrow> bool"
  wv_polls :: "freshness \<Rightarrow> (nat \<times> freshness) list"

text \<open>The case \<open>Repair(paths) if paths.is_empty()\<close>: force a verification and wait for it.\<close>

definition verify_idle ::
  "('b, 'i) engine \<Rightarrow> world_view \<Rightarrow> (nat \<Rightarrow> nat) \<Rightarrow> freshness \<Rightarrow> 'i root_session
     \<Rightarrow> barrier_effect \<times> 'i root_session" where
  "verify_idle E V T l S =
     (let asked = request_verification l;
          (advanced, seen) = wait_watermark_advance (fr_watermark l) (T 0 + barrier_verify_wait) (wv_polls V asked);
          l' = (case seen of None \<Rightarrow> asked | Some l' \<Rightarrow> l');
          S1 = S\<lparr>rs_freshness := Some l'\<rparr>
      in if \<not> advanced then (StaleNote verification_timeout_note, S1)
         else (let found = suspect_paths (fr_watermark l') l'
               in if fr_distrusted l' \<or> kn_barrier_max (rs_knobs S1) < length found
                  then (StaleNote (staleness_note (length found)), snd (trigger_background_rebuild S1))
                  else if found = [] then (NoEffect, S1)
                  else (let S2 = inline_repair E (wv_disk V) (wv_wall V) (wv_admit V) (\<lambda>k. T (2 + k)) found S1
                        in (NoEffect,
                            S2\<lparr>rs_freshness := map_option (clear_suspects_through (T 1)) (rs_freshness S2)\<rparr>))))"

definition barrier_act ::
  "('b, 'i) engine \<Rightarrow> world_view \<Rightarrow> (nat \<Rightarrow> nat) \<Rightarrow> freshness \<Rightarrow> decision \<Rightarrow> 'i root_session
     \<Rightarrow> barrier_effect \<times> 'i root_session" where
  "barrier_act E V T l d S =
     (case d of
        Fresh \<Rightarrow> (NoEffect, S)
      | Repair paths \<Rightarrow>
          if paths = [] then verify_idle E V (\<lambda>k. T (2 + k)) l S
          else (let S1 = inline_repair E (wv_disk V) (wv_wall V) (wv_admit V) (\<lambda>k. T (2 + k)) paths S
                in (NoEffect, S1\<lparr>rs_freshness := map_option (clear_suspects_through (T 0)) (rs_freshness S1)\<rparr>))
      | Degrade suspects \<Rightarrow> (StaleNote (staleness_note suspects), snd (trigger_background_rebuild S)))"

definition run_barrier ::
  "('b, 'i) engine \<Rightarrow> world_view \<Rightarrow> (nat \<Rightarrow> nat) \<Rightarrow> 'i root_session \<Rightarrow> barrier_effect \<times> 'i root_session" where
  "run_barrier E V T S =
     (case rs_freshness S of
        None \<Rightarrow> (NoEffect, S)
      | Some l \<Rightarrow>
          (let d = decide (T 1) (session_window (rs_knobs S) (poll_cycle l)) (kn_barrier_max (rs_knobs S)) l;
               (effect, S1) = barrier_act E V T l d S;
               (note_text, S2) = settle_unapplied E (\<lambda>k. T (20 + k)) S1
           in (case note_text of
                 None \<Rightarrow> effect
               | Some n \<Rightarrow> (case effect of NoEffect \<Rightarrow> StaleNote n | StaleNote f \<Rightarrow> StaleNote (f @ CHR 0x0A # n)), S2)))"

section \<open>Starting a session\<close>

text \<open>\<open>bootstrap_root\<close>: \<open>watching\<close> is the log of the watcher that \<open>start_watching\<close> starts (\<open>None\<close> when the mode
  is off), and \<open>closed_at k\<close> whether the session had been closed by the k-th look at the flag.\<close>

definition start_watching :: "freshness \<Rightarrow> bool \<Rightarrow> 'i root_session \<Rightarrow> 'i root_session" where
  "start_watching l closed S =
     (let S1 = S\<lparr>rs_watch := True, rs_freshness := Some l, rs_closed := rs_closed S \<or> closed\<rparr>
      in if rs_closed S1 then teardown S1 else S1)"

definition note_closed :: "bool \<Rightarrow> 'i root_session \<Rightarrow> 'i root_session" where
  "note_closed c S = (if c then teardown S else S)"

definition bootstrap_root ::
  "('b, 'i) engine \<Rightarrow> (nat \<Rightarrow> nat) \<Rightarrow> (nat \<Rightarrow> bool) \<Rightarrow> freshness \<Rightarrow> 'i root_session \<Rightarrow> 'i root_session" where
  "bootstrap_root E T closed_at l S =
     (let S0 = note_closed (closed_at 0) S
      in if rs_closed S0 then S0
         else (let (persist, slot) = refresh_leader (rs_indexer_lock S0) (en_lock E (T 0));
                   S1 = S0\<lparr>rs_indexer_lock := slot\<rparr>;
                   S2 = (if kn_watch_mode (rs_knobs S1) = None then S1 else start_watching l (closed_at 1) S1);
                   S3 = note_closed (closed_at 2) S2
               in if rs_closed S3 then teardown S3
                  else (let S4 = note_closed (closed_at 3) S3
                        in case build_session_index E persist (T 1) (T 2) S4 of
                            None \<Rightarrow> teardown S4
                          | Some outcome \<Rightarrow> publish_ready E (\<lambda>k. T (3 + k)) outcome S4)))"

section \<open>Interleavings\<close>

text \<open>The engine with the history of each index: the builds and applies it was made by, and when.\<close>

datatype event = Built nat | Applied nat change_set

definition traced :: "('b, 'i) engine \<Rightarrow> ('b \<times> event list, 'i \<times> event list) engine" where
  "traced E =
     \<lparr>en_changeset = (\<lambda>opts now x changes.
         (case en_changeset E opts now (fst x) changes of Panic \<Rightarrow> Panic
          | Ret b \<Rightarrow> Ret (b, snd x @ [Applied now changes]))),
      en_build = (\<lambda>opts now. (case en_build E opts now of Panic \<Rightarrow> Panic | Ret b \<Rightarrow> Ret (b, [Built now]))),
      en_cancellable = (\<lambda>persist start finish closed.
         (case en_cancellable E persist start finish closed of Panic \<Rightarrow> Panic
          | Ret r \<Rightarrow> Ret (map_option (\<lambda>i. (i, [Built start])) r))),
      en_incremental = (\<lambda>x. map_option (\<lambda>b. (b, snd x)) (en_incremental E (fst x))),
      en_repo = (\<lambda>x. (en_repo E (fst x), snd x)),
      en_lock = en_lock E\<rparr>"

definition covers :: "event list \<Rightarrow> rel_path \<Rightarrow> nat \<Rightarrow> bool" where
  "covers h p t \<longleftrightarrow>
     (\<exists>e\<in>set h. case e of Built s \<Rightarrow> t \<le> s | Applied n changes \<Rightarrow> t \<le> n \<and> p \<in> paths_of changes)"

text \<open>Who holds the \<open>pending\<close> lock, and how far the cold build and the rebuild thread have come.\<close>

datatype ('b, 'i) job =
    LockFree
  | Applying "'i \<times> event list" change_set change_set
  | Journaling "('b \<times> event list) option" change_set change_set
  | Merging change_set change_set
  | Noting change_set
  | PublishingCold "'i \<times> event list" change_set change_set

datatype 'i cold_phase =
    ColdBuilding nat
  | ColdBuilt "('i \<times> event list) index_state"
  | ColdLocked
  | ColdDone

datatype 'i rebuild_phase =
    RebuildIdle
  | RebuildClaimed
  | RebuildCleared
  | RebuildTaken
  | RebuildRunning nat
  | RebuildEnded nat "('i \<times> event list) index_state option"
  | RebuildNoted nat "'i \<times> event list"
  | RebuildPublished

record ('b, 'i) config =
  cf_session :: "('i \<times> event list) root_session"
  cf_clock :: nat
  cf_job :: "('b, 'i) job"
  cf_cold :: "'i cold_phase"
  cf_rebuild :: "'i rebuild_phase"
  cf_noted :: "(rel_path \<times> nat) set"

definition config_start :: "mcp_knobs \<Rightarrow> nat \<Rightarrow> ('b, 'i) config" where
  "config_start knobs start =
     \<lparr>cf_session = session_new knobs, cf_clock = start, cf_job = LockFree, cf_cold = ColdBuilding start,
      cf_rebuild = RebuildIdle, cf_noted = {}\<rparr>"

text \<open>One atomic action of one thread.  \<open>early\<close> allows a rebuild to be triggered before the cold build is
  published, as the code does.  \<open>hand_over\<close> is a batch from the reindex thread or an inline repair, or,
  with no changes, a retry of the failures.\<close>

inductive session_step :: "('b, 'i) engine \<Rightarrow> bool \<Rightarrow> ('b, 'i) config \<Rightarrow> ('b, 'i) config \<Rightarrow> bool"
  for E early where
  hand_over_ready:
    "cf_job c = LockFree \<Longrightarrow> cf_clock c \<le> now \<Longrightarrow> rs_state (cf_session c) = ReadyIndex previous \<Longrightarrow>
     apply_take (buffer_changes changes (cf_session c)) = ((older, newer), S) \<Longrightarrow>
     session_step E early c
       (c\<lparr>cf_session := S, cf_clock := now,
          cf_job := (if changes_is_empty newer \<and> changes_is_empty older then LockFree
                     else Applying previous older newer),
          cf_noted := cf_noted c \<union> paths_of changes \<times> {now}\<rparr>)"
| hand_over_buffer:
    "cf_job c = LockFree \<Longrightarrow> cf_clock c \<le> now \<Longrightarrow> \<forall>i. rs_state (cf_session c) \<noteq> ReadyIndex i \<Longrightarrow>
     session_step E early c
       (c\<lparr>cf_session := buffer_changes changes (cf_session c), cf_clock := now,
          cf_noted := cf_noted c \<union> paths_of changes \<times> {now}\<rparr>)"
| apply_done:
    "cf_job c = Applying previous older newer \<Longrightarrow> cf_clock c \<le> t1 \<Longrightarrow> cf_clock c \<le> t2 \<Longrightarrow> t1 \<le> now \<Longrightarrow> t2 \<le> now \<Longrightarrow>
     session_opts (traced E) t1 (cf_session c) = (opts, S) \<Longrightarrow>
     apply_with_fallback (traced E) opts t1 t2 (en_incremental (traced E) previous) older newer = (inc, left) \<Longrightarrow>
     session_step E early c
       (c\<lparr>cf_session := apply_publish (traced E) inc S, cf_clock := now,
          cf_job := Journaling inc (changes_merge older newer) left\<rparr>)"
| journal_look:
    "cf_job c = Journaling inc applied left \<Longrightarrow>
     session_step E early c
       (c\<lparr>cf_job := (if journal_due inc (cf_session c) then Merging applied left else Noting left)\<rparr>)"
| journal_write:
    "cf_job c = Merging applied left \<Longrightarrow>
     session_step E early c (c\<lparr>cf_session := journal_merge applied (cf_session c), cf_job := Noting left\<rparr>)"
| note_left:
    "cf_job c = Noting left \<Longrightarrow> cf_clock c \<le> now \<Longrightarrow>
     session_step E early c
       (c\<lparr>cf_session := note_unapplied now left (cf_session c), cf_clock := now, cf_job := LockFree\<rparr>)"
| cold_end:
    "cf_cold c = ColdBuilding s \<Longrightarrow> cf_clock c \<le> now \<Longrightarrow>
     build_session_index (traced E) persist s now (cf_session c) = Some outcome \<Longrightarrow>
     session_step E early c (c\<lparr>cf_clock := now, cf_cold := ColdBuilt outcome\<rparr>)"
| cold_cancelled:
    "cf_cold c = ColdBuilding s \<Longrightarrow> cf_clock c \<le> now \<Longrightarrow>
     build_session_index (traced E) persist s now (cf_session c) = None \<Longrightarrow>
     session_step E early c (c\<lparr>cf_session := teardown (cf_session c), cf_clock := now, cf_cold := ColdDone\<rparr>)"
| cold_lock:
    "cf_cold c = ColdBuilt (ReadyIndex index) \<Longrightarrow> cf_job c = LockFree \<Longrightarrow>
     apply_take (cf_session c) = ((older, drained), S) \<Longrightarrow>
     session_step E early c
       (c\<lparr>cf_session := S, cf_job := PublishingCold index older drained, cf_cold := ColdLocked\<rparr>)"
| cold_failed:
    "cf_cold c = ColdBuilt (FailedIndex m) \<Longrightarrow> cf_job c = LockFree \<Longrightarrow>
     session_step E early c
       (c\<lparr>cf_session := (if rs_closed (cf_session c) then teardown (cf_session c)
                         else (cf_session c)\<lparr>rs_state := FailedIndex m\<rparr>), cf_cold := ColdDone\<rparr>)"
| cold_publish:
    "cf_job c = PublishingCold index older drained \<Longrightarrow> \<forall>k. cf_clock c \<le> T k \<and> T k \<le> now \<Longrightarrow>
     session_opts (traced E) (T 0) (cf_session c) = (opts, S) \<Longrightarrow>
     publish_apply (traced E) opts T index older drained S = (index', S') \<Longrightarrow>
     session_step E early c
       (c\<lparr>cf_session := (if rs_closed S' then teardown S' else S'\<lparr>rs_state := ReadyIndex index'\<rparr>),
          cf_clock := now, cf_job := LockFree, cf_cold := ColdDone\<rparr>)"
| rebuild_claimed:
    "early \<or> cf_cold c = ColdDone \<Longrightarrow> rebuild_claim (cf_session c) = (True, S) \<Longrightarrow>
     session_step E early c (c\<lparr>cf_session := S, cf_rebuild := RebuildClaimed\<rparr>)"
| rebuild_cleared:
    "cf_rebuild c = RebuildClaimed \<Longrightarrow>
     session_step E early c (c\<lparr>cf_session := rebuild_clear (cf_session c), cf_rebuild := RebuildCleared\<rparr>)"
| rebuild_taken:
    "cf_rebuild c = RebuildCleared \<Longrightarrow>
     session_step E early c (c\<lparr>cf_session := rebuild_take (cf_session c), cf_rebuild := RebuildTaken\<rparr>)"
| rebuild_started:
    "cf_rebuild c = RebuildTaken \<Longrightarrow> cf_clock c \<le> now \<Longrightarrow>
     session_step E early c (c\<lparr>cf_clock := now, cf_rebuild := RebuildRunning now\<rparr>)"
| rebuild_ended:
    "cf_rebuild c = RebuildRunning s \<Longrightarrow> cf_clock c \<le> now \<Longrightarrow>
     session_step E early c
       (c\<lparr>cf_clock := now,
          cf_rebuild := RebuildEnded s (build_session_index (traced E) persist s now (cf_session c))\<rparr>)"
| rebuild_noted:
    "cf_rebuild c = RebuildEnded s (Some (ReadyIndex index)) \<Longrightarrow> cf_clock c \<le> now \<Longrightarrow>
     session_step E early c
       (c\<lparr>cf_session := rebuild_health now True (cf_session c), cf_clock := now,
          cf_rebuild := RebuildNoted s index\<rparr>)"
| rebuild_failed:
    "cf_rebuild c = RebuildEnded s outcome \<Longrightarrow> \<forall>i. outcome \<noteq> Some (ReadyIndex i) \<Longrightarrow> cf_clock c \<le> now \<Longrightarrow>
     session_step E early c
       (c\<lparr>cf_session := rebuild_health now False (cf_session c), cf_clock := now,
          cf_rebuild := RebuildPublished\<rparr>)"
| rebuild_published:
    "cf_rebuild c = RebuildNoted s index \<Longrightarrow> cf_job c = LockFree \<Longrightarrow> \<forall>k. cf_clock c \<le> T k \<and> T k \<le> now \<Longrightarrow>
     session_step E early c
       (c\<lparr>cf_session := publish_rebuilt (traced E) T (ReadyIndex index) (cf_session c), cf_clock := now,
          cf_rebuild := RebuildPublished\<rparr>)"
| rebuild_finished:
    "cf_rebuild c = RebuildPublished \<Longrightarrow>
     session_step E early c
       (c\<lparr>cf_session := (cf_session c)\<lparr>rs_rebuild_inflight := False\<rparr>, cf_rebuild := RebuildIdle\<rparr>)"
| evicted:
    "session_step E early c (c\<lparr>cf_session := teardown (cf_session c)\<rparr>)"

inductive session_reach :: "('b, 'i) engine \<Rightarrow> bool \<Rightarrow> ('b, 'i) config \<Rightarrow> ('b, 'i) config \<Rightarrow> bool"
  for E early where
  reach_refl: "session_reach E early c c"
| reach_step: "session_reach E early c c1 \<Longrightarrow> session_step E early c1 c2 \<Longrightarrow> session_reach E early c c2"

section \<open>Nothing handed over is lost\<close>

fun job_paths :: "('b, 'i) job \<Rightarrow> rel_path set" where
  "job_paths LockFree = {}"
| "job_paths (Applying _ older newer) = paths_of older \<union> paths_of newer"
| "job_paths (Journaling _ _ left) = paths_of left"
| "job_paths (Merging _ left) = paths_of left"
| "job_paths (Noting left) = paths_of left"
| "job_paths (PublishingCold _ older drained) = paths_of older \<union> paths_of drained"

text \<open>Paths still to be applied: buffered, failed, or in the hands of the thread that holds the lock.\<close>

definition waiting :: "('b, 'i) config \<Rightarrow> rel_path set" where
  "waiting c = paths_of (rs_pending (cf_session c)) \<union> paths_of (ah_unapplied (rs_health (cf_session c)))
     \<union> job_paths (cf_job c)"

definition served :: "('b, 'i) config \<Rightarrow> rel_path \<Rightarrow> nat \<Rightarrow> bool" where
  "served c p t \<longleftrightarrow> (\<exists>x. rs_state (cf_session c) = ReadyIndex x \<and> covers (snd x) p t)"

fun rebuild_start :: "'i rebuild_phase \<Rightarrow> nat option" where
  "rebuild_start (RebuildRunning s) = Some s"
| "rebuild_start (RebuildEnded s _) = Some s"
| "rebuild_start (RebuildNoted s _) = Some s"
| "rebuild_start _ = None"

fun handed_phase :: "'i rebuild_phase \<Rightarrow> bool" where
  "handed_phase RebuildTaken = True"
| "handed_phase (RebuildRunning _) = True"
| "handed_phase (RebuildEnded _ _) = True"
| "handed_phase _ = False"

text \<open>What a running rebuild will bring: what it was handed, or, once it has ended well, all it read.\<close>

definition rebuilding :: "('b, 'i) config \<Rightarrow> rel_path \<Rightarrow> nat \<Rightarrow> bool" where
  "rebuilding c p t \<longleftrightarrow>
     p \<in> paths_of (ah_in_rebuild (rs_health (cf_session c))) \<and> handed_phase (cf_rebuild c)
       \<and> (\<forall>s. rebuild_start (cf_rebuild c) = Some s \<longrightarrow> t \<le> s)
     \<or> (\<exists>s x. cf_rebuild c = RebuildNoted s x \<and> t \<le> s)"

text \<open>What publishing the rebuild would not take away.\<close>

fun job_journals :: "('b, 'i) job \<Rightarrow> rel_path set" where
  "job_journals (Journaling (Some _) applied _) = paths_of applied"
| "job_journals (Merging applied _) = paths_of applied"
| "job_journals _ = {}"

definition survives :: "('b, 'i) config \<Rightarrow> rel_path \<Rightarrow> nat \<Rightarrow> bool" where
  "survives c p t \<longleftrightarrow>
     (\<forall>s. rebuild_start (cf_rebuild c) = Some s \<longrightarrow>
        t \<le> s \<or> p \<in> waiting c \<union> paths_of (rs_rebuild_journal (cf_session c)) \<union> job_journals (cf_job c))"

fun rebuilt_covers :: "'i rebuild_phase \<Rightarrow> bool" where
  "rebuilt_covers (RebuildEnded s (Some (ReadyIndex x))) = (\<forall>p t. t \<le> s \<longrightarrow> covers (snd x) p t)"
| "rebuilt_covers (RebuildNoted s x) = (\<forall>p t. t \<le> s \<longrightarrow> covers (snd x) p t)"
| "rebuilt_covers _ = True"

definition coherent :: "bool \<Rightarrow> ('b, 'i) config \<Rightarrow> bool" where
  "coherent early c \<longleftrightarrow>
     (rs_rebuild_inflight (cf_session c) \<longleftrightarrow> cf_rebuild c \<noteq> RebuildIdle)
     \<and> rebuilt_covers (cf_rebuild c)
     \<and> (\<not> handed_phase (cf_rebuild c) \<longrightarrow> paths_of (ah_in_rebuild (rs_health (cf_session c))) = {})
     \<and> (\<forall>x o' n. cf_job c = Applying x o' n \<longrightarrow> rs_state (cf_session c) = ReadyIndex x)
     \<and> (\<not> early \<longrightarrow> cf_cold c \<noteq> ColdDone \<longrightarrow> cf_rebuild c = RebuildIdle \<and> rs_state (cf_session c) = Building)
     \<and> (\<forall>x o' n. cf_job c = PublishingCold x o' n \<longrightarrow> cf_cold c = ColdLocked)"

definition accounted :: "('b, 'i) config \<Rightarrow> bool" where
  "accounted c \<longleftrightarrow>
     (\<forall>(p, t)\<in>cf_noted c. t \<le> cf_clock c \<and> (p \<in> waiting c \<or> served c p t \<or> rebuilding c p t) \<and> survives c p t)"

subsection \<open>What each operation does to the paths\<close>

lemma paths_merge_none [simp]: "changes_is_empty c \<Longrightarrow> paths_of c = {}"
  by (simp add: changes_is_empty_paths)

lemma buffer_simps [simp]:
  "rs_pending (buffer_changes cs S) = changes_merge (rs_pending S) cs"
  "rs_health (buffer_changes cs S) = rs_health S" "rs_state (buffer_changes cs S) = rs_state S"
  "rs_rebuild_journal (buffer_changes cs S) = rs_rebuild_journal S"
  "rs_rebuild_inflight (buffer_changes cs S) = rs_rebuild_inflight S" "rs_closed (buffer_changes cs S) = rs_closed S"
  by (simp_all add: buffer_changes_def)

lemma apply_take_simps:
  assumes "apply_take S = ((older, newer), S')"
  shows "older = ah_unapplied (rs_health S)" "newer = rs_pending S" "rs_pending S' = no_changes"
    "ah_unapplied (rs_health S') = no_changes" "ah_in_rebuild (rs_health S') = ah_in_rebuild (rs_health S)"
    "rs_state S' = rs_state S" "rs_rebuild_journal S' = rs_rebuild_journal S"
    "rs_rebuild_inflight S' = rs_rebuild_inflight S" "rs_closed S' = rs_closed S"
  using assms by (auto simp: apply_take_def take_unapplied_def)

lemma session_opts_simps:
  assumes "session_opts E now S = (opts, S')"
  shows "rs_pending S' = rs_pending S" "rs_health S' = rs_health S" "rs_state S' = rs_state S"
    "rs_rebuild_journal S' = rs_rebuild_journal S" "rs_rebuild_inflight S' = rs_rebuild_inflight S"
    "rs_closed S' = rs_closed S"
  using assms by (auto simp: session_opts_def split: prod.splits)

lemma note_unapplied_simps [simp]:
  "paths_of (ah_unapplied (rs_health (note_unapplied now left S)))
     = paths_of (ah_unapplied (rs_health S)) \<union> paths_of left"
  "ah_in_rebuild (rs_health (note_unapplied now left S)) = ah_in_rebuild (rs_health S)"
  "rs_pending (note_unapplied now left S) = rs_pending S" "rs_state (note_unapplied now left S) = rs_state S"
  "rs_rebuild_journal (note_unapplied now left S) = rs_rebuild_journal S"
  "rs_rebuild_inflight (note_unapplied now left S) = rs_rebuild_inflight S"
  "rs_closed (note_unapplied now left S) = rs_closed S"
  by (auto simp: note_unapplied_def Let_def)

lemma rebuild_take_simps [simp]:
  "ah_unapplied (rs_health (rebuild_take S)) = no_changes"
  "paths_of (ah_in_rebuild (rs_health (rebuild_take S)))
     = paths_of (ah_in_rebuild (rs_health S)) \<union> paths_of (ah_unapplied (rs_health S))"
  "rs_pending (rebuild_take S) = rs_pending S" "rs_state (rebuild_take S) = rs_state S"
  "rs_rebuild_journal (rebuild_take S) = rs_rebuild_journal S"
  "rs_rebuild_inflight (rebuild_take S) = rs_rebuild_inflight S" "rs_closed (rebuild_take S) = rs_closed S"
  by (simp_all add: rebuild_take_def take_unapplied_def)

lemma rebuild_health_simps [simp]:
  "ah_in_rebuild (rs_health (rebuild_health now ok S)) = no_changes"
  "paths_of (ah_unapplied (rs_health (rebuild_health now ok S))) = paths_of (ah_unapplied (rs_health S))
     \<union> (if ok then {} else paths_of (ah_in_rebuild (rs_health S)))"
  "rs_pending (rebuild_health now ok S) = rs_pending S" "rs_state (rebuild_health now ok S) = rs_state S"
  "rs_rebuild_journal (rebuild_health now ok S) = rs_rebuild_journal S"
  "rs_rebuild_inflight (rebuild_health now ok S) = rs_rebuild_inflight S"
  "rs_closed (rebuild_health now ok S) = rs_closed S"
  by (auto simp: rebuild_health_def Let_def)

lemma journal_merge_simps [simp]:
  "rs_rebuild_journal (journal_merge cs S) = changes_merge (rs_rebuild_journal S) cs"
  "rs_health (journal_merge cs S) = rs_health S" "rs_pending (journal_merge cs S) = rs_pending S"
  "rs_state (journal_merge cs S) = rs_state S" "rs_rebuild_inflight (journal_merge cs S) = rs_rebuild_inflight S"
  "rs_closed (journal_merge cs S) = rs_closed S"
  by (simp_all add: journal_merge_def)

subsection \<open>What an apply covers\<close>

lemma covers_snoc: "covers (h @ [e]) p t \<longleftrightarrow>
    covers h p t \<or> (case e of Built s \<Rightarrow> t \<le> s | Applied n cs \<Rightarrow> t \<le> n \<and> p \<in> paths_of cs)"
  by (auto simp: covers_def)

lemma traced_apply:
  assumes "apply_reindex (traced E) opts now (en_incremental (traced E) x) cs = Inr y" and "t \<le> now"
    and "covers (snd x) p t \<or> p \<in> paths_of cs"
  shows "covers (snd y) p t"
  using assms
  by (auto simp: apply_reindex_def traced_def covers_snoc covers_def split: option.splits run.splits)

lemma fallback_covers:
  assumes f: "apply_with_fallback (traced E) opts t1 t2 (en_incremental (traced E) x) older newer = (inc, left)"
    and t: "t \<le> t1" "t \<le> t2"
  shows "case inc of
      None \<Rightarrow> paths_of left = paths_of older \<union> paths_of newer
    | Some y \<Rightarrow> (covers (snd x) p t \<longrightarrow> covers (snd y) p t)
        \<and> (p \<in> paths_of older \<union> paths_of newer \<longrightarrow> p \<in> paths_of left \<or> covers (snd y) p t)"
proof -
  let ?all = "changes_merge older newer"
  consider "inc = None" "left = ?all"
    | y where "inc = Some y" "apply_reindex (traced E) opts t1 (en_incremental (traced E) x) ?all = Inr y"
    | y where "inc = Some y" "left = older"
        "apply_reindex (traced E) opts t2 (en_incremental (traced E) x) newer = Inr y"
    using f by (auto simp: apply_with_fallback_def Let_def split: if_splits sum.splits)
  then show ?thesis
  proof cases
    case 2
    then show ?thesis using traced_apply [OF 2(2) t(1), of p] by auto
  next
    case 3
    then show ?thesis using traced_apply [OF 3(3) t(2), of p] by auto
  qed simp
qed

lemma publish_apply_covers:
  assumes f: "publish_apply (traced E) opts T x older replay S = (y, S')" and t: "t \<le> T 1" "t \<le> T 2"
  shows "(covers (snd x) p t \<longrightarrow> covers (snd y) p t)
    \<and> (p \<in> paths_of older \<union> paths_of replay \<longrightarrow> p \<in> paths_of (ah_unapplied (rs_health S')) \<or> covers (snd y) p t)
    \<and> paths_of (ah_unapplied (rs_health S)) \<subseteq> paths_of (ah_unapplied (rs_health S'))"
proof -
  obtain inc left where a: "apply_with_fallback (traced E) opts (T 1) (T 2) (en_incremental (traced E) x) older replay
      = (inc, left)" by fastforce
  have y: "y = (case inc of None \<Rightarrow> x | Some b \<Rightarrow> en_repo (traced E) b)" "S' = note_unapplied (T 3) left S"
    using f a by (simp_all add: publish_apply_def)
  have "snd (en_repo (traced E) b) = snd b" for b by (simp add: traced_def)
  with y fallback_covers [OF a t, of p] show ?thesis by (auto split: option.splits)
qed

lemma publish_apply_simps:
  assumes "publish_apply E opts T x older replay S = (y, S')"
  shows "ah_in_rebuild (rs_health S') = ah_in_rebuild (rs_health S)" "rs_pending S' = rs_pending S"
    "rs_state S' = rs_state S" "rs_rebuild_journal S' = rs_rebuild_journal S"
    "rs_rebuild_inflight S' = rs_rebuild_inflight S" "rs_closed S' = rs_closed S"
  using assms by (auto simp: publish_apply_def split: prod.splits)

subsection \<open>The invariant\<close>

lemma teardown_simps [simp]:
  "rs_closed (teardown S)" "rs_state (teardown S) = rs_state S" "rs_health (teardown S) = rs_health S"
  "rs_pending (teardown S) = rs_pending S" "rs_rebuild_journal (teardown S) = rs_rebuild_journal S"
  "rs_rebuild_inflight (teardown S) = rs_rebuild_inflight S"
  by (simp_all add: teardown_def)

lemma rebuild_claim_simps:
  assumes "rebuild_claim S = (True, S')"
  shows "\<not> rs_rebuild_inflight S" "rs_rebuild_inflight S'" "rs_state S' = rs_state S" "rs_health S' = rs_health S"
    "rs_pending S' = rs_pending S" "rs_rebuild_journal S' = rs_rebuild_journal S" "rs_closed S' = rs_closed S"
  using assms by (auto simp: rebuild_claim_def split: if_splits)

lemma rebuild_clear_simps [simp]:
  "rs_rebuild_journal (rebuild_clear S) = no_changes" "rs_state (rebuild_clear S) = rs_state S"
  "rs_health (rebuild_clear S) = rs_health S" "rs_pending (rebuild_clear S) = rs_pending S"
  "rs_rebuild_inflight (rebuild_clear S) = rs_rebuild_inflight S" "rs_closed (rebuild_clear S) = rs_closed S"
  by (simp_all add: rebuild_clear_def)

lemma apply_publish_simps [simp]:
  "rs_health (apply_publish E inc S) = rs_health S" "rs_pending (apply_publish E inc S) = rs_pending S"
  "rs_rebuild_journal (apply_publish E inc S) = rs_rebuild_journal S"
  "rs_rebuild_inflight (apply_publish E inc S) = rs_rebuild_inflight S"
  "rs_closed (apply_publish E inc S) = rs_closed S"
  "rs_state (apply_publish E inc S) = (case inc of None \<Rightarrow> rs_state S | Some b \<Rightarrow> ReadyIndex (en_repo E b))"
  by (simp_all add: apply_publish_def split: option.split)

lemma publish_rebuilt_simps:
  fixes x :: "'i \<times> event list"
  assumes "\<forall>k. clock \<le> T k" and "S' = publish_rebuilt (traced E) T (ReadyIndex x) S"
  shows "ah_in_rebuild (rs_health S') = ah_in_rebuild (rs_health S)" "rs_pending S' = no_changes"
    "rs_rebuild_journal S' = no_changes"
    "rs_rebuild_inflight S' = rs_rebuild_inflight S" "rs_closed S' = rs_closed S"
    "\<exists>y. rs_state S' = ReadyIndex y \<and> (\<forall>p. \<forall>t\<in>{..clock}. (covers (snd x) p t \<longrightarrow> covers (snd y) p t)
       \<and> (p \<in> paths_of (rs_rebuild_journal S) \<union> paths_of (rs_pending S) \<union> paths_of (ah_unapplied (rs_health S))
          \<longrightarrow> p \<in> paths_of (ah_unapplied (rs_health S')) \<or> covers (snd y) p t))"
proof -
  obtain opts S1 where o: "session_opts (traced E) (T 0) S = (opts, S1)" by fastforce
  note o' = session_opts_simps [OF o]
  define replay where "replay = changes_merge (rs_rebuild_journal S1) (rs_pending S1)"
  define S2 where "S2 = S1\<lparr>rs_rebuild_journal := no_changes, rs_pending := no_changes\<rparr>"
  obtain older S3 where u: "take_unapplied S2 = (older, S3)" by fastforce
  have u': "older = ah_unapplied (rs_health S)" "ah_unapplied (rs_health S3) = no_changes"
    "ah_in_rebuild (rs_health S3) = ah_in_rebuild (rs_health S)" "rs_pending S3 = no_changes"
    "rs_rebuild_journal S3 = no_changes" "rs_rebuild_inflight S3 = rs_rebuild_inflight S" "rs_closed S3 = rs_closed S"
    using u o' by (auto simp: take_unapplied_def S2_def)
  obtain y S4 where p: "publish_apply (traced E) opts T x older replay S3 = (y, S4)" by fastforce
  have S': "S' = S4\<lparr>rs_state := ReadyIndex y\<rparr>"
    using assms(2) o u p by (simp add: publish_rebuilt_def replay_def S2_def)
  note p' = publish_apply_simps [OF p]
  show "ah_in_rebuild (rs_health S') = ah_in_rebuild (rs_health S)" "rs_pending S' = no_changes"
    "rs_rebuild_journal S' = no_changes" "rs_rebuild_inflight S' = rs_rebuild_inflight S" "rs_closed S' = rs_closed S"
    by (simp_all add: S' p' u')
  have "(covers (snd x) q t \<longrightarrow> covers (snd y) q t)
       \<and> (q \<in> paths_of (rs_rebuild_journal S) \<union> paths_of (rs_pending S) \<union> paths_of (ah_unapplied (rs_health S))
          \<longrightarrow> q \<in> paths_of (ah_unapplied (rs_health S')) \<or> covers (snd y) q t)" if "t \<le> clock" for q t
  proof -
    have "t \<le> T 1" "t \<le> T 2" using assms(1) that order_trans by blast+
    from publish_apply_covers [OF p this, of q] show ?thesis by (auto simp: S' u' replay_def o')
  qed
  then show "\<exists>y. rs_state S' = ReadyIndex y \<and> (\<forall>p. \<forall>t\<in>{..clock}. (covers (snd x) p t \<longrightarrow> covers (snd y) p t)
       \<and> (p \<in> paths_of (rs_rebuild_journal S) \<union> paths_of (rs_pending S) \<union> paths_of (ah_unapplied (rs_health S))
          \<longrightarrow> p \<in> paths_of (ah_unapplied (rs_health S')) \<or> covers (snd y) p t))"
    by (intro exI [of _ y]) (simp add: S')
qed

lemma ended_covers: "rebuilt_covers (RebuildEnded s (build_session_index (traced E) persist s now S))"
  by (auto simp: build_session_index_def traced_def covers_def split: run.splits option.splits)

lemma coherent_step:
  assumes "session_step E early c c'" and "coherent early c"
  shows "rs_closed (cf_session c') \<or> coherent early c'"
  using assms
proof cases
  case (apply_done previous older newer t1 t2 now opts S inc left)
  then show ?thesis using assms(2)
    by (auto simp: coherent_def session_opts_simps [OF apply_done(7)] split: option.splits)
next
  case (cold_publish index older drained T now opts S index' S')
  then show ?thesis using assms(2)
    by (auto simp: coherent_def session_opts_simps [OF cold_publish(4)] publish_apply_simps [OF cold_publish(5)])
next
  case (rebuild_published s index T now)
  have "\<forall>k. cf_clock c \<le> T k" using rebuild_published by simp
  from publish_rebuilt_simps [OF this refl, of E index "cf_session c"] show ?thesis
    using assms(2) rebuild_published by (auto simp: coherent_def)
next
  case (rebuild_ended s now persist)
  then show ?thesis using assms(2) ended_covers [of s E persist now "cf_session c"]
    by (auto simp: coherent_def)
qed (auto simp: coherent_def apply_take_simps rebuild_claim_simps)

lemma accounted_change:
  assumes "accounted c" and "cf_noted c' = cf_noted c" and "cf_clock c \<le> cf_clock c'"
    and "\<And>p t. t \<le> cf_clock c \<Longrightarrow> p \<in> waiting c \<or> served c p t \<or> rebuilding c p t \<Longrightarrow> survives c p t \<Longrightarrow>
      (p \<in> waiting c' \<or> served c' p t \<or> rebuilding c' p t) \<and> survives c' p t"
  shows "accounted c'"
  unfolding accounted_def assms(2)
proof clarify
  fix p t assume "(p, t) \<in> cf_noted c"
  with assms(1) have "t \<le> cf_clock c" "p \<in> waiting c \<or> served c p t \<or> rebuilding c p t" "survives c p t"
    by (auto simp: accounted_def)
  with assms(3) assms(4) [of t p] show "t \<le> cf_clock c' \<and> (p \<in> waiting c' \<or> served c' p t \<or> rebuilding c' p t) \<and> survives c' p t"
    by simp
qed

lemmas account_defs = waiting_def served_def rebuilding_def survives_def

lemma accounted_hand_over:
  assumes "accounted c" and "cf_job c = LockFree" and "cf_clock c \<le> now"
    and "cf_session c' = S" and "cf_clock c' = now" and "cf_rebuild c' = cf_rebuild c"
    and "cf_noted c' = cf_noted c \<union> paths_of changes \<times> {now}"
    and "waiting c' = waiting c \<union> paths_of changes" and "job_journals (cf_job c') = {}"
    and "rs_state S = rs_state (cf_session c)" and "rs_rebuild_journal S = rs_rebuild_journal (cf_session c)"
    and "ah_in_rebuild (rs_health S) = ah_in_rebuild (rs_health (cf_session c))"
  shows "accounted c'"
  unfolding accounted_def assms(7)
proof clarify
  fix p t assume "(p, t) \<in> cf_noted c \<union> paths_of changes \<times> {now}"
  then consider "(p, t) \<in> cf_noted c" | "p \<in> paths_of changes" "t = now" by auto
  then show "t \<le> cf_clock c' \<and> (p \<in> waiting c' \<or> served c' p t \<or> rebuilding c' p t) \<and> survives c' p t"
  proof cases
    case 1
    with assms(1) have "t \<le> cf_clock c" "p \<in> waiting c \<or> served c p t \<or> rebuilding c p t" "survives c p t"
      by (auto simp: accounted_def)
    then show ?thesis
      using assms(3-12) by (auto simp: served_def rebuilding_def survives_def assms(2))
  next
    case 2
    then show ?thesis using assms(5,8) by (auto simp: survives_def)
  qed
qed

lemma accounted_take:
  assumes "accounted c" and "apply_take (cf_session c) = ((older, newer), S)" and "cf_job c = LockFree"
    and "cf_session c' = S" and "cf_clock c' = cf_clock c" and "cf_rebuild c' = cf_rebuild c"
    and "cf_noted c' = cf_noted c" and "job_paths (cf_job c') = paths_of older \<union> paths_of newer"
    and "job_journals (cf_job c') = {}"
  shows "accounted c'"
proof -
  note t = apply_take_simps [OF assms(2)]
  have "waiting c' = waiting c \<union> paths_of no_changes" using assms(3,4,8) by (auto simp: waiting_def t)
  from accounted_hand_over [OF assms(1,3) _ assms(4,5,6) _ this assms(9)] assms(7) show ?thesis
    by (simp add: t)
qed

lemma accounted_step:
  assumes "session_step E False c c'" and co: "coherent False c" and ac: "accounted c"
  shows "rs_closed (cf_session c') \<or> accounted c'"
  using assms(1)
proof cases
  case (hand_over_ready now previous changes older newer S)
  note t = apply_take_simps [OF hand_over_ready(5)]
  have w: "waiting c' = waiting c \<union> paths_of changes"
    using hand_over_ready(1,2) by (auto simp: waiting_def t changes_is_empty_paths)
  have "accounted c'"
    by (rule accounted_hand_over [OF ac hand_over_ready(2,3) refl _ _ _ w])
       (simp_all add: hand_over_ready(1) t)
  then show ?thesis ..
next
  case (hand_over_buffer now changes)
  have w: "waiting c' = waiting c \<union> paths_of changes"
    using hand_over_buffer(1,2) by (auto simp: waiting_def)
  have "accounted c'"
    by (rule accounted_hand_over [OF ac hand_over_buffer(2,3) refl _ _ _ w])
       (simp_all add: hand_over_buffer(1,2))
  then show ?thesis ..
next
  case (apply_done previous older newer t1 t2 now opts S inc left)
  note o = session_opts_simps [OF apply_done(7)]
  have base: "rs_state (cf_session c) = ReadyIndex previous" using co apply_done(2) by (auto simp: coherent_def)
  have "accounted c'"
  proof (rule accounted_change [OF ac])
    fix p t assume t: "t \<le> cf_clock c" and p: "p \<in> waiting c \<or> served c p t \<or> rebuilding c p t" "survives c p t"
    have "t \<le> t1" "t \<le> t2" using t apply_done(3,4) by simp_all
    note f = fallback_covers [OF apply_done(8) this, of p]
    have "snd (en_repo (traced E) b) = snd b" for b by (simp add: traced_def)
    with f p base show "(p \<in> waiting c' \<or> served c' p t \<or> rebuilding c' p t) \<and> survives c' p t"
      by (cases inc) (auto simp: apply_done(1,2) account_defs o)
  qed (use apply_done in simp_all)
  then show ?thesis ..
next
  case (journal_look inc applied left)
  have "accounted c'"
  proof (rule accounted_change [OF ac])
    fix p t assume t: "t \<le> cf_clock c" and p: "p \<in> waiting c \<or> served c p t \<or> rebuilding c p t" "survives c p t"
    have "rs_rebuild_inflight (cf_session c)" if "rebuild_start (cf_rebuild c) = Some s" for s
      using co that by (cases "cf_rebuild c") (auto simp: coherent_def)
    with p show "(p \<in> waiting c' \<or> served c' p t \<or> rebuilding c' p t) \<and> survives c' p t"
      by (cases inc) (auto simp: journal_look account_defs journal_due_def)
  qed (use journal_look in simp_all)
  then show ?thesis ..
next
  case (cold_lock index older drained S)
  have "accounted c'"
    by (rule accounted_take [OF ac cold_lock(4,3)]) (simp_all add: cold_lock(1))
  then show ?thesis ..
next
  case (cold_publish index older drained T now opts S index' S')
  note o = session_opts_simps [OF cold_publish(4)] and p' = publish_apply_simps [OF cold_publish(5)]
  have building: "rs_state (cf_session c) = Building" "cf_rebuild c = RebuildIdle"
    using co cold_publish(2) by (auto simp: coherent_def)
  show ?thesis
  proof (cases "rs_closed S'")
    case True
    then show ?thesis by (simp add: cold_publish(1))
  next
    case False
    have "accounted c'"
    proof (rule accounted_change [OF ac])
      fix p t assume t: "t \<le> cf_clock c" and p: "p \<in> waiting c \<or> served c p t \<or> rebuilding c p t" "survives c p t"
      have "t \<le> T 1" "t \<le> T 2" using t cold_publish(3) order_trans by blast+
      note f = publish_apply_covers [OF cold_publish(5) this, of p]
      from p(1) building have "p \<in> waiting c" by (auto simp: served_def rebuilding_def)
      with f show "(p \<in> waiting c' \<or> served c' p t \<or> rebuilding c' p t) \<and> survives c' p t"
        using False by (auto simp: cold_publish(1,2) account_defs o p' building)
    qed (use cold_publish(3) order_trans [of _ "T 0"] in \<open>auto simp: cold_publish(1)\<close>)
    then show ?thesis ..
  qed
next
  case (rebuild_published s index T now)
  have clock: "\<forall>k. cf_clock c \<le> T k" using rebuild_published(4) by simp
  note r = publish_rebuilt_simps [OF this refl, of E index "cf_session c"]
  obtain y where y: "rs_state (cf_session c') = ReadyIndex y"
    "\<And>p t. t \<le> cf_clock c \<Longrightarrow> (covers (snd index) p t \<longrightarrow> covers (snd y) p t)
       \<and> (p \<in> paths_of (rs_rebuild_journal (cf_session c)) \<union> paths_of (rs_pending (cf_session c))
             \<union> paths_of (ah_unapplied (rs_health (cf_session c)))
          \<longrightarrow> p \<in> paths_of (ah_unapplied (rs_health (cf_session c'))) \<or> covers (snd y) p t)"
    using r(6) by (auto simp: rebuild_published(1))
  have cov: "\<forall>p t. t \<le> s \<longrightarrow> covers (snd index) p t" using co rebuild_published(2) by (auto simp: coherent_def)
  have "accounted c'"
  proof (rule accounted_change [OF ac])
    fix p t assume t: "t \<le> cf_clock c" and p: "p \<in> waiting c \<or> served c p t \<or> rebuilding c p t" "survives c p t"
    have "t \<le> s \<or> p \<in> waiting c \<union> paths_of (rs_rebuild_journal (cf_session c))"
      using p(2) by (auto simp: survives_def rebuild_published(2,3))
    then show "(p \<in> waiting c' \<or> served c' p t \<or> rebuilding c' p t) \<and> survives c' p t"
      using y(2) [OF t, of p] y(1) cov by (auto simp: rebuild_published(1,2,3) account_defs)
  qed (use clock rebuild_published(4) order_trans [of _ "T 0"] in \<open>auto simp: rebuild_published(1)\<close>)
  then show ?thesis ..
next
  case (rebuild_claimed S)
  note r = rebuild_claim_simps [OF rebuild_claimed(3)]
  have "cf_rebuild c = RebuildIdle" using co r(1) by (auto simp: coherent_def)
  then have "accounted c'"
    by (intro accounted_change [OF ac]) (auto simp: rebuild_claimed(1) account_defs r)
  then show ?thesis ..
next
  case (cold_failed m)
  have building: "rs_state (cf_session c) = Building" using co cold_failed(2) by (auto simp: coherent_def)
  then have "accounted c'"
    by (intro accounted_change [OF ac]) (auto simp: cold_failed(1) account_defs)
  then show ?thesis ..
next
  case (rebuild_started now)
  have "accounted c'"
    by (rule accounted_change [OF ac]) (use rebuild_started in \<open>auto simp: account_defs\<close>)
  then show ?thesis ..
next
  case (rebuild_noted s index now)
  have "accounted c'"
    by (rule accounted_change [OF ac]) (use rebuild_noted in \<open>auto simp: account_defs\<close>)
  then show ?thesis ..
next
  case (rebuild_failed s outcome now)
  have "accounted c'"
    by (rule accounted_change [OF ac]) (use rebuild_failed in \<open>auto simp: account_defs\<close>)
  then show ?thesis ..
qed (intro disjI2 accounted_change [OF ac]; auto simp: account_defs)+

lemma publish_rebuilt_closed:
  "rs_closed (publish_rebuilt E T (ReadyIndex x) S) = rs_closed S"
  by (auto simp: publish_rebuilt_def Let_def take_unapplied_def split: prod.splits
      dest!: session_opts_simps(6) publish_apply_simps(6))

lemma session_invariant:
  assumes "session_reach E False (config_start knobs start) c"
  shows "rs_closed (cf_session c) \<or> coherent False c \<and> accounted c"
  using assms
proof (induction "config_start knobs start :: ('a, 'b) config" c rule: session_reach.induct)
  case reach_refl
  then show ?case
    by (simp add: coherent_def accounted_def config_start_def session_new_def fresh_health_def)
next
  case (reach_step c1 c2)
  have "rs_closed (cf_session c1) \<Longrightarrow> rs_closed (cf_session c2)"
    using reach_step.hyps(3)
    by cases (auto dest: apply_take_simps(9) session_opts_simps(6) rebuild_claim_simps(7) publish_apply_simps(6)
        simp: note_unapplied_def Let_def publish_rebuilt_closed)
  then show ?case using reach_step coherent_step accounted_step by blast
qed


definition demo_engine :: "(unit, unit) engine" where
  "demo_engine =
     \<lparr>en_changeset = \<lambda>_ _ _ _. Ret (), en_build = \<lambda>_ _. Ret (), en_cancellable = \<lambda>_ _ _ _. Ret (Some ()),
      en_incremental = \<lambda>_. Some (), en_repo = \<lambda>_. (), en_lock = \<lambda>_. Inr False\<rparr>"

definition demo_save :: change_set where
  "demo_save = \<lparr>ch_added = [], ch_modified = [RelPath ''a.rs''], ch_removed = []\<rparr>"

definition demo_config :: "(unit, unit) config" where
  "demo_config = config_start (knobs_from_env (\<lambda>_. None)) 0"

definition demo_buffered :: "(unit, unit) config" where
  "demo_buffered = demo_config\<lparr>cf_session := buffer_changes demo_save (cf_session demo_config), cf_clock := 1,
     cf_noted := paths_of demo_save \<times> {1}\<rparr>"

lemma demo_buffered_reach: "session_reach demo_engine early demo_config demo_buffered"
proof -
  have "session_step demo_engine early demo_config demo_buffered"
    using session_step.hand_over_buffer [of demo_config 1 demo_engine early demo_save]
    by (simp add: demo_buffered_def demo_config_def config_start_def session_new_def)
  with reach_refl show ?thesis by (rule reach_step)
qed


subsection \<open>A rebuild before the cold build is published\<close>

lemma no_changes_empty [simp]: "changes_is_empty no_changes"
  by (simp add: no_changes_def changes_is_empty_def)

lemma merge_no_changes [simp]: "changes_merge c no_changes = c"
  by (simp add: changes_merge_def)

lemma merge_nothing: "changes_merge no_changes demo_save = demo_save"
  by code_simp

lemma save_nonempty: "\<not> changes_is_empty demo_save"
  by (simp add: demo_save_def changes_is_empty_def)

lemma publish_apply_nothing:
  "publish_apply E opts T x no_changes no_changes S = (x, note_unapplied (T 3) no_changes S)"
  by (simp add: publish_apply_def apply_with_fallback_def)

lemma early_rebuild_run:
  "\<exists>c. session_reach demo_engine True demo_config c \<and> \<not> rs_closed (cf_session c)
     \<and> cf_rebuild c = RebuildIdle \<and> cf_cold c = ColdDone \<and> cf_job c = LockFree
     \<and> rs_pending (cf_session c) = no_changes \<and> rs_health (cf_session c) = fresh_health
     \<and> cf_noted c = {(RelPath ''a.rs'', 1)}
     \<and> rs_state (cf_session c) = ReadyIndex ((), [Built 0])"
proof -
  define c0 where "c0 = demo_buffered"
  define c1 where "c1 = c0\<lparr>cf_session := snd (rebuild_claim (cf_session c0)), cf_rebuild := RebuildClaimed\<rparr>"
  define c2 where "c2 = c1\<lparr>cf_session := rebuild_clear (cf_session c1), cf_rebuild := RebuildCleared\<rparr>"
  define c3 where "c3 = c2\<lparr>cf_session := rebuild_take (cf_session c2), cf_rebuild := RebuildTaken\<rparr>"
  define c4 where "c4 = c3\<lparr>cf_clock := 2, cf_rebuild := RebuildRunning 2\<rparr>"
  define c5 where "c5 = c4\<lparr>cf_clock := 3,
      cf_rebuild := RebuildEnded 2 (build_session_index (traced demo_engine) False 2 3 (cf_session c4))\<rparr>"
  define c6 where "c6 = c5\<lparr>cf_session := rebuild_health 4 True (cf_session c5), cf_clock := 4,
      cf_rebuild := RebuildNoted 2 ((), [Built 2])\<rparr>"
  define c7 where "c7 = c6\<lparr>cf_session := publish_rebuilt (traced demo_engine) (\<lambda>_. 5) (ReadyIndex ((), [Built 2])) (cf_session c6),
      cf_clock := 5, cf_rebuild := RebuildPublished\<rparr>"
  define c8 where "c8 = c7\<lparr>cf_session := (cf_session c7)\<lparr>rs_rebuild_inflight := False\<rparr>, cf_rebuild := RebuildIdle\<rparr>"
  define c9 where "c9 = c8\<lparr>cf_clock := 6, cf_cold := ColdBuilt (ReadyIndex ((), [Built 0]))\<rparr>"
  define c10 where "c10 = c9\<lparr>cf_session := snd (apply_take (cf_session c9)),
      cf_job := PublishingCold ((), [Built 0]) no_changes no_changes, cf_cold := ColdLocked\<rparr>"
  define S where "S = note_unapplied 7 no_changes (cf_session c10)"
  define c11 where "c11 = c10\<lparr>cf_session := (if rs_closed S then teardown S else S\<lparr>rs_state := ReadyIndex ((), [Built 0])\<rparr>),
      cf_clock := 7, cf_job := LockFree, cf_cold := ColdDone\<rparr>"
  define sess :: "(unit \<times> event list) index_state \<Rightarrow> change_set \<Rightarrow> bool \<Rightarrow> (unit \<times> event list) root_session"
    where "sess st pend infl = \<lparr>rs_state = st, rs_watch = False, rs_freshness = None, rs_indexer_lock = False,
      rs_pending = pend, rs_rebuild_inflight = infl, rs_rebuild_journal = no_changes, rs_closed = False,
      rs_health = fresh_health, rs_shebang = [], rs_knobs = knobs_from_env (\<lambda>_. None)\<rparr>"
    for st pend infl
  have e6: "c6 = \<lparr>cf_session = sess Building demo_save True, cf_clock = 4, cf_job = LockFree, cf_cold = ColdBuilding 0,
      cf_rebuild = RebuildNoted 2 ((), [Built 2]), cf_noted = paths_of demo_save \<times> {1}\<rparr>"
    by (simp add: c6_def c5_def c4_def c3_def c2_def c1_def c0_def sess_def demo_buffered_def demo_config_def
        config_start_def session_new_def fresh_health_def buffer_changes_def rebuild_claim_def rebuild_clear_def
        rebuild_take_def take_unapplied_def build_session_index_def traced_def demo_engine_def rebuild_health_def
        merge_nothing)
  have e7: "c7 = \<lparr>cf_session = sess (ReadyIndex ((), [Built 2, Applied 5 demo_save])) no_changes True, cf_clock = 5,
      cf_job = LockFree, cf_cold = ColdBuilding 0, cf_rebuild = RebuildPublished, cf_noted = paths_of demo_save \<times> {1}\<rparr>"
    by (simp add: c7_def e6 sess_def publish_rebuilt_def session_opts_def refresh_leader_def publish_apply_def
        apply_with_fallback_def apply_reindex_def take_unapplied_def traced_def demo_engine_def note_unapplied_def
        merge_nothing fresh_health_def save_nonempty Let_def)
  have e9: "c9 = \<lparr>cf_session = sess (ReadyIndex ((), [Built 2, Applied 5 demo_save])) no_changes False, cf_clock = 6,
      cf_job = LockFree, cf_cold = ColdBuilt (ReadyIndex ((), [Built 0])), cf_rebuild = RebuildIdle,
      cf_noted = paths_of demo_save \<times> {1}\<rparr>"
    by (simp add: c9_def c8_def e7 sess_def)
  have e10: "c10 = \<lparr>cf_session = sess (ReadyIndex ((), [Built 2, Applied 5 demo_save])) no_changes False, cf_clock = 6,
      cf_job = PublishingCold ((), [Built 0]) no_changes no_changes, cf_cold = ColdLocked, cf_rebuild = RebuildIdle,
      cf_noted = paths_of demo_save \<times> {1}\<rparr>"
    by (simp add: c10_def e9 sess_def apply_take_def take_unapplied_def fresh_health_def)
  have eS: "S = sess (ReadyIndex ((), [Built 2, Applied 5 demo_save])) no_changes False"
    by (simp add: S_def e10 sess_def note_unapplied_def fresh_health_def no_changes_def changes_is_empty_def)
  let ?R = "session_reach demo_engine True demo_config"
  have "?R c0" unfolding c0_def by (rule demo_buffered_reach)
  then have "?R c1"
    by (rule reach_step) (unfold c1_def, rule session_step.rebuild_claimed;
        simp add: c0_def demo_buffered_def demo_config_def config_start_def session_new_def rebuild_claim_def)
  then have "?R c2"
    by (rule reach_step) (unfold c2_def, rule session_step.rebuild_cleared; simp add: c1_def)
  then have "?R c3"
    by (rule reach_step) (unfold c3_def, rule session_step.rebuild_taken; simp add: c2_def)
  then have "?R c4"
    by (rule reach_step) (unfold c4_def, rule session_step.rebuild_started;
        simp add: c3_def c2_def c1_def c0_def demo_buffered_def)
  then have "?R c5"
    by (rule reach_step) (unfold c5_def, rule session_step.rebuild_ended; simp add: c4_def)
  then have "?R c6"
    by (rule reach_step) (unfold c6_def, rule session_step.rebuild_noted; simp add: c5_def build_session_index_def traced_def demo_engine_def)
  then have "?R c7"
    by (rule reach_step) (unfold c7_def, rule session_step.rebuild_published; simp add: e6)
  then have "?R c8"
    by (rule reach_step) (unfold c8_def, rule session_step.rebuild_finished; simp add: e7)
  then have "?R c9"
    by (rule reach_step) (unfold c9_def, rule session_step.cold_end [where s = 0 and persist = False];
        simp add: c8_def e7 sess_def build_session_index_def traced_def demo_engine_def)
  then have "?R c10"
    by (rule reach_step) (unfold c10_def, rule session_step.cold_lock;
        simp add: e9 sess_def apply_take_def take_unapplied_def fresh_health_def)
  moreover have "session_step demo_engine True c10 c11"
    unfolding c11_def
  proof (rule session_step.cold_publish)
    show "cf_job c10 = PublishingCold ((), [Built 0]) no_changes no_changes" by (simp add: e10)
    show "\<forall>k. cf_clock c10 \<le> (\<lambda>_. 7) k \<and> (\<lambda>_. 7) k \<le> (7::nat)" by (simp add: e10)
    show "session_opts (traced demo_engine) ((\<lambda>_. 7) 0) (cf_session c10)
        = (mcp_index_options False (kn_parse_cache_bytes (rs_knobs (cf_session c10))), cf_session c10)"
      by (simp add: e10 sess_def session_opts_def refresh_leader_def traced_def demo_engine_def)
    show "publish_apply (traced demo_engine) (mcp_index_options False (kn_parse_cache_bytes (rs_knobs (cf_session c10))))
        (\<lambda>_. 7) ((), [Built 0]) no_changes no_changes (cf_session c10) = (((), [Built 0]), S)"
      unfolding publish_apply_nothing S_def ..
  qed
  ultimately have "?R c11" by (rule reach_step)
  moreover have "paths_of demo_save = {RelPath ''a.rs''}" by (simp add: paths_of_alt demo_save_def)
  then have "cf_noted c11 = {(RelPath ''a.rs'', 1)}" by (simp add: c11_def e10)
  ultimately show ?thesis
    by (intro exI [of _ c11]) (simp add: c11_def e10 eS sess_def)
qed

text \<open>C31: a query triggers a rebuild without looking at the state (\<open>run_barrier\<close>), so a rebuild can be
  published while the cold build still runs; the cold build then replaces it, and a change the rebuilt
  index had read after the cold build started is lost: the session is idle, nothing waits, and the
  served index has never read the change.\<close>

theorem early_rebuild_loses_change:
  "\<exists>c. session_reach demo_engine True (config_start (knobs_from_env (\<lambda>_. None)) 0) c
     \<and> (RelPath ''a.rs'', 1) \<in> cf_noted c \<and> \<not> rs_closed (cf_session c) \<and> cf_job c = LockFree
     \<and> \<not> served c (RelPath ''a.rs'') 1 \<and> \<not> rebuilding c (RelPath ''a.rs'') 1 \<and> waiting c = {}"
proof -
  obtain c where c: "session_reach demo_engine True demo_config c" "\<not> rs_closed (cf_session c)"
    "cf_rebuild c = RebuildIdle" "cf_job c = LockFree" "rs_pending (cf_session c) = no_changes"
    "rs_health (cf_session c) = fresh_health" "cf_noted c = {(RelPath ''a.rs'', 1)}"
    "rs_state (cf_session c) = ReadyIndex ((), [Built 0])"
    using early_rebuild_run by blast
  then show ?thesis
    by (intro exI [of _ c])
       (simp add: demo_config_def served_def rebuilding_def waiting_def fresh_health_def covers_def)
qed

section \<open>What a silent answer means\<close>

lemma apply_pending_covers:
  fixes x :: "'i \<times> event list"
  assumes S: "rs_state S = ReadyIndex x" and a: "apply_pending (traced E) T S = (clean, S')"
    and t: "t \<le> T 1" "t \<le> T 2"
  shows "\<exists>y. rs_state S' = ReadyIndex y \<and> rs_pending S' = no_changes
      \<and> ah_in_rebuild (rs_health S') = ah_in_rebuild (rs_health S)
      \<and> (covers (snd x) p t \<or> p \<in> paths_of (rs_pending S) \<union> paths_of (ah_unapplied (rs_health S))
         \<longrightarrow> covers (snd y) p t \<or> p \<in> paths_of (ah_unapplied (rs_health S')))"
proof -
  obtain older newer S1 where u: "apply_take S = ((older, newer), S1)" by (metis prod.exhaust)
  note u' = apply_take_simps [OF u]
  show ?thesis
  proof (cases "changes_is_empty newer \<and> changes_is_empty older")
    case True
    then have "S' = S1" using a by (simp add: apply_pending_def S u)
    then show ?thesis
      using True by (intro exI [of _ x]) (auto simp: u' S simp flip: u'(1,2))
  next
    case False
    obtain opts S2 where o: "session_opts (traced E) (T 0) S1 = (opts, S2)" by fastforce
    note o' = session_opts_simps [OF o]
    obtain inc left where f: "apply_with_fallback (traced E) opts (T 1) (T 2) (en_incremental (traced E) x) older newer
        = (inc, left)" by fastforce
    have S': "S' = note_unapplied (T 3) left (apply_journal inc (changes_merge older newer) (apply_publish (traced E) inc S2))"
      using a False f by (simp add: apply_pending_def S u o)
    have j: "rs_state (apply_journal i c R) = rs_state R" "rs_pending (apply_journal i c R) = rs_pending R"
      "rs_health (apply_journal i c R) = rs_health R" for i :: "('b \<times> event list) option" and c and R :: "('i \<times> event list) root_session"
      by (simp_all add: apply_journal_def)
    have repo: "snd (en_repo (traced E) b) = snd b" for b by (simp add: traced_def)
    from fallback_covers [OF f t, of p] show ?thesis
      by (cases inc)
         (auto simp: S' j o' u' S repo intro!: exI [of _ "case inc of None \<Rightarrow> x | Some b \<Rightarrow> en_repo (traced E) b"])
  qed
qed

lemma settle_silent:
  fixes x :: "'i \<times> event list"
  assumes S: "rs_state S = ReadyIndex x" and a: "settle_unapplied (traced E) T S = (None, S')"
    and t: "\<forall>k. t \<le> T k"
    and p: "covers (snd x) p t \<or> p \<in> paths_of (ah_unapplied (rs_health S))"
  shows "changes_is_empty (ah_unapplied (rs_health S')) \<and> changes_is_empty (ah_in_rebuild (rs_health S'))
     \<and> (\<exists>y. rs_state S' = ReadyIndex y \<and> covers (snd y) p t)"
proof (cases "changes_is_empty (ah_unapplied (rs_health S)) \<and> changes_is_empty (ah_in_rebuild (rs_health S))")
  case True
  then show ?thesis using a S p by (auto simp: settle_unapplied_def simp del: split_paired_Ex)
next
  case False
  define S1 where "S1 = (if \<not> changes_is_empty (ah_unapplied (rs_health S)) \<and> due (ah_next_inline_retry (rs_health S)) (T 0)
      then snd (apply_pending (traced E) (\<lambda>k. T (1 + k)) S) else S)"
  have m: "changes_is_empty (missing_changes S1)" "S' = S1"
    using a False unfolding settle_unapplied_def Let_def S1_def [symmetric] by (auto split: if_splits)
  have e: "changes_is_empty (ah_unapplied (rs_health S1))" "changes_is_empty (ah_in_rebuild (rs_health S1))"
    using m(1) by (auto simp: missing_changes_def changes_is_empty_paths)
  have "\<exists>y. rs_state S1 = ReadyIndex y \<and> (covers (snd y) p t \<or> p \<in> paths_of (ah_unapplied (rs_health S1)))"
  proof (cases "\<not> changes_is_empty (ah_unapplied (rs_health S)) \<and> due (ah_next_inline_retry (rs_health S)) (T 0)")
    case True
    obtain clean R where r: "apply_pending (traced E) (\<lambda>k. T (1 + k)) S = (clean, R)" by fastforce
    have "t \<le> T (1 + 1)" "t \<le> T (1 + 2)" using t by blast+
    note c = apply_pending_covers [OF S r this, of p]
    have "S1 = R" unfolding S1_def r using True by simp
    with c p show ?thesis by auto
  next
    case no: False
    then show ?thesis using p S by (intro exI [of _ x]) (auto simp: S1_def)
  qed
  with e m(2) show ?thesis by auto
qed

lemma inline_repair_covers:
  fixes x :: "'i \<times> event list"
  assumes S: "rs_state S = ReadyIndex x" and t: "t \<le> T 1" "t \<le> T 2"
    and p: "p \<in> set ps" "from_path p \<noteq> None"
  shows "\<exists>y. rs_state (inline_repair (traced E) D wall admit T ps S) = ReadyIndex y
     \<and> (covers (snd y) p t
        \<or> p \<in> paths_of (ah_unapplied (rs_health (inline_repair (traced E) D wall admit T ps S))))"
proof -
  define asked where "asked = \<lparr>ch_added = [], ch_modified = filter admit ps, ch_removed = filter (\<lambda>p. \<not> admit p) ps\<rparr>"
  obtain repair cache where f: "filter_changeset D wall asked (rs_shebang S) = (repair, cache)" by fastforce
  have "p \<in> paths_of asked" using p(1) by (auto simp: asked_def paths_of_alt)
  then have pr: "p \<in> paths_of repair" using known_in_paths [OF p(2) f] by simp
  define S2 where "S2 = S\<lparr>rs_shebang := cache, rs_freshness := map_option (note_repaired (map snd (changes_iter repair))) (rs_freshness S)\<rparr>"
  obtain clean R where r: "apply_pending (traced E) T (buffer_changes repair S2) = (clean, R)" by fastforce
  have "inline_repair (traced E) D wall admit T ps S = R"
    unfolding inline_repair_def asked_def [symmetric] f Let_def prod.case
    using pr r by (auto simp: S2_def changes_is_empty_paths)
  moreover have "rs_state (buffer_changes repair S2) = ReadyIndex x" by (simp add: S2_def S)
  from apply_pending_covers [OF this r t, of p] pr
  have "\<exists>y. rs_state R = ReadyIndex y \<and> (covers (snd y) p t \<or> p \<in> paths_of (ah_unapplied (rs_health R)))"
    by auto
  ultimately show ?thesis by simp
qed

lemma run_barrier_silent:
  assumes "rs_freshness S = Some l" and "run_barrier E V T S = (NoEffect, S')"
  shows "\<exists>S1. barrier_act E V T l
        (decide (T 1) (session_window (rs_knobs S) (poll_cycle l)) (kn_barrier_max (rs_knobs S)) l) S = (NoEffect, S1)
      \<and> settle_unapplied E (\<lambda>k. T (20 + k)) S1 = (None, S')"
  using assms by (auto simp: run_barrier_def Let_def split: prod.splits option.splits barrier_effect.splits)


text \<open>While another query retries the failures, their record is empty: a query arriving then sees
  nothing to say, though the served index is still without them.\<close>

lemma retry_hides_failures:
  assumes "apply_take S = (taken, S')" and "changes_is_empty (ah_in_rebuild (rs_health S))"
  shows "settle_unapplied E T S' = (None, S') \<and> rs_state S' = rs_state S"
proof -
  obtain older newer where "taken = (older, newer)" by fastforce
  note t = apply_take_simps [OF assms(1) [unfolded this]]
  then show ?thesis using assms(2) by (simp add: settle_unapplied_def Let_def)
qed

definition demo_ready :: "(unit \<times> event list) root_session" where
  "demo_ready = (session_new (knobs_from_env (\<lambda>_. None)))
     \<lparr>rs_state := ReadyIndex ((), [Built 0]), rs_freshness := Some (note_paths 5 [RelPath ''a.rs''] (freshness_new 1))\<rparr>"

definition demo_view :: world_view where
  "demo_view = \<lparr>wv_disk = \<lparr>dk_meta = \<lambda>_. None, dk_head = \<lambda>_ _. None\<rparr>, wv_wall = 0, wv_admit = \<lambda>_. True, wv_polls = \<lambda>_. []\<rparr>"

lemma demo_filtered: "filter_changeset (wv_disk demo_view) (wv_wall demo_view) demo_save [] = (demo_save, [])"
  by code_simp

lemma demo_repaired:
  "inline_repair (traced demo_engine) (wv_disk demo_view) (wv_wall demo_view) (wv_admit demo_view) (\<lambda>_. 10)
     [RelPath ''a.rs''] demo_ready
   = demo_ready\<lparr>rs_state := ReadyIndex ((), [Built 0, Applied 10 demo_save]),
       rs_freshness := map_option (note_repaired [RelPath ''a.rs'']) (rs_freshness demo_ready)\<rparr>"
proof -
  have asked: "\<lparr>ch_added = [], ch_modified = filter (wv_admit demo_view) [RelPath ''a.rs''],
      ch_removed = filter (\<lambda>p. \<not> wv_admit demo_view p) [RelPath ''a.rs'']\<rparr> = demo_save"
    by (simp add: demo_view_def demo_save_def)
  have iter: "map snd (changes_iter demo_save) = [RelPath ''a.rs'']"
    by (simp add: demo_save_def changes_iter_def)
  have shebang: "rs_shebang demo_ready = []" by (simp add: demo_ready_def session_new_def)
  show ?thesis
    unfolding inline_repair_def asked shebang demo_filtered Let_def prod.case iter
    by (simp add: save_nonempty apply_pending_def apply_take_def take_unapplied_def demo_ready_def session_new_def
        buffer_changes_def session_opts_def refresh_leader_def apply_with_fallback_def apply_reindex_def traced_def
        demo_engine_def merge_nothing note_unapplied_def apply_journal_def journal_due_def apply_publish_def
        fresh_health_def Let_def)
qed


section \<open>Kept failures are replayed as if they were new\<close>

text \<open>An engine over file contents: the index maps each path to what was read of it; \<open>ok\<close> says which
  applies succeed.\<close>

definition content_engine ::
  "(nat \<Rightarrow> rel_path \<Rightarrow> string option) \<Rightarrow> (nat \<Rightarrow> change_set \<Rightarrow> bool)
     \<Rightarrow> (rel_path \<Rightarrow> string option, rel_path \<Rightarrow> string option) engine" where
  "content_engine disk_at ok =
     \<lparr>en_changeset = \<lambda>_ now m changes. if ok now changes then Ret (apply_changes (disk_at now) changes m) else Panic,
      en_build = \<lambda>_ now. Ret (disk_at now),
      en_cancellable = \<lambda>_ start _ _. Ret (Some (disk_at start)),
      en_incremental = Some, en_repo = (\<lambda>m. m), en_lock = \<lambda>_. Inr False\<rparr>"

text \<open>\<open>a.rs\<close> is deleted and comes back at 15; applying a change to \<open>b.rs\<close> fails before 100.\<close>

definition demo_disk :: "nat \<Rightarrow> rel_path \<Rightarrow> string option" where
  "demo_disk now p =
     (if p = RelPath ''a.rs'' then (if 10 \<le> now \<and> now < 15 then None else Some ''fn a'') else Some ''fn b'')"

definition demo_fails :: "nat \<Rightarrow> change_set \<Rightarrow> bool" where
  "demo_fails now c \<longleftrightarrow> 100 \<le> now \<or> RelPath ''b.rs'' \<notin> set (ch_modified c)"

definition demo_serving :: "(rel_path \<Rightarrow> string option) root_session" where
  "demo_serving = (session_new (knobs_from_env (\<lambda>_. None)))\<lparr>rs_state := ReadyIndex (demo_disk 0)\<rparr>"

definition demo_content :: "(rel_path \<Rightarrow> string option, rel_path \<Rightarrow> string option) engine" where
  "demo_content = content_engine demo_disk demo_fails"

definition demo_removed :: change_set where
  "demo_removed = \<lparr>ch_added = [], ch_modified = [RelPath ''b.rs''], ch_removed = [RelPath ''a.rs'']\<rparr>"

definition demo_restored :: change_set where
  "demo_restored = \<lparr>ch_added = [RelPath ''a.rs''], ch_modified = [], ch_removed = []\<rparr>"

definition index_entry :: "(rel_path \<Rightarrow> string option) root_session \<Rightarrow> rel_path \<Rightarrow> string option" where
  "index_entry S p = (case rs_state S of ReadyIndex m \<Rightarrow> m p | _ \<Rightarrow> None)"

lemma demo_merges:
  "changes_merge no_changes demo_removed = demo_removed" "changes_merge no_changes demo_restored = demo_restored"
  "changes_merge demo_removed demo_restored
     = \<lparr>ch_added = [], ch_modified = [RelPath ''a.rs'', RelPath ''b.rs''], ch_removed = []\<rparr>"
  "changes_merge demo_restored demo_removed
     = \<lparr>ch_added = [], ch_modified = [RelPath ''b.rs''], ch_removed = [RelPath ''a.rs'']\<rparr>"
  "\<not> changes_is_empty demo_removed" "\<not> changes_is_empty demo_restored"
  by code_simp+

lemmas content_run = apply_or_buffer_def apply_pending_def apply_take_def take_unapplied_def buffer_changes_def
  session_opts_def refresh_leader_def apply_with_fallback_def apply_reindex_def demo_content_def content_engine_def
  note_unapplied_def apply_journal_def journal_due_def apply_publish_def fresh_health_def session_new_def
  demo_merges Let_def

definition demo_failed :: "nat \<Rightarrow> (rel_path \<Rightarrow> string option) \<Rightarrow> (rel_path \<Rightarrow> string option) root_session" where
  "demo_failed at m = demo_serving\<lparr>rs_state := ReadyIndex m,
     rs_health := fresh_health\<lparr>ah_unapplied := demo_removed, ah_next_inline_retry := Some (at + inline_retry_gap)\<rparr>\<rparr>"

lemma demo_first: "apply_or_buffer demo_content (\<lambda>k. 10 + k) demo_removed demo_serving = demo_failed 13 (demo_disk 0)"
  by (simp add: content_run demo_failed_def demo_serving_def demo_fails_def) (simp add: demo_removed_def)

lemma demo_second:
  "apply_or_buffer demo_content (\<lambda>k. 20 + k) demo_restored (demo_failed 13 (demo_disk 0))
     = demo_failed 23 (apply_changes (demo_disk 22) demo_restored (demo_disk 0))"
  by (simp add: content_run demo_failed_def demo_serving_def demo_fails_def)
     (simp add: demo_restored_def changes_is_empty_def)

lemma demo_third:
  "settle_unapplied demo_content (\<lambda>k. 2000000100 + k) (demo_failed 23 m)
     = (None, demo_serving\<lparr>rs_state := ReadyIndex (apply_changes (demo_disk 2000000102) demo_removed m)\<rparr>)"
  by (simp add: settle_unapplied_def missing_changes_def due_def inline_retry_gap_def content_run demo_failed_def
      demo_serving_def demo_fails_def)

lemma demo_reversed:
  "RelPath ''a.rs'' \<in> set (ch_removed (ah_unapplied (rs_health (rebuild_health 0 False (demo_serving
     \<lparr>rs_health := fresh_health\<lparr>ah_in_rebuild := demo_removed, ah_unapplied := demo_restored\<rparr>\<rparr>)))))"
  by (simp add: rebuild_health_def demo_merges)


end
