(* ===== verification/CodeMask.thy ===== *)
theory CodeMask
  imports Prelude
begin

text \<open>
  \<open>astrolabe-mcp/src/code_mask.rs\<close>: the line lexer that tells code from comments and strings, for the
  languages it knows.  A line is its bytes; positions are byte offsets.  Each step of the lexer
  returns the range it marks, a comment or a string, and the next state; the loop writes the marks
  into the mask of the line.  Nesting depths are natural numbers.
\<close>

section \<open>Languages\<close>

datatype lex_lang =
    LxC | LxGo | LxRust | LxJava | LxJs | LxDart | LxKotlin | LxSwift | LxCSharp | LxScala | LxPhp | LxVue
  | LxPython | LxRuby | LxShell | LxYaml | LxToml | LxLua | LxSql | LxVb

definition last_component :: "string \<Rightarrow> string" where
  "last_component path = last (split_on (CHR ''/'') path)"

definition lex_lang_of :: "string \<Rightarrow> lex_lang option" where
  "lex_lang_of path =
     (case rsplit_once (CHR ''.'') (last_component path) of None \<Rightarrow> None
      | Some (_, e) \<Rightarrow>
         (let x = ascii_lowercase e in
          if x \<in> set [''c'', ''h'', ''cc'', ''cpp'', ''cxx'', ''hpp'', ''hh'', ''hxx'', ''inl'', ''ipp'', ''cu'', ''cuh'', ''m'', ''mm'']
            then Some LxC
          else if x = ''go'' then Some LxGo
          else if x = ''rs'' then Some LxRust
          else if x = ''java'' then Some LxJava
          else if x \<in> set [''js'', ''jsx'', ''mjs'', ''cjs'', ''ts'', ''tsx'', ''mts'', ''cts''] then Some LxJs
          else if x = ''dart'' then Some LxDart
          else if x \<in> set [''kt'', ''kts''] then Some LxKotlin
          else if x = ''swift'' then Some LxSwift
          else if x \<in> set [''cs'', ''csx''] then Some LxCSharp
          else if x = ''scala'' then Some LxScala
          else if x \<in> set [''php'', ''phtml''] then Some LxPhp
          else if x = ''vue'' then Some LxVue
          else if x \<in> set [''py'', ''pyi''] then Some LxPython
          else if x \<in> set [''rb'', ''rbw'', ''rake'', ''gemspec''] then Some LxRuby
          else if x \<in> set [''sh'', ''bash'', ''zsh'', ''ksh'', ''bats'', ''zsh-theme''] then Some LxShell
          else if x \<in> set [''yaml'', ''yml''] then Some LxYaml
          else if x = ''toml'' then Some LxToml
          else if x = ''lua'' then Some LxLua
          else if x = ''sql'' then Some LxSql
          else if x = ''vb'' then Some LxVb
          else None))"

definition has_lexer :: "string \<Rightarrow> bool" where
  "has_lexer path \<longleftrightarrow> lex_lang_of path \<noteq> None"

definition type_label :: "string \<Rightarrow> string" where
  "type_label path =
     (case rsplit_once (CHR ''.'') (last_component path) of
        Some (_, e) \<Rightarrow> CHR ''.'' # ascii_lowercase e | None \<Rightarrow> last_component path)"

definition slash_line :: "lex_lang \<Rightarrow> bool" where
  "slash_line lg \<longleftrightarrow>
     lg \<in> set [LxC, LxGo, LxRust, LxJava, LxJs, LxDart, LxKotlin, LxSwift, LxCSharp, LxScala, LxPhp, LxVue]"

definition block_c :: "lex_lang \<Rightarrow> bool" where
  "block_c lg \<longleftrightarrow> slash_line lg \<or> lg = LxSql"

definition nests :: "lex_lang \<Rightarrow> bool" where
  "nests lg \<longleftrightarrow> lg \<in> set [LxRust, LxDart, LxKotlin, LxSwift, LxScala]"

definition hash_line :: "lex_lang \<Rightarrow> bool" where
  "hash_line lg \<longleftrightarrow> lg \<in> set [LxPhp, LxPython, LxRuby, LxShell, LxYaml, LxToml]"

abbreviation dquote :: char where "dquote \<equiv> CHR 0x22"
abbreviation squote :: char where "squote \<equiv> CHR 0x27"
abbreviation backtick :: char where "backtick \<equiv> CHR 0x60"
abbreviation bslash :: char where "bslash \<equiv> CHR 0x5C"
abbreviation tab :: char where "tab \<equiv> CHR 0x09"

definition triple_quoted :: "lex_lang \<Rightarrow> char \<Rightarrow> bool" where
  "triple_quoted lg q =
     (if lg \<in> set [LxPython, LxDart, LxToml] then q = dquote \<or> q = squote
      else if lg \<in> set [LxJava, LxKotlin, LxSwift, LxCSharp, LxScala] then q = dquote else False)"

definition backtick_multi :: "lex_lang \<Rightarrow> bool" where
  "backtick_multi lg \<longleftrightarrow> lg = LxGo \<or> lg = LxJs"

definition escapes :: "lex_lang \<Rightarrow> char \<Rightarrow> bool" where
  "escapes lg q =
     (if lg = LxSql \<or> lg = LxVb then False else if lg = LxShell then q \<noteq> squote
      else if lg = LxGo then q \<noteq> backtick else True)"

section \<open>States\<close>

record heredoc =
  hd_term :: string
  hd_indent :: bool
  hd_interp :: bool
  hd_php :: bool

datatype lex_state =
    InCode
  | InBlock nat
  | InMulti char
  | InCsStr nat nat
  | InStr char
  | InRaw string bool
  | InLineBlock
  | InPercent char char nat bool
  | InHeredoc "heredoc list"

record frame =
  ip_depth :: nat
  ip_open :: char
  ip_close :: char
  ip_resume :: lex_state
  ip_fstr :: bool

datatype step = StepSkip nat | StepOpen nat char char | StepPlain

section \<open>Looking around a position\<close>

definition at :: "string \<Rightarrow> nat \<Rightarrow> char option" where
  "at b i = (if i < length b then Some (b ! i) else None)"

definition at0 :: "string \<Rightarrow> nat \<Rightarrow> char" where
  "at0 b i = (if i < length b then b ! i else CHR 0x00)"

definition is_ident :: "char \<Rightarrow> bool" where
  "is_ident c \<longleftrightarrow> is_ascii_alnum c \<or> c = CHR ''_''"

definition is_blank :: "char \<Rightarrow> bool" where
  "is_blank c \<longleftrightarrow> c = CHR '' '' \<or> c = tab"

definition is_ascii_ws :: "char \<Rightarrow> bool" where
  "is_ascii_ws c \<longleftrightarrow> c \<in> set [CHR '' '', tab, CHR 0x0A, CHR 0x0C, CHR 0x0D]"

definition is_ascii_punct :: "char \<Rightarrow> bool" where
  "is_ascii_punct c \<longleftrightarrow> 0x21 \<le> (of_char c :: nat) \<and> (of_char c :: nat) \<le> 0x7E \<and> \<not> is_ascii_alnum c"

text \<open>Walking left from \<open>i\<close> while \<open>P\<close> holds, and right from \<open>j\<close>.\<close>

definition back_while :: "(char \<Rightarrow> bool) \<Rightarrow> string \<Rightarrow> nat \<Rightarrow> nat" where
  "back_while P b i = i - length (takeWhile P (rev (take i b)))"

definition back_while_upto :: "nat \<Rightarrow> (char \<Rightarrow> bool) \<Rightarrow> string \<Rightarrow> nat \<Rightarrow> nat" where
  "back_while_upto k P b i = i - length (takeWhile P (take k (rev (take i b))))"

definition forth_while :: "(char \<Rightarrow> bool) \<Rightarrow> string \<Rightarrow> nat \<Rightarrow> nat" where
  "forth_while P b j = j + length (takeWhile P (drop j b))"

definition slice_of :: "string \<Rightarrow> nat \<Rightarrow> nat \<Rightarrow> string" where
  "slice_of b s e = take (e - s) (drop s b)"

definition run_of :: "char \<Rightarrow> string \<Rightarrow> nat \<Rightarrow> nat" where
  "run_of c b i = length (takeWhile (\<lambda>x. x = c) (drop i b))"

definition find_from :: "string \<Rightarrow> nat \<Rightarrow> string \<Rightarrow> nat option" where
  "find_from b from pat =
     (if pat = [] \<or> length b < from \<or> length b - from < length pat then None
      else map_option (\<lambda>p. from + p) (find_sub (drop from b) pat))"

section \<open>String prefixes and interpolation\<close>

definition interp_prefix :: "lex_lang \<Rightarrow> string \<Rightarrow> nat \<Rightarrow> bool" where
  "interp_prefix lg b i =
     (let s = back_while_upto 3 (\<lambda>c. is_ident c \<or> c = CHR ''$'' \<or> c = CHR ''@'') b i;
          p = slice_of b s i
      in if 0 < s \<and> is_ident (b ! (s - 1)) then False
         else case lg of
             LxPython \<Rightarrow> list_ex (\<lambda>c. c = CHR ''f'' \<or> c = CHR ''F'') p
           | LxCSharp \<Rightarrow> CHR ''$'' \<in> set p
           | LxScala \<Rightarrow> p = ''s'' \<or> p = ''f'' \<or> p = ''raw''
           | _ \<Rightarrow> False)"

definition string_step :: "lex_lang \<Rightarrow> char \<Rightarrow> bool \<Rightarrow> string \<Rightarrow> nat \<Rightarrow> step" where
  "string_step lg q fstr b i =
     (let c = b ! i; nxt = at0 b (i + 1)
      in if lg = LxSwift \<and> c = bslash \<and> nxt = CHR ''('' then StepOpen 2 (CHR ''('') (CHR '')'')
         else if c = bslash \<and> escapes lg q then StepSkip 2
         else if fstr \<and> (lg = LxPython \<or> lg = LxCSharp) \<and> c = CHR ''{'' then
           (if nxt = CHR ''{'' then StepSkip 2 else StepOpen 1 (CHR ''{'') (CHR ''}''))
         else if lg = LxPhp \<and> q = dquote \<and> c = CHR ''{'' \<and> nxt = CHR ''$'' then StepOpen 1 (CHR ''{'') (CHR ''}'')
         else (let dollar = (c = CHR ''$'' \<and> nxt = CHR ''{'');
                   opens = (case lg of
                       LxPhp \<Rightarrow> q = dquote \<and> dollar
                     | LxKotlin \<Rightarrow> q = dquote \<and> dollar
                     | LxDart \<Rightarrow> dollar
                     | LxJs \<Rightarrow> q = backtick \<and> dollar
                     | LxScala \<Rightarrow> q = dquote \<and> fstr \<and> dollar
                     | LxRuby \<Rightarrow> (q = dquote \<or> q = backtick) \<and> c = CHR ''#'' \<and> nxt = CHR ''{''
                     | _ \<Rightarrow> False)
               in if opens then StepOpen 2 (CHR ''{'') (CHR ''}'') else StepPlain))"

section \<open>Openers\<close>

definition word_allows :: "string \<Rightarrow> string list \<Rightarrow> string \<Rightarrow> nat \<Rightarrow> bool" where
  "word_allows ops kws b i =
     (let j = back_while is_blank b i
      in if j = 0 then True
         else (let p = b ! (j - 1)
               in if p \<in> set ops then True
                  else if is_ident p then slice_of b (back_while is_ident b j) j \<in> set kws
                  else False))"

definition ruby_regex_allowed :: "string \<Rightarrow> nat \<Rightarrow> bool" where
  "ruby_regex_allowed b i =
     word_allows ''=(,:[!&|?{;+-*%<>~^''
       [''if'', ''elsif'', ''unless'', ''while'', ''until'', ''when'', ''case'', ''and'', ''or'', ''not'', ''then'', ''else'',
        ''do'', ''return'', ''yield'', ''in''] b i"

definition regex_allowed :: "string \<Rightarrow> nat \<Rightarrow> bool" where
  "regex_allowed b i =
     word_allows ''=(,:[!&|?{};+-*%<>~^''
       [''return'', ''typeof'', ''case'', ''in'', ''of'', ''delete'', ''void'', ''throw'', ''new'', ''else'', ''do'', ''yield'',
        ''await''] b i"

definition ruby_percent_open :: "string \<Rightarrow> nat \<Rightarrow> (nat \<times> char \<times> char \<times> bool) option" where
  "ruby_percent_open b i =
     (let kind = (case at b (i + 1) of Some c \<Rightarrow> if c \<in> set ''qQwWiIrsx'' then Some c else None | None \<Rightarrow> None);
          j = (if kind = None then i + 1 else i + 2)
      in case at b j of None \<Rightarrow> None
         | Some d \<Rightarrow>
             if \<not> is_ascii_punct d \<or> d = CHR ''_'' then None
             else (let k = back_while is_blank b i; w = back_while is_ident b k;
                       arg = (k < i \<and> w < k \<and> \<not> is_ascii_digit (b ! w) \<and> d \<noteq> CHR ''=''
                              \<and> (kind \<noteq> None \<or> d \<in> set ''([{<|!''))
                   in if d \<in> set '')]}>'' then None
                      else if \<not> (ruby_regex_allowed b i \<or> arg) then None
                      else (let close = (if d = CHR ''('' then CHR '')'' else if d = CHR ''['' then CHR '']''
                                         else if d = CHR ''{'' then CHR ''}'' else if d = CHR ''<'' then CHR ''>'' else d);
                                interp = (case kind of Some c \<Rightarrow> c \<notin> set ''qwis'' | None \<Rightarrow> True)
                            in Some (j + 1 - i, d, close, interp))))"

definition heredoc_ident :: "string \<Rightarrow> nat \<Rightarrow> (string \<times> bool \<times> nat) option" where
  "heredoc_ident b j =
     (let q = (case at b j of Some c \<Rightarrow> if c = squote \<or> c = dquote \<or> c = backtick then Some c else None | None \<Rightarrow> None);
          s = (if q = None then j else j + 1);
          e = forth_while is_ident b s
      in if e = s \<or> is_ascii_digit (b ! s) then None
         else case q of
             None \<Rightarrow> Some (slice_of b s e, True, e)
           | Some c \<Rightarrow> if at b e \<noteq> Some c then None else Some (slice_of b s e, c \<noteq> squote, e + 1))"

definition ruby_heredoc_open :: "string \<Rightarrow> nat \<Rightarrow> (nat \<times> heredoc) option" where
  "ruby_heredoc_open b i =
     (let flag = (at b (i + 2) = Some (CHR ''~'') \<or> at b (i + 2) = Some (CHR ''-''));
          j = (if flag then i + 3 else i + 2)
      in case heredoc_ident b j of None \<Rightarrow> None
         | Some (tm, interp, e) \<Rightarrow>
             (let first = (case tm of [] \<Rightarrow> CHR 0x00 | c # _ \<Rightarrow> c);
                  prev = (if 0 < i then b ! (i - 1) else CHR '' '')
              in if \<not> flag \<and> (\<not> (is_ascii_upper first \<or> b ! j \<noteq> first) \<or> is_ident prev) then None
                 else Some (e - i, \<lparr>hd_term = tm, hd_indent = flag, hd_interp = interp, hd_php = False\<rparr>)))"

definition php_heredoc_open :: "string \<Rightarrow> nat \<Rightarrow> (nat \<times> heredoc) option" where
  "php_heredoc_open b i =
     (case heredoc_ident b (forth_while is_blank b (i + 3)) of None \<Rightarrow> None
      | Some (tm, interp, e) \<Rightarrow>
          if list_all is_ascii_ws (drop e b)
          then Some (e - i, \<lparr>hd_term = tm, hd_indent = True, hd_interp = interp, hd_php = True\<rparr>) else None)"

definition heredoc_close :: "heredoc \<Rightarrow> string \<Rightarrow> nat option" where
  "heredoc_close h b =
     (let s = (if hd_indent h then forth_while is_blank b 0 else 0);
          e = s + length (hd_term h);
          rest = drop e b
      in if \<not> (e \<le> length b \<and> slice_of b s e = hd_term h) then None
         else if (if hd_php h then (case rest of [] \<Rightarrow> True | c # _ \<Rightarrow> \<not> is_ident c) else list_all is_ascii_ws rest)
              then Some e else None)"

text \<open>The matching brace from \<open>j\<close> on, or the end of the line.\<close>

fun close_brace :: "string \<Rightarrow> nat \<Rightarrow> nat \<Rightarrow> nat" where
  "close_brace [] d j = j"
| "close_brace (c # cs) d j =
     (if c = CHR ''{'' then close_brace cs (d + 1) (j + 1)
      else if c = CHR ''}'' then (if d = 0 then j else close_brace cs (d - 1) (j + 1))
      else close_brace cs d (j + 1))"

lemma close_brace_ge: "j \<le> close_brace cs d j \<and> close_brace cs d j \<le> j + length cs"
  by (induction cs d j rule: close_brace.induct) auto

function heredoc_interp :: "string \<Rightarrow> bool \<Rightarrow> nat \<Rightarrow> (nat \<times> nat) list" where
  "heredoc_interp b php i =
     (if \<not> i + 1 < length b then []
      else if b ! i = bslash then heredoc_interp b php (i + 2)
      else if (if php then b ! i = CHR ''{'' \<and> b ! (i + 1) = CHR ''$'' \<or> b ! i = CHR ''$'' \<and> b ! (i + 1) = CHR ''{''
               else b ! i = CHR ''#'' \<and> b ! (i + 1) = CHR ''{'')
      then (let s = (if php \<and> b ! i = CHR ''{'' then i + 1 else i + 2); j = close_brace (drop s b) 0 s
            in (s, j) # heredoc_interp b php (j + 1))
      else heredoc_interp b php (i + 1))"
  by pat_completeness auto
termination
proof (relation "measure (\<lambda>(b, _, i). length b - i)", goal_cases)
  case (3 b php i s j)
  then have "s \<le> j" using close_brace_ge [of s "drop s b" 0] by simp
  moreover have "i < s" using 3 by simp
  ultimately show ?case using 3 by simp
qed auto

declare heredoc_interp.simps [simp del]

definition lua_long_open :: "string \<Rightarrow> nat \<Rightarrow> (nat \<times> nat) option" where
  "lua_long_open b i =
     (if at b i \<noteq> Some (CHR ''['') then None
      else (let j = i + 1 + run_of (CHR ''='') b (i + 1)
            in if at b j = Some (CHR ''['') then Some (j - i - 1, j - i + 1) else None))"

definition cs_string_open :: "string \<Rightarrow> nat \<Rightarrow> (nat \<times> nat \<times> nat) option" where
  "cs_string_open b i =
     (let quotes = run_of dquote b i;
          s = back_while_upto 16 (\<lambda>c. c = CHR ''$'' \<or> c = CHR ''@'') b i
      in if 0 < s \<and> is_ident (b ! (s - 1)) then None
         else (let p = slice_of b s i; dollars = length (filter (\<lambda>x. x = CHR ''$'') p)
               in if 3 \<le> quotes then Some (quotes, dollars, quotes)
                  else if CHR ''@'' \<in> set p then Some (0, min dollars 1, 1) else None))"

definition rust_raw_open :: "string \<Rightarrow> nat \<Rightarrow> (nat \<times> nat) option" where
  "rust_raw_open b i =
     (let j = (if b ! i = CHR ''b'' \<or> b ! i = CHR ''c'' then i + 1 else i)
      in if at b j \<noteq> Some (CHR ''r'') then None
         else (let h = run_of (CHR ''#'') b (j + 1); e = j + 1 + h
               in if at b e = Some dquote then Some (h, e + 1 - i) else None))"

text \<open>The scan for the parenthesis stops after 16 bytes of delimiter, at it, or on a byte that cannot
  be in a delimiter.\<close>

fun cpp_delim :: "string \<Rightarrow> nat \<Rightarrow> nat \<Rightarrow> nat option" where
  "cpp_delim [] k j = Some j"
| "cpp_delim (c # cs) k j =
     (if 17 < k \<or> c = CHR ''('' then Some j
      else if c = CHR '' '' \<or> c = CHR '')'' \<or> c = bslash \<or> c = dquote then None
      else cpp_delim cs (k + 1) (j + 1))"

definition cpp_raw_open :: "string \<Rightarrow> nat \<Rightarrow> (string \<times> nat) option" where
  "cpp_raw_open b i =
     (case cpp_delim (drop (i + 1) b) 1 (i + 1) of None \<Rightarrow> None
      | Some j \<Rightarrow>
          if at b j = Some (CHR ''('')
          then Some (CHR '')'' # slice_of b (i + 1) j @ [dquote], j + 1 - i) else None)"

definition number_before :: "string \<Rightarrow> nat \<Rightarrow> bool" where
  "number_before b i =
     (let s = back_while (\<lambda>c. is_ascii_alnum c \<or> c = squote) b i in s < i \<and> is_ascii_digit (b ! s))"

function regex_scan :: "string \<Rightarrow> nat \<Rightarrow> bool \<Rightarrow> nat \<Rightarrow> nat option" where
  "regex_scan b i cls j =
     (if \<not> j < length b then None
      else if b ! j = bslash then regex_scan b i cls (j + 2)
      else if b ! j = CHR ''['' then regex_scan b i True (j + 1)
      else if b ! j = CHR '']'' then regex_scan b i False (j + 1)
      else if b ! j = CHR ''/'' \<and> \<not> cls
      then (let e = forth_while is_ascii_alphabetic b (j + 1) in if i + 2 < e then Some e else None)
      else regex_scan b i cls (j + 1))"
  by pat_completeness auto
termination by (relation "measure (\<lambda>(b, _, _, j). length b - j)") auto

declare regex_scan.simps [simp del]

definition regex_end :: "string \<Rightarrow> nat \<Rightarrow> nat option" where
  "regex_end b i = regex_scan b i False (i + 1)"

section \<open>The bodies of strings and comments\<close>

datatype scan_end = ScanOpen nat char char | ScanClosed | ScanEnd

text \<open>The loop of \<open>State::Str\<close> and \<open>State::Multi\<close>; \<open>closes\<close> is the length of the closing delimiter at a
  position.\<close>

lemma string_step_skip: "string_step lg q fstr b i = StepSkip k \<Longrightarrow> k = 2"
  by (auto simp: string_step_def Let_def split: if_splits)

function body_scan ::
  "(string \<Rightarrow> nat \<Rightarrow> nat option) \<Rightarrow> lex_lang \<Rightarrow> char \<Rightarrow> bool \<Rightarrow> string \<Rightarrow> nat \<Rightarrow> nat \<times> scan_end" where
  "body_scan closes lg q fstr b i =
     (if \<not> i < length b then (i, ScanEnd)
      else case string_step lg q fstr b i of
          StepSkip k \<Rightarrow> body_scan closes lg q fstr b (i + k)
        | StepOpen len op cl \<Rightarrow> (i, ScanOpen len op cl)
        | StepPlain \<Rightarrow>
            (case closes b i of Some len \<Rightarrow> (i + len, ScanClosed)
             | None \<Rightarrow> body_scan closes lg q fstr b (i + 1)))"
  by pat_completeness auto
termination
  by (relation "measure (\<lambda>(_, _, _, _, b, i). length b - i)") (auto dest!: string_step_skip)

declare body_scan.simps [simp del]

definition closes_str :: "char \<Rightarrow> string \<Rightarrow> nat \<Rightarrow> nat option" where
  "closes_str q b i = (if b ! i = q then Some 1 else None)"

definition closes_multi :: "char \<Rightarrow> string \<Rightarrow> nat \<Rightarrow> nat option" where
  "closes_multi q b i =
     (if q = backtick then (if b ! i = backtick then Some 1 else None)
      else if b ! i = q \<and> at b (i + 1) = Some q \<and> at b (i + 2) = Some q then Some 3 else None)"

function percent_scan :: "char \<Rightarrow> char \<Rightarrow> bool \<Rightarrow> string \<Rightarrow> nat \<Rightarrow> nat \<Rightarrow> nat \<times> nat \<times> scan_end" where
  "percent_scan op cl interp b d i =
     (if \<not> i < length b then (i, d, ScanEnd)
      else if b ! i = bslash then percent_scan op cl interp b d (i + 2)
      else if interp \<and> b ! i = CHR ''#'' \<and> at b (i + 1) = Some (CHR ''{'') then (i, d, ScanOpen 2 (CHR ''{'') (CHR ''}''))
      else if op \<noteq> cl \<and> b ! i = op then percent_scan op cl interp b (d + 1) (i + 1)
      else if b ! i = cl then (if d = 0 then (i + 1, d, ScanClosed) else percent_scan op cl interp b (d - 1) (i + 1))
      else percent_scan op cl interp b d (i + 1))"
  by pat_completeness auto
termination by (relation "measure (\<lambda>(_, _, _, b, _, i). length b - i)") auto

declare percent_scan.simps [simp del]

function block_scan :: "bool \<Rightarrow> string \<Rightarrow> nat \<Rightarrow> nat \<Rightarrow> nat \<times> nat \<times> bool" where
  "block_scan nested b d i =
     (if \<not> i < length b then (i, d, False)
      else if b ! i = CHR ''*'' \<and> at b (i + 1) = Some (CHR ''/'')
      then (if d - 1 = 0 then (i + 2, d - 1, True) else block_scan nested b (d - 1) (i + 2))
      else if nested \<and> b ! i = CHR ''/'' \<and> at b (i + 1) = Some (CHR ''*'') then block_scan nested b (d + 1) (i + 2)
      else block_scan nested b d (i + 1))"
  by pat_completeness auto
termination by (relation "measure (\<lambda>(_, b, _, i). length b - i)") auto

declare block_scan.simps [simp del]

text \<open>C# verbatim (\<open>quotes = 0\<close>) and raw strings.\<close>

function cs_scan :: "nat \<Rightarrow> nat \<Rightarrow> string \<Rightarrow> nat \<Rightarrow> nat \<times> scan_end" where
  "cs_scan quotes dollars b i =
     (if \<not> i < length b then (i, ScanEnd)
      else if b ! i = dquote then
        (let r = run_of dquote b i
         in if quotes = 0 then (if 2 \<le> r then cs_scan quotes dollars b (i + 2) else (i + 1, ScanClosed))
            else if quotes \<le> r then (i + r, ScanClosed) else cs_scan quotes dollars b (i + r))
      else if 0 < dollars \<and> b ! i = CHR ''{'' then
        (let r = run_of (CHR ''{'') b i; need = max dollars 1
         in if quotes = 0 \<and> 2 \<le> r then cs_scan quotes dollars b (i + 2)
            else if need \<le> r then (i + (r - need), ScanOpen need (CHR ''{'') (CHR ''}''))
            else cs_scan quotes dollars b (i + r))
      else cs_scan quotes dollars b (i + 1))"
  by pat_completeness auto
termination
proof (relation "measure (\<lambda>(_, _, b, i). length b - i)", goal_cases)
  case (3 quotes dollars b i r)
  then have "0 < r" by (simp add: run_of_def Cons_nth_drop_Suc [symmetric])
  with 3 show ?case by simp
next
  case (5 quotes dollars b i r need)
  then have "0 < r" by (simp add: run_of_def Cons_nth_drop_Suc [symmetric])
  with 5 show ?case by simp
qed auto

declare cs_scan.simps [simp del]

section \<open>Code\<close>

text \<open>What the lexer makes of the byte at \<open>i\<close> in code: the range it marks (a comment when \<open>True\<close>), the next
  state and position, whether a string that opens interpolates, and a heredoc that opens.\<close>

record token =
  tk_mark :: "(bool \<times> nat \<times> nat) option"
  tk_state :: lex_state
  tk_pos :: nat
  tk_fs :: "bool option"
  tk_here :: "heredoc option"

definition plain :: "nat \<Rightarrow> token" where
  "plain i = \<lparr>tk_mark = None, tk_state = InCode, tk_pos = i, tk_fs = None, tk_here = None\<rparr>"

definition commented :: "nat \<Rightarrow> nat \<Rightarrow> lex_state \<Rightarrow> token" where
  "commented i e s = \<lparr>tk_mark = Some (True, i, e), tk_state = s, tk_pos = e, tk_fs = None, tk_here = None\<rparr>"

definition quoted :: "nat \<Rightarrow> nat \<Rightarrow> lex_state \<Rightarrow> token" where
  "quoted i e s = \<lparr>tk_mark = Some (False, i, e), tk_state = s, tk_pos = e, tk_fs = None, tk_here = None\<rparr>"

definition hash_comment :: "lex_lang \<Rightarrow> string \<Rightarrow> nat \<Rightarrow> bool" where
  "hash_comment lg b i =
     (let prev = (if 0 < i then b ! (i - 1) else CHR 0x00)
      in case lg of
          LxPhp \<Rightarrow> at0 b (i + 1) \<noteq> CHR ''[''
        | LxShell \<Rightarrow> i = 0 \<or> is_blank prev \<or> prev \<in> set '';|&('' \<or> prev = backtick
        | LxYaml \<Rightarrow> i = 0 \<or> is_blank prev
        | _ \<Rightarrow> True)"

text \<open>A Rust character literal at the quote \<open>i\<close>: its length, or none for a lifetime.\<close>

definition rust_char_len :: "string \<Rightarrow> nat \<Rightarrow> nat option" where
  "rust_char_len b i =
     (if at0 b (i + 1) = bslash
      then map_option (\<lambda>p. p + 4) (find_sub (drop (i + 3) b) [squote])
      else (let w = (case utf8_chars (drop (i + 1) b) of [] \<Rightarrow> 0 | c # _ \<Rightarrow> length c)
            in if 0 < w \<and> at b (i + 1 + w) = Some squote then Some (w + 2) else None))"

definition yaml_opens_string :: "string \<Rightarrow> nat \<Rightarrow> bool" where
  "yaml_opens_string b i \<longleftrightarrow> i = 0 \<or> is_blank (b ! (i - 1)) \<or> b ! (i - 1) \<in> set ''[{,:-?''"

definition code_token :: "lex_lang \<Rightarrow> string \<Rightarrow> nat \<Rightarrow> token" where
  "code_token lg b i =
     (let n = length b; c = b ! i; nxt = at0 b (i + 1); prev = (if 0 < i then b ! (i - 1) else CHR 0x00)
      in if slash_line lg \<and> c = CHR ''/'' \<and> nxt = CHR ''/'' then commented i n InCode
         else if block_c lg \<and> c = CHR ''/'' \<and> nxt = CHR ''*'' then commented i (i + 2) (InBlock 1)
         else if lg = LxVue \<and> starts_with (drop i b) ''<!--'' then commented i (i + 4) (InRaw ''-->'' True)
         else if hash_line lg \<and> c = CHR ''#''
         then (if hash_comment lg b i then commented i n InCode else plain (i + 1))
         else if lg = LxRuby \<and> c = CHR ''%'' \<and> ruby_percent_open b i \<noteq> None
         then (case ruby_percent_open b i of
                 Some (len, op, cl, interp) \<Rightarrow> quoted i (i + len) (InPercent op cl 0 interp) | None \<Rightarrow> plain (i + 1))
         else if c = CHR ''<'' \<and> nxt = CHR ''<''
           \<and> (lg = LxRuby \<and> ruby_heredoc_open b i \<noteq> None
              \<or> lg = LxPhp \<and> at b (i + 2) = Some (CHR ''<'') \<and> php_heredoc_open b i \<noteq> None)
         then (case (if lg = LxRuby then ruby_heredoc_open b i else php_heredoc_open b i) of
                 Some (len, h) \<Rightarrow> (quoted i (i + len) InCode)\<lparr>tk_here := Some h\<rparr> | None \<Rightarrow> plain (i + 1))
         else if lg = LxVb \<and> c = squote then commented i n InCode
         else if (lg = LxLua \<or> lg = LxSql) \<and> c = CHR ''-'' \<and> nxt = CHR ''-''
         then (case (if lg = LxLua then lua_long_open b (i + 2) else None) of
                 Some (level, len) \<Rightarrow>
                   commented i (i + 2 + len) (InRaw (CHR '']'' # replicate level (CHR ''='') @ '']'') True)
               | None \<Rightarrow> commented i n InCode)
         else if lg = LxLua \<and> c = CHR ''['' \<and> lua_long_open b i \<noteq> None
         then (case lua_long_open b i of
                 Some (level, len) \<Rightarrow> quoted i (i + len) (InRaw (CHR '']'' # replicate level (CHR ''='') @ '']'') False)
               | None \<Rightarrow> plain (i + 1))
         else if lg = LxRust \<and> c \<in> set ''rbc'' \<and> \<not> (0 < i \<and> is_ident prev) \<and> rust_raw_open b i \<noteq> None
         then (case rust_raw_open b i of
                 Some (hashes, len) \<Rightarrow> quoted i (i + len) (InRaw (dquote # replicate hashes (CHR ''#'')) False)
               | None \<Rightarrow> plain (i + 1))
         else if lg = LxC \<and> c = dquote \<and> prev = CHR ''R'' \<and> cpp_raw_open b i \<noteq> None
         then (case cpp_raw_open b i of
                 Some (tm, len) \<Rightarrow> quoted i (i + len) (InRaw tm False) | None \<Rightarrow> plain (i + 1))
         else if lg = LxCSharp \<and> c = dquote \<and> cs_string_open b i \<noteq> None
         then (case cs_string_open b i of
                 Some (quotes, dollars, len) \<Rightarrow> quoted i (i + len) (InCsStr quotes dollars) | None \<Rightarrow> plain (i + 1))
         else if (c = dquote \<or> c = squote) \<and> triple_quoted lg c \<and> nxt = c \<and> at b (i + 2) = Some c
         then (quoted i (i + 3) (InMulti c))\<lparr>tk_fs := Some (interp_prefix lg b i)\<rparr>
         else if c = backtick \<and> backtick_multi lg
         then (quoted i (i + 1) (InMulti backtick))\<lparr>tk_fs := Some False\<rparr>
         else if lg = LxShell \<and> c = bslash then plain (i + 2)
         else if lg = LxRust \<and> c = squote
         then (case rust_char_len b i of Some l \<Rightarrow> quoted i (i + l) InCode | None \<Rightarrow> plain (i + 1))
         else if lg = LxC \<and> c = squote \<and> number_before b i then plain (i + 1)
         else if lg = LxJs \<and> c = CHR ''/'' \<and> regex_allowed b i \<or> lg = LxRuby \<and> c = CHR ''/'' \<and> ruby_regex_allowed b i
         then (case regex_end b i of Some e \<Rightarrow> quoted i e InCode | None \<Rightarrow> plain (i + 1))
         else if lg = LxYaml \<and> (c = dquote \<or> c = squote) \<and> \<not> yaml_opens_string b i then plain (i + 1)
         else if c = dquote \<or> c = squote \<or> c = backtick
         then (quoted i (i + 1) (InStr c))\<lparr>tk_fs := Some (interp_prefix lg b i)\<rparr>
         else plain (i + 1))"

section \<open>One step of the lexer\<close>

record lexer =
  lx_state :: lex_state
  lx_frames :: "frame list"
  lx_fs :: bool
  lx_pending :: "heredoc list"
  lx_pos :: nat

type_synonym mark = "bool \<times> nat \<times> nat"

definition lexer_start :: lexer where
  "lexer_start = \<lparr>lx_state = InCode, lx_frames = [], lx_fs = False, lx_pending = [], lx_pos = 0\<rparr>"

text \<open>An interpolation opens: code until its close, then the string goes on.\<close>

definition open_frame :: "lex_state \<Rightarrow> bool \<Rightarrow> char \<Rightarrow> char \<Rightarrow> nat \<Rightarrow> lexer \<Rightarrow> lexer" where
  "open_frame resume fstr op cl i L =
     L\<lparr>lx_frames := lx_frames L @ [\<lparr>ip_depth = 0, ip_open = op, ip_close = cl, ip_resume = resume, ip_fstr = fstr\<rparr>],
       lx_state := InCode, lx_pos := i\<rparr>"

definition step_body :: "lex_state \<Rightarrow> nat \<times> scan_end \<Rightarrow> lexer \<Rightarrow> mark option \<times> lexer" where
  "step_body resume r L =
     (case r of
        (i, ScanOpen len op cl) \<Rightarrow>
          (Some (False, lx_pos L, i + len), (open_frame resume (lx_fs L) op cl (i + len) L)\<lparr>lx_fs := False\<rparr>)
      | (i, ScanClosed) \<Rightarrow> (Some (False, lx_pos L, i), L\<lparr>lx_state := InCode, lx_pos := i\<rparr>)
      | (i, ScanEnd) \<Rightarrow> (Some (False, lx_pos L, i), L\<lparr>lx_pos := i\<rparr>))"

definition step_cs :: "nat \<Rightarrow> nat \<Rightarrow> nat \<times> scan_end \<Rightarrow> lexer \<Rightarrow> mark option \<times> lexer" where
  "step_cs quotes dollars r L =
     (case r of
        (i, ScanOpen len op cl) \<Rightarrow>
          (Some (False, lx_pos L, i + len),
           (open_frame (InCsStr quotes dollars) False op cl (i + len) L)\<lparr>lx_fs := False\<rparr>)
      | (i, ScanClosed) \<Rightarrow> (Some (False, lx_pos L, i), L\<lparr>lx_state := InCode, lx_pos := i\<rparr>)
      | (i, ScanEnd) \<Rightarrow> (Some (False, lx_pos L, i), L\<lparr>lx_pos := i\<rparr>))"

definition step_percent :: "char \<Rightarrow> char \<Rightarrow> nat \<Rightarrow> bool \<Rightarrow> string \<Rightarrow> lexer \<Rightarrow> mark option \<times> lexer" where
  "step_percent op cl d interp b L =
     (case percent_scan op cl interp b d (lx_pos L) of
        (i, d', ScanOpen len o' c') \<Rightarrow>
          (Some (False, lx_pos L, i + 2), open_frame (InPercent op cl d' interp) False o' c' (i + 2) L)
      | (i, d', ScanClosed) \<Rightarrow> (Some (False, lx_pos L, i), L\<lparr>lx_state := InCode, lx_pos := i\<rparr>)
      | (i, d', ScanEnd) \<Rightarrow> (Some (False, lx_pos L, i), L\<lparr>lx_state := InPercent op cl d' interp, lx_pos := i\<rparr>))"

definition step_block :: "lex_lang \<Rightarrow> nat \<Rightarrow> string \<Rightarrow> lexer \<Rightarrow> mark option \<times> lexer" where
  "step_block lg d b L =
     (case block_scan (nests lg) b d (lx_pos L) of (i, d', closed) \<Rightarrow>
        (Some (True, lx_pos L, i), L\<lparr>lx_state := (if closed then InCode else InBlock d'), lx_pos := i\<rparr>))"

definition step_raw :: "string \<Rightarrow> bool \<Rightarrow> string \<Rightarrow> lexer \<Rightarrow> mark option \<times> lexer" where
  "step_raw tm comment b L =
     (case find_from b (lx_pos L) tm of
        None \<Rightarrow> (Some (comment, lx_pos L, length b), L\<lparr>lx_pos := length b\<rparr>)
      | Some p \<Rightarrow> (Some (comment, lx_pos L, p + length tm), L\<lparr>lx_state := InCode, lx_pos := p + length tm\<rparr>))"

definition step_code :: "lex_lang \<Rightarrow> string \<Rightarrow> lexer \<Rightarrow> mark option \<times> lexer" where
  "step_code lg b L =
     (let i = lx_pos L; c = b ! i; fs = lx_frames L; t = last fs
      in if fs \<noteq> [] \<and> c = ip_open t
         then (None, L\<lparr>lx_frames := butlast fs @ [t\<lparr>ip_depth := ip_depth t + 1\<rparr>], lx_pos := i + 1\<rparr>)
         else if fs \<noteq> [] \<and> c = ip_close t
         then (None, if ip_depth t = 0
                     then L\<lparr>lx_frames := butlast fs, lx_state := ip_resume t, lx_fs := ip_fstr t, lx_pos := i + 1\<rparr>
                     else L\<lparr>lx_frames := butlast fs @ [t\<lparr>ip_depth := ip_depth t - 1\<rparr>], lx_pos := i + 1\<rparr>)
         else (let k = code_token lg b i
               in (tk_mark k,
                   L\<lparr>lx_state := tk_state k, lx_pos := tk_pos k,
                     lx_fs := (case tk_fs k of None \<Rightarrow> lx_fs L | Some f \<Rightarrow> f),
                     lx_pending := (case tk_here k of None \<Rightarrow> lx_pending L | Some h \<Rightarrow> lx_pending L @ [h])\<rparr>)))"

definition lex_step :: "lex_lang \<Rightarrow> string \<Rightarrow> lexer \<Rightarrow> mark option \<times> lexer" where
  "lex_step lg b L =
     (case lx_state L of
        InLineBlock \<Rightarrow> (None, L\<lparr>lx_pos := length b\<rparr>)
      | InHeredoc _ \<Rightarrow> (None, L\<lparr>lx_pos := length b\<rparr>)
      | InPercent op cl d interp \<Rightarrow> step_percent op cl d interp b L
      | InBlock d \<Rightarrow> step_block lg d b L
      | InRaw tm comment \<Rightarrow> step_raw tm comment b L
      | InCsStr quotes dollars \<Rightarrow> step_cs quotes dollars (cs_scan quotes dollars b (lx_pos L)) L
      | InStr q \<Rightarrow> step_body (InStr q) (body_scan (closes_str q) lg q (lx_fs L) b (lx_pos L)) L
      | InMulti q \<Rightarrow> step_body (InMulti q) (body_scan (closes_multi q) lg q (lx_fs L) b (lx_pos L)) L
      | InCode \<Rightarrow> step_code lg b L)"

subsection \<open>Every step moves on\<close>

lemma body_scan_moves:
  "body_scan closes lg q fstr b i = (i', e) \<Longrightarrow> (\<And>j len. closes b j = Some len \<Longrightarrow> 0 < len) \<Longrightarrow>
   i \<le> i' \<and> (i < length b \<longrightarrow> (case e of ScanOpen len _ _ \<Rightarrow> i < i' + len | _ \<Rightarrow> i < i'))"
proof (induction closes lg q fstr b i arbitrary: i' e rule: body_scan.induct)
  case (1 closes lg q fstr b i)
  have opens: "string_step lg q fstr b i = StepOpen len op cl \<Longrightarrow> 0 < len" for len op cl
    by (auto simp: string_step_def Let_def split: if_splits)
  show ?case
  proof (cases "i < length b")
    case False
    with "1.prems" show ?thesis by (simp add: body_scan.simps [of closes lg q fstr b i])
  next
    case True
    show ?thesis
    proof (cases "string_step lg q fstr b i")
      case (StepSkip k)
      with "1.IH"(1) [OF _ StepSkip, of i' e] True "1.prems" string_step_skip [OF StepSkip] show ?thesis
        by (cases e) (auto simp: body_scan.simps [of closes lg q fstr b i])
    next
      case (StepOpen len op cl)
      with True "1.prems" opens show ?thesis by (auto simp: body_scan.simps [of closes lg q fstr b i])
    next
      case StepPlain
      show ?thesis
      proof (cases "closes b i")
        case None
        with "1.IH"(2) [OF _ StepPlain None, of i' e] True "1.prems" StepPlain show ?thesis
          by (cases e) (auto simp: body_scan.simps [of closes lg q fstr b i])
      next
        case (Some len)
        with True "1.prems" StepPlain show ?thesis
          by (auto simp: body_scan.simps [of closes lg q fstr b i])
      qed
    qed
  qed
qed

lemma percent_scan_moves:
  "percent_scan op cl interp b d i = (i', d', e) \<Longrightarrow> i \<le> i' \<and> (i < length b \<longrightarrow> (case e of ScanOpen _ _ _ \<Rightarrow> True | _ \<Rightarrow> i < i'))"
proof (induction op cl interp b d i arbitrary: i' d' e rule: percent_scan.induct)
  case (1 op cl interp b d i)
  note IH = "1.IH" and pr = "1.prems"
  show ?case
    using pr IH unfolding percent_scan.simps [of op cl interp b d i]
    by (cases e) (auto split: if_splits dest: Suc_le_lessD)
qed

lemma block_scan_moves:
  "block_scan nested b d i = (i', d', c) \<Longrightarrow> i \<le> i' \<and> (i < length b \<longrightarrow> i < i')"
proof (induction nested b d i arbitrary: i' d' c rule: block_scan.induct)
  case (1 nested b d i)
  then show ?case
    unfolding block_scan.simps [of nested b d i] by (auto split: if_splits dest: Suc_le_lessD)
qed

lemma run_of_pos: "i < length b \<Longrightarrow> b ! i = c \<Longrightarrow> 0 < run_of c b i"
  by (simp add: run_of_def Cons_nth_drop_Suc [symmetric])

lemma cs_scan_moves:
  "cs_scan quotes dollars b i = (i', e) \<Longrightarrow>
   i \<le> i' \<and> (i < length b \<longrightarrow> (case e of ScanOpen len _ _ \<Rightarrow> i < i' + len | _ \<Rightarrow> i < i'))"
proof (induction "length b - i" arbitrary: i rule: less_induct)
  case less
  show ?case
  proof (cases "i < length b")
    case False
    with less.prems show ?thesis by (simp add: cs_scan.simps [of quotes dollars b i])
  next
    case True
    have step: "i < i' \<and> (case e of ScanOpen len _ _ \<Rightarrow> i < i' + len | _ \<Rightarrow> i < i')"
      if "cs_scan quotes dollars b j = (i', e)" "i < j" for j
    proof -
      have "length b - j < length b - i" using that(2) True by (simp add: diff_less_mono2)
      from less.hyps [OF this that(1)] that(2) show ?thesis by (cases e) auto
    qed
    show ?thesis
    proof (cases "b ! i = dquote")
      case q: True
      note pos = run_of_pos [OF True q]
      show ?thesis
        using less.prems True q step [of "i + 2"] step [of "i + run_of dquote b i"] pos
        by (cases e) (auto simp: cs_scan.simps [of quotes dollars b i] Let_def split: if_splits)
    next
      case q: False
      have pos: "b ! i = CHR ''{'' \<Longrightarrow> 0 < run_of (CHR ''{'') b i" by (rule run_of_pos [OF True])
      show ?thesis
        using less.prems True q step [of "i + 2"] step [of "i + run_of (CHR ''{'') b i"] step [of "i + 1"] pos
        by (cases e) (auto simp: cs_scan.simps [of quotes dollars b i] Let_def split: if_splits)
    qed
  qed
qed

lemma closes_str_pos: "closes_str q b i = Some len \<Longrightarrow> 0 < len"
  by (auto simp: closes_str_def split: if_splits)

lemma closes_multi_pos: "closes_multi q b i = Some len \<Longrightarrow> 0 < len"
  by (auto simp: closes_multi_def split: if_splits)

lemma forth_while_ge: "j \<le> forth_while P b j"
  by (simp add: forth_while_def)

lemma heredoc_ident_ge: "heredoc_ident b j = Some (t, interp, e) \<Longrightarrow> j < e"
  using forth_while_ge [of j is_ident b] forth_while_ge [of "j + 1" is_ident b]
  by (auto simp: heredoc_ident_def Let_def split: if_splits option.splits)

lemma ruby_heredoc_open_pos: "ruby_heredoc_open b i = Some (len, h) \<Longrightarrow> 0 < len"
  by (auto simp: ruby_heredoc_open_def Let_def dest!: heredoc_ident_ge split: if_splits option.splits)

lemma php_heredoc_open_pos: "php_heredoc_open b i = Some (len, h) \<Longrightarrow> 0 < len"
  using forth_while_ge [of "i + 3" is_blank b]
  by (auto simp: php_heredoc_open_def dest!: heredoc_ident_ge split: if_splits option.splits)

lemma ruby_percent_open_pos: "ruby_percent_open b i = Some (len, r) \<Longrightarrow> 0 < len"
  by (auto simp: ruby_percent_open_def Let_def split: if_splits option.splits)

lemma lua_long_open_pos: "lua_long_open b i = Some (level, len) \<Longrightarrow> 0 < len"
  by (auto simp: lua_long_open_def Let_def split: if_splits)

lemma rust_raw_open_pos: "rust_raw_open b i = Some (h, len) \<Longrightarrow> 0 < len"
  by (auto simp: rust_raw_open_def Let_def split: if_splits)

lemma cpp_delim_ge: "cpp_delim cs k j = Some e \<Longrightarrow> j \<le> e"
  by (induction cs k j rule: cpp_delim.induct) (auto split: if_splits)

lemma cpp_raw_open_pos: "cpp_raw_open b i = Some (t, len) \<Longrightarrow> 0 < len"
  by (auto simp: cpp_raw_open_def dest!: cpp_delim_ge split: if_splits option.splits)

lemma cs_string_open_pos: "cs_string_open b i = Some (q, d, len) \<Longrightarrow> 0 < len"
  by (auto simp: cs_string_open_def Let_def split: if_splits)

lemma rust_char_len_pos: "rust_char_len b i = Some l \<Longrightarrow> 0 < l"
  by (auto simp: rust_char_len_def Let_def split: if_splits)

lemma regex_scan_ge: "regex_scan b i cls j = Some e \<Longrightarrow> j < e"
proof (induction b i cls j rule: regex_scan.induct)
  case (1 b i cls j)
  then show ?case
    using forth_while_ge [of "j + 1" is_ascii_alphabetic b]
    unfolding regex_scan.simps [of b i cls j] Let_def by (auto split: if_splits dest: Suc_lessD)
qed

lemma regex_end_ge: "regex_end b i = Some e \<Longrightarrow> i < e"
  by (auto simp: regex_end_def dest: regex_scan_ge)

lemma plain_simps [simp]:
  "tk_mark (plain i) = None" "tk_state (plain i) = InCode" "tk_pos (plain i) = i" "tk_fs (plain i) = None"
  "tk_here (plain i) = None"
  by (simp_all add: plain_def)

lemma commented_simps [simp]:
  "tk_mark (commented i e s) = Some (True, i, e)" "tk_state (commented i e s) = s" "tk_pos (commented i e s) = e"
  "tk_fs (commented i e s) = None" "tk_here (commented i e s) = None"
  by (simp_all add: commented_def)

lemma quoted_simps [simp]:
  "tk_mark (quoted i e s) = Some (False, i, e)" "tk_state (quoted i e s) = s" "tk_pos (quoted i e s) = e"
  "tk_fs (quoted i e s) = None" "tk_here (quoted i e s) = None"
  by (simp_all add: quoted_def)

lemmas opener_pos = ruby_heredoc_open_pos php_heredoc_open_pos ruby_percent_open_pos lua_long_open_pos
  rust_raw_open_pos cpp_raw_open_pos cs_string_open_pos rust_char_len_pos regex_end_ge

text \<open>A token ends after it begins, marks all of it or nothing, and never leaves a state that only a line
  can enter.\<close>

definition token_ok :: "nat \<Rightarrow> token \<Rightarrow> bool" where
  "token_ok i k \<longleftrightarrow>
     i < tk_pos k \<and> (\<forall>c f t. tk_mark k = Some (c, f, t) \<longrightarrow> f = i \<and> t = tk_pos k)
     \<and> tk_state k \<noteq> InLineBlock \<and> (\<forall>q. tk_state k \<noteq> InHeredoc q)"

lemma token_ok_if: "(c \<Longrightarrow> token_ok i a) \<Longrightarrow> token_ok i b \<Longrightarrow> token_ok i (if c then a else b)"
  by simp

lemma token_ok_option:
  "(\<And>x. r = Some x \<Longrightarrow> token_ok i (f x)) \<Longrightarrow> token_ok i n \<Longrightarrow>
   token_ok i (case r of None \<Rightarrow> n | Some x \<Rightarrow> f x)"
  by (cases r) auto

lemma token_ok_leaf [simp]:
  "token_ok i (plain j) \<longleftrightarrow> i < j"
  "token_ok i (commented i e s) \<longleftrightarrow> i < e \<and> s \<noteq> InLineBlock \<and> (\<forall>q. s \<noteq> InHeredoc q)"
  "token_ok i (quoted i e s) \<longleftrightarrow> i < e \<and> s \<noteq> InLineBlock \<and> (\<forall>q. s \<noteq> InHeredoc q)"
  "token_ok i (k\<lparr>tk_fs := f\<rparr>) \<longleftrightarrow> token_ok i k" "token_ok i (k\<lparr>tk_here := h\<rparr>) \<longleftrightarrow> token_ok i k"
  by (auto simp: token_ok_def)

lemma code_token_ok: "i < length b \<Longrightarrow> token_ok i (code_token lg b i)"
  unfolding code_token_def Let_def
  by (intro token_ok_if token_ok_option; auto dest!: opener_pos split: if_splits)

lemma lex_step_moves:
  assumes "lx_pos L < length b"
  shows "lx_pos L < lx_pos (snd (lex_step lg b L))"
proof (cases "lx_state L")
  case InCode
  then show ?thesis
    using code_token_ok [OF assms, of lg] by (auto simp: lex_step_def step_code_def Let_def token_ok_def)
next
  case (InBlock d)
  then show ?thesis
    using block_scan_moves [of "nests lg" b d "lx_pos L"] assms
    by (auto simp: lex_step_def step_block_def split: prod.splits)
next
  case (InMulti q)
  obtain i e where r: "body_scan (closes_multi q) lg q (lx_fs L) b (lx_pos L) = (i, e)" by fastforce
  from body_scan_moves [OF r closes_multi_pos] assms InMulti r show ?thesis
    by (cases e) (auto simp: lex_step_def step_body_def open_frame_def)
next
  case (InCsStr quotes dollars)
  obtain i e where r: "cs_scan quotes dollars b (lx_pos L) = (i, e)" by fastforce
  from cs_scan_moves [OF r] assms InCsStr r show ?thesis
    by (cases e) (auto simp: lex_step_def step_cs_def open_frame_def)
next
  case (InStr q)
  obtain i e where r: "body_scan (closes_str q) lg q (lx_fs L) b (lx_pos L) = (i, e)" by fastforce
  from body_scan_moves [OF r closes_str_pos] assms InStr r show ?thesis
    by (cases e) (auto simp: lex_step_def step_body_def open_frame_def)
next
  case (InRaw tm comment)
  then show ?thesis
    using assms by (auto simp: lex_step_def step_raw_def find_from_def split: option.splits if_splits)
next
  case (InPercent op cl d interp)
  obtain i d' e where r: "percent_scan op cl interp b d (lx_pos L) = (i, d', e)" by (metis prod_cases3)
  from percent_scan_moves [OF r] assms InPercent r show ?thesis
    by (cases e) (auto simp: lex_step_def step_percent_def open_frame_def)
qed (use assms in \<open>auto simp: lex_step_def\<close>)

section \<open>A line and a file\<close>

function lex_loop :: "lex_lang \<Rightarrow> string \<Rightarrow> lexer \<Rightarrow> mark list \<times> lexer" where
  "lex_loop lg b L =
     (if \<not> lx_pos L < length b then ([], L)
      else case lex_step lg b L of (m, L') \<Rightarrow>
        (case lex_loop lg b L' of (ms, L'') \<Rightarrow> ((case m of None \<Rightarrow> ms | Some x \<Rightarrow> x # ms), L'')))"
  by pat_completeness auto
termination
proof (relation "measure (\<lambda>(_, b, L). length b - lx_pos L)", goal_cases)
  case (2 lg b L x L')
  then have "lx_pos L < lx_pos L'" using lex_step_moves [of L b lg] by (metis snd_conv)
  then show ?case using 2 by simp
qed simp

declare lex_loop.simps [simp del]

text \<open>The start of a line: a heredoc body or terminator, and Ruby's \<open>=begin\<close> block.  The flag says that the
  line is done.\<close>

fun heredoc_code :: "nat \<Rightarrow> nat \<Rightarrow> (nat \<times> nat) list \<Rightarrow> mark list" where
  "heredoc_code from n [] = [(False, from, n)]"
| "heredoc_code from n ((s, e) # es) = (False, from, s) # heredoc_code e n es"

definition begin_heredoc :: "string \<Rightarrow> lexer \<Rightarrow> mark list \<times> lexer \<times> bool" where
  "begin_heredoc b L =
     (case lx_state L of
        InHeredoc (h # queue) \<Rightarrow>
          (case heredoc_close h b of
             Some e \<Rightarrow>
               (let s = (if queue = [] then InCode else InHeredoc queue)
                in if \<not> hd_php h \<or> s \<noteq> InCode then ([(False, 0, e)], L\<lparr>lx_state := s\<rparr>, True)
                   else ([(False, 0, e)], L\<lparr>lx_state := s, lx_pos := e\<rparr>, False))
           | None \<Rightarrow> (heredoc_code 0 (length b) (if hd_interp h then heredoc_interp b (hd_php h) 0 else []), L, True))
      | _ \<Rightarrow> ([], L, False))"

definition begin_ruby :: "lex_lang \<Rightarrow> string \<Rightarrow> lexer \<Rightarrow> mark list \<times> lexer \<times> bool" where
  "begin_ruby lg b L =
     (if lg \<noteq> LxRuby then ([], L, False)
      else (let s = (if lx_state L = InCode \<and> starts_with b ''=begin'' then InLineBlock else lx_state L)
            in if s = InLineBlock
               then ([(True, 0, length b)],
                     L\<lparr>lx_state := (if starts_with b ''=end'' then InCode else InLineBlock)\<rparr>, True)
               else ([], L, False)))"

definition begin_line :: "lex_lang \<Rightarrow> string \<Rightarrow> lexer \<Rightarrow> mark list \<times> lexer \<times> bool" where
  "begin_line lg b L =
     (case begin_heredoc b (L\<lparr>lx_pos := 0\<rparr>) of (ms, L1, fin) \<Rightarrow>
        if fin then (ms, L1, True)
        else (case begin_ruby lg b L1 of (ms', L2, fin') \<Rightarrow> (ms @ ms', L2, fin')))"

text \<open>The end of a line: single-line strings end with it, with the interpolations opened inside the
  outermost of them; a heredoc opened on it starts.\<close>

definition is_str :: "lex_state \<Rightarrow> bool" where
  "is_str s \<longleftrightarrow> (case s of InStr _ \<Rightarrow> True | _ \<Rightarrow> False)"

lemma is_str_simps [simp]:
  "is_str (InStr q)" "\<not> is_str InCode" "\<not> is_str (InBlock d)" "\<not> is_str (InMulti q)" "\<not> is_str (InCsStr a a')"
  "\<not> is_str (InRaw t c)" "\<not> is_str InLineBlock" "\<not> is_str (InPercent op cl d i)" "\<not> is_str (InHeredoc hs)"
  by (simp_all add: is_str_def)

definition end_strings :: "lex_lang \<Rightarrow> lexer \<Rightarrow> lexer" where
  "end_strings lg L =
     (if lg = LxRust \<and> lx_state L = InStr dquote then L
      else (let s = (if is_str (lx_state L) then InCode else lx_state L);
                outer = takeWhile (\<lambda>f. \<not> is_str (ip_resume f)) (lx_frames L)
            in if length outer = length (lx_frames L) then L\<lparr>lx_state := s\<rparr>
               else L\<lparr>lx_frames := outer,
                      lx_state := (case s of InMulti _ \<Rightarrow> s | InPercent _ _ _ _ \<Rightarrow> s | _ \<Rightarrow> InCode)\<rparr>))"

definition end_line :: "lex_lang \<Rightarrow> lexer \<Rightarrow> lexer" where
  "end_line lg L =
     (let L' = end_strings lg L
      in if lx_pending L' = [] then L'
         else if lx_state L' = InCode then L'\<lparr>lx_state := InHeredoc (lx_pending L'), lx_pending := []\<rparr>
         else L'\<lparr>lx_pending := []\<rparr>)"

definition lex_line :: "lex_lang \<Rightarrow> string \<Rightarrow> lexer \<Rightarrow> mark list \<times> lexer" where
  "lex_line lg b L =
     (case begin_line lg b L of (ms, L1, fin) \<Rightarrow>
        if fin then (ms, L1)
        else (case lex_loop lg b L1 of (ms', L2) \<Rightarrow> (ms @ ms', end_line lg L2)))"

text \<open>The closures \<open>comment\<close> and \<open>string\<close>: they clear a range of the mask, the second only when strings are
  not code.\<close>

definition clear_range :: "nat \<Rightarrow> nat \<Rightarrow> bool list \<Rightarrow> bool list" where
  "clear_range i e m = map (\<lambda>k. m ! k \<and> \<not> (i \<le> k \<and> k < e)) [0..<length m]"

definition apply_mark :: "bool \<Rightarrow> mark \<Rightarrow> bool list \<Rightarrow> bool list" where
  "apply_mark strings_are_code mk m =
     (case mk of (comment, i, e) \<Rightarrow> if comment \<or> \<not> strings_are_code then clear_range i e m else m)"

definition line_mask :: "bool \<Rightarrow> string \<Rightarrow> mark list \<Rightarrow> bool list" where
  "line_mask strings_are_code b ms = fold (apply_mark strings_are_code) ms (replicate (length b) True)"

fun mask_lines :: "lex_lang \<Rightarrow> bool \<Rightarrow> lexer \<Rightarrow> string list \<Rightarrow> bool list list" where
  "mask_lines lg sac L [] = []"
| "mask_lines lg sac L (b # bs) =
     (case lex_line lg b L of (ms, L') \<Rightarrow> line_mask sac b ms # mask_lines lg sac L' bs)"

definition code_mask :: "string \<Rightarrow> string list \<Rightarrow> bool \<Rightarrow> bool list list option" where
  "code_mask path lines strings_are_code =
     map_option (\<lambda>lg. mask_lines lg strings_are_code lexer_start lines) (lex_lang_of path)"

section \<open>The shape of a mask\<close>

lemma clear_range_nth: "k < length m \<Longrightarrow> clear_range i e m ! k = (m ! k \<and> \<not> (i \<le> k \<and> k < e))"
  by (simp add: clear_range_def)

definition clears :: "bool \<Rightarrow> nat \<Rightarrow> mark \<Rightarrow> bool" where
  "clears sac k mk = (case mk of (c, i, e) \<Rightarrow> (c \<or> \<not> sac) \<and> i \<le> k \<and> k < e)"

lemma apply_mark_shape:
  "length (apply_mark sac mk m) = length m"
  "k < length m \<Longrightarrow> apply_mark sac mk m ! k = (m ! k \<and> \<not> clears sac k mk)"
  by (auto simp: apply_mark_def clears_def clear_range_nth clear_range_def split: prod.split)

lemma fold_marks_length: "length (fold (apply_mark sac) ms m) = length m"
  by (induction ms arbitrary: m) (simp_all add: apply_mark_shape)

lemma fold_marks_nth:
  "k < length m \<Longrightarrow> fold (apply_mark sac) ms m ! k = (m ! k \<and> (\<forall>mk\<in>set ms. \<not> clears sac k mk))"
  by (induction ms arbitrary: m) (simp_all add: apply_mark_shape)

lemma length_line_mask [simp]: "length (line_mask sac b ms) = length b"
  by (simp add: line_mask_def fold_marks_length)

lemma line_mask_nth: "k < length b \<Longrightarrow> line_mask sac b ms ! k = (\<forall>mk\<in>set ms. \<not> clears sac k mk)"
  by (simp add: line_mask_def fold_marks_nth)

lemma clears_keep: "clears True k mk \<Longrightarrow> clears False k mk"
  by (auto simp: clears_def)

text \<open>The lexer before each line.\<close>

fun lex_after :: "lex_lang \<Rightarrow> lexer \<Rightarrow> string list \<Rightarrow> lexer" where
  "lex_after lg L [] = L"
| "lex_after lg L (b # bs) = lex_after lg (snd (lex_line lg b L)) bs"

lemma length_mask_lines [simp]: "length (mask_lines lg sac L bs) = length bs"
  by (induction bs arbitrary: L) (auto split: prod.splits)

lemma mask_lines_nth:
  "j < length bs \<Longrightarrow>
   mask_lines lg sac L bs ! j = line_mask sac (bs ! j) (fst (lex_line lg (bs ! j) (lex_after lg L (take j bs))))"
proof (induction bs arbitrary: L j)
  case (Cons b bs)
  then show ?case by (cases j) (auto split: prod.splits)
qed simp

lemma mask_lines_append:
  "mask_lines lg sac L (bs @ bs') = mask_lines lg sac L bs @ mask_lines lg sac (lex_after lg L bs) bs'"
  by (induction bs arbitrary: L) (auto split: prod.splits)

text \<open>A mask has one row per line and one entry per byte; it depends on a line and those before it
  only; and keeping strings as code takes no byte away: a byte that is code when strings are masked
  is code when they are not.\<close>

lemma mask_shape:
  assumes "code_mask path lines True = Some m" and "code_mask path lines False = Some m'"
  shows "map length m = map length lines \<and> map length m' = map length lines
    \<and> (\<forall>j<length lines. \<forall>k<length (lines ! j). m' ! j ! k \<longrightarrow> m ! j ! k)
    \<and> (\<forall>more. map_option (take (length lines)) (code_mask path (lines @ more) False) = Some m')"
proof -
  obtain lg where lg: "lex_lang_of path = Some lg" using assms by (auto simp: code_mask_def)
  have m: "m = mask_lines lg True lexer_start lines" "m' = mask_lines lg False lexer_start lines"
    using assms by (simp_all add: code_mask_def lg)
  have len: "map length (mask_lines lg sac lexer_start lines) = map length lines" for sac
    by (rule nth_equalityI) (simp_all add: mask_lines_nth)
  show ?thesis
  proof (intro conjI allI impI)
    fix j k assume "j < length lines" "k < length (lines ! j)" "m' ! j ! k"
    then show "m ! j ! k" using clears_keep by (auto simp: m mask_lines_nth line_mask_nth)
  qed (simp_all add: m len code_mask_def lg mask_lines_append)
qed

lemma mask_shape_witness:
  "map length (mask_lines LxRust True lexer_start [''a // b'', [CHR ''x'', dquote, CHR ''y'', dquote]])
     = map length [''a // b'', [CHR ''x'', dquote, CHR ''y'', dquote]]"
proof -
  have "lex_lang_of ''a.rs'' = Some LxRust" by code_simp
  then have "code_mask ''a.rs'' ls sac = Some (mask_lines LxRust sac lexer_start ls)" for ls sac
    by (simp add: code_mask_def)
  from mask_shape [OF this this] show ?thesis by blast
qed

section \<open>What a line leaves behind\<close>

definition settled :: "lex_lang \<Rightarrow> lexer \<Rightarrow> bool" where
  "settled lg L \<longleftrightarrow>
     lx_pending L = [] \<and> lx_state L \<noteq> InHeredoc []
     \<and> (lg \<noteq> LxRust \<longrightarrow> \<not> is_str (lx_state L) \<and> (\<forall>f\<in>set (lx_frames L). \<not> is_str (ip_resume f)))"

text \<open>States of a line that is being lexed: no heredoc, so that the queue is never empty when one is closed.\<close>

definition in_line :: "lexer \<Rightarrow> bool" where
  "in_line L \<longleftrightarrow> (\<forall>q. lx_state L \<noteq> InHeredoc q) \<and> (\<forall>f\<in>set (lx_frames L). \<forall>q. ip_resume f \<noteq> InHeredoc q)"

lemma lex_step_in_line:
  assumes "in_line L" and "lx_pos L < length b"
  shows "in_line (snd (lex_step lg b L))"
proof (cases "lx_state L")
  case InCode
  have t: "lx_frames L \<noteq> [] \<Longrightarrow> last (lx_frames L) \<in> set (lx_frames L)" by simp
  show ?thesis
    using code_token_ok [OF assms(2), of lg] assms(1) t InCode
    by (auto simp: lex_step_def step_code_def Let_def token_ok_def in_line_def dest: in_set_butlastD)
next
  case (InMulti q)
  then show ?thesis using assms(1)
    by (auto simp: lex_step_def step_body_def open_frame_def in_line_def split: prod.splits scan_end.splits)
next
  case (InStr q)
  then show ?thesis using assms(1)
    by (auto simp: lex_step_def step_body_def open_frame_def in_line_def split: prod.splits scan_end.splits)
next
  case (InCsStr q d)
  then show ?thesis using assms(1)
    by (auto simp: lex_step_def step_cs_def open_frame_def in_line_def split: prod.splits scan_end.splits)
next
  case (InPercent op cl d i)
  then show ?thesis using assms(1)
    by (auto simp: lex_step_def step_percent_def open_frame_def in_line_def split: prod.splits scan_end.splits)
qed (use assms(1) in \<open>auto simp: lex_step_def step_block_def step_raw_def in_line_def split: prod.splits option.splits\<close>)

lemma lex_loop_in_line: "in_line L \<Longrightarrow> in_line (snd (lex_loop lg b L))"
proof (induction lg b L rule: lex_loop.induct)
  case (1 lg b L)
  show ?case
  proof (cases "lx_pos L < length b")
    case True
    obtain m L' where s: "lex_step lg b L = (m, L')" by fastforce
    have "in_line L'" using lex_step_in_line [OF "1.prems" True, of lg] by (simp add: s)
    with "1.IH" [OF _ s [symmetric]] True show ?thesis
      by (auto simp: lex_loop.simps [of lg b L] s split: prod.splits)
  qed (use "1.prems" in \<open>simp add: lex_loop.simps [of lg b L]\<close>)
qed

text \<open>Between lines a heredoc queue may be open, but then no interpolation waits for it.\<close>

definition line_start :: "lexer \<Rightarrow> bool" where
  "line_start L \<longleftrightarrow> lx_pending L = [] \<and> lx_state L \<noteq> InHeredoc []
     \<and> (\<forall>f\<in>set (lx_frames L). \<forall>q. ip_resume f \<noteq> InHeredoc q)"

lemma begin_line_start:
  assumes "line_start L" and "begin_line lg b L = (ms, L', fin)"
  shows "if fin then line_start L' \<and> lx_frames L' = lx_frames L
           \<and> (lx_state L' = lx_state L \<or> \<not> is_str (lx_state L'))
         else in_line L' \<and> lx_pending L' = []"
proof -
  obtain m1 L1 f1 where h: "begin_heredoc b (L\<lparr>lx_pos := 0\<rparr>) = (m1, L1, f1)" by (metis prod_cases3)
  have h1: "lx_frames L1 = lx_frames L" "lx_pending L1 = []"
    "f1 \<Longrightarrow> line_start L1 \<and> (lx_state L1 = lx_state L \<or> \<not> is_str (lx_state L1))"
    "\<not> f1 \<Longrightarrow> \<forall>q. lx_state L1 \<noteq> InHeredoc q"
    using h assms(1)
    by (auto simp: begin_heredoc_def line_start_def Let_def is_str_def
        split: lex_state.splits list.splits option.splits if_splits)
  show ?thesis
  proof (cases f1)
    case True
    then show ?thesis using assms(2) h h1(1,3) by (auto simp: begin_line_def)
  next
    case False
    obtain m2 L2 f2 where r: "begin_ruby lg b L1 = (m2, L2, f2)" by (metis prod_cases3)
    have "lx_frames L2 = lx_frames L" "lx_pending L2 = []"
      "f2 \<Longrightarrow> lx_state L2 = InCode \<or> lx_state L2 = InLineBlock" "\<not> f2 \<Longrightarrow> lx_state L2 = lx_state L1"
      using r h1 by (auto simp: begin_ruby_def Let_def split: if_splits)
    moreover have "L' = L2" "fin = f2" using assms(2) h r False by (auto simp: begin_line_def)
    ultimately show ?thesis
      using h1(4) False assms(1) by (auto simp: line_start_def in_line_def is_str_def)
  qed
qed

lemma end_line_start: "in_line L \<Longrightarrow> line_start (end_line lg L)"
  by (auto simp: end_line_def end_strings_def Let_def in_line_def line_start_def dest: set_takeWhileD
      split: lex_state.splits)

lemma end_line_no_str:
  "lg \<noteq> LxRust \<Longrightarrow> \<not> is_str (lx_state (end_line lg L)) \<and> (\<forall>f\<in>set (lx_frames (end_line lg L)). \<not> is_str (ip_resume f))"
proof -
  assume "lg \<noteq> LxRust"
  have that: "length (takeWhile (\<lambda>f. \<not> P f) fs) = length fs \<Longrightarrow> \<forall>f\<in>set fs. \<not> P f"
    for P :: "frame \<Rightarrow> bool" and fs
    by (induction fs) (auto split: if_splits)
  have "length (takeWhile (\<lambda>f. \<not> is_str (ip_resume f)) (lx_frames L)) = length (lx_frames L) \<Longrightarrow>
      \<forall>f\<in>set (lx_frames L). \<not> is_str (ip_resume f)"
    by (rule that)
  with \<open>lg \<noteq> LxRust\<close> show ?thesis
    by (cases "lx_state L") (auto simp: end_line_def end_strings_def Let_def dest: set_takeWhileD)
qed

lemma lex_line_settled:
  assumes "line_start L" and "settled lg L"
  shows "line_start (snd (lex_line lg b L)) \<and> settled lg (snd (lex_line lg b L))"
proof -
  obtain ms L1 fin where bl: "begin_line lg b L = (ms, L1, fin)" by (metis prod_cases3)
  note start = begin_line_start [OF assms(1) bl]
  show ?thesis
  proof (cases fin)
    case True
    then show ?thesis using start assms(2) by (auto simp: lex_line_def bl line_start_def settled_def)
  next
    case False
    obtain ms' L2 where l: "lex_loop lg b L1 = (ms', L2)" by fastforce
    have "in_line L2" using lex_loop_in_line [of L1 lg b] start False by (simp add: l)
    then have e: "line_start (end_line lg L2)" by (rule end_line_start)
    then show ?thesis
      using end_line_no_str [of lg L2] False by (auto simp: lex_line_def bl l settled_def line_start_def)
  qed
qed

lemma lex_after_settled: "line_start L \<Longrightarrow> settled lg L \<Longrightarrow> line_start (lex_after lg L bs) \<and> settled lg (lex_after lg L bs)"
  by (induction bs arbitrary: L) (auto dest: lex_line_settled)

text \<open>An unbalanced quote spoils its own line only: before every line no single-line string is open and
  none is waiting for an interpolation to end, except in Rust, whose strings go on; and a line never
  starts in a heredoc whose queue is empty, where the code would panic.\<close>

lemma strings_end_with_their_line:
  "settled lg (lex_after lg lexer_start bs)"
  using lex_after_settled [of lexer_start lg bs]
  by (simp add: lexer_start_def line_start_def settled_def is_str_def)

section \<open>Comments alone\<close>

text \<open>The reference for a file without quotes: each byte of a line with the depth of the block comment
  around it, and the depth after the line.\<close>

function c_comments :: "bool \<Rightarrow> nat \<Rightarrow> string \<Rightarrow> bool list \<times> nat" where
  "c_comments nested d [] = ([], d)"
| "c_comments nested d (c # cs) =
     (let pair = (\<lambda>x y. c = x \<and> (cs \<noteq> [] \<and> hd cs = y))
      in if d = 0 then
           (if pair (CHR ''/'') (CHR ''/'') then (replicate (length (c # cs)) False, 0)
            else if pair (CHR ''/'') (CHR ''*'')
            then (case c_comments nested 1 (tl cs) of (m, e) \<Rightarrow> (False # False # m, e))
            else (case c_comments nested 0 cs of (m, e) \<Rightarrow> (True # m, e)))
         else if pair (CHR ''*'') (CHR ''/'')
         then (case c_comments nested (d - 1) (tl cs) of (m, e) \<Rightarrow> (False # False # m, e))
         else if nested \<and> pair (CHR ''/'') (CHR ''*'')
         then (case c_comments nested (d + 1) (tl cs) of (m, e) \<Rightarrow> (False # False # m, e))
         else (case c_comments nested d cs of (m, e) \<Rightarrow> (False # m, e)))"
  by pat_completeness auto
termination by (relation "measure (\<lambda>(_, _, cs). length cs)") auto

declare c_comments.simps(2) [simp del]

fun c_comment_lines :: "bool \<Rightarrow> nat \<Rightarrow> string list \<Rightarrow> bool list list" where
  "c_comment_lines nested d [] = []"
| "c_comment_lines nested d (b # bs) =
     (case c_comments nested d b of (m, e) \<Rightarrow> m # c_comment_lines nested e bs)"

definition c_like :: "lex_lang \<Rightarrow> bool" where
  "c_like lg \<longleftrightarrow> lg \<in> set [LxC, LxGo, LxRust, LxJava, LxDart, LxKotlin, LxSwift, LxCSharp, LxScala]"

definition unquoted :: "string \<Rightarrow> bool" where
  "unquoted b \<longleftrightarrow> dquote \<notin> set b \<and> squote \<notin> set b \<and> backtick \<notin> set b"

lemma at_not: "c \<notin> set b \<Longrightarrow> at b i \<noteq> Some c"
  by (auto simp: at_def)

lemma c_like_token:
  assumes "c_like lg" and "unquoted b" and "i < length b"
  shows "code_token lg b i =
    (if b ! i = CHR ''/'' \<and> at0 b (i + 1) = CHR ''/'' then commented i (length b) InCode
     else if b ! i = CHR ''/'' \<and> at0 b (i + 1) = CHR ''*'' then commented i (i + 2) (InBlock 1)
     else plain (i + 1))"
proof -
  have lg: "slash_line lg" "block_c lg" "\<not> hash_line lg" "lg \<noteq> LxVue" "lg \<noteq> LxRuby" "lg \<noteq> LxPhp" "lg \<noteq> LxVb" "lg \<noteq> LxLua"
    "lg \<noteq> LxSql" "lg \<noteq> LxShell" "lg \<noteq> LxJs" "lg \<noteq> LxYaml"
    using assms(1) by (auto simp: c_like_def slash_line_def block_c_def hash_line_def)
  have q: "b ! i \<noteq> dquote" "b ! i \<noteq> squote" "b ! i \<noteq> backtick"
    using assms(2) nth_mem [OF assms(3)] unfolding unquoted_def by metis+
  have r: "rust_raw_open b i = None"
    using assms(2) at_not [of dquote b] by (auto simp: rust_raw_open_def Let_def unquoted_def)
  show ?thesis unfolding code_token_def Let_def by (simp add: lg q r)
qed

lemma pair_drop:
  assumes "i < length b"
  shows "drop i b = b ! i # drop (i + 1) b"
    and "drop (i + 1) b \<noteq> [] \<and> hd (drop (i + 1) b) = y \<longleftrightarrow> at b (i + 1) = Some y"
    and "tl (drop (i + 1) b) = drop (i + 2) b"
proof -
  show "drop i b = b ! i # drop (i + 1) b" using Cons_nth_drop_Suc [OF assms] by simp
  show "drop (i + 1) b \<noteq> [] \<and> hd (drop (i + 1) b) = y \<longleftrightarrow> at b (i + 1) = Some y"
    by (cases "i + 1 < length b") (simp_all add: at_def hd_drop_conv_nth)
  show "tl (drop (i + 1) b) = drop (i + 2) b" by (simp add: tl_drop drop_Suc)
qed

lemma replicate_two: "i + 2 \<le> j \<Longrightarrow> replicate (j - i) x = x # x # replicate (j - (i + 2)) x"
proof -
  assume "i + 2 \<le> j"
  then have "j - i = Suc (Suc (j - (i + 2)))" by simp
  then show ?thesis by simp
qed

lemma replicate_one: "i + 1 \<le> j \<Longrightarrow> replicate (j - i) x = x # replicate (j - (i + 1)) x"
proof -
  assume "i + 1 \<le> j"
  then have "j - i = Suc (j - (i + 1))" by simp
  then show ?thesis by simp
qed

lemma c_comments_block:
  "block_scan nested b d i = (i', d', closed) \<Longrightarrow> 0 < d \<Longrightarrow> i \<le> length b \<Longrightarrow>
   i \<le> i' \<and> i' \<le> length b \<and> (closed \<longrightarrow> d' = 0) \<and> (\<not> closed \<longrightarrow> 0 < d' \<and> i' = length b)
   \<and> c_comments nested d (drop i b) = (case c_comments nested d' (drop i' b) of (m, e) \<Rightarrow> (replicate (i' - i) False @ m, e))"
proof (induction nested b d i arbitrary: i' d' closed rule: block_scan.induct)
  case (1 nested b d i)
  show ?case
  proof (cases "i < length b")
    case False
    with "1.prems" show ?thesis by (auto simp: block_scan.simps [of nested b d i])
  next
    case True
    note p = pair_drop [OF True]
    have two: "at b (i + 1) = Some y \<Longrightarrow> i + 2 \<le> length b" for y by (auto simp: at_def split: if_splits)
    note rep = replicate_two [of i _ False] and rep1 = replicate_one [of i _ False]
    consider (close) "b ! i = CHR ''*''" "at b (i + 1) = Some (CHR ''/'')"
      | (nest) "\<not> (b ! i = CHR ''*'' \<and> at b (i + 1) = Some (CHR ''/''))" "nested" "b ! i = CHR ''/''" "at b (i + 1) = Some (CHR ''*'')"
      | (other) "\<not> (b ! i = CHR ''*'' \<and> at b (i + 1) = Some (CHR ''/''))"
          "\<not> (nested \<and> b ! i = CHR ''/'' \<and> at b (i + 1) = Some (CHR ''*''))" by blast
    then show ?thesis
    proof cases
      case close
      have c: "c_comments nested d (drop i b) = (case c_comments nested (d - 1) (drop (i + 2) b) of (m, e) \<Rightarrow> (False # False # m, e))"
        using "1.prems"(2) close by (simp add: p(1) c_comments.simps(2) p(2) [simplified] p(3) [simplified])
      show ?thesis
      proof (cases "d - 1 = 0")
        case True
        with "1.prems" close \<open>i < length b\<close> two [OF close(2)] c show ?thesis
          by (auto simp: block_scan.simps [of nested b d i] rep split: prod.splits)
      next
        case no: False
        have "block_scan nested b (d - 1) (i + 2) = (i', d', closed)"
          using "1.prems"(1) close True no by (simp add: block_scan.simps [of nested b d i])
        from "1.IH"(1) [OF _ _ no this] close True no two [OF close(2)] c show ?thesis
          by (auto simp: rep split: prod.splits)
      qed
    next
      case nest
      have c: "c_comments nested d (drop i b) = (case c_comments nested (d + 1) (drop (i + 2) b) of (m, e) \<Rightarrow> (False # False # m, e))"
        using "1.prems"(2) nest by (simp add: p(1) c_comments.simps(2) p(2) [simplified] p(3) [simplified])
      have "block_scan nested b (d + 1) (i + 2) = (i', d', closed)"
        using "1.prems"(1) nest True unfolding block_scan.simps [of nested b d i] by simp
      from "1.IH"(2) [OF _ _ _ this] nest True two [OF nest(4)] c show ?thesis
        by (auto simp: rep split: prod.splits)
    next
      case other
      have c: "c_comments nested d (drop i b) = (case c_comments nested d (drop (i + 1) b) of (m, e) \<Rightarrow> (False # m, e))"
        using "1.prems"(2) other by (auto simp: p(1) c_comments.simps(2) p(2) [simplified])
      have "block_scan nested b d (i + 1) = (i', d', closed)"
        using "1.prems"(1) other True by (auto simp: block_scan.simps [of nested b d i] split: if_splits)
      from "1.IH"(3) [OF _ other this] "1.prems"(2) True c show ?thesis
        by (auto simp: rep1 split: prod.splits)
    qed
  qed
qed

definition depth_state :: "nat \<Rightarrow> lex_state" where
  "depth_state d = (if d = 0 then InCode else InBlock d)"

definition shows_code :: "bool \<Rightarrow> mark list \<Rightarrow> nat \<Rightarrow> bool" where
  "shows_code sac ms k \<longleftrightarrow> (\<forall>mk\<in>set ms. \<not> clears sac k mk)"

lemma shows_code_simps [simp]:
  "shows_code sac [] k" "shows_code sac (mk # ms) k \<longleftrightarrow> \<not> clears sac k mk \<and> shows_code sac ms k"
  by (simp_all add: shows_code_def)

lemma clears_comment [simp]: "clears sac k (True, i, e) \<longleftrightarrow> i \<le> k \<and> k < e"
  by (simp add: clears_def)

lemma at0_some: "y \<noteq> CHR 0x00 \<Longrightarrow> at0 b i = y \<longleftrightarrow> at b i = Some y"
  by (auto simp: at0_def at_def)

lemma lex_step_comments:
  assumes "c_like lg" and "unquoted b" and i: "lx_pos L < length b"
    and st: "lx_state L = depth_state d" "lx_frames L = []" and s: "lex_step lg b L = (mk, L1)"
  shows "\<exists>j d1. lx_state L1 = depth_state d1 \<and> lx_frames L1 = [] \<and> lx_pending L1 = lx_pending L \<and> lx_pos L1 = j
    \<and> lx_pos L < j \<and> j \<le> length b \<and> (mk = None \<or> mk = Some (True, lx_pos L, j))
    \<and> c_comments (nests lg) d (drop (lx_pos L) b)
      = (case c_comments (nests lg) d1 (drop j b) of (m, e) \<Rightarrow> (replicate (j - lx_pos L) (mk = None) @ m, e))"
proof (cases "d = 0")
  case True
  note p = pair_drop [OF i] and t = c_like_token [OF assms(1,2) i]
  have st0: "lx_state L = InCode" using st True by (simp add: depth_state_def)
  have two_le: "at b (lx_pos L + 1) = Some y \<Longrightarrow> lx_pos L + 2 \<le> length b" for y
    by (auto simp: at_def split: if_splits)
  consider (line) "b ! lx_pos L = CHR ''/''" "at b (lx_pos L + 1) = Some (CHR ''/'')"
    | (block) "b ! lx_pos L = CHR ''/''" "at b (lx_pos L + 1) = Some (CHR ''*'')"
    | (other) "\<not> (b ! lx_pos L = CHR ''/'' \<and> (at b (lx_pos L + 1) = Some (CHR ''/'') \<or> at b (lx_pos L + 1) = Some (CHR ''*'')))"
    by blast
  then show ?thesis
  proof cases
    case line
    have "c_comments (nests lg) 0 (drop (lx_pos L) b) = (replicate (length b - lx_pos L) False, 0)"
      using line i by (simp add: p(1) c_comments.simps(2) p(2) [simplified] Suc_diff_Suc flip: replicate_Suc)
    then show ?thesis
      using s line i st by - (rule exI [of _ "length b"], rule exI [of _ 0],
        auto simp: lex_step_def st0 step_code_def Let_def t at0_some True depth_state_def)
  next
    case block
    have "c_comments (nests lg) 0 (drop (lx_pos L) b)
        = (case c_comments (nests lg) 1 (drop (lx_pos L + 2) b) of (m, e) \<Rightarrow> (False # False # m, e))"
      using block by (simp add: p(1) c_comments.simps(2) p(2) [simplified] p(3) [simplified])
    then show ?thesis
      using s block two_le [OF block(2)] st by - (rule exI [of _ "lx_pos L + 2"], rule exI [of _ 1],
        auto simp: lex_step_def st0 step_code_def Let_def t at0_some True depth_state_def numeral_2_eq_2 split: prod.splits)
  next
    case other
    have "c_comments (nests lg) 0 (drop (lx_pos L) b)
        = (case c_comments (nests lg) 0 (drop (lx_pos L + 1) b) of (m, e) \<Rightarrow> (True # m, e))"
      using other by (auto simp: p(1) c_comments.simps(2) p(2) [simplified])
    then show ?thesis
      using s other i st by - (rule exI [of _ "lx_pos L + 1"], rule exI [of _ 0],
        auto simp: lex_step_def st0 step_code_def Let_def t at0_some True depth_state_def split: prod.splits)
  qed
next
  case False
  obtain j d1 closed where r: "block_scan (nests lg) b d (lx_pos L) = (j, d1, closed)" by (metis prod_cases3)
  have pos: "0 < d" using False by simp
  from c_comments_block [OF r pos less_imp_le [OF i]] block_scan_moves [OF r] i s st False
  show ?thesis
    by - (rule exI [of _ j], rule exI [of _ d1],
        auto simp: lex_step_def step_block_def depth_state_def r split: prod.splits)
qed

lemma lex_loop_comments:
  assumes "c_like lg" and "unquoted b"
  shows "lx_state L = depth_state d \<Longrightarrow> lx_frames L = [] \<Longrightarrow> lx_pos L \<le> length b \<Longrightarrow>
    lex_loop lg b L = (ms, L') \<Longrightarrow> c_comments (nests lg) d (drop (lx_pos L) b) = (m, e) \<Longrightarrow>
    lx_state L' = depth_state e \<and> lx_frames L' = [] \<and> lx_pending L' = lx_pending L
    \<and> length m = length b - lx_pos L
    \<and> (\<forall>k<length b. shows_code sac ms k = (k < lx_pos L \<or> m ! (k - lx_pos L)))"
proof (induction "length b - lx_pos L" arbitrary: L d ms m rule: less_induct)
  case less
  let ?i = "lx_pos L"
  show ?case
  proof (cases "?i < length b")
    case False
    with less.prems show ?thesis by (auto simp: lex_loop.simps [of lg b L])
  next
    case True
    obtain mk L1 where s: "lex_step lg b L = (mk, L1)" by fastforce
    obtain ms1 L2 where l: "lex_loop lg b L1 = (ms1, L2)" by fastforce
    have loop: "ms = (case mk of None \<Rightarrow> ms1 | Some x \<Rightarrow> x # ms1)" "L' = L2"
      using True less.prems(4) by (simp_all add: lex_loop.simps [of lg b L] s l)
    obtain j d1 where j: "lx_state L1 = depth_state d1" "lx_frames L1 = []" "lx_pending L1 = lx_pending L" "lx_pos L1 = j"
      "?i < j" "j \<le> length b" "mk = None \<or> mk = Some (True, ?i, j)"
      "c_comments (nests lg) d (drop ?i b)
        = (case c_comments (nests lg) d1 (drop j b) of (m, e) \<Rightarrow> (replicate (j - ?i) (mk = None) @ m, e))"
      using lex_step_comments [OF assms True less.prems(1,2) s] by blast
    obtain m1 e1 where c: "c_comments (nests lg) d1 (drop j b) = (m1, e1)" by fastforce
    have m: "m = replicate (j - ?i) (mk = None) @ m1" "e = e1" using less.prems(5) by (simp_all add: j(8) c)
    have IH: "lx_state L2 = depth_state e1 \<and> lx_frames L2 = [] \<and> lx_pending L2 = lx_pending L
        \<and> length m1 = length b - j \<and> (\<forall>k<length b. shows_code sac ms1 k = (k < j \<or> m1 ! (k - j)))"
      using less.hyps [of L1 d1 ms1 m1] j l c m(2) loop(2) True by (simp add: diff_less_mono2)
    have "shows_code sac ms k = (k < ?i \<or> m ! (k - ?i))" if "k < length b" for k
    proof -
      have "shows_code sac ms1 k = (k < j \<or> m1 ! (k - j))" using IH that by blast
      then show ?thesis
        using j(5,7) by (cases "k < ?i"; cases "k < j") (auto simp: loop(1) m(1) nth_append)
    qed
    with IH j(5,6) show ?thesis by (simp add: loop(2) m)
  qed
qed

lemma lex_line_comments:
  assumes "c_like lg" and "unquoted b" and st: "lx_state L = depth_state d" "lx_frames L = []" "lx_pending L = []"
    and l: "lex_line lg b L = (ms, L')" and c: "c_comments (nests lg) d b = (m, e)"
  shows "line_mask sac b ms = m \<and> lx_state L' = depth_state e \<and> lx_frames L' = [] \<and> lx_pending L' = []"
proof -
  have lg: "lg \<noteq> LxRuby" using assms(1) by (auto simp: c_like_def)
  have b: "begin_line lg b L = ([], L\<lparr>lx_pos := 0\<rparr>, False)"
    using st(1) lg by (simp add: begin_line_def begin_heredoc_def begin_ruby_def depth_state_def)
  obtain L2 where r: "lex_loop lg b (L\<lparr>lx_pos := 0\<rparr>) = (ms, L2)" "L' = end_line lg L2"
    using l by (auto simp: lex_line_def b split: prod.splits)
  have f: "lx_state L2 = depth_state e \<and> lx_frames L2 = [] \<and> lx_pending L2 = [] \<and> length m = length b
      \<and> (\<forall>k<length b. shows_code s ms k = m ! k)" for s
    using lex_loop_comments [OF assms(1,2) _ _ _ r(1), of d m e s] st c by simp
  have "end_line lg L2 = L2"
    using f [of True] by (simp add: end_line_def end_strings_def depth_state_def)
  moreover have "line_mask sac b ms = m"
    using f [of sac] by (intro nth_equalityI) (simp_all add: line_mask_nth shows_code_def)
  ultimately show ?thesis using f [of True] r(2) by simp
qed

lemma mask_lines_comments:
  "c_like lg \<Longrightarrow> \<forall>b\<in>set bs. unquoted b \<Longrightarrow> lx_state L = depth_state d \<Longrightarrow> lx_frames L = [] \<Longrightarrow> lx_pending L = [] \<Longrightarrow>
   mask_lines lg sac L bs = c_comment_lines (nests lg) d bs"
proof (induction bs arbitrary: L d)
  case (Cons b bs)
  obtain ms L' where l: "lex_line lg b L = (ms, L')" by fastforce
  obtain m e where c: "c_comments (nests lg) d b = (m, e)" by fastforce
  have "unquoted b" using Cons.prems(2) by simp
  from lex_line_comments [OF Cons.prems(1) this Cons.prems(3-5) l c] Cons.IH [of L' e] Cons.prems(1,2)
  show ?case by (simp add: l c)
qed simp

text \<open>C40: in a file of a C-like language without quotes the mask is exactly the bytes outside comments:
  what follows \<open>//\<close> on its line and what stands between \<open>/*\<close> and \<open>*/\<close>, over line ends, nested where the
  language nests them.\<close>

theorem mask_is_comments:
  assumes "lex_lang_of path = Some lg" and "c_like lg" and "\<forall>b\<in>set lines. unquoted b"
  shows "code_mask path lines sac = Some (c_comment_lines (nests lg) 0 lines)"
  using mask_lines_comments [OF assms(2,3), of lexer_start 0 sac] assms(1)
  by (simp add: code_mask_def lexer_start_def depth_state_def)

theorem mask_is_comments_witness:
  "code_mask ''a.rs'' [''a /* b'', ''/* c */ d'', ''*/ e // f''] True
     = Some [[True, True, False, False, False, False],
             [False, False, False, False, False, False, False, False, False],
             [False, False, True, True, True, False, False, False, False]]"
proof -
  have p: "lex_lang_of ''a.rs'' = Some LxRust" and l: "c_like LxRust" by code_simp+
  have "\<forall>b\<in>set [''a /* b'', ''/* c */ d'', ''*/ e // f'']. unquoted b" by code_simp
  from mask_is_comments [OF p l this] show ?thesis by (simp only:) code_simp
qed

end
