(* ===== verification/Framing.thy ===== *)
theory Framing
  imports RelPaths
begin

text \<open>
  Framing of the language-server wire (\<open>astrolabe-core/src/lsp/transport.rs\<close>): the incremental
  \<open>FrameParser\<close> with its header scan, the frame \<open>write_rpc\<close> builds, and the loop of \<open>read_stdout\<close>
  that feeds the parser whatever a read returned.  A byte slice is a \<open>string\<close>; what the pipe
  delivers is the list of results of the reads, in order, and dispatching a body is appending it to
  the bodies delivered.
\<close>

section \<open>Bytes\<close>

definition is_ascii_ws :: "char \<Rightarrow> bool" where
  "is_ascii_ws c \<longleftrightarrow> c \<in> {CHR '' '', CHR 0x09, CHR 0x0A, CHR 0x0C, CHR 0x0D}"

definition trim_ascii :: "string \<Rightarrow> string" where
  "trim_ascii s = rev (dropWhile is_ascii_ws (rev (dropWhile is_ascii_ws s)))"

definition eq_ignore_ascii_case :: "string \<Rightarrow> string \<Rightarrow> bool" where
  "eq_ignore_ascii_case a b \<longleftrightarrow> ascii_lowercase a = ascii_lowercase b"

abbreviation LF :: char where "LF \<equiv> CHR 0x0A"
abbreviation CR :: char where "CR \<equiv> CHR 0x0D"

definition usize_bound :: nat where
  "usize_bound = 2 ^ 64"

section \<open>The parser\<close>

definition max_header_bytes :: nat where
  "max_header_bytes = 8 * 1024"

definition max_body_bytes :: nat where
  "max_body_bytes = 32 * 1024 * 1024"

text \<open>The three \<open>LspError::Protocol\<close> values of \<open>next\<close>.\<close>

datatype frame_error = Header_too_long | Missing_length | Payload_too_long nat

definition find_header_end :: "string \<Rightarrow> nat option" where
  "find_header_end buf =
     (let crlf = map_option (\<lambda>i. i + 4) (find_sub buf [CR, LF, CR, LF]);
          lf = map_option (\<lambda>i. i + 2) (find_sub buf [LF, LF])
      in case crlf of
           Some a \<Rightarrow> (case lf of Some b \<Rightarrow> Some (min a b) | None \<Rightarrow> Some a)
         | None \<Rightarrow> lf)"

fun length_in_lines :: "string list \<Rightarrow> nat option" where
  "length_in_lines [] = None"
| "length_in_lines (l # ls) =
     (let line = strip_cr l
      in case find_sub line '':'' of
           None \<Rightarrow> length_in_lines ls
         | Some colon \<Rightarrow>
             if \<not> eq_ignore_ascii_case (trim_ascii (take colon line)) ''content-length''
             then length_in_lines ls
             else (let s = trim_ascii (drop (colon + 1) line)
                   in if utf8_valid s then parse_uint usize_bound s else None))"

definition parse_content_length :: "string \<Rightarrow> nat option" where
  "parse_content_length header = length_in_lines (split_on LF header)"

definition sat_add :: "nat \<Rightarrow> nat \<Rightarrow> nat" where
  "sat_add a b = min (a + b) (usize_bound - 1)"

text \<open>\<open>FrameParser::next\<close>: an error, nothing yet, or a body; with the buffer left behind.\<close>

definition frame_next :: "string \<Rightarrow> (frame_error + string option) \<times> string" where
  "frame_next buf =
     (case find_header_end buf of
        None \<Rightarrow> (if length buf > max_header_bytes then Inl Header_too_long else Inr None, buf)
      | Some header_end \<Rightarrow>
          (case parse_content_length (take header_end buf) of
             None \<Rightarrow> (Inl Missing_length, buf)
           | Some content_len \<Rightarrow>
               if content_len > max_body_bytes then (Inl (Payload_too_long content_len), buf)
               else let total = sat_add header_end content_len
                    in if length buf < total then (Inr None, buf)
                       else (Inr (Some (take (total - header_end) (drop header_end buf))),
                             drop total buf)))"

definition encode_frame :: "string \<Rightarrow> string" where
  "encode_frame body = ''Content-Length: '' @ show_nat (length body) @ [CR, LF, CR, LF] @ body"

lemma find_header_end_ge2: "find_header_end buf = Some h \<Longrightarrow> 2 \<le> h"
  by (auto simp: find_header_end_def Let_def split: option.splits)

lemma frame_next_shorter:
  assumes "frame_next buf = (Inr (Some body), rest)" and "find_header_end buf \<noteq> None"
  shows "length rest < length buf"
proof -
  obtain h where h: "find_header_end buf = Some h" using assms(2) by auto
  then have "2 \<le> h" by (rule find_header_end_ge2)
  moreover obtain n where "parse_content_length (take h buf) = Some n" "n \<le> max_body_bytes"
    and len: "sat_add h n \<le> length buf" and r: "rest = drop (sat_add h n) buf"
    using assms(1) h
    by (auto simp: frame_next_def Let_def not_less split: option.splits if_splits)
  moreover have "0 < sat_add h n" using \<open>2 \<le> h\<close> by (simp add: sat_add_def usize_bound_def)
  ultimately show ?thesis by (cases buf) auto
qed

lemma frame_next_body_header: "frame_next buf = (Inr (Some body), rest) \<Longrightarrow> find_header_end buf \<noteq> None"
  by (cases "find_header_end buf") (auto simp: frame_next_def split: if_splits)

text \<open>The inner loop of \<open>read_stdout\<close>: bodies until the parser wants more input or fails.\<close>

function drain_frames :: "string \<Rightarrow> string list \<times> frame_error option \<times> string" where
  "drain_frames buf =
     (case frame_next buf of
        (Inl e, rest) \<Rightarrow> ([], Some e, rest)
      | (Inr None, rest) \<Rightarrow> ([], None, rest)
      | (Inr (Some body), rest) \<Rightarrow>
          (case drain_frames rest of (bodies, e, left) \<Rightarrow> (body # bodies, e, left)))"
  by pat_completeness auto
termination
proof (relation "measure length", goal_cases)
  case (2 buf a b body)
  then show ?case using frame_next_shorter frame_next_body_header by simp metis
qed simp

declare drain_frames.simps [simp del]

datatype read_result = Got string | Interrupted | Failed

datatype reader_end = Waiting string | Bad_frame frame_error | Closed

fun read_stdout :: "read_result list \<Rightarrow> string \<Rightarrow> string list \<times> reader_end" where
  "read_stdout rs buf =
     (case drain_frames buf of
        (bodies, Some e, _) \<Rightarrow> (bodies, Bad_frame e)
      | (bodies, None, left) \<Rightarrow>
          (case rs of
             [] \<Rightarrow> (bodies, Waiting left)
           | Got d # rs' \<Rightarrow>
               if d = [] then (bodies, Closed)
               else (case read_stdout rs' (left @ d) of (ms, e) \<Rightarrow> (bodies @ ms, e))
           | Interrupted # rs' \<Rightarrow>
               (case read_stdout rs' left of (ms, e) \<Rightarrow> (bodies @ ms, e))
           | Failed # _ \<Rightarrow> (bodies, Closed)))"

declare read_stdout.simps [simp del]

section \<open>What the parser has seen it keeps\<close>

lemma find_header_end_append:
  assumes "find_header_end s = Some h"
  shows "find_header_end (s @ t) = Some h"
proof -
  let ?C = "[CR, LF, CR, LF]" and ?L = "[LF, LF]"
  have C: "i + 4 \<le> length s" if "find_sub s ?C = Some i" for i using find_sub_bound [OF that] by simp
  have L: "i + 2 \<le> length s" if "find_sub s ?L = Some i" for i using find_sub_bound [OF that] by simp
  have NC: "length s < i + 4" if "find_sub s ?C = None" "find_sub (s @ t) ?C = Some i" for i
    using find_sub_new [OF that] by simp
  have NL: "length s < i + 2" if "find_sub s ?L = None" "find_sub (s @ t) ?L = Some i" for i
    using find_sub_new [OF that] by simp
  note app = find_sub_append [of s ?C _ t] find_sub_append [of s ?L _ t]
  show ?thesis
  proof (cases "find_sub s ?C"; cases "find_sub s ?L")
    fix a b assume "find_sub s ?C = Some a" "find_sub s ?L = Some b"
    then show ?thesis using assms app by (simp add: find_header_end_def)
  next
    fix a assume a: "find_sub s ?C = Some a" "find_sub s ?L = None"
    then show ?thesis using assms app C [OF a(1)] NL [OF a(2)]
      by (cases "find_sub (s @ t) ?L") (auto simp: find_header_end_def)
  next
    fix b assume b: "find_sub s ?C = None" "find_sub s ?L = Some b"
    then show ?thesis using assms app L [OF b(2)] NC [OF b(1)]
      by (cases "find_sub (s @ t) ?C") (auto simp: find_header_end_def)
  next
    assume "find_sub s ?C = None" "find_sub s ?L = None"
    then show ?thesis using assms by (simp add: find_header_end_def)
  qed
qed

lemma find_header_end_le: "find_header_end s = Some h \<Longrightarrow> h \<le> length s"
  by (auto simp: find_header_end_def Let_def min_def split: option.splits if_splits dest!: find_sub_bound)

lemma frame_next_append_body:
  assumes "frame_next s = (Inr (Some body), rest)"
  shows "frame_next (s @ t) = (Inr (Some body), rest @ t)"
proof -
  obtain h where h: "find_header_end s = Some h" using frame_next_body_header [OF assms] by auto
  then show ?thesis
    using assms find_header_end_append [OF h, of t] find_header_end_le [OF h]
    by (auto simp: frame_next_def Let_def sat_add_def split: option.splits if_splits)
qed

lemma frame_next_waits: "frame_next s = (Inr None, rest) \<Longrightarrow> rest = s"
  by (auto simp: frame_next_def Let_def split: option.splits if_splits)

text \<open>Draining early changes nothing: what a drained prefix delivers and leaves, and the rest of the
  stream, give what one drain of everything gives.\<close>

lemma drain_append:
  "drain_frames s = (bodies, None, left) \<Longrightarrow>
   drain_frames (s @ t) = (case drain_frames (left @ t) of (ms, e, l) \<Rightarrow> (bodies @ ms, e, l))"
proof (induction s arbitrary: bodies left rule: drain_frames.induct)
  case (1 s)
  obtain r rest where n: "frame_next s = (r, rest)" by fastforce
  show ?case
  proof (cases r)
    case (Inl e)
    then show ?thesis using "1.prems" n by (simp add: drain_frames.simps [of s])
  next
    case (Inr ob)
    show ?thesis
    proof (cases ob)
      case None
      then have "bodies = []" "left = s"
        using "1.prems" n Inr frame_next_waits [of s rest] by (auto simp: drain_frames.simps [of s])
      then show ?thesis by (simp add: case_prod_unfold)
    next
      case (Some body)
      then have n': "frame_next s = (Inr (Some body), rest)" using n Inr by simp
      obtain bs where d: "drain_frames rest = (bs, None, left)" "bodies = body # bs"
        using "1.prems" n' by (auto simp: drain_frames.simps [of s] split: prod.splits)
      have "drain_frames (rest @ t) = (case drain_frames (left @ t) of (ms, e, l) \<Rightarrow> (bs @ ms, e, l))"
        by (rule "1.IH" [OF n' [symmetric]]) (use Inr Some d in simp_all)
      then show ?thesis
        using frame_next_append_body [OF n', of t] d(2)
        by (simp add: drain_frames.simps [of "s @ t"] split: prod.splits)
    qed
  qed
qed

lemma drain_left_waits: "drain_frames s = (bodies, None, left) \<Longrightarrow> drain_frames left = ([], None, left)"
proof (induction s arbitrary: bodies rule: drain_frames.induct)
  case (1 s)
  obtain r rest where n: "frame_next s = (r, rest)" by fastforce
  show ?case
  proof (cases "\<exists>b. r = Inr (Some b)")
    case True
    then obtain b where r: "r = Inr (Some b)" by auto
    obtain bs where "drain_frames rest = (bs, None, left)"
      using "1.prems" n r by (auto simp: drain_frames.simps [of s] split: prod.splits)
    then show ?thesis using "1.IH" [OF n [symmetric] r, of b] by blast
  next
    case False
    then have "left = s" "frame_next s = (Inr None, s)"
      using "1.prems" n frame_next_waits [of s rest]
      by (auto simp: drain_frames.simps [of s] split: sum.splits option.splits prod.splits)
    then show ?thesis by (simp add: drain_frames.simps [of s])
  qed
qed

section \<open>Frames written by \<open>write_rpc\<close>\<close>

abbreviation frame_head :: "string \<Rightarrow> string" where
  "frame_head body \<equiv> ''Content-Length: '' @ show_nat (length body)"

lemma digit_not: "is_ascii_digit c \<Longrightarrow> c \<noteq> CR \<and> c \<noteq> LF \<and> c \<noteq> CHR '':'' \<and> \<not> is_ascii_ws c \<and> byte c < 128"
  by (auto simp: is_ascii_digit_def is_ascii_ws_def)

lemma frame_head_plain: "CR \<notin> set (frame_head b) \<and> LF \<notin> set (frame_head b)"
  using digit_not [OF show_nat_digits [of _ "length b"]] by auto

lemma find_header_end_at:
  assumes "CR \<notin> set u" "LF \<notin> set u"
  shows "find_header_end (u @ [CR, LF, CR, LF] @ t) = Some (length u + 4)"
proof -
  have "find_sub (u @ [CR, LF, CR, LF] @ t) [CR, LF, CR, LF] = Some (length u)"
    using assms(1) by (simp add: find_sub_absent)
  moreover have "find_sub (u @ [CR, LF, CR, LF] @ t) [LF, LF] = map_option (\<lambda>i. length u + (i + 3)) (find_sub (LF # t) [LF, LF])"
    using assms(2)
    by (simp add: find_sub_absent option.map_comp comp_def numeral_3_eq_3)
  ultimately show ?thesis
    by (cases "find_sub (LF # t) [LF, LF]") (simp_all add: find_header_end_def)
qed

lemma ascii_digits_valid: "\<forall>c\<in>set s. byte c < 128 \<Longrightarrow> utf8_valid s"
  by (induction s) auto

lemma trim_ascii_id: "s \<noteq> [] \<Longrightarrow> \<not> is_ascii_ws (hd s) \<Longrightarrow> \<not> is_ascii_ws (last s) \<Longrightarrow> trim_ascii s = s"
  by (simp add: trim_ascii_def dropWhile_eq_self_iff [THEN iffD2] hd_rev)

lemma trim_ascii_space: "trim_ascii (CHR '' '' # s) = trim_ascii s"
  by (simp add: trim_ascii_def is_ascii_ws_def)

lemma trim_ascii_show_nat: "trim_ascii (CHR '' '' # show_nat n) = show_nat n"
proof -
  have "\<not> is_ascii_ws (hd (show_nat n))" "\<not> is_ascii_ws (last (show_nat n))"
    using digit_not [OF show_nat_digits [of _ n]] by simp_all
  then show ?thesis by (simp add: trim_ascii_space trim_ascii_id)
qed

lemma strip_cr_snoc: "strip_cr (s @ [CR]) = s"
  by (simp add: strip_cr_def strip_suffix_def ends_with_def)

lemma content_length_name: "eq_ignore_ascii_case (trim_ascii ''Content-Length'') ''content-length''"
  by code_simp

lemma parse_frame_head:
  assumes "length b < usize_bound"
  shows "parse_content_length (frame_head b @ [CR, LF, CR, LF]) = Some (length b)"
proof -
  have "split_on LF ((frame_head b @ [CR]) @ LF # [CR, LF])
      = split_on LF (frame_head b @ [CR]) @ split_on LF [CR, LF]"
    unfolding split_on_def by (rule split_by_append_sep) simp
  moreover have "split_on LF (frame_head b @ [CR]) = [frame_head b @ [CR]]"
    unfolding split_on_def using frame_head_plain [of b] by (intro split_by_id) auto
  ultimately have lines: "split_on LF (frame_head b @ [CR, LF, CR, LF]) = (frame_head b @ [CR]) # split_on LF [CR, LF]"
    by simp
  have strip: "strip_cr (frame_head b @ [CR]) = frame_head b" by (rule strip_cr_snoc)
  have digits: "trim_ascii (drop (14 + 1) (frame_head b)) = show_nat (length b)"
    using trim_ascii_show_nat by simp
  have valid: "utf8_valid (show_nat (length b))"
    using digit_not [OF show_nat_digits [of _ "length b"]] by (intro ascii_digits_valid) auto
  have name: "eq_ignore_ascii_case (trim_ascii (take 14 (frame_head b))) ''content-length''"
    using content_length_name by simp
  have colon: "find_sub (frame_head b) '':'' = Some 14" by simp
  show ?thesis
    unfolding parse_content_length_def lines length_in_lines.simps Let_def strip colon option.case digits
    using name valid parse_uint_show_nat [OF assms] by simp
qed

lemma show_nat_length: "n < 10 ^ k \<Longrightarrow> 0 < k \<Longrightarrow> length (show_nat n) \<le> k"
proof (induction k arbitrary: n)
  case (Suc k)
  show ?case
  proof (cases "n < 10")
    case True
    then show ?thesis by (simp add: show_nat.simps [of n])
  next
    case False
    then have "0 < k" using Suc.prems by (cases k) auto
    moreover have "n div 10 < 10 ^ k" using Suc.prems by (simp add: less_mult_imp_div_less mult.commute)
    ultimately show ?thesis using Suc.IH [of "n div 10"] False by (simp add: show_nat.simps [of n])
  qed
qed simp

lemma cut_head: "take (length u + 4) (u @ [CR, LF, CR, LF] @ v) = u @ [CR, LF, CR, LF]"
  by simp

lemma cut_body: "drop (length u + 4) (u @ [CR, LF, CR, LF] @ v) = v"
  by simp

lemma frame_next_encode:
  assumes "length b \<le> max_body_bytes"
  shows "frame_next (encode_frame b @ t) = (Inr (Some b), t)"
proof -
  let ?h = "length (frame_head b) + 4"
  have n: "length b < usize_bound"
    using assms by (simp add: max_body_bytes_def usize_bound_def)
  have e: "encode_frame b @ t = frame_head b @ [CR, LF, CR, LF] @ (b @ t)"
    by (simp add: encode_frame_def)
  have h: "find_header_end (encode_frame b @ t) = Some ?h"
    unfolding e using frame_head_plain [of b] by (intro find_header_end_at) auto
  have l: "length (show_nat (length b)) \<le> 8"
    using assms by (intro show_nat_length) (simp_all add: max_body_bytes_def)
  have "take ?h (encode_frame b @ t) = frame_head b @ [CR, LF, CR, LF]"
    unfolding e by (rule cut_head)
  moreover have "sat_add ?h (length b) = ?h + length b"
    using assms l by (simp add: sat_add_def usize_bound_def max_body_bytes_def)
  moreover have "drop ?h (encode_frame b @ t) = b @ t" unfolding e by (rule cut_body)
  moreover have "drop (?h + length b) (encode_frame b @ t) = t"
    unfolding e using cut_body [of "frame_head b" "b @ t"] by (simp only: drop_drop [symmetric] add.commute) simp
  moreover have "length (encode_frame b @ t) = ?h + length b + length t" unfolding e by simp
  ultimately show ?thesis
    unfolding frame_next_def h option.case Let_def
    using parse_frame_head [OF n] assms by simp
qed

lemma frame_next_partial:
  assumes "length b \<le> max_body_bytes" and pq: "encode_frame b = p @ q" and "q \<noteq> []"
  shows "frame_next p = (Inr None, p)"
proof -
  let ?n = "length (frame_head b) + 4"
  have e: "encode_frame b = frame_head b @ [CR, LF, CR, LF] @ b" by (simp add: encode_frame_def)
  have end_all: "find_header_end (p @ q) = Some ?n"
    unfolding pq [symmetric] e using frame_head_plain [of b] by (intro find_header_end_at) auto
  have small: "length (show_nat (length b)) \<le> 8"
    using assms(1) by (intro show_nat_length) (simp_all add: max_body_bytes_def)
  have "length (p @ q) = ?n + length b" unfolding pq [symmetric] e by simp
  then have len: "length p < ?n + length b" using \<open>q \<noteq> []\<close> by (cases q) auto
  show ?thesis
  proof (cases "find_header_end p")
    case None
    have "length p < ?n"
    proof (rule ccontr)
      assume "\<not> ?thesis"
      then have "take ?n p = take ?n (p @ q)" by simp
      also have "\<dots> = take ?n (frame_head b @ [CR, LF, CR, LF] @ b)" using pq e by simp
      also have "\<dots> = frame_head b @ [CR, LF, CR, LF]"
        by (rule cut_head)
      finally have "p = frame_head b @ [CR, LF, CR, LF] @ drop ?n p"
        by (metis append.assoc append_take_drop_id)
      then have "find_header_end p = Some ?n"
        using frame_head_plain [of b] find_header_end_at by metis
      with None show False by simp
    qed
    then have "length p \<le> max_header_bytes" using small by (simp add: max_header_bytes_def)
    with None show ?thesis by (simp add: frame_next_def)
  next
    case (Some h)
    then have h: "h = ?n" using find_header_end_append [OF Some, of q] end_all by simp
    have "h \<le> length p" by (rule find_header_end_le [OF Some])
    then have "take h p = take ?n (encode_frame b)" unfolding pq h by simp
    also have "\<dots> = take ?n (frame_head b @ [CR, LF, CR, LF] @ b)" unfolding e ..
    also have "\<dots> = frame_head b @ [CR, LF, CR, LF]" by (rule cut_head)
    finally have "parse_content_length (take h p) = Some (length b)"
      using parse_frame_head [of b] assms(1) by (simp add: max_body_bytes_def usize_bound_def)
    moreover have "sat_add h (length b) = ?n + length b"
      using assms(1) small h by (simp add: sat_add_def usize_bound_def max_body_bytes_def)
    ultimately show ?thesis using Some len assms(1) by (simp add: frame_next_def)
  qed
qed

definition frames_of :: "string list \<Rightarrow> string" where
  "frames_of bodies = concat (map encode_frame bodies)"

lemma drain_stream:
  assumes "\<forall>b\<in>set bodies. length b \<le> max_body_bytes" and "frames_of bodies = p @ q"
  shows "\<exists>k part. k \<le> length bodies \<and> drain_frames p = (take k bodies, None, part)
    \<and> p = frames_of (take k bodies) @ part \<and> (q = [] \<longrightarrow> k = length bodies \<and> part = [])"
  using assms
proof (induction bodies arbitrary: p)
  case Nil
  then have "p = []" "q = []" by (simp_all add: frames_of_def)
  moreover have "frame_next [] = (Inr None, [])" by code_simp
  ultimately show ?case by (auto simp: drain_frames.simps [of "[]"] frames_of_def)
next
  case (Cons b bs)
  have b: "length b \<le> max_body_bytes" using Cons.prems(1) by simp
  have s: "encode_frame b @ frames_of bs = p @ q" using Cons.prems(2) by (simp add: frames_of_def)
  show ?case
  proof (cases "\<exists>p'. p = encode_frame b @ p'")
    case True
    then obtain p' where p: "p = encode_frame b @ p'" by auto
    then have "frames_of bs = p' @ q" using s by simp
    with Cons.IH [of p'] Cons.prems(1) obtain k part where k: "k \<le> length bs"
      "drain_frames p' = (take k bs, None, part)" "p' = frames_of (take k bs) @ part"
      "q = [] \<longrightarrow> k = length bs \<and> part = []" by auto
    have "drain_frames p = (take (Suc k) (b # bs), None, part)"
      unfolding p using k(2) frame_next_encode [OF b, of p'] by (simp add: drain_frames.simps [of "encode_frame b @ p'"])
    moreover have "p = frames_of (take (Suc k) (b # bs)) @ part"
      using p k(3) by (simp add: frames_of_def)
    ultimately show ?thesis using k(1,4)
      by (intro exI [where x = "Suc k"] exI [where x = part]) auto
  next
    case False
    then obtain r where r: "encode_frame b = p @ r" "r \<noteq> []" "q = r @ frames_of bs"
      using s by (auto simp: append_eq_append_conv2)
    have "frame_next p = (Inr None, p)" by (rule frame_next_partial [OF b r(1,2)])
    then have "drain_frames p = ([], None, p)" by (simp add: drain_frames.simps [of p])
    then show ?thesis using r by (intro exI [where x = 0] exI [where x = p]) (auto simp: frames_of_def)
  qed
qed

fun read_bytes :: "read_result list \<Rightarrow> string" where
  "read_bytes [] = []"
| "read_bytes (Got d # rs) = d @ read_bytes rs"
| "read_bytes (_ # rs) = read_bytes rs"

definition clean_reads :: "read_result list \<Rightarrow> bool" where
  "clean_reads rs \<longleftrightarrow> Got [] \<notin> set rs \<and> Failed \<notin> set rs"

text \<open>Reading in pieces is draining everything read, as long as no prefix is an error.\<close>

lemma read_stdout_drains:
  assumes "clean_reads rs" and "drain_frames seen = (before, None, left)"
    and "\<And>u v. seen @ read_bytes rs = u @ v \<Longrightarrow> \<exists>bs l. drain_frames u = (bs, None, l)"
  shows "\<exists>ms l. read_stdout rs left = (ms, Waiting l) \<and>
    drain_frames (seen @ read_bytes rs) = (before @ ms, None, l)"
  using assms
proof (induction rs arbitrary: seen before left)
  case Nil
  have "drain_frames left = ([], None, left)" by (rule drain_left_waits [OF Nil.prems(2)])
  with Nil show ?case by (simp add: read_stdout.simps)
next
  case (Cons r rs)
  have l0: "drain_frames left = ([], None, left)" by (rule drain_left_waits [OF Cons.prems(2)])
  have clean: "clean_reads rs" using Cons.prems(1) by (simp add: clean_reads_def)
  show ?case
  proof (cases r)
    case (Got d)
    then have d: "d \<noteq> []" using Cons.prems(1) by (auto simp: clean_reads_def)
    obtain bs l where dr: "drain_frames (seen @ d) = (bs, None, l)"
      using Cons.prems(3) [of "seen @ d" "read_bytes rs"] Got by auto
    then obtain ms where ms: "drain_frames (left @ d) = (ms, None, l)" "bs = before @ ms"
      using drain_append [OF Cons.prems(2), of d] by (auto split: prod.splits)
    have "\<exists>ms' l'. read_stdout rs l = (ms', Waiting l') \<and>
        drain_frames ((seen @ d) @ read_bytes rs) = (bs @ ms', None, l')"
      by (rule Cons.IH [OF clean dr]) (use Cons.prems(3) Got in simp)
    then obtain ms' l' where r': "read_stdout rs l = (ms', Waiting l')"
      "drain_frames (seen @ d @ read_bytes rs) = (bs @ ms', None, l')" by auto
    have "read_stdout rs (left @ d) = (ms @ ms', Waiting l')"
      using r'(1) ms(1) drain_left_waits [OF ms(1)]
      by (simp add: read_stdout.simps [of rs] split: list.splits read_result.splits prod.splits if_splits)
    then have "read_stdout (r # rs) left = (ms @ ms', Waiting l')"
      using Got d l0 by (subst read_stdout.simps) simp
    then show ?thesis using Got r'(2) ms(2) by simp
  next
    case Interrupted
    then have "\<exists>ms l. read_stdout rs left = (ms, Waiting l) \<and>
        drain_frames (seen @ read_bytes rs) = (before @ ms, None, l)"
      using Cons.prems(3) by (intro Cons.IH [OF clean Cons.prems(2)]) simp
    then show ?thesis using Interrupted l0 by (subst read_stdout.simps) auto
  next
    case Failed
    then show ?thesis using Cons.prems(1) by (simp add: clean_reads_def)
  qed
qed

text \<open>The state of the parser between reads holds a bounded amount of input.\<close>

definition buffer_small :: "nat \<Rightarrow> string \<Rightarrow> bool" where
  "buffer_small chunk buf \<longleftrightarrow>
     frame_next buf = (Inr None, buf) \<and>
     (case find_header_end buf of None \<Rightarrow> True | Some h \<Rightarrow> h \<le> max_header_bytes + chunk)"

lemma buffer_small_length:
  assumes "buffer_small chunk buf"
  shows "length buf < max_header_bytes + chunk + max_body_bytes"
proof (cases "find_header_end buf")
  case None
  then show ?thesis using assms
    by (auto simp: buffer_small_def frame_next_def max_body_bytes_def split: if_splits)
next
  case (Some h)
  then obtain n where "n \<le> max_body_bytes" "length buf < sat_add h n" "h \<le> max_header_bytes + chunk"
    using assms by (auto simp: buffer_small_def frame_next_def Let_def not_less split: option.splits if_splits)
  then show ?thesis by (simp add: sat_add_def)
qed

lemma drain_left_suffix: "drain_frames s = (bs, e, left) \<Longrightarrow> \<exists>u. s = u @ left"
proof (induction s arbitrary: bs rule: drain_frames.induct)
  case (1 s)
  obtain r rest where n: "frame_next s = (r, rest)" by fastforce
  then obtain k where k: "rest = drop k s"
    by (auto simp: frame_next_def Let_def split: option.splits if_splits intro: that [of 0])
  show ?case
  proof (cases "\<exists>b. r = Inr (Some b)")
    case True
    then obtain b where r: "r = Inr (Some b)" by auto
    obtain bs' where "drain_frames rest = (bs', e, left)"
      using "1.prems" n r by (auto simp: drain_frames.simps [of s] split: prod.splits)
    then obtain u where "rest = u @ left" using "1.IH" [OF n [symmetric] r, of b] by blast
    then have "s = (take k s @ u) @ left" using k by (metis append.assoc append_take_drop_id)
    then show ?thesis by blast
  next
    case False
    then have "left = rest"
      using "1.prems" n by (auto simp: drain_frames.simps [of s] split: sum.splits option.splits)
    then show ?thesis using k by (metis append_take_drop_id)
  qed
qed

lemma first_frame_ends_in_new:
  assumes "frame_next buf = (Inr None, buf)" and "frame_next (buf @ d) = (Inr (Some b), rest)"
    and "length (buf @ d) < usize_bound"
  shows "length rest \<le> length d"
proof -
  obtain h where h: "find_header_end (buf @ d) = Some h"
    using frame_next_body_header [OF assms(2)] by auto
  then have hd: "h \<le> length (buf @ d)" by (rule find_header_end_le)
  obtain n where n: "parse_content_length (take h (buf @ d)) = Some n" "n \<le> max_body_bytes"
    and rest: "rest = drop (sat_add h n) (buf @ d)"
    using assms(2) h by (auto simp: frame_next_def Let_def split: option.splits if_splits)
  have "length buf \<le> sat_add h n"
  proof (cases "find_header_end buf")
    case (Some h')
    then have "h' = h" using find_header_end_append [OF Some, of d] h by simp
    moreover have "h' \<le> length buf" by (rule find_header_end_le [OF Some])
    ultimately show ?thesis
      using assms(1) Some n by (auto simp: frame_next_def Let_def split: if_splits)
  next
    case None
    then have none: "find_sub buf [CR, LF, CR, LF] = None" "find_sub buf [LF, LF] = None"
      by (auto simp: find_header_end_def Let_def split: option.splits)
    have "length buf < h"
      using h find_sub_new [OF none(1), of d] find_sub_new [OF none(2), of d]
      by (auto simp: find_header_end_def Let_def split: option.splits)
    then show ?thesis using hd assms(3) by (simp add: sat_add_def)
  qed
  then show ?thesis using rest by simp
qed

lemma drained_small:
  assumes "buffer_small chunk buf" and "length d \<le> chunk" and "chunk \<le> 2 ^ 32"
    and "drain_frames (buf @ d) = (bs, None, left)"
  shows "buffer_small chunk left"
proof -
  have waits: "frame_next left = (Inr None, left)"
    using drain_left_waits [OF assms(4)] frame_next_waits
    by (auto simp: drain_frames.simps [of left] split: prod.splits sum.splits option.splits)
  have "find_header_end left = Some h \<Longrightarrow> h \<le> max_header_bytes + chunk" for h
  proof -
    assume h: "find_header_end left = Some h"
    obtain r rest where n: "frame_next (buf @ d) = (r, rest)" by fastforce
    show "h \<le> max_header_bytes + chunk"
    proof (cases "\<exists>b. r = Inr (Some b)")
      case True
      then obtain b where b: "frame_next (buf @ d) = (Inr (Some b), rest)" using n by auto
      have "frame_next buf = (Inr None, buf)" using assms(1) by (simp add: buffer_small_def)
      moreover have "length (buf @ d) < usize_bound"
        using buffer_small_length [OF assms(1)] assms(2,3)
        by (simp add: max_header_bytes_def max_body_bytes_def usize_bound_def)
      ultimately have "length rest \<le> length d" using first_frame_ends_in_new b by blast
      moreover have "length left \<le> length rest"
        using assms(4) b drain_left_suffix [of rest]
        by (fastforce simp: drain_frames.simps [of "buf @ d"] split: prod.splits)
      ultimately show ?thesis using find_header_end_le [OF h] assms(2) by simp
    next
      case False
      then have left: "left = buf @ d"
        using assms(4) n frame_next_waits [of "buf @ d" rest]
        by (auto simp: drain_frames.simps [of "buf @ d"] split: sum.splits option.splits)
      show ?thesis
      proof (cases "find_header_end buf")
        case None
        then have "length buf \<le> max_header_bytes"
          using assms(1) by (auto simp: buffer_small_def frame_next_def split: if_splits)
        then show ?thesis using find_header_end_le [OF h] left assms(2) by simp
      next
        case (Some h')
        then have "h' = h" using find_header_end_append [OF Some, of d] h left by simp
        then show ?thesis using assms(1) Some by (simp add: buffer_small_def)
      qed
    qed
  qed
  with waits show ?thesis by (auto simp: buffer_small_def split: option.splits)
qed

lemma read_stdout_small:
  assumes "buffer_small chunk left" and "chunk \<le> 2 ^ 32" and "\<forall>d. Got d \<in> set rs \<longrightarrow> length d \<le> chunk"
    and "read_stdout rs (left @ d) = (bodies, Waiting buf)" and "length d \<le> chunk"
  shows "buffer_small chunk buf"
  using assms
proof (induction rs arbitrary: left d bodies)
  case Nil
  then show ?case using drained_small by (auto simp: read_stdout.simps split: prod.splits option.splits)
next
  case (Cons r rs)
  obtain bs l where dr: "drain_frames (left @ d) = (bs, None, l)"
    using Cons.prems(4)
    by (cases "drain_frames (left @ d)") (auto simp: read_stdout.simps [of "r # rs"] split: option.splits)
  have small: "buffer_small chunk l" by (rule drained_small [OF Cons.prems(1,5,2) dr])
  show ?case
  proof (cases r)
    case (Got c)
    then obtain ms where "read_stdout rs (l @ c) = (ms, Waiting buf)"
      using Cons.prems(4) dr
      by (auto simp: read_stdout.simps [of "Got c # rs"] split: if_splits prod.splits)
    then show ?thesis using Cons.IH [OF small Cons.prems(2)] Cons.prems(3) Got by simp
  next
    case Interrupted
    then obtain ms where "read_stdout rs (l @ []) = (ms, Waiting buf)"
      using Cons.prems(4) dr
      by (auto simp: read_stdout.simps [of "Interrupted # rs"] split: if_splits prod.splits)
    then show ?thesis using Cons.IH [OF small Cons.prems(2), of "[]"] Cons.prems(3) by simp
  next
    case Failed
    then show ?thesis using Cons.prems(4) dr by (subst (asm) read_stdout.simps) simp
  qed
qed

section \<open>Properties\<close>

text \<open>C13: Messages of at most 32 MiB each, written as frames and read in any pieces (single bytes,
  several frames at once, cut anywhere, with interrupted reads in between), come out exactly, in order
  and none twice: whatever part of the stream has been read, the bodies delivered are a prefix of the
  bodies sent, what is left in the buffer is the rest of the bytes read, no framing error is reported,
  and once the whole stream is read every body is delivered and the buffer is empty.\<close>

theorem frames_survive_chunking:
  assumes "\<forall>b\<in>set bodies. length b \<le> max_body_bytes"
    and "clean_reads rs"
    and "frames_of bodies = read_bytes rs @ unread"
  shows "\<exists>k part. read_stdout rs [] = (take k bodies, Waiting part)
    \<and> read_bytes rs = frames_of (take k bodies) @ part
    \<and> (unread = [] \<longrightarrow> k = length bodies \<and> part = [])"
proof -
  have start: "drain_frames [] = ([], None, [])"
    using drain_stream [of "[]" "[]" "[]"] by (simp add: frames_of_def)
  have "\<exists>ms l. read_stdout rs [] = (ms, Waiting l) \<and> drain_frames ([] @ read_bytes rs) = ([] @ ms, None, l)"
  proof (rule read_stdout_drains [OF assms(2) start])
    fix u v assume "[] @ read_bytes rs = u @ v"
    then show "\<exists>bs l. drain_frames u = (bs, None, l)"
      using drain_stream [OF assms(1), of u "v @ unread"] assms(3) by auto
  qed
  then obtain ms l where
    r: "read_stdout rs [] = (ms, Waiting l)" and d: "drain_frames (read_bytes rs) = (ms, None, l)" by auto
  from drain_stream [OF assms(1,3)] obtain k part where
    "drain_frames (read_bytes rs) = (take k bodies, None, part)"
    "read_bytes rs = frames_of (take k bodies) @ part"
    "unread = [] \<longrightarrow> k = length bodies \<and> part = []" by blast
  with r d show ?thesis by auto
qed

theorem frames_survive_chunking_witness:
  "read_stdout [Got ''Content-Len'', Interrupted, Got (''gth: 2'' @ [CR, LF, CR]),
      Got ([LF] @ ''{}Content-Length: 0'' @ [CR, LF, CR, LF])] []
     = ([''{}'', []], Waiting [])"
proof -
  let ?rs = "[Got ''Content-Len'', Interrupted, Got (''gth: 2'' @ [CR, LF, CR]),
      Got ([LF] @ ''{}Content-Length: 0'' @ [CR, LF, CR, LF])]"
  have "\<exists>k part. read_stdout ?rs [] = (take k [''{}'', []], Waiting part)
    \<and> read_bytes ?rs = frames_of (take k [''{}'', []]) @ part
    \<and> (([] :: string) = [] \<longrightarrow> k = length [''{}'', [] :: string] \<and> part = [])"
  proof (rule frames_survive_chunking)
    show "\<forall>b\<in>set [''{}'', []]. length b \<le> max_body_bytes" by (simp add: max_body_bytes_def)
    show "clean_reads ?rs" by (simp add: clean_reads_def)
    show "frames_of [''{}'', []] = read_bytes ?rs @ []"
      by code_simp
  qed
  then show ?thesis by auto
qed

text \<open>C37: Whatever the server sends, valid or not, the buffer the reader keeps between two reads stays
  below 32 MiB plus the header limit plus the size of one read: a header without end, or a body without
  end, is refused instead of collected.\<close>

theorem reader_memory_bounded:
  assumes "read_stdout rs [] = (bodies, Waiting buf)"
    and "\<forall>d. Got d \<in> set rs \<longrightarrow> length d \<le> 8192"
  shows "length buf < max_header_bytes + 8192 + max_body_bytes"
proof -
  have "frame_next [] = (Inr None, [])" "find_header_end [] = None" by code_simp+
  then have "buffer_small 8192 []" by (simp add: buffer_small_def)
  then have "buffer_small 8192 buf"
    using read_stdout_small [of 8192 "[]" rs "[]" bodies buf] assms by simp
  then show ?thesis by (rule buffer_small_length)
qed

theorem reader_memory_bounded_witness:
  "read_stdout [Got ''Content-Length: 7''] [] = ([], Waiting ''Content-Length: 7'')
    \<and> length ''Content-Length: 7'' < max_header_bytes + 8192 + max_body_bytes"
proof -
  have "read_stdout [Got ''Content-Length: 7''] [] = ([], Waiting ''Content-Length: 7'')"
    by (simp add: read_stdout.simps drain_frames.simps frame_next_def find_header_end_def max_header_bytes_def)
  moreover from this have "length ''Content-Length: 7'' < max_header_bytes + 8192 + max_body_bytes"
    by (rule reader_memory_bounded) simp
  ultimately show ?thesis ..
qed

end
