(* ===== verification/Transport.thy ===== *)
theory Transport
  imports Pool
begin

text \<open>
  Requests over the language-server pipe (\<open>astrolabe-core/src/lsp/transport.rs\<close>): the map of pending
  requests, the life of the server, \<open>request_once\<close>, \<open>write_rpc\<close>, \<open>handle_response\<close>, the reader's and
  the writer's exits, \<open>kill_stuck_server\<close> and \<open>stop_with_grace\<close>, as a step relation whose steps are the
  accesses to shared state; the retries of \<open>request_value\<close>; and the tracking of the server's background
  work with \<open>is_busy\<close> and \<open>wait_until_ready\<close>.  JSON values are a type parameter; the fields the code
  reads from a message are records.  Times are milliseconds.
\<close>

section \<open>Responses\<close>

definition lsp_content_modified :: int where
  "lsp_content_modified = -32801"

text \<open>The fields of a response that \<open>handle_response\<close> reads: \<open>error\<close> with its code and message, and
  \<open>result\<close>.\<close>

record 'v response =
  re_error :: "(int option \<times> string option) option"
  re_result :: "'v option"

definition reply_of :: "'v \<Rightarrow> 'v response \<Rightarrow> lsp_error + 'v" where
  "reply_of null_value msg =
     (case re_error msg of
        Some (code, message) \<Rightarrow>
          if code = Some lsp_content_modified then Inl ContentModified
          else Inl (Protocol (case message of Some m \<Rightarrow> m | None \<Rightarrow> ''language server returned an error''))
      | None \<Rightarrow> Inr (case re_result msg of Some v \<Rightarrow> v | None \<Rightarrow> null_value))"

section \<open>The shared state\<close>

datatype life = Running | Shut | Dead

text \<open>Where a caller of \<open>request_once\<close> stands.  \<open>Failing p\<close> has still to run \<open>fail_pending\<close> and goes on
  as \<open>p\<close>; \<open>Killing p\<close> has still to close stdin before that.\<close>

datatype 'v phase =
  Fresh | Passed | Reaped | Checked | Registered u64 | Writing u64 | Giving_up u64 lsp_error
| Awaiting u64 | Expired u64 | Returned "lsp_error + 'v" | Failing "'v phase" | Killing "'v phase"

text \<open>Calls are numbered.  \<open>w_log\<close>, \<open>w_tickets\<close> and \<open>w_used\<close> are history: the responses dispatched, the
  number of each registered call with the length of the log at that moment, and how many calls have
  registered.  \<open>w_killers\<close> counts the background threads that have stored \<open>Dead\<close> and not yet failed the
  pending calls, \<open>w_stops\<close> those inside \<open>stop_with_grace\<close>.\<close>

record 'v wire =
  w_life :: life
  w_next :: u64
  w_pending :: "u64 \<Rightarrow> nat option"
  w_open :: bool
  w_queue :: nat
  w_writer :: bool
  w_inbox :: "nat \<Rightarrow> (lsp_error + 'v) list"
  w_flying :: "(nat \<times> (lsp_error + 'v)) set"
  w_phase :: "nat \<Rightarrow> 'v phase"
  w_killers :: nat
  w_stops :: nat
  w_log :: "(u64 \<times> (lsp_error + 'v)) list"
  w_tickets :: "nat \<Rightarrow> (nat \<times> nat) option"
  w_used :: nat

definition wire_start :: "'v wire" where
  "wire_start =
     \<lparr>w_life = Running, w_next = 1, w_pending = Map.empty, w_open = True, w_queue = 0, w_writer = True,
      w_inbox = (\<lambda>_. []), w_flying = {}, w_phase = (\<lambda>_. Fresh), w_killers = 0, w_stops = 0, w_log = [],
      w_tickets = Map.empty, w_used = 0\<rparr>"

definition stdin_queue_frames :: nat where
  "stdin_queue_frames = 4096"

definition go :: "nat \<Rightarrow> 'v phase \<Rightarrow> 'v wire \<Rightarrow> 'v wire" where
  "go c p W = W\<lparr>w_phase := (w_phase W)(c := p)\<rparr>"

text \<open>The first test of \<open>request_once\<close>.\<close>

definition refused :: "bool \<Rightarrow> life \<Rightarrow> lsp_error option" where
  "refused is_shutdown l =
     (case l of
        Dead \<Rightarrow> Some Crashed
      | Shut \<Rightarrow> if is_shutdown then None else Some (Protocol ''language server has shut down'')
      | Running \<Rightarrow> None)"

text \<open>\<open>fetch_add\<close> and \<open>pending.insert\<close>.\<close>

definition register_call :: "nat \<Rightarrow> 'v wire \<Rightarrow> 'v wire" where
  "register_call c W =
     go c (Registered (w_next W))
       (W\<lparr>w_next := w_next W + 1, w_pending := (w_pending W)(w_next W \<mapsto> c),
          w_tickets := (w_tickets W)(c \<mapsto> (w_used W, length (w_log W))), w_used := Suc (w_used W)\<rparr>)"

definition drop_pending :: "u64 \<Rightarrow> 'v wire \<Rightarrow> 'v wire" where
  "drop_pending i W = W\<lparr>w_pending := (w_pending W)(i := None)\<rparr>"

text \<open>\<open>fail_pending\<close>: the map is drained under its lock, the senders are used afterwards.\<close>

definition fail_pending :: "'v wire \<Rightarrow> 'v wire" where
  "fail_pending W =
     W\<lparr>w_pending := Map.empty, w_flying := w_flying W \<union> (\<lambda>c. (c, Inl Crashed)) ` ran (w_pending W)\<rparr>"

definition die :: "'v wire \<Rightarrow> 'v wire" where
  "die W = W\<lparr>w_life := Dead\<rparr>"

text \<open>\<open>handle_response\<close>: the waiter is taken from the map, the reply is sent to it afterwards.\<close>

definition take_response :: "u64 \<Rightarrow> lsp_error + 'v \<Rightarrow> 'v wire \<Rightarrow> 'v wire" where
  "take_response i r W =
     (let W' = W\<lparr>w_log := w_log W @ [(i, r)]\<rparr>
      in case w_pending W i of
           None \<Rightarrow> W'
         | Some c \<Rightarrow> drop_pending i W'\<lparr>w_flying := insert (c, r) (w_flying W')\<rparr>)"

text \<open>What \<open>write_rpc\<close> finds when it holds the stdin lock.\<close>

definition try_send :: "u64 \<Rightarrow> nat \<Rightarrow> 'v wire \<Rightarrow> 'v wire" where
  "try_send i c W =
     (if \<not> w_open W then go c (Giving_up i Crashed) W
      else if \<not> w_writer W then die (go c (Failing (Giving_up i Crashed)) W)
      else if w_queue W < stdin_queue_frames then go c (Awaiting i) (W\<lparr>w_queue := Suc (w_queue W)\<rparr>)
      else die (go c (Killing (Giving_up i Crashed)) W))"

text \<open>The steps.  \<open>sd c\<close> tells whether call \<open>c\<close> is the \<open>shutdown\<close> request.\<close>

inductive wire_step :: "(nat \<Rightarrow> bool) \<Rightarrow> 'v wire \<Rightarrow> 'v wire \<Rightarrow> bool" for sd :: "nat \<Rightarrow> bool" where
  refuse: "w_phase W c = Fresh \<Longrightarrow> refused (sd c) (w_life W) = Some e \<Longrightarrow> wire_step sd W (go c (Returned (Inl e)) W)"
| pass: "w_phase W c = Fresh \<Longrightarrow> refused (sd c) (w_life W) = None \<Longrightarrow> wire_step sd W (go c Passed W)"
| child_lives: "w_phase W c = Passed \<Longrightarrow> wire_step sd W (go c Checked W)"
| child_dead: "w_phase W c = Passed \<Longrightarrow> w_life W = Running \<Longrightarrow> wire_step sd W (die (go c (Failing Reaped) W))"
| child_gone: "w_phase W c = Passed \<Longrightarrow> w_life W \<noteq> Running \<Longrightarrow> wire_step sd W (go c Reaped W)"
| reaped: "w_phase W c = Reaped \<Longrightarrow> wire_step sd W (go c (if sd c then Checked else Returned (Inl Crashed)) W)"
| register: "w_phase W c = Checked \<Longrightarrow> wire_step sd W (register_call c W)"
| unserializable: "w_phase W c = Registered i \<Longrightarrow> wire_step sd W (go c (Giving_up i (Protocol e)) W)"
| write_check: "w_phase W c = Registered i \<Longrightarrow>
     wire_step sd W (go c (if w_life W = Dead then Giving_up i Crashed else Writing i) W)"
| send: "w_phase W c = Writing i \<Longrightarrow> wire_step sd W (try_send i c W)"
| close_in: "w_phase W c = Killing p \<Longrightarrow> wire_step sd W (go c (Failing p) (W\<lparr>w_open := False\<rparr>))"
| fail_all: "w_phase W c = Failing p \<Longrightarrow> wire_step sd W (go c p (fail_pending W))"
| give_up: "w_phase W c = Giving_up i e \<Longrightarrow> wire_step sd W (go c (Returned (Inl e)) (drop_pending i W))"
| receive: "w_phase W c = Awaiting i \<Longrightarrow> w_inbox W c = r # rs \<Longrightarrow> wire_step sd W (go c (Returned r) W)"
| hung_up: "w_phase W c = Awaiting i \<Longrightarrow> w_inbox W c = [] \<Longrightarrow> c \<notin> ran (w_pending W) \<Longrightarrow> c \<notin> fst ` w_flying W \<Longrightarrow>
     wire_step sd W (go c (Returned (Inl Crashed)) W)"
| expire: "w_phase W c = Awaiting i \<Longrightarrow> w_inbox W c = [] \<Longrightarrow> wire_step sd W (go c (Expired i) (drop_pending i W))"
| late: "w_phase W c = Expired i \<Longrightarrow> w_inbox W c = r # rs \<Longrightarrow> wire_step sd W (go c (Returned r) W)"
| stuck: "w_phase W c = Expired i \<Longrightarrow> w_inbox W c = [] \<Longrightarrow>
     wire_step sd W (die (go c (Killing (Returned (Inl Crashed))) W))"
| timed_out: "w_phase W c = Expired i \<Longrightarrow> w_inbox W c = [] \<Longrightarrow>
     wire_step sd W (go c (Returned (Inl (TimeoutErr t))) W)"
| response: "wire_step sd W (take_response i r W)"
| deliver: "(c, r) \<in> w_flying W \<Longrightarrow>
     wire_step sd W (W\<lparr>w_flying := w_flying W - {(c, r)}, w_inbox := (w_inbox W)(c := w_inbox W c @ [r])\<rparr>)"
| reader_exit: "w_life W = Running \<Longrightarrow> wire_step sd W (die (W\<lparr>w_killers := Suc (w_killers W)\<rparr>))"
| written: "w_writer W \<Longrightarrow> w_queue W = Suc n \<Longrightarrow> wire_step sd W (W\<lparr>w_queue := n\<rparr>)"
| write_error: "w_writer W \<Longrightarrow> w_queue W = Suc n \<Longrightarrow>
     wire_step sd W (die (W\<lparr>w_writer := False, w_killers := Suc (w_killers W)\<rparr>))"
| writer_end: "\<not> w_open W \<Longrightarrow> w_queue W = 0 \<Longrightarrow> wire_step sd W (W\<lparr>w_writer := False\<rparr>)"
| other_frame: "w_open W \<Longrightarrow> w_writer W \<Longrightarrow> w_queue W < stdin_queue_frames \<Longrightarrow>
     wire_step sd W (W\<lparr>w_queue := Suc (w_queue W)\<rparr>)"
| other_lost: "w_open W \<Longrightarrow> \<not> w_writer W \<or> stdin_queue_frames \<le> w_queue W \<Longrightarrow>
     wire_step sd W (die (W\<lparr>w_killers := Suc (w_killers W)\<rparr>))"
| kill_close: "0 < w_killers W \<Longrightarrow> wire_step sd W (W\<lparr>w_open := False\<rparr>)"
| kill_fail: "w_killers W = Suc n \<Longrightarrow> wire_step sd W (fail_pending (W\<lparr>w_killers := n\<rparr>))"
| stop_begin: "wire_step sd W (W\<lparr>w_life := Shut, w_stops := Suc (w_stops W)\<rparr>)"
| stop_restore: "0 < w_stops W \<Longrightarrow> wire_step sd W (die W)"
| stop_close: "0 < w_stops W \<Longrightarrow> wire_step sd W (W\<lparr>w_open := False\<rparr>)"
| stop_end: "w_stops W = Suc n \<Longrightarrow> wire_step sd W (die (W\<lparr>w_stops := n, w_killers := Suc (w_killers W)\<rparr>))"

inductive wire_reach :: "(nat \<Rightarrow> bool) \<Rightarrow> 'v wire \<Rightarrow> bool" for sd :: "nat \<Rightarrow> bool" where
  start: "wire_reach sd wire_start"
| step: "wire_reach sd W \<Longrightarrow> wire_step sd W W' \<Longrightarrow> wire_reach sd W'"

section \<open>The invariant\<close>

definition ticket_id :: "nat \<Rightarrow> u64" where
  "ticket_id k = of_nat (Suc k)"

fun reg_id :: "'v phase \<Rightarrow> u64 option" where
  "reg_id (Registered i) = Some i"
| "reg_id (Writing i) = Some i"
| "reg_id (Giving_up i e) = Some i"
| "reg_id (Awaiting i) = Some i"
| "reg_id (Expired i) = Some i"
| "reg_id (Failing p) = reg_id p"
| "reg_id (Killing p) = reg_id p"
| "reg_id _ = None"

fun resting :: "'v phase \<Rightarrow> 'v phase" where
  "resting (Failing p) = resting p"
| "resting (Killing p) = resting p"
| "resting p = p"

fun waits_for :: "'v phase \<Rightarrow> u64 option" where
  "waits_for (Registered i) = Some i"
| "waits_for (Writing i) = Some i"
| "waits_for (Awaiting i) = Some i"
| "waits_for (Failing p) = waits_for p"
| "waits_for (Killing p) = waits_for p"
| "waits_for _ = None"

text \<open>Before registration; and while the call may be in the pending map.\<close>

definition unregistered :: "'v phase \<Rightarrow> bool" where
  "unregistered p \<longleftrightarrow> resting p \<in> {Fresh, Passed, Reaped, Checked}"

definition may_wait :: "'v phase \<Rightarrow> bool" where
  "may_wait p \<longleftrightarrow> (case resting p of
     Registered _ \<Rightarrow> True | Writing _ \<Rightarrow> True | Giving_up _ _ \<Rightarrow> True | Awaiting _ \<Rightarrow> True | _ \<Rightarrow> False)"

text \<open>\<open>r\<close> is the first response with the number of \<open>c\<close> that was dispatched after \<open>c\<close> registered.\<close>

definition answers :: "'v wire \<Rightarrow> nat \<Rightarrow> lsp_error + 'v \<Rightarrow> bool" where
  "answers W c r \<longleftrightarrow>
     (\<exists>k n j. w_tickets W c = Some (k, n) \<and> n \<le> j \<and> j < length (w_log W)
       \<and> w_log W ! j = (ticket_id k, r) \<and> (\<forall>i. n \<le> i \<longrightarrow> i < j \<longrightarrow> fst (w_log W ! i) \<noteq> ticket_id k))"

definition call_ok :: "'v wire \<Rightarrow> nat \<Rightarrow> 'v phase \<Rightarrow> bool" where
  "call_ok W c p \<longleftrightarrow>
     (\<forall>i. reg_id p = Some i \<longrightarrow> (\<exists>k n. w_tickets W c = Some (k, n) \<and> i = ticket_id k))
     \<and> (unregistered p \<longrightarrow> w_tickets W c = None)
     \<and> (c \<in> ran (w_pending W) \<longrightarrow> may_wait p)
     \<and> (c \<in> ran (w_pending W) \<or> unregistered p \<longrightarrow> c \<notin> fst ` w_flying W \<and> w_inbox W c = [])
     \<and> (\<forall>v. resting p = Returned (Inr v) \<longrightarrow> answers W c (Inr v))
     \<and> (\<forall>i. waits_for p = Some i \<longrightarrow>
          w_pending W i = Some c \<or> c \<in> fst ` w_flying W \<or> w_inbox W c \<noteq> [])"

definition tickets_ok :: "'v wire \<Rightarrow> bool" where
  "tickets_ok W \<longleftrightarrow>
     w_next W = ticket_id (w_used W)
     \<and> (\<forall>c k n. w_tickets W c = Some (k, n) \<longrightarrow> k < w_used W \<and> n \<le> length (w_log W))
     \<and> (\<forall>c c' k n n'. w_tickets W c = Some (k, n) \<longrightarrow> w_tickets W c' = Some (k, n') \<longrightarrow> c = c')"

definition pending_ok :: "'v wire \<Rightarrow> bool" where
  "pending_ok W \<longleftrightarrow>
     (\<forall>i c. w_pending W i = Some c \<longrightarrow>
        (\<exists>k n. w_tickets W c = Some (k, n) \<and> i = ticket_id k
          \<and> (\<forall>j. n \<le> j \<longrightarrow> j < length (w_log W) \<longrightarrow> fst (w_log W ! j) \<noteq> i)))"

definition sent_ok :: "'v wire \<Rightarrow> bool" where
  "sent_ok W \<longleftrightarrow>
     (\<forall>c r. (c, r) \<in> w_flying W \<or> r \<in> set (w_inbox W c) \<longrightarrow> r = Inl Crashed \<or> answers W c r)"

definition wire_ok :: "'v wire \<Rightarrow> bool" where
  "wire_ok W \<longleftrightarrow> tickets_ok W \<and> pending_ok W \<and> sent_ok W \<and> (\<forall>c. call_ok W c (w_phase W c))"

lemmas wire_ops = go_def register_call_def drop_pending_def fail_pending_def die_def

lemma wire_okI:
  "tickets_ok W \<Longrightarrow> pending_ok W \<Longrightarrow> sent_ok W \<Longrightarrow> (\<And>c. call_ok W c (w_phase W c)) \<Longrightarrow> wire_ok W"
  by (simp add: wire_ok_def)

lemma wire_okD:
  assumes "wire_ok W"
  shows "tickets_ok W" "pending_ok W" "sent_ok W" "call_ok W c (w_phase W c)"
  using assms by (simp_all add: wire_ok_def)

lemma ticket_id_inj: "ticket_id k = ticket_id k' \<Longrightarrow> k < 2 ^ 64 \<Longrightarrow> k' < 2 ^ 64 \<Longrightarrow> k = k'"
proof -
  assume *: "ticket_id k = ticket_id k'" "k < 2 ^ 64" "k' < 2 ^ 64"
  then have "(of_nat k :: u64) = of_nat k'" by (simp add: ticket_id_def)
  then have "unat (of_nat k :: u64) = unat (of_nat k' :: u64)" by simp
  with * show ?thesis by (simp add: unsigned_of_nat take_bit_nat_eq_self)
qed

text \<open>The invariant only looks at some fields.\<close>

lemma answers_cong:
  "w_tickets W' c = w_tickets W c \<Longrightarrow> w_log W' = w_log W \<Longrightarrow> answers W' c r = answers W c r"
  by (simp add: answers_def)

lemma wire_ok_frame:
  assumes "wire_ok W"
    and "w_next W' = w_next W" "w_pending W' = w_pending W" "w_inbox W' = w_inbox W" "w_flying W' = w_flying W"
    and "w_phase W' = w_phase W" "w_log W' = w_log W" "w_tickets W' = w_tickets W" "w_used W' = w_used W"
  shows "wire_ok W'"
proof -
  have "answers W' = answers W" using assms by (auto intro!: ext simp: answers_def)
  then show ?thesis
    using assms unfolding wire_ok_def tickets_ok_def pending_ok_def sent_ok_def call_ok_def by simp
qed

lemma wire_ok_go:
  assumes "wire_ok W" and "call_ok W c p"
  shows "wire_ok (go c p W)"
proof -
  have a: "answers (go c p W) = answers W" by (auto intro!: ext simp: answers_def go_def)
  have c: "call_ok (go c p W) d q = call_ok W d q" for d q
    by (simp add: call_ok_def a) (simp add: go_def)
  show ?thesis
  proof (rule wire_okI)
    show "tickets_ok (go c p W)" using wire_okD(1) [OF assms(1)] by (simp add: tickets_ok_def go_def)
    show "pending_ok (go c p W)" using wire_okD(2) [OF assms(1)] by (simp add: pending_ok_def go_def)
    show "sent_ok (go c p W)" using wire_okD(3) [OF assms(1)] by (simp add: sent_ok_def a) (simp add: go_def)
    show "call_ok (go c p W) d (w_phase (go c p W) d)" for d
      unfolding c using wire_okD(4) [OF assms(1)] assms(2) by (simp add: go_def)
  qed
qed

text \<open>A call has one number, and a number below the bound one call.\<close>

lemma pending_unique:
  assumes "wire_ok W" and "w_used W \<le> 2 ^ 64" and "w_pending W i = Some c"
    and "w_tickets W d = Some (k, n)" "i = ticket_id k"
  shows "d = c"
proof -
  obtain k' n' where k': "w_tickets W c = Some (k', n')" "i = ticket_id k'"
    using wire_okD(2) [OF assms(1)] assms(3) unfolding pending_ok_def by blast
  have "k < w_used W" "k' < w_used W"
    using wire_okD(1) [OF assms(1)] assms(4) k'(1) unfolding tickets_ok_def by blast+
  then have "k = k'"
    using assms(2,5) k'(2) by (intro ticket_id_inj) simp_all
  then show ?thesis
    using wire_okD(1) [OF assms(1)] assms(4) k'(1) unfolding tickets_ok_def by blast
qed

lemma pending_same:
  assumes "pending_ok W" and "w_pending W i = Some c" and "w_pending W j = Some c"
  shows "i = j"
proof -
  obtain k n where "w_tickets W c = Some (k, n)" "i = ticket_id k"
    using assms(1,2) unfolding pending_ok_def by blast
  moreover obtain k' n' where "w_tickets W c = Some (k', n')" "j = ticket_id k'"
    using assms(1,3) unfolding pending_ok_def by blast
  ultimately show ?thesis by simp
qed

lemma pending_own_id:
  assumes "wire_ok W" and "w_pending W j = Some c" and "reg_id (w_phase W c) = Some i"
  shows "j = i"
proof -
  obtain k n where "w_tickets W c = Some (k, n)" "j = ticket_id k"
    using wire_okD(2) [OF assms(1)] assms(2) unfolding pending_ok_def by blast
  moreover obtain k' n' where "w_tickets W c = Some (k', n')" "i = ticket_id k'"
    using wire_okD(4) [OF assms(1), of c] assms(3) unfolding call_ok_def by blast
  ultimately show ?thesis by simp
qed

lemma call_ok_weaken:
  assumes "call_ok W c p"
    and "answers W c = answers W' c" "w_tickets W' c = w_tickets W c"
    and "c \<in> ran (w_pending W') \<Longrightarrow> c \<in> ran (w_pending W)"
    and "\<And>i. w_pending W i = Some c \<Longrightarrow> waits_for p = Some i \<Longrightarrow>
      w_pending W' i = Some c \<or> c \<in> fst ` w_flying W' \<or> w_inbox W' c \<noteq> []"
    and "c \<in> fst ` w_flying W \<Longrightarrow> c \<in> fst ` w_flying W' \<or> w_inbox W' c \<noteq> []"
    and "w_inbox W c \<noteq> [] \<Longrightarrow> w_inbox W' c \<noteq> []"
    and "c \<in> ran (w_pending W') \<or> unregistered p \<Longrightarrow> c \<notin> fst ` w_flying W \<Longrightarrow> w_inbox W c = [] \<Longrightarrow>
      c \<notin> fst ` w_flying W' \<and> w_inbox W' c = []"
  shows "call_ok W' c p"
proof -
  have "w_pending W' i = Some c \<or> c \<in> fst ` w_flying W' \<or> w_inbox W' c \<noteq> []" if "waits_for p = Some i" for i
    using assms(1,5,6,7) that unfolding call_ok_def by blast
  moreover have "c \<in> ran (w_pending W') \<or> unregistered p \<longrightarrow> c \<notin> fst ` w_flying W' \<and> w_inbox W' c = []"
    using assms(1,4,8) unfolding call_ok_def by blast
  ultimately show ?thesis using assms(1,2,3,4) by (simp add: call_ok_def)
qed

lemma call_ok_quiet: "call_ok W c p \<Longrightarrow> unregistered p \<Longrightarrow> c \<notin> ran (w_pending W)"
  by (cases "resting p") (auto simp: call_ok_def unregistered_def may_wait_def)

lemma wire_ok_fail:
  assumes "wire_ok W"
  shows "wire_ok (fail_pending W)"
proof -
  have a: "answers (fail_pending W) = answers W" by (auto intro!: ext simp: answers_def fail_pending_def)
  show ?thesis
  proof (rule wire_okI)
    show "tickets_ok (fail_pending W)"
      using wire_okD(1) [OF assms] by (simp add: tickets_ok_def fail_pending_def)
    show "pending_ok (fail_pending W)" by (simp add: pending_ok_def fail_pending_def)
    show "sent_ok (fail_pending W)"
      using wire_okD(3) [OF assms] unfolding sent_ok_def a by (auto simp: fail_pending_def)
    show "call_ok (fail_pending W) c (w_phase (fail_pending W) c)" for c
      by (rule call_ok_weaken [of W])
        (use wire_okD(4) [OF assms, of c] call_ok_quiet [OF wire_okD(4) [OF assms, of c]] in
          \<open>auto simp: answers_def fail_pending_def ran_def image_Un image_image\<close>)
  qed
qed

lemma wire_ok_deliver:
  assumes "wire_ok W" and "(c, r) \<in> w_flying W"
  shows "wire_ok (W\<lparr>w_flying := w_flying W - {(c, r)}, w_inbox := (w_inbox W)(c := w_inbox W c @ [r])\<rparr>)"
    (is "wire_ok ?W")
proof -
  have a: "answers ?W = answers W" by (auto intro!: ext simp: answers_def)
  show ?thesis
  proof (rule wire_okI)
    show "tickets_ok ?W" using wire_okD(1) [OF assms(1)] by (simp add: tickets_ok_def)
    show "pending_ok ?W" using wire_okD(2) [OF assms(1)] by (simp add: pending_ok_def)
    show "sent_ok ?W"
      using wire_okD(3) [OF assms(1)] assms(2) unfolding sent_ok_def a by auto
    show "call_ok ?W d (w_phase ?W d)" for d
      by (rule call_ok_weaken [of W])
        (use assms(2) wire_okD(4) [OF assms(1), of d] in \<open>auto simp: answers_def image_iff split: if_splits\<close>)
  qed
qed

lemma ran_drop: "c \<in> ran (m(i := None)) \<Longrightarrow> c \<in> ran m"
  by (auto simp: ran_def split: if_splits)

lemma wire_ok_drop_own:
  assumes "wire_ok W" and "w_used W \<le> 2 ^ 64" and "reg_id (w_phase W c) = Some i"
    and "call_ok (drop_pending i W) c p"
  shows "wire_ok (go c p (drop_pending i W))"
proof -
  let ?D = "drop_pending i W"
  have a: "answers ?D = answers W" by (auto intro!: ext simp: answers_def drop_pending_def)
  obtain k n where k: "w_tickets W c = Some (k, n)" "i = ticket_id k"
    using wire_okD(4) [OF assms(1), of c] assms(3) unfolding call_ok_def by blast
  have other: "call_ok ?D d (w_phase ?D d)" if "d \<noteq> c" for d
  proof -
    have ne: "w_pending W i \<noteq> Some d" using pending_unique [OF assms(1,2) _ k] that by blast
    show ?thesis
      by (rule call_ok_weaken [of W])
        (use ne wire_okD(4) [OF assms(1), of d] in \<open>auto simp: answers_def drop_pending_def intro: ran_drop\<close>)
  qed
  have b: "answers (go c p ?D) = answers ?D" by (auto intro!: ext simp: answers_def go_def)
  have c: "call_ok (go c p ?D) d q = call_ok ?D d q" for d q
    by (simp add: call_ok_def b) (simp add: go_def)
  show ?thesis
  proof (rule wire_okI)
    show "tickets_ok (go c p ?D)"
      using wire_okD(1) [OF assms(1)] by (simp add: tickets_ok_def go_def drop_pending_def)
    show "pending_ok (go c p ?D)"
      using wire_okD(2) [OF assms(1)] by (auto simp: pending_ok_def go_def drop_pending_def)
    show "sent_ok (go c p ?D)"
      using wire_okD(3) [OF assms(1)] by (simp add: sent_ok_def a b) (simp add: go_def drop_pending_def)
    show "call_ok (go c p ?D) d (w_phase (go c p ?D) d)" for d
      unfolding c using other [of d] assms(4) by (cases "d = c") (simp_all add: go_def)
  qed
qed

lemma dropped_own:
  assumes "wire_ok W" and "reg_id (w_phase W c) = Some i"
  shows "c \<notin> ran (w_pending (drop_pending i W))"
proof
  assume "c \<in> ran (w_pending (drop_pending i W))"
  then obtain j where "w_pending W j = Some c" "j \<noteq> i"
    by (auto simp: drop_pending_def ran_def split: if_splits)
  with pending_own_id [OF assms(1) this(1) assms(2)] show False by simp
qed

lemma answers_snoc: "answers W c r \<Longrightarrow> w_tickets W' = w_tickets W \<Longrightarrow> w_log W' = w_log W @ l \<Longrightarrow> answers W' c r"
proof -
  assume a: "answers W c r" and t: "w_tickets W' = w_tickets W" and l: "w_log W' = w_log W @ l"
  obtain k n j where "w_tickets W c = Some (k, n)" "n \<le> j" "j < length (w_log W)"
    "w_log W ! j = (ticket_id k, r)" "\<forall>i. n \<le> i \<longrightarrow> i < j \<longrightarrow> fst (w_log W ! i) \<noteq> ticket_id k"
    using a unfolding answers_def by blast
  then show ?thesis
    unfolding answers_def t l
    by (intro exI [of _ k] exI [of _ n] exI [of _ j]) (auto simp: nth_append)
qed

lemma answers_now:
  assumes "pending_ok W" and "tickets_ok W" and "w_pending W i = Some c"
    and "w_tickets W' = w_tickets W" and "w_log W' = w_log W @ [(i, r)]"
  shows "answers W' c r"
proof -
  obtain k n where kn: "w_tickets W c = Some (k, n)" "i = ticket_id k"
    "\<forall>j. n \<le> j \<longrightarrow> j < length (w_log W) \<longrightarrow> fst (w_log W ! j) \<noteq> i"
    using assms(1,3) unfolding pending_ok_def by blast
  moreover have "n \<le> length (w_log W)" using assms(2) kn(1) unfolding tickets_ok_def by blast
  ultimately show ?thesis
    unfolding answers_def assms(4,5)
    by (intro exI [of _ k] exI [of _ n] exI [of _ "length (w_log W)"]) (auto simp: nth_append)
qed

lemma wire_ok_response:
  assumes "wire_ok W" and "w_used W \<le> 2 ^ 64"
  shows "wire_ok (take_response i r W)" (is "wire_ok ?R")
proof -
  have log: "w_log ?R = w_log W @ [(i, r)]" and tk: "w_tickets ?R = w_tickets W"
    and rest: "w_next ?R = w_next W" "w_used ?R = w_used W" "w_phase ?R = w_phase W" "w_inbox ?R = w_inbox W"
    by (auto simp: take_response_def Let_def drop_pending_def split: option.splits)
  have pend: "w_pending ?R = (w_pending W)(i := None)"
    by (auto simp: take_response_def Let_def drop_pending_def fun_upd_idem split: option.splits)
  have fly: "w_flying ?R = w_flying W \<union> (case w_pending W i of None \<Rightarrow> {} | Some c \<Rightarrow> {(c, r)})"
    by (auto simp: take_response_def Let_def drop_pending_def split: option.splits)
  have keep: "answers W c x \<Longrightarrow> answers ?R c x" for c x by (rule answers_snoc [OF _ tk log])
  show ?thesis
  proof (rule wire_okI)
    show "tickets_ok ?R"
      using wire_okD(1) [OF assms(1)] unfolding tickets_ok_def tk rest log by fastforce
    show "pending_ok ?R"
      unfolding pending_ok_def
    proof (intro allI impI)
      fix j c assume j: "w_pending ?R j = Some c"
      then have ji: "j \<noteq> i" "w_pending W j = Some c" by (auto simp: pend split: if_splits)
      obtain k n where "w_tickets W c = Some (k, n)" "j = ticket_id k"
        "\<forall>m. n \<le> m \<longrightarrow> m < length (w_log W) \<longrightarrow> fst (w_log W ! m) \<noteq> j"
        using wire_okD(2) [OF assms(1)] ji(2) unfolding pending_ok_def by blast
      then show "\<exists>k n. w_tickets ?R c = Some (k, n) \<and> j = ticket_id k \<and>
          (\<forall>m. n \<le> m \<longrightarrow> m < length (w_log ?R) \<longrightarrow> fst (w_log ?R ! m) \<noteq> j)"
        using ji(1) by (auto simp: tk log nth_append)
    qed
    show "sent_ok ?R"
      unfolding sent_ok_def
    proof (intro allI impI)
      fix c x assume "(c, x) \<in> w_flying ?R \<or> x \<in> set (w_inbox ?R c)"
      then consider "(c, x) \<in> w_flying W \<or> x \<in> set (w_inbox W c)" | "w_pending W i = Some c" "x = r"
        by (auto simp: fly rest split: option.splits)
      then show "x = Inl Crashed \<or> answers ?R c x"
      proof cases
        case 1
        then show ?thesis using wire_okD(3) [OF assms(1)] keep unfolding sent_ok_def by blast
      next
        case 2
        then show ?thesis
          using answers_now [OF wire_okD(2,1) [OF assms(1)] _ tk log] by simp
      qed
    qed
    show "call_ok ?R c (w_phase ?R c)" for c
    proof -
      have *: "call_ok W c (w_phase W c)" by (rule wire_okD(4) [OF assms(1)])
      have "w_pending ?R j = Some c \<or> c \<in> fst ` w_flying ?R \<or> w_inbox ?R c \<noteq> []"
        if "waits_for (w_phase W c) = Some j" for j
        using * that unfolding call_ok_def by (cases "j = i") (auto simp: pend fly rest)
      moreover have "c \<in> ran (w_pending ?R) \<Longrightarrow> c \<in> ran (w_pending W)" unfolding pend by (rule ran_drop)
      moreover have "c \<notin> fst ` w_flying ?R"
        if out: "c \<in> ran (w_pending ?R) \<or> unregistered (w_phase W c)"
      proof -
        have "w_pending W i \<noteq> Some c"
        proof
          assume i: "w_pending W i = Some c"
          then have "\<not> unregistered (w_phase W c)" using call_ok_quiet [OF *] by (auto simp: ran_def)
          then obtain j where "j \<noteq> i" "w_pending W j = Some c"
            using out by (auto simp: pend ran_def split: if_splits)
          with i show False using pending_same [OF wire_okD(2) [OF assms(1)]] by blast
        qed
        moreover have "c \<notin> fst ` w_flying W"
          using * out \<open>c \<in> ran (w_pending ?R) \<Longrightarrow> c \<in> ran (w_pending W)\<close> unfolding call_ok_def by blast
        ultimately show ?thesis by (auto simp: fly split: option.splits)
      qed
      ultimately show ?thesis
        using * keep by (simp add: call_ok_def tk rest)
    qed
  qed
qed

lemma wire_ok_register:
  assumes "wire_ok W" and "w_used W < 2 ^ 64" and "w_phase W c = Checked"
  shows "wire_ok (register_call c W)" (is "wire_ok ?R")
proof -
  have t: "tickets_ok W" and nx: "w_next W = ticket_id (w_used W)"
    using wire_okD(1) [OF assms(1)] by (simp_all add: tickets_ok_def)
  have c0: "call_ok W c Checked" using wire_okD(4) [OF assms(1), of c] assms(3) by simp
  then have new: "w_tickets W c = None" and notin: "c \<notin> ran (w_pending W)"
    and idle: "c \<notin> fst ` w_flying W" "w_inbox W c = []"
    by (auto simp: call_ok_def unregistered_def may_wait_def)
  have free: "w_pending W (w_next W) = None"
  proof (rule ccontr)
    assume "w_pending W (w_next W) \<noteq> None"
    then obtain d where "w_pending W (w_next W) = Some d" by auto
    then obtain k n where "w_tickets W d = Some (k, n)" "w_next W = ticket_id k"
      using wire_okD(2) [OF assms(1)] unfolding pending_ok_def by blast
    moreover from this(1) have "k < w_used W" using t unfolding tickets_ok_def by blast
    ultimately show False using ticket_id_inj [of k "w_used W"] nx assms(2) by simp
  qed
  have a: "d \<noteq> c \<Longrightarrow> answers ?R d = answers W d" for d
    by (auto intro!: ext simp: answers_def register_call_def go_def)
  have noflying: "(c, x) \<in> w_flying W \<Longrightarrow> x = Inl Crashed" "x \<in> set (w_inbox W c) \<Longrightarrow> x = Inl Crashed" for x
    using wire_okD(3) [OF assms(1)] new unfolding sent_ok_def answers_def by fastforce+
  show ?thesis
  proof (rule wire_okI)
    show "tickets_ok ?R"
      unfolding tickets_ok_def
    proof (intro conjI allI impI)
      show "w_next ?R = ticket_id (w_used ?R)"
        by (simp add: register_call_def go_def nx ticket_id_def)
      show "k < w_used ?R" "n \<le> length (w_log ?R)" if "w_tickets ?R d = Some (k, n)" for d k n
        using that t unfolding tickets_ok_def
        by (auto simp: register_call_def go_def less_SucI split: if_splits)
      show "d = d'" if "w_tickets ?R d = Some (k, n)" "w_tickets ?R d' = Some (k, n')" for d d' k n n'
        using that t unfolding tickets_ok_def
        by (auto simp: register_call_def go_def split: if_splits)
    qed
    show "pending_ok ?R"
      unfolding pending_ok_def
    proof (intro allI impI)
      fix i d assume i: "w_pending ?R i = Some d"
      show "\<exists>k n. w_tickets ?R d = Some (k, n) \<and> i = ticket_id k \<and>
          (\<forall>j. n \<le> j \<longrightarrow> j < length (w_log ?R) \<longrightarrow> fst (w_log ?R ! j) \<noteq> i)"
      proof (cases "i = w_next W")
        case True
        then have "d = c" using i by (simp add: register_call_def go_def)
        with True show ?thesis by (simp add: register_call_def go_def nx)
      next
        case False
        then have "w_pending W i = Some d" using i by (simp add: register_call_def go_def)
        moreover from this notin have "d \<noteq> c" by (auto simp: ran_def)
        ultimately show ?thesis
          using wire_okD(2) [OF assms(1)] unfolding pending_ok_def by (simp add: register_call_def go_def)
      qed
    qed
    show "sent_ok ?R"
      unfolding sent_ok_def
    proof (intro allI impI)
      fix d x assume "(d, x) \<in> w_flying ?R \<or> x \<in> set (w_inbox ?R d)"
      then have d: "(d, x) \<in> w_flying W \<or> x \<in> set (w_inbox W d)"
        by (simp add: register_call_def go_def)
      show "x = Inl Crashed \<or> answers ?R d x"
      proof (cases "d = c")
        case True
        then show ?thesis using d noflying by blast
      next
        case False
        then show ?thesis using d wire_okD(3) [OF assms(1)] a unfolding sent_ok_def by metis
      qed
    qed
    show "call_ok ?R d (w_phase ?R d)" for d
    proof (cases "d = c")
      case True
      then show ?thesis
        using idle by (simp add: call_ok_def register_call_def go_def unregistered_def may_wait_def nx)
    next
      case False
      have "call_ok ?R d (w_phase W d)"
        by (rule call_ok_weaken [of W])
          (use False free wire_okD(4) [OF assms(1), of d] a [OF False] in
            \<open>auto simp: register_call_def go_def ran_def split: if_splits\<close>)
      then show ?thesis using False by (simp add: register_call_def go_def)
    qed
  qed
qed

lemma call_ok_simps:
  "call_ok (W\<lparr>w_life := l\<rparr>) c p = call_ok W c p"
  "call_ok (W\<lparr>w_open := b\<rparr>) c p = call_ok W c p"
  "call_ok (W\<lparr>w_queue := q\<rparr>) c p = call_ok W c p"
  by (simp_all add: call_ok_def answers_def)

lemma call_ok_not_pending:
  assumes "call_ok W c (w_phase W c)" and "c \<notin> ran (w_pending W')" and "w_tickets W' c = w_tickets W c"
    and "reg_id p = None \<or> reg_id p = reg_id (w_phase W c)" and "\<not> unregistered p"
    and "\<forall>v. resting p \<noteq> Returned (Inr v)" and "waits_for p = None"
  shows "call_ok W' c p"
  using assms unfolding call_ok_def by auto

text \<open>Moves of one call that change nothing else the invariant looks at.\<close>

lemma call_ok_move:
  assumes "call_ok W c (w_phase W c)"
    and "reg_id p = None \<or> reg_id p = reg_id (w_phase W c)" and "unregistered p \<longrightarrow> unregistered (w_phase W c)"
    and "may_wait (w_phase W c) \<longrightarrow> may_wait p"
    and "\<And>v. resting p = Returned (Inr v) \<Longrightarrow> resting (w_phase W c) = Returned (Inr v) \<or> answers W c (Inr v)"
    and "\<And>i. waits_for p = Some i \<Longrightarrow> waits_for (w_phase W c) = Some i"
  shows "call_ok W c p"
  using assms unfolding call_ok_def by auto

lemma received_answers:
  assumes "wire_ok W" and "w_inbox W c = r # rs" and "r = Inr v"
  shows "answers W c r"
proof -
  have "r \<in> set (w_inbox W c)" using assms(2) by simp
  then show ?thesis using wire_okD(3) [OF assms(1)] assms(3) unfolding sent_ok_def by auto
qed

lemma may_wait_simps [simp]:
  "may_wait (Registered i)" "may_wait (Writing i)" "may_wait (Giving_up i e)" "may_wait (Awaiting i)"
  "\<not> may_wait Fresh" "\<not> may_wait Passed" "\<not> may_wait Reaped" "\<not> may_wait Checked" "\<not> may_wait (Expired i)"
  "\<not> may_wait (Returned r)" "may_wait (Failing p) = may_wait p" "may_wait (Killing p) = may_wait p"
  by (simp_all add: may_wait_def)

lemma unregistered_simps [simp]:
  "unregistered Fresh" "unregistered Passed" "unregistered Reaped" "unregistered Checked"
  "\<not> unregistered (Registered i)" "\<not> unregistered (Writing i)" "\<not> unregistered (Giving_up i e)"
  "\<not> unregistered (Awaiting i)" "\<not> unregistered (Expired i)" "\<not> unregistered (Returned r)"
  "unregistered (Failing p) = unregistered p" "unregistered (Killing p) = unregistered p"
  by (simp_all add: unregistered_def)

lemma used_mono: "wire_step sd W W' \<Longrightarrow> w_used W \<le> w_used W'"
  by (induction rule: wire_step.induct)
    (auto simp: wire_ops try_send_def take_response_def Let_def split: option.splits)

lemma wire_ok_die_go: "wire_ok W \<Longrightarrow> call_ok W c p \<Longrightarrow> wire_ok (die (go c p W))"
  by (rule wire_ok_frame [OF wire_ok_go]) (simp_all add: die_def)

lemma wire_ok_send:
  assumes "wire_ok W" and "w_phase W c = Writing i"
  shows "wire_ok (try_send i c W)"
proof -
  have c: "call_ok W c (w_phase W c)" by (rule wire_okD(4) [OF assms(1)])
  have g: "call_ok W c (Giving_up i Crashed)" "call_ok W c (Failing (Giving_up i Crashed))"
    "call_ok W c (Killing (Giving_up i Crashed))"
    by (rule call_ok_move [OF c]; simp add: assms(2))+
  have aw: "call_ok W c (Awaiting i)" by (rule call_ok_move [OF c]) (simp_all add: assms(2))
  have q: "wire_ok (go c (Awaiting i) (W\<lparr>w_queue := Suc (w_queue W)\<rparr>))"
    by (rule wire_ok_frame [OF wire_ok_go [OF assms(1) aw]]) (simp_all add: go_def)
  show ?thesis
    unfolding try_send_def using wire_ok_go [OF assms(1) g(1)] wire_ok_die_go [OF assms(1)] g q by simp
qed

lemma wire_ok_reaped:
  assumes "wire_ok W" and "w_phase W c = Reaped"
  shows "wire_ok (go c (if sd c then Checked else Returned (Inl Crashed)) W)"
  using wire_okD(4) [OF assms(1), of c] assms(2)
  by (intro wire_ok_go [OF assms(1)]) (rule call_ok_move, auto split: if_splits)

lemma wire_ok_step:
  assumes "wire_step sd W W'" and "wire_ok W" and "w_used W' \<le> 2 ^ 64"
  shows "wire_ok W'"
proof -
  have le: "w_used W \<le> 2 ^ 64" using used_mono [OF assms(1)] assms(3) by simp
  note ok = wire_okD(4) [OF assms(2)]
  note move = wire_ok_go [OF assms(2) call_ok_move [OF ok]]
  note dmove = wire_ok_die_go [OF assms(2) call_ok_move [OF ok]]
  note frame = wire_ok_frame [OF assms(2)]
  from assms(1) show ?thesis
  proof cases
    case (refuse c e) then show ?thesis by (auto intro!: move)
  next
    case (pass c) then show ?thesis by (auto intro!: move)
  next
    case (child_lives c) then show ?thesis by (auto intro!: move)
  next
    case (child_dead c) then show ?thesis by (auto intro!: dmove)
  next
    case (child_gone c) then show ?thesis by (auto intro!: move)
  next
    case (reaped c) then show ?thesis using wire_ok_reaped [OF assms(2)] by simp
  next
    case (register c)
    then have "w_used W < 2 ^ 64" using assms(3) by (simp add: register_call_def go_def)
    with register show ?thesis using wire_ok_register [OF assms(2)] by simp
  next
    case (unserializable c i e) then show ?thesis by (auto intro!: move)
  next
    case (write_check c i) then show ?thesis by (auto intro!: move)
  next
    case (send c i) then show ?thesis using wire_ok_send [OF assms(2)] by simp
  next
    case (close_in c p)
    have "wire_ok (go c (Failing p) W)" using close_in by (intro move) simp_all
    then show ?thesis unfolding close_in by (rule wire_ok_frame) (simp_all add: go_def)
  next
    case (fail_all c p)
    have f: "wire_ok (fail_pending W)" by (rule wire_ok_fail [OF assms(2)])
    have "call_ok (fail_pending W) c p"
      using wire_okD(4) [OF f, of c] fail_all by (simp add: fail_pending_def call_ok_def)
    then show ?thesis unfolding fail_all by (rule wire_ok_go [OF f])
  next
    case (give_up c i e)
    have r: "reg_id (w_phase W c) = Some i" using give_up by simp
    have "call_ok (drop_pending i W) c (Returned (Inl e))"
      by (rule call_ok_not_pending [OF ok dropped_own [OF assms(2) r]])
        (simp_all add: drop_pending_def give_up)
    then show ?thesis unfolding give_up by (rule wire_ok_drop_own [OF assms(2) le r])
  next
    case (receive c i r rs)
    then have "c \<notin> ran (w_pending W)" using ok [of c] by (auto simp: call_ok_def)
    then have "call_ok W c (Returned r)"
      using ok [of c] receive received_answers [OF assms(2) receive(3)]
      by (cases r) (auto simp: call_ok_def)
    then show ?thesis unfolding receive by (rule wire_ok_go [OF assms(2)])
  next
    case (hung_up c i)
    then have False using ok [of c] by (auto simp: call_ok_def ran_def)
    then show ?thesis ..
  next
    case (expire c i)
    have r: "reg_id (w_phase W c) = Some i" using expire by simp
    have "call_ok (drop_pending i W) c (Expired i)"
      by (rule call_ok_not_pending [OF ok dropped_own [OF assms(2) r]]) (simp_all add: drop_pending_def expire)
    then show ?thesis unfolding expire by (rule wire_ok_drop_own [OF assms(2) le r])
  next
    case (late c i r rs) 
    then have "call_ok W c (Returned r)"
      using ok [of c] received_answers [OF assms(2) late(3)]
      by (cases r) (auto simp: call_ok_def)
    then show ?thesis unfolding late by (rule wire_ok_go [OF assms(2)])
  next
    case (stuck c i) then show ?thesis by (auto intro!: dmove)
  next
    case (timed_out c i t) then show ?thesis by (auto intro!: move)
  next
    case (response i r) then show ?thesis using wire_ok_response [OF assms(2) le] by simp
  next
    case (deliver c r) then show ?thesis using wire_ok_deliver [OF assms(2)] by simp
  next
    case (kill_fail n)
    have "wire_ok (W\<lparr>w_killers := n\<rparr>)" by (rule frame) simp_all
    then show ?thesis unfolding kill_fail by (rule wire_ok_fail)
  qed (auto simp: die_def intro!: frame)
qed

section \<open>A dead server\<close>

text \<open>Dead, and every thread that is to fail the pending calls has done so.\<close>

definition dead_and_done :: "'v wire \<Rightarrow> bool" where
  "dead_and_done W \<longleftrightarrow>
     w_life W = Dead \<and> w_killers W = 0 \<and> w_stops W = 0
     \<and> (\<forall>c p. w_phase W c \<noteq> Failing p \<and> w_phase W c \<noteq> Killing p)"

definition will_see_death :: "'v phase \<Rightarrow> bool" where
  "will_see_death p \<longleftrightarrow> (case p of Registered _ \<Rightarrow> True | Giving_up _ _ \<Rightarrow> True | _ \<Rightarrow> False)"

definition dead_ok :: "'v wire \<Rightarrow> bool" where
  "dead_ok W \<longleftrightarrow> (dead_and_done W \<longrightarrow> (\<forall>c\<in>ran (w_pending W). will_see_death (w_phase W c)))"

lemma dead_okD: "dead_ok W \<Longrightarrow> dead_and_done W \<Longrightarrow> c \<in> ran (w_pending W) \<Longrightarrow> will_see_death (w_phase W c)"
  by (simp add: dead_ok_def)

lemma dead_ok_empty: "w_pending W = Map.empty \<Longrightarrow> dead_ok W"
  by (simp add: dead_ok_def)

lemma dead_ok_busy: "\<not> dead_and_done W \<Longrightarrow> dead_ok W"
  by (simp add: dead_ok_def)

lemma dead_ok_frame:
  assumes "dead_ok W" and "ran (w_pending W') \<subseteq> ran (w_pending W)" and "w_phase W' = w_phase W"
    and "dead_and_done W' \<Longrightarrow> dead_and_done W"
  shows "dead_ok W'"
  using assms unfolding dead_ok_def by auto

text \<open>A call moves outside the pending map, or to a phase that will notice.\<close>

lemma dead_ok_move:
  assumes "dead_ok W" and "w_phase W' = (w_phase W)(c := p)"
    and "dead_and_done W' \<Longrightarrow> dead_and_done W"
    and "\<And>d. d \<noteq> c \<Longrightarrow> d \<in> ran (w_pending W') \<Longrightarrow> d \<in> ran (w_pending W)"
    and "dead_and_done W' \<Longrightarrow> c \<in> ran (w_pending W') \<Longrightarrow> will_see_death p"
  shows "dead_ok W'"
  unfolding dead_ok_def
proof (intro impI ballI)
  fix d assume *: "dead_and_done W'" "d \<in> ran (w_pending W')"
  show "will_see_death (w_phase W' d)"
    using assms * by (cases "d = c") (auto dest: dead_okD)
qed

lemma will_see_death_simps [simp]:
  "will_see_death (Registered i)" "will_see_death (Giving_up i e)" "\<not> will_see_death (Writing i)"
  "\<not> will_see_death (Awaiting i)"
  by (simp_all add: will_see_death_def)

lemma done_back:
  assumes "dead_and_done W'" and "w_phase W' = (w_phase W)(c := p)"
    and "w_life W' = w_life W" "w_killers W' = w_killers W" "w_stops W' = w_stops W"
    and "\<And>q. w_phase W c \<noteq> Failing q" "\<And>q. w_phase W c \<noteq> Killing q"
  shows "dead_and_done W"
proof -
  have "w_phase W d \<noteq> Failing q \<and> w_phase W d \<noteq> Killing q" for d q
    using assms(1,2,6,7) unfolding dead_and_done_def by (cases "d = c") (auto, (metis fun_upd_apply)+)
  then show ?thesis using assms(1,3-5) unfolding dead_and_done_def by auto
qed

lemma dead_ok_go:
  assumes "dead_ok W" and "\<And>q. w_phase W c \<noteq> Failing q" "\<And>q. w_phase W c \<noteq> Killing q"
    and "dead_and_done W \<Longrightarrow> c \<in> ran (w_pending W) \<Longrightarrow> will_see_death p"
  shows "dead_ok (go c p W)"
proof -
  have prior: "dead_and_done (go c p W) \<Longrightarrow> dead_and_done W"
    by (erule done_back [of _ W c p]) (simp_all add: go_def assms(2,3))
  show ?thesis
    by (rule dead_ok_move [OF assms(1), of _ c p]) (use prior assms(4) in \<open>auto simp: go_def\<close>)
qed

lemma not_done_failing: "w_phase W c = Failing p \<or> w_phase W c = Killing p \<Longrightarrow> \<not> dead_and_done W"
  by (auto simp: dead_and_done_def)

lemma dead_ok_go_drop:
  assumes "dead_ok W" and "wire_ok W" and "reg_id (w_phase W c) = Some i"
    and "\<And>q. w_phase W c \<noteq> Failing q" "\<And>q. w_phase W c \<noteq> Killing q"
  shows "dead_ok (go c p (drop_pending i W))"
proof -
  have prior: "dead_and_done (go c p (drop_pending i W)) \<Longrightarrow> dead_and_done W"
    by (erule done_back [of _ W c p]) (simp_all add: go_def drop_pending_def assms(4,5))
  have "c \<notin> ran ((w_pending W)(i := None))"
    using dropped_own [OF assms(2,3)] by (simp add: drop_pending_def)
  with prior show ?thesis
    by (intro dead_ok_move [OF assms(1), of _ c p]) (auto simp: go_def drop_pending_def dest: ran_drop)
qed

lemma dead_ok_step:
  assumes "wire_step sd W W'" and "wire_ok W" and "dead_ok W"
  shows "dead_ok W'"
proof -
  note ok = wire_okD(4) [OF assms(2)]
  have quiet: "unregistered (w_phase W c) \<Longrightarrow> c \<notin> ran (w_pending W)" for c
    using call_ok_quiet [OF ok] .
  have see: "\<not> will_see_death (w_phase W c) \<Longrightarrow> dead_and_done W \<Longrightarrow> c \<notin> ran (w_pending W)" for c
    using dead_okD [OF assms(3)] by blast
  note move = dead_ok_go [OF assms(3)]
  from assms(1) show ?thesis
  proof cases
    case (refuse c e) then show ?thesis using quiet [of c] by (auto intro!: move)
  next
    case (pass c) then show ?thesis using quiet [of c] by (auto intro!: move)
  next
    case (child_lives c) then show ?thesis using quiet [of c] by (auto intro!: move)
  next
    case (child_dead c)
    then show ?thesis by (intro dead_ok_busy not_done_failing [of _ c Reaped]) (simp add: die_def go_def)
  next
    case (child_gone c) then show ?thesis using quiet [of c] by (auto intro!: move)
  next
    case (reaped c)
    show ?thesis unfolding reaped(1) by (rule move) (use reaped quiet [of c] in auto)
  next
    case (register c)
    have prior: "dead_and_done W' \<Longrightarrow> dead_and_done W"
      by (erule done_back [of _ W c "Registered (w_next W)"]) (simp_all add: register register_call_def go_def)
    show ?thesis
      by (rule dead_ok_move [OF assms(3), of _ c "Registered (w_next W)"])
        (use prior in \<open>auto simp: register register_call_def go_def ran_def split: if_splits\<close>)
  next
    case (unserializable c i e) then show ?thesis by (auto intro!: move)
  next
    case (write_check c i)
    show ?thesis unfolding write_check(1)
      by (rule move) (use write_check in \<open>auto simp: dead_and_done_def\<close>)
  next
    case (send c i)
    have n: "dead_and_done W \<Longrightarrow> c \<notin> ran (w_pending W)" using see [of c] send by simp
    have "dead_ok (W\<lparr>w_queue := Suc (w_queue W)\<rparr>)"
      by (rule dead_ok_frame [OF assms(3)]) (auto simp: dead_and_done_def)
    then have "dead_ok (go c (Awaiting i) (W\<lparr>w_queue := Suc (w_queue W)\<rparr>))"
      by (rule dead_ok_go) (use n send in \<open>auto simp: dead_and_done_def\<close>)
    moreover have "dead_ok (go c (Giving_up i Crashed) W)" by (rule move) (use send in auto)
    moreover have "dead_ok (die (go c (Failing p) W))" "dead_ok (die (go c (Killing p) W))" for p
      by (rule dead_ok_busy, rule not_done_failing [of _ c p], simp add: die_def go_def)+
    ultimately show ?thesis unfolding send(1) try_send_def by simp
  next
    case (close_in c p)
    then show ?thesis by (intro dead_ok_busy not_done_failing [of _ c p]) (simp add: go_def)
  next
    case (fail_all c p)
    then show ?thesis by (intro dead_ok_empty) (simp add: go_def fail_pending_def)
  next
    case (give_up c i e)
    then show ?thesis using dead_ok_go_drop [OF assms(3,2), of c i] by simp
  next
    case (receive c i r rs) then show ?thesis using see [of c] by (auto intro!: move)
  next
    case (hung_up c i) then show ?thesis by (auto intro!: move)
  next
    case (expire c i)
    then show ?thesis using dead_ok_go_drop [OF assms(3,2), of c i] by simp
  next
    case (late c i r rs) then show ?thesis using ok [of c] by (auto intro!: move simp: call_ok_def)
  next
    case (stuck c i)
    then show ?thesis
      by (intro dead_ok_busy not_done_failing [of _ c "Returned (Inl Crashed)"]) (simp add: die_def go_def)
  next
    case (timed_out c i t) then show ?thesis using ok [of c] by (auto intro!: move simp: call_ok_def)
  next
    case (response i r)
    have "w_phase W' = w_phase W" "w_life W' = w_life W" "w_killers W' = w_killers W" "w_stops W' = w_stops W"
      "ran (w_pending W') \<subseteq> ran (w_pending W)"
      by (auto simp: response take_response_def Let_def drop_pending_def dest: ran_drop split: option.splits)
    then show ?thesis by (intro dead_ok_frame [OF assms(3)]) (auto simp: dead_and_done_def)
  next
    case (kill_fail n)
    then show ?thesis by (intro dead_ok_empty) (simp add: fail_pending_def)
  next
    case (deliver c r)
    then show ?thesis by (intro dead_ok_frame [OF assms(3)]) (simp_all add: dead_and_done_def)
  next
    case (written n)
    then show ?thesis by (intro dead_ok_frame [OF assms(3)]) (simp_all add: dead_and_done_def)
  next
    case writer_end
    then show ?thesis by (intro dead_ok_frame [OF assms(3)]) (simp_all add: dead_and_done_def)
  next
    case other_frame
    then show ?thesis by (intro dead_ok_frame [OF assms(3)]) (simp_all add: dead_and_done_def)
  qed (auto simp: dead_and_done_def die_def intro!: dead_ok_busy)
qed

lemma wire_start_ok: "wire_ok wire_start" "dead_ok wire_start"
  by (auto simp: wire_ok_def tickets_ok_def pending_ok_def sent_ok_def call_ok_def wire_start_def
    ticket_id_def dead_ok_def)

lemma wire_reach_ok:
  "wire_reach sd W \<Longrightarrow> w_used W \<le> 2 ^ 64 \<Longrightarrow> wire_ok W \<and> dead_ok W"
proof (induction rule: wire_reach.induct)
  case start
  show ?case using wire_start_ok by simp
next
  case (step W W')
  have "w_used W \<le> 2 ^ 64" using used_mono [OF step.hyps(2)] step.prems by simp
  then show ?case
    using step.IH wire_ok_step [OF step.hyps(2)] dead_ok_step [OF step.hyps(2)] step.prems by blast
qed

section \<open>Retries\<close>

text \<open>\<open>request_value\<close>: \<open>once n e limit\<close> is the reply of attempt \<open>n\<close> begun \<open>e\<close> nanoseconds after the start with
  the time limit \<open>limit\<close>, and the time it ends; \<open>pause e\<close> is the time after sleeping from \<open>e\<close>.\<close>

definition content_modified_attempts :: nat where
  "content_modified_attempts = 4"

definition millisecond :: nat where
  "millisecond = 1000000"

definition content_modified_backoff :: nat where
  "content_modified_backoff = 250 * millisecond"

record 'v outcome =
  oc_reply :: "lsp_error + 'v"
  oc_end :: nat
  oc_attempts :: nat

function request_value ::
  "nat \<Rightarrow> (nat \<Rightarrow> nat \<Rightarrow> nat \<Rightarrow> (lsp_error + 'v) \<times> nat) \<Rightarrow> (nat \<Rightarrow> nat) \<Rightarrow> nat \<Rightarrow> nat \<Rightarrow> 'v outcome" where
  "request_value timeout once pause attempt e =
     (let remaining = timeout - e
      in if 0 < attempt \<and> remaining = 0
         then \<lparr>oc_reply = Inl (TimeoutErr timeout), oc_end = e, oc_attempts = attempt\<rparr>
         else (let (r, e') = once attempt e (max remaining millisecond)
               in if r = Inl ContentModified \<and> attempt + 1 < content_modified_attempts
                     \<and> e' + content_modified_backoff < timeout
                  then request_value timeout once pause (attempt + 1) (pause e')
                  else \<lparr>oc_reply = r, oc_end = e', oc_attempts = attempt + 1\<rparr>))"
  by pat_completeness auto
termination
  by (relation "measure (\<lambda>(_, _, _, attempt, _). content_modified_attempts - attempt)") auto

declare request_value.simps [simp del]

lemma request_value_bounds:
  assumes once: "\<And>n e l. snd (once n e l) \<le> e + l"
    and pause: "\<And>e. pause e \<le> e + content_modified_backoff + slack"
  shows "attempt < content_modified_attempts \<Longrightarrow> e \<le> timeout + slack \<Longrightarrow>
    oc_attempts (request_value timeout once pause attempt e) \<le> content_modified_attempts \<and>
    oc_end (request_value timeout once pause attempt e) \<le> timeout + slack + millisecond"
  using assms
proof (induction timeout once pause attempt e rule: request_value.induct)
  case (1 timeout once pause attempt e)
  obtain r e' where o: "once attempt e (max (timeout - e) millisecond) = (r, e')" by fastforce
  have "e' \<le> e + max (timeout - e) millisecond" using "1.prems"(3) [of attempt e "max (timeout - e) millisecond"] o by simp
  then have e': "e' \<le> timeout + slack + millisecond" using "1.prems"(2) by (auto simp: max_def split: if_splits)
  show ?case
  proof (cases "\<not> (0 < attempt \<and> timeout - e = 0) \<and> r = Inl ContentModified \<and>
      attempt + 1 < content_modified_attempts \<and> e' + content_modified_backoff < timeout")
    case True
    have "pause e' \<le> timeout + slack" using "1.prems"(4) [of e'] True by simp
    then have "oc_attempts (request_value timeout once pause (attempt + 1) (pause e')) \<le> content_modified_attempts \<and>
        oc_end (request_value timeout once pause (attempt + 1) (pause e')) \<le> timeout + slack + millisecond"
      using True by (intro "1.IH" [OF refl _ o [symmetric] refl] "1.prems"(3,4)) simp_all
    then show ?thesis using True o by (subst (1 2) request_value.simps) (auto simp: Let_def)
  next
    case False
    then show ?thesis
      using o e' "1.prems"(1,2) by (subst (1 2) request_value.simps) (auto simp: Let_def)
  qed
qed

section \<open>Background work of the server\<close>

text \<open>What the readers of a notification's parameters find: the token of \<open>$/progress\<close> as text, and the
  values at the paths the handlers look up.\<close>

record 'd note_params =
  np_token :: "string option"
  np_kind :: "string option"
  np_is_analyzing :: "bool option"
  np_analysis_active :: "bool option"
  np_quiescent :: "bool option"
  np_import_phase :: "string option"
  np_diagnostics :: "(string \<times> int option \<times> 'd list) option"

record 'd tracker =
  tr_saw :: bool
  tr_active :: "string set"
  tr_ready :: bool
  tr_roslyn :: bool
  tr_versions :: "string \<Rightarrow> int option"
  tr_diagnostics :: "string \<Rightarrow> 'd list option"
  tr_log :: "(string \<times> 'd note_params) list"

definition begin_work :: "string \<Rightarrow> 'd tracker \<Rightarrow> 'd tracker" where
  "begin_work token T = T\<lparr>tr_saw := True, tr_ready := False, tr_active := insert token (tr_active T)\<rparr>"

definition end_work :: "string \<Rightarrow> 'd tracker \<Rightarrow> 'd tracker" where
  "end_work token T = T\<lparr>tr_active := tr_active T - {token}\<rparr>"

definition track_progress :: "'d note_params \<Rightarrow> 'd tracker \<Rightarrow> 'd tracker" where
  "track_progress p T =
     (case np_token p of
        None \<Rightarrow> T
      | Some token \<Rightarrow>
          if np_kind p = Some ''begin'' then begin_work token T
          else if np_kind p = Some ''end'' then end_work token T else T)"

definition analyzer_token :: string where
  "analyzer_token = ''dart-analyzer''"

definition set_analyzer_active :: "bool \<Rightarrow> 'd tracker \<Rightarrow> 'd tracker" where
  "set_analyzer_active is_analyzing T =
     (if is_analyzing then begin_work analyzer_token T else end_work analyzer_token T)"

definition track_analyzer_status :: "'d note_params \<Rightarrow> 'd tracker \<Rightarrow> 'd tracker" where
  "track_analyzer_status p T =
     (case np_is_analyzing p of Some b \<Rightarrow> set_analyzer_active b T | None \<Rightarrow> T)"

definition track_server_status :: "'d note_params \<Rightarrow> 'd tracker \<Rightarrow> 'd tracker" where
  "track_server_status p T =
     (let T' = (case np_analysis_active p of Some b \<Rightarrow> set_analyzer_active b T | None \<Rightarrow> T)
      in if np_quiescent p = Some True then end_work analyzer_token T' else T')"

definition kotlin_import_token :: string where
  "kotlin_import_token = ''astrolabe:intellij-import''"

text \<open>The export request a finished import sends is output; its reply has a number no call waits for.\<close>

definition track_kotlin_import :: "'d note_params \<Rightarrow> 'd tracker \<Rightarrow> 'd tracker" where
  "track_kotlin_import p T =
     (if np_import_phase p \<noteq> Some ''FINISHED'' then begin_work kotlin_import_token T
      else end_work kotlin_import_token T)"

definition publish_diagnostics :: "'d note_params \<Rightarrow> 'd tracker \<Rightarrow> 'd tracker" where
  "publish_diagnostics p T =
     (case np_diagnostics p of
        None \<Rightarrow> T
      | Some (uri, version, items) \<Rightarrow>
          T\<lparr>tr_versions := (tr_versions T)(uri := version), tr_diagnostics := (tr_diagnostics T)(uri \<mapsto> items)\<rparr>)"

definition handle_notification :: "(string \<Rightarrow> bool) \<Rightarrow> string \<Rightarrow> 'd note_params \<Rightarrow> 'd tracker \<Rightarrow> 'd tracker" where
  "handle_notification relayed meth p T =
     (if relayed meth then T
      else (let T1 = (if meth = ''$/progress'' then track_progress p T else T);
                T2 = (if meth = ''$/analyzerStatus'' then track_analyzer_status p T1 else T1);
                T3 = (if meth = ''experimental/serverStatus'' then track_server_status p T2 else T2);
                T4 = (if meth = ''intellij/workspaceImportState'' then track_kotlin_import p T3 else T3);
                T5 = (if meth = ''workspace/projectInitializationComplete''
                      then T4\<lparr>tr_saw := True, tr_roslyn := False\<rparr> else T4);
                T6 = (if meth = ''textDocument/publishDiagnostics'' then publish_diagnostics p T5 else T5)
            in if length (tr_log T6) < 64 then T6\<lparr>tr_log := tr_log T6 @ [(meth, p)]\<rparr> else T6))"

definition settle_window :: nat where "settle_window = 3 * pool_second"
definition roslyn_init_cap :: nat where "roslyn_init_cap = 30 * pool_second"
definition quiet_period :: nat where "quiet_period = pool_second"

text \<open>\<open>elapsed\<close> is the time since the server was started.\<close>

definition roslyn_init_pending :: "nat \<Rightarrow> 'd tracker \<Rightarrow> bool" where
  "roslyn_init_pending elapsed T \<longleftrightarrow> tr_roslyn T \<and> elapsed < roslyn_init_cap"

definition is_busy :: "nat \<Rightarrow> 'd tracker \<Rightarrow> bool" where
  "is_busy elapsed T \<longleftrightarrow>
     roslyn_init_pending elapsed T \<or> tr_active T \<noteq> {}
     \<or> (\<not> tr_saw T \<and> \<not> tr_ready T \<and> elapsed < settle_window)"

text \<open>\<open>wait_until_ready\<close> on the samples it takes: each is the time and the state at one turn of a loop,
  and the state at the second \<open>is_busy\<close> of the turn.  Both loops give \<open>None\<close> while they have not ended.\<close>

fun settle_loop :: "nat \<Rightarrow> (nat \<times> 'd tracker \<times> 'd tracker) list \<Rightarrow> (nat \<times> 'd tracker \<times> 'd tracker) list" where
  "settle_loop settle_until [] = []"
| "settle_loop settle_until ((now, T, T') # ss) =
     (if \<not> tr_saw T \<and> \<not> roslyn_init_pending now T \<and> now < settle_until
      then settle_loop settle_until ss else (now, T, T') # ss)"

fun quiet_loop :: "nat \<Rightarrow> nat option \<Rightarrow> (nat \<times> 'd tracker \<times> 'd tracker) list \<Rightarrow> (bool \<times> nat) option" where
  "quiet_loop until quiet_since [] = None"
| "quiet_loop until quiet_since ((now, T, T') # ss) =
     (let quiet = (if is_busy now T then None
                   else Some (case quiet_since of Some t \<Rightarrow> t | None \<Rightarrow> now))
      in case quiet of
           Some t \<Rightarrow>
             if quiet_period \<le> now - t then Some (True, now)
             else if until \<le> now then Some (\<not> is_busy now T', now) else quiet_loop until quiet ss
         | None \<Rightarrow> if until \<le> now then Some (\<not> is_busy now T', now) else quiet_loop until quiet ss)"

definition wait_until_ready ::
  "nat \<Rightarrow> bool \<Rightarrow> nat \<Rightarrow> (nat \<times> 'd tracker \<times> 'd tracker) list \<Rightarrow> (bool \<times> nat) option" where
  "wait_until_ready now ready deadline samples =
     (if ready then Some (True, now)
      else (case settle_loop (now + min settle_window deadline) samples of
              [] \<Rightarrow> None
            | (t, T, T') # ss \<Rightarrow>
                if \<not> tr_saw T \<and> \<not> roslyn_init_pending t T then Some (True, t)
                else quiet_loop (now + deadline) None ss))"

definition sample_busy :: "nat \<times> 'd tracker \<times> 'd tracker \<Rightarrow> bool" where
  "sample_busy s \<longleftrightarrow> is_busy (fst s) (fst (snd s))"

text \<open>A quiet second: consecutive samples up to the one at \<open>t\<close>, none busy, the first a second older.\<close>

definition quiet_second :: "(nat \<times> 'd tracker \<times> 'd tracker) list \<Rightarrow> nat \<Rightarrow> bool" where
  "quiet_second ss t \<longleftrightarrow>
     (\<exists>i j. i \<le> j \<and> j < length ss \<and> fst (ss ! j) = t \<and> quiet_period \<le> t - fst (ss ! i)
        \<and> (\<forall>k. i \<le> k \<longrightarrow> k \<le> j \<longrightarrow> \<not> sample_busy (ss ! k)))"

lemma quiet_second_Cons: "quiet_second ss t \<Longrightarrow> quiet_second (s # ss) t"
proof -
  assume "quiet_second ss t"
  then obtain i j where *: "i \<le> j" "j < length ss" "fst (ss ! j) = t" "quiet_period \<le> t - fst (ss ! i)"
    "\<forall>k. i \<le> k \<longrightarrow> k \<le> j \<longrightarrow> \<not> sample_busy (ss ! k)" unfolding quiet_second_def by blast
  then have "\<forall>k. Suc i \<le> k \<longrightarrow> k \<le> Suc j \<longrightarrow> \<not> sample_busy ((s # ss) ! k)"
    by (auto simp: nth_Cons' Suc_le_eq split: nat.splits)
  with * show ?thesis
    unfolding quiet_second_def by - (rule exI [of _ "Suc i"], rule exI [of _ "Suc j"], simp)
qed

lemma quiet_loop_busy:
  "is_busy now T \<Longrightarrow> quiet_loop until q ((now, T, T') # ss) =
    (if until \<le> now then Some (\<not> is_busy now T', now) else quiet_loop until None ss)"
  by simp

lemma quiet_loop_idle:
  "\<not> is_busy now T \<Longrightarrow> quiet_loop until q ((now, T, T') # ss) =
    (let s = (case q of Some t \<Rightarrow> t | None \<Rightarrow> now)
     in if quiet_period \<le> now - s then Some (True, now)
        else if until \<le> now then Some (\<not> is_busy now T', now) else quiet_loop until (Some s) ss)"
  by (simp add: Let_def)

declare quiet_loop.simps(2) [simp del]

lemma quiet_loop_ready:
  assumes "quiet_loop until q ss = Some (True, t)" and "t < until"
  shows "quiet_second ss t \<or>
    (\<exists>s j. q = Some s \<and> j < length ss \<and> fst (ss ! j) = t \<and> quiet_period \<le> t - s \<and> (\<forall>k\<le>j. \<not> sample_busy (ss ! k)))"
  using assms
proof (induction ss arbitrary: q)
  case (Cons sm ss)
  obtain now T T' where sm: "sm = (now, T, T')" by (cases sm)
  let ?s = "(now, T, T')"
  note prems = Cons.prems [unfolded sm]
  have "quiet_second (?s # ss) t \<or>
    (\<exists>s j. q = Some s \<and> j < length (?s # ss) \<and> fst ((?s # ss) ! j) = t \<and> quiet_period \<le> t - s
      \<and> (\<forall>k\<le>j. \<not> sample_busy ((?s # ss) ! k)))"
  proof (cases "is_busy now T")
    case True
    then have "quiet_loop until None ss = Some (True, t)" using prems by (simp add: quiet_loop_busy split: if_splits)
    then have "quiet_second ss t" using Cons.IH [of None] prems(2) by auto
    then show ?thesis using quiet_second_Cons by blast
  next
    case False
    define s where "s = (case q of Some t \<Rightarrow> t | None \<Rightarrow> now)"
    have nb: "\<not> sample_busy ?s" using False by (simp add: sample_busy_def)
    show ?thesis
    proof (cases "quiet_period \<le> now - s")
      case True
      then have "t = now" using prems by (simp add: quiet_loop_idle [OF False] s_def)
      then show ?thesis
      proof (cases q)
        case None
        then have "quiet_period \<le> now - now" using True by (simp add: s_def)
        then show ?thesis by (simp add: quiet_period_def pool_second_def)
      next
        case (Some q')
        then show ?thesis using True \<open>t = now\<close> nb by - (rule disjI2, rule exI [of _ q'], rule exI [of _ 0], auto simp: s_def)
      qed
    next
      case far: False
      then have "quiet_loop until (Some s) ss = Some (True, t)"
        using prems by (simp add: quiet_loop_idle [OF False] s_def split: if_splits)
      then consider "quiet_second ss t" | j where "j < length ss" "fst (ss ! j) = t" "quiet_period \<le> t - s"
        "\<forall>k\<le>j. \<not> sample_busy (ss ! k)"
        using Cons.IH [of "Some s"] prems(2) by auto
      then show ?thesis
      proof cases
        case 1
        then show ?thesis using quiet_second_Cons by blast
      next
        case (2 j)
        then have all: "\<forall>k\<le>Suc j. \<not> sample_busy ((?s # ss) ! k)"
          using nb by (auto simp: nth_Cons' le_diff_conv)
        show ?thesis
        proof (cases q)
          case None
          then have "s = now" by (simp add: s_def)
          then have "quiet_second (?s # ss) t"
            unfolding quiet_second_def using 2 all
            by - (rule exI [of _ 0], rule exI [of _ "Suc j"], simp)
          then show ?thesis ..
        next
          case (Some q')
          then show ?thesis using 2 all
            by - (rule disjI2, rule exI [of _ q'], rule exI [of _ "Suc j"], auto simp: s_def)
        qed
      qed
    qed
  qed
  then show ?case by (simp add: sm)
qed simp

lemma quiet_loop_ends: "\<exists>s\<in>set ss. until \<le> fst s \<Longrightarrow> quiet_loop until q ss \<noteq> None"
proof (induction ss arbitrary: q)
  case (Cons sm ss)
  obtain now T T' where sm: "sm = (now, T, T')" by (cases sm)
  show ?case
    using Cons unfolding sm
    by (cases "is_busy now T") (auto simp: quiet_loop_busy quiet_loop_idle Let_def)
qed simp

text \<open>A \<open>begin\<close> that the reader handles between the last \<open>is_busy\<close> of a waiter and its store of the latch
  is lost on later waiters: the latch says ready although work is open.\<close>

lemma ready_latch_race:
  "is_busy e ((begin_work token T)\<lparr>tr_ready := True\<rparr>)
   \<and> wait_until_ready now (tr_ready ((begin_work token T)\<lparr>tr_ready := True\<rparr>)) deadline samples = Some (True, now)"
  by (simp add: is_busy_def begin_work_def wait_until_ready_def)

section \<open>Properties\<close>

text \<open>A run in which call 0 is answered, and one in which the server dies while it waits.\<close>

definition no_shutdown :: "nat \<Rightarrow> bool" where
  "no_shutdown c \<longleftrightarrow> False"

definition demo_sent :: "nat wire" where
  "demo_sent = try_send 1 0 (go 0 (Writing 1) (register_call 0 (go 0 Checked (go 0 Passed wire_start))))"

definition demo_answered :: "nat wire" where
  "demo_answered =
     (let W = take_response 1 (Inr 7) demo_sent
      in go 0 (Returned (Inr 7)) (W\<lparr>w_flying := {}, w_inbox := (w_inbox W)(0 := [Inr 7])\<rparr>))"

definition demo_dead :: "nat wire" where
  "demo_dead = fail_pending (die demo_sent)"

lemma demo_sent_reached: "wire_reach no_shutdown demo_sent"
proof -
  let ?a = "go 0 Passed wire_start :: nat wire" and ?b = "go 0 Checked (go 0 Passed wire_start) :: nat wire"
  have "wire_reach no_shutdown ?a"
    by (rule wire_reach.step [OF wire_reach.start pass]) (simp_all add: wire_start_def refused_def)
  then have b: "wire_reach no_shutdown ?b"
    by (rule wire_reach.step) (rule child_lives, simp add: go_def)
  have c: "wire_reach no_shutdown (register_call 0 ?b)"
    by (rule wire_reach.step [OF b]) (rule register, simp add: go_def)
  have "wire_step no_shutdown (register_call 0 ?b) (go 0 (Writing 1) (register_call 0 ?b))"
    using write_check [of "register_call 0 ?b" 0 1 no_shutdown]
    by (simp add: register_call_def go_def wire_start_def)
  then have d: "wire_reach no_shutdown (go 0 (Writing 1) (register_call 0 ?b))"
    by (rule wire_reach.step [OF c])
  show ?thesis
    unfolding demo_sent_def
    by (rule wire_reach.step [OF d]) (rule send, simp add: go_def)
qed

lemma demo_sent_fields:
  "w_life demo_sent = Running" "w_killers demo_sent = 0" "w_stops demo_sent = 0" "w_flying demo_sent = {}"
  "w_phase demo_sent = (\<lambda>_. Fresh)(0 := Awaiting 1)" "w_pending demo_sent = [1 \<mapsto> 0]"
  "w_used demo_sent = 1" "w_inbox demo_sent = (\<lambda>_. [])" "w_tickets demo_sent = [0 \<mapsto> (0, 0)]" "w_log demo_sent = []"
  by (auto simp: demo_sent_def try_send_def go_def register_call_def wire_start_def stdin_queue_frames_def)

lemma demo_answered_reached: "wire_reach no_shutdown demo_answered"
proof -
  let ?W = "take_response 1 (Inr 7) demo_sent"
  have r: "wire_reach no_shutdown ?W"
    by (rule wire_reach.step [OF demo_sent_reached response])
  have f: "w_flying ?W = {(0, Inr 7)}" "w_inbox ?W 0 = []" "w_phase ?W 0 = Awaiting 1"
    by (simp_all add: take_response_def demo_sent_fields drop_pending_def)
  let ?V = "?W\<lparr>w_flying := {}, w_inbox := (w_inbox ?W)(0 := [Inr 7])\<rparr>"
  have "wire_step no_shutdown ?W ?V" using deliver [of 0 "Inr 7" ?W no_shutdown] by (simp add: f)
  then have v: "wire_reach no_shutdown ?V" by (rule wire_reach.step [OF r])
  show ?thesis
    unfolding demo_answered_def Let_def
    by (rule wire_reach.step [OF v]) (rule receive [where i = 1 and rs = "[]"], simp_all add: f)
qed

lemma demo_dead_reached: "wire_reach no_shutdown demo_dead"
proof -
  have "wire_step no_shutdown demo_sent (die (demo_sent\<lparr>w_killers := 1\<rparr>))"
    using reader_exit [of demo_sent no_shutdown] by (simp add: demo_sent_fields)
  then have k: "wire_reach no_shutdown (die (demo_sent\<lparr>w_killers := 1\<rparr>))"
    by (rule wire_reach.step [OF demo_sent_reached])
  have "wire_step no_shutdown (die (demo_sent\<lparr>w_killers := 1\<rparr>)) demo_dead"
    using kill_fail [of "die (demo_sent\<lparr>w_killers := 1\<rparr>)" 0 no_shutdown]
    by (simp add: demo_dead_def die_def fail_pending_def demo_sent_fields(2)
      flip: demo_sent_fields(2))
  then show ?thesis by (rule wire_reach.step [OF k])
qed

text \<open>C15: A request returns a value only when the server sent it: in every interleaving of callers, reader,
  writer and shutdown, with fewer than \<open>2 ^ 64\<close> requests, a call that returned \<open>v\<close> has a number that no other
  call has, and \<open>v\<close> is the first response with that number that was read after the call registered.\<close>

theorem answer_belongs_to_request:
  assumes "wire_reach sd W" and "w_used W \<le> 2 ^ 64" and "w_phase W c = Returned (Inr v)"
  shows "\<exists>k n j. w_tickets W c = Some (k, n)
    \<and> (\<forall>d k' n'. d \<noteq> c \<longrightarrow> w_tickets W d = Some (k', n') \<longrightarrow> ticket_id k' \<noteq> ticket_id k)
    \<and> n \<le> j \<and> j < length (w_log W) \<and> w_log W ! j = (ticket_id k, Inr v)
    \<and> (\<forall>i. n \<le> i \<longrightarrow> i < j \<longrightarrow> fst (w_log W ! i) \<noteq> ticket_id k)"
proof -
  have ok: "wire_ok W" using wire_reach_ok [OF assms(1,2)] ..
  have "answers W c (Inr v)" using wire_okD(4) [OF ok, of c] assms(3) by (simp add: call_ok_def)
  then obtain k n j where a: "w_tickets W c = Some (k, n)" "n \<le> j" "j < length (w_log W)"
    "w_log W ! j = (ticket_id k, Inr v)" "\<forall>i. n \<le> i \<longrightarrow> i < j \<longrightarrow> fst (w_log W ! i) \<noteq> ticket_id k"
    unfolding answers_def by blast
  have "ticket_id k' \<noteq> ticket_id k" if "d \<noteq> c" "w_tickets W d = Some (k', n')" for d k' n'
  proof
    assume "ticket_id k' = ticket_id k"
    moreover have "k < w_used W" "k' < w_used W"
      using wire_okD(1) [OF ok] a(1) that(2) unfolding tickets_ok_def by blast+
    ultimately have "k' = k" using assms(2) by (intro ticket_id_inj) simp_all
    then show False using wire_okD(1) [OF ok] a(1) that unfolding tickets_ok_def by blast
  qed
  with a show ?thesis by blast
qed

theorem answer_belongs_to_request_witness:
  "\<exists>k n j. w_tickets demo_answered 0 = Some (k, n) \<and> n \<le> j \<and> w_log demo_answered ! j = (ticket_id k, Inr 7)"
proof -
  have "w_phase demo_answered 0 = Returned (Inr 7)" "w_used demo_answered = 1"
    by (simp_all add: demo_answered_def Let_def go_def take_response_def demo_sent_fields drop_pending_def)
  then show ?thesis using answer_belongs_to_request [OF demo_answered_reached, of 0 7] by auto
qed

text \<open>C22: A dead server leaves nobody waiting: once the server is dead and every thread that found it dead
  has failed the pending calls, a call that waits has its reply in its channel or on the way there, and the
  only calls left in the pending map are ones that have not tried to write yet, or are giving up: they see the
  death before they could wait.\<close>

theorem dead_server_leaves_no_waiter:
  assumes "wire_reach sd W" and "w_used W \<le> 2 ^ 64" and "dead_and_done W"
  shows "(w_phase W c = Awaiting i \<longrightarrow> (\<exists>r. (c, r) \<in> w_flying W \<or> r \<in> set (w_inbox W c)))
    \<and> (w_pending W i = Some c \<longrightarrow> w_phase W c = Registered i \<or> (\<exists>e. w_phase W c = Giving_up i e))"
proof (intro conjI impI)
  have ok: "wire_ok W" and dead: "dead_ok W" using wire_reach_ok [OF assms(1,2)] by simp_all
  note c = wire_okD(4) [OF ok, of c]
  show "\<exists>r. (c, r) \<in> w_flying W \<or> r \<in> set (w_inbox W c)" if "w_phase W c = Awaiting i"
  proof -
    have "c \<notin> ran (w_pending W)" using dead_okD [OF dead assms(3), of c] that by auto
    then have "c \<in> fst ` w_flying W \<or> w_inbox W c \<noteq> []"
      using c that by (auto simp: call_ok_def ran_def)
    then show ?thesis by (cases "w_inbox W c") auto
  qed
  show "w_phase W c = Registered i \<or> (\<exists>e. w_phase W c = Giving_up i e)" if p: "w_pending W i = Some c"
  proof -
    have "will_see_death (w_phase W c)" by (rule dead_okD [OF dead assms(3)]) (use p in \<open>auto simp: ran_def\<close>)
    then show ?thesis
      using pending_own_id [OF ok p] by (auto simp: will_see_death_def split: phase.splits)
  qed
qed

theorem dead_server_leaves_no_waiter_witness:
  "\<exists>r. (0, r) \<in> w_flying demo_dead \<or> r \<in> set (w_inbox demo_dead 0)"
proof -
  have "w_phase demo_dead = (\<lambda>_. Fresh)(0 := Awaiting 1)" "w_used demo_dead = 1"
    by (simp_all add: demo_dead_def fail_pending_def die_def demo_sent_fields)
  moreover have "dead_and_done demo_dead"
    by (simp add: dead_and_done_def demo_dead_def fail_pending_def die_def demo_sent_fields)
  ultimately show ?thesis
    using dead_server_leaves_no_waiter [OF demo_dead_reached, of 0 1] by simp
qed

text \<open>\<open>wait_until_ready\<close> before its deadline takes a server that reports its work for ready only after a
  second without work: the samples of the last second were all not busy.\<close>

lemma ready_after_quiet_second:
  assumes "quiet_loop until None samples = Some (True, t)" and "t < until"
  shows "quiet_second samples t"
  using quiet_loop_ready [OF assms] by auto

definition demo_idle_tracker :: "nat tracker" where
  "demo_idle_tracker =
     \<lparr>tr_saw = True, tr_active = {}, tr_ready = False, tr_roslyn = False, tr_versions = Map.empty,
      tr_diagnostics = Map.empty, tr_log = []\<rparr>"

lemma ready_after_quiet_second_witness:
  "quiet_second [(0, begin_work ''t'' demo_idle_tracker, demo_idle_tracker),
     (pool_second, demo_idle_tracker, demo_idle_tracker), (2 * pool_second, demo_idle_tracker, demo_idle_tracker)]
     (2 * pool_second)"
proof (rule ready_after_quiet_second [of "3 * pool_second"])
  show "quiet_loop (3 * pool_second) None
    [(0, begin_work ''t'' demo_idle_tracker, demo_idle_tracker),
     (pool_second, demo_idle_tracker, demo_idle_tracker), (2 * pool_second, demo_idle_tracker, demo_idle_tracker)]
    = Some (True, 2 * pool_second)"
    by (simp add: quiet_loop_busy quiet_loop_idle is_busy_def begin_work_def demo_idle_tracker_def
      roslyn_init_pending_def quiet_period_def pool_second_def)
  show "2 * pool_second < 3 * pool_second" by (simp add: pool_second_def)
qed

end
