(* ===== verification/Paths.thy ===== *)
theory Paths
  imports RelPaths
begin

text \<open>
  Paths of the file system: what the code uses of the standard library's \<open>Path\<close> on Unix (components,
  prefixes, the last component), the comparison helpers of \<open>astrolabe-core/src/paths.rs\<close>, and the file
  URIs of \<open>lsp/transport.rs\<close>.  A path is its bytes; \<open>lossy\<close> is \<open>String::from_utf8_lossy\<close>, an argument
  that keeps valid UTF-8 as it is; \<open>canonical\<close> is \<open>Path::canonicalize\<close>, \<open>None\<close> for an error.
\<close>

section \<open>Components\<close>

datatype path_comp = RootDir | CurDir | ParentDir | Normal string

definition is_absolute :: "string \<Rightarrow> bool" where
  "is_absolute s \<longleftrightarrow> starts_with s ''/''"

definition trivial_seg :: "string \<Rightarrow> bool" where
  "trivial_seg w \<longleftrightarrow> w = '''' \<or> w = ''.''"

definition seg_comp :: "string \<Rightarrow> path_comp" where
  "seg_comp w = (if w = ''..'' then ParentDir else Normal w)"

definition seg_comps :: "string list \<Rightarrow> path_comp list" where
  "seg_comps ws = map seg_comp (filter (\<lambda>w. \<not> trivial_seg w) ws)"

definition path_components :: "string \<Rightarrow> path_comp list" where
  "path_components s =
     (let ws = split_on slash s
      in if is_absolute s then RootDir # seg_comps (tl ws)
         else if hd ws = ''.'' then CurDir # seg_comps (tl ws)
         else seg_comps ws)"

definition path_starts_with :: "string \<Rightarrow> string \<Rightarrow> bool" where
  "path_starts_with s base \<longleftrightarrow> prefix (path_components base) (path_components s)"

definition path_file_name :: "string \<Rightarrow> string option" where
  "path_file_name s =
     (let cs = path_components s
      in if cs = [] then None else case last cs of Normal w \<Rightarrow> Some w | _ \<Rightarrow> None)"

text \<open>\<open>Components::as_path\<close> after the first \<open>k\<close> components: the raw text between the trimmed ends.\<close>

fun after_segs :: "nat \<Rightarrow> string list \<Rightarrow> string list" where
  "after_segs 0 ws = dropWhile trivial_seg ws"
| "after_segs (Suc k) ws = after_segs k (tl (dropWhile trivial_seg ws))"

definition raw_join :: "string list \<Rightarrow> string" where
  "raw_join ws = join_with [slash] (rev (dropWhile trivial_seg (rev ws)))"

definition path_rest :: "nat \<Rightarrow> string \<Rightarrow> string" where
  "path_rest k s =
     (let ws = split_on slash s
      in if is_absolute s then (if k = 0 then slash # raw_join (tl ws) else raw_join (after_segs (k - 1) (tl ws)))
         else if hd ws = ''.''
         then (if k = 0 then join_with [slash] (''.'' # rev (dropWhile trivial_seg (rev (tl ws))))
               else raw_join (after_segs (k - 1) (tl ws)))
         else if k = 0 then raw_join ws else raw_join (after_segs k ws))"

definition path_strip_prefix :: "string \<Rightarrow> string \<Rightarrow> string option" where
  "path_strip_prefix s base =
     (if path_starts_with s base then Some (path_rest (length (path_components base)) s) else None)"

definition path_join :: "string \<Rightarrow> string \<Rightarrow> string" where
  "path_join base p =
     (if is_absolute p then p
      else if base = [] \<or> last base = slash then base @ p else base @ slash # p)"

section \<open>Comparison keys\<close>

definition looks_windows_path :: "string \<Rightarrow> bool" where
  "looks_windows_path s \<longleftrightarrow>
     (2 \<le> length s \<and> s ! 1 = CHR '':'' \<and> is_ascii_alphabetic (s ! 0)) \<or> starts_with s ''//''"

definition slashes_preserving_root :: "string \<Rightarrow> string" where
  "slashes_preserving_root path =
     (let raw = slashify path
      in case strip_prefix raw ''//?/UNC/'' of
           Some rest \<Rightarrow> ''//'' @ rest
         | None \<Rightarrow> (case strip_prefix raw ''//?/'' of Some rest \<Rightarrow> rest | None \<Rightarrow> raw))"

definition without_verbatim_prefix :: "string \<Rightarrow> string" where
  "without_verbatim_prefix raw =
     (case strip_prefix raw [backslash, backslash, CHR ''?'', backslash, CHR ''U'', CHR ''N'', CHR ''C'', backslash] of
        Some rest \<Rightarrow> [backslash, backslash] @ rest
      | None \<Rightarrow> (case strip_prefix raw [backslash, backslash, CHR ''?'', backslash] of Some rest \<Rightarrow> rest | None \<Rightarrow> raw))"

definition path_norm_key :: "string \<Rightarrow> string" where
  "path_norm_key path =
     (let s = slashes_preserving_root path
      in if looks_windows_path s then ascii_lowercase s else s)"

definition paths_eq_normalized :: "string \<Rightarrow> string \<Rightarrow> bool" where
  "paths_eq_normalized a b \<longleftrightarrow> path_norm_key a = path_norm_key b"

definition strip_prefix_normalized :: "string \<Rightarrow> string \<Rightarrow> string option" where
  "strip_prefix_normalized root path =
     (let root_s = path_norm_key root; path_s = path_norm_key path
      in if path_s = root_s then Some []
         else if root_s = [] then None
         else (let pre = (if ends_with root_s ''/'' then root_s else root_s @ ''/'')
               in case strip_prefix path_s pre of
                    None \<Rightarrow> None
                  | Some rest \<Rightarrow>
                      (let original = slashes_preserving_root path
                       in Some (drop (length original - length rest) original))))"

definition is_under_normalized :: "string \<Rightarrow> string \<Rightarrow> bool" where
  "is_under_normalized root path \<longleftrightarrow> strip_prefix_normalized root path \<noteq> None"

text \<open>\<open>strip_leading_dot_slash\<close> is the loop of \<open>RelPath::new\<close>.\<close>

definition strip_leading_dot_slash :: "string \<Rightarrow> string" where
  "strip_leading_dot_slash = rel_new_loop"

definition normalize_path_filter_under :: "string \<Rightarrow> string \<Rightarrow> string" where
  "normalize_path_filter_under root flt =
     (let slashed = slashes_preserving_root (trim flt)
      in case (if starts_with slashed ''/'' \<or> looks_windows_path slashed
               then strip_prefix_normalized root slashed else None) of
           Some rel \<Rightarrow> strip_leading_dot_slash rel
         | None \<Rightarrow> strip_leading_dot_slash slashed)"

definition normalize_path_filter :: "string \<Rightarrow> string" where
  "normalize_path_filter flt = strip_leading_dot_slash (slashes_preserving_root (trim flt))"

section \<open>File URIs\<close>

definition uri_plain :: "char \<Rightarrow> bool" where
  "uri_plain b \<longleftrightarrow> is_ascii_alnum b \<or> b \<in> set ''/-_.~:''"

definition hex_upper :: "nat \<Rightarrow> char" where
  "hex_upper n = char_of (if n < 10 then 48 + n else 55 + n)"

definition percent_encode :: "string \<Rightarrow> string" where
  "percent_encode s =
     concat (map (\<lambda>b. if uri_plain b then [b]
                      else [CHR ''%'', hex_upper (of_char b div 16), hex_upper (of_char b mod 16)]) s)"

definition path_to_file_uri :: "string \<Rightarrow> string \<Rightarrow> string" where
  "path_to_file_uri cwd path =
     ''file://'' @ percent_encode (slashify (if is_absolute path then path else path_join cwd path))"

definition hex_digit :: "char \<Rightarrow> nat option" where
  "hex_digit c =
     (if is_ascii_digit c then Some (of_char c - 48)
      else if CHR ''a'' \<le> c \<and> c \<le> CHR ''f'' then Some (of_char c - 87)
      else if CHR ''A'' \<le> c \<and> c \<le> CHR ''F'' then Some (of_char c - 55)
      else None)"

text \<open>\<open>u8::from_str_radix(hex, 16)\<close> on two bytes: a leading plus sign is accepted.\<close>

definition hex_byte :: "char \<Rightarrow> char \<Rightarrow> char option" where
  "hex_byte a b =
     (if a = CHR ''+'' then map_option char_of (hex_digit b)
      else case (hex_digit a, hex_digit b) of
             (Some x, Some y) \<Rightarrow> Some (char_of (16 * x + y))
           | _ \<Rightarrow> None)"

fun percent_decode_bytes :: "string \<Rightarrow> string" where
  "percent_decode_bytes (c # a # b # s) =
     (case (if c = CHR ''%'' then hex_byte a b else None) of
        Some v \<Rightarrow> v # percent_decode_bytes s
      | None \<Rightarrow> c # percent_decode_bytes (a # b # s))"
| "percent_decode_bytes s = s"

definition percent_decode :: "(string \<Rightarrow> string) \<Rightarrow> string \<Rightarrow> string" where
  "percent_decode lossy s = lossy (percent_decode_bytes s)"

definition has_parent_dir :: "string \<Rightarrow> bool" where
  "has_parent_dir s \<longleftrightarrow> ParentDir \<in> set (path_components s)"

definition drop_drive_slash :: "string \<Rightarrow> string" where
  "drop_drive_slash s =
     (case s of a # d # c # _ \<Rightarrow> if a = slash \<and> c = CHR '':'' \<and> is_ascii_alphabetic d then tl s else s
      | _ \<Rightarrow> s)"

definition uri_to_rel :: "(string \<Rightarrow> string) \<Rightarrow> (string \<Rightarrow> string option) \<Rightarrow> string \<Rightarrow> string \<Rightarrow> rel_path option" where
  "uri_to_rel lossy canonical uri root =
     (let decoded = (case strip_prefix uri ''file://'' of
                       Some rest \<Rightarrow> percent_decode lossy rest | None \<Rightarrow> percent_decode lossy uri);
          path = drop_drive_slash decoded;
          or_self = (\<lambda>p. case canonical p of Some q \<Rightarrow> q | None \<Rightarrow> p);
          fast = (if is_absolute path then path_strip_prefix path root else None)
      in case fast of
           Some rel \<Rightarrow>
             if rel \<noteq> [] \<and> \<not> has_parent_dir rel then Some (rel_path_new rel)
             else (case path_strip_prefix (or_self path) (or_self root) of
                     Some rel \<Rightarrow> if has_parent_dir rel then None else Some (rel_path_new rel)
                   | None \<Rightarrow> None)
         | None \<Rightarrow>
             if is_absolute path
             then (case path_strip_prefix (or_self path) (or_self root) of
                     Some rel \<Rightarrow> if has_parent_dir rel then None else Some (rel_path_new rel)
                   | None \<Rightarrow> None)
             else Some (rel_path_new path))"

section \<open>Percent coding\<close>

lemma hex_upper_all:
  "\<forall>n\<in>set [0..<16]. hex_digit (hex_upper n) = Some n \<and> hex_upper n \<noteq> CHR ''+''"
  by code_simp

lemma hex_upper: "n < 16 \<Longrightarrow> hex_digit (hex_upper n) = Some n" "n < 16 \<Longrightarrow> hex_upper n \<noteq> CHR ''+''"
  using hex_upper_all by auto

lemma percent_not_plain: "\<not> uri_plain (CHR ''%'')"
  by code_simp

lemma decode_plain: "c \<noteq> CHR ''%'' \<Longrightarrow> percent_decode_bytes (c # s) = c # percent_decode_bytes s"
  by (cases s; cases "tl s") auto

lemma decode_escape:
  "percent_decode_bytes (CHR ''%'' # hex_upper (of_char b div 16) # hex_upper (of_char b mod 16) # s)
     = b # percent_decode_bytes s"
proof -
  have "of_char b < 16 * (16 :: nat)" using nat_of_char_less_256 [of b] by simp
  then have d: "of_char b div 16 < (16 :: nat)" "of_char b mod 16 < (16 :: nat)"
    by (auto intro: less_mult_imp_div_less)
  then have "hex_byte (hex_upper (of_char b div 16)) (hex_upper (of_char b mod 16)) = Some b"
    by (simp add: hex_byte_def hex_upper)
  then show ?thesis by simp
qed

lemma percent_roundtrip: "percent_decode_bytes (percent_encode s) = s"
proof (induction s)
  case (Cons b s)
  have "percent_encode (b # s) = (if uri_plain b then [b]
      else [CHR ''%'', hex_upper (of_char b div 16), hex_upper (of_char b mod 16)]) @ percent_encode s"
    by (simp add: percent_encode_def)
  moreover have "uri_plain b \<Longrightarrow> b \<noteq> CHR ''%''" using percent_not_plain by auto
  ultimately show ?case
    using Cons.IH decode_plain [of b "percent_encode s"] decode_escape [of b "percent_encode s"]
    by (simp del: percent_decode_bytes.simps)
qed (simp add: percent_encode_def)

lemma percent_encode_inj: "percent_encode s = percent_encode t \<Longrightarrow> s = t"
  by (metis percent_roundtrip)

section \<open>Stripping what was joined\<close>

text \<open>Repository paths the file system spells the same way: no empty, \<open>.\<close> or \<open>..\<close> where they would
  be normalised away.\<close>

definition rel_plain :: "string \<Rightarrow> bool" where
  "rel_plain r \<longleftrightarrow>
     backslash \<notin> set r \<and> \<not> trivial_seg (hd (split_on slash r)) \<and> \<not> trivial_seg (last (split_on slash r))
     \<and> ''..'' \<notin> set (split_on slash r)"

lemma split_on_slash_append: "split_on slash (s @ slash # t) = split_on slash s @ split_on slash t"
  unfolding split_on_def by (rule split_by_append_sep) simp

lemma split_on_not_Nil [simp]: "split_on c s \<noteq> []"
  by (simp add: split_on_def)

lemma tl_split_append: "tl (split_on c s @ ws) = tl (split_on c s) @ ws"
  by simp

lemma after_segs_skip: "after_segs (length (seg_comps ws)) (ws @ vs) = dropWhile trivial_seg vs"
proof (induction ws)
  case (Cons w ws)
  show ?case
  proof (cases "trivial_seg w")
    case True
    then have "after_segs n (w # xs) = after_segs n xs" for n xs by (cases n) simp_all
    then show ?thesis using Cons.IH True by (simp add: seg_comps_def)
  next
    case False
    then show ?thesis using Cons.IH by (simp add: seg_comps_def)
  qed
qed (simp add: seg_comps_def)

lemma seg_comps_append: "seg_comps (ws @ vs) = seg_comps ws @ seg_comps vs"
  by (simp add: seg_comps_def)

lemma raw_join_plain:
  assumes "rel_plain r"
  shows "raw_join (dropWhile trivial_seg (split_on slash r)) = r"
proof -
  let ?ws = "split_on slash r"
  have "dropWhile trivial_seg ?ws = ?ws"
    using assms by (simp add: dropWhile_eq_self_iff [THEN iffD2] rel_plain_def)
  moreover have "dropWhile trivial_seg (rev ?ws) = rev ?ws"
    using assms by (simp add: dropWhile_eq_self_iff [THEN iffD2] rel_plain_def hd_rev)
  ultimately show ?thesis by (simp add: raw_join_def)
qed

lemma hd_split_on: "hd (split_on c (a # s)) = (if a = c then [] else a # hd (split_on c s))"
  by (cases "split_by (\<lambda>x. x = c) s") (auto simp: split_on_def)

lemma rel_plain_not_absolute: "rel_plain r \<Longrightarrow> \<not> is_absolute r"
  by (cases r) (auto simp: rel_plain_def is_absolute_def trivial_seg_def hd_split_on)

lemma rel_plain_new:
  assumes "rel_plain r"
  shows "rel_path_new r = RelPath r"
proof (rule rel_path_new_id)
  have "\<not> starts_with r ''./''"
    using assms by (auto simp: rel_plain_def starts_with_iff hd_split_on trivial_seg_def)
  then show "is_normal_rel r"
    using assms rel_plain_not_absolute [OF assms] by (simp add: is_normal_rel_def rel_plain_def is_absolute_def)
qed

lemma rel_plain_no_parent: "rel_plain r \<Longrightarrow> \<not> has_parent_dir r"
  using rel_plain_not_absolute [of r]
  by (auto simp: has_parent_dir_def path_components_def Let_def rel_plain_def trivial_seg_def seg_comps_def
    seg_comp_def split: if_splits)

text \<open>The segments of a root, without the empty one after a trailing slash.\<close>

lemma path_join_segs:
  assumes "is_absolute root" and "\<not> is_absolute r"
  shows "\<exists>ws. tl (split_on slash (path_join root r)) = ws @ split_on slash r
    \<and> seg_comps (tl (split_on slash root)) = seg_comps ws \<and> is_absolute (path_join root r)"
proof (cases "last root = slash")
  case True
  have "root \<noteq> []" using assms(1) by (auto simp: is_absolute_def)
  then obtain base where root: "root = base @ [slash]" using True by (metis append_butlast_last_id)
  have "path_join root r = base @ slash # r" using assms(2) root by (simp add: path_join_def)
  then have "tl (split_on slash (path_join root r)) = tl (split_on slash base) @ split_on slash r"
    by (simp add: split_on_slash_append)
  moreover have "split_on slash root = split_on slash base @ [[]]"
    using split_on_slash_append [of base "[]"] root by (simp add: split_on_def)
  then have "seg_comps (tl (split_on slash root)) = seg_comps (tl (split_on slash base))"
    by (simp add: seg_comps_def trivial_seg_def)
  moreover have "is_absolute (path_join root r)"
    using assms root by (simp add: path_join_def is_absolute_def starts_with_iff) 
      (metis append_Cons append_eq_append_conv2 append_Nil list.inject append_eq_Cons_conv)
  ultimately show ?thesis by blast
next
  case False
  have "root \<noteq> []" using assms(1) by (auto simp: is_absolute_def)
  then have "path_join root r = root @ slash # r" using False assms(2) by (simp add: path_join_def)
  then show ?thesis
    using assms(1) by (intro exI [of _ "tl (split_on slash root)"])
      (auto simp: split_on_slash_append is_absolute_def starts_with_iff)
qed

lemma strip_joined:
  assumes "is_absolute root" and "rel_plain r"
  shows "path_strip_prefix (path_join root r) root = Some r"
proof -
  obtain ws where ws: "tl (split_on slash (path_join root r)) = ws @ split_on slash r"
    "seg_comps (tl (split_on slash root)) = seg_comps ws" "is_absolute (path_join root r)"
    using path_join_segs [OF assms(1) rel_plain_not_absolute [OF assms(2)]] by blast
  have root: "path_components root = RootDir # seg_comps ws"
    using assms(1) ws(2) by (simp add: path_components_def)
  have "path_components (path_join root r) = (RootDir # seg_comps ws) @ seg_comps (split_on slash r)"
    using ws by (simp add: path_components_def seg_comps_append)
  then have "path_starts_with (path_join root r) root"
    unfolding path_starts_with_def root by simp
  moreover have "path_rest (Suc (length (seg_comps ws))) (path_join root r) = r"
    using ws raw_join_plain [OF assms(2)] by (simp add: path_rest_def after_segs_skip)
  ultimately show ?thesis by (simp add: path_strip_prefix_def root)
qed

section \<open>Properties\<close>

text \<open>The URIs of the files of one root differ when the files do.\<close>

lemma file_uri_inj:
  assumes "is_absolute root" "rel_plain p" "rel_plain q" "backslash \<notin> set root"
    and "path_to_file_uri cwd (path_join root p) = path_to_file_uri cwd (path_join root q)"
  shows "p = q"
proof -
  have abs: "is_absolute (path_join root p)" "is_absolute (path_join root q)"
    using path_join_segs [OF assms(1)] rel_plain_not_absolute assms(2,3) by blast+
  have plain: "backslash \<notin> set (path_join root p)" "backslash \<notin> set (path_join root q)"
    using assms(2-4) by (auto simp: path_join_def rel_plain_def)
  have "path_join root p = path_join root q"
    using assms(5) abs plain by (simp add: path_to_file_uri_def slashify_id) (rule percent_encode_inj)
  then show ?thesis using strip_joined [OF assms(1,2)] strip_joined [OF assms(1,3)] by (metis option.inject)
qed

text \<open>On Unix a backslash is an ordinary character of a name; the key takes it for a separator.\<close>

lemma backslash_names_collide:
  "paths_eq_normalized (''/r/a'' @ [backslash] @ ''b'') ''/r/a/b''
   \<and> path_components (''/r/a'' @ [backslash] @ ''b'') \<noteq> path_components ''/r/a/b''"
  by code_simp

text \<open>A sibling whose name continues the root's is not under it, in either spelling of a Windows path.\<close>

lemma sibling_not_under:
  "\<not> is_under_normalized ''C:/proj'' ''c:/PROJectile/x'' \<and> is_under_normalized ''C:/proj'' ''c:/PROJ/x''"
  by code_simp



end
