(* ===== verification/Roots.thy ===== *)
theory Roots
  imports Paths "HOL-Library.AList"
begin

text \<open>
  Several roots in one server: the dispatcher of \<open>astrolabe-mcp/src/roots.rs\<close> (routing of a hint to a
  root, residency in order of last use, eviction) and the sessions that \<open>session.rs\<close> keeps for the
  roots, with the interleavings of the calls and of the idle ticker.  Paths are as in \<open>Paths\<close>; \<open>lossy\<close>
  is \<open>String::from_utf8_lossy\<close> and \<open>U\<close> holds the Unicode tables.  Times are nanoseconds.
\<close>

section \<open>The dispatcher\<close>

record dispatcher =
  dp_children :: "string list"
  dp_resident :: "string list"
  dp_last_used :: "nat list"
  dp_idle :: nat
  dp_cap :: nat

definition default_idle_secs :: nat where "default_idle_secs = 300"
definition default_resident_roots :: nat where "default_resident_roots = 3"

definition dispatcher_new :: "string list \<Rightarrow> nat \<Rightarrow> nat \<Rightarrow> dispatcher" where
  "dispatcher_new children idle cap =
     \<lparr>dp_children = children, dp_resident = [], dp_last_used = [], dp_idle = idle, dp_cap = cap\<rparr>"

definition to_str :: "string \<Rightarrow> string option" where
  "to_str s = (if utf8_valid s then Some s else None)"

definition child_name :: "string \<Rightarrow> string option" where
  "child_name c = (case path_file_name c of Some w \<Rightarrow> to_str w | None \<Rightarrow> None)"

subsection \<open>Routing\<close>

definition is_path_token_char :: "unicode \<Rightarrow> string \<Rightarrow> bool" where
  "is_path_token_char U c \<longleftrightarrow> char_alnum U c \<or> c \<in> {''_'', ''-'', ''.'', ''+'', ''~''}"

definition is_path_separator :: "string \<Rightarrow> bool" where
  "is_path_separator c \<longleftrightarrow> c = ''/'' \<or> c = [backslash]"

definition child_is_path_prefix :: "unicode \<Rightarrow> (string \<Rightarrow> string) \<Rightarrow> string \<Rightarrow> string \<Rightarrow> bool" where
  "child_is_path_prefix U lossy child hint =
     (if child = [] then False
      else if path_starts_with hint child then True
      else (let c = lossy child
            in list_ex (\<lambda>pos.
                 let before_ok = (pos = 0 \<or>
                       (let cs = utf8_chars (take pos hint)
                        in cs \<noteq> [] \<and> \<not> is_path_token_char U (last cs)));
                     after_pos = pos + length c;
                     after_ok = (after_pos = length hint \<or>
                       (let cs = utf8_chars (drop after_pos hint)
                        in cs \<noteq> [] \<and> (is_path_separator (hd cs) \<or> \<not> is_path_token_char U (hd cs))))
                 in before_ok \<and> after_ok) (match_indices hint c 0)))"

definition generic_dir_names :: "string list" where
  "generic_dir_names =
     [''api'', ''web'', ''app'', ''apps'', ''core'', ''docs'', ''doc'', ''server'', ''client'', ''lib'', ''libs'',
      ''src'', ''test'', ''tests'', ''common'', ''utils'', ''util'', ''shared'', ''ui'', ''cli'', ''tools'', ''tool'',
      ''build'', ''data'', ''main'', ''base'', ''service'', ''services'', ''backend'', ''frontend'', ''site'',
      ''admin'', ''sdk'', ''examples'', ''example'', ''scripts'', ''infra'', ''config'', ''model'', ''models'']"

definition is_generic_dir_name :: "unicode \<Rightarrow> string \<Rightarrow> bool" where
  "is_generic_dir_name U name \<longleftrightarrow> List.member generic_dir_names (to_lowercase U name)"

definition mentions_as_token :: "string \<Rightarrow> string \<Rightarrow> bool" where
  "mentions_as_token hint name \<longleftrightarrow>
     contains_sub hint (name @ ''/'') \<or> contains_sub hint ([CHR 0x60] @ name @ [CHR 0x60])
     \<or> contains_sub hint (''./'' @ name)"

definition is_word_char :: "unicode \<Rightarrow> string \<Rightarrow> bool" where
  "is_word_char U c \<longleftrightarrow> char_alnum U c \<or> c = ''_'' \<or> c = ''-''"

definition contains_word :: "unicode \<Rightarrow> string \<Rightarrow> string \<Rightarrow> bool" where
  "contains_word U haystack word =
     (if word = [] then False
      else (let hay = utf8_chars (to_lowercase U haystack);
                needle = utf8_chars (to_lowercase U word);
                n = length needle
            in if length hay < n then False
               else list_ex (\<lambda>i. take n (drop i hay) = needle
                      \<and> (i = 0 \<or> \<not> is_word_char U (hay ! (i - 1)))
                      \<and> (i + n = length hay \<or> \<not> is_word_char U (hay ! (i + n))))
                    [0..<Suc (length hay - n)]))"

definition child_name_matches :: "unicode \<Rightarrow> string \<Rightarrow> string \<Rightarrow> bool" where
  "child_name_matches U child hint =
     (case child_name child of
        None \<Rightarrow> False
      | Some name \<Rightarrow> if is_generic_dir_name U name then mentions_as_token hint name else contains_word U hint name)"

definition pick_unique_or_nested :: "string list \<Rightarrow> string option" where
  "pick_unique_or_nested hits =
     (case hits of
        [] \<Rightarrow> None
      | [h] \<Rightarrow> Some h
      | _ \<Rightarrow>
          (let srt = sort_key (\<lambda>p. length (path_components p)) hits
           in if successively (\<lambda>a b. path_starts_with b a) srt then Some (last srt) else None))"

definition sole_hit :: "string list \<Rightarrow> string option" where
  "sole_hit hits = (case hits of [h] \<Rightarrow> Some h | _ \<Rightarrow> None)"

definition route :: "unicode \<Rightarrow> (string \<Rightarrow> string) \<Rightarrow> dispatcher \<Rightarrow> string \<Rightarrow> string option" where
  "route U lossy D raw =
     (let hint = trim raw
      in if hint = [] \<or> dp_children D = [] then None
         else (let prefix_hits = filter (\<lambda>c. child_is_path_prefix U lossy c hint) (dp_children D)
               in if prefix_hits \<noteq> [] then pick_unique_or_nested prefix_hits
                  else sole_hit (filter (\<lambda>c. child_name_matches U c hint) (dp_children D))))"

definition split_once_slash :: "string \<Rightarrow> string \<times> string" where
  "split_once_slash s =
     (if slash \<in> set s then (takeWhile (\<lambda>c. c \<noteq> slash) s, tl (dropWhile (\<lambda>c. c \<noteq> slash) s)) else (s, []))"

text \<open>\<open>str::trim_start_matches("./")\<close>.\<close>

fun trim_dot_slash :: "string \<Rightarrow> string" where
  "trim_dot_slash (a # b # s) = (if a = CHR ''.'' \<and> b = slash then trim_dot_slash s else a # b # s)"
| "trim_dot_slash s = s"

definition route_path :: "(string \<Rightarrow> string) \<Rightarrow> dispatcher \<Rightarrow> string \<Rightarrow> (string \<times> string) option" where
  "route_path lossy D raw =
     (let path = trim raw
      in if path = [] then None
         else if is_absolute path
         then (case pick_unique_or_nested (filter (\<lambda>c. path_starts_with path c) (dp_children D)) of
                 None \<Rightarrow> None
               | Some child \<Rightarrow>
                   (case path_strip_prefix path child of
                      None \<Rightarrow> None
                    | Some rel \<Rightarrow> Some (child, slashify (lossy rel))))
         else (let (fst_seg, rest) = split_once_slash (trim_dot_slash (slashify path))
               in case filter (\<lambda>c. child_name c = Some fst_seg) (dp_children D) of
                    [c] \<Rightarrow> Some (c, rest)
                  | _ \<Rightarrow> None))"

definition trim_slashes :: "string \<Rightarrow> string" where
  "trim_slashes s =
     (let f = (\<lambda>c. c = slash \<or> c = backslash) in rev (dropWhile f (rev (dropWhile f s))))"

definition route_explicit :: "unicode \<Rightarrow> (string \<Rightarrow> string) \<Rightarrow> dispatcher \<Rightarrow> string \<Rightarrow> string option" where
  "route_explicit U lossy D raw =
     (let root = trim raw
      in if root = [] then None
         else case route_path lossy D root of
           Some (child, _) \<Rightarrow> Some child
         | None \<Rightarrow>
             (let name = trim_slashes root;
                  exact = filter (\<lambda>c. child_name c = Some name) (dp_children D)
              in case sole_hit exact of
                   Some c \<Rightarrow> Some c
                 | None \<Rightarrow>
                     (let lower = to_lowercase U name
                      in sole_hit (filter (\<lambda>c. map_option (to_lowercase U) (child_name c) = Some lower)
                           (dp_children D)))))"

definition sole_resident :: "dispatcher \<Rightarrow> string option" where
  "sole_resident D = sole_hit (dp_resident D)"

subsection \<open>Residency\<close>

text \<open>The loop that evicts from the front while there are too many.\<close>

fun evict_excess :: "nat \<Rightarrow> string list \<Rightarrow> nat list \<Rightarrow> string list \<times> string list \<times> nat list" where
  "evict_excess cap [] used = ([], [], used)"
| "evict_excess cap (p # ps) used =
     (if cap < length (p # ps)
      then (case evict_excess cap ps (tl used) of (evicted, ps', used') \<Rightarrow> (p # evicted, ps', used'))
      else ([], p # ps, used))"

fun remove_at :: "nat \<Rightarrow> 'a list \<Rightarrow> 'a list" where
  "remove_at _ [] = []"
| "remove_at 0 (x # xs) = xs"
| "remove_at (Suc n) (x # xs) = x # remove_at n xs"

fun position :: "('a \<Rightarrow> bool) \<Rightarrow> 'a list \<Rightarrow> nat option" where
  "position P [] = None"
| "position P (x # xs) = (if P x then Some 0 else map_option Suc (position P xs))"

definition activate :: "string \<Rightarrow> nat \<Rightarrow> dispatcher \<Rightarrow> string list \<times> dispatcher" where
  "activate root now D =
     (let (path, children) =
            (case find (\<lambda>c. paths_eq_normalized c root) (dp_children D) of
               Some existing \<Rightarrow> (existing, dp_children D)
             | None \<Rightarrow> (root, dp_children D @ [root]));
          (res, used) =
            (case position (\<lambda>p. paths_eq_normalized p path) (dp_resident D) of
               Some i \<Rightarrow> (remove_at i (dp_resident D), remove_at i (dp_last_used D))
             | None \<Rightarrow> (dp_resident D, dp_last_used D));
          (evicted, res', used') = evict_excess (dp_cap D) (res @ [path]) (used @ [now])
      in (evicted, D\<lparr>dp_children := children, dp_resident := res', dp_last_used := used'\<rparr>))"

definition evict_idle :: "nat \<Rightarrow> dispatcher \<Rightarrow> string list \<times> dispatcher" where
  "evict_idle now D =
     (let rows = zip (dp_resident D) (dp_last_used D);
          gone = filter (\<lambda>(p, used). dp_idle D \<le> now - used) rows;
          keep = filter (\<lambda>(p, used). \<not> dp_idle D \<le> now - used) rows
      in (map fst gone, D\<lparr>dp_resident := map fst keep, dp_last_used := map snd keep\<rparr>))"

subsection \<open>Least recently used\<close>

definition last_n :: "nat \<Rightarrow> 'a list \<Rightarrow> 'a list" where
  "last_n n xs = drop (length xs - n) xs"

abbreviation keys_of :: "string list \<Rightarrow> string list" where
  "keys_of \<equiv> map path_norm_key"

definition dispatcher_ok :: "dispatcher \<Rightarrow> bool" where
  "dispatcher_ok D \<longleftrightarrow>
     length (dp_last_used D) = length (dp_resident D) \<and> distinct (keys_of (dp_resident D))
     \<and> length (dp_resident D) \<le> dp_cap D"

lemma evict_excess_eq:
  "length used = length ps \<Longrightarrow>
   evict_excess cap ps used = (take (length ps - cap) ps, last_n cap ps, last_n cap used)"
proof (induction cap ps used rule: evict_excess.induct)
  case (2 cap p ps used)
  then obtain u us where "used = u # us" "length us = length ps" by (cases used) auto
  with 2 show ?case by (auto simp: last_n_def Suc_diff_le not_less)
qed (simp add: last_n_def)

lemma length_last_n [simp]: "length (last_n n xs) = min n (length xs)"
  by (simp add: last_n_def)

lemma map_last_n: "map f (last_n n xs) = last_n n (map f xs)"
  by (simp add: last_n_def drop_map)

lemma last_n_append: "last_n n (xs @ ys) = last_n (n - length ys) xs @ last_n n ys"
  by (cases "length ys \<le> n") (simp_all add: last_n_def)

lemma position_Some: "position P xs = Some i \<Longrightarrow> i < length xs \<and> P (xs ! i)"
  by (induction xs arbitrary: i) (auto split: if_splits)

lemma position_None: "position P xs = None \<longleftrightarrow> (\<forall>x\<in>set xs. \<not> P x)"
  by (induction xs) auto

lemma length_remove_at: "i < length xs \<Longrightarrow> length (remove_at i xs) = length xs - 1"
  by (induction i xs rule: remove_at.induct) auto

lemma remove_position:
  "distinct (map f xs) \<Longrightarrow> position (\<lambda>x. f x = k) xs = Some i \<Longrightarrow> remove_at i xs = filter (\<lambda>x. f x \<noteq> k) xs"
proof (induction xs arbitrary: i)
  case (Cons x xs)
  show ?case
  proof (cases "f x = k")
    case True
    then have "\<forall>y\<in>set xs. f y \<noteq> k" using Cons.prems(1) by (metis distinct.simps(2) imageI list.map(2) set_map)
    then show ?thesis using Cons.prems(2) True by (auto simp: filter_id_conv)
  next
    case False
    then show ?thesis using Cons by (auto split: if_splits)
  qed
qed simp

text \<open>The path a call of \<open>activate\<close> makes resident, and the effect in one equation.\<close>

definition activated_path :: "string \<Rightarrow> dispatcher \<Rightarrow> string" where
  "activated_path root D =
     (case find (\<lambda>c. paths_eq_normalized c root) (dp_children D) of Some c \<Rightarrow> c | None \<Rightarrow> root)"

lemma activated_key [simp]: "path_norm_key (activated_path root D) = path_norm_key root"
  by (auto simp: activated_path_def paths_eq_normalized_def find_Some_iff split: option.splits)

lemma activate_resident:
  assumes "dispatcher_ok D"
  shows "let others = filter (\<lambda>p. path_norm_key p \<noteq> path_norm_key root) (dp_resident D);
             all = others @ [activated_path root D]
         in fst (activate root now D) = take (length all - dp_cap D) all
           \<and> dp_resident (snd (activate root now D)) = last_n (dp_cap D) all
           \<and> length (dp_last_used (snd (activate root now D))) = length (last_n (dp_cap D) all)
           \<and> dp_cap (snd (activate root now D)) = dp_cap D"
proof -
  let ?P = "\<lambda>p. paths_eq_normalized p (activated_path root D)"
  let ?others = "filter (\<lambda>p. path_norm_key p \<noteq> path_norm_key root) (dp_resident D)"
  have len: "length (dp_last_used D) = length (dp_resident D)" and dist: "distinct (keys_of (dp_resident D))"
    using assms by (simp_all add: dispatcher_ok_def)
  have P: "?P = (\<lambda>p. path_norm_key p = path_norm_key root)"
    by (auto simp: paths_eq_normalized_def)
  obtain res used where ru: "(case position ?P (dp_resident D) of
      Some i \<Rightarrow> (remove_at i (dp_resident D), remove_at i (dp_last_used D))
    | None \<Rightarrow> (dp_resident D, dp_last_used D)) = (res, used)" by fastforce
  have res: "res = ?others \<and> length used = length res"
  proof (cases "position ?P (dp_resident D)")
    case None
    then have "?others = dp_resident D" unfolding P position_None by (simp add: filter_id_conv)
    then show ?thesis using ru None len by simp
  next
    case (Some i)
    have "remove_at i (dp_resident D) = ?others"
      using remove_position [OF dist] Some unfolding P by blast
    moreover have "i < length (dp_resident D)" using position_Some [OF Some] by simp
    then have "length (remove_at i (dp_last_used D)) = length (remove_at i (dp_resident D))"
      using len by (simp add: length_remove_at)
    ultimately show ?thesis using ru Some by simp
  qed
  obtain children where ch: "(case find (\<lambda>c. paths_eq_normalized c root) (dp_children D) of
      Some existing \<Rightarrow> (existing, dp_children D) | None \<Rightarrow> (root, dp_children D @ [root]))
    = (activated_path root D, children)"
    by (cases "find (\<lambda>c. paths_eq_normalized c root) (dp_children D)") (auto simp: activated_path_def)
  have "activate root now D =
    (case evict_excess (dp_cap D) (res @ [activated_path root D]) (used @ [now]) of
       (evicted, res', used') \<Rightarrow> (evicted, D\<lparr>dp_children := children, dp_resident := res', dp_last_used := used'\<rparr>))"
    unfolding activate_def ch Let_def prod.case ru ..
  then show ?thesis
    using res by (simp add: evict_excess_eq Let_def)
qed

lemma distinct_last_n: "distinct xs \<Longrightarrow> distinct (last_n n xs)"
  by (simp add: last_n_def)

lemma activate_ok:
  assumes "dispatcher_ok D"
  shows "dispatcher_ok (snd (activate root now D))"
proof -
  have "distinct (keys_of (filter (\<lambda>p. path_norm_key p \<noteq> path_norm_key root) (dp_resident D) @ [activated_path root D]))"
    using assms distinct_map_filter [of path_norm_key "dp_resident D"] by (auto simp: dispatcher_ok_def)
  then show ?thesis
    using activate_resident [OF assms, of root now]
    by (simp add: dispatcher_ok_def Let_def map_last_n distinct_last_n del: map_append)
qed

lemma evict_idle_ok: "dispatcher_ok D \<Longrightarrow> dispatcher_ok (snd (evict_idle now D))"
proof -
  assume ok: "dispatcher_ok D"
  let ?rows = "zip (dp_resident D) (dp_last_used D)"
  let ?keep = "filter (\<lambda>(p, used). \<not> dp_idle D \<le> now - used) ?rows"
  have "distinct (map path_norm_key (map fst ?rows))"
    using ok by (simp add: dispatcher_ok_def)
  then have "distinct (map (path_norm_key \<circ> fst) ?rows)" by simp
  then have "distinct (map (path_norm_key \<circ> fst) ?keep)"
    by (rule distinct_map_filter)
  moreover have "length ?keep \<le> length ?rows" by (rule length_filter_le)
  then have "length ?keep \<le> dp_cap D" using ok by (simp add: dispatcher_ok_def)
  ultimately show ?thesis by (simp add: dispatcher_ok_def evict_idle_def Let_def)
qed

fun activate_all :: "(string \<times> nat) list \<Rightarrow> dispatcher \<Rightarrow> dispatcher" where
  "activate_all [] D = D"
| "activate_all ((root, now) # calls) D = activate_all calls (snd (activate root now D))"

lemma activate_all_snoc:
  "activate_all (calls @ [(root, now)]) D = snd (activate root now (activate_all calls D))"
  by (induction calls arbitrary: D) auto

lemma remdups_snoc: "remdups (xs @ [x]) = filter (\<lambda>y. y \<noteq> x) (remdups xs) @ [x]"
  by (induction xs) auto

lemma filter_absent: "x \<notin> set xs \<Longrightarrow> filter (\<lambda>y. y \<noteq> x) xs = xs"
  by (induction xs) auto

lemma last_n_filter:
  assumes "distinct xs"
  shows "last_n n (filter (\<lambda>y. y \<noteq> x) (last_n (Suc n) xs)) = last_n n (filter (\<lambda>y. y \<noteq> x) xs)"
proof (cases "length xs \<le> Suc n")
  case True
  then show ?thesis by (simp add: last_n_def)
next
  case False
  define us ws where "us = take (length xs - Suc n) xs" and "ws = last_n (Suc n) xs"
  have xs: "xs = us @ ws" by (simp add: us_def ws_def last_n_def)
  have ws: "length ws = Suc n" using False by (simp add: ws_def)
  have "n \<le> length (filter (\<lambda>y. y \<noteq> x) ws)"
  proof (cases "x \<in> set ws")
    case True
    then obtain a b where ab: "ws = a @ x # b" by (meson split_list)
    then have "x \<notin> set a" "x \<notin> set b" using assms xs by auto
    then have "filter (\<lambda>y. y \<noteq> x) ws = a @ b"
      unfolding ab by (simp add: filter_absent)
    then show ?thesis using ws ab by simp
  next
    case False
    then have "filter (\<lambda>y. y \<noteq> x) ws = ws" by (auto simp: filter_id_conv)
    then show ?thesis using ws by simp
  qed
  then show ?thesis
    unfolding ws_def [symmetric] by (subst xs) (simp add: last_n_append last_n_def [of 0])
qed

lemma resident_is_recent:
  "dispatcher_ok (activate_all calls (dispatcher_new children idle cap)) \<and>
   dp_cap (activate_all calls (dispatcher_new children idle cap)) = cap \<and>
   keys_of (dp_resident (activate_all calls (dispatcher_new children idle cap)))
     = last_n cap (remdups (keys_of (map fst calls)))"
proof (induction calls rule: rev_induct)
  case Nil
  then show ?case by (simp add: dispatcher_ok_def dispatcher_new_def last_n_def)
next
  case (snoc call calls)
  obtain root now where c: "call = (root, now)" by fastforce
  let ?D = "activate_all calls (dispatcher_new children idle cap)"
  let ?ks = "remdups (keys_of (map fst calls))" and ?k = "path_norm_key root"
  let ?others = "filter (\<lambda>p. path_norm_key p \<noteq> ?k) (dp_resident ?D)"
  have ok: "dispatcher_ok ?D" and cap: "dp_cap ?D = cap"
    and keys: "keys_of (dp_resident ?D) = last_n cap ?ks" using snoc.IH by simp_all
  have res: "dp_resident (snd (activate root now ?D)) = last_n cap (?others @ [activated_path root ?D])"
    and cap': "dp_cap (snd (activate root now ?D)) = cap"
    using activate_resident [OF ok, of root now] cap by (simp_all add: Let_def)
  have "keys_of ?others = filter (\<lambda>k. k \<noteq> ?k) (last_n cap ?ks)"
    using keys [symmetric] by (simp add: filter_map comp_def)
  then have "keys_of (dp_resident (snd (activate root now ?D)))
    = last_n cap (filter (\<lambda>k. k \<noteq> ?k) (last_n cap ?ks) @ [?k])"
    by (simp add: res map_last_n)
  also have "\<dots> = last_n cap (filter (\<lambda>k. k \<noteq> ?k) ?ks @ [?k])"
  proof (cases cap)
    case 0
    then show ?thesis by (simp add: last_n_def)
  next
    case (Suc n)
    then show ?thesis using last_n_filter [of ?ks n ?k] by (simp add: last_n_append)
  qed
  finally show ?case
    using activate_ok [OF ok, of root now] cap' by (simp add: c activate_all_snoc remdups_snoc)
qed

section \<open>Sessions\<close>

text \<open>A session is its number.  Work left to a thread after it released the dispatcher's lock: the
  teardowns of the evicted roots, then the session of its own root.\<close>

datatype task = Teardown string | Ensure string

record hub =
  hb_disp :: dispatcher
  hb_sessions :: "(string \<times> nat) list"
  hb_next :: nat
  hb_closed :: "nat set"
  hb_tasks :: "nat \<Rightarrow> task list"
  hb_given :: "(nat \<times> string \<times> nat) list"

definition hub_new :: "string list \<Rightarrow> nat \<Rightarrow> nat \<Rightarrow> hub" where
  "hub_new children idle cap =
     \<lparr>hb_disp = dispatcher_new children idle cap, hb_sessions = [], hb_next = 0, hb_closed = {},
      hb_tasks = (\<lambda>_. []), hb_given = []\<rparr>"

definition session_at :: "string \<Rightarrow> hub \<Rightarrow> (string \<times> nat) option" where
  "session_at root H = find (\<lambda>(k, _). paths_eq_normalized k root) (hb_sessions H)"

definition ensure_session :: "(string \<Rightarrow> string) \<Rightarrow> string \<Rightarrow> hub \<Rightarrow> nat \<times> hub" where
  "ensure_session canon root H =
     (case session_at root H of
        Some (_, existing) \<Rightarrow> (existing, H)
      | None \<Rightarrow>
          (hb_next H, H\<lparr>hb_sessions := AList.update (canon root) (hb_next H) (hb_sessions H), hb_next := Suc (hb_next H)\<rparr>))"

definition teardown_child :: "string \<Rightarrow> hub \<Rightarrow> hub" where
  "teardown_child root H =
     (case session_at root H of
        None \<Rightarrow> H
      | Some (k, session) \<Rightarrow>
          H\<lparr>hb_sessions := AList.delete k (hb_sessions H), hb_closed := insert session (hb_closed H)\<rparr>)"

text \<open>What a thread does in one hold of a lock: activate a root (\<open>activate_absolute_root\<close>, and
  \<open>route_session\<close> with the root it routed to), a turn of the idle ticker, or the next task.\<close>

datatype hub_event = Call nat string nat | Tick nat nat | Work nat

definition hub_do :: "(string \<Rightarrow> string) \<Rightarrow> hub_event \<Rightarrow> hub \<Rightarrow> hub" where
  "hub_do canon ev H =
     (case ev of
        Call t root now \<Rightarrow>
          if hb_tasks H t \<noteq> [] then H
          else (let (evicted, D) = activate root now (hb_disp H)
                in H\<lparr>hb_disp := D, hb_tasks := (hb_tasks H)(t := map Teardown evicted @ [Ensure root])\<rparr>)
      | Tick t now \<Rightarrow>
          if hb_tasks H t \<noteq> [] then H
          else (let (evicted, D) = evict_idle now (hb_disp H)
                in H\<lparr>hb_disp := D, hb_tasks := (hb_tasks H)(t := map Teardown evicted)\<rparr>)
      | Work t \<Rightarrow>
          (case hb_tasks H t of
             [] \<Rightarrow> H
           | task # rest \<Rightarrow>
               (let H' = H\<lparr>hb_tasks := (hb_tasks H)(t := rest)\<rparr>
                in case task of
                     Teardown root \<Rightarrow> teardown_child root H'
                   | Ensure root \<Rightarrow>
                       (let (s, H'') = ensure_session canon root H'
                        in H''\<lparr>hb_given := (t, root, s) # hb_given H''\<rparr>))))"

fun hub_run :: "(string \<Rightarrow> string) \<Rightarrow> hub_event list \<Rightarrow> hub \<Rightarrow> hub" where
  "hub_run canon [] H = H"
| "hub_run canon (ev # evs) H = hub_run canon evs (hub_do canon ev H)"

text \<open>A whole call, or a whole turn of the ticker, that no other thread interrupts.\<close>

definition call_root :: "(string \<Rightarrow> string) \<Rightarrow> string \<Rightarrow> nat \<Rightarrow> hub \<Rightarrow> nat \<times> hub" where
  "call_root canon root now H =
     (let (evicted, D) = activate root now (hb_disp H)
      in ensure_session canon root (fold teardown_child evicted (H\<lparr>hb_disp := D\<rparr>)))"

definition tick_idle :: "nat \<Rightarrow> hub \<Rightarrow> hub" where
  "tick_idle now H =
     (let (evicted, D) = evict_idle now (hb_disp H) in fold teardown_child evicted (H\<lparr>hb_disp := D\<rparr>))"

definition teardown_all :: "hub \<Rightarrow> hub" where
  "teardown_all H = H\<lparr>hb_sessions := [], hb_closed := hb_closed H \<union> snd ` set (hb_sessions H)\<rparr>"

abbreviation session_keys :: "hub \<Rightarrow> string list" where
  "session_keys H \<equiv> keys_of (map fst (hb_sessions H))"

text \<open>At most one session per key, none closed, each with its own number.\<close>

definition sessions_ok :: "hub \<Rightarrow> bool" where
  "sessions_ok H \<longleftrightarrow>
     distinct (session_keys H) \<and> distinct (map snd (hb_sessions H))
     \<and> (\<forall>s\<in>snd ` set (hb_sessions H). s < hb_next H \<and> s \<notin> hb_closed H)
     \<and> (\<forall>s\<in>hb_closed H. s < hb_next H)"

lemma find_SomeD: "find P xs = Some x \<Longrightarrow> x \<in> set xs \<and> P x"
  by (induction xs) (auto split: if_splits)

lemma session_at_Some:
  "session_at root H = Some (k, s) \<Longrightarrow> (k, s) \<in> set (hb_sessions H) \<and> path_norm_key k = path_norm_key root"
  by (auto simp: session_at_def paths_eq_normalized_def dest!: find_SomeD)

lemma session_at_None:
  "session_at root H = None \<longleftrightarrow> path_norm_key root \<notin> set (session_keys H)"
  by (force simp: session_at_def find_None_iff paths_eq_normalized_def)

lemma filter_other_key:
  "distinct (keys_of (map fst al)) \<Longrightarrow> (k, s) \<in> set al \<Longrightarrow>
   AList.delete k al = filter (\<lambda>(k', _). path_norm_key k' \<noteq> path_norm_key k) al"
proof (induction al)
  case (Cons x al)
  obtain k' s' where x: "x = (k', s')" by fastforce
  have d: "distinct (keys_of (map fst al))" "path_norm_key k' \<notin> set (keys_of (map fst al))"
    using Cons.prems(1) x by simp_all
  show ?case
  proof (cases "(k, s) = x")
    case True
    then have "\<forall>y\<in>set al. path_norm_key (fst y) \<noteq> path_norm_key k" using d(2) x by force
    then have "AList.delete k al = al" "filter (\<lambda>(k', _). path_norm_key k' \<noteq> path_norm_key k) al = al"
      by (auto simp: AList.delete_eq filter_id_conv)
    then show ?thesis using True x by (simp add: AList.delete_eq)
  next
    case False
    then have mem: "(k, s) \<in> set al" using Cons.prems(2) by simp
    then have "path_norm_key k \<in> set (keys_of (map fst al))" by force
    then have "path_norm_key k' \<noteq> path_norm_key k" using d(2) by metis
    then show ?thesis using Cons.IH [OF d(1) mem] x by (auto simp: AList.delete_eq)
  qed
qed simp

lemma teardown_sessions:
  assumes "distinct (session_keys H)"
  shows "hb_sessions (teardown_child root H) =
    filter (\<lambda>(k, _). path_norm_key k \<noteq> path_norm_key root) (hb_sessions H)"
proof (cases "session_at root H")
  case None
  then have "\<forall>x\<in>set (hb_sessions H). path_norm_key (fst x) \<noteq> path_norm_key root"
    unfolding session_at_None by force
  then have "filter (\<lambda>(k, _). path_norm_key k \<noteq> path_norm_key root) (hb_sessions H) = hb_sessions H"
    by (auto simp: filter_id_conv)
  then show ?thesis using None by (simp add: teardown_child_def)
next
  case (Some ks)
  obtain k s where ks: "ks = (k, s)" by fastforce
  with Some have k: "(k, s) \<in> set (hb_sessions H)" "path_norm_key k = path_norm_key root"
    using session_at_Some by blast+
  then show ?thesis
    using Some ks filter_other_key [OF assms k(1)] by (simp add: teardown_child_def)
qed

lemma session_keys_filter:
  "keys_of (map fst (filter (\<lambda>(k, _). Q (path_norm_key k)) al)) = filter Q (keys_of (map fst al))"
  by (induction al) auto

lemma teardown_keys:
  "distinct (session_keys H) \<Longrightarrow>
   session_keys (teardown_child root H) = filter (\<lambda>k. k \<noteq> path_norm_key root) (session_keys H)"
  using session_keys_filter [of "\<lambda>k. k \<noteq> path_norm_key root" "hb_sessions H"] by (simp add: teardown_sessions)

lemma teardown_fields [simp]:
  "hb_disp (teardown_child root H) = hb_disp H" "hb_next (teardown_child root H) = hb_next H"
  "hb_tasks (teardown_child root H) = hb_tasks H"
  by (simp_all add: teardown_child_def split: option.splits)

lemma distinct_map_filter_snd: "distinct (map snd al) \<Longrightarrow> distinct (map snd (filter Q al))"
  by (rule distinct_map_filter)

lemma teardown_ok:
  assumes "sessions_ok H"
  shows "sessions_ok (teardown_child root H)"
proof -
  have d: "distinct (session_keys H)" "distinct (map snd (hb_sessions H))"
    using assms by (simp_all add: sessions_ok_def)
  show ?thesis
  proof (cases "session_at root H")
    case None
    then show ?thesis using assms by (simp add: teardown_child_def)
  next
    case (Some ks)
    obtain k s where ks: "ks = (k, s)" by fastforce
    have k: "(k, s) \<in> set (hb_sessions H)" "path_norm_key k = path_norm_key root"
      using Some ks session_at_Some by blast+
    have "x \<notin> insert s (hb_closed H)" if x: "(k', x) \<in> set (hb_sessions H)" "path_norm_key k' \<noteq> path_norm_key root" for k' x
    proof -
      have "x \<noteq> s"
      proof
        assume "x = s"
        then have "(k', x) = (k, s)"
          using inj_onD [of snd "set (hb_sessions H)" "(k', x)" "(k, s)"] d(2) x(1) k(1) by (simp add: distinct_map)
        then show False using x(2) k(2) by simp
      qed
      then show ?thesis using assms x(1) by (force simp: sessions_ok_def)
    qed
    moreover have "hb_closed (teardown_child root H) = insert s (hb_closed H)"
      using Some ks by (simp add: teardown_child_def)
    moreover have "s < hb_next H" using assms k(1) by (force simp: sessions_ok_def)
    ultimately show ?thesis
      using assms distinct_map_filter_snd [OF d(2)] distinct_map_filter [of "path_norm_key \<circ> fst" "hb_sessions H"]
      unfolding sessions_ok_def teardown_keys [OF d(1)] teardown_sessions [OF d(1)] teardown_fields
      by auto
  qed
qed

lemma fold_teardown:
  "sessions_ok H \<Longrightarrow> sessions_ok (fold teardown_child roots H)
     \<and> session_keys (fold teardown_child roots H) = filter (\<lambda>k. k \<notin> set (keys_of roots)) (session_keys H)
     \<and> hb_disp (fold teardown_child roots H) = hb_disp H
     \<and> hb_tasks (fold teardown_child roots H) = hb_tasks H"
proof (induction roots arbitrary: H)
  case (Cons r roots)
  have ok: "sessions_ok (teardown_child r H)" by (rule teardown_ok [OF Cons.prems])
  have d: "distinct (session_keys H)" using Cons.prems by (simp add: sessions_ok_def)
  have "filter (\<lambda>k. k \<notin> set (keys_of roots)) (filter (\<lambda>k. k \<noteq> path_norm_key r) (session_keys H))
      = filter (\<lambda>k. k \<notin> set (keys_of (r # roots))) (session_keys H)"
    by (auto intro: filter_cong)
  then show ?case using Cons.IH [OF ok] teardown_keys [OF d, of r] by simp
qed simp

lemma update_new: "k \<notin> fst ` set al \<Longrightarrow> AList.update k v al = al @ [(k, v)]"
  by (induction al) auto

lemma ensure_ok:
  assumes "sessions_ok H" and "path_norm_key (canon root) = path_norm_key root"
    and "ensure_session canon root H = (s, H')"
  shows "sessions_ok H' \<and> set (session_keys H') = insert (path_norm_key root) (set (session_keys H))
    \<and> hb_disp H' = hb_disp H \<and> hb_tasks H' = hb_tasks H \<and> s \<in> snd ` set (hb_sessions H')"
proof (cases "session_at root H")
  case (Some ks)
  obtain k s' where ks: "ks = (k, s')" by fastforce
  have k: "(k, s') \<in> set (hb_sessions H)" "path_norm_key k = path_norm_key root"
    using Some ks session_at_Some by blast+
  then have "path_norm_key root \<in> set (session_keys H)" by force
  then show ?thesis
    using assms Some ks k(1) by (force simp: ensure_session_def)
next
  case None
  then have new: "path_norm_key root \<notin> set (session_keys H)" by (simp only: session_at_None not_False_eq_True)
  then have "canon root \<notin> fst ` set (hb_sessions H)" using assms(2) by force
  then have H': "s = hb_next H" "H' = H\<lparr>hb_sessions := hb_sessions H @ [(canon root, hb_next H)], hb_next := Suc (hb_next H)\<rparr>"
    using assms(3) None by (auto simp: ensure_session_def update_new)
  have "hb_next H \<notin> hb_closed H" "hb_next H \<notin> snd ` set (hb_sessions H)"
    using assms(1) unfolding sessions_ok_def by blast+
  then show ?thesis
    using assms(1,2) new unfolding H' sessions_ok_def by (auto simp: less_Suc_eq)
qed

section \<open>One call at a time\<close>

datatype seq_op = CallNow string nat | TickNow nat

definition seq_do :: "(string \<Rightarrow> string) \<Rightarrow> seq_op \<Rightarrow> hub \<Rightarrow> hub" where
  "seq_do canon op H =
     (case op of CallNow root now \<Rightarrow> snd (call_root canon root now H) | TickNow now \<Rightarrow> tick_idle now H)"

text \<open>The sessions are those of the resident roots.\<close>

definition hub_ok :: "hub \<Rightarrow> bool" where
  "hub_ok H \<longleftrightarrow>
     dispatcher_ok (hb_disp H) \<and> sessions_ok H
     \<and> set (session_keys H) = set (keys_of (dp_resident (hb_disp H)))"

lemma set_last_n_take: "set xs = set (take (length xs - n) xs) \<union> set (last_n n xs)"
  unfolding last_n_def by (metis append_take_drop_id set_append)

lemma activate_keys:
  assumes "dispatcher_ok D"
  shows "set (keys_of (fst (activate root now D))) \<inter> set (keys_of (dp_resident (snd (activate root now D)))) = {}"
    and "set (keys_of (fst (activate root now D))) \<union> set (keys_of (dp_resident (snd (activate root now D))))
      = insert (path_norm_key root) (set (keys_of (dp_resident D)))"
    and "0 < dp_cap D \<Longrightarrow> path_norm_key root \<in> set (keys_of (dp_resident (snd (activate root now D))))"
proof -
  let ?others = "filter (\<lambda>p. path_norm_key p \<noteq> path_norm_key root) (dp_resident D)"
  let ?all = "?others @ [activated_path root D]"
  have a: "fst (activate root now D) = take (length ?all - dp_cap D) ?all"
    "dp_resident (snd (activate root now D)) = last_n (dp_cap D) ?all"
    using activate_resident [OF assms, of root now] by (simp_all add: Let_def)
  have "distinct (keys_of ?all)"
    using assms distinct_map_filter [of path_norm_key "dp_resident D"] by (auto simp: dispatcher_ok_def)
  then have "distinct (keys_of (take (length ?all - dp_cap D) ?all) @ keys_of (last_n (dp_cap D) ?all))"
    unfolding map_append [symmetric] last_n_def append_take_drop_id .
  then show "set (keys_of (fst (activate root now D))) \<inter> set (keys_of (dp_resident (snd (activate root now D)))) = {}"
    unfolding a by (simp only: distinct_append)
  have "set (keys_of ?all) = insert (path_norm_key root) (set (keys_of (dp_resident D)))" by auto
  then show "set (keys_of (fst (activate root now D))) \<union> set (keys_of (dp_resident (snd (activate root now D))))
      = insert (path_norm_key root) (set (keys_of (dp_resident D)))"
    unfolding a using set_last_n_take [of "keys_of ?all" "dp_cap D"]
    by (simp only: take_map map_last_n length_map)
  show "path_norm_key root \<in> set (keys_of (dp_resident (snd (activate root now D))))" if "0 < dp_cap D"
    unfolding a using that by (simp add: last_n_append last_n_def [of "dp_cap D" "[_]"])
qed

lemma call_root_ok:
  assumes "hub_ok H" and "0 < dp_cap (hb_disp H)" and "path_norm_key (canon root) = path_norm_key root"
  shows "hub_ok (snd (call_root canon root now H)) \<and> dp_cap (hb_disp (snd (call_root canon root now H))) = dp_cap (hb_disp H)
    \<and> fst (call_root canon root now H) \<in> snd ` set (hb_sessions (snd (call_root canon root now H)))"
proof -
  obtain evicted D where act: "activate root now (hb_disp H) = (evicted, D)" by fastforce
  let ?H0 = "H\<lparr>hb_disp := D\<rparr>"
  let ?H1 = "fold teardown_child evicted ?H0"
  obtain s H2 where e: "ensure_session canon root ?H1 = (s, H2)" by fastforce
  have d: "dispatcher_ok (hb_disp H)" and s: "sessions_ok H"
    and keys: "set (session_keys H) = set (keys_of (dp_resident (hb_disp H)))"
    using assms(1) by (simp_all add: hub_ok_def)
  note ak = activate_keys [OF d, of root now, unfolded act fst_conv snd_conv]
  have "sessions_ok ?H0" using s by (simp add: sessions_ok_def)
  note f = fold_teardown [OF this, of evicted]
  note en = ensure_ok [where canon = canon and root = root, OF conjunct1 [OF f] assms(3) e]
  have "hb_disp ?H1 = D" using f by simp
  then have "sessions_ok H2 \<and> set (session_keys H2) = insert (path_norm_key root) (set (session_keys ?H1))
      \<and> hb_disp H2 = D \<and> s \<in> snd ` set (hb_sessions H2)"
    using en by metis
  moreover have "set (session_keys ?H1) = set (session_keys H) - set (keys_of evicted)"
    using f by auto
  then have "insert (path_norm_key root) (set (session_keys ?H1)) = set (keys_of (dp_resident D))"
    using ak assms(2) keys by blast
  ultimately have "sessions_ok H2" "set (session_keys H2) = set (keys_of (dp_resident D))" "hb_disp H2 = D"
    "s \<in> snd ` set (hb_sessions H2)" by simp_all
  moreover have "dispatcher_ok D" "dp_cap D = dp_cap (hb_disp H)"
    using activate_ok [OF d, of root now] activate_resident [OF d, of root now] act by (simp_all add: Let_def)
  ultimately show ?thesis using act e by (simp add: call_root_def hub_ok_def)
qed

lemma evict_idle_keys:
  assumes "dispatcher_ok D"
  shows "set (keys_of (dp_resident (snd (evict_idle now D)))) =
    set (keys_of (dp_resident D)) - set (keys_of (fst (evict_idle now D)))"
proof -
  let ?rows = "zip (dp_resident D) (dp_last_used D)" and ?old = "\<lambda>(p :: string, used). dp_idle D \<le> now - used"
  have len: "length (dp_last_used D) = length (dp_resident D)" using assms by (simp add: dispatcher_ok_def)
  have "distinct (map (path_norm_key \<circ> fst) ?rows)"
    using assms len by (simp add: dispatcher_ok_def flip: map_map)
  then have inj: "inj_on (path_norm_key \<circ> fst) (set ?rows)" by (simp add: distinct_map)
  have fst_rows: "map fst ?rows = dp_resident D" using len by simp
  have "(path_norm_key \<circ> fst) ` {x \<in> set ?rows. \<not> ?old x}
      = (path_norm_key \<circ> fst) ` set ?rows - (path_norm_key \<circ> fst) ` {x \<in> set ?rows. ?old x}"
    using inj by (auto simp: inj_on_def)
  moreover have "(path_norm_key \<circ> fst) ` set ?rows = set (keys_of (dp_resident D))"
    by (metis fst_rows image_comp list.set_map)
  ultimately show ?thesis
    by (simp add: evict_idle_def Let_def image_comp case_prod_unfold)
qed

lemma tick_idle_ok:
  assumes "hub_ok H"
  shows "hub_ok (tick_idle now H) \<and> dp_cap (hb_disp (tick_idle now H)) = dp_cap (hb_disp H)"
proof -
  obtain evicted D where ev: "evict_idle now (hb_disp H) = (evicted, D)" by fastforce
  have d: "dispatcher_ok (hb_disp H)" and "sessions_ok H"
    and keys: "set (session_keys H) = set (keys_of (dp_resident (hb_disp H)))"
    using assms by (simp_all add: hub_ok_def)
  then have "sessions_ok (H\<lparr>hb_disp := D\<rparr>)" by (simp add: sessions_ok_def)
  note f = fold_teardown [OF this, of evicted]
  have "dispatcher_ok D" using evict_idle_ok [OF d, of now] ev by simp
  moreover have "dp_cap D = dp_cap (hb_disp H)" using ev by (auto simp: evict_idle_def Let_def)
  moreover have "set (keys_of (dp_resident D)) = set (keys_of (dp_resident (hb_disp H))) - set (keys_of evicted)"
    using evict_idle_keys [OF d, of now] ev by simp
  ultimately show ?thesis using f keys ev by (auto simp: tick_idle_def hub_ok_def)
qed

section \<open>Calls that overlap\<close>

text \<open>A session whose root is not resident and that no thread is about to tear down.\<close>

definition spares :: "string \<Rightarrow> task list \<Rightarrow> bool" where
  "spares k = list_all (\<lambda>task. case task of Teardown r \<Rightarrow> path_norm_key r \<noteq> k | Ensure _ \<Rightarrow> True)"

lemma spares_simps [simp]:
  "spares k []" "spares k (Teardown r # ts) \<longleftrightarrow> path_norm_key r \<noteq> k \<and> spares k ts"
  "spares k (Ensure r # ts) = spares k ts" "spares k (ts @ us) \<longleftrightarrow> spares k ts \<and> spares k us"
  "spares k (map Teardown rs) \<longleftrightarrow> k \<notin> set (keys_of rs)"
  by (auto simp: spares_def list_all_iff)

definition orphan :: "string \<Rightarrow> hub \<Rightarrow> bool" where
  "orphan k H \<longleftrightarrow>
     k \<in> set (session_keys H) \<and> k \<notin> set (keys_of (dp_resident (hb_disp H)))
     \<and> (\<forall>t. spares k (hb_tasks H t))"

lemma teardown_keeps_other:
  assumes "k \<in> set (session_keys H)" and "path_norm_key root \<noteq> k"
  shows "k \<in> set (session_keys (teardown_child root H))"
proof (cases "session_at root H")
  case None
  then show ?thesis using assms(1) by (simp add: teardown_child_def)
next
  case (Some ks)
  obtain k' s where ks: "ks = (k', s)" by fastforce
  with Some have "path_norm_key k' = path_norm_key root" using session_at_Some by blast
  then have "path_norm_key k' \<noteq> k" using assms(2) by simp
  moreover obtain x where "x \<in> set (hb_sessions H)" "path_norm_key (fst x) = k" using assms(1) by auto
  ultimately have "x \<in> set (AList.delete k' (hb_sessions H))" by (auto simp: AList.delete_eq)
  then show ?thesis using Some ks \<open>path_norm_key (fst x) = k\<close> by (force simp: teardown_child_def)
qed

lemma ensure_keeps:
  assumes "k \<in> set (session_keys H)"
  shows "k \<in> set (session_keys (snd (ensure_session canon root H)))
    \<and> hb_disp (snd (ensure_session canon root H)) = hb_disp H \<and> hb_tasks (snd (ensure_session canon root H)) = hb_tasks H"
proof -
  have "fst ` set al \<subseteq> fst ` set (AList.update a b al)" for a b and al :: "(string \<times> nat) list"
    by (induction al) auto
  then have "path_norm_key ` fst ` set (hb_sessions H) \<subseteq>
      path_norm_key ` fst ` set (AList.update (canon root) (hb_next H) (hb_sessions H))"
    by (rule image_mono)
  then show ?thesis
    using assms by (cases "session_at root H") (auto simp: ensure_session_def image_image)
qed

lemma hub_do_dispatcher_ok: "dispatcher_ok (hb_disp H) \<Longrightarrow> dispatcher_ok (hb_disp (hub_do canon ev H))"
  using activate_ok evict_idle_ok
  by (auto simp: hub_do_def Let_def ensure_session_def case_prod_unfold
      split: hub_event.splits list.splits task.splits option.splits)

lemma hub_run_dispatcher_ok: "dispatcher_ok (hb_disp H) \<Longrightarrow> dispatcher_ok (hb_disp (hub_run canon evs H))"
  by (induction evs arbitrary: H) (simp_all add: hub_do_dispatcher_ok)

lemma orphan_step:
  assumes "orphan k H" and "dispatcher_ok (hb_disp H)" and "\<And>t root now. ev = Call t root now \<Longrightarrow> path_norm_key root \<noteq> k"
  shows "orphan k (hub_do canon ev H)"
proof (cases ev)
  case (Call t root now)
  obtain evicted D where act: "activate root now (hb_disp H) = (evicted, D)" by fastforce
  have "set (keys_of evicted) \<union> set (keys_of (dp_resident D)) = insert (path_norm_key root) (set (keys_of (dp_resident (hb_disp H))))"
    using activate_keys(2) [OF assms(2), of root now] by (simp only: act fst_conv snd_conv)
  moreover have "path_norm_key root \<noteq> k" "k \<notin> set (keys_of (dp_resident (hb_disp H)))"
    using assms(1,3) Call by (auto simp: orphan_def)
  ultimately have k: "k \<notin> set (keys_of evicted)" "k \<notin> set (keys_of (dp_resident D))"
    by (metis UnI1 UnI2 insertE)+
  then have "spares k (map Teardown evicted @ [Ensure root])"
    by simp
  then show ?thesis using assms(1) act k(2) Call by (auto simp: hub_do_def orphan_def)
next
  case (Tick t now)
  obtain evicted D where ev: "evict_idle now (hb_disp H) = (evicted, D)" by fastforce
  have "set (dp_resident D) \<subseteq> set (dp_resident (hb_disp H))" "set evicted \<subseteq> set (dp_resident (hb_disp H))"
    using ev by (auto simp: evict_idle_def Let_def) (metis set_zip_leftD)+
  then have k: "k \<notin> set (keys_of evicted)" "k \<notin> set (keys_of (dp_resident D))"
    using assms(1) by (auto simp: orphan_def)
  then have "spares k (map Teardown evicted)"
    by simp
  then show ?thesis using assms(1) ev k(2) Tick by (auto simp: hub_do_def orphan_def)
next
  case (Work t)
  show ?thesis
  proof (cases "hb_tasks H t")
    case Nil
    then show ?thesis using assms(1) Work by (simp add: hub_do_def)
  next
    case (Cons task rest)
    let ?H = "H\<lparr>hb_tasks := (hb_tasks H)(t := rest)\<rparr>"
    have sp: "spares k (task # rest)" using assms(1) Cons unfolding orphan_def by metis
    then have "spares k rest" by (cases task) simp_all
    then have o: "orphan k ?H" using assms(1) by (auto simp: orphan_def)
    show ?thesis
    proof (cases task)
      case (Teardown r)
      then show ?thesis
        using o sp teardown_keeps_other [of k ?H r] Work Cons by (auto simp: hub_do_def orphan_def)
    next
      case (Ensure r)
      then show ?thesis
        using o ensure_keeps [of k ?H canon r] Work Cons
        by (auto simp: hub_do_def orphan_def Let_def case_prod_unfold)
    qed
  qed
qed

lemma dispatcher_new_ok: "dispatcher_ok (dispatcher_new children idle cap)"
  by (simp add: dispatcher_ok_def dispatcher_new_def)

lemma orphan_run:
  "orphan k H \<Longrightarrow> dispatcher_ok (hb_disp H) \<Longrightarrow> \<forall>t root now. Call t root now \<in> set evs \<longrightarrow> path_norm_key root \<noteq> k \<Longrightarrow>
   orphan k (hub_run canon evs H)"
proof (induction evs arbitrary: H)
  case (Cons ev evs)
  have "orphan k (hub_do canon ev H)"
    by (rule orphan_step [OF Cons.prems(1,2)]) (metis Cons.prems(3) list.set_intros(1))
  moreover have "\<forall>t root now. Call t root now \<in> set evs \<longrightarrow> path_norm_key root \<noteq> k"
  proof (intro allI impI)
    fix t root now assume "Call t root now \<in> set evs"
    then have "Call t root now \<in> set (ev # evs)" by simp
    then show "path_norm_key root \<noteq> k" using Cons.prems(3) by blast
  qed
  ultimately show ?case
    using Cons.IH hub_do_dispatcher_ok [OF Cons.prems(2)] by simp
qed simp

section \<open>Properties\<close>

text \<open>C20: The resident roots are exactly the last ones used: after any calls the dispatcher holds the roots of
  the most recent calls, up to its limit, without repetition, in the order of their last use, where two
  spellings of a Windows path are one root.\<close>

theorem resident_roots_are_lru:
  "keys_of (dp_resident (activate_all calls (dispatcher_new children idle cap)))
     = last_n cap (remdups (keys_of (map fst calls)))"
  using resident_is_recent by blast



text \<open>Two calls that overlap, with room for one root: the first is evicted before it opened its session.\<close>

definition overlap :: "hub_event list" where
  "overlap = [Call 0 ''/a'' 0, Call 1 ''/b'' 1, Work 1, Work 1, Work 0]"

lemma overlap_orphan: "orphan ''/a'' (hub_run (\<lambda>p. p) overlap (hub_new [] 5 1))"
proof -
  have "hb_tasks (hub_run (\<lambda>p. p) overlap (hub_new [] 5 1)) = (\<lambda>_. [])"
    by (auto simp: overlap_def hub_new_def dispatcher_new_def hub_do_def activate_def paths_eq_normalized_def
      path_norm_key_def slashes_preserving_root_def slashify_def looks_windows_path_def strip_prefix_def
      session_at_def teardown_child_def ensure_session_def Let_def)
  moreover have "''/a'' \<in> set (session_keys (hub_run (\<lambda>p. p) overlap (hub_new [] 5 1)))"
    by code_simp
  moreover have "''/a'' \<notin> set (keys_of (dp_resident (hb_disp (hub_run (\<lambda>p. p) overlap (hub_new [] 5 1)))))"
    by code_simp
  ultimately show ?thesis by (simp add: orphan_def)
qed

text \<open>With a limit of zero, one call is enough.\<close>

lemma zero_limit_orphan:
  "hb_sessions (hub_run (\<lambda>p. p) [Call 0 ''/a'' 0, Work 0, Work 0] (hub_new [] 5 0)) = [(''/a'', 0)]
   \<and> dp_resident (hb_disp (hub_run (\<lambda>p. p) [Call 0 ''/a'' 0, Work 0, Work 0] (hub_new [] 5 0))) = []
   \<and> hb_tasks (hub_run (\<lambda>p. p) [Call 0 ''/a'' 0, Work 0, Work 0] (hub_new [] 5 0)) 0 = []"
  by code_simp

text \<open>C6: A session that outlives its residency is never closed.  Overlapping calls reach states in which a root
  that is not resident has a session and no thread is about to tear it down (the witness does with two calls;
  a limit of zero does with one); from such a state on, whatever other calls, idle turns and unfinished work
  follow, the session stays open until its own root is called again.\<close>

theorem orphan_session_never_closed:
  assumes "orphan k (hub_run canon evs (hub_new children idle cap))"
    and "\<forall>t root now. Call t root now \<in> set later \<longrightarrow> path_norm_key root \<noteq> k"
  shows "orphan k (hub_run canon later (hub_run canon evs (hub_new children idle cap)))"
proof (rule orphan_run [OF assms(1) _ assms(2)])
  show "dispatcher_ok (hb_disp (hub_run canon evs (hub_new children idle cap)))"
    by (rule hub_run_dispatcher_ok) (simp add: hub_new_def dispatcher_new_ok)
qed

theorem orphan_session_never_closed_witness:
  "orphan ''/a'' (hub_run (\<lambda>p. p) [Tick 2 1000, Work 2, Call 1 ''/c'' 1001, Work 1]
     (hub_run (\<lambda>p. p) overlap (hub_new [] 5 1)))"
proof (rule orphan_session_never_closed [OF overlap_orphan])
  have "path_norm_key ''/c'' \<noteq> ''/a''" by code_simp
  then show "\<forall>t root now. Call t root now \<in> set [Tick 2 1000, Work 2, Call 1 ''/c'' 1001, Work 1]
      \<longrightarrow> path_norm_key root \<noteq> ''/a''" by auto
qed

text \<open>A root called again while another thread still has to tear it down loses the session the call was just
  given: it is resident, its caller holds a session that is closed, and it has none in the map.\<close>

lemma reactivated_root_is_torn_down:
  "let H = hub_run (\<lambda>p. p) [Call 0 ''/a'' 0, Work 0, Call 1 ''/b'' 1, Call 0 ''/a'' 2, Work 0, Work 0, Work 1]
             (hub_new [] 5 1)
   in hd (hb_given H) = (0, ''/a'', 0) \<and> 0 \<in> hb_closed H
      \<and> dp_resident (hb_disp H) = [''/a''] \<and> hb_sessions H = []"
  by code_simp

end
