(* ===== verification/DocSync.thy ===== *)
theory DocSync
  imports Transport Paths "HOL-Library.AList"
begin

text \<open>
  The documents a language server holds open (\<open>LspSession\<close> of \<open>astrolabe-core/src/lsp/transport.rs\<close>):
  bringing the server's copy of a file up to the disk, the announcement of new files, closing, and what
  the watcher's changes do, first one operation at a time and then as an interleaving of threads; and the
  published diagnostics a query may use.  Reading a file and its metadata, decoding its bytes and SHA-256
  are arguments.  Every notification goes through \<open>LspTransport::notify\<close>, which fails only on a server
  that is dead, and then fails for ever: the state holds how many more notifications it will take.
\<close>

section \<open>Documents\<close>

type_synonym i64 = "64 word"

record 'h open_doc =
  od_version :: i64
  od_hash :: 'h
  od_last_used :: u64

definition max_open_docs :: nat where "max_open_docs = 512"
definition watched_files_batch :: nat where "watched_files_batch = 500"
definition max_created_announce :: nat where "max_created_announce = 64"
definition max_announce_bytes :: u64 where "max_announce_bytes = 1024 * 1024"

definition file_created :: nat where "file_created = 1"
definition file_changed :: nat where "file_changed = 2"
definition file_deleted :: nat where "file_deleted = 3"

definition family :: "language \<Rightarrow> nat" where
  "family l =
     (if l \<in> {TypeScript, Tsx, JavaScript} then 1
      else if l \<in> {C, Cpp, ObjC, ObjCpp} then 2
      else if l \<in> {CSharp, VisualBasic} then 3
      else 0)"

definition serves :: "language \<Rightarrow> language \<Rightarrow> bool" where
  "serves server file \<longleftrightarrow> server = file \<or> family server \<noteq> 0 \<and> family server = family file"

fun language_id :: "language \<Rightarrow> string" where
  "language_id Python = ''python''"
| "language_id Go = ''go''"
| "language_id Java = ''java''"
| "language_id Rust = ''rust''"
| "language_id TypeScript = ''typescript''"
| "language_id Tsx = ''typescriptreact''"
| "language_id JavaScript = ''javascript''"
| "language_id C = ''c''"
| "language_id Cpp = ''cpp''"
| "language_id ObjC = ''objective-c''"
| "language_id ObjCpp = ''objective-cpp''"
| "language_id Swift = ''swift''"
| "language_id Php = ''php''"
| "language_id Vue = ''vue''"
| "language_id Dart = ''dart''"
| "language_id CSharp = ''csharp''"
| "language_id VisualBasic = ''vb''"
| "language_id Kotlin = ''kotlin''"
| "language_id Shell = ''shellscript''"
| "language_id Ruby = ''ruby''"
| "language_id Lua = ''lua''"
| "language_id Proto = ''protobuf''"

text \<open>The notifications sent, with the fields the server reads.\<close>

datatype lsp_note =
  DidOpen (note_uri: string) string i64 string
| DidChange (note_uri: string) i64 string
| DidSave (note_uri: string)
| DidClose (note_uri: string)
| DidChangeWatchedFiles "(string \<times> nat) list"

record 'h sync_env =
  sy_root :: string
  sy_cwd :: string
  sy_language :: language
  sy_decode :: "string \<Rightarrow> string"
  sy_hash :: "string \<Rightarrow> 'h"

text \<open>\<open>ds_left\<close> is how many more notifications the server takes before it is dead, \<open>ds_sent\<close> those it took,
  \<open>ds_closing\<close> the documents a thread has taken from the map without having sent \<open>didClose\<close> yet.\<close>

record 'h docs =
  ds_opened :: "(string \<times> 'h open_doc) list"
  ds_tick :: u64
  ds_left :: nat
  ds_sent :: "lsp_note list"
  ds_closing :: "string list"

definition docs_new :: "nat \<Rightarrow> 'h docs" where
  "docs_new n = \<lparr>ds_opened = [], ds_tick = 0, ds_left = n, ds_sent = [], ds_closing = []\<rparr>"

definition send_note :: "lsp_note \<Rightarrow> 'h docs \<Rightarrow> (lsp_error + unit) \<times> 'h docs" where
  "send_note m S =
     (case ds_left S of
        0 \<Rightarrow> (Inl Crashed, S)
      | Suc n \<Rightarrow> (Inr (), S\<lparr>ds_left := n, ds_sent := ds_sent S @ [m]\<rparr>))"

definition file_uri :: "'h sync_env \<Rightarrow> rel_path \<Rightarrow> string" where
  "file_uri E p = path_to_file_uri (sy_cwd E) (path_join (sy_root E) (as_str p))"

text \<open>The first document with the least \<open>last_used\<close>.\<close>

fun oldest_doc :: "(string \<times> 'h open_doc) list \<Rightarrow> (string \<times> 'h open_doc) option" where
  "oldest_doc [] = None"
| "oldest_doc (kd # ds) =
     (case oldest_doc ds of
        None \<Rightarrow> Some kd
      | Some m \<Rightarrow> if od_last_used (snd kd) \<le> od_last_used (snd m) then Some kd else Some m)"

definition close_oldest :: "'h sync_env \<Rightarrow> 'h docs \<Rightarrow> 'h docs" where
  "close_oldest E S =
     (case oldest_doc (ds_opened S) of
        None \<Rightarrow> S
      | Some (old, _) \<Rightarrow>
          snd (send_note (DidClose (file_uri E (rel_path_new old))) (S\<lparr>ds_opened := AList.delete old (ds_opened S)\<rparr>)))"

definition touch_doc :: "string \<Rightarrow> u64 \<Rightarrow> (string \<times> 'h open_doc) list \<Rightarrow> (string \<times> 'h open_doc) list" where
  "touch_doc key tick ds =
     (case map_of ds key of
        Some doc \<Rightarrow> AList.update key (doc\<lparr>od_last_used := tick\<rparr>) ds
      | None \<Rightarrow> ds)"

text \<open>The part of \<open>ensure_open\<close> after the file has been read: sending the text.\<close>

definition sync_text :: "'h sync_env \<Rightarrow> rel_path \<Rightarrow> string \<Rightarrow> 'h docs \<Rightarrow> (lsp_error + unit) \<times> 'h docs" where
  "sync_text E p text S =
     (let key = as_str p; hash = sy_hash E text;
          S1 = (if map_of (ds_opened S) key = None \<and> max_open_docs \<le> length (ds_opened S) then close_oldest E S else S);
          tick = ds_tick S1;
          S2 = S1\<lparr>ds_tick := tick + 1, ds_opened := touch_doc key tick (ds_opened S1)\<rparr>
      in case map_of (ds_opened S2) key of
           Some doc \<Rightarrow>
             if od_hash doc = hash then (Inr (), S2)
             else (let version = od_version doc + 1
                   in case send_note (DidChange (file_uri E p) version text) S2 of
                        (Inl e, S3) \<Rightarrow> (Inl e, S3)
                      | (Inr _, S3) \<Rightarrow>
                          (Inr (), snd (send_note (DidSave (file_uri E p))
                             (S3\<lparr>ds_opened := AList.update key \<lparr>od_version = version, od_hash = hash, od_last_used = tick\<rparr>
                                               (ds_opened S3)\<rparr>))))
         | None \<Rightarrow>
             (case send_note (DidOpen (file_uri E p) (language_id (sy_language E)) 1 text) S2 of
                (Inl e, S3) \<Rightarrow> (Inl e, S3)
              | (Inr _, S3) \<Rightarrow>
                  (Inr (), S3\<lparr>ds_opened := AList.update key \<lparr>od_version = 1, od_hash = hash, od_last_used = tick\<rparr>
                                             (ds_opened S3)\<rparr>)))"

text \<open>\<open>content\<close> is what reading the file gives, while the lock is held: an error's text or the bytes.\<close>

definition ensure_open :: "'h sync_env \<Rightarrow> rel_path \<Rightarrow> string + string \<Rightarrow> 'h docs \<Rightarrow> (lsp_error + unit) \<times> 'h docs" where
  "ensure_open E p content S =
     (case content of
        Inr bytes \<Rightarrow> sync_text E p (sy_decode E bytes) S
      | Inl err \<Rightarrow>
          (Inl (Protocol (''could not read '' @ as_str p @ '' ('' @ err @ '')'')),
           if map_of (ds_opened S) (as_str p) \<noteq> None
           then snd (send_note (DidClose (file_uri E p)) (S\<lparr>ds_opened := AList.delete (as_str p) (ds_opened S)\<rparr>))
           else S))"

text \<open>\<open>meta\<close> is the metadata of the file: whether it is a regular file, and its length.\<close>

definition announce_created ::
  "'h sync_env \<Rightarrow> rel_path \<Rightarrow> (bool \<times> u64) option \<Rightarrow> string + string \<Rightarrow> 'h docs \<Rightarrow> bool \<times> 'h docs" where
  "announce_created E p meta content S =
     (case from_path p of
        None \<Rightarrow> (False, S)
      | Some file_language \<Rightarrow>
          if \<not> serves (sy_language E) file_language then (False, S)
          else (case (meta, content) of
                  (Some (is_file, len), Inr bytes) \<Rightarrow>
                    if is_file \<and> len \<le> max_announce_bytes
                    then (if map_of (ds_opened S) (as_str p) \<noteq> None then (False, S)
                          else (case send_note (DidOpen (file_uri E p) (language_id file_language) 1 (sy_decode E bytes)) S of
                                  (Inl _, S1) \<Rightarrow> (False, S1)
                                | (Inr _, S1) \<Rightarrow> (True, snd (send_note (DidClose (file_uri E p)) S1))))
                    else (False, S)
                | _ \<Rightarrow> (False, S)))"

text \<open>\<open>close_if_open\<close> holds the lock only while it takes the document from the map; the notification is a
  step of its own.\<close>

definition take_doc :: "rel_path \<Rightarrow> 'h docs \<Rightarrow> bool \<times> 'h docs" where
  "take_doc p S =
     (if map_of (ds_opened S) (as_str p) = None then (False, S)
      else (True, S\<lparr>ds_opened := AList.delete (as_str p) (ds_opened S), ds_closing := as_str p # ds_closing S\<rparr>))"

definition send_close :: "'h sync_env \<Rightarrow> rel_path \<Rightarrow> 'h docs \<Rightarrow> 'h docs" where
  "send_close E p S =
     snd (send_note (DidClose (file_uri E p)) (S\<lparr>ds_closing := remove1 (as_str p) (ds_closing S)\<rparr>))"

definition close_if_open :: "'h sync_env \<Rightarrow> rel_path \<Rightarrow> 'h docs \<Rightarrow> 'h docs" where
  "close_if_open E p S = (case take_doc p S of (True, S1) \<Rightarrow> send_close E p S1 | (False, S1) \<Rightarrow> S1)"

definition open_version :: "rel_path \<Rightarrow> 'h docs \<Rightarrow> i64 option" where
  "open_version p S = map_option od_version (map_of (ds_opened S) (as_str p))"

datatype file_change_kind = Created | Changed | Deleted

fun change_type :: "file_change_kind \<Rightarrow> nat" where
  "change_type Created = file_created"
| "change_type Changed = file_changed"
| "change_type Deleted = file_deleted"

definition change_doc ::
  "'h sync_env \<Rightarrow> (rel_path \<Rightarrow> (bool \<times> u64) option) \<Rightarrow> (rel_path \<Rightarrow> string + string) \<Rightarrow> rel_path \<times> file_change_kind
     \<Rightarrow> nat \<times> 'h docs \<Rightarrow> nat \<times> 'h docs" where
  "change_doc E meta content change acc =
     (case (change, acc) of ((p, kind), (announced, S)) \<Rightarrow>
        if kind = Deleted then (announced, close_if_open E p S)
        else if map_of (ds_opened S) (as_str p) \<noteq> None then (announced, snd (ensure_open E p (content p) S))
        else if kind = Created \<and> announced < max_created_announce
        then (let (sent, S1) = announce_created E p (meta p) (content p) S
              in (if sent then Suc announced else announced, S1))
        else (announced, S))"

definition files_changed ::
  "'h sync_env \<Rightarrow> (rel_path \<Rightarrow> (bool \<times> u64) option) \<Rightarrow> (rel_path \<Rightarrow> string + string) \<Rightarrow> (rel_path \<times> file_change_kind) list
     \<Rightarrow> 'h docs \<Rightarrow> 'h docs" where
  "files_changed E meta content changes S =
     (if changes = [] then S
      else (let events = map (\<lambda>(p, kind). (file_uri E p, change_type kind)) changes;
                S1 = fold (\<lambda>batch S. snd (send_note (DidChangeWatchedFiles batch) S)) (chunks_of watched_files_batch events) S
            in snd (fold (change_doc E meta content) changes (0, S1))))"

section \<open>What the server holds\<close>

text \<open>The server's side of the protocol: its documents with their version and text.  A document must not be
  opened twice, nor changed, saved or closed while it is not open, and each change counts one version up.\<close>

type_synonym server_docs = "string \<Rightarrow> (i64 \<times> string) option"

fun take_note :: "lsp_note \<Rightarrow> server_docs \<Rightarrow> server_docs option" where
  "take_note (DidOpen u _ v text) V = (if V u = None then Some (V(u \<mapsto> (v, text))) else None)"
| "take_note (DidChange u v text) V =
     (case V u of
        Some (w, _) \<Rightarrow> if v = w + 1 then Some (V(u \<mapsto> (v, text))) else None
      | None \<Rightarrow> None)"
| "take_note (DidSave u) V = (if V u = None then None else Some V)"
| "take_note (DidClose u) V = (if V u = None then None else Some (V(u := None)))"
| "take_note (DidChangeWatchedFiles _) V = Some V"

fun replay :: "lsp_note list \<Rightarrow> server_docs \<Rightarrow> server_docs option" where
  "replay [] V = Some V"
| "replay (m # ms) V = Option.bind (take_note m V) (replay ms)"

lemma replay_append: "replay (ms @ ns) V = Option.bind (replay ms V) (replay ns)"
  by (induction ms arbitrary: V) (auto split: bind_split)

lemma replay_snoc: "replay (ms @ [m]) V = Option.bind (replay ms V) (take_note m)"
  by (cases "replay ms V"; cases "Option.bind (replay ms V) (take_note m)") (auto simp: replay_append)

section \<open>Threads\<close>

text \<open>What any number of threads reach, one hold of the lock at a time.  With \<open>calm\<close>, no document is synced or
  announced while a thread that took it from the map has still to send its \<open>didClose\<close>.\<close>

inductive sync_reach :: "bool \<Rightarrow> 'h sync_env \<Rightarrow> nat \<Rightarrow> 'h docs \<Rightarrow> bool" for calm E n where
  reach_new: "sync_reach calm E n (docs_new n)"
| reach_ensure: "sync_reach calm E n S \<Longrightarrow> rel_plain (as_str p) \<Longrightarrow> calm \<longrightarrow> as_str p \<notin> set (ds_closing S)
    \<Longrightarrow> sync_reach calm E n (snd (ensure_open E p content S))"
| reach_announce: "sync_reach calm E n S \<Longrightarrow> rel_plain (as_str p) \<Longrightarrow> calm \<longrightarrow> as_str p \<notin> set (ds_closing S)
    \<Longrightarrow> sync_reach calm E n (snd (announce_created E p meta content S))"
| reach_watched: "sync_reach calm E n S \<Longrightarrow> sync_reach calm E n (snd (send_note (DidChangeWatchedFiles es) S))"
| reach_take: "sync_reach calm E n S \<Longrightarrow> sync_reach calm E n (snd (take_doc p S))"
| reach_send: "sync_reach calm E n S \<Longrightarrow> as_str p \<in> set (ds_closing S) \<Longrightarrow> sync_reach calm E n (send_close E p S)"

section \<open>Agreement\<close>

definition good_env :: "'h sync_env \<Rightarrow> bool" where
  "good_env E \<longleftrightarrow> is_absolute (sy_root E) \<and> backslash \<notin> set (sy_root E)"

abbreviation key_uri :: "'h sync_env \<Rightarrow> string \<Rightarrow> string" where
  "key_uri E k \<equiv> file_uri E (RelPath k)"

lemma file_uri_key: "file_uri E p = key_uri E (as_str p)"
  by simp

lemma key_uri_inj:
  assumes "good_env E" "rel_plain k" "rel_plain j" "key_uri E k = key_uri E j"
  shows "k = j"
  using assms file_uri_inj [of "sy_root E" k j "sy_cwd E"] by (simp add: good_env_def file_uri_def)

text \<open>The session's documents, the ones being closed, and the server's: they agree up to what a dead server was
  not told.\<close>

definition docs_agree :: "'h sync_env \<Rightarrow> bool \<Rightarrow> (string \<Rightarrow> 'h open_doc option) \<Rightarrow> string set \<Rightarrow> server_docs \<Rightarrow> bool" where
  "docs_agree E alive D K V \<longleftrightarrow>
     (\<forall>k d. D k = Some d \<longrightarrow> rel_plain k \<and> k \<notin> K
        \<and> (\<exists>t. V (key_uri E k) = Some (od_version d, t) \<and> sy_hash E t = od_hash d))
     \<and> (\<forall>k\<in>K. rel_plain k)
     \<and> (alive \<longrightarrow> (\<forall>k\<in>K. V (key_uri E k) \<noteq> None)
          \<and> (\<forall>u. V u \<noteq> None \<longrightarrow> (\<exists>k. rel_plain k \<and> u = key_uri E k \<and> (D k \<noteq> None \<or> k \<in> K))))"

lemma agreeI:
  assumes "\<And>k d. D k = Some d \<Longrightarrow> rel_plain k \<and> k \<notin> K
      \<and> (\<exists>t. V (key_uri E k) = Some (od_version d, t) \<and> sy_hash E t = od_hash d)"
    and "\<And>k. k \<in> K \<Longrightarrow> rel_plain k"
    and "\<And>k. a \<Longrightarrow> k \<in> K \<Longrightarrow> V (key_uri E k) \<noteq> None"
    and "\<And>u. a \<Longrightarrow> V u \<noteq> None \<Longrightarrow> \<exists>k. rel_plain k \<and> u = key_uri E k \<and> (D k \<noteq> None \<or> k \<in> K)"
  shows "docs_agree E a D K V"
  unfolding docs_agree_def using assms by blast

lemma agree_doc:
  "docs_agree E a D K V \<Longrightarrow> D k = Some d \<Longrightarrow> rel_plain k \<and> k \<notin> K
     \<and> (\<exists>t. V (key_uri E k) = Some (od_version d, t) \<and> sy_hash E t = od_hash d)"
  unfolding docs_agree_def by blast

lemma agree_plain: "docs_agree E a D K V \<Longrightarrow> k \<in> K \<Longrightarrow> rel_plain k"
  unfolding docs_agree_def by blast

lemma agree_closing: "docs_agree E True D K V \<Longrightarrow> k \<in> K \<Longrightarrow> V (key_uri E k) \<noteq> None"
  unfolding docs_agree_def by blast

lemma agree_server:
  "docs_agree E True D K V \<Longrightarrow> V u \<noteq> None \<Longrightarrow> \<exists>k. rel_plain k \<and> u = key_uri E k \<and> (D k \<noteq> None \<or> k \<in> K)"
  unfolding docs_agree_def by blast

lemma agree_live: "docs_agree E a D K V \<Longrightarrow> a \<Longrightarrow> docs_agree E True D K V"
  by simp

lemma agree_any: "docs_agree E True D K V \<Longrightarrow> docs_agree E a D K V"
  by (auto simp: docs_agree_def)

lemma agree_dead: "docs_agree E a D K V \<Longrightarrow> docs_agree E False D K V"
  by (auto simp: docs_agree_def)

lemma agree_fewer: "docs_agree E a D K V \<Longrightarrow> docs_agree E False (D(k := None)) (K - X) V"
  by (auto simp: docs_agree_def)

lemma agree_close:
  assumes "good_env E" "docs_agree E True D K V" "D k = Some d"
  shows "docs_agree E True (D(k := None)) K (V(key_uri E k := None))"
proof (rule agreeI)
  note k = agree_doc [OF assms(2,3)]
  have other: "key_uri E j \<noteq> key_uri E k" if "rel_plain j" "j \<noteq> k" for j
    using key_uri_inj [OF assms(1) that(1)] k that(2) by blast
  fix j
  show "rel_plain j \<and> j \<notin> K \<and> (\<exists>t. (V(key_uri E k := None)) (key_uri E j) = Some (od_version e, t) \<and> sy_hash E t = od_hash e)"
    if "(D(k := None)) j = Some e" for e
  proof -
    from that have j: "j \<noteq> k" "D j = Some e" by (auto split: if_splits)
    show ?thesis using agree_doc [OF assms(2) j(2)] other [of j] j(1) by simp
  qed
  show "rel_plain j" if "j \<in> K" using agree_plain [OF assms(2) that] .
  show "(V(key_uri E k := None)) (key_uri E j) \<noteq> None" if "j \<in> K"
  proof -
    have "j \<noteq> k" using k that by blast
    with agree_closing [OF assms(2) that] other [OF agree_plain [OF assms(2) that]] show ?thesis by simp
  qed
next
  fix u assume "(V(key_uri E k := None)) u \<noteq> None"
  then have u: "u \<noteq> key_uri E k" "V u \<noteq> None" by (simp_all split: if_splits)
  obtain j where "rel_plain j" "u = key_uri E j" "D j \<noteq> None \<or> j \<in> K"
    using agree_server [OF assms(2) u(2)] by blast
  moreover from this u(1) have "j \<noteq> k" by blast
  ultimately show "\<exists>j. rel_plain j \<and> u = key_uri E j \<and> ((D(k := None)) j \<noteq> None \<or> j \<in> K)"
    by (intro exI [of _ j]) simp
qed

lemma agree_send_close:
  assumes "good_env E" "docs_agree E True D K V" "k \<in> K"
  shows "docs_agree E True D (K - {k}) (V(key_uri E k := None))"
proof (rule agreeI)
  have other: "key_uri E j \<noteq> key_uri E k" if "rel_plain j" "j \<noteq> k" for j
    using key_uri_inj [OF assms(1) that(1) agree_plain [OF assms(2,3)]] that(2) by blast
  fix j
  show "rel_plain j \<and> j \<notin> K - {k} \<and> (\<exists>t. (V(key_uri E k := None)) (key_uri E j) = Some (od_version e, t) \<and> sy_hash E t = od_hash e)"
    if "D j = Some e" for e
  proof -
    have "j \<noteq> k" using agree_doc [OF assms(2) that] assms(3) by blast
    with agree_doc [OF assms(2) that] other [of j] show ?thesis by simp
  qed
  show "rel_plain j" if "j \<in> K - {k}" by (rule agree_plain [OF assms(2)]) (use that in simp)
  show "(V(key_uri E k := None)) (key_uri E j) \<noteq> None" if "j \<in> K - {k}"
  proof -
    have j: "j \<in> K" "j \<noteq> k" using that by auto
    with agree_closing [OF assms(2) j(1)] other [OF agree_plain [OF assms(2) j(1)]] show ?thesis by simp
  qed
next
  fix u assume "(V(key_uri E k := None)) u \<noteq> None"
  then have u: "u \<noteq> key_uri E k" "V u \<noteq> None" by (simp_all split: if_splits)
  obtain j where "rel_plain j" "u = key_uri E j" "D j \<noteq> None \<or> j \<in> K"
    using agree_server [OF assms(2) u(2)] by blast
  with u(1) show "\<exists>j. rel_plain j \<and> u = key_uri E j \<and> (D j \<noteq> None \<or> j \<in> K - {k})" by blast
qed

lemma agree_take:
  assumes "docs_agree E a D K V" "D k = Some d"
  shows "docs_agree E a (D(k := None)) (insert k K) V"
proof (rule agreeI)
  fix j e assume "(D(k := None)) j = Some e"
  then have "j \<noteq> k" "D j = Some e" by (auto split: if_splits)
  then show "rel_plain j \<and> j \<notin> insert k K \<and> (\<exists>t. V (key_uri E j) = Some (od_version e, t) \<and> sy_hash E t = od_hash e)"
    using agree_doc [OF assms(1), of j e] by simp
next
  fix j assume "j \<in> insert k K"
  then consider "j = k" | "j \<in> K" by blast
  then show "rel_plain j" using agree_plain [OF assms(1), of j] agree_doc [OF assms] by cases simp_all
next
  fix j assume a: "a" and "j \<in> insert k K"
  then consider "j = k" | "j \<in> K" by blast
  then show "V (key_uri E j) \<noteq> None"
  proof cases
    case 1
    then show ?thesis using agree_doc [OF assms] by (metis option.distinct(1))
  next
    case 2
    show ?thesis by (rule agree_closing [OF agree_live [OF assms(1) a] 2])
  qed
next
  fix u assume a: "a" and u: "V u \<noteq> None"
  obtain j where "rel_plain j" "u = key_uri E j" "D j \<noteq> None \<or> j \<in> K"
    using agree_server [OF agree_live [OF assms(1) a] u] by blast
  then show "\<exists>j. rel_plain j \<and> u = key_uri E j \<and> ((D(k := None)) j \<noteq> None \<or> j \<in> insert k K)"
    by (intro exI [of _ j]) simp
qed

text \<open>A document opened, or its text replaced.\<close>

lemma agree_put:
  assumes "good_env E" "docs_agree E a D K V" "rel_plain k" "k \<notin> K" "sy_hash E t = od_hash d"
  shows "docs_agree E a (D(k \<mapsto> d)) K (V(key_uri E k \<mapsto> (od_version d, t)))"
proof (rule agreeI)
  have other: "key_uri E j \<noteq> key_uri E k" if "rel_plain j" "j \<noteq> k" for j
    using key_uri_inj [OF assms(1) that(1) assms(3)] that(2) by blast
  fix j
  show "rel_plain j \<and> j \<notin> K \<and> (\<exists>s. (V(key_uri E k \<mapsto> (od_version d, t))) (key_uri E j) = Some (od_version e, s) \<and> sy_hash E s = od_hash e)"
    if "(D(k \<mapsto> d)) j = Some e" for e
  proof (cases "j = k")
    case True
    with that have "e = d" by simp
    then show ?thesis using True assms(3-5) by (intro conjI exI [of _ t]) simp_all
  next
    case False
    with that have "D j = Some e" by simp
    from agree_doc [OF assms(2) this] other [of j] False show ?thesis by simp
  qed
  show "rel_plain j" if "j \<in> K" using agree_plain [OF assms(2) that] .
  show "(V(key_uri E k \<mapsto> (od_version d, t))) (key_uri E j) \<noteq> None" if "a" "j \<in> K"
    using agree_closing [OF agree_live [OF assms(2) that(1)] that(2)] by simp
next
  fix u assume u: "a" "(V(key_uri E k \<mapsto> (od_version d, t))) u \<noteq> None"
  show "\<exists>j. rel_plain j \<and> u = key_uri E j \<and> ((D(k \<mapsto> d)) j \<noteq> None \<or> j \<in> K)"
  proof (cases "u = key_uri E k")
    case True
    then show ?thesis using assms(3) by (intro exI [of _ k]) simp
  next
    case False
    with u have "V u \<noteq> None" by simp
    then obtain j where "rel_plain j" "u = key_uri E j" "D j \<noteq> None \<or> j \<in> K"
      using agree_server [OF agree_live [OF assms(2) u(1)]] by blast
    then show ?thesis by (intro exI [of _ j]) simp
  qed
qed

lemma agree_closed:
  assumes "good_env E" "docs_agree E True D K V" "rel_plain k" "k \<notin> K" "D k = None"
  shows "V (key_uri E k) = None"
proof (rule ccontr)
  assume "V (key_uri E k) \<noteq> None"
  from agree_server [OF assms(2) this] obtain j where j: "rel_plain j" "key_uri E k = key_uri E j" "D j \<noteq> None \<or> j \<in> K"
    by blast
  have "k = j" by (rule key_uri_inj [OF assms(1,3) j(1,2)])
  with j(3) assms(4,5) show False by simp
qed

lemma agree_touch:
  assumes "docs_agree E a D K V" "D k = Some d" "od_version e = od_version d" "od_hash e = od_hash d"
  shows "docs_agree E a (D(k \<mapsto> e)) K V"
proof (rule agreeI)
  fix j f assume "(D(k \<mapsto> e)) j = Some f"
  then show "rel_plain j \<and> j \<notin> K \<and> (\<exists>t. V (key_uri E j) = Some (od_version f, t) \<and> sy_hash E t = od_hash f)"
    using agree_doc [OF assms(1), of j f] agree_doc [OF assms(1,2)] assms(3,4) by (cases "j = k") simp_all
next
  show "rel_plain j" if "j \<in> K" for j using agree_plain [OF assms(1) that] .
  show "V (key_uri E j) \<noteq> None" if "a" "j \<in> K" for j
    by (rule agree_closing [OF agree_live [OF assms(1) that(1)] that(2)])
  show "\<exists>j. rel_plain j \<and> u = key_uri E j \<and> ((D(k \<mapsto> e)) j \<noteq> None \<or> j \<in> K)" if a: "a" and u: "V u \<noteq> None" for u
  proof -
    obtain j where "rel_plain j" "u = key_uri E j" "D j \<noteq> None \<or> j \<in> K"
      using agree_server [OF agree_live [OF assms(1) a] u] by blast
    then show ?thesis by (intro exI [of _ j]) simp
  qed
qed


section \<open>Operations keep the agreement\<close>

definition synced :: "'h sync_env \<Rightarrow> 'h docs \<Rightarrow> bool" where
  "synced E S \<longleftrightarrow> (\<exists>V. replay (ds_sent S) Map.empty = Some V
     \<and> docs_agree E (0 < ds_left S) (map_of (ds_opened S)) (set (ds_closing S)) V)
     \<and> distinct (map fst (ds_opened S)) \<and> distinct (ds_closing S) \<and> length (ds_opened S) \<le> max_open_docs"

lemma syncedI:
  assumes "replay (ds_sent S) Map.empty = Some V"
    and "docs_agree E (0 < ds_left S) (map_of (ds_opened S)) (set (ds_closing S)) V"
    and "distinct (map fst (ds_opened S))" "distinct (ds_closing S)" "length (ds_opened S) \<le> max_open_docs"
  shows "synced E S"
  unfolding synced_def using assms by blast

lemma syncedE:
  assumes "synced E S"
  obtains V where "replay (ds_sent S) Map.empty = Some V"
    "docs_agree E (0 < ds_left S) (map_of (ds_opened S)) (set (ds_closing S)) V"
  using assms unfolding synced_def by blast

lemma synced_shape:
  "synced E S \<Longrightarrow> distinct (map fst (ds_opened S))"
  "synced E S \<Longrightarrow> distinct (ds_closing S)"
  "synced E S \<Longrightarrow> length (ds_opened S) \<le> max_open_docs"
  unfolding synced_def by blast+

lemma length_delete_le: "length (AList.delete k xs) \<le> length xs"
  by (simp add: AList.delete_eq)

lemma length_delete_less: "map_of xs k \<noteq> None \<Longrightarrow> length (AList.delete k xs) < length xs"
proof (induction xs)
  case (Cons x xs)
  then show ?case by (cases x) (auto simp: AList.delete_eq less_Suc_eq_le)
qed simp

lemma length_update:
  "length (AList.update k v xs) = (if map_of xs k = None then Suc (length xs) else length xs)"
  by (induction xs) auto

lemma map_of_delete: "map_of (AList.delete k xs) = (map_of xs)(k := None)"
  by (rule delete_conv')

lemma map_of_update: "map_of (AList.update k v xs) = (map_of xs)(k \<mapsto> v)"
  by (rule update_conv')

lemmas doc_maps = map_of_delete map_of_update length_update distinct_update distinct_delete

text \<open>Closing a document, whether the server hears of it or not.\<close>

lemma synced_close_key:
  assumes "good_env E" "synced E S" "map_of (ds_opened S) k = Some d"
  shows "synced E (snd (send_note (DidClose (key_uri E k)) (S\<lparr>ds_opened := AList.delete k (ds_opened S)\<rparr>)))"
proof -
  obtain V where V: "replay (ds_sent S) Map.empty = Some V"
    "docs_agree E (0 < ds_left S) (map_of (ds_opened S)) (set (ds_closing S)) V"
    using assms(2) by (rule syncedE)
  note shape = synced_shape [OF assms(2)] length_delete_le [of k "ds_opened S"]
  show ?thesis
  proof (cases "ds_left S")
    case 0
    have "docs_agree E False ((map_of (ds_opened S))(k := None)) (set (ds_closing S)) V"
      using agree_fewer [OF V(2), of k "{}"] by simp
    with 0 V(1) shape show ?thesis
      by (intro syncedI [where V = V]) (simp_all add: send_note_def doc_maps)
  next
    case (Suc n)
    then have a: "docs_agree E True (map_of (ds_opened S)) (set (ds_closing S)) V" using V(2) by simp
    have "V (key_uri E k) \<noteq> None" using agree_doc [OF a assms(3)] by (metis option.distinct(1))
    moreover have "docs_agree E (0 < n) ((map_of (ds_opened S))(k := None)) (set (ds_closing S)) (V(key_uri E k := None))"
      by (rule agree_any [OF agree_close [OF assms(1) a assms(3)]])
    ultimately show ?thesis using Suc V(1) shape
      by (intro syncedI [where V = "V(key_uri E k := None)"]) (simp_all add: send_note_def doc_maps replay_snoc)
  qed
qed

lemma oldest_doc_None: "oldest_doc ds = None \<longleftrightarrow> ds = []"
  by (cases ds) (auto split: option.splits if_splits)

lemma oldest_doc_in: "oldest_doc ds = Some kd \<Longrightarrow> kd \<in> set ds"
  by (induction ds arbitrary: kd) (auto split: option.splits if_splits)

lemma oldest_doc_least: "oldest_doc ds = Some m \<Longrightarrow> kd \<in> set ds \<Longrightarrow> od_last_used (snd m) \<le> od_last_used (snd kd)"
proof (induction ds arbitrary: m)
  case (Cons x ds)
  show ?case
  proof (cases "oldest_doc ds")
    case None
    then have "ds = []" by (simp add: oldest_doc_None)
    with Cons.prems show ?thesis by simp
  next
    case (Some o')
    then have "kd \<in> set ds \<Longrightarrow> od_last_used (snd o') \<le> od_last_used (snd kd)" by (rule Cons.IH)
    with Cons.prems Some show ?thesis by (auto split: if_splits)
  qed
qed simp

lemma send_note_same:
  "ds_opened (snd (send_note m S)) = ds_opened S" "ds_closing (snd (send_note m S)) = ds_closing S"
  "ds_tick (snd (send_note m S)) = ds_tick S"
  by (simp_all add: send_note_def split: nat.split)

lemma synced_plain_key:
  assumes "synced E S" "map_of (ds_opened S) k = Some d"
  shows "rel_plain k \<and> k \<notin> set (ds_closing S)"
  using assms(1) by (rule syncedE) (use agree_doc assms(2) in blast)

lemma synced_close_oldest:
  assumes "good_env E" "synced E S" "ds_opened S \<noteq> []"
  shows "synced E (close_oldest E S) \<and> length (ds_opened (close_oldest E S)) < length (ds_opened S)
    \<and> ds_closing (close_oldest E S) = ds_closing S"
proof -
  obtain k d where o: "oldest_doc (ds_opened S) = Some (k, d)"
    using assms(3) oldest_doc_None [of "ds_opened S"] by auto
  then have m: "map_of (ds_opened S) k = Some d"
    using oldest_doc_in synced_shape(1) [OF assms(2)] by fastforce
  have "rel_path_new k = RelPath k" using synced_plain_key [OF assms(2) m] rel_plain_new by blast
  then show ?thesis
    using synced_close_key [OF assms(1,2) m] length_delete_less [of "ds_opened S" k] m
    by (simp add: close_oldest_def o send_note_same)
qed

text \<open>A text goes to the server, or is what it has already.\<close>

lemma synced_touch:
  assumes "synced E S"
  shows "synced E (S\<lparr>ds_tick := t, ds_opened := touch_doc k u (ds_opened S)\<rparr>)"
proof (cases "map_of (ds_opened S) k")
  case None
  with assms show ?thesis by (simp add: synced_def touch_doc_def)
next
  case (Some d)
  obtain V where V: "replay (ds_sent S) Map.empty = Some V"
    "docs_agree E (0 < ds_left S) (map_of (ds_opened S)) (set (ds_closing S)) V"
    using assms by (rule syncedE)
  have "docs_agree E (0 < ds_left S) ((map_of (ds_opened S))(k \<mapsto> d\<lparr>od_last_used := u\<rparr>)) (set (ds_closing S)) V"
    by (rule agree_touch [OF V(2) Some]) simp_all
  with V(1) Some synced_shape [OF assms] show ?thesis
    by (intro syncedI [where V = V]) (simp_all add: touch_doc_def doc_maps)
qed

lemma send_note_Inl: "send_note m S = (Inl e, S') \<Longrightarrow> S' = S \<and> ds_left S = 0"
  by (auto simp: send_note_def split: nat.splits)

lemma send_note_Inr:
  "send_note m S = (Inr x, S') \<Longrightarrow> ds_left S \<noteq> 0 \<and> S' = S\<lparr>ds_left := ds_left S - 1, ds_sent := ds_sent S @ [m]\<rparr>"
  by (auto simp: send_note_def split: nat.splits)

definition holds_text :: "'h sync_env \<Rightarrow> rel_path \<Rightarrow> string \<Rightarrow> 'h docs \<Rightarrow> bool" where
  "holds_text E p text S \<longleftrightarrow> (\<exists>V v t. replay (ds_sent S) Map.empty = Some V \<and> V (file_uri E p) = Some (v, t)
     \<and> sy_hash E t = sy_hash E text)"

lemma synced_save:
  assumes "good_env E" "synced E S" "map_of (ds_opened S) k \<noteq> None"
  shows "synced E (snd (send_note (DidSave (key_uri E k)) S))"
proof (cases "ds_left S")
  case 0
  with assms(2) show ?thesis by (simp add: send_note_def)
next
  case (Suc n)
  obtain V where V: "replay (ds_sent S) Map.empty = Some V"
    "docs_agree E (0 < ds_left S) (map_of (ds_opened S)) (set (ds_closing S)) V"
    using assms(2) by (rule syncedE)
  obtain d where "map_of (ds_opened S) k = Some d" using assms(3) by auto
  then have "V (key_uri E k) \<noteq> None" using agree_doc [OF V(2)] by (metis option.distinct(1))
  moreover have "docs_agree E (0 < n) (map_of (ds_opened S)) (set (ds_closing S)) V"
    by (rule agree_any) (use V(2) Suc in simp)
  ultimately show ?thesis using Suc V(1) synced_shape [OF assms(2)]
    by (intro syncedI [where V = V]) (simp_all add: send_note_def replay_snoc)
qed

lemma synced_put:
  assumes "good_env E" "synced E S" "rel_plain k" "k \<notin> set (ds_closing S)" "ds_left S = Suc n"
    and "sy_hash E t = od_hash d"
    and "map_of (ds_opened S) k = None \<Longrightarrow> length (ds_opened S) < max_open_docs"
    and "m = (case map_of (ds_opened S) k of
                None \<Rightarrow> DidOpen (key_uri E k) lang (od_version d) t
              | Some e \<Rightarrow> DidChange (key_uri E k) (od_version d) t)"
    and "\<And>e. map_of (ds_opened S) k = Some e \<Longrightarrow> od_version d = od_version e + 1"
  shows "synced E (S\<lparr>ds_left := n, ds_sent := ds_sent S @ [m], ds_opened := AList.update k d (ds_opened S)\<rparr>)
    \<and> (\<exists>V. replay (ds_sent S @ [m]) Map.empty = Some V \<and> V (key_uri E k) = Some (od_version d, t))"
proof -
  obtain V where V: "replay (ds_sent S) Map.empty = Some V"
    "docs_agree E (0 < ds_left S) (map_of (ds_opened S)) (set (ds_closing S)) V"
    using assms(2) by (rule syncedE)
  have a: "docs_agree E True (map_of (ds_opened S)) (set (ds_closing S)) V" using V(2) assms(5) by simp
  have m: "take_note m V = Some (V(key_uri E k \<mapsto> (od_version d, t)))"
  proof (cases "map_of (ds_opened S) k")
    case None
    from agree_closed [OF assms(1) a assms(3,4) this] None assms(8) show ?thesis by simp
  next
    case (Some e)
    from agree_doc [OF a Some] obtain s where "V (key_uri E k) = Some (od_version e, s)" by blast
    with assms(8,9) Some show ?thesis by simp
  qed
  have "docs_agree E (0 < n) ((map_of (ds_opened S))(k \<mapsto> d)) (set (ds_closing S)) (V(key_uri E k \<mapsto> (od_version d, t)))"
    by (rule agree_any [OF agree_put [OF assms(1) a assms(3,4,6)]])
  then show ?thesis using V(1) m synced_shape [OF assms(2)] assms(7)
    by (intro conjI syncedI [where V = "V(key_uri E k \<mapsto> (od_version d, t))"] exI [of _ "V(key_uri E k \<mapsto> (od_version d, t))"])
      (simp_all add: replay_snoc doc_maps Suc_le_eq)
qed

lemma sync_text_ok:
  assumes "good_env E" "synced E S" "rel_plain (as_str p)" "as_str p \<notin> set (ds_closing S)"
  shows "synced E (snd (sync_text E p text S))
    \<and> (fst (sync_text E p text S) = Inr () \<longrightarrow> holds_text E p text (snd (sync_text E p text S)))"
proof -
  let ?k = "as_str p" and ?h = "sy_hash E text"
  define S1 where "S1 = (if map_of (ds_opened S) ?k = None \<and> max_open_docs \<le> length (ds_opened S) then close_oldest E S else S)"
  define S2 where "S2 = S1\<lparr>ds_tick := ds_tick S1 + 1, ds_opened := touch_doc ?k (ds_tick S1) (ds_opened S1)\<rparr>"
  have uri: "file_uri E p = key_uri E ?k" by simp
  have full: "max_open_docs \<le> length (ds_opened S) \<Longrightarrow> ds_opened S \<noteq> []" by (auto simp: max_open_docs_def)
  have s1: "synced E S1" "ds_closing S1 = ds_closing S"
    using synced_close_oldest [OF assms(1,2)] assms(2) full by (auto simp: S1_def)
  have room1: "map_of (ds_opened S1) ?k = None \<Longrightarrow> length (ds_opened S1) < max_open_docs"
    using synced_close_oldest [OF assms(1,2)] synced_shape(3) [OF assms(2)] full
    by (fastforce simp: S1_def not_le split: if_splits)
  have s2: "synced E S2" unfolding S2_def by (rule synced_touch [OF s1(1)])
  have closing: "?k \<notin> set (ds_closing S2)" using assms(4) s1(2) by (simp add: S2_def)
  have room: "map_of (ds_opened S2) ?k = None \<Longrightarrow> length (ds_opened S2) < max_open_docs"
    using room1 by (auto simp: S2_def touch_doc_def doc_maps split: option.splits)
  have sent: "sync_text E p text S =
     (case map_of (ds_opened S2) ?k of
        Some doc \<Rightarrow>
          if od_hash doc = ?h then (Inr (), S2)
          else (let version = od_version doc + 1
                in case send_note (DidChange (file_uri E p) version text) S2 of
                     (Inl e, S3) \<Rightarrow> (Inl e, S3)
                   | (Inr _, S3) \<Rightarrow>
                       (Inr (), snd (send_note (DidSave (file_uri E p))
                          (S3\<lparr>ds_opened := AList.update ?k \<lparr>od_version = version, od_hash = ?h, od_last_used = ds_tick S1\<rparr>
                                            (ds_opened S3)\<rparr>))))
      | None \<Rightarrow>
          (case send_note (DidOpen (file_uri E p) (language_id (sy_language E)) 1 text) S2 of
             (Inl e, S3) \<Rightarrow> (Inl e, S3)
           | (Inr _, S3) \<Rightarrow>
               (Inr (), S3\<lparr>ds_opened := AList.update ?k \<lparr>od_version = 1, od_hash = ?h, od_last_used = ds_tick S1\<rparr>
                                          (ds_opened S3)\<rparr>)))"
    unfolding sync_text_def S1_def S2_def Let_def ..
  show ?thesis
  proof (cases "map_of (ds_opened S2) ?k")
    case None
    let ?d = "\<lparr>od_version = 1 :: i64, od_hash = ?h, od_last_used = ds_tick S1\<rparr>"
    show ?thesis
    proof (cases "ds_left S2")
      case 0
      then show ?thesis using s2 by (simp add: sent None send_note_def)
    next
      case (Suc n)
      have "synced E (S2\<lparr>ds_left := n, ds_sent := ds_sent S2 @ [DidOpen (key_uri E ?k) (language_id (sy_language E)) 1 text],
            ds_opened := AList.update ?k ?d (ds_opened S2)\<rparr>)
        \<and> (\<exists>V. replay (ds_sent S2 @ [DidOpen (key_uri E ?k) (language_id (sy_language E)) 1 text]) Map.empty = Some V
            \<and> V (key_uri E ?k) = Some (od_version ?d, text))"
        by (rule synced_put [OF assms(1) s2 assms(3) closing Suc]) (use None room in simp_all)
      then show ?thesis using Suc by (simp add: sent None send_note_def holds_text_def) blast
    qed
  next
    case (Some doc)
    let ?d = "\<lparr>od_version = od_version doc + 1, od_hash = ?h, od_last_used = ds_tick S1\<rparr>"
    show ?thesis
    proof (cases "od_hash doc = ?h")
      case True
      obtain V where V: "replay (ds_sent S2) Map.empty = Some V"
        "docs_agree E (0 < ds_left S2) (map_of (ds_opened S2)) (set (ds_closing S2)) V"
        using s2 by (rule syncedE)
      have "holds_text E p text S2"
        using agree_doc [OF V(2) Some] V(1) True unfolding holds_text_def by (metis uri)
      then show ?thesis using s2 True by (simp add: sent Some)
    next
      case False
      show ?thesis
      proof (cases "ds_left S2")
        case 0
        then show ?thesis using s2 False by (simp add: sent Some send_note_def)
      next
        case (Suc n)
        let ?m = "DidChange (key_uri E ?k) (od_version doc + 1) text"
        let ?S3 = "S2\<lparr>ds_left := n, ds_sent := ds_sent S2 @ [?m], ds_opened := AList.update ?k ?d (ds_opened S2)\<rparr>"
        have s3: "synced E ?S3 \<and> (\<exists>V. replay (ds_sent S2 @ [?m]) Map.empty = Some V \<and> V (key_uri E ?k) = Some (od_version ?d, text))"
          by (rule synced_put [OF assms(1) s2 assms(3) closing Suc]) (use Some in simp_all)
        have s4: "synced E (snd (send_note (DidSave (key_uri E ?k)) ?S3))"
          by (rule synced_save [OF assms(1) s3 [THEN conjunct1]]) (simp add: doc_maps)
        have "holds_text E p text (snd (send_note (DidSave (key_uri E ?k)) ?S3))"
        proof (cases n)
          case 0
          then show ?thesis using s3 by (simp add: send_note_def holds_text_def) blast
        next
          case (Suc n')
          obtain V where V: "replay (ds_sent S2 @ [?m]) Map.empty = Some V"
            "V (key_uri E ?k) = Some (od_version ?d, text)" using s3 by blast
          have "replay ((ds_sent S2 @ [?m]) @ [DidSave (key_uri E ?k)]) Map.empty = Some V"
            unfolding replay_snoc [of "ds_sent S2 @ [?m]"] using V by simp
          then show ?thesis using Suc V(2) by (simp add: send_note_def holds_text_def)
        qed
        with s4 show ?thesis using Suc False by (cases n) (simp_all add: sent Some send_note_def Let_def)
      qed
    qed
  qed
qed

lemma ensure_open_ok:
  assumes "good_env E" "synced E S" "rel_plain (as_str p)" "as_str p \<notin> set (ds_closing S)"
  shows "synced E (snd (ensure_open E p content S))"
proof (cases content)
  case (Inl err)
  show ?thesis
  proof (cases "map_of (ds_opened S) (as_str p)")
    case None
    then show ?thesis using assms(2) by (simp add: ensure_open_def Inl)
  next
    case (Some d)
    from synced_close_key [OF assms(1,2) Some] Some show ?thesis by (simp add: ensure_open_def Inl)
  qed
next
  case (Inr bytes)
  then show ?thesis using sync_text_ok [OF assms] by (simp add: ensure_open_def)
qed

text \<open>Opened and closed at once: the server ends as it was.\<close>

lemma announce_created_ok:
  assumes "good_env E" "synced E S" "rel_plain (as_str p)" "as_str p \<notin> set (ds_closing S)"
  shows "synced E (snd (announce_created E p meta content S))"
proof -
  have dead: "synced E S" by (rule assms(2))
  have "synced E (snd (case send_note (DidOpen (file_uri E p) lang 1 t) S of
            (Inl _, S1) \<Rightarrow> (False, S1)
          | (Inr _, S1) \<Rightarrow> (True, snd (send_note (DidClose (file_uri E p)) S1))))"
    if none: "map_of (ds_opened S) (as_str p) = None" for lang t
  proof (cases "ds_left S")
    case 0
    then show ?thesis using assms(2) by (simp add: send_note_def)
  next
    case (Suc n)
    let ?o = "DidOpen (key_uri E (as_str p)) lang 1 t" and ?c = "DidClose (key_uri E (as_str p))"
    obtain V where V: "replay (ds_sent S) Map.empty = Some V"
      "docs_agree E (0 < ds_left S) (map_of (ds_opened S)) (set (ds_closing S)) V"
      using assms(2) by (rule syncedE)
    have a: "docs_agree E True (map_of (ds_opened S)) (set (ds_closing S)) V" using V(2) Suc by simp
    have free: "V (key_uri E (as_str p)) = None" by (rule agree_closed [OF assms(1) a assms(3,4) none])
    have o: "replay (ds_sent S @ [?o]) Map.empty = Some (V(key_uri E (as_str p) \<mapsto> (1, t)))"
      using V(1) free by (simp add: replay_snoc)
    note shape = synced_shape [OF assms(2)]
    show ?thesis
    proof (cases n)
      case 0
      have "docs_agree E False (map_of (ds_opened S)) (set (ds_closing S)) (V(key_uri E (as_str p) \<mapsto> (1, t)))"
      proof (rule agreeI)
        fix k d assume k: "map_of (ds_opened S) k = Some d"
        have "V (key_uri E k) \<noteq> None" using agree_doc [OF a k] by (metis option.distinct(1))
        then have "key_uri E k \<noteq> key_uri E (as_str p)" using free by (metis)
        with agree_doc [OF a k]
        show "rel_plain k \<and> k \<notin> set (ds_closing S) \<and> (\<exists>s. (V(key_uri E (as_str p) \<mapsto> (1, t))) (key_uri E k) = Some (od_version d, s)
            \<and> sy_hash E s = od_hash d)" by simp
      qed (use agree_plain [OF a] in blast)+
      with Suc 0 o shape show ?thesis
        by (intro syncedI [where V = "V(key_uri E (as_str p) \<mapsto> (1, t))"]) (simp_all add: send_note_def)
    next
      case (Suc n')
      have "replay ((ds_sent S @ [?o]) @ [?c]) Map.empty = Some V"
        unfolding replay_snoc [of "ds_sent S @ [?o]"] using o free by (auto simp: fun_upd_idem)
      moreover have "docs_agree E (0 < n') (map_of (ds_opened S)) (set (ds_closing S)) V" by (rule agree_any [OF a])
      ultimately show ?thesis using \<open>ds_left S = Suc n\<close> Suc shape
        by (intro syncedI [where V = V]) (simp_all add: send_note_def)
    qed
  qed
  then show ?thesis using dead unfolding announce_created_def
    by (simp split: option.split sum.split)
qed

lemma take_doc_ok:
  assumes "synced E S"
  shows "synced E (snd (take_doc p S))"
proof (cases "map_of (ds_opened S) (as_str p)")
  case None
  then show ?thesis using assms by (simp add: take_doc_def)
next
  case (Some d)
  obtain V where V: "replay (ds_sent S) Map.empty = Some V"
    "docs_agree E (0 < ds_left S) (map_of (ds_opened S)) (set (ds_closing S)) V"
    using assms by (rule syncedE)
  have "as_str p \<notin> set (ds_closing S)" using synced_plain_key [OF assms Some] by blast
  with V(1) agree_take [OF V(2) Some] Some synced_shape [OF assms] length_delete_le [of "as_str p" "ds_opened S"]
  show ?thesis by (intro syncedI [where V = V]) (simp_all add: take_doc_def doc_maps)
qed

lemma send_close_ok:
  assumes "good_env E" "synced E S" "as_str p \<in> set (ds_closing S)"
  shows "synced E (send_close E p S)"
proof -
  let ?k = "as_str p"
  obtain V where V: "replay (ds_sent S) Map.empty = Some V"
    "docs_agree E (0 < ds_left S) (map_of (ds_opened S)) (set (ds_closing S)) V"
    using assms(2) by (rule syncedE)
  note shape = synced_shape [OF assms(2)]
  have rest: "set (remove1 ?k (ds_closing S)) = set (ds_closing S) - {?k}" using shape(2) by simp
  show ?thesis
  proof (cases "ds_left S")
    case 0
    have "map_of (ds_opened S) ?k = None"
      using agree_doc [OF V(2), of ?k] assms(3) by (cases "map_of (ds_opened S) ?k") auto
    then have "docs_agree E False (map_of (ds_opened S)) (set (ds_closing S) - {?k}) V"
      using agree_fewer [OF V(2), of ?k "{?k}"] by (simp add: fun_upd_idem)
    with 0 V(1) shape rest show ?thesis
      by (intro syncedI [where V = V]) (simp_all add: send_close_def send_note_def)
  next
    case (Suc n)
    then have a: "docs_agree E True (map_of (ds_opened S)) (set (ds_closing S)) V" using V(2) by simp
    note c = agree_closing [OF a assms(3)] agree_any [OF agree_send_close [OF assms(1) a assms(3)], of "0 < n"]
    with Suc V(1) shape rest show ?thesis
      by (intro syncedI [where V = "V(key_uri E ?k := None)"]) (simp_all add: send_close_def send_note_def replay_snoc)
  qed
qed

lemma watched_ok:
  assumes "synced E S"
  shows "synced E (snd (send_note (DidChangeWatchedFiles es) S))"
proof (cases "ds_left S")
  case 0
  with assms show ?thesis by (simp add: send_note_def)
next
  case (Suc n)
  obtain V where V: "replay (ds_sent S) Map.empty = Some V"
    "docs_agree E (0 < ds_left S) (map_of (ds_opened S)) (set (ds_closing S)) V"
    using assms by (rule syncedE)
  have "docs_agree E (0 < n) (map_of (ds_opened S)) (set (ds_closing S)) V"
    by (rule agree_any) (use V(2) Suc in simp)
  with Suc V(1) synced_shape [OF assms] show ?thesis
    by (intro syncedI [where V = V]) (simp_all add: send_note_def replay_snoc)
qed

lemma reach_synced:
  assumes "sync_reach True E n S" "good_env E"
  shows "synced E S"
  using assms(1)
proof induction
  case reach_new
  show ?case
    by (rule syncedI [where V = Map.empty]) (simp_all add: docs_new_def docs_agree_def)
next
  case (reach_ensure S p content)
  then show ?case using ensure_open_ok [OF assms(2)] by blast
next
  case (reach_announce S p meta content)
  then show ?case using announce_created_ok [OF assms(2)] by blast
next
  case (reach_watched S es)
  then show ?case using watched_ok by blast
next
  case (reach_take S p)
  then show ?case using take_doc_ok by blast
next
  case (reach_send S p)
  then show ?case using send_close_ok [OF assms(2)] by blast
qed

text \<open>A batch of changes handled by one thread is such an interleaving, with every close sent at once.\<close>

lemma close_if_open_reach:
  assumes "sync_reach calm E n S" "ds_closing S = []"
  shows "sync_reach calm E n (close_if_open E p S) \<and> ds_closing (close_if_open E p S) = []"
proof (cases "map_of (ds_opened S) (as_str p)")
  case None
  then show ?thesis using assms by (simp add: close_if_open_def take_doc_def)
next
  case (Some d)
  let ?S = "snd (take_doc p S)"
  have s: "?S = S\<lparr>ds_opened := AList.delete (as_str p) (ds_opened S), ds_closing := [as_str p]\<rparr>" "fst (take_doc p S)"
    using Some assms(2) by (simp_all add: take_doc_def)
  have "sync_reach calm E n (send_close E p ?S)"
    by (rule sync_reach.reach_send [OF sync_reach.reach_take [OF assms(1)]]) (simp add: s(1))
  moreover have "close_if_open E p S = send_close E p ?S"
    using Some by (simp add: close_if_open_def take_doc_def)
  ultimately show ?thesis by (simp add: s(1) send_close_def send_note_same)
qed

lemma sync_text_closing: "ds_closing (snd (sync_text E p text S)) = ds_closing S"
proof -
  have old: "ds_closing (close_oldest E S) = ds_closing S"
    by (simp add: close_oldest_def send_note_same split: option.split)
  show ?thesis
    by (auto simp: sync_text_def Let_def old send_note_same send_note_def split: option.split nat.split)
qed

lemma ensure_open_closing: "ds_closing (snd (ensure_open E p content S)) = ds_closing S"
  by (simp add: ensure_open_def sync_text_closing send_note_same split: sum.split)

lemma announce_closing: "ds_closing (snd (announce_created E p meta content S)) = ds_closing S"
  by (auto simp: announce_created_def send_note_def split: option.split sum.split nat.split)

lemma change_doc_reach:
  assumes "sync_reach calm E n S" "ds_closing S = []" "rel_plain (as_str (fst change))"
  shows "sync_reach calm E n (snd (change_doc E meta content change (k, S)))
    \<and> ds_closing (snd (change_doc E meta content change (k, S))) = []"
proof (cases change)
  case (Pair p kind)
  have plain: "rel_plain (as_str p)" "calm \<longrightarrow> as_str p \<notin> set (ds_closing S)" using assms(2,3) Pair by simp_all
  show ?thesis
    using close_if_open_reach [OF assms(1,2), of p] sync_reach.reach_ensure [OF assms(1) plain, of "content p"]
      sync_reach.reach_announce [OF assms(1) plain, of "meta p" "content p"] assms(1,2)
    by (simp add: change_doc_def Pair ensure_open_closing announce_closing Let_def split_def)
qed

lemma files_changed_reach:
  assumes "sync_reach calm E n S" "ds_closing S = []" "\<forall>(p, kind)\<in>set changes. rel_plain (as_str p)"
  shows "sync_reach calm E n (files_changed E meta content changes S)
    \<and> ds_closing (files_changed E meta content changes S) = []"
proof -
  have batches: "sync_reach calm E n (fold (\<lambda>batch S. snd (send_note (DidChangeWatchedFiles batch) S)) bs S')
      \<and> ds_closing (fold (\<lambda>batch S. snd (send_note (DidChangeWatchedFiles batch) S)) bs S') = []"
    if "sync_reach calm E n S'" "ds_closing S' = []" for bs S'
    using that by (induction bs arbitrary: S') (simp_all add: sync_reach.reach_watched send_note_same)
  have all: "sync_reach calm E n (snd (fold (change_doc E meta content) cs (k, S')))
      \<and> ds_closing (snd (fold (change_doc E meta content) cs (k, S'))) = []"
    if "sync_reach calm E n S'" "ds_closing S' = []" "\<forall>(p, kind)\<in>set cs. rel_plain (as_str p)" for cs k S'
    using that
  proof (induction cs arbitrary: k S')
    case (Cons c cs)
    have "rel_plain (as_str (fst c))" using Cons.prems(3) by auto
    from change_doc_reach [OF Cons.prems(1,2) this, of meta content k] Cons.prems(3) Cons.IH show ?case
      by (cases "change_doc E meta content c (k, S')") auto
  qed simp
  show ?thesis
    using assms(1,2) all [OF _ _ assms(3)] batches [OF assms(1,2)] by (simp add: files_changed_def Let_def)
qed

section \<open>Published diagnostics\<close>

text \<open>\<open>snap\<close> is the map of published diagnostics as \<open>published_diagnostics\<close> copied it, in the order its keys are
  met; \<open>versions\<close> is looked up afterwards, \<open>convert\<close> is \<open>diagnostic_from_lsp\<close>.\<close>

definition push_diagnostics ::
  "(string \<Rightarrow> string) \<Rightarrow> (string \<Rightarrow> string option) \<Rightarrow> (rel_path \<Rightarrow> 'd \<Rightarrow> 'e) \<Rightarrow> 'h sync_env \<Rightarrow> rel_path
     \<Rightarrow> (string \<times> 'd list) list \<Rightarrow> (string \<Rightarrow> int option) \<Rightarrow> 'h docs \<Rightarrow> 'e list" where
  "push_diagnostics lossy canonical convert E p snap versions S =
     (let uri = file_uri E p;
          key = (if map_of snap uri \<noteq> None then Some uri
                 else map_option fst (find (\<lambda>(k, _). uri_to_rel lossy canonical k (sy_root E) = Some p) snap))
      in case key of
           None \<Rightarrow> []
         | Some k \<Rightarrow>
             if (case (versions k, open_version p S) of
                   (Some published, Some current) \<Rightarrow> published < sint current
                 | _ \<Rightarrow> False)
             then []
             else (case map_of snap k of None \<Rightarrow> [] | Some items \<Rightarrow> map (convert p) items))"

text \<open>\<open>LspSession::diagnostics\<close>: \<open>answer\<close> is the reply to the pull request, \<open>pushed\<close> what \<open>push_diagnostics\<close> gives
  afterwards.\<close>

definition pull_unsupported :: string where
  "pull_unsupported = ''pull diagnostic unsupported and push diagnostics empty''"

definition session_diagnostics ::
  "('v \<Rightarrow> rel_path \<Rightarrow> 'e list) \<Rightarrow> 'h sync_env \<Rightarrow> rel_path \<Rightarrow> string + string \<Rightarrow> lsp_error + 'v \<Rightarrow> ('h docs \<Rightarrow> 'e list)
     \<Rightarrow> 'h docs \<Rightarrow> (lsp_error + 'e list) \<times> 'h docs" where
  "session_diagnostics from_pull E p content answer pushed S =
     (case ensure_open E p content S of
        (Inl e, S1) \<Rightarrow> (Inl e, S1)
      | (Inr _, S1) \<Rightarrow>
          (case answer of
             Inr v \<Rightarrow> Inr (from_pull v p)
           | Inl (Protocol _) \<Rightarrow> (if pushed S1 = [] then Inl (Protocol pull_unsupported) else Inr (pushed S1))
           | Inl (TimeoutErr t) \<Rightarrow> (if pushed S1 = [] then Inl (TimeoutErr t) else Inr (pushed S1))
           | Inl e \<Rightarrow> Inl e, S1))"

text \<open>The version is read after the items were copied: a publication in between lends its version to the
  items of the one before.\<close>

lemma push_version_race:
  assumes "np_diagnostics q = Some (file_uri E p, Some (sint v), new)" and "open_version p S = Some v"
    and "map_of snap (file_uri E p) = Some old"
  shows "push_diagnostics lossy canonical convert E p snap (tr_versions (publish_diagnostics q T)) S = map (convert p) old"
  using assms by (simp add: push_diagnostics_def publish_diagnostics_def)

section \<open>Properties\<close>

text \<open>C4: The server's documents are the session's: in every interleaving in which no document is synced again
  while a thread still has to send its \<open>didClose\<close>, the notifications follow the protocol (nothing is opened
  twice, nothing is changed, saved or closed that is not open, versions count up by one), the server has each
  open document in the session's version with the text of the session's hash, at most 512 of them, and while
  it lives and no close is under way it has no other document open.\<close>

theorem open_documents_in_sync:
  assumes "sync_reach True E n S" and "good_env E"
  shows "\<exists>V. replay (ds_sent S) Map.empty = Some V \<and> length (ds_opened S) \<le> max_open_docs
    \<and> (\<forall>k d. map_of (ds_opened S) k = Some d \<longrightarrow>
          (\<exists>t. V (key_uri E k) = Some (od_version d, t) \<and> sy_hash E t = od_hash d))
    \<and> (0 < ds_left S \<and> ds_closing S = [] \<longrightarrow> dom V = key_uri E ` dom (map_of (ds_opened S)))"
proof -
  have ok: "synced E S" by (rule reach_synced [OF assms])
  obtain V where V: "replay (ds_sent S) Map.empty = Some V"
    "docs_agree E (0 < ds_left S) (map_of (ds_opened S)) (set (ds_closing S)) V"
    using ok by (rule syncedE)
  have "dom V = key_uri E ` dom (map_of (ds_opened S))" if l: "0 < ds_left S" "ds_closing S = []"
  proof (intro equalityI subsetI)
    have a: "docs_agree E True (map_of (ds_opened S)) {} V" using V(2) l by simp
    show "u \<in> key_uri E ` dom (map_of (ds_opened S))" if "u \<in> dom V" for u
    proof -
      have "V u \<noteq> None" using that by blast
      from agree_server [OF a this] show ?thesis by blast
    qed
    show "u \<in> dom V" if "u \<in> key_uri E ` dom (map_of (ds_opened S))" for u
      using that agree_doc [OF a] by blast
  qed
  then have "0 < ds_left S \<and> ds_closing S = [] \<longrightarrow> dom V = key_uri E ` dom (map_of (ds_opened S))" by blast
  moreover have "\<forall>k d. map_of (ds_opened S) k = Some d \<longrightarrow>
      (\<exists>t. V (key_uri E k) = Some (od_version d, t) \<and> sy_hash E t = od_hash d)"
    using agree_doc [OF V(2)] by blast
  ultimately show ?thesis using V(1) synced_shape(3) [OF ok] by (intro exI [of _ V] conjI)
qed

definition demo_sync_env :: "string sync_env" where
  "demo_sync_env = \<lparr>sy_root = ''/w'', sy_cwd = ''/'', sy_language = Rust, sy_decode = (\<lambda>s. s), sy_hash = (\<lambda>s. s)\<rparr>"

lemma demo_env_good: "good_env demo_sync_env"
  by (simp add: good_env_def demo_sync_env_def is_absolute_def)

definition demo_file :: rel_path where "demo_file = RelPath ''a.rs''"

lemma demo_file_plain: "rel_plain (as_str demo_file)"
  unfolding demo_file_def by code_simp

definition demo_open :: "string docs" where
  "demo_open = snd (ensure_open demo_sync_env demo_file (Inr ''fn'') (docs_new 9))"

lemma demo_open_reach: "sync_reach calm demo_sync_env 9 demo_open"
  unfolding demo_open_def
  by (rule sync_reach.reach_ensure [OF sync_reach.reach_new demo_file_plain]) (simp add: docs_new_def)

theorem open_documents_in_sync_witness:
  "\<exists>V. replay (ds_sent demo_open) Map.empty = Some V \<and> dom V = key_uri demo_sync_env ` dom (map_of (ds_opened demo_open))"
proof -
  have "0 < ds_left demo_open \<and> ds_closing demo_open = []"
    by (simp add: demo_open_def ensure_open_def sync_text_def docs_new_def Let_def touch_doc_def send_note_def max_open_docs_def)
  then show ?thesis using open_documents_in_sync [OF demo_open_reach demo_env_good] by blast
qed



text \<open>C32: \<open>close_if_open\<close> releases the lock before it sends \<open>didClose\<close>.  When a query opens the file again in
  between, the server is told to open it twice and then to close it: the session takes the document for open,
  the server has closed it, and every later query on the unchanged file succeeds without telling the server
  anything.\<close>

theorem close_overtakes_reopen:
  assumes "rel_plain (as_str p)" and "3 < n"
  shows "\<exists>S. sync_reach False E n S \<and> 0 < ds_left S \<and> ds_closing S = []
    \<and> open_version p S = Some 1
    \<and> map note_uri (ds_sent S) = [file_uri E p, file_uri E p, file_uri E p]
    \<and> last (ds_sent S) = DidClose (file_uri E p)
    \<and> replay (ds_sent S) Map.empty = None
    \<and> fst (ensure_open E p (Inr bytes) S) = Inr () \<and> ds_sent (snd (ensure_open E p (Inr bytes) S)) = ds_sent S"
proof -
  define S1 where "S1 = snd (ensure_open E p (Inr bytes) (docs_new n))"
  define S2 where "S2 = snd (take_doc p S1)"
  define S3 where "S3 = snd (ensure_open E p (Inr bytes) S2)"
  let ?o = "DidOpen (file_uri E p) (language_id (sy_language E)) 1 (sy_decode E bytes)"
  let ?d = "\<lambda>t. [(as_str p, \<lparr>od_version = 1, od_hash = sy_hash E (sy_decode E bytes), od_last_used = t\<rparr>)]"
  obtain m where m: "n = Suc (Suc (Suc m))" "0 < m" using assms(2) by (metis Suc_lessE numeral_3_eq_3 zero_less_Suc gr0_implies_Suc)
  have s1: "S1 = \<lparr>ds_opened = ?d 0, ds_tick = 1, ds_left = Suc (Suc m), ds_sent = [?o], ds_closing = []\<rparr>"
    by (simp add: S1_def ensure_open_def sync_text_def docs_new_def Let_def touch_doc_def send_note_def max_open_docs_def m)
  have s2: "S2 = \<lparr>ds_opened = [], ds_tick = 1, ds_left = Suc (Suc m), ds_sent = [?o], ds_closing = [as_str p]\<rparr>"
    by (simp add: S2_def s1 take_doc_def AList.delete_eq)
  have s3: "S3 = \<lparr>ds_opened = ?d 1, ds_tick = 2, ds_left = Suc m, ds_sent = [?o, ?o], ds_closing = [as_str p]\<rparr>"
    by (simp add: S3_def s2 ensure_open_def sync_text_def Let_def touch_doc_def send_note_def max_open_docs_def)
  have s4: "send_close E p S3 = \<lparr>ds_opened = ?d 1, ds_tick = 2, ds_left = m, ds_sent = [?o, ?o, DidClose (file_uri E p)],
      ds_closing = []\<rparr>"
    by (simp add: s3 send_close_def send_note_def)
  have "sync_reach False E n S1"
    unfolding S1_def by (rule sync_reach.reach_ensure [OF sync_reach.reach_new assms(1)]) simp
  then have "sync_reach False E n S2" unfolding S2_def by (rule sync_reach.reach_take)
  then have "sync_reach False E n S3"
    unfolding S3_def by (rule sync_reach.reach_ensure [OF _ assms(1)]) simp
  then have "sync_reach False E n (send_close E p S3)"
    by (rule sync_reach.reach_send) (simp add: s3)
  then show ?thesis
    by (rule exI [of _ "send_close E p S3", OF conjI])
      (simp add: s4 m open_version_def ensure_open_def sync_text_def Let_def touch_doc_def max_open_docs_def)
qed

theorem close_overtakes_reopen_witness:
  "\<exists>S. sync_reach False demo_sync_env 9 S \<and> open_version demo_file S = Some 1 \<and> last (ds_sent S) = DidClose (file_uri demo_sync_env demo_file)"
  using close_overtakes_reopen [OF demo_file_plain, of 9 demo_sync_env "[]"] by auto

end
