(* ===== verification/TextSearch.thy ===== *)
theory TextSearch
  imports GraphData
begin

text \<open>
  Searching the text of files for a name: \<open>astrolabe-core/src/lsp/fallback.rs\<close>, the answer when a language
  server gives none, and the part of \<open>lsp/anchor.rs\<close> that works on text (columns in UTF-16 units, the
  line scan for files without a grammar).  Reading files, the directory walk, the clock and the code mask
  of a tree-sitter parse are arguments.
\<close>

section \<open>Positions and answers\<close>

text \<open>Line and UTF-16 column, both from zero; a range is its ends, a location a file and a range.  The derived
  orders are those of the pairs.\<close>

type_synonym position = "u32 \<times> u32"
type_synonym range = "position \<times> position"
type_synonym location = "rel_path \<times> range"

record 'a precise =
  pr_value :: 'a
  pr_confidence :: confidence
  pr_note :: "string option"

definition precise_exact :: "'a \<Rightarrow> 'a precise" where
  "precise_exact v = \<lparr>pr_value = v, pr_confidence = Exact, pr_note = None\<rparr>"

definition precise_unknown :: "'a \<Rightarrow> string \<Rightarrow> 'a precise" where
  "precise_unknown v note = \<lparr>pr_value = v, pr_confidence = Unknown, pr_note = Some note\<rparr>"

definition utf16_len :: "string \<Rightarrow> nat" where
  "utf16_len c = (if length c = 4 then 2 else 1)"

definition utf16_count :: "string \<Rightarrow> nat" where
  "utf16_count s = sum_list (map utf16_len (utf8_chars s))"

section \<open>Identifiers under a cursor\<close>

definition is_name_char :: "unicode \<Rightarrow> string \<Rightarrow> bool" where
  "is_name_char U c \<longleftrightarrow> char_alnum U c \<or> c = ''_'' \<or> c = ''$''"

text \<open>The index of the first character at or after a UTF-16 column; the number of characters if there is none.\<close>

fun char_index :: "string list \<Rightarrow> nat \<Rightarrow> nat \<Rightarrow> nat \<Rightarrow> nat" where
  "char_index [] utf16 character i = i"
| "char_index (c # cs) utf16 character i =
     (if character \<le> utf16 then i else char_index cs (utf16 + utf16_len c) character (Suc i))"

definition ident_around :: "unicode \<Rightarrow> string list \<Rightarrow> nat \<Rightarrow> string option" where
  "ident_around U chars i =
     (if length chars \<le> i \<or> \<not> is_name_char U (chars ! i) then None
      else (let start = i - length (takeWhile (is_name_char U) (rev (take i chars)));
                end' = i + length (takeWhile (is_name_char U) (drop i chars))
            in Some (concat (take (end' - start) (drop start chars)))))"

definition identifier_at :: "unicode \<Rightarrow> (rel_path \<Rightarrow> string option) \<Rightarrow> rel_path \<Rightarrow> position \<Rightarrow> string option" where
  "identifier_at U read path pos =
     (case read path of
        None \<Rightarrow> None
      | Some source \<Rightarrow>
          (let ls = split_on (CHR 0x0A) source
           in if length ls \<le> unat (fst pos) then None
              else (let chars = utf8_chars (strip_cr (ls ! unat (fst pos)))
                    in ident_around U chars (char_index chars 0 (unat (snd pos)) 0))))"

section \<open>Occurrences in a line\<close>

definition before_ok :: "(string \<Rightarrow> bool) \<Rightarrow> string \<Rightarrow> nat \<Rightarrow> bool" where
  "before_ok ident line i \<longleftrightarrow> (let cs = utf8_chars (take i line) in cs = [] \<or> \<not> ident (last cs))"

definition after_ok :: "(string \<Rightarrow> bool) \<Rightarrow> string \<Rightarrow> nat \<Rightarrow> bool" where
  "after_ok ident line i \<longleftrightarrow> (let cs = utf8_chars (drop i line) in cs = [] \<or> \<not> ident (hd cs))"

definition column_at :: "string \<Rightarrow> nat \<Rightarrow> u32" where
  "column_at line i = of_nat (utf16_count (take i line))"

definition word_columns :: "unicode \<Rightarrow> string \<Rightarrow> string \<Rightarrow> u32 list" where
  "word_columns U line name =
     (if name = [] then []
      else map (column_at line)
             (filter (\<lambda>i. before_ok (is_name_char U) line i \<and> after_ok (is_name_char U) line (i + length name))
                (match_indices line name 0)))"

text \<open>The names of \<open>anchor.rs\<close> have no dollar sign.\<close>

definition is_ident_char :: "unicode \<Rightarrow> string \<Rightarrow> bool" where
  "is_ident_char U c \<longleftrightarrow> char_alnum U c \<or> c = ''_''"

text \<open>The matches of an empty pattern are the character boundaries.\<close>

definition char_starts :: "string \<Rightarrow> nat list" where
  "char_starts s = map (\<lambda>k. length (concat (take k (utf8_chars s)))) [0..<Suc (length (utf8_chars s))]"

definition identifier_column :: "unicode \<Rightarrow> string \<Rightarrow> string \<Rightarrow> u32 option" where
  "identifier_column U line name =
     map_option (column_at line)
       (find (\<lambda>i. before_ok (is_ident_char U) line i \<and> after_ok (is_ident_char U) line (i + length name))
          (if name = [] then char_starts line else match_indices line name 0))"

definition contains_identifier :: "unicode \<Rightarrow> string \<Rightarrow> string \<Rightarrow> bool" where
  "contains_identifier U s name \<longleftrightarrow> list_ex (\<lambda>l. identifier_column U l name \<noteq> None) (split_on (CHR 0x0A) s)"

text \<open>Where a name-based query points the server.\<close>

datatype anchor = Definitions "position list" | Usage position | OnlyInCommentsOrStrings | NotFound

definition max_definition_anchors :: nat where "max_definition_anchors = 8"

definition comment_openers :: "string list" where
  "comment_openers = [''//'', ''#'', ''/*'', ''*'', ''--'', [squote, squote, squote], [dquote, dquote, dquote]]"

fun locate_lines :: "unicode \<Rightarrow> string \<Rightarrow> string list \<Rightarrow> nat \<Rightarrow> bool \<Rightarrow> anchor" where
  "locate_lines U name [] n seen = (if seen then OnlyInCommentsOrStrings else NotFound)"
| "locate_lines U name (l # ls) n seen =
     (let line = strip_cr l
      in case identifier_column U line name of
           None \<Rightarrow> locate_lines U name ls (Suc n) seen
         | Some character \<Rightarrow>
             if list_ex (\<lambda>p. starts_with (trim_start line) p) comment_openers
             then locate_lines U name ls (Suc n) True
             else Usage (of_nat n, character))"

definition locate_textual :: "unicode \<Rightarrow> string \<Rightarrow> string \<Rightarrow> anchor" where
  "locate_textual U source name = locate_lines U name (split_on (CHR 0x0A) source) 0 False"

text \<open>\<open>tree\<close> is what \<open>locate_in_tree\<close> finds in a parse, \<open>None\<close> when the file has no grammar or does not parse.\<close>

definition locate :: "unicode \<Rightarrow> (rel_path \<Rightarrow> string \<Rightarrow> string \<Rightarrow> anchor option) \<Rightarrow> rel_path \<Rightarrow> string \<Rightarrow> string \<Rightarrow> anchor" where
  "locate U tree path source name =
     (if name = [] then NotFound
      else case tree path source name of Some a \<Rightarrow> a | None \<Rightarrow> locate_textual U source name)"

section \<open>The search over files\<close>

definition max_files :: nat where "max_files = 20000"
definition max_hits :: nat where "max_hits = 2000"

definition cannot_contain_name :: "string \<Rightarrow> string \<Rightarrow> bool" where
  "cannot_contain_name bytes name =
     (if \<not> is_ascii_str name \<or> name = [] then False
      else if starts_with bytes [CHR 0xFF, CHR 0xFE] \<or> starts_with bytes [CHR 0xFE, CHR 0xFF] then False
      else if CHR 0x00 \<in> set (take 512 bytes) then False
      else \<not> contains_sub bytes name)"

definition line_hits :: "unicode \<Rightarrow> string \<Rightarrow> rel_path \<Rightarrow> nat \<Rightarrow> string \<Rightarrow> location list" where
  "line_hits U name file n l =
     (let line = strip_cr l
      in map (\<lambda>column. (file, ((of_nat n, column), (of_nat n, column + of_nat (utf16_count name)))))
           (word_columns U line name))"

definition file_hits :: "unicode \<Rightarrow> string \<Rightarrow> rel_path \<Rightarrow> string \<Rightarrow> location list" where
  "file_hits U name file source =
     concat (map (\<lambda>(n, l). line_hits U name file n l)
       (zip [0..<length (split_on (CHR 0x0A) source)] (split_on (CHR 0x0A) source)))"

text \<open>\<open>code_at\<close> is \<open>anchor::code_mask\<close>; a file without one keeps all its hits.\<close>

definition masked_hits :: "bool \<Rightarrow> (rel_path \<Rightarrow> string \<Rightarrow> position list \<Rightarrow> bool list option) \<Rightarrow> rel_path \<Rightarrow> string
    \<Rightarrow> location list \<Rightarrow> location list" where
  "masked_hits code_only code_at file source hits =
     (if \<not> code_only \<or> hits = [] then hits
      else case code_at file source (map (\<lambda>(_, start, _). start) hits) of
             None \<Rightarrow> hits
           | Some keep \<Rightarrow> map fst (filter snd (zip hits (keep @ replicate (length hits - length keep) True))))"

text \<open>\<open>late n\<close> says that the time budget is used up when file \<open>n\<close> is reached.\<close>

fun search_files ::
  "unicode \<Rightarrow> string \<Rightarrow> bool \<Rightarrow> (rel_path \<Rightarrow> string \<Rightarrow> position list \<Rightarrow> bool list option) \<Rightarrow> (rel_path \<Rightarrow> string option)
     \<Rightarrow> (nat \<Rightarrow> bool) \<Rightarrow> nat \<Rightarrow> rel_path list \<Rightarrow> location list \<Rightarrow> location list \<times> bool" where
  "search_files U name code_only code_at read late n [] hits = (hits, False)"
| "search_files U name code_only code_at read late n (f # fs) hits =
     (if max_files \<le> n \<or> max_hits \<le> length hits \<or> late n then (hits, True)
      else case read f of
             None \<Rightarrow> search_files U name code_only code_at read late (Suc n) fs hits
           | Some source \<Rightarrow>
               if \<not> contains_sub source name then search_files U name code_only code_at read late (Suc n) fs hits
               else (let hits' = hits @ masked_hits code_only code_at f source (file_hits U name f source)
                     in if max_hits < length hits' then (take max_hits hits', True)
                        else search_files U name code_only code_at read late (Suc n) fs hits'))"

definition origin_first :: "rel_path \<Rightarrow> rel_path list \<Rightarrow> rel_path list" where
  "origin_first origin files =
     (if List.member files origin then origin # remove1 origin files else files)"

definition may_contain :: "(rel_path \<Rightarrow> string option) \<Rightarrow> string \<Rightarrow> rel_path \<Rightarrow> bool" where
  "may_contain raw name f = (case raw f of None \<Rightarrow> False | Some bytes \<Rightarrow> \<not> cannot_contain_name bytes name)"

text \<open>\<open>known\<close> is the file list of an index or else the walk's; \<open>raw\<close> reads a file's bytes, \<open>read\<close> its decoded
  text.\<close>

definition collect ::
  "unicode \<Rightarrow> string \<Rightarrow> bool \<Rightarrow> (rel_path \<Rightarrow> string \<Rightarrow> position list \<Rightarrow> bool list option) \<Rightarrow> (rel_path \<Rightarrow> string option)
     \<Rightarrow> (rel_path \<Rightarrow> string option) \<Rightarrow> (nat \<Rightarrow> bool) \<Rightarrow> rel_path \<Rightarrow> (rel_path \<Rightarrow> bool) \<Rightarrow> rel_path list
     \<Rightarrow> location list \<times> bool" where
  "collect U name code_only code_at raw read late origin keep known =
     (let files = origin_first origin (sort (filter keep known));
          window = min (length files) (max_files + 1);
          kept = filter (may_contain raw name) (take window files) @ drop window files
      in search_files U name code_only code_at read late 0 kept [])"

definition ticked :: "string \<Rightarrow> string" where
  "ticked name = CHR 0x60 # name @ [CHR 0x60]"

definition text_references ::
  "unicode \<Rightarrow> (rel_path \<Rightarrow> string option) \<Rightarrow> (rel_path \<Rightarrow> string option) \<Rightarrow> (nat \<Rightarrow> bool) \<Rightarrow> rel_path \<Rightarrow> string \<Rightarrow> string
     \<Rightarrow> rel_path list \<Rightarrow> location list precise" where
  "text_references U raw read late origin name reason known =
     (case from_path origin of
        None \<Rightarrow>
          \<lparr>pr_value = [], pr_confidence = Unknown,
           pr_note = Some (reason @ ''; the file's language is not recognised, so no text search was run for '' @ ticked name)\<rparr>
      | Some language \<Rightarrow>
          (let (hits, truncated) =
                 collect U name False (\<lambda>_ _ _. None) raw read late origin (\<lambda>f. from_path f = Some language) known;
               note = reason @ ''; fell back to a whole-word text search for '' @ ticked name
                 @ ''. These are textual matches (may include comments, strings, and unrelated symbols with the same name), not language-server results''
           in \<lparr>pr_value = hits, pr_confidence = Syntactic,
               pr_note = Some (if truncated
                 then note @ ''; the text search hit its size/time budget and may be incomplete'' else note)\<rparr>))"

definition same_family :: "rel_path \<Rightarrow> rel_path \<Rightarrow> bool" where
  "same_family origin f \<longleftrightarrow>
     (if from_path origin = Some Swift then from_path f = Some Swift
      else from_path f \<in> {Some ObjC, Some ObjCpp}
           \<or> (case rel_extension f of Some e \<Rightarrow> ascii_lowercase e = ''h'' | None \<Rightarrow> False))"

definition syntactic_references ::
  "unicode \<Rightarrow> (rel_path \<Rightarrow> string \<Rightarrow> position list \<Rightarrow> bool list option) \<Rightarrow> (rel_path \<Rightarrow> string option) \<Rightarrow> (rel_path \<Rightarrow> string option)
     \<Rightarrow> (nat \<Rightarrow> bool) \<Rightarrow> rel_path \<Rightarrow> string \<Rightarrow> string \<Rightarrow> rel_path list \<Rightarrow> location list precise" where
  "syntactic_references U code_at raw read late origin name reason known =
     (let (hits, truncated) = collect U name True code_at raw read late origin (same_family origin) known;
          note = reason @ ''. Fell back to tree-sitter syntactic search: same-name occurrences of '' @ ticked name
            @ '' in code (comments and strings excluded);          not a language-server semantic result ''
            @ [CHR 0xE2, CHR 0x80, CHR 0x94]
            @ '' may include unrelated same-name symbols (confidence: Syntactic)''
      in \<lparr>pr_value = hits, pr_confidence = Syntactic,
          pr_note = Some (if truncated then note @ ''; search hit file-count/time limits; results may be incomplete'' else note)\<rparr>)"

section \<open>Matches\<close>

lemma find_sub_Some:
  "find_sub s p = Some i \<Longrightarrow> starts_with (drop i s) p \<and> (\<forall>j<i. \<not> starts_with (drop j s) p)"
proof (induction s arbitrary: i)
  case Nil
  then show ?case by (auto split: if_splits)
next
  case (Cons c s)
  show ?case
  proof (cases "starts_with (c # s) p")
    case True
    with Cons.prems show ?thesis by simp
  next
    case False
    with Cons.prems obtain k where k: "find_sub s p = Some k" "i = Suc k" by auto
    have "\<not> starts_with (drop j (c # s)) p" if "j < i" for j
      using Cons.IH [OF k(1)] False that k(2) by (cases j) auto
    with Cons.IH [OF k(1)] k(2) show ?thesis by simp
  qed
qed

lemma find_sub_None: "find_sub s p = None \<Longrightarrow> \<not> starts_with (drop j s) p"
proof (induction s arbitrary: j)
  case Nil
  then show ?case by (cases p) auto
next
  case (Cons c s)
  then show ?case by (cases j) (auto split: if_splits)
qed

lemma filter_upt_none: "\<forall>j. a \<le> j \<and> j < b \<longrightarrow> \<not> P j \<Longrightarrow> filter P [a..<b] = []"
  by (simp add: filter_empty_conv)

text \<open>The matches found from the left are all matches, up to those that overlap one before.\<close>

lemma match_indices_filter:
  assumes "p \<noteq> []"
    and "\<And>i j. starts_with (drop i s) p \<Longrightarrow> i < j \<Longrightarrow> j < i + length p \<Longrightarrow> \<not> Q j"
  shows "filter Q (match_indices s p pos) = filter (\<lambda>i. starts_with (drop i s) p \<and> Q i) [pos..<length s]"
  using assms
proof (induction s p pos rule: match_indices.induct)
  case (1 s p pos)
  let ?R = "\<lambda>i. starts_with (drop i s) p \<and> Q i"
  show ?case
  proof (cases "find_sub (drop pos s) p")
    case None
    have "\<not> starts_with (drop j s) p" if "pos \<le> j" for j
      using find_sub_None [OF None, of "j - pos"] that by simp
    then have "filter ?R [pos..<length s] = []" by (intro filter_upt_none) blast
    moreover have "match_indices s p pos = []" using None by (simp add: match_indices.simps [of s p pos])
    ultimately show ?thesis by simp
  next
    case (Some i)
    have eq: "match_indices s p pos = (pos + i) # match_indices s p (pos + i + length p)"
      using Some 1(2) by (simp add: match_indices.simps [of s p pos])
    have IH: "filter Q (match_indices s p (pos + i + length p)) = filter ?R [pos + i + length p..<length s]"
      by (rule 1(1) [OF 1(2) Some]) (use 1(2,3) in blast)+
    have at: "starts_with (drop (pos + i) s) p" using find_sub_Some [OF Some] by (simp add: add.commute)
    have fit: "pos + i + length p \<le> length s"
      using find_sub_bound [OF Some] 1(2) by (cases "pos \<le> length s") auto
    have before: "filter ?R [pos..<pos + i] = []"
    proof (rule filter_upt_none, intro allI impI)
      fix j assume j: "pos \<le> j \<and> j < pos + i"
      then have "j - pos < i" by linarith
      then have "\<not> starts_with (drop (j - pos) (drop pos s)) p" using find_sub_Some [OF Some] by blast
      with j show "\<not> ?R j" by simp
    qed
    have inside: "filter ?R [Suc (pos + i)..<pos + i + length p] = []"
      by (rule filter_upt_none) (use 1(3) [OF at] in auto)
    have "[pos..<length s] = [pos..<pos + i] @ (pos + i) # [Suc (pos + i)..<pos + i + length p] @ [pos + i + length p..<length s]"
    proof -
      have "pos + i < pos + i + length p" using 1(2) by simp
      then have "[pos + i..<pos + i + length p] = (pos + i) # [Suc (pos + i)..<pos + i + length p]"
        by (rule upt_conv_Cons)
      moreover have "[pos..<length s] = [pos..<pos + i] @ [pos + i..<pos + i + length p] @ [pos + i + length p..<length s]"
      proof -
        obtain m where m: "length s = pos + i + length p + m" using fit le_Suc_ex by blast
        show ?thesis
          using upt_add_eq_append [of pos "pos + i" "length p + m"] upt_add_eq_append [of "pos + i" "pos + i + length p" m]
          by (simp add: m add.assoc)
      qed
      ultimately show ?thesis by simp
    qed
    then have "filter ?R [pos..<length s] = (if ?R (pos + i) then [pos + i] else []) @ filter ?R [pos + i + length p..<length s]"
      using before inside by simp
    with eq IH at show ?thesis by simp
  qed
qed

section \<open>Whole words\<close>

definition ascii_ident :: "char \<Rightarrow> bool" where
  "ascii_ident c \<longleftrightarrow> is_ascii_alnum c \<or> c = CHR ''_'' \<or> c = CHR ''$''"

definition ascii_name :: "string \<Rightarrow> bool" where
  "ascii_name name \<longleftrightarrow> name \<noteq> [] \<and> (\<forall>c\<in>set name. ascii_ident c)"

definition whole_word :: "unicode \<Rightarrow> string \<Rightarrow> string \<Rightarrow> nat \<Rightarrow> bool" where
  "whole_word U line name i \<longleftrightarrow>
     starts_with (drop i line) name \<and> before_ok (is_name_char U) line i \<and> after_ok (is_name_char U) line (i + length name)"

lemma ascii_ident_byte: "ascii_ident c \<Longrightarrow> byte c < 128"
  by (auto simp: ascii_ident_def is_ascii_alnum_def is_ascii_alphabetic_def is_ascii_upper_def is_ascii_lower_def
    is_ascii_digit_def)

lemma ascii_ident_not_cont: "ascii_ident c \<Longrightarrow> \<not> is_cont c"
  using ascii_ident_byte by (fastforce simp: is_cont_def)

lemma ascii_ident_is_ident: "ascii_ident c \<Longrightarrow> is_name_char U [c]"
  using ascii_ident_byte [of c]
  by (auto simp: ascii_ident_def is_name_char_def char_alnum_def char_class_def)

lemma utf8_chars_snoc: "\<not> is_cont c \<Longrightarrow> utf8_chars (s @ [c]) = utf8_chars s @ [[c]]"
proof (induction s rule: utf8_chars.induct)
  case (2 a s)
  show ?case
  proof (cases "\<forall>x\<in>set s. is_cont x")
    case True
    then have "takeWhile is_cont (s @ [c]) = s" "dropWhile is_cont (s @ [c]) = [c]"
      "takeWhile is_cont s = s" "dropWhile is_cont s = []"
      using 2(2) by (auto simp: takeWhile_append2 dropWhile_append2 takeWhile_eq_all_conv dropWhile_eq_Nil_conv)
    then show ?thesis by (simp del: takeWhile_eq_all_conv dropWhile_eq_Nil_conv)
  next
    case False
    then obtain x where "x \<in> set s" "\<not> is_cont x" by blast
    then show ?thesis using 2 by (simp add: takeWhile_append1 dropWhile_append1)
  qed
qed simp

lemma inside_not_before:
  assumes "ascii_name name" "starts_with (drop i line) name" "i < j" "j < i + length name"
  shows "\<not> before_ok (is_name_char U) line j"
proof -
  obtain t where t: "drop i line = name @ t" using assms(2) by (auto simp: starts_with_iff)
  then have "length (drop i line) = length name + length t" by simp
  then have len: "i + length name \<le> length line" using assms(3,4) by auto
  have k: "j - 1 - i < length name" using assms(3,4) by linarith
  have "line ! (j - 1) = drop i line ! (j - 1 - i)" using assms(3) len by simp
  also have "\<dots> = name ! (j - 1 - i)" using k by (simp add: t nth_append)
  finally have c: "ascii_ident (line ! (j - 1))" using assms(1) nth_mem [OF k] by (simp add: ascii_name_def)
  have "take j line = take (j - 1) line @ [line ! (j - 1)]"
    using assms(3,4) len by (cases j) (simp_all add: take_Suc_conv_app_nth)
  then have "utf8_chars (take j line) = utf8_chars (take (j - 1) line) @ [[line ! (j - 1)]]"
    using utf8_chars_snoc [OF ascii_ident_not_cont [OF c]] by simp
  then show ?thesis using ascii_ident_is_ident [OF c] by (simp add: before_ok_def)
qed

lemma word_columns_whole:
  assumes "ascii_name name"
  shows "word_columns U line name = map (column_at line) (filter (whole_word U line name) [0..<length line])"
proof -
  have "filter (\<lambda>i. before_ok (is_name_char U) line i \<and> after_ok (is_name_char U) line (i + length name)) (match_indices line name 0)
    = filter (\<lambda>i. starts_with (drop i line) name \<and> before_ok (is_name_char U) line i \<and> after_ok (is_name_char U) line (i + length name))
        [0..<length line]"
    by (rule match_indices_filter) (use assms inside_not_before [OF assms] in \<open>auto simp: ascii_name_def\<close>)
  then show ?thesis using assms by (simp add: word_columns_def ascii_name_def whole_word_def [abs_def])
qed

text \<open>A word of a line is a word of the file.\<close>

lemma contains_sub_starts: "p \<noteq> [] \<Longrightarrow> contains_sub s p \<longleftrightarrow> (\<exists>i. starts_with (drop i s) p)"
  using find_sub_Some find_sub_None unfolding contains_sub_def by (metis not_None_eq)

lemma contains_sub_sublist: "p \<noteq> [] \<Longrightarrow> contains_sub s p \<longleftrightarrow> sublist p s"
proof
  assume "p \<noteq> []" "contains_sub s p"
  then obtain i t where "drop i s = p @ t" by (auto simp: contains_sub_starts starts_with_iff)
  then have "s = take i s @ p @ t" by (metis append_take_drop_id)
  then show "sublist p s" unfolding sublist_def by blast
next
  assume p: "p \<noteq> []" "sublist p s"
  then obtain u v where "s = u @ p @ v" unfolding sublist_def by blast
  then have "starts_with (drop (length u) s) p" by simp
  then show "contains_sub s p" using contains_sub_starts [OF p(1)] by blast
qed

lemma split_by_prefix: "prefix (hd (split_by P s)) s"
  by (induction s) (auto split: list.split)

lemma split_by_sublist: "w \<in> set (split_by P s) \<Longrightarrow> sublist w s"
proof (induction s arbitrary: w)
  case (Cons c s)
  show ?case
  proof (cases "P c")
    case True
    then show ?thesis using Cons by (auto intro: sublist_Cons_right [THEN iffD2])
  next
    case False
    obtain v ws where v: "split_by P s = v # ws" by (cases "split_by P s") auto
    have "prefix v s" using split_by_prefix [of P s] v by simp
    then have "sublist (c # v) (c # s)" by (intro prefix_imp_sublist) simp
    then show ?thesis using Cons False v by (auto intro: sublist_Cons_right [THEN iffD2])
  qed
qed simp

lemma strip_cr_sublist: "sublist (strip_cr s) s"
  by (auto simp: strip_cr_def strip_suffix_def split: option.split if_splits)

lemma whole_word_contains:
  assumes "ascii_name name" "l \<in> set (split_on c src)" "whole_word U (strip_cr l) name i"
  shows "contains_sub src name"
proof -
  have n: "name \<noteq> []" using assms(1) by (simp add: ascii_name_def)
  have "contains_sub (strip_cr l) name" using assms(3) n by (auto simp: contains_sub_starts whole_word_def)
  then have "sublist name (strip_cr l)" using contains_sub_sublist [OF n] by blast
  also have "sublist (strip_cr l) l" by (rule strip_cr_sublist)
  also have "sublist l src" using assms(2) unfolding split_on_def by (rule split_by_sublist)
  finally show ?thesis using contains_sub_sublist [OF n] by blast
qed

section \<open>The whole search\<close>

definition word_location :: "rel_path \<Rightarrow> nat \<Rightarrow> string \<Rightarrow> string \<Rightarrow> nat \<Rightarrow> location" where
  "word_location f n line name i =
     (f, ((of_nat n, column_at line i), (of_nat n, column_at line i + of_nat (utf16_count name))))"

definition text_line :: "string \<Rightarrow> nat \<Rightarrow> string" where
  "text_line source n = strip_cr (split_on (CHR 0x0A) source ! n)"

definition words_in :: "unicode \<Rightarrow> string \<Rightarrow> rel_path \<Rightarrow> string \<Rightarrow> location set" where
  "words_in U name f source =
     {word_location f n (text_line source n) name i | n i.
        n < length (split_on (CHR 0x0A) source) \<and> i < length (text_line source n) \<and> whole_word U (text_line source n) name i}"

lemma file_hits_words:
  assumes "ascii_name name"
  shows "set (file_hits U name f source) = words_in U name f source"
proof -
  let ?ls = "split_on (CHR 0x0A) source"
  have "set (file_hits U name f source) = (\<Union>n\<in>{0..<length ?ls}. set (line_hits U name f n (?ls ! n)))"
    by (auto simp: file_hits_def set_zip) force
  also have "\<dots> = words_in U name f source"
  proof -
    have eq: "set (line_hits U name f n (?ls ! n))
        = {word_location f n (text_line source n) name i | i. i < length (text_line source n) \<and> whole_word U (text_line source n) name i}"
      for n
      by (auto simp: line_hits_def Let_def word_columns_whole [OF assms] word_location_def text_line_def)
    have "(\<Union>n\<in>A. {F n i | i. P n i}) = {F n i | n i. n \<in> A \<and> P n i}" for A :: "nat set" and F :: "nat \<Rightarrow> nat \<Rightarrow> location" and P
      by blast
    then show ?thesis by (simp add: eq words_in_def)
  qed
  finally show ?thesis .
qed

lemma words_in_contains:
  assumes "ascii_name name" "words_in U name f source \<noteq> {}"
  shows "contains_sub source name"
proof -
  obtain n i where n: "n < length (split_on (CHR 0x0A) source)" "whole_word U (text_line source n) name i"
    using assms(2) by (auto simp: words_in_def)
  show ?thesis
    using whole_word_contains [OF assms(1) nth_mem [OF n(1)]] n(2) unfolding text_line_def by blast
qed

lemma search_files_all:
  assumes "ascii_name name" "search_files U name False code_at read late n fs hits = (hits', False)"
  shows "set hits' = set hits \<union> (\<Union>f\<in>set fs. case read f of None \<Rightarrow> {} | Some src \<Rightarrow> words_in U name f src)"
  using assms(2)
proof (induction fs arbitrary: n hits)
  case (Cons f fs)
  have go: "\<not> (max_files \<le> n \<or> max_hits \<le> length hits \<or> late n)" using Cons.prems by (auto split: if_splits)
  show ?case
  proof (cases "read f")
    case None
    then show ?thesis using Cons go by simp
  next
    case (Some src)
    show ?thesis
    proof (cases "contains_sub src name")
      case False
      then have "words_in U name f src = {}" using words_in_contains [OF assms(1)] by blast
      then show ?thesis using Cons go Some False by simp
    next
      case True
      have "search_files U name False code_at read late (Suc n) fs (hits @ file_hits U name f src) = (hits', False)"
        using Cons.prems go Some True by (simp add: masked_hits_def Let_def split: if_splits)
      from Cons.IH [OF this] show ?thesis using Some file_hits_words [OF assms(1)] by auto
    qed
  qed
qed simp

lemma set_origin_first: "set (origin_first origin fs) = set fs"
  using set_remove1_subset [of origin fs] in_set_remove1 [of _ origin fs]
  by (auto simp: origin_first_def) (metis in_set_remove1)

text \<open>C18: The text search answers what it says: for an ASCII identifier, a search that is not cut short returns
  every whole-word occurrence of it in the lines of the files asked for, and nothing else, with its UTF-16
  columns; skipping files by their raw bytes, and the order that starts with the origin, lose nothing as
  long as a decoded file that contains the name is not one the byte test rejects.\<close>

theorem text_search_exact:
  assumes "ascii_name name"
    and "collect U name False code_at raw read late origin keep known = (hits, False)"
    and "\<forall>f src. read f = Some src \<and> contains_sub src name \<longrightarrow> may_contain raw name f"
  shows "set hits = (\<Union>f\<in>{f\<in>set known. keep f}. case read f of None \<Rightarrow> {} | Some src \<Rightarrow> words_in U name f src)"
proof -
  define files where "files = origin_first origin (sort (filter keep known))"
  define w where "w = min (length files) (max_files + 1)"
  let ?W = "\<lambda>f. case read f of None \<Rightarrow> {} | Some src \<Rightarrow> words_in U name f src"
  have "search_files U name False code_at read late 0 (filter (may_contain raw name) (take w files) @ drop w files) [] = (hits, False)"
    using assms(2) by (simp add: collect_def files_def w_def Let_def)
  from search_files_all [OF assms(1) this]
  have hits: "set hits = (\<Union>f\<in>set (filter (may_contain raw name) (take w files) @ drop w files). ?W f)" by simp
  have empty: "?W f = {}" if "\<not> may_contain raw name f" for f
  proof (cases "read f")
    case (Some src)
    then have "\<not> contains_sub src name" using assms(3) that by blast
    then show ?thesis using words_in_contains [OF assms(1)] Some by auto
  qed simp
  have "set (take w files) \<union> set (drop w files) = set files"
    by (metis append_take_drop_id set_append)
  then have "(\<Union>f\<in>set (filter (may_contain raw name) (take w files) @ drop w files). ?W f) = (\<Union>f\<in>set files. ?W f)"
    using empty by auto
  moreover have "set files = {f\<in>set known. keep f}" by (simp add: files_def set_origin_first)
  ultimately show ?thesis using hits by simp
qed

theorem text_search_exact_witness:
  "set (fst (collect ascii_tables ''go'' False (\<lambda>_ _ _. None) (\<lambda>f. Some ''let go = gone;'') (\<lambda>f. Some ''let go = gone;'') (\<lambda>_. False)
       (RelPath ''a.rs'') (\<lambda>_. True) [RelPath ''a.rs'']))
     = words_in ascii_tables ''go'' (RelPath ''a.rs'') ''let go = gone;''"
proof -
  let ?c = "collect ascii_tables ''go'' False (\<lambda>_ _ _. None) (\<lambda>f. Some ''let go = gone;'') (\<lambda>f. Some ''let go = gone;'') (\<lambda>_. False)
       (RelPath ''a.rs'') (\<lambda>_. True) [RelPath ''a.rs'']"
  have h: "length (file_hits ascii_tables ''go'' (RelPath ''a.rs'') ''let go = gone;'') = 1" by code_simp
  have m: "may_contain (\<lambda>f. Some ''let go = gone;'') ''go'' (RelPath ''a.rs'')" "contains_sub ''let go = gone;'' ''go''" by code_simp+
  have "\<not> snd ?c"
    using h m by (simp add: collect_def origin_first_def max_files_def max_hits_def Let_def masked_hits_def)
  moreover have "x = (fst x, False)" if "\<not> snd x" for x :: "location list \<times> bool" using that by (cases x) simp
  ultimately have c: "?c = (fst ?c, False)" by blast
  have n: "ascii_name ''go''" by code_simp
  have "\<forall>f src. (\<lambda>f :: rel_path. Some ''let go = gone;'') f = Some src \<and> contains_sub src ''go''
      \<longrightarrow> may_contain (\<lambda>f. Some ''let go = gone;'') ''go'' f"
    using m(1) by (simp add: may_contain_def)
  from text_search_exact [OF n c this] show ?thesis by simp
qed

end
