(* ===== verification/Queries.thy ===== *)
theory Queries
  imports Pool Paths TextSearch
begin

text \<open>
  Precise queries on a language server (\<open>astrolabe-core/src/lsp/queries.rs\<close>): where a query is issued, the
  answers of several anchors merged, locations turned into repository-relative paths, and the confidence
  an answer may claim.  The server is the record of its operations, with the number of the call so that
  its answers may change; the file system, the parse of a file and the lossy conversion of bytes are in the
  record \<open>query_env\<close>.  An operation that slices a string off a character boundary panics.
\<close>

section \<open>Errors and labels\<close>

fun language_debug :: "language \<Rightarrow> string" where
  "language_debug Python = ''Python''"
| "language_debug Go = ''Go''"
| "language_debug Java = ''Java''"
| "language_debug Rust = ''Rust''"
| "language_debug TypeScript = ''TypeScript''"
| "language_debug Tsx = ''Tsx''"
| "language_debug JavaScript = ''JavaScript''"
| "language_debug C = ''C''"
| "language_debug Cpp = ''Cpp''"
| "language_debug ObjC = ''ObjC''"
| "language_debug ObjCpp = ''ObjCpp''"
| "language_debug Swift = ''Swift''"
| "language_debug Php = ''Php''"
| "language_debug Vue = ''Vue''"
| "language_debug Dart = ''Dart''"
| "language_debug CSharp = ''CSharp''"
| "language_debug VisualBasic = ''VisualBasic''"
| "language_debug Kotlin = ''Kotlin''"
| "language_debug Shell = ''Shell''"
| "language_debug Ruby = ''Ruby''"
| "language_debug Lua = ''Lua''"
| "language_debug Proto = ''Proto''"

text \<open>\<open>show_duration\<close> is the debug form of a \<open>Duration\<close>.\<close>

definition lsp_display :: "(nat \<Rightarrow> string) \<Rightarrow> lsp_error \<Rightarrow> string" where
  "lsp_display show_duration e =
     (case e of
        Unavailable l hint \<Rightarrow> ''no language server available for '' @ language_debug l @ '': '' @ hint
      | Startup l why \<Rightarrow> ''language server for '' @ language_debug l @ '' failed to start: '' @ why
      | TimeoutErr t \<Rightarrow> ''language server request timed out after '' @ show_duration t
      | ContentModified \<Rightarrow> ''language server content modified; the request should be retried''
      | Protocol s \<Rightarrow> ''language server protocol error: '' @ s
      | Crashed \<Rightarrow> ''language server exited unexpectedly'')"

fun server_label :: "language \<Rightarrow> string" where
  "server_label Go = ''gopls''"
| "server_label Rust = ''rust-analyzer''"
| "server_label Python = ''pyright''"
| "server_label Java = ''jdtls''"
| "server_label TypeScript = ''typescript-language-server''"
| "server_label Tsx = ''typescript-language-server''"
| "server_label JavaScript = ''typescript-language-server''"
| "server_label Swift = ''sourcekit-lsp''"
| "server_label ObjC = ''sourcekit-lsp''"
| "server_label ObjCpp = ''sourcekit-lsp''"
| "server_label C = ''clangd''"
| "server_label Cpp = ''clangd''"
| "server_label Php = ''intelephense''"
| "server_label Vue = ''vue-language-server''"
| "server_label Dart = ''dart language-server''"
| "server_label CSharp = ''Microsoft.CodeAnalysis.LanguageServer''"
| "server_label VisualBasic = ''Microsoft.CodeAnalysis.LanguageServer''"
| "server_label Kotlin = ''kotlin-lsp''"
| "server_label Shell = ''bash-language-server''"
| "server_label Ruby = ''ruby-lsp''"
| "server_label Lua = ''lua-language-server''"
| "server_label Proto = ''protobuf (graph-only)''"

definition ambiguous_definitions_mark :: string where
  "ambiguous_definitions_mark = ''[ambiguous-definitions]''"

definition text_search_hint :: string where
  "text_search_hint = ''search_code can fall back to a text search but will have false positives''"

section \<open>The surroundings of a query\<close>

record query_env =
  qe_root :: string
  qe_canonical :: "string \<Rightarrow> string option"
  qe_lossy :: "string \<Rightarrow> string"
  qe_unicode :: unicode
  qe_read :: "rel_path \<Rightarrow> string + string"
  qe_raw :: "rel_path \<Rightarrow> string option"
  qe_late :: "nat \<Rightarrow> bool"
  qe_files :: "rel_path list"
  qe_tree :: "rel_path \<Rightarrow> string \<Rightarrow> string \<Rightarrow> anchor option"
  qe_in_comment :: "rel_path \<Rightarrow> string \<Rightarrow> position \<Rightarrow> bool option"
  qe_code_mask :: "rel_path \<Rightarrow> string \<Rightarrow> position list \<Rightarrow> bool list option"
  qe_duration :: "nat \<Rightarrow> string"

record lang_server =
  sv_references :: "nat \<Rightarrow> rel_path \<Rightarrow> position \<Rightarrow> lsp_error + location list"
  sv_definition :: "nat \<Rightarrow> rel_path \<Rightarrow> position \<Rightarrow> lsp_error + location list"
  sv_busy :: "nat \<Rightarrow> bool"

datatype symbol_at = At position | Named string

definition read_source :: "query_env \<Rightarrow> rel_path \<Rightarrow> string option" where
  "read_source E p = (case qe_read E p of Inl _ \<Rightarrow> None | Inr src \<Rightarrow> Some src)"

abbreviation err_text :: "query_env \<Rightarrow> lsp_error \<Rightarrow> string" where
  "err_text E \<equiv> lsp_display (qe_duration E)"

section \<open>Locations of the server as repository paths\<close>

definition looks_like_file_uri :: "string \<Rightarrow> bool run" where
  "looks_like_file_uri p =
     (if length p < 5 then Ret False
      else if 5 < length p \<and> is_cont (p ! 5) then Panic
      else Ret (ascii_lowercase (take 5 p) = ''file:''))"

text \<open>The percent decoding of \<open>queries.rs\<close>, which refuses a broken escape.\<close>

fun strict_decode :: "string \<Rightarrow> string option" where
  "strict_decode [] = Some []"
| "strict_decode (c # s) =
     (if c = CHR ''%''
      then (case s of
              a # b # s' \<Rightarrow>
                (case (hex_digit a, hex_digit b) of
                   (Some x, Some y) \<Rightarrow> map_option (Cons (char_of (16 * x + y))) (strict_decode s')
                 | _ \<Rightarrow> None)
            | _ \<Rightarrow> None)
      else map_option (Cons c) (strict_decode s))"

definition percent_decode_utf8 :: "string \<Rightarrow> string option" where
  "percent_decode_utf8 s =
     (case strict_decode s of Some bytes \<Rightarrow> (if utf8_valid bytes then Some bytes else None) | None \<Rightarrow> None)"

text \<open>\<open>lexical_normalize\<close> pushes the components onto an empty path and pops at \<open>..\<close>.\<close>

definition lex_push :: "path_comp \<Rightarrow> path_comp list \<Rightarrow> path_comp list" where
  "lex_push c out =
     (case c of
        CurDir \<Rightarrow> out
      | ParentDir \<Rightarrow> (if out = [] \<or> out = [RootDir] then out @ [ParentDir] else butlast out)
      | RootDir \<Rightarrow> [RootDir]
      | Normal w \<Rightarrow> out @ [Normal w])"

fun comp_str :: "path_comp \<Rightarrow> string" where
  "comp_str RootDir = ''/''"
| "comp_str CurDir = ''.''"
| "comp_str ParentDir = ''..''"
| "comp_str (Normal w) = w"

definition render_comps :: "path_comp list \<Rightarrow> string" where
  "render_comps cs =
     (case cs of
        RootDir # rest \<Rightarrow> slash # join_with [slash] (map comp_str rest)
      | _ \<Rightarrow> join_with [slash] (map comp_str cs))"

definition lexical_normalize :: "string \<Rightarrow> string" where
  "lexical_normalize path = render_comps (fold lex_push (path_components path) [])"

definition file_uri_to_path :: "string \<Rightarrow> string option" where
  "file_uri_to_path uri =
     (let rest = takeWhile (\<lambda>c. c \<noteq> CHR ''?'') (takeWhile (\<lambda>c. c \<noteq> CHR ''#'') (drop 5 uri))
      in case percent_decode_utf8 rest of
           None \<Rightarrow> None
         | Some decoded \<Rightarrow>
             (case strip_prefix decoded ''//'' of
                None \<Rightarrow> Some (lexical_normalize decoded)
              | Some after \<Rightarrow>
                  if slash \<notin> set after then None
                  else (let host = takeWhile (\<lambda>c. c \<noteq> slash) after; path = dropWhile (\<lambda>c. c \<noteq> slash) after
                        in if host = [] \<or> ascii_lowercase host = ''localhost'' then Some (lexical_normalize path) else None)))"

definition abs_path_from_lsp :: "string \<Rightarrow> string option run" where
  "abs_path_from_lsp raw =
     run_bind (looks_like_file_uri raw) (\<lambda>uri.
       Ret (if uri then file_uri_to_path raw
            else if is_absolute (slashify raw) then Some (lexical_normalize (slashify raw)) else None))"

definition climbs :: "string \<Rightarrow> bool" where
  "climbs s \<longleftrightarrow> ''..'' \<in> set (split_on slash s)"

definition strip_prefix_path :: "string \<Rightarrow> string \<Rightarrow> string option" where
  "strip_prefix_path abs' root =
     (case path_strip_prefix abs' root of
        None \<Rightarrow> None
      | Some rel \<Rightarrow> if rel = [] \<or> has_parent_dir rel then None else Some rel)"

definition path_to_rel :: "string \<Rightarrow> rel_path option" where
  "path_to_rel rel =
     (if \<not> utf8_valid rel then None
      else (let s = slashify rel in if s = [] \<or> climbs s then None else Some (rel_path_new s)))"

definition rel_under_root :: "query_env \<Rightarrow> string \<Rightarrow> rel_path option" where
  "rel_under_root E abs' =
     (case strip_prefix_path (lexical_normalize abs') (lexical_normalize (qe_root E)) of
        Some rel \<Rightarrow> path_to_rel rel
      | None \<Rightarrow>
          (case (qe_canonical E abs', qe_canonical E (qe_root E)) of
             (Some a, Some r) \<Rightarrow>
               (case strip_prefix_path a r of Some rel \<Rightarrow> path_to_rel rel | None \<Rightarrow> None)
           | _ \<Rightarrow> None))"

definition drop_slashes :: "string \<Rightarrow> string" where
  "drop_slashes s = dropWhile (\<lambda>c. c = slash) s"

definition strip_root_string :: "query_env \<Rightarrow> string \<Rightarrow> rel_path option" where
  "strip_root_string E raw =
     (let root = drop_slashes (slashify (qe_lossy E (lexical_normalize (qe_root E))))
      in if root = [] \<or> slash \<notin> set root then None
         else (case strip_prefix (drop_slashes raw) root of
                 None \<Rightarrow> None
               | Some rest \<Rightarrow>
                   if \<not> starts_with rest ''/'' then None
                   else (let rest' = drop_slashes rest
                         in if rest' = [] \<or> climbs rest' then None else Some (rel_path_new rest'))))"

definition lsp_path_to_rel :: "query_env \<Rightarrow> string \<Rightarrow> rel_path option run" where
  "lsp_path_to_rel E path =
     run_bind (looks_like_file_uri path) (\<lambda>uri.
       if uri
       then run_bind (abs_path_from_lsp path) (\<lambda>p.
              Ret (case p of None \<Rightarrow> None | Some abs' \<Rightarrow> rel_under_root E abs'))
       else (let normalized = slashify path
             in Ret (if is_absolute normalized then rel_under_root E normalized
                     else (case strip_root_string E normalized of
                             Some rel \<Rightarrow> Some rel
                           | None \<Rightarrow> if climbs normalized then None else Some (rel_path_new normalized)))))"

definition display_external :: "query_env \<Rightarrow> string \<Rightarrow> string run" where
  "display_external E raw =
     run_bind (abs_path_from_lsp raw) (\<lambda>p. Ret (case p of Some q \<Rightarrow> qe_lossy E q | None \<Rightarrow> raw))"

fun classify_all :: "query_env \<Rightarrow> location list \<Rightarrow> (location list \<times> string list) run" where
  "classify_all E [] = Ret ([], [])"
| "classify_all E (hit # hits) =
     run_bind (lsp_path_to_rel E (as_str (fst hit))) (\<lambda>r.
       case r of
         Some path \<Rightarrow> run_bind (classify_all E hits) (\<lambda>(in_repo, external). Ret ((path, snd hit) # in_repo, external))
       | None \<Rightarrow>
           run_bind (display_external E (as_str (fst hit))) (\<lambda>d.
             run_bind (classify_all E hits) (\<lambda>(in_repo, external). Ret (in_repo, d # external))))"

definition sort_locations :: "rel_path \<Rightarrow> location list \<Rightarrow> location list" where
  "sort_locations origin locs = remdups_adj (sort_key (\<lambda>(path, range). (path \<noteq> origin, path, range)) locs)"

definition format_external_list :: "string list \<Rightarrow> string" where
  "format_external_list external =
     (if length external \<le> 3 then join_with '', '' external
      else join_with '', '' (take 3 external) @ '', '' @ [CHR 0xE2, CHR 0x80, CHR 0xA6]
             @ '' ('' @ show_nat (length external) @ '' total)'')"

definition external_note :: "location list \<Rightarrow> string list \<Rightarrow> string option" where
  "external_note in_repo external =
     (if external = [] then None
      else Some (if in_repo = []
        then ''all '' @ show_nat (length external)
               @ '' result(s) sit outside the repository (stdlib or dependencies) and were omitted: ''
               @ format_external_list external
        else ''omitted '' @ show_nat (length external)
               @ '' reference(s) outside the repository (stdlib or dependencies): '' @ format_external_list external))"

definition finalize_hits :: "query_env \<Rightarrow> location list \<Rightarrow> rel_path \<Rightarrow> location list precise run" where
  "finalize_hits E hits origin =
     run_bind (classify_all E hits) (\<lambda>(in_repo, external).
       let sorted = sort_locations origin in_repo
       in Ret \<lparr>pr_value = sorted, pr_confidence = Exact, pr_note = external_note sorted external\<rparr>)"

section \<open>Confidence\<close>

fun confidence_rank :: "confidence \<Rightarrow> nat" where
  "confidence_rank Exact = 0"
| "confidence_rank Scoped = 1"
| "confidence_rank Syntactic = 2"
| "confidence_rank Unknown = 3"

definition cap_confidence :: "confidence \<Rightarrow> confidence option \<Rightarrow> confidence" where
  "cap_confidence c cap =
     (case cap of None \<Rightarrow> c | Some k \<Rightarrow> if confidence_rank c < confidence_rank k then k else c)"

definition still_indexing_note :: string where
  "still_indexing_note = ''language server still indexing, results may be incomplete''"

definition downgrade_incomplete :: "'a precise \<Rightarrow> 'a precise" where
  "downgrade_incomplete r =
     r\<lparr>pr_note := Some (case pr_note r of
          Some existing \<Rightarrow> if existing \<noteq> [] then existing @ ''; '' @ still_indexing_note else still_indexing_note
        | None \<Rightarrow> still_indexing_note),
       pr_confidence := (if pr_confidence r = Exact then Syntactic else pr_confidence r)\<rparr>"

definition cold_note :: string where
  "cold_note = ''Language server is still building its index; an empty result is not trustworthy.          Retry after indexing finishes.''"

definition guard_cold_index :: "bool \<Rightarrow> 'a list precise \<Rightarrow> 'a list precise" where
  "guard_cold_index busy r =
     (if \<not> busy then r
      else if pr_value r \<noteq> [] then downgrade_incomplete r
      else precise_unknown (pr_value r)
             (case pr_note r of
                Some existing \<Rightarrow> if existing \<noteq> [] then existing @ ''; '' @ cold_note else cold_note
              | None \<Rightarrow> cold_note))"

definition degrade :: "query_env \<Rightarrow> lsp_error \<Rightarrow> location list precise" where
  "degrade E err = precise_unknown [] (err_text E err @ ''; cannot provide precise references. '' @ text_search_hint)"

definition degrade_definition :: "query_env \<Rightarrow> lsp_error \<Rightarrow> location list precise" where
  "degrade_definition E err =
     precise_unknown [] (err_text E err @ ''; cannot provide precise definitions. '' @ text_search_hint)"

definition server_name :: "rel_path \<Rightarrow> string" where
  "server_name path = (case from_path path of Some l \<Rightarrow> server_label l | None \<Rightarrow> ''language server'')"

definition unavailable_without_server :: "rel_path \<Rightarrow> location list precise" where
  "unavailable_without_server path =
     precise_unknown [] (server_name path @ '' is not installed; cannot provide precise references. '' @ text_search_hint)"

definition unavailable_definition_without_server :: "rel_path \<Rightarrow> location list precise" where
  "unavailable_definition_without_server path =
     precise_unknown [] (server_name path @ '' is not installed; cannot provide precise definitions. '' @ text_search_hint)"

section \<open>Where to ask\<close>

definition locate_named :: "query_env \<Rightarrow> rel_path \<Rightarrow> string \<Rightarrow> string \<Rightarrow> string + anchor" where
  "locate_named E path name what =
     (if name = [] then Inl (''empty symbol name; cannot provide precise '' @ what)
      else case qe_read E path of
             Inl err \<Rightarrow>
               Inl (''could not read '' @ as_str path @ '' to locate '' @ ticked name @ '' ('' @ err
                    @ ''); cannot provide precise '' @ what)
           | Inr source \<Rightarrow>
               (case locate (qe_unicode E) (qe_tree E) path source name of
                  NotFound \<Rightarrow>
                    Inl (''symbol '' @ ticked name @ '' not found in '' @ as_str path @ ''; cannot provide precise '' @ what)
                | OnlyInCommentsOrStrings \<Rightarrow>
                    Inl (ticked name @ '' only appears inside comments or strings in '' @ as_str path
                         @ ''; refusing to anchor there. Pass the file that declares or uses it, or line/character; cannot provide precise ''
                         @ what)
                | found \<Rightarrow> Inr found))"

record query_sites =
  qs_sites :: "(rel_path \<times> position) list"
  qs_note :: "string option"
  qs_in_comment :: bool
  qs_cap :: "confidence option"

datatype site_error = SiteLsp lsp_error | SiteFailed "location list precise"

definition describe_sites :: "(rel_path \<times> position) list \<Rightarrow> string" where
  "describe_sites sites =
     join_with '', '' (map (\<lambda>(p, line, character).
       as_str p @ '':'' @ show_nat (unat (line + 1)) @ '':'' @ show_nat (unat (character + 1))) sites)"

text \<open>The limit on the anchors, with the note and the cap on confidence it brings.\<close>

definition limit_sites :: "string \<Rightarrow> (rel_path \<times> position) list \<Rightarrow> query_sites" where
  "limit_sites name sites =
     (let amount = length sites
      in if amount > max_definition_anchors
         then \<lparr>qs_sites = take max_definition_anchors sites,
               qs_note = Some (ambiguous_definitions_mark @ '' '' @ ticked name @ '' has '' @ show_nat amount
                 @ '' definitions; merged results of the first '' @ show_nat max_definition_anchors
                 @ '' only (incomplete). Pass line/character to target one''),
               qs_in_comment = False, qs_cap = Some Syntactic\<rparr>
         else if amount > 1
         then \<lparr>qs_sites = sites,
               qs_note = Some (ambiguous_definitions_mark @ '' '' @ ticked name @ '' has '' @ show_nat amount
                 @ '' definitions ('' @ describe_sites sites
                 @ ''); results of all of them were merged, so this is not the list for one symbol. Pass line/character to target one''),
               qs_in_comment = False, qs_cap = Some Scoped\<rparr>
         else \<lparr>qs_sites = sites, qs_note = None, qs_in_comment = False, qs_cap = None\<rparr>)"

definition resolve_named_site ::
  "query_env \<Rightarrow> lang_server \<Rightarrow> rel_path \<Rightarrow> string \<Rightarrow> (site_error + query_sites) run" where
  "resolve_named_site E server path name =
     (case locate_named E path name ''references'' of
        Inl reason \<Rightarrow> Ret (Inl (SiteFailed (precise_unknown [] (reason @ ''. '' @ text_search_hint))))
      | Inr (Definitions defs) \<Rightarrow> Ret (Inr (limit_sites name (map (\<lambda>p. (path, p)) defs)))
      | Inr (Usage pos) \<Rightarrow>
          (case sv_definition server 0 path pos of
             Inl err \<Rightarrow> Ret (Inl (SiteLsp err))
           | Inr defs \<Rightarrow>
               run_bind (classify_all E defs) (\<lambda>(in_repo, _).
                 let found = sort_dedup in_repo
                 in Ret (Inr (limit_sites name
                      (if found = [] then [(path, pos)]
                       else map (\<lambda>(p, start, _). (p, start)) found)))))
      | Inr _ \<Rightarrow> Panic)"

definition resolve_query_site ::
  "query_env \<Rightarrow> lang_server \<Rightarrow> rel_path \<Rightarrow> symbol_at \<Rightarrow> (site_error + query_sites) run" where
  "resolve_query_site E server path target =
     (case target of
        At pos \<Rightarrow>
          Ret (Inr \<lparr>qs_sites = [(path, pos)], qs_note = None,
                   qs_in_comment = (case read_source E path of
                       None \<Rightarrow> False
                     | Some src \<Rightarrow> (case qe_in_comment E path src pos of Some b \<Rightarrow> b | None \<Rightarrow> False)),
                   qs_cap = None\<rparr>)
      | Named name \<Rightarrow> resolve_named_site E server path name)"

section \<open>Fallbacks\<close>

definition target_name :: "query_env \<Rightarrow> rel_path \<Rightarrow> symbol_at \<Rightarrow> string option" where
  "target_name E path target =
     (case target of
        Named name \<Rightarrow> if name = [] then None else Some name
      | At pos \<Rightarrow> identifier_at (qe_unicode E) (read_source E) path pos)"

definition timeout_fallback ::
  "query_env \<Rightarrow> rel_path \<Rightarrow> symbol_at \<Rightarrow> string \<Rightarrow> location list precise option" where
  "timeout_fallback E path target reason =
     map_option (\<lambda>name.
       text_references (qe_unicode E) (qe_raw E) (read_source E) (qe_late E) path name
         (hd (split_on (CHR '';'') reason)) (qe_files E))
       (target_name E path target)"

definition references_failed ::
  "query_env \<Rightarrow> rel_path \<Rightarrow> symbol_at \<Rightarrow> lsp_error \<Rightarrow> location list precise" where
  "references_failed E path target err =
     (case (case err of TimeoutErr _ \<Rightarrow> timeout_fallback E path target (err_text E err) | _ \<Rightarrow> None) of
        Some fallback \<Rightarrow> fallback
      | None \<Rightarrow> degrade E err)"

definition is_apple_source :: "query_env \<Rightarrow> (rel_path \<Rightarrow> string \<Rightarrow> language option) \<Rightarrow> rel_path \<Rightarrow> bool" where
  "is_apple_source E by_content path =
     (case from_path path of
        Some Swift \<Rightarrow> True
      | Some ObjC \<Rightarrow> True
      | Some ObjCpp \<Rightarrow> True
      | Some C \<Rightarrow>
          (case read_source E path of
             None \<Rightarrow> False
           | Some src \<Rightarrow> by_content path src \<in> {Some ObjC, Some ObjCpp})
      | _ \<Rightarrow> False)"

definition fallback_reason :: "string option \<Rightarrow> string" where
  "fallback_reason note =
     (let first = (case note of
           None \<Rightarrow> []
         | Some n \<Rightarrow> trim (hd (split_by (\<lambda>c. c = CHR 0x0A \<or> c = CHR '';'') n)))
      in if first = [] then ''language server returned no references'' else first)"

definition apple_references_fallback ::
  "query_env \<Rightarrow> (rel_path \<Rightarrow> string \<Rightarrow> language option) \<Rightarrow> rel_path \<Rightarrow> symbol_at \<Rightarrow> location list precise \<Rightarrow> location list precise" where
  "apple_references_fallback E by_content path target r =
     (if pr_value r \<noteq> [] \<or> pr_confidence r \<noteq> Unknown \<or> \<not> is_apple_source E by_content path then r
      else case target_name E path target of
             None \<Rightarrow> r
           | Some name \<Rightarrow>
               syntactic_references (qe_unicode E) (qe_code_mask E) (qe_raw E) (read_source E) (qe_late E) path name
                 (fallback_reason (pr_note r)) (qe_files E))"

section \<open>References\<close>

text \<open>The anchors are asked in turn, up to the first timeout; the number counts those asked.\<close>

fun ask_sites ::
  "(nat \<Rightarrow> rel_path \<Rightarrow> position \<Rightarrow> lsp_error + location list) \<Rightarrow> nat \<Rightarrow> (rel_path \<times> position) list
     \<Rightarrow> location list \<times> lsp_error list \<times> nat" where
  "ask_sites ask i [] = ([], [], 0)"
| "ask_sites ask i ((path, pos) # sites) =
     (case ask i path pos of
        Inr found \<Rightarrow>
          (case ask_sites ask (Suc i) sites of (hits, errors, n) \<Rightarrow> (found @ hits, errors, Suc n))
      | Inl (TimeoutErr t) \<Rightarrow> ([], [TimeoutErr t], 1)
      | Inl err \<Rightarrow>
          (case ask_sites ask (Suc i) sites of (hits, errors, n) \<Rightarrow> (hits, err # errors, Suc n)))"

definition join_notes :: "string list \<Rightarrow> string option" where
  "join_notes notes = (if notes = [] then None else Some (join_with ''; '' notes))"

definition partial_note :: "query_env \<Rightarrow> string \<Rightarrow> lsp_error list \<Rightarrow> nat \<Rightarrow> string" where
  "partial_note E what errors amount =
     show_nat (length errors) @ '' of '' @ show_nat amount @ '' '' @ what @ '' queries failed ('' @ err_text E (hd errors)
     @ ''); results may be incomplete''"

definition in_comment_note :: string where
  "in_comment_note = ''the given position is inside a comment or string, not on a code identifier; pass the line/character of the symbol's name token''"

definition no_references_note :: "(rel_path \<times> position) list \<Rightarrow> string" where
  "no_references_note sites =
     ''language server returned no references (not even the declaration) at '' @ describe_sites sites
     @ ''; the anchor is probably not on the symbol. Retry with line/character of the declaration, or use search_code. ''
     @ text_search_hint"

text \<open>What \<open>find_references\<close> makes of the merged hits, \<open>base\<close> being the guarded result.\<close>

definition settle_references ::
  "query_env \<Rightarrow> query_sites \<Rightarrow> lsp_error list \<Rightarrow> location list precise \<Rightarrow> location list precise" where
  "settle_references E qs errors base =
     (let all_external = (pr_value base = [] \<and> pr_note base \<noteq> None);
          c1 = cap_confidence (pr_confidence base) (qs_cap qs);
          n1 = (case pr_note base of Some n \<Rightarrow> [n] | None \<Rightarrow> []) @ (case qs_note qs of Some n \<Rightarrow> [n] | None \<Rightarrow> []);
          (c2, n2) = (if errors \<noteq> [] then (Unknown, n1 @ [partial_note E ''anchor'' errors (length (qs_sites qs))]) else (c1, n1));
          (c3, n3) = (if qs_in_comment qs then (Unknown, n2 @ [in_comment_note]) else (c2, n2));
          (c4, n4) = (if pr_value base = [] \<and> \<not> all_external \<and> c3 = Exact
                      then (Unknown, n3 @ [no_references_note (qs_sites qs)]) else (c3, n3))
      in \<lparr>pr_value = pr_value base, pr_confidence = c4, pr_note = join_notes n4\<rparr>)"

definition find_references ::
  "query_env \<Rightarrow> lang_server option \<Rightarrow> rel_path \<Rightarrow> symbol_at \<Rightarrow> location list precise run" where
  "find_references E server path target =
     (case server of
        None \<Rightarrow> Ret (unavailable_without_server path)
      | Some sv \<Rightarrow>
          run_bind (resolve_query_site E sv path target) (\<lambda>r.
            case r of
              Inl (SiteLsp err) \<Rightarrow> Ret (references_failed E path target err)
            | Inl (SiteFailed failed) \<Rightarrow> Ret failed
            | Inr qs \<Rightarrow>
                (case ask_sites (sv_references sv) 0 (qs_sites qs) of (hits, errors, attempted) \<Rightarrow>
                   if length errors = attempted
                   then (if errors = [] then Panic else Ret (references_failed E path target (hd errors)))
                   else run_bind (finalize_hits E hits path) (\<lambda>r.
                          Ret (settle_references E qs errors (guard_cold_index (sv_busy sv 0) r))))))"

section \<open>Definitions\<close>

record definition_positions =
  df_positions :: "position list"
  df_note :: "string option"
  df_cap :: "confidence option"

definition resolve_definition_positions ::
  "query_env \<Rightarrow> rel_path \<Rightarrow> symbol_at \<Rightarrow> (location list precise + definition_positions) run" where
  "resolve_definition_positions E path target =
     (case target of
        At pos \<Rightarrow> Ret (Inr \<lparr>df_positions = [pos], df_note = None, df_cap = None\<rparr>)
      | Named name \<Rightarrow>
          (case locate_named E path name ''definitions'' of
             Inl reason \<Rightarrow> Ret (Inl (precise_unknown [] reason))
           | Inr (Definitions defs) \<Rightarrow>
               (let amount = length defs;
                    many = ambiguous_definitions_mark @ '' '' @ ticked name @ '' has '' @ show_nat amount
                           @ '' declarations in '' @ as_str path
                in if amount = 0 then Panic
                   else Ret (Inr (if amount > max_definition_anchors
                   then \<lparr>df_positions = take max_definition_anchors defs,
                         df_note = Some (many @ ''; definitions of the first '' @ show_nat max_definition_anchors
                           @ '' only (incomplete). Pass line/character to target one''),
                         df_cap = Some Syntactic\<rparr>
                   else if amount > 1
                   then \<lparr>df_positions = defs,
                         df_note = Some (many @ ''; definitions of all of them are listed. Pass line/character to target one''),
                         df_cap = Some Scoped\<rparr>
                   else \<lparr>df_positions = [hd defs], df_note = None, df_cap = None\<rparr>)))
           | Inr (Usage pos) \<Rightarrow> Ret (Inr \<lparr>df_positions = [pos], df_note = None, df_cap = None\<rparr>)
           | Inr _ \<Rightarrow> Panic))"

text \<open>Unlike the references, every position is asked, whatever errors come.\<close>

fun ask_positions ::
  "(nat \<Rightarrow> rel_path \<Rightarrow> position \<Rightarrow> lsp_error + location list) \<Rightarrow> nat \<Rightarrow> rel_path \<Rightarrow> position list
     \<Rightarrow> location list \<times> lsp_error list" where
  "ask_positions ask i path [] = ([], [])"
| "ask_positions ask i path (pos # ps) =
     (case ask_positions ask (Suc i) path ps of (hits, errors) \<Rightarrow>
        case ask i path pos of
          Inr found \<Rightarrow> (found @ hits, errors)
        | Inl err \<Rightarrow> (hits, err # errors))"

definition goto_definition ::
  "query_env \<Rightarrow> lang_server option \<Rightarrow> rel_path \<Rightarrow> symbol_at \<Rightarrow> location list precise run" where
  "goto_definition E server path target =
     (case server of
        None \<Rightarrow> Ret (unavailable_definition_without_server path)
      | Some sv \<Rightarrow>
          run_bind (resolve_definition_positions E path target) (\<lambda>found. case found of
             Inl failed \<Rightarrow> Ret failed
           | Inr dp \<Rightarrow>
               (case ask_positions (sv_definition sv) 0 path (df_positions dp) of (hits, errors) \<Rightarrow>
                  if length errors = length (df_positions dp)
                  then (if errors = [] then Panic else Ret (degrade_definition E (hd errors)))
                  else run_bind (finalize_hits E hits path) (\<lambda>r.
                    let base = guard_cold_index (sv_busy sv 0) r;
                        n1 = (case pr_note base of Some n \<Rightarrow> [n] | None \<Rightarrow> []) @ (case df_note dp of Some n \<Rightarrow> [n] | None \<Rightarrow> []);
                        (c, n2) = (if errors \<noteq> []
                          then (Unknown, n1 @ [partial_note E ''definition'' errors (length (df_positions dp))])
                          else (cap_confidence (pr_confidence base) (df_cap dp), n1))
                    in Ret \<lparr>pr_value = pr_value base, pr_confidence = c, pr_note = join_notes n2\<rparr>))))"

section \<open>Hover\<close>

text \<open>What the code reads of a JSON value of \<open>serde_json\<close>, with values as a type parameter.\<close>

record 'v json_view =
  jv_null :: "'v \<Rightarrow> bool"
  jv_object :: "'v \<Rightarrow> bool"
  jv_get :: "'v \<Rightarrow> string \<Rightarrow> 'v option"
  jv_str :: "'v \<Rightarrow> string option"
  jv_array :: "'v \<Rightarrow> 'v list option"
  jv_entries :: "'v \<Rightarrow> (string \<times> 'v) list option"
  jv_u64 :: "'v \<Rightarrow> u64 option"
  jv_number :: "'v \<Rightarrow> string option"

definition marked_string_text :: "'v json_view \<Rightarrow> 'v \<Rightarrow> string option" where
  "marked_string_text J v =
     (case jv_str J v of
        Some t \<Rightarrow> Some t
      | None \<Rightarrow> if jv_object J v then Option.bind (jv_get J v ''value'') (jv_str J) else None)"

definition hover_parts :: "'v json_view \<Rightarrow> 'v \<Rightarrow> string list" where
  "hover_parts J contents =
     (case jv_str J contents of
        Some t \<Rightarrow> [t]
      | None \<Rightarrow>
          (case jv_array J contents of
             Some items \<Rightarrow> List.map_filter (marked_string_text J) items
           | None \<Rightarrow> (case marked_string_text J contents of Some t \<Rightarrow> [t] | None \<Rightarrow> [])))"

definition parse_hover :: "'v json_view \<Rightarrow> 'v \<Rightarrow> string option" where
  "parse_hover J v =
     (if jv_null J v then None
      else case jv_get J v ''contents'' of
             None \<Rightarrow> None
           | Some contents \<Rightarrow>
               (let trimmed = trim (join_with [CHR 0x0A, CHR 0x0A] (hover_parts J contents))
                in if trimmed = [] then None else Some trimmed))"

text \<open>\<open>str::replace\<close> for a non-empty pattern.\<close>

function replace_sub :: "string \<Rightarrow> string \<Rightarrow> string \<Rightarrow> string" where
  "replace_sub p q s =
     (if p = [] then s
      else case find_sub s p of
             None \<Rightarrow> s
           | Some i \<Rightarrow> take i s @ q @ replace_sub p q (drop (i + length p) s))"
  by pat_completeness auto
termination
proof (relation "measure (\<lambda>(p, q, s). length s)", goal_cases)
  case (2 p q s i)
  then have "i + length p \<le> length s" using find_sub_bound by blast
  with 2 show ?case by (cases p) auto
qed simp

declare replace_sub.simps [simp del]

lemma replace_sub_length:
  "length q \<le> length p \<Longrightarrow> length (replace_sub p q s) \<le> length s"
proof (induction p q s rule: replace_sub.induct)
  case (1 p q s)
  show ?case
  proof (cases "p = [] \<or> find_sub s p = None")
    case True
    then show ?thesis by (auto simp: replace_sub.simps [of p q s] split: option.split)
  next
    case False
    then obtain i where i: "find_sub s p = Some i" "p \<noteq> []" by auto
    show ?thesis
      using find_sub_bound [OF i(1)] 1(1) [OF i(2) i(1) 1(2)] i 1(2) by (auto simp: replace_sub.simps [of p q s])
  qed
qed

lemma replace_sub_shorter:
  assumes "length q < length p" "contains_sub s p"
  shows "length (replace_sub p q s) < length s"
proof -
  obtain i where i: "find_sub s p = Some i" using assms(2) by (auto simp: contains_sub_def)
  have "length (replace_sub p q (drop (i + length p) s)) \<le> length (drop (i + length p) s)"
    by (rule replace_sub_length) (use assms(1) in simp)
  then show ?thesis
    using find_sub_bound [OF i] assms(1) i by (auto simp: replace_sub.simps [of p q s])
qed

function collapse_spaces :: "string \<Rightarrow> string" where
  "collapse_spaces r =
     (if contains_sub r ''  '' then collapse_spaces (replace_sub ''  '' '' '' r) else r)"
  by pat_completeness auto
termination
  by (relation "measure length") (use replace_sub_shorter [of "'' ''" "''  ''"] in auto)

declare collapse_spaces.simps [simp del]

definition hover_fallback_hint :: string where
  "hover_fallback_hint = ''callers can fall back to a plain symbol-name anchor''"

definition sanitize_hover_site_reason :: "string \<Rightarrow> string" where
  "sanitize_hover_site_reason reason =
     (let r1 = replace_sub text_search_hint [] reason;
          r2 = replace_sub ''cannot provide precise references'' ''cannot provide precise hover information'' r1;
          r3 = collapse_spaces r2;
          r4 = replace_sub '' .'' ''.'' r3;
          r5 = replace_sub '';;'' '';'' r4
      in concat (rev (dropWhile (\<lambda>c. c = ''.'' \<or> c = '';'' \<or> is_ws_char c) (rev (utf8_chars (trim r5))))))"

definition hover_locate_failed :: "string \<Rightarrow> string option precise" where
  "hover_locate_failed reason =
     precise_unknown None (sanitize_hover_site_reason reason @ ''. '' @ hover_fallback_hint)"

definition resolve_named_hover_site ::
  "query_env \<Rightarrow> lang_server \<Rightarrow> rel_path \<Rightarrow> string \<Rightarrow> (string option precise + rel_path \<times> position) run" where
  "resolve_named_hover_site E server path name =
     (if name = []
      then Ret (Inl (hover_locate_failed ''empty symbol name; cannot provide precise hover information''))
      else case locate_named E path name ''hover information'' of
             Inl reason \<Rightarrow> Ret (Inl (hover_locate_failed reason))
           | Inr (Definitions defs) \<Rightarrow> (if defs = [] then Panic else Ret (Inr (path, hd defs)))
           | Inr (Usage pos) \<Rightarrow>
               (case sv_definition server 0 path pos of
                  Inl _ \<Rightarrow> Ret (Inr (path, pos))
                | Inr defs \<Rightarrow>
                    run_bind (classify_all E defs) (\<lambda>(in_repo, _).
                      case sort in_repo of
                        [(p, start, _)] \<Rightarrow> Ret (Inr (if \<not> sv_busy server 0 then (p, start) else (path, pos)))
                      | _ \<Rightarrow> Ret (Inr (path, pos))))
           | Inr _ \<Rightarrow> Panic)"

definition resolve_hover_site ::
  "query_env \<Rightarrow> lang_server \<Rightarrow> rel_path \<Rightarrow> symbol_at \<Rightarrow> (string option precise + rel_path \<times> position) run" where
  "resolve_hover_site E server path target =
     (case target of
        At pos \<Rightarrow> Ret (Inr (path, pos))
      | Named name \<Rightarrow> resolve_named_hover_site E server path name)"

definition guard_cold_hover :: "bool \<Rightarrow> string option precise \<Rightarrow> string option precise" where
  "guard_cold_hover busy r =
     (if \<not> busy then r
      else if pr_value r \<noteq> None then downgrade_incomplete r
      else precise_unknown (pr_value r) cold_note)"

definition degrade_hover :: "query_env \<Rightarrow> lsp_error \<Rightarrow> string option precise" where
  "degrade_hover E err =
     precise_unknown None (err_text E err @ ''; cannot provide precise hover information. '' @ hover_fallback_hint)"

definition unavailable_hover_without_server :: "rel_path \<Rightarrow> string option precise" where
  "unavailable_hover_without_server path =
     precise_unknown None (server_name path @ '' is not installed; cannot provide precise hover information. ''
       @ hover_fallback_hint)"

text \<open>\<open>busy\<close> is the server's state after the answer has come.\<close>

definition hover ::
  "'v json_view \<Rightarrow> query_env \<Rightarrow> lang_server option \<Rightarrow> rel_path \<Rightarrow> symbol_at \<Rightarrow> (rel_path \<Rightarrow> position \<Rightarrow> lsp_error + 'v) \<Rightarrow> bool
     \<Rightarrow> string option precise run" where
  "hover J E server path target issue busy =
     (case server of
        None \<Rightarrow> Ret (unavailable_hover_without_server path)
      | Some sv \<Rightarrow>
          run_bind (resolve_hover_site E sv path target) (\<lambda>site.
            case site of
              Inl failed \<Rightarrow> Ret failed
            | Inr (query_path, query_pos) \<Rightarrow>
                Ret (case issue query_path query_pos of
                       Inr v \<Rightarrow> guard_cold_hover busy (precise_exact (parse_hover J v))
                     | Inl err \<Rightarrow> degrade_hover E err)))"

section \<open>Panics\<close>

lemma run_bind_Ret: "run_bind r f = Ret b \<longleftrightarrow> (\<exists>a. r = Ret a \<and> f a = Ret b)"
  by (cases r) simp_all

lemma split_char_panics: "5 < length p \<Longrightarrow> is_cont (p ! 5) \<Longrightarrow> lsp_path_to_rel E p = Panic"
  by (simp add: lsp_path_to_rel_def looks_like_file_uri_def)

lemma classify_all_panics:
  assumes "hit \<in> set hits" "lsp_path_to_rel E (as_str (fst hit)) = Panic"
  shows "classify_all E hits = Panic"
  using assms(1)
proof (induction hits)
  case (Cons h hits)
  show ?case
  proof (cases "h = hit")
    case True
    then show ?thesis using assms(2) by simp
  next
    case False
    then have "classify_all E hits = Panic" using Cons by simp
    then show ?thesis
      by (cases "lsp_path_to_rel E (as_str (fst h))"; cases "display_external E (as_str (fst h))") (auto split: option.split)
  qed
qed simp

section \<open>Repository paths stay inside\<close>

lemma slashify_slashify [simp]: "slashify (slashify s) = slashify s"
  by (simp add: slashify_def)

lemma climbs_slash: "climbs (slash # s) = climbs s"
  by (simp add: climbs_def split_on_def)

lemma climbs_dot: "climbs (''./'' @ s) = climbs s"
  by (simp add: climbs_def split_on_def)

lemma climbs_drop_slashes: "climbs (dropWhile (\<lambda>c. c = slash) s) = climbs s"
  by (induction s) (auto simp: climbs_slash)

lemma rel_new_loop_climbs: "climbs (rel_new_loop s) = climbs s"
proof (induction s rule: rel_new_loop.induct)
  case (1 s)
  let ?t = "dropWhile (\<lambda>c. c = slash) s"
  show ?case
  proof (cases "strip_prefix ?t ''./''")
    case None
    then show ?thesis by (simp add: rel_new_loop.simps [of s] climbs_drop_slashes)
  next
    case (Some rest)
    then have "?t = ''./'' @ rest" by (simp add: strip_prefix_Some_iff)
    then have "climbs rest = climbs s" using climbs_dot [of rest] climbs_drop_slashes [of s] by simp
    then show ?thesis using 1 Some by (simp add: rel_new_loop.simps [of s])
  qed
qed

lemma rel_path_new_climbs: "climbs (as_str (rel_path_new s)) = climbs (slashify s)"
  by (simp add: rel_path_new_def rel_new_loop_climbs)

lemma path_to_rel_inside: "path_to_rel s = Some r \<Longrightarrow> \<not> climbs (as_str r)"
  by (auto simp: path_to_rel_def Let_def rel_path_new_climbs split: if_splits)

lemma rel_under_root_inside: "rel_under_root E s = Some r \<Longrightarrow> \<not> climbs (as_str r)"
  by (auto simp: rel_under_root_def split: option.splits dest: path_to_rel_inside)

lemma no_backslash_slashify: "backslash \<notin> set (slashify s)"
  by (auto simp: slashify_def)

lemma strip_root_string_inside:
  assumes "strip_root_string E raw = Some r" "backslash \<notin> set raw"
  shows "\<not> climbs (as_str r)"
proof -
  obtain root rest where rest: "strip_prefix (drop_slashes raw) root = Some rest"
    and r: "\<not> climbs (drop_slashes rest)" "r = rel_path_new (drop_slashes rest)"
    using assms(1) by (auto simp: strip_root_string_def Let_def split: if_splits option.splits)
  have "set (drop_slashes rest) \<subseteq> set raw"
    using rest by (auto simp: drop_slashes_def strip_prefix_Some_iff dest!: set_dropWhileD)
      (metis Un_iff set_append set_dropWhileD)
  then have "slashify (drop_slashes rest) = drop_slashes rest" using assms(2) by (intro slashify_id) blast
  with r show ?thesis by (simp add: rel_path_new_climbs)
qed

lemma lsp_path_inside:
  assumes "lsp_path_to_rel E p = Ret (Some r)"
  shows "\<not> climbs (as_str r)"
proof -
  obtain uri where uri: "looks_like_file_uri p = Ret uri" using assms by (auto simp: lsp_path_to_rel_def run_bind_Ret)
  show ?thesis
  proof (cases uri)
    case True
    then show ?thesis using assms uri rel_under_root_inside
      by (auto simp: lsp_path_to_rel_def abs_path_from_lsp_def split: option.splits)
  next
    case False
    then show ?thesis
      using assms uri rel_under_root_inside strip_root_string_inside [OF _ no_backslash_slashify]
      by (auto simp: lsp_path_to_rel_def Let_def rel_path_new_climbs split: option.splits if_splits)
  qed
qed

section \<open>Answers\<close>

lemma classify_all_in_repo:
  assumes "classify_all E hits = Ret (in_repo, external)"
  shows "set in_repo = {(p, rg). \<exists>q. (q, rg) \<in> set hits \<and> lsp_path_to_rel E (as_str q) = Ret (Some p)}
    \<and> (external = [] \<longleftrightarrow> (\<forall>q\<in>fst ` set hits. lsp_path_to_rel E (as_str q) \<noteq> Ret None))"
  using assms
proof (induction hits arbitrary: in_repo external)
  case (Cons h hits)
  obtain q rg where h: "h = (q, rg)" by (cases h)
  obtain r where r: "lsp_path_to_rel E (as_str q) = Ret r" using Cons.prems h by (auto simp: run_bind_Ret)
  show ?case
  proof (cases r)
    case None
    obtain d ex where "classify_all E hits = Ret (in_repo, ex)" "external = d # ex"
      using Cons.prems r None h by (auto simp: run_bind_Ret)
    with Cons.IH [of in_repo ex] r None h show ?thesis by auto
  next
    case (Some p)
    obtain i where i: "classify_all E hits = Ret (i, external)" "in_repo = (p, rg) # i"
      using Cons.prems r Some h by (auto simp: run_bind_Ret)
    have "lsp_path_to_rel E (as_str q) = Ret (Some p)" using r Some by simp
    with Cons.IH [OF i(1)] i(2) h show ?thesis by auto
  qed
qed simp

abbreviation location_key :: "rel_path \<Rightarrow> location \<Rightarrow> bool \<times> rel_path \<times> range" where
  "location_key origin l \<equiv> (fst l \<noteq> origin, fst l, snd l)"

lemma sort_locations_eq: "sort_locations origin locs = remdups_adj (sort_key (location_key origin) locs)"
  by (simp add: sort_locations_def split_def)

lemma location_key_inj: "inj (location_key origin)"
  by (auto simp: inj_def prod_eq_iff)

lemma sort_locations_sorted:
  "sorted (map (location_key origin) (sort_locations origin locs)) \<and> distinct (sort_locations origin locs)
   \<and> set (sort_locations origin locs) = set locs"
proof -
  let ?xs = "sort_key (location_key origin) locs" and ?k = "location_key origin"
  have "sorted (remdups_adj (map ?k ?xs)) \<and> distinct (remdups_adj (map ?k ?xs))"
    using sorted_imp_distinct_remdups_adj [of "map ?k ?xs"] by simp
  then show ?thesis
    unfolding sort_locations_eq remdups_adj_map_injective [OF location_key_inj] by (simp add: distinct_map)
qed

lemma ask_sites_ok:
  assumes "ask_sites ask i sites = (hits, [], n)"
  shows "n = length sites \<and> (\<forall>k<length sites. \<exists>found. ask (i + k) (fst (sites ! k)) (snd (sites ! k)) = Inr found \<and> set found \<subseteq> set hits)
    \<and> (\<forall>h\<in>set hits. \<exists>k<length sites. \<exists>found. ask (i + k) (fst (sites ! k)) (snd (sites ! k)) = Inr found \<and> h \<in> set found)"
  using assms
proof (induction sites arbitrary: i hits n)
  case (Cons site sites)
  obtain p pos where s: "site = (p, pos)" by (cases site)
  obtain found where f: "ask i p pos = Inr found"
    using Cons.prems s by (auto split: sum.splits lsp_error.splits prod.splits)
  obtain hits' m where rest: "ask_sites ask (Suc i) sites = (hits', [], m)" "hits = found @ hits'" "n = Suc m"
    using Cons.prems s f by (auto split: prod.splits)
  note IH = Cons.IH [OF rest(1)]
  have "\<exists>found. ask (i + k) (fst ((site # sites) ! k)) (snd ((site # sites) ! k)) = Inr found \<and> set found \<subseteq> set hits"
    if "k < length (site # sites)" for k
  proof (cases k)
    case 0
    then show ?thesis using s f rest(2) by simp
  next
    case (Suc j)
    with IH that have "\<exists>found. ask (Suc i + j) (fst (sites ! j)) (snd (sites ! j)) = Inr found \<and> set found \<subseteq> set hits'" by simp
    then show ?thesis using Suc rest(2) by auto
  qed
  moreover have "\<exists>k<length (site # sites). \<exists>found. ask (i + k) (fst ((site # sites) ! k)) (snd ((site # sites) ! k)) = Inr found \<and> h \<in> set found"
    if "h \<in> set hits" for h
  proof (cases "h \<in> set found")
    case True
    then show ?thesis using s f by (intro exI [of _ 0]) simp
  next
    case False
    with that rest(2) IH obtain k fs where "k < length sites" "ask (Suc i + k) (fst (sites ! k)) (snd (sites ! k)) = Inr fs" "h \<in> set fs"
      by auto
    then show ?thesis by (intro exI [of _ "Suc k"]) simp
  qed
  ultimately show ?case using IH rest(3) by simp
qed simp

lemma resolve_uncapped:
  assumes "resolve_query_site E sv path target = Ret (Inr qs)" "qs_cap qs = None"
  shows "length (qs_sites qs) \<le> 1"
  using assms
  by (auto simp: resolve_query_site_def resolve_named_site_def limit_sites_def Let_def run_bind_Ret
    split: symbol_at.splits sum.splits anchor.splits if_splits)

lemma text_references_not_exact: "pr_confidence (text_references U raw read late path name reason files) \<noteq> Exact"
  by (simp add: text_references_def split_def Let_def split: option.split)

lemma references_failed_not_exact: "pr_confidence (references_failed E path target err) \<noteq> Exact"
  by (auto simp: references_failed_def timeout_fallback_def degrade_def precise_unknown_def text_references_not_exact
    split: option.split lsp_error.split)

lemma resolve_failed_not_exact:
  "resolve_query_site E sv path target = Ret (Inl (SiteFailed failed)) \<Longrightarrow> pr_confidence failed \<noteq> Exact"
  by (auto simp: resolve_query_site_def resolve_named_site_def Let_def run_bind_Ret precise_unknown_def
    split: symbol_at.splits sum.splits anchor.splits if_splits)

lemma cap_exact: "cap_confidence c cap = Exact \<Longrightarrow> c = Exact \<and> (cap = None \<or> cap = Some Exact)"
  by (cases cap; cases c; cases "the cap") (auto simp: cap_confidence_def split: if_splits)

lemma limit_cap: "qs_cap (limit_sites name sites) \<noteq> Some Exact"
  by (simp add: limit_sites_def Let_def)

lemma resolve_cap:
  "resolve_query_site E sv path target = Ret (Inr qs) \<Longrightarrow> qs_cap qs \<noteq> Some Exact"
  using limit_cap
  by (auto simp: resolve_query_site_def resolve_named_site_def Let_def run_bind_Ret
    split: symbol_at.splits sum.splits anchor.splits if_splits)

lemma settle_exact:
  assumes "pr_confidence (settle_references E qs errors base) = Exact"
  shows "errors = [] \<and> \<not> qs_in_comment qs \<and> cap_confidence (pr_confidence base) (qs_cap qs) = Exact
    \<and> (pr_value base = [] \<longrightarrow> pr_note base \<noteq> None)"
  using assms by (auto simp: settle_references_def Let_def split: if_splits)

lemma settle_value: "pr_value (settle_references E qs errors base) = pr_value base"
  by (simp add: settle_references_def Let_def split_def)

lemma guard_exact:
  assumes "pr_confidence (guard_cold_index busy r) = Exact"
  shows "\<not> busy \<and> guard_cold_index busy r = r"
  using assms by (auto simp: guard_cold_index_def downgrade_incomplete_def precise_unknown_def split: if_splits)

section \<open>Properties\<close>


definition demo_query_env :: query_env where
  "demo_query_env =
     \<lparr>qe_root = ''/w'', qe_canonical = (\<lambda>_. None), qe_lossy = (\<lambda>s. s), qe_unicode = ascii_tables,
      qe_read = (\<lambda>_. Inr ''fn go''), qe_raw = (\<lambda>_. None), qe_late = (\<lambda>_. False), qe_files = [],
      qe_tree = (\<lambda>_ _ _. None), qe_in_comment = (\<lambda>_ _ _. None), qe_code_mask = (\<lambda>_ _ _. None),
      qe_duration = (\<lambda>_. [])\<rparr>"

definition demo_server :: "string \<Rightarrow> lang_server" where
  "demo_server hit =
     \<lparr>sv_references = (\<lambda>_ _ _. Inr [(RelPath hit, ((0, 3), (0, 5)))]), sv_definition = (\<lambda>_ _ _. Inr []),
      sv_busy = (\<lambda>_. False)\<rparr>"

lemma demo_path: "lsp_path_to_rel demo_query_env ''src/a.rs'' = Ret (Some (RelPath ''src/a.rs''))"
  by code_simp

lemma demo_answer:
  "find_references demo_query_env (Some (demo_server ''src/a.rs'')) (RelPath ''src/a.rs'') (At (0, 3))
     = Ret \<lparr>pr_value = [(RelPath ''src/a.rs'', ((0, 3), (0, 5)))], pr_confidence = Exact, pr_note = None\<rparr>"
proof -
  have "qe_read demo_query_env = (\<lambda>_. Inr ''fn go'')" "qe_in_comment demo_query_env = (\<lambda>_ _ _. None)"
    by (simp_all add: demo_query_env_def)
  then show ?thesis
    using demo_path
    by (simp add: find_references_def resolve_query_site_def read_source_def demo_server_def finalize_hits_def
      sort_locations_def external_note_def guard_cold_index_def settle_references_def Let_def cap_confidence_def
      join_notes_def)
qed


text \<open>C10: The locations of an answer are in canonical form: those of the origin file first, then by path and
  range, each once, and exactly the server's hits that lie inside the repository; none of their paths
  climbs out of it with a \<open>..\<close> segment.\<close>

theorem reference_list_canonical:
  assumes "finalize_hits E hits origin = Ret r"
  shows "sorted (map (location_key origin) (pr_value r)) \<and> distinct (pr_value r)
    \<and> set (pr_value r) = {(p, rg). \<exists>q. (q, rg) \<in> set hits \<and> lsp_path_to_rel E (as_str q) = Ret (Some p)}
    \<and> (\<forall>l\<in>set (pr_value r). ''..'' \<notin> set (split_on slash (as_str (fst l))))"
proof -
  obtain in_repo external where cl: "classify_all E hits = Ret (in_repo, external)"
    and v: "pr_value r = sort_locations origin in_repo"
    using assms by (auto simp: finalize_hits_def run_bind_Ret Let_def)
  have s: "set (pr_value r) = {(p, rg). \<exists>q. (q, rg) \<in> set hits \<and> lsp_path_to_rel E (as_str q) = Ret (Some p)}"
    using sort_locations_sorted [of origin in_repo] classify_all_in_repo [OF cl] v by simp
  have "\<not> climbs (as_str (fst l))" if "l \<in> set (pr_value r)" for l
    using that lsp_path_inside unfolding s by fastforce
  with s v sort_locations_sorted [of origin in_repo] show ?thesis by (simp add: climbs_def)
qed

theorem reference_list_canonical_witness:
  "\<exists>r. finalize_hits demo_query_env [(RelPath ''src/a.rs'', ((0, 3), (0, 5)))] (RelPath ''b.rs'') = Ret r \<and> distinct (pr_value r)"
proof -
  have "\<exists>r. finalize_hits demo_query_env [(RelPath ''src/a.rs'', ((0, 3), (0, 5)))] (RelPath ''b.rs'') = Ret r"
    using demo_path by (simp add: finalize_hits_def Let_def)
  then show ?thesis using reference_list_canonical by blast
qed

text \<open>C33: A reference in a file whose path has its sixth byte inside a character takes the query down:
  \<open>looks_like_file_uri\<close> slices the first five bytes of every path a server reports, so that one hit in a file
  such as \<open>src/\<close> followed by a character of two bytes or more makes \<open>find_references\<close> panic.\<close>

theorem split_char_path_panics:
  assumes "5 < length (as_str file)" and "is_cont (as_str file ! 5)"
    and "sv_references sv 0 path pos = Inr found" and "(file, rg) \<in> set found"
  shows "find_references E (Some sv) path (At pos) = Panic"
proof -
  have "lsp_path_to_rel E (as_str (fst (file, rg))) = Panic" using split_char_panics [OF assms(1,2)] by simp
  then have "classify_all E found = Panic" by (rule classify_all_panics [OF assms(4)])
  then show ?thesis
    using assms(3) by (simp add: find_references_def resolve_query_site_def finalize_hits_def)
qed

theorem split_char_path_panics_witness:
  "find_references demo_query_env (Some (demo_server (''src/'' @ [CHR 0xE4, CHR 0xB8, CHR 0xAD] @ ''.rs''))) (RelPath ''a.rs'') (At (0, 3)) = Panic"
proof (rule split_char_path_panics)
  show "5 < length (as_str (RelPath (''src/'' @ [CHR 0xE4, CHR 0xB8, CHR 0xAD] @ ''.rs'')))" by simp
  show "is_cont (as_str (RelPath (''src/'' @ [CHR 0xE4, CHR 0xB8, CHR 0xAD] @ ''.rs'')) ! 5)" by code_simp
  show "(RelPath (''src/'' @ [CHR 0xE4, CHR 0xB8, CHR 0xAD] @ ''.rs''), ((0, 3), (0, 5))) \<in> set [(RelPath (''src/'' @ [CHR 0xE4, CHR 0xB8, CHR 0xAD] @ ''.rs''), (((0, 3), (0, 5)) :: range))]"
    by simp
qed (simp add: demo_server_def)

end
