(* ===== verification/Diagnostics.thy ===== *)
theory Diagnostics
  imports Queries DocSync
begin

text \<open>
  Diagnostics of a file (\<open>astrolabe-core/src/lsp/diagnostics.rs\<close>): the choice between asking the server and
  waiting for what it publishes, severities and their filter, the notes of a failed check; and the
  conversions of \<open>lsp/transport.rs\<close> from the JSON of the server to positions, locations, edits and
  diagnostics.  JSON values are a type parameter with the accessors of \<open>json_view\<close>; \<open>lsp_types\<close> values are
  records of the fields the code reads; a client is the record of its operations on a state.
\<close>

section \<open>Values of the server\<close>

text \<open>\<open>as u32\<close> cuts a number of the server to 32 bits.\<close>

definition position_from_value :: "'v json_view \<Rightarrow> 'v \<Rightarrow> position option" where
  "position_from_value J v =
     (case (Option.bind (jv_get J v ''line'') (jv_u64 J), Option.bind (jv_get J v ''character'') (jv_u64 J)) of
        (Some line, Some character) \<Rightarrow> Some (ucast line, ucast character)
      | _ \<Rightarrow> None)"

definition range_from_value :: "'v json_view \<Rightarrow> 'v \<Rightarrow> range option" where
  "range_from_value J v =
     (case (Option.bind (jv_get J v ''start'') (position_from_value J), Option.bind (jv_get J v ''end'') (position_from_value J)) of
        (Some start, Some stop) \<Rightarrow> Some (start, stop)
      | _ \<Rightarrow> None)"

definition first_of :: "'v json_view \<Rightarrow> 'v \<Rightarrow> string \<Rightarrow> string \<Rightarrow> 'v option" where
  "first_of J v k1 k2 = (case jv_get J v k1 of Some w \<Rightarrow> Some w | None \<Rightarrow> jv_get J v k2)"

definition location_from_value ::
  "'v json_view \<Rightarrow> (string \<Rightarrow> string) \<Rightarrow> (string \<Rightarrow> string option) \<Rightarrow> string \<Rightarrow> 'v \<Rightarrow> location option run" where
  "location_from_value J lossy canonical root v =
     (case (Option.bind (first_of J v ''uri'' ''targetUri'') (jv_str J), first_of J v ''range'' ''targetSelectionRange'') of
        (Some uri, Some rg) \<Rightarrow>
          (case uri_to_rel lossy canonical uri root of
             Some path \<Rightarrow> Ret (map_option (\<lambda>r. (path, r)) (range_from_value J rg))
           | None \<Rightarrow>
               run_bind (looks_like_file_uri uri) (\<lambda>is_uri.
                 Ret (if is_uri then map_option (\<lambda>r. (rel_path_new uri, r)) (range_from_value J rg) else None)))
      | _ \<Rightarrow> Ret None)"

fun keep_some :: "'a option run list \<Rightarrow> 'a list run" where
  "keep_some [] = Ret []"
| "keep_some (r # rs) =
     run_bind r (\<lambda>x. run_bind (keep_some rs) (\<lambda>xs. Ret (case x of Some a \<Rightarrow> a # xs | None \<Rightarrow> xs)))"

definition locations_from_value ::
  "'v json_view \<Rightarrow> (string \<Rightarrow> string) \<Rightarrow> (string \<Rightarrow> string option) \<Rightarrow> string \<Rightarrow> 'v \<Rightarrow> location list run" where
  "locations_from_value J lossy canonical root v =
     (if jv_null J v then Ret []
      else case jv_array J v of
             Some items \<Rightarrow> keep_some (map (location_from_value J lossy canonical root) items)
           | None \<Rightarrow>
               if jv_object J v then keep_some [location_from_value J lossy canonical root v] else Ret [])"

type_synonym text_edit = "range \<times> string"

definition text_edit_from_value :: "'v json_view \<Rightarrow> 'v \<Rightarrow> text_edit option" where
  "text_edit_from_value J v =
     (case (Option.bind (jv_get J v ''range'') (range_from_value J), Option.bind (jv_get J v ''newText'') (jv_str J)) of
        (Some rg, Some new_text) \<Rightarrow> Some (rg, new_text)
      | _ \<Rightarrow> None)"

definition document_edits ::
  "'v json_view \<Rightarrow> (string \<Rightarrow> string) \<Rightarrow> (string \<Rightarrow> string option) \<Rightarrow> string \<Rightarrow> string option \<Rightarrow> 'v list
     \<Rightarrow> (rel_path \<times> text_edit list) option" where
  "document_edits J lossy canonical root uri items =
     (case Option.bind uri (\<lambda>u. uri_to_rel lossy canonical u root) of
        None \<Rightarrow> None
      | Some path \<Rightarrow>
          (let edits = List.map_filter (text_edit_from_value J) items
           in if edits = [] then None else Some (path, edits)))"

definition workspace_edit_from_value ::
  "'v json_view \<Rightarrow> (string \<Rightarrow> string) \<Rightarrow> (string \<Rightarrow> string option) \<Rightarrow> string \<Rightarrow> 'v \<Rightarrow> (rel_path \<times> text_edit list) list" where
  "workspace_edit_from_value J lossy canonical root v =
     (case Option.bind (jv_get J v ''documentChanges'') (jv_array J) of
        Some (c # cs) \<Rightarrow>
          List.map_filter (\<lambda>change.
            document_edits J lossy canonical root
              (Option.bind (Option.bind (jv_get J change ''textDocument'') (\<lambda>td. jv_get J td ''uri'')) (jv_str J))
              (case Option.bind (jv_get J change ''edits'') (jv_array J) of Some items \<Rightarrow> items | None \<Rightarrow> []))
            (c # cs)
      | _ \<Rightarrow>
          (case Option.bind (jv_get J v ''changes'') (jv_entries J) of
             None \<Rightarrow> []
           | Some changes \<Rightarrow>
               List.map_filter (\<lambda>(uri, items).
                 case jv_array J items of
                   None \<Rightarrow> None
                 | Some es \<Rightarrow> document_edits J lossy canonical root (Some uri) es) changes))"

section \<open>Severities\<close>

datatype severity = Error | Warning | Information | Hint

fun severity_no :: "severity \<Rightarrow> nat" where
  "severity_no Error = 0"
| "severity_no Warning = 1"
| "severity_no Information = 2"
| "severity_no Hint = 3"

record diagnostic =
  dg_path :: rel_path
  dg_range :: range
  dg_severity :: severity
  dg_message :: string
  dg_code :: "string option"

definition severity_from_u64 :: "u64 option \<Rightarrow> severity" where
  "severity_from_u64 n =
     (if n = Some 1 then Error else if n = Some 2 then Warning else if n = Some 3 then Information
      else if n = Some 4 then Hint else Information)"

definition diagnostic_from_value :: "'v json_view \<Rightarrow> rel_path \<Rightarrow> 'v \<Rightarrow> diagnostic option" where
  "diagnostic_from_value J path item =
     (case (Option.bind (jv_get J item ''range'') (range_from_value J), Option.bind (jv_get J item ''message'') (jv_str J)) of
        (Some rg, Some message) \<Rightarrow>
          Some \<lparr>dg_path = path, dg_range = rg,
                dg_severity = severity_from_u64 (Option.bind (jv_get J item ''severity'') (jv_u64 J)),
                dg_message = message,
                dg_code = Option.bind (jv_get J item ''code'')
                            (\<lambda>c. case jv_str J c of Some s \<Rightarrow> Some s | None \<Rightarrow> jv_number J c)\<rparr>
      | _ \<Rightarrow> None)"

definition diagnostics_from_pull :: "'v json_view \<Rightarrow> 'v \<Rightarrow> rel_path \<Rightarrow> diagnostic list" where
  "diagnostics_from_pull J v path =
     List.map_filter (diagnostic_from_value J path)
       (case Option.bind (jv_get J v ''items'') (jv_array J) of
          Some items \<Rightarrow> items
        | None \<Rightarrow> (case jv_array J v of Some items \<Rightarrow> items | None \<Rightarrow> []))"

text \<open>A diagnostic of \<open>lsp_types\<close>: the severity is its number in the protocol, a code a number's text or a
  string.\<close>

record lsp_diagnostic =
  ld_range :: range
  ld_severity :: "nat option"
  ld_message :: string
  ld_code :: "string option"

definition severity_of_lsp :: "severity \<Rightarrow> nat option \<Rightarrow> severity" where
  "severity_of_lsp missing n =
     (if n = Some 1 then Error else if n = Some 2 then Warning else if n = Some 3 then Information
      else if n = Some 4 then Hint else missing)"

text \<open>Published diagnostics as \<open>transport.rs\<close> converts them, and as \<open>diagnostics.rs\<close> does.\<close>

definition diagnostic_from_lsp :: "rel_path \<Rightarrow> lsp_diagnostic \<Rightarrow> diagnostic" where
  "diagnostic_from_lsp path d =
     \<lparr>dg_path = path, dg_range = ld_range d, dg_severity = severity_of_lsp Information (ld_severity d),
      dg_message = ld_message d, dg_code = ld_code d\<rparr>"

definition from_lsp_diagnostic :: "rel_path \<Rightarrow> lsp_diagnostic \<Rightarrow> diagnostic" where
  "from_lsp_diagnostic path d =
     \<lparr>dg_path = path, dg_range = ld_range d, dg_severity = severity_of_lsp Error (ld_severity d),
      dg_message = ld_message d, dg_code = ld_code d\<rparr>"

datatype document_report = Full "lsp_diagnostic list" | Unchanged

definition from_document_diagnostic_report :: "rel_path \<Rightarrow> document_report \<Rightarrow> diagnostic list option" where
  "from_document_diagnostic_report path report =
     (case report of Full items \<Rightarrow> Some (map (from_lsp_diagnostic path) items) | Unchanged \<Rightarrow> None)"

datatype severity_filter = Errors | ErrorsAndWarnings | AllSeverities

definition allows :: "severity_filter \<Rightarrow> severity \<Rightarrow> bool" where
  "allows f s =
     (case f of
        Errors \<Rightarrow> s = Error
      | ErrorsAndWarnings \<Rightarrow> severity_no s \<le> severity_no Warning
      | AllSeverities \<Rightarrow> True)"

definition diagnostic_key ::
  "diagnostic \<Rightarrow> rel_path \<times> position \<times> position \<times> nat \<times> string \<times> bool \<times> string" where
  "diagnostic_key d =
     (dg_path d, fst (dg_range d), snd (dg_range d), severity_no (dg_severity d), dg_message d,
      dg_code d \<noteq> None, case dg_code d of Some c \<Rightarrow> c | None \<Rightarrow> [])"

definition sort_diagnostics :: "diagnostic list \<Rightarrow> diagnostic list" where
  "sort_diagnostics = sort_key diagnostic_key"

definition finalize :: "diagnostic list \<Rightarrow> severity_filter \<Rightarrow> diagnostic list precise" where
  "finalize ds flt = precise_exact (sort_diagnostics (filter (\<lambda>d. allows flt (dg_severity d)) ds))"

section \<open>Notes\<close>

definition default_push_timeout :: nat where "default_push_timeout = 2500"

text \<open>Milliseconds; \<open>show_tenths\<close> is the \<open>{:.1}\<close> of the seconds as a float.\<close>

definition format_timeout :: "(nat \<Rightarrow> string) \<Rightarrow> nat \<Rightarrow> string" where
  "format_timeout show_tenths ms =
     (if 1000 \<le> ms \<and> ms mod 1000 = 0 then show_nat (ms div 1000) @ ''s''
      else if 1000 \<le> ms then show_tenths ms @ ''s''
      else show_nat ms @ ''ms'')"

record note_env =
  ne_tenths :: "nat \<Rightarrow> string"
  ne_duration :: "nat \<Rightarrow> string"

definition error_note :: "note_env \<Rightarrow> lsp_error \<Rightarrow> rel_path \<Rightarrow> string" where
  "error_note N err path =
     (case err of
        Unavailable l hint \<Rightarrow>
          ''language server not installed or not configured for '' @ language_debug l
          @ ''; cannot check diagnostics for '' @ as_str path @ ''. Install or set ASTROLABE_LSP_*: '' @ hint
      | TimeoutErr t \<Rightarrow>
          ''language server timed out after '' @ format_timeout (ne_tenths N) t @ '' checking diagnostics for '' @ as_str path
          @ ''. The server is present but did not answer in time '' @ [CHR 0xE2, CHR 0x80, CHR 0x94]
          @ '' this is a timeout, not a missing install. Retry, or call get_diagnostics without lsp=true to use the toolchain/parser checker.''
      | Startup l why \<Rightarrow>
          ''language server for '' @ language_debug l @ '' failed to start ('' @ why @ ''); cannot check diagnostics for '' @ as_str path
      | other \<Rightarrow> ''could not fetch diagnostics for '' @ as_str path @ '': '' @ lsp_display (ne_duration N) other)"

definition never_received_note :: "note_env \<Rightarrow> rel_path \<Rightarrow> nat \<Rightarrow> string" where
  "never_received_note N path timeout =
     ''language server timed out after '' @ format_timeout (ne_tenths N) timeout
     @ '' waiting for textDocument/publishDiagnostics on '' @ as_str path
     @ ''; the server never published '' @ [CHR 0xE2, CHR 0x80, CHR 0x94]
     @ '' this is a timeout (server present), not a missing install, and an empty list does not mean the file is clean. Retry, or call get_diagnostics without lsp=true to use the toolchain/parser checker.''"

definition no_server_note :: "(language \<Rightarrow> string) \<Rightarrow> rel_path \<Rightarrow> string" where
  "no_server_note install_hint path =
     (case from_path path of
        Some l \<Rightarrow>
          ''language server not installed or not configured for '' @ language_debug l @ ''; cannot check diagnostics for ''
          @ as_str path @ ''. Install: '' @ install_hint l
          @ ''. Default get_diagnostics does not start an LSP; pass lsp=true only after the server is on PATH (or set ASTROLABE_LSP_*).''
      | None \<Rightarrow> ''language server not installed or not configured; cannot check diagnostics for '' @ as_str path)"

definition unknown_from_err :: "note_env \<Rightarrow> lsp_error \<Rightarrow> rel_path \<Rightarrow> diagnostic list precise" where
  "unknown_from_err N err path = precise_unknown [] (error_note N err path)"

section \<open>Pull, then push\<close>

datatype push_wait = Received "diagnostic list" | NeverReceived

text \<open>The operations of a client on a state \<open>'c\<close>, which \<open>&self\<close> hides.\<close>

record 'c diag_client =
  dc_supports_pull :: "'c \<Rightarrow> bool"
  dc_pull :: "rel_path \<Rightarrow> 'c \<Rightarrow> (lsp_error + diagnostic list) \<times> 'c"
  dc_open :: "rel_path \<Rightarrow> 'c \<Rightarrow> (lsp_error + unit) \<times> 'c"
  dc_close :: "rel_path \<Rightarrow> 'c \<Rightarrow> (lsp_error + unit) \<times> 'c"
  dc_wait_push :: "rel_path \<Rightarrow> nat \<Rightarrow> 'c \<Rightarrow> (lsp_error + push_wait) \<times> 'c"

record fetch_options =
  fo_filter :: severity_filter
  fo_push_timeout :: nat

definition default_options :: fetch_options where
  "default_options = \<lparr>fo_filter = ErrorsAndWarnings, fo_push_timeout = default_push_timeout\<rparr>"

definition pull_should_fall_back :: "lsp_error \<Rightarrow> bool" where
  "pull_should_fall_back err \<longleftrightarrow> (case err of Protocol _ \<Rightarrow> True | TimeoutErr _ \<Rightarrow> True | _ \<Rightarrow> False)"

definition wait_for_push ::
  "note_env \<Rightarrow> 'c diag_client \<Rightarrow> rel_path \<Rightarrow> fetch_options \<Rightarrow> 'c \<Rightarrow> diagnostic list precise \<times> 'c" where
  "wait_for_push N K path opts s =
     (case dc_wait_push K path (fo_push_timeout opts) s of
        (Inr (Received ds), s1) \<Rightarrow> (finalize ds (fo_filter opts), s1)
      | (Inr NeverReceived, s1) \<Rightarrow> (precise_unknown [] (never_received_note N path (fo_push_timeout opts)), s1)
      | (Inl err, s1) \<Rightarrow> (unknown_from_err N err path, s1))"

text \<open>The part of \<open>query\<close> under the document guard.\<close>

definition fetch ::
  "note_env \<Rightarrow> 'c diag_client \<Rightarrow> rel_path \<Rightarrow> fetch_options \<Rightarrow> 'c \<Rightarrow> diagnostic list precise \<times> 'c" where
  "fetch N K path opts s =
     (if dc_supports_pull K s
      then (case dc_pull K path s of
              (Inr ds, s1) \<Rightarrow> (finalize ds (fo_filter opts), s1)
            | (Inl err, s1) \<Rightarrow>
                if pull_should_fall_back err then wait_for_push N K path opts s1
                else (unknown_from_err N err path, s1))
      else wait_for_push N K path opts s)"

text \<open>The guard closes the document on every way out.\<close>

definition query_diagnostics ::
  "note_env \<Rightarrow> 'c diag_client \<Rightarrow> rel_path \<Rightarrow> fetch_options \<Rightarrow> 'c \<Rightarrow> diagnostic list precise \<times> 'c" where
  "query_diagnostics N K path opts s =
     (case dc_open K path s of
        (Inl err, s1) \<Rightarrow> (unknown_from_err N err path, s1)
      | (Inr _, s1) \<Rightarrow>
          (case fetch N K path opts s1 of (r, s2) \<Rightarrow> (r, snd (dc_close K path s2))))"

text \<open>The adapter over a pooled server: \<open>diagnostics\<close> is the server's operation of that name.\<close>

definition server_adapter :: "(rel_path \<Rightarrow> 'c \<Rightarrow> (lsp_error + diagnostic list) \<times> 'c) \<Rightarrow> 'c diag_client" where
  "server_adapter diagnostics =
     \<lparr>dc_supports_pull = (\<lambda>_. True), dc_pull = diagnostics, dc_open = (\<lambda>_ s. (Inr (), s)), dc_close = (\<lambda>_ s. (Inr (), s)),
      dc_wait_push = (\<lambda>_ _ s. (Inr NeverReceived, s))\<rparr>"

definition query_server ::
  "note_env \<Rightarrow> (language \<Rightarrow> string) \<Rightarrow> (rel_path \<Rightarrow> 'c \<Rightarrow> (lsp_error + diagnostic list) \<times> 'c) option \<Rightarrow> rel_path \<Rightarrow> fetch_options \<Rightarrow> 'c
     \<Rightarrow> diagnostic list precise \<times> 'c" where
  "query_server N install_hint server path opts s =
     (case server of
        Some diagnostics \<Rightarrow> query_diagnostics N (server_adapter diagnostics) path opts s
      | None \<Rightarrow> (precise_unknown [] (no_server_note install_hint path), s))"

text \<open>A running server as the pool hands it out: \<open>LspSession::diagnostics\<close> over the documents it holds.\<close>

definition session_server ::
  "'v json_view \<Rightarrow> 'h sync_env \<Rightarrow> (rel_path \<Rightarrow> string + string) \<Rightarrow> (rel_path \<Rightarrow> lsp_error + 'v)
     \<Rightarrow> (rel_path \<Rightarrow> 'h docs \<Rightarrow> diagnostic list) \<Rightarrow> rel_path \<Rightarrow> 'h docs \<Rightarrow> (lsp_error + diagnostic list) \<times> 'h docs" where
  "session_server J E content answer pushed path S =
     session_diagnostics (diagnostics_from_pull J) E path (content path) (answer path) (pushed path) S"

section \<open>Properties\<close>

lemma precise_simps [simp]:
  "pr_confidence (precise_exact v) = Exact" "pr_value (precise_exact v) = v" "pr_note (precise_exact v) = None"
  "pr_confidence (precise_unknown v n) = Unknown" "pr_value (precise_unknown v n) = v" "pr_note (precise_unknown v n) = Some n"
  by (simp_all add: precise_exact_def precise_unknown_def)

lemma unknown_from_err_unknown [simp]:
  "pr_confidence (unknown_from_err N err path) = Unknown" "pr_value (unknown_from_err N err path) = []"
  by (simp_all add: unknown_from_err_def)

definition answered :: "'c diag_client \<Rightarrow> rel_path \<Rightarrow> nat \<Rightarrow> 'c \<Rightarrow> diagnostic list \<Rightarrow> bool" where
  "answered K path timeout s ds \<longleftrightarrow>
     dc_supports_pull K s \<and> fst (dc_pull K path s) = Inr ds
     \<or> \<not> dc_supports_pull K s \<and> fst (dc_wait_push K path timeout s) = Inr (Received ds)
     \<or> dc_supports_pull K s \<and> (\<exists>err. fst (dc_pull K path s) = Inl err \<and> pull_should_fall_back err)
        \<and> fst (dc_wait_push K path timeout (snd (dc_pull K path s))) = Inr (Received ds)"

lemma fetch_cases:
  "(pr_confidence (fst (fetch N K path opts s)) = Exact
      \<and> (\<exists>ds. answered K path (fo_push_timeout opts) s ds \<and> fst (fetch N K path opts s) = finalize ds (fo_filter opts)))
   \<or> (pr_confidence (fst (fetch N K path opts s)) = Unknown \<and> pr_value (fst (fetch N K path opts s)) = []
      \<and> pr_note (fst (fetch N K path opts s)) \<noteq> None \<and> (\<forall>ds. \<not> answered K path (fo_push_timeout opts) s ds))"
proof -
  have w: "(pr_confidence (fst (wait_for_push N K path opts s)) = Exact
      \<and> (\<exists>ds. fst (dc_wait_push K path (fo_push_timeout opts) s) = Inr (Received ds)
             \<and> fst (wait_for_push N K path opts s) = finalize ds (fo_filter opts)))
   \<or> (pr_confidence (fst (wait_for_push N K path opts s)) = Unknown \<and> pr_value (fst (wait_for_push N K path opts s)) = []
      \<and> pr_note (fst (wait_for_push N K path opts s)) \<noteq> None
      \<and> (\<forall>ds. fst (dc_wait_push K path (fo_push_timeout opts) s) \<noteq> Inr (Received ds)))" for s
    by (auto simp: wait_for_push_def finalize_def unknown_from_err_def split: prod.split sum.split push_wait.split)
  show ?thesis
  proof (cases "dc_supports_pull K s")
    case False
    then show ?thesis using w [of s] by (auto simp: fetch_def answered_def)
  next
    case True
    obtain a s1 where p: "dc_pull K path s = (a, s1)" by (cases "dc_pull K path s")
    show ?thesis
    proof (cases a)
      case (Inr ds)
      then show ?thesis using True p by (auto simp: fetch_def answered_def finalize_def)
    next
      case (Inl err)
      then show ?thesis using True p w [of s1] by (auto simp: fetch_def answered_def unknown_from_err_def)
    qed
  qed
qed

text \<open>C17: A failure never looks like a clean file: the diagnostics of a file are called exact exactly when the
  server answered, by the pull or, where that is unsupported or failed in a way that allows it, by a
  publication, and then they are its answer, filtered and sorted; otherwise the result is unknown, empty
  and says why.\<close>

theorem failure_never_looks_clean:
  "(case dc_open K path s of
      (Inl err, s1) \<Rightarrow> fst (query_diagnostics N K path opts s) = unknown_from_err N err path
    | (Inr _, s1) \<Rightarrow>
        (if \<exists>ds. answered K path (fo_push_timeout opts) s1 ds
         then (\<exists>ds. answered K path (fo_push_timeout opts) s1 ds
                \<and> fst (query_diagnostics N K path opts s)
                    = precise_exact (sort_diagnostics (filter (\<lambda>d. allows (fo_filter opts) (dg_severity d)) ds)))
         else pr_confidence (fst (query_diagnostics N K path opts s)) = Unknown \<and> pr_value (fst (query_diagnostics N K path opts s)) = []
              \<and> pr_note (fst (query_diagnostics N K path opts s)) \<noteq> None))"
proof -
  obtain a s1 where fields: "dc_open K path s = (a, s1)" by (cases "dc_open K path s")
  show ?thesis
  proof (cases a)
    case (Inl err)
    then show ?thesis using fields by (simp add: query_diagnostics_def)
  next
    case (Inr u)
    have "fst (query_diagnostics N K path opts s) = fst (fetch N K path opts s1)"
      using fields Inr by (simp add: query_diagnostics_def split: prod.split)
    then show ?thesis using fetch_cases [of N K path opts s1] fields Inr
      by (auto simp: finalize_def)
  qed
qed

text \<open>C34: An error without a severity passes for a clean file.  The severity is optional in the protocol, and
  \<open>diagnostics.rs\<close> reads a missing one as an error so that no problem is missed; the answers to a pull go
  through \<open>transport.rs\<close>, which reads it as information, and the default filter drops that: a running server
  that reports any diagnostics without severity gives an exact and empty list.\<close>

theorem missing_severity_hidden:
  assumes "Option.bind (jv_get J v ''items'') (jv_array J) = Some items"
    and "\<forall>item\<in>set items. jv_get J item ''severity'' = None"
    and "answer path = Inr v" and "ensure_open E path (content path) S = (Inr (), S')"
  shows "query_server N install_hint (Some (session_server J E content answer pushed)) path default_options S
       = (precise_exact [], S')
    \<and> dg_severity (from_lsp_diagnostic path \<lparr>ld_range = rg, ld_severity = None, ld_message = m, ld_code = c\<rparr>) = Error"
proof -
  have sev: "dg_severity d = Information" if "d \<in> set (diagnostics_from_pull J v path)" for d
    using that assms(1,2)
    by (auto simp: diagnostics_from_pull_def List.map_filter_def diagnostic_from_value_def severity_from_u64_def split: option.splits)
  then have "filter (\<lambda>d. allows ErrorsAndWarnings (dg_severity d)) (diagnostics_from_pull J v path) = []"
    by (auto simp: filter_empty_conv allows_def)
  then have "finalize (diagnostics_from_pull J v path) ErrorsAndWarnings = precise_exact []"
    by (simp add: finalize_def sort_diagnostics_def)
  then show ?thesis
    using assms(3,4)
    by (simp add: query_server_def query_diagnostics_def server_adapter_def fetch_def session_server_def session_diagnostics_def
      default_options_def from_lsp_diagnostic_def severity_of_lsp_def)
qed

text \<open>A JSON value for the instance: one item with a range and a message and no severity.\<close>

datatype demo_json = JNum u64 | JStr string | JArr "demo_json list" | JObj "(string \<times> demo_json) list"

definition demo_json_view :: "demo_json json_view" where
  "demo_json_view =
     \<lparr>jv_null = (\<lambda>_. False), jv_object = (\<lambda>v. case v of JObj _ \<Rightarrow> True | _ \<Rightarrow> False),
      jv_get = (\<lambda>v k. case v of JObj fs \<Rightarrow> map_of fs k | _ \<Rightarrow> None),
      jv_str = (\<lambda>v. case v of JStr s \<Rightarrow> Some s | _ \<Rightarrow> None),
      jv_array = (\<lambda>v. case v of JArr vs \<Rightarrow> Some vs | _ \<Rightarrow> None),
      jv_entries = (\<lambda>v. case v of JObj fs \<Rightarrow> Some fs | _ \<Rightarrow> None),
      jv_u64 = (\<lambda>v. case v of JNum n \<Rightarrow> Some n | _ \<Rightarrow> None), jv_number = (\<lambda>_. None)\<rparr>"

definition demo_pos :: "u64 \<Rightarrow> demo_json" where
  "demo_pos c = JObj [(''line'', JNum 0), (''character'', JNum c)]"

definition demo_item :: demo_json where
  "demo_item = JObj [(''range'', JObj [(''start'', demo_pos 0), (''end'', demo_pos 2)]), (''message'', JStr ''broken'')]"

definition demo_report :: demo_json where
  "demo_report = JObj [(''items'', JArr [demo_item])]"

lemma demo_report_item: "map dg_message (diagnostics_from_pull demo_json_view demo_report demo_file) = [''broken'']"
  by (simp add: diagnostics_from_pull_def demo_json_view_def demo_report_def demo_item_def demo_pos_def List.map_filter_def
    diagnostic_from_value_def range_from_value_def position_from_value_def)

theorem missing_severity_hidden_witness:
  "query_server \<lparr>ne_tenths = (\<lambda>_. []), ne_duration = (\<lambda>_. [])\<rparr> (\<lambda>_. [])
     (Some (session_server demo_json_view demo_sync_env (\<lambda>_. Inr ''fn'') (\<lambda>_. Inr demo_report) (\<lambda>_ _. []))) demo_file default_options demo_open
   = (precise_exact [], snd (ensure_open demo_sync_env demo_file (Inr ''fn'') demo_open))"
proof -
  have "fst (ensure_open demo_sync_env demo_file (Inr ''fn'') demo_open) = Inr ()"
    by (simp add: demo_open_def ensure_open_def sync_text_def docs_new_def Let_def touch_doc_def send_note_def
      max_open_docs_def)
  then have e: "ensure_open demo_sync_env demo_file ((\<lambda>_. Inr ''fn'') demo_file) demo_open
      = (Inr (), snd (ensure_open demo_sync_env demo_file (Inr ''fn'') demo_open))" by (metis prod.collapse)
  have i: "Option.bind (jv_get demo_json_view demo_report ''items'') (jv_array demo_json_view) = Some [demo_item]"
    by (simp add: demo_json_view_def demo_report_def)
  have n: "\<forall>item\<in>set [demo_item]. jv_get demo_json_view item ''severity'' = None"
    by (simp add: demo_json_view_def demo_item_def)
  show ?thesis
    using missing_severity_hidden [OF i n, of "\<lambda>_. Inr demo_report" demo_file, OF refl e] by blast
qed

end
