(* ===== verification/Spec2Isabelle.thy ===== *)
theory Spec2Isabelle
  imports Prelude RelPaths FileIdx Languages GraphData Codec Store BTree ChangeSets Freshness Watcher Intake NamePath Pool LoopGuard Budget
    Edges Pairing GoIface Resolvers Assemble ParseStep Products Incremental Rebuild Reindex Session CodeMask Framing Transport
    Paths Roots DocSync TextSearch Queries Diagnostics
begin
text \<open>
  Astrolabe is a code-intelligence server: it scans a repository, parses every source file, resolves
  imports, assembles a graph of files and symbols, keeps it up to date from file events, and answers
  queries over it for agents.  This development models the engine in \<open>crates/astrolabe-core\<close> and the
  parts of the server in \<open>crates/astrolabe-mcp\<close> that decide rather than transport.  Paths below are
  under \<open>src/crates/astrolabe-core/src\<close> unless they say otherwise.

  How the parts interact.  \<open>scan.rs\<close> delivers paths; \<open>types.rs\<close> normalises them, indexes them and
  detects languages; \<open>index.rs\<close> parses each file through the persistent cache of \<open>store.rs\<close>, detects
  the project with \<open>resolvers/mod.rs\<close>, and assembles the graph; an \<open>IncrementalIndex\<close> absorbs the change
  sets that \<open>watch.rs\<close> derives from events and safety scans and merges in order; \<open>freshness.rs\<close> lets a
  query wait for, or distrust, what the watcher knows; \<open>name_path.rs\<close> and \<open>go_iface.rs\<close> answer queries on
  the graph; \<open>lsp/pool.rs\<close> keeps language servers for the questions the graph cannot answer;
  \<open>session.rs\<close> joins them: it applies what the watcher delivers, settles and repairs before a query
  reads, and replaces the index when a rebuild publishes; \<open>roots.rs\<close> decides which roots have a session.

  Theories and code.
  \<^item> \<open>Prelude\<close>: strings as byte lists with their UTF-8 characters, the standard-library operations the
    code uses (splitting, trimming, binary search, stable grouping), panics (\<open>run\<close>), decimal text.
  \<^item> \<open>RelPaths\<close>, \<open>FileIdx\<close>, \<open>Languages\<close>, \<open>GraphData\<close> (\<open>types.rs\<close>): repository-relative paths, the file index and
    its prefix seek, language detection, ids, symbols, edges and project facts.
  \<^item> \<open>Codec\<close>, \<open>Store\<close> (\<open>store.rs\<close>): the binary payloads of the parse cache and the database behind it; the
    database engine is the record \<open>redb\<close> of its operations with the laws \<open>redb_laws\<close>, satisfied by the
    in-memory instance \<open>mem_redb\<close>.
  \<^item> \<open>BTree\<close>, \<open>ChangeSets\<close>, \<open>Freshness\<close>, \<open>Watcher\<close>, \<open>Intake\<close> (\<open>watch.rs\<close>, \<open>freshness.rs\<close>): ordered maps under a locale
    interpreted on association lists, change sets and their merge, the suspect log and the query
    barrier, full and directed checks, the event queue and the decisions of one loop turn.
  \<^item> \<open>NamePath\<close> (\<open>name_path.rs\<close>), \<open>Pool\<close> (\<open>lsp/pool.rs\<close>), \<open>LoopGuard\<close> (\<open>astrolabe-mcp/src/loop_guard.rs\<close>), \<open>Budget\<close>
    (\<open>budget.rs\<close>): queries by name path, the pool's slots under interleaved checkouts, reclaims and
    crashes, the guard against search loops, the token budget.
  \<^item> \<open>Edges\<close>, \<open>Pairing\<close>, \<open>GoIface\<close>, \<open>Resolvers\<close>, \<open>Assemble\<close> (\<open>index.rs\<close>, \<open>resolvers/c_cpp.rs\<close>, \<open>go_iface.rs\<close>,
    \<open>resolvers/mod.rs\<close>): the edges of the graph and their assembly.
  \<^item> \<open>ParseStep\<close>, \<open>Products\<close>, \<open>Incremental\<close>, \<open>Rebuild\<close> (\<open>index.rs\<close>): the parse of one file through the caches,
    the in-memory products, the full build, the incremental apply, and their equality.
  \<^item> \<open>Reindex\<close> (\<open>astrolabe-mcp/src/reindex.rs\<close>, \<open>knobs.rs\<close>, \<open>elect.rs\<close>), \<open>Session\<close> (\<open>astrolabe-mcp/src/session.rs\<close>): the coalescing
    of change sets before an apply, the knobs read from the environment, and the session that owns
    the graph, the watcher's log and the rebuilds, as an interleaving relation on its lock-sized steps.
  \<^item> \<open>CodeMask\<close> (\<open>astrolabe-mcp/src/code_mask.rs\<close>): the lexer that blanks comments and strings for text searches.
  \<^item> \<open>Framing\<close>, \<open>Transport\<close> (\<open>lsp/transport.rs\<close>): frames cut from the bytes a language server writes, however
    the pipe chunks them, and the requests waiting for answers, as an interleaving of callers, the
    reader, the writer and the end of the server; when a server counts as busy or ready.
  \<^item> \<open>Paths\<close> (\<open>paths.rs\<close>, \<open>lsp/transport.rs\<close>): comparison of paths in the spellings of Windows, path filters, file
    URIs there and back.
  \<^item> \<open>Roots\<close> (\<open>astrolabe-mcp/src/roots.rs\<close>, \<open>session.rs\<close>): routing of a hint to a root, the resident roots, and the
    sessions opened and torn down for them by overlapping calls and the idle ticker.
  \<^item> \<open>DocSync\<close> (\<open>LspSession\<close> of \<open>lsp/transport.rs\<close>): the documents a language server has open, as the session
    records them and as the server sees them from the notifications it is sent.
  \<^item> \<open>TextSearch\<close> (\<open>lsp/fallback.rs\<close>, \<open>lsp/anchor.rs\<close>): the whole-word text search and the anchors found by text.
  \<^item> \<open>Queries\<close> (\<open>lsp/queries.rs\<close>), \<open>Diagnostics\<close> (\<open>lsp/diagnostics.rs\<close>): the precise queries answered by a server,
    from the position asked for to the list returned, with the confidence claimed for it.

  What the lemmas show.  Codecs round-trip and reject cut input; the store loses nothing live; merging
  change sets is applying them in sequence; checks seal the log, and their directed form agrees with
  the full one; guards and counters of the pool agree in every interleaving; the assembled edges are
  canonical and exact; parsing through the cache and applying changes incrementally give what a
  parse from scratch and a full build give; every change a session is handed reaches the index it
  serves, in every interleaving of its threads that the stated conditions allow; the mask keeps
  positions and blanks exactly the comments; every answer of a server reaches the request it answers,
  and no request waits once the server is gone; the resident roots are the most recently used, and
  have the sessions as long as calls do not overlap; the documents a session records are those its
  server has, at the same versions; an answer called exact is the whole answer of a ready server, and
  a failure never looks like a clean file.  Several theorems state what the code does against its
  own documentation; the manifest lists them as findings.

  Bounds and fuel.  Words keep their width (\<open>u8\<close> to \<open>u64\<close>); counters the code holds in \<open>usize\<close> are natural
  numbers.  Loops are structural or carry a measure; no definition needs fuel.  Time is a natural
  number of nanoseconds or milliseconds given as an argument.  Parallel maps of the code are maps
  over the list they run on.

  Not modelled.  The tree-sitter walks of \<open>parse/\<close>, the per-language resolvers and the directory walk
  rest on third-party crates and are arguments of the definitions that use them.  PageRank is
  floating-point.  The protocol handlers of \<open>astrolabe-mcp\<close>, process management of the language
  servers and the installers are input and output.  The reasons per part are in the manifest.
\<close>
end
